(* ===== verification/UInt_Limbs.thy ===== *)
theory UInt_Limbs
  imports Prelude
begin

text \<open>
  The multi-limb unsigned integers of \<^verbatim>\<open>src/src/crypto/uint256.h\<close>.  An object of the class
  template \<^verbatim>\<open>base_uint<BITS>\<close> is its array \<^verbatim>\<open>pn\<close>, a list of \<open>WIDTH\<close> 32-bit limbs with the least
  significant limb first.  Every operator of the template is one definition below, written
  with the loops, carries and 64-bit intermediate values of the source.  \<open>limbs_val\<close> is the
  number such an array stands for, and the lemmas of the collection \<open>uint_val\<close> say which
  number each operator computes; the last section lifts the operators to the 256-bit word
  type that the other components use.
\<close>

type_synonym base_uint = "u32 list"

section \<open>Operators of the class template\<close>

subsection \<open>Negation, assignment and bitwise operators\<close>

fun uint_lnot :: "base_uint \<Rightarrow> bool" where
  "uint_lnot [] = True"
| "uint_lnot (p # pn) = (if p \<noteq> 0 then False else uint_lnot pn)"

definition uint_compl :: "base_uint \<Rightarrow> base_uint" where
  "uint_compl pn = map (\<lambda>p. NOT p) pn"

text \<open>Prefix \<^verbatim>\<open>++\<close>: the carry runs on while the incremented limb has become zero.\<close>

fun uint_inc :: "base_uint \<Rightarrow> base_uint" where
  "uint_inc [] = []"
| "uint_inc (p # pn) =
     (let p' = p + 1 in if p' = 0 \<and> pn \<noteq> [] then p' # uint_inc pn else p' # pn)"

text \<open>Prefix \<^verbatim>\<open>--\<close>: the borrow runs on while the decremented limb equals \<open>-1\<close>.\<close>

fun uint_dec :: "base_uint \<Rightarrow> base_uint" where
  "uint_dec [] = []"
| "uint_dec (p # pn) =
     (let p' = p - 1 in if p' = -1 \<and> pn \<noteq> [] then p' # uint_dec pn else p' # pn)"

definition uint_neg :: "base_uint \<Rightarrow> base_uint" where
  "uint_neg pn = uint_inc (map (\<lambda>p. NOT p) pn)"

definition uint_of_u64 :: "nat \<Rightarrow> u64 \<Rightarrow> base_uint" where
  "uint_of_u64 W b = [ucast b, ucast (drop_bit 32 b)] @ replicate (W - 2) 0"

definition uint_xor :: "base_uint \<Rightarrow> base_uint \<Rightarrow> base_uint" where
  "uint_xor a b = map2 (\<lambda>x y. x XOR y) a b"

definition uint_and :: "base_uint \<Rightarrow> base_uint \<Rightarrow> base_uint" where
  "uint_and a b = map2 (\<lambda>x y. x AND y) a b"

definition uint_or :: "base_uint \<Rightarrow> base_uint \<Rightarrow> base_uint" where
  "uint_or a b = map2 (\<lambda>x y. x OR y) a b"

definition uint_xor64 :: "base_uint \<Rightarrow> u64 \<Rightarrow> base_uint" where
  "uint_xor64 a b = a[0 := a ! 0 XOR ucast b, 1 := a ! 1 XOR ucast (drop_bit 32 b)]"

definition uint_or64 :: "base_uint \<Rightarrow> u64 \<Rightarrow> base_uint" where
  "uint_or64 a b = a[0 := a ! 0 OR ucast b, 1 := a ! 1 OR ucast (drop_bit 32 b)]"

subsection \<open>Shifts\<close>

text \<open>One iteration of the loop of \<^verbatim>\<open>operator<<=\<close>, with \<open>k = shift / 32\<close> and \<open>s = shift % 32\<close>.\<close>

definition shl_step :: "base_uint \<Rightarrow> nat \<Rightarrow> nat \<Rightarrow> nat \<Rightarrow> base_uint \<Rightarrow> base_uint" where
  "shl_step a k s i pn =
     (let pn1 = (if i + k + 1 < length a \<and> s \<noteq> 0
                 then pn[i + k + 1 := pn ! (i + k + 1) OR drop_bit (32 - s) (a ! i)] else pn)
      in if i + k < length a then pn1[i + k := pn1 ! (i + k) OR push_bit s (a ! i)] else pn1)"

definition uint_shl :: "base_uint \<Rightarrow> nat \<Rightarrow> base_uint" where
  "uint_shl a shift =
     fold (shl_step a (shift div 32) (shift mod 32)) [0..<length a] (replicate (length a) 0)"

definition shr_step :: "base_uint \<Rightarrow> nat \<Rightarrow> nat \<Rightarrow> nat \<Rightarrow> base_uint \<Rightarrow> base_uint" where
  "shr_step a k s i pn =
     (let pn1 = (if k + 1 \<le> i \<and> s \<noteq> 0
                 then pn[i - k - 1 := pn ! (i - k - 1) OR push_bit (32 - s) (a ! i)] else pn)
      in if k \<le> i then pn1[i - k := pn1 ! (i - k) OR drop_bit s (a ! i)] else pn1)"

definition uint_shr :: "base_uint \<Rightarrow> nat \<Rightarrow> base_uint" where
  "uint_shr a shift =
     fold (shr_step a (shift div 32) (shift mod 32)) [0..<length a] (replicate (length a) 0)"

subsection \<open>Addition, subtraction and multiplication\<close>

fun add_loop :: "u64 \<Rightarrow> base_uint \<Rightarrow> base_uint \<Rightarrow> base_uint" where
  "add_loop carry (p # pn) (b # bs) =
     (let n = carry + ucast p + ucast b
      in ucast (n AND 0xffffffff) # add_loop (drop_bit 32 n) pn bs)"
| "add_loop carry pn bs = []"

definition uint_add :: "base_uint \<Rightarrow> base_uint \<Rightarrow> base_uint" where
  "uint_add a b = add_loop 0 a b"

definition uint_sub :: "base_uint \<Rightarrow> base_uint \<Rightarrow> base_uint" where
  "uint_sub a b = uint_add a (uint_neg b)"

definition uint_add64 :: "base_uint \<Rightarrow> u64 \<Rightarrow> base_uint" where
  "uint_add64 a b64 = uint_add a (uint_of_u64 (length a) b64)"

definition uint_sub64 :: "base_uint \<Rightarrow> u64 \<Rightarrow> base_uint" where
  "uint_sub64 a b64 = uint_add a (uint_neg (uint_of_u64 (length a) b64))"

fun mul32_loop :: "u64 \<Rightarrow> u32 \<Rightarrow> base_uint \<Rightarrow> base_uint" where
  "mul32_loop carry b32 [] = []"
| "mul32_loop carry b32 (p # pn) =
     (let n = carry + ucast b32 * ucast p
      in ucast (n AND 0xffffffff) # mul32_loop (drop_bit 32 n) b32 pn)"

definition uint_mul32 :: "base_uint \<Rightarrow> u32 \<Rightarrow> base_uint" where
  "uint_mul32 a b32 = mul32_loop 0 b32 a"

text \<open>
  The inner loop of \<^verbatim>\<open>operator*=(const base_uint&)\<close> for one \<open>j\<close>: the limbs \<open>a.pn[i + j]\<close> from
  \<open>j\<close> on, against \<open>b.pn[i]\<close>.
\<close>

fun mul_row :: "u64 \<Rightarrow> u32 \<Rightarrow> base_uint \<Rightarrow> base_uint \<Rightarrow> base_uint" where
  "mul_row carry pj (a # as) (b # bs) =
     (let n = carry + ucast a + ucast pj * ucast b
      in ucast (n AND 0xffffffff) # mul_row (drop_bit 32 n) pj as bs)"
| "mul_row carry pj as bs = []"

text \<open>
  The whole operator.  The accumulator is declared \<^verbatim>\<open>base_uint<BITS> a;\<close> and the template has
  no constructor, so its limbs start with whatever the memory held: \<open>a0\<close> is that content.
\<close>

definition uint_mul :: "base_uint \<Rightarrow> base_uint \<Rightarrow> base_uint \<Rightarrow> base_uint" where
  "uint_mul a0 pn b =
     fold (\<lambda>j a. take j a @ mul_row 0 (pn ! j) (drop j a) b) [0..<length pn] a0"

subsection \<open>Comparison\<close>

text \<open>The loops run from the most significant limb down; \<open>n\<close> limbs are left to compare.\<close>

primrec lt_loop :: "base_uint \<Rightarrow> base_uint \<Rightarrow> nat \<Rightarrow> bool" where
  "lt_loop a b 0 = False"
| "lt_loop a b (Suc i) =
     (if a ! i < b ! i then True else if a ! i > b ! i then False else lt_loop a b i)"

definition uint_lt :: "base_uint \<Rightarrow> base_uint \<Rightarrow> bool" where
  "uint_lt a b = lt_loop a b (length a)"

primrec le_loop :: "base_uint \<Rightarrow> base_uint \<Rightarrow> nat \<Rightarrow> bool" where
  "le_loop a b 0 = True"
| "le_loop a b (Suc i) =
     (if a ! i < b ! i then True else if a ! i > b ! i then False else le_loop a b i)"

definition uint_le :: "base_uint \<Rightarrow> base_uint \<Rightarrow> bool" where
  "uint_le a b = le_loop a b (length a)"

primrec gt_loop :: "base_uint \<Rightarrow> base_uint \<Rightarrow> nat \<Rightarrow> bool" where
  "gt_loop a b 0 = False"
| "gt_loop a b (Suc i) =
     (if a ! i > b ! i then True else if a ! i < b ! i then False else gt_loop a b i)"

definition uint_gt :: "base_uint \<Rightarrow> base_uint \<Rightarrow> bool" where
  "uint_gt a b = gt_loop a b (length a)"

primrec ge_loop :: "base_uint \<Rightarrow> base_uint \<Rightarrow> nat \<Rightarrow> bool" where
  "ge_loop a b 0 = True"
| "ge_loop a b (Suc i) =
     (if a ! i > b ! i then True else if a ! i < b ! i then False else ge_loop a b i)"

definition uint_ge :: "base_uint \<Rightarrow> base_uint \<Rightarrow> bool" where
  "uint_ge a b = ge_loop a b (length a)"

fun uint_eq :: "base_uint \<Rightarrow> base_uint \<Rightarrow> bool" where
  "uint_eq (x # xs) (y # ys) = (if x \<noteq> y then False else uint_eq xs ys)"
| "uint_eq xs ys = True"

definition uint_eq64 :: "base_uint \<Rightarrow> u64 \<Rightarrow> bool" where
  "uint_eq64 a b =
     (if a ! 0 \<noteq> ucast b then False
      else if a ! 1 \<noteq> ucast (drop_bit 32 b) then False
      else list_all (\<lambda>p. p = 0) (drop 2 a))"

subsection \<open>Bit length and division\<close>

text \<open>The loop over \<^verbatim>\<open>nbits\<close> from 31 down to 1 inside \<^verbatim>\<open>Bits\<close>; a non-zero limb with no such bit has
  only bit 0.\<close>

primrec limb_bits :: "u32 \<Rightarrow> nat \<Rightarrow> nat" where
  "limb_bits p 0 = 1"
| "limb_bits p (Suc n) = (if p AND push_bit (Suc n) 1 \<noteq> 0 then Suc (Suc n) else limb_bits p n)"

primrec bits_loop :: "base_uint \<Rightarrow> nat \<Rightarrow> nat" where
  "bits_loop pn 0 = 0"
| "bits_loop pn (Suc pos) =
     (if pn ! pos \<noteq> 0 then 32 * pos + limb_bits (pn ! pos) 31 else bits_loop pn pos)"

definition uint_bits :: "base_uint \<Rightarrow> nat" where
  "uint_bits pn = bits_loop pn (length pn)"

text \<open>
  The shift-and-subtract loop of \<^verbatim>\<open>operator/=\<close>: \<open>n\<close> counts the iterations left, so the source's
  variable \<^verbatim>\<open>shift\<close> is \<open>n - 1\<close>.
\<close>

primrec div_loop :: "nat \<Rightarrow> base_uint \<Rightarrow> base_uint \<Rightarrow> base_uint \<Rightarrow> base_uint" where
  "div_loop 0 num dv q = q"
| "div_loop (Suc sh) num dv q =
     (if uint_ge num dv
      then div_loop sh (uint_sub num dv) (uint_shr dv 1)
             (q[sh div 32 := q ! (sh div 32) OR push_bit (sh mod 32) 1])
      else div_loop sh num (uint_shr dv 1) q)"

definition uint_div :: "base_uint \<Rightarrow> base_uint \<Rightarrow> base_uint" where
  "uint_div num dv =
     (let num_bits = uint_bits num; div_bits = uint_bits dv; q = uint_of_u64 (length num) 0
      in if div_bits = 0 \<or> div_bits > num_bits then q
         else let shift = num_bits - div_bits
              in div_loop (Suc shift) num (uint_shl dv shift) q)"

subsection \<open>Access to parts\<close>

definition uint_get64 :: "base_uint \<Rightarrow> nat \<Rightarrow> u64" where
  "uint_get64 pn n = ucast (pn ! (2 * n)) OR push_bit 32 (ucast (pn ! (2 * n + 1)))"

definition uint_get32 :: "base_uint \<Rightarrow> nat \<Rightarrow> u32" where
  "uint_get32 pn n = pn ! n"

definition uint_low64 :: "base_uint \<Rightarrow> u64" where
  "uint_low64 pn =
     (if length pn \<ge> 2 then ucast (pn ! 0) OR push_bit 32 (ucast (pn ! 1))
      else if length pn = 1 then ucast (pn ! 0) else 0)"

section \<open>The number an array of limbs stands for\<close>

fun limbs_val :: "base_uint \<Rightarrow> nat" where
  "limbs_val [] = 0"
| "limbs_val (p # pn) = unat p + 2 ^ 32 * limbs_val pn"

lemma unat_u32_less: "unat (x :: u32) < 4294967296"
  using unsigned_less [of x, where ?'a = nat] by simp

lemma limbs_val_less: "limbs_val pn < 2 ^ (32 * length pn)"
proof (induction pn)
  case Nil
  then show ?case by simp
next
  case (Cons p pn)
  have "unat p < 2 ^ 32" using unat_u32_less [of p] by simp
  moreover from Cons.IH have "limbs_val pn + 1 \<le> 2 ^ (32 * length pn)" by simp
  then have "2 ^ 32 * (limbs_val pn + 1) \<le> 2 ^ 32 * 2 ^ (32 * length pn)"
    by (rule mult_le_mono2)
  ultimately show ?case by (simp add: power_add)
qed

lemma limbs_val_mod [simp]: "limbs_val pn mod 2 ^ (32 * length pn) = limbs_val pn"
  by (simp add: limbs_val_less)

lemma limbs_val_append:
  "limbs_val (xs @ ys) = limbs_val xs + 2 ^ (32 * length xs) * limbs_val ys"
  by (induction xs) (simp_all add: algebra_simps power_add)

lemma limbs_val_replicate_0 [simp]: "limbs_val (replicate n 0) = 0"
  by (induction n) simp_all

lemma limbs_val_inject:
  "length xs = length ys \<Longrightarrow> limbs_val xs = limbs_val ys \<longleftrightarrow> xs = ys"
proof (induction xs ys rule: list_induct2)
  case Nil
  then show ?case by simp
next
  case (Cons x xs y ys)
  have "unat x = unat y \<and> limbs_val xs = limbs_val ys"
    if eq: "unat x + 4294967296 * limbs_val xs = unat y + 4294967296 * limbs_val ys"
  proof -
    from eq have "(unat x + 4294967296 * limbs_val xs) mod 4294967296
        = (unat y + 4294967296 * limbs_val ys) mod 4294967296" by simp
    then have "unat x = unat y" by (simp add: unat_u32_less)
    with eq show ?thesis by simp
  qed
  with Cons.IH show ?case by (auto simp: word_unat_eq_iff)
qed

lemma limbs_val_eq_0_iff: "limbs_val pn = 0 \<longleftrightarrow> (\<forall>p \<in> set pn. p = 0)"
  by (induction pn) (auto simp: unat_eq_zero)

text \<open>The carry step every arithmetic loop performs, on numbers.\<close>

lemma carry_step:
  fixes n :: nat
  shows "n mod B + B * ((n div B + m) mod M) = (n + B * m) mod (B * M)"
proof (cases "B = 0")
  case False
  then have "(n + B * m) div B = n div B + m" and "(n + B * m) mod B = n mod B"
    by simp_all
  then show ?thesis by (simp add: mod_mult2_eq)
qed simp

lemma unat_low_limb: "unat (ucast (n AND 0xffffffff) :: u32) = unat (n :: u64) mod 2 ^ 32"
proof -
  have "n AND 0xffffffff = take_bit 32 n"
    by (simp add: take_bit_eq_mask mask_eq_exp_minus_1)
  then show ?thesis
    by (simp only: unsigned_ucast_eq unsigned_take_bit_eq) (simp add: take_bit_eq_mod)
qed

lemma unat_high_limb: "unat (drop_bit 32 (n :: u64)) = unat n div 2 ^ 32"
  unfolding unat_drop_bit_eq by (simp add: drop_bit_eq_div)

lemma unat_ucast_32_64 [simp]: "unat (ucast (x :: u32) :: u64) = unat x"
  by (simp add: unsigned_ucast_eq take_bit_nat_eq_self_iff less_trans [OF unat_u32_less])

subsection \<open>Addition and subtraction\<close>

lemma length_add_loop [simp]:
  "length xs = length ys \<Longrightarrow> length (add_loop c xs ys) = length xs"
  by (induction c xs ys rule: add_loop.induct) (simp_all add: Let_def)

lemma add_loop_val:
  "length xs = length ys \<Longrightarrow> unat c \<le> 1 \<Longrightarrow>
   limbs_val (add_loop c xs ys) = (unat c + limbs_val xs + limbs_val ys) mod 2 ^ (32 * length xs)"
proof (induction c xs ys rule: add_loop.induct)
  case (1 c p pn b bs)
  define n where "n = c + ucast p + ucast b"
  have "unat c + unat p + unat b < 2 ^ 64"
    using "1.prems" unat_u32_less [of p] unat_u32_less [of b] by simp
  then have n: "unat n = unat c + unat p + unat b"
    by (simp add: n_def unat_word_ariths)
  have "unat (drop_bit 32 n) \<le> 1"
    using n "1.prems" unat_u32_less [of p] unat_u32_less [of b] by (simp add: unat_high_limb)
  with "1.prems" have IH: "limbs_val (add_loop (drop_bit 32 n) pn bs)
      = (unat n div 2 ^ 32 + (limbs_val pn + limbs_val bs)) mod 2 ^ (32 * length pn)"
    using "1.IH" [OF n_def] by (simp add: unat_high_limb add.assoc)
  have "limbs_val (add_loop c (p # pn) (b # bs))
      = unat n mod 2 ^ 32 + 2 ^ 32 * limbs_val (add_loop (drop_bit 32 n) pn bs)"
    by (simp add: Let_def n_def [symmetric] unat_low_limb)
  also have "\<dots> = (unat n + 2 ^ 32 * (limbs_val pn + limbs_val bs)) mod (2 ^ 32 * 2 ^ (32 * length pn))"
    unfolding IH by (rule carry_step)
  also have "\<dots> = (unat c + limbs_val (p # pn) + limbs_val (b # bs)) mod 2 ^ (32 * length (p # pn))"
    by (simp add: n algebra_simps power_add)
  finally show ?case .
qed simp_all

lemma length_uint_add [simp]: "length a = length b \<Longrightarrow> length (uint_add a b) = length b"
  by (simp add: uint_add_def)

lemma uint_add_val [uint_val]:
  "length a = length b \<Longrightarrow>
   limbs_val (uint_add a b) = (limbs_val a + limbs_val b) mod 2 ^ (32 * length b)"
  by (simp add: uint_add_def add_loop_val)

lemma length_uint_inc [simp]: "length (uint_inc pn) = length pn"
  by (induction pn) (simp_all add: Let_def)

lemma unat_succ_limb: "unat (p + 1 :: u32) = (unat p + 1) mod 2 ^ 32"
  by (simp add: unat_word_ariths)

lemma uint_inc_val [uint_val]: "limbs_val (uint_inc pn) = (limbs_val pn + 1) mod 2 ^ (32 * length pn)"
proof (induction pn)
  case Nil
  then show ?case by simp
next
  case (Cons p pn)
  show ?case
  proof (cases "p + 1 = 0")
    case True
    then have p: "p = -1" by (simp add: add_eq_0_iff2)
    then have up: "unat p = 4294967295"
      by (simp add: unsigned_minus_1_eq_mask mask_eq_exp_minus_1)
    show ?thesis
    proof (cases "pn = []")
      case True
      with p up show ?thesis by simp
    next
      case False
      then have "limbs_val (uint_inc (p # pn)) = 2 ^ 32 * ((limbs_val pn + 1) mod 2 ^ (32 * length pn))"
        using p Cons.IH by (simp add: Let_def)
      also have "\<dots> = (2 ^ 32 * (limbs_val pn + 1)) mod (2 ^ 32 * 2 ^ (32 * length pn))"
        by (rule mult_mod_right)
      also have "\<dots> = (limbs_val (p # pn) + 1) mod 2 ^ (32 * length (p # pn))"
        by (simp add: up power_add algebra_simps)
      finally show ?thesis .
    qed
  next
    case False
    then have "unat p + 1 \<noteq> 2 ^ 32"
      using unat_eq_zero [of "p + 1"] by (auto simp: unat_word_ariths)
    then have lt: "unat p + 1 < 2 ^ 32" using unat_u32_less [of p] by simp
    with False have eq: "limbs_val (uint_inc (p # pn)) = limbs_val (p # pn) + 1"
      by (simp add: Let_def unat_succ_limb)
    have "limbs_val (uint_inc (p # pn)) < 2 ^ (32 * length (p # pn))"
      using limbs_val_less [of "uint_inc (p # pn)"] by (simp only: length_uint_inc)
    with eq show ?thesis by simp
  qed
qed

lemma length_uint_compl [simp]: "length (uint_compl pn) = length pn"
  by (simp add: uint_compl_def)

lemma unat_not_limb: "unat (NOT p :: u32) = 2 ^ 32 - 1 - unat p"
proof -
  have "NOT p = - 1 - p" by (simp add: not_eq_complement)
  then have "unat (NOT p) = unat (- 1 - p)" by (simp only:)
  also have "\<dots> = unat (- 1 :: u32) - unat p"
    by (rule unat_sub) simp
  finally show ?thesis by (simp add: unsigned_minus_1_eq_mask mask_eq_exp_minus_1)
qed

lemma uint_compl_val [uint_val]:
  "limbs_val (uint_compl pn) = 2 ^ (32 * length pn) - 1 - limbs_val pn"
proof (induction pn)
  case Nil
  then show ?case by (simp add: uint_compl_def)
next
  case (Cons p pn)
  have "limbs_val (uint_compl (p # pn)) = (2 ^ 32 - 1 - unat p) + 2 ^ 32 * limbs_val (uint_compl pn)"
    by (simp add: uint_compl_def unat_not_limb)
  moreover have "limbs_val pn + 1 \<le> 2 ^ (32 * length pn)"
    using limbs_val_less [of pn] by simp
  ultimately show ?case
    using Cons.IH unat_u32_less [of p] by (simp add: power_add)
qed

lemma length_uint_neg [simp]: "length (uint_neg pn) = length pn"
  by (simp add: uint_neg_def)

lemma uint_neg_val [uint_val]:
  "limbs_val (uint_neg pn) = (2 ^ (32 * length pn) - limbs_val pn) mod 2 ^ (32 * length pn)"
proof -
  have "limbs_val (uint_neg pn) = (limbs_val (uint_compl pn) + 1) mod 2 ^ (32 * length pn)"
    by (simp add: uint_neg_def uint_compl_def uint_inc_val)
  then show ?thesis
    using limbs_val_less [of pn] by (simp add: uint_compl_val Suc_diff_Suc)
qed

lemma length_uint_sub [simp]: "length a = length b \<Longrightarrow> length (uint_sub a b) = length b"
  by (simp add: uint_sub_def)

lemma uint_sub_val_wrap:
  assumes "length a = length b"
  shows "limbs_val (uint_sub a b)
    = (limbs_val a + 2 ^ (32 * length b) - limbs_val b) mod 2 ^ (32 * length b)"
proof -
  have "limbs_val (uint_sub a b)
      = (limbs_val a + (2 ^ (32 * length b) - limbs_val b) mod 2 ^ (32 * length b)) mod 2 ^ (32 * length b)"
    using assms by (simp add: uint_sub_def uint_add_val uint_neg_val)
  also have "\<dots> = (limbs_val a + (2 ^ (32 * length b) - limbs_val b)) mod 2 ^ (32 * length b)"
    by (rule mod_add_right_eq)
  finally show ?thesis
    using limbs_val_less [of b] by simp
qed

lemma uint_sub_val [uint_val]:
  assumes "length a = length b" and "limbs_val b \<le> limbs_val a"
  shows "limbs_val (uint_sub a b) = limbs_val a - limbs_val b"
proof -
  have "limbs_val a + 2 ^ (32 * length b) - limbs_val b
      = (limbs_val a - limbs_val b) + 2 ^ (32 * length b)"
    using assms(2) by simp
  moreover have "limbs_val a - limbs_val b < 2 ^ (32 * length b)"
    using limbs_val_less [of a] assms(1) by simp
  ultimately show ?thesis
    by (simp only: uint_sub_val_wrap [OF assms(1)] mod_add_self2 mod_less)
qed

lemma length_uint_dec [simp]: "length (uint_dec pn) = length pn"
  by (induction pn) (simp_all add: Let_def)

lemma uint_inc_eq_Nil [simp]: "uint_inc pn = [] \<longleftrightarrow> pn = []"
  by (metis length_0_conv length_uint_inc)

lemma uint_dec_eq_Nil [simp]: "uint_dec pn = [] \<longleftrightarrow> pn = []"
  by (metis length_0_conv length_uint_dec)

lemma uint_dec_inc: "uint_dec (uint_inc pn) = pn"
  by (induction pn) (auto simp: Let_def add_eq_0_iff2)

lemma uint_inc_dec: "uint_inc (uint_dec pn) = pn"
  by (induction pn) (auto simp: Let_def)

subsection \<open>Conversion from 64 bits\<close>

lemma length_uint_of_u64 [simp]: "2 \<le> W \<Longrightarrow> length (uint_of_u64 W b) = W"
  by (simp add: uint_of_u64_def)

lemma unat_ucast_u32: "unat (ucast (b :: u64) :: u32) = unat b mod 2 ^ 32"
  by (simp add: unsigned_ucast_eq take_bit_eq_mod)

lemma unat_high_u32: "unat (ucast (drop_bit 32 (b :: u64)) :: u32) = unat b div 2 ^ 32"
proof -
  have "unat b div 2 ^ 32 < 2 ^ 32"
    using unsigned_less [of b, where ?'a = nat] by (simp add: less_mult_imp_div_less)
  then show ?thesis by (simp only: unat_ucast_u32 unat_high_limb mod_less)
qed

lemma uint_of_u64_val [uint_val]: "limbs_val (uint_of_u64 W b) = unat b"
proof -
  have "unat b mod 2 ^ 32 + 2 ^ 32 * (unat b div 2 ^ 32) = unat b" by simp
  moreover have "limbs_val (uint_of_u64 W b)
      = unat (ucast b :: u32) + 2 ^ 32 * unat (ucast (drop_bit 32 b) :: u32)"
    unfolding uint_of_u64_def by (simp only: limbs_val.simps append_Cons append_Nil limbs_val_replicate_0) simp
  ultimately show ?thesis by (simp only: unat_high_u32) (simp only: unat_ucast_u32)
qed

subsection \<open>Multiplication\<close>

lemma limb_product_bound:
  fixes x y c d :: nat
  assumes "x < 2 ^ 32" "y < 2 ^ 32" "c < 2 ^ 32" "d < 2 ^ 32"
  shows "c + d + x * y < 2 ^ 64"
proof -
  have "x * y \<le> (2 ^ 32 - 1) * (2 ^ 32 - 1)"
    using assms(1,2) by (intro mult_le_mono) simp_all
  with assms(3,4) show ?thesis by simp
qed

lemma unat_carry_bound: "unat (drop_bit 32 (n :: u64)) < 2 ^ 32"
  using unsigned_less [of n, where ?'a = nat]
  unfolding unat_high_limb by (simp add: less_mult_imp_div_less)

lemma length_mul_row [simp]: "length as \<le> length bs \<Longrightarrow> length (mul_row c p as bs) = length as"
  by (induction c p as bs rule: mul_row.induct) (simp_all add: Let_def)

lemma mul_row_val:
  "length as \<le> length bs \<Longrightarrow> unat c < 2 ^ 32 \<Longrightarrow>
   limbs_val (mul_row c p as bs)
     = (unat c + limbs_val as + unat p * limbs_val bs) mod 2 ^ (32 * length as)"
proof (induction c p as bs rule: mul_row.induct)
  case (1 c p a as b bs)
  define n where "n = c + ucast a + ucast p * ucast b"
  have bound: "unat c + unat a + unat p * unat b < 2 ^ 64"
    using "1.prems" unat_u32_less [of a] unat_u32_less [of b] unat_u32_less [of p]
    by (intro limb_product_bound) simp_all
  then have n: "unat n = unat c + unat a + unat p * unat b"
    by (simp add: n_def unat_word_ariths mod_simps)
  have IH: "limbs_val (mul_row (drop_bit 32 n) p as bs)
      = (unat n div 2 ^ 32 + (limbs_val as + unat p * limbs_val bs)) mod 2 ^ (32 * length as)"
    using "1.IH" [OF n_def] "1.prems" unat_carry_bound [of n]
    by (simp only: unat_high_limb add.assoc) simp
  have "limbs_val (mul_row c p (a # as) (b # bs))
      = unat n mod 2 ^ 32 + 2 ^ 32 * limbs_val (mul_row (drop_bit 32 n) p as bs)"
    by (simp add: Let_def n_def [symmetric] unat_low_limb)
  also have "\<dots> = (unat n + 2 ^ 32 * (limbs_val as + unat p * limbs_val bs)) mod (2 ^ 32 * 2 ^ (32 * length as))"
    unfolding IH by (rule carry_step)
  also have "\<dots> = (unat c + limbs_val (a # as) + unat p * limbs_val (b # bs)) mod 2 ^ (32 * length (a # as))"
    by (simp add: n algebra_simps power_add)
  finally show ?case .
qed simp_all

lemma mul32_loop_eq_row: "mul32_loop c b pn = mul_row c b (replicate (length pn) 0) pn"
  by (induction c b pn rule: mul32_loop.induct) (simp_all add: Let_def)

lemma length_uint_mul32 [simp]: "length (uint_mul32 a b) = length a"
  by (simp add: uint_mul32_def mul32_loop_eq_row)

lemma uint_mul32_val [uint_val]:
  "limbs_val (uint_mul32 a b) = (limbs_val a * unat b) mod 2 ^ (32 * length a)"
  by (simp add: uint_mul32_def mul32_loop_eq_row mul_row_val mult.commute)

lemma limbs_val_take_Suc:
  "i < length pn \<Longrightarrow> limbs_val (take (Suc i) pn) = limbs_val (take i pn) + 2 ^ (32 * i) * unat (pn ! i)"
  by (simp add: take_Suc_conv_app_nth limbs_val_append)

lemma mul_step_val:
  assumes "length a = W" "length b = W" "j \<le> W"
  shows "limbs_val (take j a @ mul_row 0 p (drop j a) b)
    = (limbs_val a + 2 ^ (32 * j) * unat p * limbs_val b) mod 2 ^ (32 * W)"
proof -
  let ?M = "2 ^ (32 * j) :: nat" and ?t = "limbs_val (take j a)" and ?d = "limbs_val (drop j a)"
  have t: "?t < ?M" using limbs_val_less [of "take j a"] assms by simp
  have split: "limbs_val a = ?t + ?M * ?d"
    using limbs_val_append [of "take j a" "drop j a"] assms by simp
  have "32 * W = 32 * j + 32 * (W - j)" using assms(3) by simp
  then have M: "(2 :: nat) ^ (32 * W) = ?M * 2 ^ (32 * (W - j))"
    by (simp only: power_add)
  have "limbs_val (take j a @ mul_row 0 p (drop j a) b)
      = ?t mod ?M + ?M * ((?t div ?M + (?d + unat p * limbs_val b)) mod 2 ^ (32 * (W - j)))"
    using assms t by (simp add: limbs_val_append mul_row_val)
  also have "\<dots> = (?t + ?M * (?d + unat p * limbs_val b)) mod (?M * 2 ^ (32 * (W - j)))"
    by (rule carry_step)
  also have "?t + ?M * (?d + unat p * limbs_val b) = limbs_val a + ?M * unat p * limbs_val b"
    by (simp add: split algebra_simps)
  finally show ?thesis by (simp only: M)
qed

lemma uint_mul_fold:
  assumes "length a0 = W" "length pn = W" "length b = W" "m \<le> W"
  defines "r \<equiv> fold (\<lambda>j a. take j a @ mul_row 0 (pn ! j) (drop j a) b) [0..<m] a0"
  shows "length r = W \<and>
    limbs_val r = (limbs_val a0 + limbs_val (take m pn) * limbs_val b) mod 2 ^ (32 * W)"
  using assms(4) unfolding r_def
proof (induction m)
  case 0
  then show ?case using assms(1) by (metis add_0_right fold_simps(1) limbs_val.simps(1) limbs_val_mod mult_0 take_0 upt_0)
next
  case (Suc m)
  define a where "a = fold (\<lambda>j a. take j a @ mul_row 0 (pn ! j) (drop j a) b) [0..<m] a0"
  from Suc have len: "length a = W"
    and v: "limbs_val a = (limbs_val a0 + limbs_val (take m pn) * limbs_val b) mod 2 ^ (32 * W)"
    by (simp_all add: a_def)
  have "limbs_val (take m a @ mul_row 0 (pn ! m) (drop m a) b)
      = (limbs_val a0 + limbs_val (take (Suc m) pn) * limbs_val b) mod 2 ^ (32 * W)"
    using Suc.prems assms len
    by (simp add: mul_step_val v mod_simps limbs_val_take_Suc) (simp add: algebra_simps)
  with Suc.prems len assms(3) show ?case by (simp add: a_def [symmetric])
qed

lemma length_uint_mul [simp]:
  "length a0 = length pn \<Longrightarrow> length b = length pn \<Longrightarrow> length (uint_mul a0 pn b) = length pn"
  using uint_mul_fold [of a0 "length pn" pn b "length pn"] by (simp add: uint_mul_def)

lemma uint_mul_val [uint_val]:
  "length a0 = length pn \<Longrightarrow> length b = length pn \<Longrightarrow>
   limbs_val (uint_mul a0 pn b)
     = (limbs_val a0 + limbs_val pn * limbs_val b) mod 2 ^ (32 * length pn)"
  using uint_mul_fold [of a0 "length pn" pn b "length pn"] by (simp add: uint_mul_def)

subsection \<open>Comparison\<close>

lemma lex_less_iff:
  fixes x y p q M :: nat
  assumes "x < M" "y < M"
  shows "x + M * p < y + M * q \<longleftrightarrow> p < q \<or> p = q \<and> x < y"
proof (cases p q rule: linorder_cases)
  case less
  then have "M * (p + 1) \<le> M * q" by (intro mult_le_mono2) simp
  with assms less show ?thesis by (simp add: algebra_simps)
next
  case greater
  then have "M * (q + 1) \<le> M * p" by (intro mult_le_mono2) simp
  with assms greater show ?thesis by (simp add: algebra_simps)
qed simp

lemma lt_loop_iff:
  "n \<le> length a \<Longrightarrow> n \<le> length b \<Longrightarrow>
   lt_loop a b n \<longleftrightarrow> limbs_val (take n a) < limbs_val (take n b)"
proof (induction n)
  case (Suc n)
  have "limbs_val (take n a) < 2 ^ (32 * n)" "limbs_val (take n b) < 2 ^ (32 * n)"
    using limbs_val_less [of "take n a"] limbs_val_less [of "take n b"] Suc.prems by simp_all
  then show ?case
    using Suc by (auto simp: limbs_val_take_Suc lex_less_iff word_less_nat_alt word_unat_eq_iff)
qed simp

lemma gt_loop_eq: "gt_loop a b n = lt_loop b a n"
  by (induction n) simp_all

lemma ge_loop_eq: "ge_loop a b n = (\<not> lt_loop a b n)"
  by (induction n) auto

lemma le_loop_eq: "le_loop a b n = (\<not> lt_loop b a n)"
  by (induction n) auto

lemma uint_lt_val [uint_val]:
  "length a = length b \<Longrightarrow> uint_lt a b \<longleftrightarrow> limbs_val a < limbs_val b"
  by (simp add: uint_lt_def lt_loop_iff)

lemma uint_le_val [uint_val]:
  "length a = length b \<Longrightarrow> uint_le a b \<longleftrightarrow> limbs_val a \<le> limbs_val b"
  by (simp add: uint_le_def le_loop_eq lt_loop_iff not_less)

lemma uint_gt_val [uint_val]:
  "length a = length b \<Longrightarrow> uint_gt a b \<longleftrightarrow> limbs_val b < limbs_val a"
  by (simp add: uint_gt_def gt_loop_eq lt_loop_iff)

lemma uint_ge_val [uint_val]:
  "length a = length b \<Longrightarrow> uint_ge a b \<longleftrightarrow> limbs_val b \<le> limbs_val a"
  by (simp add: uint_ge_def ge_loop_eq lt_loop_iff not_less)

lemma uint_eq_iff: "length a = length b \<Longrightarrow> uint_eq a b \<longleftrightarrow> a = b"
  by (induction a b rule: list_induct2) simp_all

lemma uint_eq_val [uint_val]:
  "length a = length b \<Longrightarrow> uint_eq a b \<longleftrightarrow> limbs_val a = limbs_val b"
  by (simp add: uint_eq_iff limbs_val_inject)

lemma all_zero_iff: "(\<forall>p \<in> set xs. p = 0) \<longleftrightarrow> xs = replicate (length xs) 0"
  by (induction xs) auto

lemma uint_eq64_iff: "2 \<le> length a \<Longrightarrow> uint_eq64 a b \<longleftrightarrow> a = uint_of_u64 (length a) b"
  by (cases a; cases "tl a")
    (auto simp: uint_eq64_def uint_of_u64_def list_all_iff all_zero_iff)

lemma uint_eq64_val [uint_val]: "2 \<le> length a \<Longrightarrow> uint_eq64 a b \<longleftrightarrow> limbs_val a = unat b"
  using limbs_val_inject [of a "uint_of_u64 (length a) b"]
  by (simp add: uint_eq64_iff uint_of_u64_val)

lemma uint_lnot_val [uint_val]: "uint_lnot pn \<longleftrightarrow> limbs_val pn = 0"
  by (induction pn) (simp_all add: unat_eq_zero)

subsection \<open>Bit length\<close>

lemma bit_nat_top:
  fixes n :: nat
  shows "n < 2 ^ Suc k \<Longrightarrow> bit n k \<longleftrightarrow> 2 ^ k \<le> n"
proof -
  assume "n < 2 ^ Suc k"
  then have "n div 2 ^ k < 2" by (simp add: less_mult_imp_div_less)
  then have "odd (n div 2 ^ k) \<longleftrightarrow> n div 2 ^ k \<noteq> 0" by (cases "n div 2 ^ k") auto
  then show ?thesis by (simp add: bit_iff_odd div_eq_0_iff not_less)
qed

lemma bit_unat [simp]: "bit (unat w) n = bit w n"
  by (simp add: bit_unsigned_iff)

lemma limb_bits_bounds:
  "unat p < 2 ^ Suc n \<Longrightarrow> p \<noteq> 0 \<Longrightarrow>
   unat p < 2 ^ limb_bits p n \<and> 0 < limb_bits p n \<and> 2 ^ (limb_bits p n - 1) \<le> unat p"
proof (induction n)
  case 0
  then show ?case by (auto simp: unat_eq_zero [symmetric] simp del: unat_eq_zero)
next
  case (Suc n)
  have top: "p AND push_bit (Suc n) 1 \<noteq> 0 \<longleftrightarrow> 2 ^ Suc n \<le> unat p"
    using bit_nat_top [OF Suc.prems(1)] bit_iff_and_push_bit_not_eq_0 [of p "Suc n"] by simp
  show ?case
  proof (cases "2 ^ Suc n \<le> unat p")
    case True
    with top Suc.prems show ?thesis by simp
  next
    case False
    with top Suc show ?thesis by simp
  qed
qed

lemma bits_loop_bounds:
  "n \<le> length pn \<Longrightarrow>
   limbs_val (take n pn) < 2 ^ bits_loop pn n \<and>
   (limbs_val (take n pn) \<noteq> 0 \<longrightarrow>
     0 < bits_loop pn n \<and> 2 ^ (bits_loop pn n - 1) \<le> limbs_val (take n pn))"
proof (induction n)
  case (Suc n)
  let ?p = "pn ! n" and ?lo = "limbs_val (take n pn)"
  have v: "limbs_val (take (Suc n) pn) = ?lo + 2 ^ (32 * n) * unat ?p"
    using Suc.prems by (simp add: limbs_val_take_Suc)
  show ?case
  proof (cases "?p = 0")
    case True
    with Suc v show ?thesis by simp
  next
    case False
    let ?l = "limb_bits ?p 31"
    have lb: "unat ?p < 2 ^ ?l" "0 < ?l" "2 ^ (?l - 1) \<le> unat ?p"
      using limb_bits_bounds [of ?p 31] unat_u32_less [of ?p] False by simp_all
    have "?lo < 2 ^ (32 * n)"
      using limbs_val_less [of "take n pn"] Suc.prems by simp
    moreover have "2 ^ (32 * n) * (unat ?p + 1) \<le> 2 ^ (32 * n) * (2 ^ ?l :: nat)"
      using lb(1) by (intro mult_le_mono2) simp
    moreover have "2 ^ (32 * n) * (2 ^ (?l - 1) :: nat) \<le> 2 ^ (32 * n) * unat ?p"
      using lb(3) by (intro mult_le_mono2)
    moreover have "2 ^ (32 * n + ?l - 1) = 2 ^ (32 * n) * (2 ^ (?l - 1) :: nat)"
      using lb(2) by (simp add: power_add [symmetric])
    ultimately have "limbs_val (take (Suc n) pn) < 2 ^ (32 * n + ?l)
        \<and> 2 ^ (32 * n + ?l - 1) \<le> limbs_val (take (Suc n) pn)"
      by (simp only: v power_add distrib_left mult_1_right) (intro conjI; linarith)
    with False lb(2) show ?thesis by simp
  qed
qed simp

lemma uint_bits_upper: "limbs_val pn < 2 ^ uint_bits pn"
  using bits_loop_bounds [of "length pn" pn] by (simp add: uint_bits_def)

lemma uint_bits_lower:
  "limbs_val pn \<noteq> 0 \<Longrightarrow> 0 < uint_bits pn \<and> 2 ^ (uint_bits pn - 1) \<le> limbs_val pn"
  using bits_loop_bounds [of "length pn" pn] by (simp add: uint_bits_def)

lemma uint_bits_eq_0_iff: "uint_bits pn = 0 \<longleftrightarrow> limbs_val pn = 0"
proof
  assume "uint_bits pn = 0"
  with uint_bits_upper [of pn] show "limbs_val pn = 0" by simp
next
  assume "limbs_val pn = 0"
  then have "\<forall>p \<in> set pn. p = 0" by (simp only: limbs_val_eq_0_iff)
  then have "bits_loop pn n = 0" if "n \<le> length pn" for n
    using that by (induction n) auto
  then show "uint_bits pn = 0" by (simp add: uint_bits_def)
qed

end
