(* ===== verification/UInt_Division.thy ===== *)
theory UInt_Division
  imports UInt_Limbs
begin

text \<open>
  Shifts and division of the multi-limb integers, on numbers: \<open>uint_shl\<close> multiplies by a
  power of two modulo the width, \<open>uint_shr\<close> divides by one, and the shift-and-subtract loop
  of \<^verbatim>\<open>operator/=\<close> computes the quotient.  The bits of the number are the bits of the limbs
  (\<open>bit_limbs_val\<close>), so the shift loops are compared with the shifts of numbers bit by bit.
\<close>

section \<open>Bits of the number\<close>

lemma bit_add_shifted:
  fixes a v :: nat
  assumes "a < 2 ^ n"
  shows "bit (a + 2 ^ n * v) i \<longleftrightarrow> (if i < n then bit a i else bit v (i - n))"
proof -
  have hi: "\<not> bit a j" if "n \<le> j" for j
  proof -
    from that have "(2::nat) ^ n \<le> 2 ^ j" by simp
    with assms have "a < 2 ^ j" by linarith
    then show ?thesis by (simp add: bit_iff_odd)
  qed
  have "a + push_bit n v = a OR push_bit n v"
    by (rule disjunctive_add) (metis hi bit_push_bit_iff_nat)
  then have "a + 2 ^ n * v = a OR push_bit n v"
    by (simp add: push_bit_eq_mult mult.commute)
  then show ?thesis
    using hi by (auto simp: bit_or_iff bit_push_bit_iff_nat)
qed

lemma bit_limbs_val:
  "bit (limbs_val pn) i \<longleftrightarrow> i < 32 * length pn \<and> bit (pn ! (i div 32)) (i mod 32)"
proof (induction pn arbitrary: i)
  case (Cons p pn)
  have "unat p < 2 ^ 32" using unat_u32_less [of p] by simp
  then have "bit (limbs_val (p # pn)) i \<longleftrightarrow> (if i < 32 then bit p i else bit (limbs_val pn) (i - 32))"
    by (simp only: limbs_val.simps bit_add_shifted bit_unat)
  moreover have "i div 32 = Suc ((i - 32) div 32)" "(i - 32) mod 32 = i mod 32" if "32 \<le> i"
    using that by (simp_all add: le_div_geq le_mod_geq)
  ultimately show ?case using Cons.IH [of "i - 32"] by auto
qed simp

section \<open>Shifts\<close>

lemma length_shl_step [simp]: "length (shl_step a k s i pn) = length pn"
  by (simp add: shl_step_def Let_def)

lemma length_shr_step [simp]: "length (shr_step a k s i pn) = length pn"
  by (simp add: shr_step_def Let_def)

lemma length_fold_same:
  "(\<And>i pn. length (f i pn) = length pn) \<Longrightarrow> length (fold f is pn) = length pn"
  by (induction "is" arbitrary: pn) simp_all

lemma length_uint_shl [simp]: "length (uint_shl a n) = length a"
  by (simp add: uint_shl_def length_fold_same)

lemma length_uint_shr [simp]: "length (uint_shr a n) = length a"
  by (simp add: uint_shr_def length_fold_same)

text \<open>What limb \<open>j\<close> of the result holds after the first \<open>m\<close> iterations.\<close>

lemma shl_fold_nth:
  "m \<le> length a \<Longrightarrow> j < length a \<Longrightarrow>
   fold (shl_step a k s) [0..<m] (replicate (length a) 0) ! j =
     (if k + 1 \<le> j \<and> s \<noteq> 0 \<and> j - k - 1 < m then drop_bit (32 - s) (a ! (j - k - 1)) else 0) OR
     (if k \<le> j \<and> j - k < m then push_bit s (a ! (j - k)) else 0)"
proof (induction m arbitrary: j)
  case (Suc m)
  define pn where "pn = fold (shl_step a k s) [0..<m] (replicate (length a) 0)"
  then have len: "length pn = length a" by (simp add: length_fold_same)
  have "fold (shl_step a k s) [0..<Suc m] (replicate (length a) 0) ! j = shl_step a k s m pn ! j"
    by (simp add: pn_def)
  also have "\<dots> = (pn ! j OR (if j = m + k + 1 \<and> s \<noteq> 0 then drop_bit (32 - s) (a ! m) else 0))
      OR (if j = m + k then push_bit s (a ! m) else 0)"
    using Suc.prems len by (auto simp: shl_step_def Let_def nth_list_update)
  finally show ?case
    using Suc by (auto simp: less_Suc_eq pn_def)
qed simp

lemma shr_fold_nth:
  "m \<le> length a \<Longrightarrow> j < length a \<Longrightarrow>
   fold (shr_step a k s) [0..<m] (replicate (length a) 0) ! j =
     (if j + k < m then drop_bit s (a ! (j + k)) else 0) OR
     (if j + k + 1 < m \<and> s \<noteq> 0 then push_bit (32 - s) (a ! (j + k + 1)) else 0)"
proof (induction m arbitrary: j)
  case (Suc m)
  define pn where "pn = fold (shr_step a k s) [0..<m] (replicate (length a) 0)"
  then have len: "length pn = length a" by (simp add: length_fold_same)
  have "fold (shr_step a k s) [0..<Suc m] (replicate (length a) 0) ! j = shr_step a k s m pn ! j"
    by (simp add: pn_def)
  also have "\<dots> = (pn ! j OR (if m = j + k + 1 \<and> s \<noteq> 0 then push_bit (32 - s) (a ! m) else 0))
      OR (if m = j + k then drop_bit s (a ! m) else 0)"
    using Suc.prems len by (auto simp: shr_step_def Let_def nth_list_update)
  finally show ?case
    using Suc by (auto simp: less_Suc_eq pn_def)
qed simp

lemma nth_uint_shl:
  "j < length a \<Longrightarrow> uint_shl a n ! j =
     (if n div 32 + 1 \<le> j \<and> n mod 32 \<noteq> 0
      then drop_bit (32 - n mod 32) (a ! (j - n div 32 - 1)) else 0) OR
     (if n div 32 \<le> j then push_bit (n mod 32) (a ! (j - n div 32)) else 0)"
  by (auto simp: uint_shl_def shl_fold_nth)

lemma nth_uint_shr:
  "j < length a \<Longrightarrow> uint_shr a n ! j =
     (if j + n div 32 < length a then drop_bit (n mod 32) (a ! (j + n div 32)) else 0) OR
     (if j + n div 32 + 1 < length a \<and> n mod 32 \<noteq> 0
      then push_bit (32 - n mod 32) (a ! (j + n div 32 + 1)) else 0)"
  by (auto simp: uint_shr_def shr_fold_nth)

text \<open>Bit positions under a shift: \<open>i\<close> is in limb \<open>j\<close> at \<open>b\<close>, the shift is \<open>k\<close> limbs and \<open>s\<close> bits.\<close>

lemma sub_shift_pos:
  fixes j b k s :: nat
  assumes "b < 32" "s < 32" "32 * k + s \<le> 32 * j + b"
  shows "s \<le> b \<Longrightarrow> (32 * j + b - (32 * k + s)) div 32 = j - k \<and> (32 * j + b - (32 * k + s)) mod 32 = b - s"
    and "b < s \<Longrightarrow> (32 * j + b - (32 * k + s)) div 32 = j - k - 1
      \<and> (32 * j + b - (32 * k + s)) mod 32 = 32 + b - s"
proof -
  assume "s \<le> b"
  then have "32 * j + b - (32 * k + s) = 32 * (j - k) + (b - s)" using assms by auto
  then show "(32 * j + b - (32 * k + s)) div 32 = j - k \<and> (32 * j + b - (32 * k + s)) mod 32 = b - s"
    using assms by (simp only: div_mult_self4 mod_mult_self4) simp
next
  assume "b < s"
  then have "32 * j + b - (32 * k + s) = 32 * (j - k - 1) + (32 + b - s)" using assms by auto
  then show "(32 * j + b - (32 * k + s)) div 32 = j - k - 1
      \<and> (32 * j + b - (32 * k + s)) mod 32 = 32 + b - s"
    using assms \<open>b < s\<close> by (simp only: div_mult_self4 mod_mult_self4) simp
qed

lemma add_shift_pos:
  fixes j b k s :: nat
  assumes "b < 32" "s < 32"
  shows "b + s < 32 \<Longrightarrow> (32 * j + b + (32 * k + s)) div 32 = j + k \<and> (32 * j + b + (32 * k + s)) mod 32 = b + s"
    and "32 \<le> b + s \<Longrightarrow> (32 * j + b + (32 * k + s)) div 32 = j + k + 1
      \<and> (32 * j + b + (32 * k + s)) mod 32 = b + s - 32"
proof -
  assume "b + s < 32"
  moreover have "32 * j + b + (32 * k + s) = 32 * (j + k) + (b + s)" by simp
  ultimately show "(32 * j + b + (32 * k + s)) div 32 = j + k \<and> (32 * j + b + (32 * k + s)) mod 32 = b + s"
    by (simp only: div_mult_self4 mod_mult_self4) simp
next
  assume "32 \<le> b + s"
  moreover have "32 * j + b + (32 * k + s) = 32 * (j + k + 1) + (b + s - 32)" using \<open>32 \<le> b + s\<close> by simp
  ultimately show "(32 * j + b + (32 * k + s)) div 32 = j + k + 1
      \<and> (32 * j + b + (32 * k + s)) mod 32 = b + s - 32"
    using assms by (simp only: div_mult_self4 mod_mult_self4) simp
qed

lemma bit_uint_shl:
  assumes "i < 32 * length a"
  shows "bit (limbs_val (uint_shl a n)) i \<longleftrightarrow> n \<le> i \<and> bit (limbs_val a) (i - n)"
proof -
  define j b k s where "j = i div 32" and "b = i mod 32" and "k = n div 32" and "s = n mod 32"
  then have i: "i = 32 * j + b" and n: "n = 32 * k + s" and b: "b < 32" and s: "s < 32" by simp_all
  from assms i b have j: "j < length a" by simp
  have "bit (limbs_val (uint_shl a n)) i \<longleftrightarrow>
      (k + 1 \<le> j \<and> s \<noteq> 0 \<and> bit (a ! (j - k - 1)) (b + 32 - s))
      \<or> (k \<le> j \<and> s \<le> b \<and> bit (a ! (j - k)) (b - s))"
    using assms b s j by (auto simp: bit_limbs_val nth_uint_shl bit_simps k_def [symmetric]
        s_def [symmetric] j_def [symmetric] b_def [symmetric] add_ac)
  also have "\<dots> \<longleftrightarrow> n \<le> i \<and> bit (limbs_val a) (i - n)"
  proof (cases "s \<le> b")
    case True
    then have "\<not> bit (a ! (j - k - 1)) (b + 32 - s)" using bit_imp_le_length by fastforce
    with True show ?thesis
      using sub_shift_pos(1) [OF b s _ True, of k j] assms b s j
      by (auto simp: i n bit_limbs_val)
  next
    case False
    then show ?thesis
      using sub_shift_pos(2) [OF b s, of k j] assms b s j
      by (auto simp: i n bit_limbs_val add_ac)
  qed
  finally show ?thesis .
qed

lemma bit_uint_shr:
  assumes "i < 32 * length a"
  shows "bit (limbs_val (uint_shr a n)) i \<longleftrightarrow> bit (limbs_val a) (i + n)"
proof -
  define j b k s where "j = i div 32" and "b = i mod 32" and "k = n div 32" and "s = n mod 32"
  then have i: "i = 32 * j + b" and n: "n = 32 * k + s" and b: "b < 32" and s: "s < 32" by simp_all
  from assms i b have j: "j < length a" by simp
  have "bit (limbs_val (uint_shr a n)) i \<longleftrightarrow>
      (j + k < length a \<and> bit (a ! (j + k)) (b + s))
      \<or> (j + k + 1 < length a \<and> s \<noteq> 0 \<and> 32 - s \<le> b \<and> bit (a ! (j + k + 1)) (b + s - 32))"
    using assms b s j by (auto simp: bit_limbs_val nth_uint_shr bit_simps k_def [symmetric]
        s_def [symmetric] j_def [symmetric] b_def [symmetric] add_ac)
  also have "\<dots> \<longleftrightarrow> bit (limbs_val a) (i + n)"
  proof (cases "b + s < 32")
    case True
    then show ?thesis
      using add_shift_pos(1) [OF b s True, of j k] assms b s j
      by (auto simp: i n bit_limbs_val)
  next
    case False
    then have "\<not> bit (a ! (j + k)) (b + s)" using bit_imp_le_length by fastforce
    with False show ?thesis
      using add_shift_pos(2) [OF b s, of j k] assms b s j
      by (auto simp: i n bit_limbs_val)
  qed
  finally show ?thesis .
qed

lemma uint_shl_val [uint_val]:
  "limbs_val (uint_shl a n) = (limbs_val a * 2 ^ n) mod 2 ^ (32 * length a)"
proof -
  have "limbs_val (uint_shl a n) = take_bit (32 * length a) (push_bit n (limbs_val a))"
  proof (rule bit_eqI)
    fix i
    show "bit (limbs_val (uint_shl a n)) i = bit (take_bit (32 * length a) (push_bit n (limbs_val a))) i"
      using bit_uint_shl [of i a n] bit_limbs_val [of "uint_shl a n" i]
      by (auto simp: bit_take_bit_iff bit_push_bit_iff_nat)
  qed
  then show ?thesis by (simp add: take_bit_eq_mod push_bit_eq_mult)
qed

lemma uint_shr_val [uint_val]: "limbs_val (uint_shr a n) = limbs_val a div 2 ^ n"
proof -
  have "limbs_val (uint_shr a n) = drop_bit n (limbs_val a)"
  proof (rule bit_eqI)
    fix i
    show "bit (limbs_val (uint_shr a n)) i = bit (drop_bit n (limbs_val a)) i"
      using bit_uint_shr [of i a n] bit_limbs_val [of "uint_shr a n" i] bit_limbs_val [of a "i + n"]
      by (auto simp: bit_drop_bit_eq add_ac)
  qed
  then show ?thesis by (simp add: drop_bit_eq_div)
qed

section \<open>Division\<close>

text \<open>Setting a bit below the lowest set bit adds its weight.\<close>

lemma set_limb_bit_val:
  assumes "sh < 32 * length q" and "2 ^ Suc sh dvd limbs_val q"
  shows "limbs_val (q[sh div 32 := q ! (sh div 32) OR push_bit (sh mod 32) 1])
    = limbs_val q + 2 ^ sh" (is "limbs_val ?q = _")
proof -
  from assms(2) have "take_bit (Suc sh) (limbs_val q) = 0"
    by (simp only: take_bit_eq_mod dvd_imp_mod_0)
  then have low: "\<not> bit (limbs_val q) sh"
    by (metis bit_0_eq bot_apply bot_bool_def bit_take_bit_iff lessI)
  have "limbs_val ?q = limbs_val q OR push_bit sh 1"
  proof (rule bit_eqI)
    fix i
    have "i = sh \<longleftrightarrow> i div 32 = sh div 32 \<and> i mod 32 = sh mod 32"
      by (metis mult_div_mod_eq)
    then show "bit (limbs_val ?q) i = bit (limbs_val q OR push_bit sh 1) i"
      using assms(1)
      by (auto simp: bit_limbs_val bit_or_iff bit_exp_iff nth_list_update)
  qed
  also have "\<dots> = limbs_val q + push_bit sh 1"
    using low by (intro disjunctive_add [symmetric]) (auto simp: bit_exp_iff)
  finally show ?thesis by (simp add: push_bit_eq_mult)
qed

lemma div_loop_val:
  "0 < D \<Longrightarrow> length dv = length num \<Longrightarrow> length q = length num \<Longrightarrow> n \<le> 32 * length q \<Longrightarrow>
   (n \<noteq> 0 \<Longrightarrow> limbs_val dv = D * 2 ^ (n - 1)) \<Longrightarrow> limbs_val num < D * 2 ^ n \<Longrightarrow>
   2 ^ n dvd limbs_val q \<Longrightarrow>
   length (div_loop n num dv q) = length q \<and>
   limbs_val (div_loop n num dv q) = limbs_val q + limbs_val num div D"
proof (induction n arbitrary: num dv q)
  case 0
  then show ?case by simp
next
  case (Suc sh)
  from Suc.prems have dv: "limbs_val dv = D * 2 ^ sh" by simp
  have dv': "limbs_val (uint_shr dv 1) = D * 2 ^ (sh - 1)" if "sh \<noteq> 0"
    using that by (cases sh) (simp_all add: uint_shr_val dv)
  have dvd: "2 ^ sh dvd limbs_val q"
    using Suc.prems(7) by (meson dvd_trans le_imp_power_dvd lessI less_imp_le)
  show ?case
  proof (cases "uint_ge num dv")
    case True
    then have ge: "D * 2 ^ sh \<le> limbs_val num"
      using Suc.prems by (simp add: uint_ge_val dv)
    have num': "limbs_val (uint_sub num dv) = limbs_val num - D * 2 ^ sh"
      using Suc.prems ge by (simp add: uint_sub_val dv)
    let ?q = "q[sh div 32 := q ! (sh div 32) OR push_bit (sh mod 32) 1]"
    have q': "limbs_val ?q = limbs_val q + 2 ^ sh"
      using Suc.prems(4,7) by (intro set_limb_bit_val) simp_all
    have "limbs_val num div D = (limbs_val num - D * 2 ^ sh + D * 2 ^ sh) div D" using ge by simp
    also have "\<dots> = (limbs_val num - D * 2 ^ sh) div D + 2 ^ sh"
      using Suc.prems(1) by simp
    finally show ?thesis
      using True Suc.IH [of "uint_shr dv 1" "uint_sub num dv" ?q] Suc.prems ge num' q' dv' dvd
      by (simp add: mult.assoc)
  next
    case False
    then have "limbs_val num < D * 2 ^ sh"
      using Suc.prems by (simp add: uint_ge_val dv)
    with False Suc.IH [of "uint_shr dv 1" num q] Suc.prems dv' dvd show ?thesis by simp
  qed
qed

lemma uint_div_val [uint_val]:
  assumes "length dv = length num" and "2 \<le> length num"
  shows "limbs_val (uint_div num dv) = limbs_val num div limbs_val dv"
    and "length (uint_div num dv) = length num"
proof -
  let ?N = "limbs_val num" and ?D = "limbs_val dv"
  let ?nb = "uint_bits num" and ?db = "uint_bits dv"
  have "limbs_val (uint_div num dv) = ?N div ?D \<and> length (uint_div num dv) = length num"
  proof (cases "?db = 0 \<or> ?db > ?nb")
    case True
    have "?N div ?D = 0"
    proof (cases "?D = 0")
      case False
      with True have "?nb \<le> ?db - 1" using uint_bits_eq_0_iff [of dv] by auto
      then have "(2::nat) ^ ?nb \<le> 2 ^ (?db - 1)" by simp
      moreover have "2 ^ (?db - 1) \<le> ?D" using uint_bits_lower [OF False] by simp
      ultimately have "?N < ?D" using uint_bits_upper [of num] by linarith
      then show ?thesis by simp
    qed simp
    with True assms show ?thesis by (simp add: uint_div_def Let_def uint_of_u64_val)
  next
    case False
    let ?sh = "?nb - ?db"
    from False have D: "?D \<noteq> 0" using uint_bits_eq_0_iff [of dv] by auto
    from False have "?N \<noteq> 0" using uint_bits_eq_0_iff [of num] by auto
    then have "2 ^ (?nb - 1) \<le> ?N" using uint_bits_lower [of num] by simp
    then have "?nb - 1 < 32 * length num"
      using limbs_val_less [of num] power_less_imp_less_exp [of "2::nat" "?nb - 1" "32 * length num"]
      by linarith
    have pw: "2 ^ ?db * 2 ^ ?sh = (2 ^ ?nb :: nat)" "2 ^ (?db - 1) * 2 ^ ?sh = (2 ^ (?nb - 1) :: nat)"
      using False by (simp_all add: power_add [symmetric])
    have "?D * 2 ^ ?sh < 2 ^ ?nb"
      unfolding pw(1) [symmetric] using uint_bits_upper [of dv] by (intro mult_less_mono1) simp_all
    also have "(2::nat) ^ ?nb \<le> 2 ^ (32 * length num)"
      using \<open>?nb - 1 < 32 * length num\<close> by (intro power_increasing) simp_all
    finally have shl: "limbs_val (uint_shl dv ?sh) = ?D * 2 ^ ?sh"
      by (simp add: uint_shl_val assms)
    have "2 ^ (?nb - 1) \<le> ?D * 2 ^ ?sh"
      unfolding pw(2) [symmetric] using uint_bits_lower [OF D] by (intro mult_le_mono1) simp
    then have "2 ^ ?nb \<le> ?D * 2 ^ Suc ?sh" using False by (cases ?nb) simp_all
    with uint_bits_upper [of num] have "?N < ?D * 2 ^ Suc ?sh" by linarith
    moreover have "Suc ?sh \<le> 32 * length num" using \<open>?nb - 1 < 32 * length num\<close> False by linarith
    ultimately have "length (div_loop (Suc ?sh) num (uint_shl dv ?sh) (uint_of_u64 (length num) 0)) = length num
        \<and> limbs_val (div_loop (Suc ?sh) num (uint_shl dv ?sh) (uint_of_u64 (length num) 0)) = ?N div ?D"
      using div_loop_val [of ?D "uint_shl dv ?sh" num "uint_of_u64 (length num) 0" "Suc ?sh"] D assms shl
      by (simp only: uint_of_u64_val length_uint_of_u64 length_uint_shl diff_Suc_1) simp
    with False show ?thesis by (simp only: uint_div_def Let_def if_False)
  qed
  then show "limbs_val (uint_div num dv) = ?N div ?D" and "length (uint_div num dv) = length num"
    by simp_all
qed

end
