(* ===== verification/UInt256.thy ===== *)
theory UInt256
  imports UInt_Division
begin

text \<open>
  The class \<^verbatim>\<open>uint256\<close> of \<^verbatim>\<open>src/src/crypto/uint256.h\<close>: the eight-limb instance of
  \<^verbatim>\<open>base_uint\<close>, its compact (mantissa and exponent) encoding, and its hexadecimal text form.
  The first section relates the limb array to the type \<open>256 word\<close>: on eight limbs every
  operator of the template is the corresponding word operation, so the components that only
  compute with \<^verbatim>\<open>uint256\<close> values are modelled on \<open>256 word\<close>.
\<close>

section \<open>Compact encoding and text form\<close>

definition uint_SetCompact :: "u32 \<Rightarrow> base_uint \<times> bool \<times> bool" where
  "uint_SetCompact nCompact =
     (let nSize = unat (drop_bit 24 nCompact);
          nWord0 = nCompact AND 0x007fffff;
          nWord = (if nSize \<le> 3 then drop_bit (8 * (3 - nSize)) nWord0 else nWord0);
          this = (if nSize \<le> 3 then uint_of_u64 8 (ucast nWord)
                  else uint_shl (uint_of_u64 8 (ucast nWord)) (8 * (nSize - 3)));
          fNegative = (nWord \<noteq> 0 \<and> nCompact AND 0x00800000 \<noteq> 0);
          fOverflow = (nWord \<noteq> 0 \<and>
            (nSize > 34 \<or> (nWord > 0xff \<and> nSize > 33) \<or> (nWord > 0xffff \<and> nSize > 32)))
      in (this, fNegative, fOverflow))"

text \<open>The two assertions of \<^verbatim>\<open>GetCompact\<close> are the \<open>None\<close> branches.\<close>

definition uint_GetCompact :: "base_uint \<Rightarrow> bool \<Rightarrow> u32 option" where
  "uint_GetCompact pn fNegative =
     (let nSize0 = (uint_bits pn + 7) div 8;
          nCompact0 = (if nSize0 \<le> 3 then ucast (push_bit (8 * (3 - nSize0)) (uint_low64 pn))
                       else ucast (uint_low64 (uint_shr pn (8 * (nSize0 - 3)))));
          fSign = (nCompact0 AND 0x00800000 \<noteq> 0);
          nCompact1 = (if fSign then drop_bit 8 nCompact0 else nCompact0);
          nSize = (if fSign then nSize0 + 1 else nSize0)
      in if nCompact1 AND NOT 0x007fffff \<noteq> 0 then None
         else if \<not> nSize < 256 then None
         else let nCompact2 = nCompact1 OR push_bit 24 (of_nat nSize)
              in Some (nCompact2 OR
                   (if fNegative \<and> nCompact2 AND 0x007fffff \<noteq> 0 then 0x00800000 else 0)))"

text \<open>The bytes of the limb array in memory, on a little-endian host.\<close>

definition uint_bytes :: "base_uint \<Rightarrow> u8 list" where
  "uint_bytes pn = concat (map (le_bytes 4) pn)"

fun uint_of_bytes :: "u8 list \<Rightarrow> base_uint" where
  "uint_of_bytes (a # b # c # d # bs) = le_word [a, b, c, d] # uint_of_bytes bs"
| "uint_of_bytes bs = []"

definition hex_digit :: "nat \<Rightarrow> char" where
  "hex_digit d = (if d < 10 then char_of (48 + d) else char_of (87 + d))"

text \<open>\<^verbatim>\<open>sprintf\<close> with the format \<^verbatim>\<open>%02x\<close> on one byte.\<close>

definition hex_byte :: "u8 \<Rightarrow> string" where
  "hex_byte b = [hex_digit (unat b div 16), hex_digit (unat b mod 16)]"

definition uint_GetHex :: "base_uint \<Rightarrow> string" where
  "uint_GetHex pn = concat (map hex_byte (rev (uint_bytes pn)))"

text \<open>The table \<^verbatim>\<open>phexdigit\<close>: entries of characters that are no hexadecimal digit are zero.\<close>

definition phexdigit :: "char \<Rightarrow> u8" where
  "phexdigit c = (let n = (of_char c :: nat) in
     if 49 \<le> n \<and> n \<le> 57 then of_nat (n - 48)
     else if 65 \<le> n \<and> n \<le> 70 then of_nat (n - 55)
     else if 97 \<le> n \<and> n \<le> 102 then of_nat (n - 87) else 0)"

definition is_space :: "char \<Rightarrow> bool" where
  "is_space c = (let n = (of_char c :: nat) in n = 32 \<or> (9 \<le> n \<and> n \<le> 13))"

definition is_hex :: "char \<Rightarrow> bool" where
  "is_hex c = (phexdigit c \<noteq> 0 \<or> c = CHR ''0'')"

text \<open>
  The byte loop at the end of \<^verbatim>\<open>SetHex\<close>: the digits in the order the loop meets them, last one
  first, and the number of bytes left between \<^verbatim>\<open>p1\<close> and \<^verbatim>\<open>pend\<close>; the bytes not reached are zero.
\<close>

fun sethex_loop :: "char list \<Rightarrow> nat \<Rightarrow> u8 list" where
  "sethex_loop ds 0 = []"
| "sethex_loop [] (Suc n) = replicate (Suc n) 0"
| "sethex_loop [d] (Suc n) = phexdigit d # replicate n 0"
| "sethex_loop (d # e # ds) (Suc n) =
     (phexdigit d OR push_bit 4 (phexdigit e)) # sethex_loop ds n"

text \<open>
  \<^verbatim>\<open>SetHex\<close> on the characters before the terminating zero; the second component is the returned
  length.
\<close>

definition uint_SetHex :: "nat \<Rightarrow> string \<Rightarrow> base_uint \<times> nat" where
  "uint_SetHex W str =
     (let s1 = dropWhile is_space str;
          s2 = (case s1 of a # b # r \<Rightarrow> if a = CHR ''0'' \<and> (b = CHR ''x'' \<or> b = CHR ''X'') then r else s1
                | _ \<Rightarrow> s1);
          ds = takeWhile is_hex s2;
          len = length str - length s2 + length ds
      in (uint_of_bytes (sethex_loop (rev ds) (4 * W)), len))"

section \<open>Eight limbs and the 256-bit word\<close>

definition u256_limbs :: "uint256 \<Rightarrow> base_uint" where
  "u256_limbs w = map (\<lambda>i. ucast (drop_bit (32 * i) w)) [0..<8]"

definition u256_of_limbs :: "base_uint \<Rightarrow> uint256" where
  "u256_of_limbs pn = of_nat (limbs_val pn)"

lemma length_u256_limbs [simp]: "length (u256_limbs w) = 8"
  by (simp add: u256_limbs_def)

lemma limbs_val_u256_limbs [simp]: "limbs_val (u256_limbs w) = unat w"
proof (rule bit_eqI)
  fix i :: nat
  have "i div 32 < 8" "32 * (i div 32) + i mod 32 = i" if "i < 256" using that by auto
  then show "bit (limbs_val (u256_limbs w)) i = bit (unat w) i"
    using bit_imp_le_length [of w i]
    by (auto simp: bit_limbs_val u256_limbs_def bit_ucast_iff bit_drop_bit_eq)
qed

lemma u256_of_limbs_inverse [simp]: "u256_of_limbs (u256_limbs w) = w"
  by (simp add: u256_of_limbs_def)

lemma unat_u256_of_limbs: "length pn = 8 \<Longrightarrow> unat (u256_of_limbs pn) = limbs_val pn"
  using limbs_val_less [of pn] by (simp add: u256_of_limbs_def unat_of_nat)

lemma u256_limbs_inverse [simp]: "length pn = 8 \<Longrightarrow> u256_limbs (u256_of_limbs pn) = pn"
  using limbs_val_inject [of "u256_limbs (u256_of_limbs pn)" pn]
  by (simp add: unat_u256_of_limbs)

lemma of_nat_mod_256: "(of_nat (n mod 2 ^ (32 * 8)) :: uint256) = of_nat n"
  by (simp add: word_unat_eq_iff unat_of_nat)

lemma of_nat_unat_ucast: "of_nat (unat w) = ucast w"
  by transfer simp

text \<open>Each operator on limbs is the word operation on the values.\<close>

lemma u256_add [simp]:
  "length a = 8 \<Longrightarrow> length b = 8 \<Longrightarrow> u256_of_limbs (uint_add a b) = u256_of_limbs a + u256_of_limbs b"
  by (simp only: u256_of_limbs_def uint_add_val of_nat_mod_256 of_nat_add)

lemma u256_neg [simp]: "length a = 8 \<Longrightarrow> u256_of_limbs (uint_neg a) = - u256_of_limbs a"
proof -
  assume len: "length a = 8"
  have "u256_of_limbs a + u256_of_limbs (uint_neg a) = u256_of_limbs (uint_sub a a)"
    using len by (simp add: uint_sub_def)
  also have "\<dots> = 0" using len by (simp add: u256_of_limbs_def uint_sub_val)
  finally show ?thesis by (simp add: eq_neg_iff_add_eq_0 add.commute)
qed

lemma u256_sub [simp]:
  "length a = 8 \<Longrightarrow> length b = 8 \<Longrightarrow> u256_of_limbs (uint_sub a b) = u256_of_limbs a - u256_of_limbs b"
  by (simp add: uint_sub_def)

lemma u256_of_u64 [simp]: "u256_of_limbs (uint_of_u64 8 b) = ucast b"
  by (simp add: u256_of_limbs_def uint_of_u64_val of_nat_unat_ucast)

lemma u256_add64 [simp]: "length a = 8 \<Longrightarrow> u256_of_limbs (uint_add64 a b) = u256_of_limbs a + ucast b"
  by (simp add: uint_add64_def)

lemma u256_sub64 [simp]: "length a = 8 \<Longrightarrow> u256_of_limbs (uint_sub64 a b) = u256_of_limbs a - ucast b"
  by (simp add: uint_sub64_def)

lemma u256_mul32 [simp]: "length a = 8 \<Longrightarrow> u256_of_limbs (uint_mul32 a b) = u256_of_limbs a * ucast b"
  by (simp only: u256_of_limbs_def uint_mul32_val of_nat_mod_256 of_nat_mult of_nat_unat_ucast)

lemma u256_mul [simp]:
  "length a0 = 8 \<Longrightarrow> length a = 8 \<Longrightarrow> length b = 8 \<Longrightarrow>
   u256_of_limbs (uint_mul a0 a b) = u256_of_limbs a0 + u256_of_limbs a * u256_of_limbs b"
  by (simp only: u256_of_limbs_def uint_mul_val of_nat_mod_256 of_nat_mult of_nat_add)

lemma u256_div [simp]:
  "length a = 8 \<Longrightarrow> length b = 8 \<Longrightarrow> u256_of_limbs (uint_div a b) = u256_of_limbs a div u256_of_limbs b"
  by (simp add: word_unat_eq_iff unat_div unat_u256_of_limbs uint_div_val)

lemma u256_shl [simp]: "length a = 8 \<Longrightarrow> u256_of_limbs (uint_shl a n) = push_bit n (u256_of_limbs a)"
  by (simp only: u256_of_limbs_def uint_shl_val push_bit_eq_mult of_nat_mod_256 of_nat_mult) simp

lemma u256_shr [simp]: "length a = 8 \<Longrightarrow> u256_of_limbs (uint_shr a n) = drop_bit n (u256_of_limbs a)"
  by (simp only: word_unat_eq_iff unat_drop_bit_eq unat_u256_of_limbs uint_shr_val length_uint_shr)
    (simp only: drop_bit_eq_div)

lemma u256_lt:
  "length a = 8 \<Longrightarrow> length b = 8 \<Longrightarrow> uint_lt a b \<longleftrightarrow> u256_of_limbs a < u256_of_limbs b"
  by (simp add: word_less_nat_alt unat_u256_of_limbs uint_lt_val)

lemma u256_le:
  "length a = 8 \<Longrightarrow> length b = 8 \<Longrightarrow> uint_le a b \<longleftrightarrow> u256_of_limbs a \<le> u256_of_limbs b"
  by (simp add: word_le_nat_alt unat_u256_of_limbs uint_le_val)

lemma u256_gt:
  "length a = 8 \<Longrightarrow> length b = 8 \<Longrightarrow> uint_gt a b \<longleftrightarrow> u256_of_limbs b < u256_of_limbs a"
  by (simp add: word_less_nat_alt unat_u256_of_limbs uint_gt_val)

lemma u256_ge:
  "length a = 8 \<Longrightarrow> length b = 8 \<Longrightarrow> uint_ge a b \<longleftrightarrow> u256_of_limbs b \<le> u256_of_limbs a"
  by (simp add: word_le_nat_alt unat_u256_of_limbs uint_ge_val)

lemma u256_eq:
  "length a = 8 \<Longrightarrow> length b = 8 \<Longrightarrow> uint_eq a b \<longleftrightarrow> u256_of_limbs a = u256_of_limbs b"
  by (simp add: word_unat_eq_iff unat_u256_of_limbs uint_eq_val)

lemma bit_u256_of_limbs:
  "length a = 8 \<Longrightarrow> bit (u256_of_limbs a) i \<longleftrightarrow> i < 256 \<and> bit (a ! (i div 32)) (i mod 32)"
  using bit_unat [of "u256_of_limbs a" i] by (simp add: unat_u256_of_limbs bit_limbs_val del: bit_unat)

lemma u256_bitwise [simp]:
  assumes "length a = 8" "length b = 8"
  shows "u256_of_limbs (uint_and a b) = u256_of_limbs a AND u256_of_limbs b"
    and "u256_of_limbs (uint_or a b) = u256_of_limbs a OR u256_of_limbs b"
    and "u256_of_limbs (uint_xor a b) = u256_of_limbs a XOR u256_of_limbs b"
    and "u256_of_limbs (uint_compl a) = NOT (u256_of_limbs a)"
  using assms by (auto intro!: bit_word_eqI simp: bit_u256_of_limbs uint_and_def uint_or_def
      uint_xor_def uint_compl_def bit_simps)

lemma u256_of_limbs_zero: "length a = 8 \<Longrightarrow> u256_of_limbs a = 0 \<longleftrightarrow> a = replicate 8 0"
  using u256_eq [of a "replicate 8 0"] by (simp add: u256_of_limbs_def [of "replicate 8 0"] uint_eq_iff)

text \<open>
  C1: on eight limbs the operators of the class template are the operations of 256-bit machine
  arithmetic: addition, subtraction, negation and multiplication by a 32-bit number wrap around,
  division is the quotient, shifts and bitwise operators act on the bits of the whole number and the
  comparison loops decide the order of the numbers.  The exception is the product of two numbers:
  \<^verbatim>\<open>operator*=\<close> declares its accumulator without initialiser, and what it returns is the product plus
  whatever number \<open>a0\<close> the memory of the accumulator held; it is the product for no other content
  than zero.
\<close>

theorem uint256_refines_word:
  assumes "length a = 8" and "length b = 8" and "length a0 = 8"
  shows "u256_of_limbs (uint_add a b) = u256_of_limbs a + u256_of_limbs b
    \<and> u256_of_limbs (uint_sub a b) = u256_of_limbs a - u256_of_limbs b
    \<and> u256_of_limbs (uint_neg a) = - u256_of_limbs a
    \<and> u256_of_limbs (uint_mul32 a m) = u256_of_limbs a * ucast m
    \<and> u256_of_limbs (uint_mul a0 a b) = u256_of_limbs a0 + u256_of_limbs a * u256_of_limbs b
    \<and> (u256_of_limbs (uint_mul a0 a b) = u256_of_limbs a * u256_of_limbs b \<longleftrightarrow> a0 = replicate 8 0)
    \<and> u256_of_limbs (uint_div a b) = u256_of_limbs a div u256_of_limbs b
    \<and> u256_of_limbs (uint_shl a n) = push_bit n (u256_of_limbs a)
    \<and> u256_of_limbs (uint_shr a n) = drop_bit n (u256_of_limbs a)
    \<and> u256_of_limbs (uint_compl a) = NOT (u256_of_limbs a)
    \<and> u256_of_limbs (uint_and a b) = u256_of_limbs a AND u256_of_limbs b
    \<and> u256_of_limbs (uint_or a b) = u256_of_limbs a OR u256_of_limbs b
    \<and> u256_of_limbs (uint_xor a b) = u256_of_limbs a XOR u256_of_limbs b
    \<and> uint_lt a b = (u256_of_limbs a < u256_of_limbs b)
    \<and> uint_le a b = (u256_of_limbs a \<le> u256_of_limbs b)
    \<and> uint_gt a b = (u256_of_limbs b < u256_of_limbs a)
    \<and> uint_ge a b = (u256_of_limbs b \<le> u256_of_limbs a)
    \<and> uint_eq a b = (u256_of_limbs a = u256_of_limbs b)"
  using assms u256_mul [of a0 a b] u256_of_limbs_zero [of a0]
  by (intro conjI u256_bitwise u256_lt u256_le u256_gt u256_ge u256_eq; simp)

theorem uint256_refines_word_witness:
  "u256_of_limbs (uint_sub (u256_limbs 5) (u256_limbs 7)) = - 2
   \<and> u256_of_limbs (uint_div (u256_limbs (- 1)) (u256_limbs 10)) = (- 1) div 10
   \<and> uint_lt (u256_limbs 5) (u256_limbs 7)
   \<and> u256_of_limbs (uint_mul (u256_limbs 1) (u256_limbs 5) (u256_limbs 7)) = 36"
  using uint256_refines_word [of "u256_limbs 5" "u256_limbs 7" "u256_limbs 1"]
    uint256_refines_word [of "u256_limbs (- 1)" "u256_limbs 10" "u256_limbs 1"] by simp

text \<open>
  For every width of at least two limbs the shift-and-subtract loop of \<^verbatim>\<open>operator/=\<close> computes the
  quotient of the numbers, with a zero divisor giving zero.
\<close>

theorem uint_div_correct:
  assumes "length dv = length num" and "2 \<le> length num"
  shows "length (uint_div num dv) = length num
    \<and> limbs_val (uint_div num dv) = limbs_val num div limbs_val dv"
  using uint_div_val [OF assms] by simp

theorem uint_div_correct_witness:
  "limbs_val (uint_div (uint_of_u64 5 1000) (uint_of_u64 5 7)) = 142
   \<and> limbs_val (uint_div (uint_of_u64 5 1000) (uint_of_u64 5 0)) = 0"
  using uint_div_correct [of "uint_of_u64 5 7" "uint_of_u64 5 1000"]
    uint_div_correct [of "uint_of_u64 5 0" "uint_of_u64 5 1000"]
  by (simp add: uint_of_u64_val)

section \<open>Compact encoding\<close>

lemma and_mask_23: "(c :: u32) AND 0x007fffff = take_bit 23 c"
  by (simp add: take_bit_eq_mask mask_eq_exp_minus_1)

lemma and_bit_23: "(c :: u32) AND 0x00800000 \<noteq> 0 \<longleftrightarrow> bit c 23"
  using bit_iff_and_push_bit_not_eq_0 [of c 23] by simp

lemma bit_sign_23: "bit (0x00800000 :: nat) i \<longleftrightarrow> i = 23" "bit (0x00800000 :: int) i \<longleftrightarrow> i = 23"
  using bit_exp_iff [of 23 i, where ?'a = nat] bit_exp_iff [of 23 i, where ?'a = int] by auto

lemma unat_drop_u32: "unat (drop_bit k (c :: u32)) = unat c div 2 ^ k"
  by (simp only: unat_drop_bit_eq) (simp only: drop_bit_eq_div)

lemma unat_take_u32: "unat (take_bit k (c :: u32)) = unat c mod 2 ^ k"
  by (simp only: unsigned_take_bit_eq) (simp only: take_bit_eq_mod)

text \<open>The number a compact value stands for, before it is cut to 256 bits.\<close>

definition compact_num :: "nat \<Rightarrow> nat \<Rightarrow> nat" where
  "compact_num m n = (if n \<le> 3 then m div 256 ^ (3 - n) else m * 256 ^ (n - 3))"

lemma pow_256: "256 ^ k = (2 :: nat) ^ (8 * k)"
  by (simp add: power_mult)

lemma uint_SetCompact_val:
  "limbs_val (fst (uint_SetCompact c))
     = compact_num (unat c mod 2 ^ 23) (unat c div 2 ^ 24) mod 2 ^ 256"
  "length (fst (uint_SetCompact c)) = 8"
proof -
  have w: "unat (c AND 0x007fffff) = unat c mod 2 ^ 23"
    by (simp only: and_mask_23 unat_take_u32)
  have less: "unat c mod 2 ^ 23 < 2 ^ 256"
    by (rule less_trans [of _ "2 ^ 23"]) simp_all
  have "unat c mod 2 ^ 23 div 256 ^ k < 2 ^ 256" for k
    using less div_le_dividend [of "unat c mod 2 ^ 23" "256 ^ k"] by linarith
  then show "limbs_val (fst (uint_SetCompact c))
      = compact_num (unat c mod 2 ^ 23) (unat c div 2 ^ 24) mod 2 ^ 256"
    using w less
    by (cases "unat c div 2 ^ 24 \<le> 3")
      (simp_all only: uint_SetCompact_def Let_def fst_conv unat_drop_u32 uint_of_u64_val uint_shl_val
        unat_ucast_32_64 compact_num_def pow_256 if_True if_False length_uint_of_u64 mod_less, simp_all)
  show "length (fst (uint_SetCompact c)) = 8"
    by (simp add: uint_SetCompact_def Let_def)
qed

lemma or_add_disjoint:
  fixes a b :: "'a::len word"
  assumes "unat a < 2 ^ k"
  shows "a OR push_bit k b = a + push_bit k b"
proof (rule disjunctive_add [symmetric])
  fix i
  have "\<not> bit a i" if "k \<le> i"
  proof -
    from that have "(2::nat) ^ k \<le> 2 ^ i" by simp
    with assms have "unat a < 2 ^ i" by linarith
    then have "\<not> bit (unat a) i" by (simp add: bit_iff_odd)
    then show ?thesis by simp
  qed
  then show "\<not> bit a i \<or> \<not> bit (push_bit k b) i" by (auto simp: bit_push_bit_iff not_le)
qed

lemma uint_low64_val [uint_val]: "2 \<le> length pn \<Longrightarrow> unat (uint_low64 pn) = limbs_val pn mod 2 ^ 64"
proof -
  assume "2 \<le> length pn"
  then obtain p q r where pn: "pn = p # q # r" by (auto simp: Suc_le_length_iff numeral_2_eq_2)
  have "unat p < 2 ^ 32" "unat q < 2 ^ 32" using unat_u32_less [of p] unat_u32_less [of q] by simp_all
  then have s: "unat p + unat q * 2 ^ 32 < 2 ^ 64" by simp
  have "uint_low64 pn = ucast p + push_bit 32 (ucast q)"
    using or_add_disjoint [of "ucast p :: u64" 32 "ucast q"] \<open>unat p < 2 ^ 32\<close>
    by (simp add: uint_low64_def pn)
  also have "\<dots> = of_nat (unat p + unat q * 2 ^ 32)"
    by (simp add: push_bit_eq_mult of_nat_unat_ucast)
  finally have "unat (uint_low64 pn) = unat p + unat q * 2 ^ 32"
    using s by (simp only: unat_of_nat) simp
  also have "\<dots> = limbs_val pn mod 2 ^ 64"
  proof -
    have "limbs_val pn = unat p + unat q * 2 ^ 32 + limbs_val r * 2 ^ 64" by (simp add: pn)
    then show ?thesis using s by (simp only: mod_mult_self1 mod_less)
  qed
  finally show ?thesis .
qed

text \<open>Mantissa and size that \<^verbatim>\<open>GetCompact\<close> chooses for the number \<open>x\<close> of \<open>n\<close> bytes.\<close>

definition compact_m0 :: "nat \<Rightarrow> nat \<Rightarrow> nat" where
  "compact_m0 x n = (if n \<le> 3 then x * 256 ^ (3 - n) else x div 256 ^ (n - 3))"

definition compact_parts :: "nat \<Rightarrow> nat \<Rightarrow> nat \<times> nat" where
  "compact_parts x n = (if 2 ^ 23 \<le> compact_m0 x n then (compact_m0 x n div 256, n + 1)
     else (compact_m0 x n, n))"

lemma compact_m0_less: "x < 256 ^ n \<Longrightarrow> compact_m0 x n < 2 ^ 24"
proof (cases "n \<le> 3")
  case True
  assume "x < 256 ^ n"
  then have "x * 256 ^ (3 - n) < 256 ^ n * 256 ^ (3 - n)" by (intro mult_less_mono1) simp_all
  also have "\<dots> = (256 :: nat) ^ 3" using True by (simp add: power_add [symmetric])
  finally show ?thesis using True by (simp add: compact_m0_def)
next
  case False
  assume "x < 256 ^ n"
  also have "(256 :: nat) ^ n = 256 ^ 3 * 256 ^ (n - 3)"
    using False by (simp only: power_add [symmetric]) simp
  finally show ?thesis using False by (simp add: compact_m0_def less_mult_imp_div_less)
qed

lemma uint_bytes_len:
  fixes pn :: base_uint
  defines "n \<equiv> (uint_bits pn + 7) div 8"
  shows "limbs_val pn < 256 ^ n" and "limbs_val pn \<noteq> 0 \<Longrightarrow> 0 < n \<and> 256 ^ (n - 1) \<le> limbs_val pn"
    and "length pn = 8 \<Longrightarrow> n \<le> 32"
proof -
  have "uint_bits pn \<le> 8 * n" by (simp add: n_def)
  then have "(2::nat) ^ uint_bits pn \<le> 2 ^ (8 * n)" by (rule power_increasing) simp
  with uint_bits_upper [of pn] show "limbs_val pn < 256 ^ n" unfolding pow_256 by linarith
  show "0 < n \<and> 256 ^ (n - 1) \<le> limbs_val pn" if "limbs_val pn \<noteq> 0"
  proof -
    from uint_bits_lower [OF that] have "0 < uint_bits pn" "2 ^ (uint_bits pn - 1) \<le> limbs_val pn" by simp_all
    moreover from this have "8 * (n - 1) \<le> uint_bits pn - 1" "0 < n" by (simp_all add: n_def)
    then have "(2::nat) ^ (8 * (n - 1)) \<le> 2 ^ (uint_bits pn - 1)" by (intro power_increasing) simp_all
    ultimately show ?thesis using \<open>0 < n\<close> unfolding pow_256 by linarith
  qed
  show "n \<le> 32" if "length pn = 8"
  proof (cases "limbs_val pn = 0")
    case True
    then have "n = 0" using uint_bits_eq_0_iff [of pn] by (simp add: n_def)
    then show ?thesis by simp
  next
    case False
    from uint_bits_lower [OF False] have "2 ^ (uint_bits pn - 1) \<le> limbs_val pn" by simp
    also have "limbs_val pn < 2 ^ 256" using limbs_val_less [of pn] that by simp
    finally have "uint_bits pn - 1 < 256" by (rule power_less_imp_less_exp [rotated]) simp
    then show ?thesis by (simp add: n_def)
  qed
qed

lemma unat_push_u64: "unat (push_bit k (w :: u64)) = unat w * 2 ^ k mod 2 ^ 64"
  by (simp only: unsigned_push_bit_eq) (simp add: take_bit_eq_mod push_bit_eq_mult)

lemma GetCompact_m0:
  fixes pn :: base_uint
  assumes "length pn = 8"
  defines "n \<equiv> (uint_bits pn + 7) div 8"
  shows "unat (if n \<le> 3 then ucast (push_bit (8 * (3 - n)) (uint_low64 pn))
               else ucast (uint_low64 (uint_shr pn (8 * (n - 3)))) :: u32)
    = compact_m0 (limbs_val pn) n"
proof -
  let ?x = "limbs_val pn"
  have m0: "compact_m0 ?x n < 2 ^ 24"
    unfolding n_def by (rule compact_m0_less [OF uint_bytes_len(1)])
  then have m32: "compact_m0 ?x n mod 2 ^ 64 mod 2 ^ 32 = compact_m0 ?x n" by simp
  show ?thesis
  proof (cases "n \<le> 3")
    case True
    have "?x < 256 ^ n" unfolding n_def by (rule uint_bytes_len(1))
    also have "(256::nat) ^ n \<le> 256 ^ 3" using True by (intro power_increasing) simp_all
    finally have "?x mod 2 ^ 64 = ?x" by simp
    with m32 True assms show ?thesis
      by (simp only: if_True unat_ucast_u32 unat_push_u64 uint_low64_val compact_m0_def pow_256)
  next
    case False
    with m32 assms show ?thesis
      by (simp only: if_False unat_ucast_u32 uint_low64_val uint_shr_val length_uint_shr compact_m0_def pow_256)
  qed
qed

lemma compact_parts_bounds:
  assumes "x < 256 ^ n" and "n \<le> 32" and "compact_parts x n = (m, k)"
  shows "m < 2 ^ 23" "k \<le> 33"
  using compact_m0_less [OF assms(1)] assms(2,3)
  by (auto simp: compact_parts_def split: if_splits)

lemma uint_GetCompact_parts:
  assumes "length pn = 8" and "compact_parts (limbs_val pn) ((uint_bits pn + 7) div 8) = (m, k)"
  shows "uint_GetCompact pn fNeg
    = Some (of_nat (m + 2 ^ 24 * k + (if fNeg \<and> m \<noteq> 0 then 2 ^ 23 else 0)))"
proof -
  define n where "n = (uint_bits pn + 7) div 8"
  define c0 :: u32 where "c0 = (if n \<le> 3 then ucast (push_bit (8 * (3 - n)) (uint_low64 pn))
               else ucast (uint_low64 (uint_shr pn (8 * (n - 3)))))"
  define c1 where "c1 = (if c0 AND 0x00800000 \<noteq> 0 then drop_bit 8 c0 else c0)"
  have c0: "unat c0 = compact_m0 (limbs_val pn) n"
    using GetCompact_m0 [OF assms(1)] by (simp only: c0_def n_def)
  have c0_less: "unat c0 < 2 ^ Suc 23"
    using compact_m0_less [OF uint_bytes_len(1) [of pn]] by (simp add: c0 n_def)
  have sign: "c0 AND 0x00800000 \<noteq> 0 \<longleftrightarrow> 2 ^ 23 \<le> unat c0"
    using bit_nat_top [OF c0_less] by (simp only: and_bit_23 bit_unat)
  have m: "unat c1 = m" and k: "(if c0 AND 0x00800000 \<noteq> 0 then n + 1 else n) = k"
    using assms(2) unfolding c1_def sign compact_parts_def n_def [symmetric] c0 [symmetric]
    by (simp_all add: unat_drop_u32 split: if_splits)
  note bounds = compact_parts_bounds [OF uint_bytes_len(1) uint_bytes_len(3) [OF assms(1)] assms(2)]
  then have m_less: "unat c1 < 2 ^ 23" by (simp add: m)
  have take: "take_bit 23 c1 = c1"
    using m_less by (simp add: word_unat_eq_iff unat_take_u32 flip: power_numeral)
  then have hi: "\<not> bit c1 i" if "23 \<le> i" for i
    using that by (metis bit_take_bit_iff not_le)
  have mask: "(0x007fffff :: u32) = mask 23" by (simp add: mask_eq_exp_minus_1)
  have no_assert: "c1 AND NOT 0x007fffff = 0"
    unfolding mask using hi by (auto intro!: bit_word_eqI simp: bit_simps)
  define c2 where "c2 = c1 OR push_bit 24 (of_nat k)"
  have "unat c1 < 2 ^ 24" using m_less by simp
  then have c2: "c2 = c1 + push_bit 24 (of_nat k)" by (simp add: c2_def or_add_disjoint)
  have low: "c2 AND 0x007fffff = c1"
    unfolding and_mask_23 c2_def using hi by (auto intro!: bit_word_eqI simp: bit_simps not_le)
  have "uint_GetCompact pn fNeg = Some (c2 OR (if fNeg \<and> c1 \<noteq> 0 then 0x00800000 else 0))"
    unfolding uint_GetCompact_def Let_def n_def [symmetric] c0_def [symmetric] c1_def [symmetric] k
      c2_def [symmetric] no_assert low
    using bounds by simp
  moreover have "c2 OR 0x00800000 = c2 + 0x00800000"
    using hi by (intro disjunctive_add [symmetric]) (auto simp: c2_def bit_or_iff bit_push_bit_iff bit_sign_23)
  moreover have "c2 = of_nat (m + 2 ^ 24 * k)"
    by (simp add: c2 m [symmetric] push_bit_eq_mult)
  ultimately show ?thesis by (auto simp: m [symmetric] unat_eq_zero)
qed

text \<open>Decoding the chosen parts clears the low bytes, by less than a 32768th of the number.\<close>

lemma compact_num_parts:
  assumes "x \<noteq> 0 \<Longrightarrow> 0 < n \<and> 256 ^ (n - 1) \<le> x" and "compact_parts x n = (m, k)" and "x < 256 ^ n"
  obtains j where "compact_num m k = x div 256 ^ j * 256 ^ j" "j = 0 \<or> j < n \<and> 256 ^ j * 2 ^ 15 \<le> x"
    "x < 2 ^ 23 * 256 ^ j" "\<And>y. y = x div 256 ^ j * 256 ^ j \<Longrightarrow> compact_parts y n = (m, k)"
proof (cases "n \<le> 3 \<and> (compact_m0 x n < 2 ^ 23 \<or> n < 3)")
  case True
  then consider "n = 0" | "n = 1" | "n = 2" | "n = 3 \<and> compact_m0 x n < 2 ^ 23" by linarith
  then have "compact_num m k = x"
    using assms(2) by cases (auto simp: compact_parts_def compact_num_def compact_m0_def split: if_splits)
  moreover have "x < 2 ^ 23"
  proof (cases "n = 3")
    case True
    with \<open>n \<le> 3 \<and> (compact_m0 x n < 2 ^ 23 \<or> n < 3)\<close> show ?thesis by (simp add: compact_m0_def)
  next
    case False
    with True have "n \<le> 2" by simp
    then have "(256::nat) ^ n \<le> 256 ^ 2" by (intro power_increasing) simp_all
    with assms(3) show ?thesis by simp
  qed
  ultimately show ?thesis using assms by (intro that [of 0]) simp_all
next
  case False
  show ?thesis
  proof (cases "compact_m0 x n < 2 ^ 23")
    case True
    with False have n: "3 < n" by auto
    let ?D = "256 ^ (n - 3) :: nat"
    from n have "n - 1 = (n - 3) + 2" by simp
    then have "(256::nat) ^ (n - 1) = ?D * 256 ^ 2" by (simp only: power_add)
    with assms(1) n have le: "?D * 2 ^ 15 \<le> x" if "x \<noteq> 0" using that by simp
    have m: "m = x div ?D" "k = n" using True n assms(2) by (auto simp: compact_parts_def compact_m0_def)
    show ?thesis
    proof (cases "x = 0")
      case True
      with m n assms(2) show ?thesis by (intro that [of 0]) (simp_all add: compact_num_def)
    next
      case False
      have "compact_parts y n = (m, k)" if "y = x div ?D * ?D" for y
        using that m n True by (simp add: compact_parts_def compact_m0_def)
      moreover have "x < 2 ^ 23 * ?D"
        using True n by (simp add: compact_m0_def div_less_iff_less_mult)
      ultimately show ?thesis
        using m n le [OF False] by (intro that [of "n - 3"]) (simp_all add: compact_num_def)
    qed
  next
    case big: False
    with False have n: "3 \<le> n" by auto
    let ?D = "256 ^ (n - 3) :: nat" and ?E = "256 ^ (n - 2) :: nat"
    have m0: "compact_m0 x n = x div ?D" using n by (cases "n = 3") (simp_all add: compact_m0_def)
    from n have "n - 2 = (n - 3) + 1" by simp
    then have E: "?E = ?D * 256" by (simp only: power_add power_one_right)
    from big m0 have "2 ^ 23 \<le> x div ?D" by simp
    then have "2 ^ 23 * ?D \<le> x" by (metis div_times_less_eq_dividend le_trans mult_le_mono1)
    then have le: "?E * 2 ^ 15 \<le> x" by (simp add: E)
    have m: "m = x div ?E" "k = n + 1"
      using big assms(2) by (auto simp: compact_parts_def m0 E div_mult2_eq)
    have "compact_parts y n = (m, k)" if y: "y = x div ?E * ?E" for y
    proof -
      have "y div ?D = x div ?E * 256" unfolding y E by (simp add: mult.assoc [symmetric] mult.commute [of ?D])
      moreover have "compact_m0 y n = y div ?D" using n by (cases "n = 3") (simp_all add: compact_m0_def)
      moreover have "2 ^ 23 div 256 \<le> x div ?D div 256" using \<open>2 ^ 23 \<le> x div ?D\<close> by (rule div_le_mono)
      ultimately show ?thesis
        using m by (simp add: compact_parts_def E div_mult2_eq)
    qed
    moreover have "x < 2 ^ 23 * ?E"
    proof -
      from n have "n = 2 + (n - 2)" by simp
      then have "(256::nat) ^ n = 256 ^ 2 * ?E" by (metis power_add)
      also have "\<dots> \<le> 2 ^ 23 * ?E" by (intro mult_le_mono1) simp
      finally show ?thesis using assms(3) by linarith
    qed
    ultimately show ?thesis
      using m n le by (intro that [of "n - 2"]) (simp_all add: compact_num_def)
  qed
qed

lemma byte_len_unique:
  fixes x :: nat
  assumes "0 < a" "256 ^ (a - 1) \<le> x" "x < 256 ^ a" "0 < b" "256 ^ (b - 1) \<le> x" "x < 256 ^ b"
  shows "a = b"
proof -
  have "a - 1 < b" by (rule power_less_imp_less_exp [OF _ le_less_trans [OF assms(2,6)]]) simp
  moreover have "b - 1 < a" by (rule power_less_imp_less_exp [OF _ le_less_trans [OF assms(5,3)]]) simp
  ultimately show ?thesis using assms(1,4) by linarith
qed

lemma byte_len_floor:
  fixes x :: nat
  assumes "x \<noteq> 0 \<Longrightarrow> 0 < n \<and> 256 ^ (n - 1) \<le> x" "x < 256 ^ n" "j = 0 \<or> j < n"
  shows "x = 0 \<or> 0 < n \<and> 256 ^ (n - 1) \<le> x div 256 ^ j * 256 ^ j \<and> x div 256 ^ j * 256 ^ j < 256 ^ n"
proof (cases "x = 0")
  case False
  with assms have n: "0 < n" "256 ^ (n - 1) \<le> x" by simp_all
  with assms(3) have "n - 1 = (n - 1 - j) + j" by auto
  then have pw: "256 ^ (n - 1) = (256 :: nat) ^ (n - 1 - j) * 256 ^ j" by (metis power_add)
  have "256 ^ (n - 1) div 256 ^ j \<le> x div 256 ^ j" using n(2) by (rule div_le_mono)
  then have "256 ^ (n - 1 - j) \<le> x div 256 ^ j" by (simp only: pw) simp
  then have "256 ^ (n - 1) \<le> x div 256 ^ j * 256 ^ j" unfolding pw by (rule mult_le_mono1)
  moreover have "x div 256 ^ j * 256 ^ j \<le> x" by simp
  ultimately show ?thesis using n assms(2) by linarith
qed simp

lemma floor_mult_bounds:
  fixes x :: nat
  assumes "j = 0 \<or> 256 ^ j * 2 ^ 15 \<le> x"
  shows "x div 256 ^ j * 256 ^ j \<le> x" "(x - x div 256 ^ j * 256 ^ j) * 2 ^ 15 \<le> x"
proof -
  show "x div 256 ^ j * 256 ^ j \<le> x" by simp
  show "(x - x div 256 ^ j * 256 ^ j) * 2 ^ 15 \<le> x"
  proof (cases "j = 0")
    case False
    have "x mod 256 ^ j * 2 ^ 15 \<le> 256 ^ j * 2 ^ 15"
      by (intro mult_le_mono1 less_imp_le mod_less_divisor) simp
    with False assms show ?thesis unfolding minus_div_mult_eq_mod by linarith
  qed simp
qed

lemma compact_overflow_iff:
  assumes "w < 2 ^ 23" "n < 256"
  shows "2 ^ 256 \<le> compact_num w n \<longleftrightarrow>
    w \<noteq> 0 \<and> (n > 34 \<or> (w > 0xff \<and> n > 33) \<or> (w > 0xffff \<and> n > 32))"
proof -
  consider "n \<le> 3" | "3 < n" "n \<le> 32" | "n = 33" | "n = 34" | "35 \<le> n" by linarith
  then show ?thesis
  proof cases
    case 1
    have "w div 256 ^ (3 - n) \<le> w" by (rule div_le_dividend)
    also have "w < 2 ^ 256" by (rule less_trans [OF assms(1)]) simp
    finally show ?thesis using 1 by (simp add: compact_num_def)
  next
    case 2
    have "w * 256 ^ (n - 3) \<le> 2 ^ 23 * 256 ^ 29"
      using assms 2 by (intro mult_le_mono power_increasing) simp_all
    also have "\<dots> < 2 ^ 256" by simp
    finally show ?thesis using 2 by (simp add: compact_num_def)
  next
    case 5
    have "2 ^ 256 \<le> (256 :: nat) ^ (n - 3)"
      unfolding pow_256 using 5 by (intro power_increasing) simp_all
    moreover have "256 ^ (n - 3) \<le> w * 256 ^ (n - 3)" if "w \<noteq> 0" using that by simp
    ultimately have "2 ^ 256 \<le> w * 256 ^ (n - 3)" if "w \<noteq> 0"
      using that le_trans by blast
    then show ?thesis using 5 by (cases "w = 0") (simp_all add: compact_num_def)
  qed (auto simp: compact_num_def)
qed

lemma uint_SetCompact_flags:
  fixes c :: u32
  defines "w \<equiv> unat c mod 2 ^ 23" and "n \<equiv> unat c div 2 ^ 24"
  shows "snd (snd (uint_SetCompact c)) \<longleftrightarrow> 2 ^ 256 \<le> compact_num w n"
    and "\<not> bit c 23 \<Longrightarrow> \<not> fst (snd (uint_SetCompact c))"
proof -
  have w: "unat (c AND 0x007fffff) = w" unfolding w_def by (simp only: and_mask_23 unat_take_u32)
  have n: "unat (drop_bit 24 c) = n" unfolding n_def by (rule unat_drop_u32)
  have "w < 2 ^ 23" by (simp add: w_def)
  moreover have "n < 256" using unat_u32_less [of c] by (simp add: n_def less_mult_imp_div_less)
  ultimately have "2 ^ 256 \<le> compact_num w n \<longleftrightarrow>
    w \<noteq> 0 \<and> (n > 34 \<or> (w > 0xff \<and> n > 33) \<or> (w > 0xffff \<and> n > 32))" by (rule compact_overflow_iff)
  then show "snd (snd (uint_SetCompact c)) \<longleftrightarrow> 2 ^ 256 \<le> compact_num w n"
    unfolding uint_SetCompact_def Let_def snd_conv n
    by (cases "n \<le> 3") (auto simp: word_less_nat_alt w unat_eq_zero [symmetric] simp del: unat_eq_zero)
  show "\<not> bit c 23 \<Longrightarrow> \<not> fst (snd (uint_SetCompact c))"
    by (simp add: uint_SetCompact_def Let_def and_bit_23 [symmetric])
qed

text \<open>Encoding rounds down to a multiple of \<open>256 ^ j\<close>, with \<open>j\<close> the least that leaves 23 mantissa bits.\<close>

definition compact_exp :: "nat \<Rightarrow> nat \<Rightarrow> bool" where
  "compact_exp x j = (x < 2 ^ 23 * 256 ^ j \<and> (j = 0 \<or> 256 ^ j * 2 ^ 15 \<le> x))"

lemma compact_floor_exists:
  assumes "length pn = 8"
  shows "\<exists>c j. uint_GetCompact pn False = Some c \<and> compact_exp (limbs_val pn) j \<and>
    \<not> fst (snd (uint_SetCompact c)) \<and> \<not> snd (snd (uint_SetCompact c)) \<and>
    limbs_val (fst (uint_SetCompact c)) = limbs_val pn div 256 ^ j * 256 ^ j \<and>
    uint_GetCompact (fst (uint_SetCompact c)) False = Some c"
proof -
  define x n where "x = limbs_val pn" and "n = (uint_bits pn + 7) div 8"
  obtain m k where mk: "compact_parts x n = (m, k)" by (cases "compact_parts x n")
  have lo: "x \<noteq> 0 \<Longrightarrow> 0 < n \<and> 256 ^ (n - 1) \<le> x" and hi: "x < 256 ^ n" and n32: "n \<le> 32"
    using uint_bytes_len [of pn] assms by (simp_all add: x_def n_def)
  obtain j where j: "compact_num m k = x div 256 ^ j * 256 ^ j" "j = 0 \<or> j < n \<and> 256 ^ j * 2 ^ 15 \<le> x"
    "x < 2 ^ 23 * 256 ^ j" "compact_parts (x div 256 ^ j * 256 ^ j) n = (m, k)"
    using compact_num_parts [OF lo mk hi] by metis
  define y where "y = x div 256 ^ j * 256 ^ j"
  have bnd: "y \<le> x" "(x - y) * 2 ^ 15 \<le> x" using floor_mult_bounds [of j x] j(2) by (auto simp: y_def)
  define c :: u32 where "c = of_nat (m + 2 ^ 24 * k)"
  have c: "uint_GetCompact pn False = Some c"
    using uint_GetCompact_parts [OF assms, of m k False] mk by (simp add: c_def x_def n_def)
  have m: "m < 2 ^ 23" and k: "k \<le> 33" using compact_parts_bounds [OF hi n32 mk] by simp_all
  then have uc: "unat c = m + 2 ^ 24 * k" by (simp only: c_def unat_of_nat) simp
  then have uc2: "unat c = m + 2 ^ 23 * (2 * k)" by simp
  have parts: "unat c mod 2 ^ 23 = m" "unat c div 2 ^ 24 = k"
    using m by (simp_all only: uc2 mod_mult_self2 mod_less) simp_all
  have "x < 2 ^ 256" using limbs_val_less [of pn] assms by (simp add: x_def)
  with bnd have y256: "y < 2 ^ 256" by linarith
  define r where "r = fst (uint_SetCompact c)"
  have r: "limbs_val r = y" "length r = 8"
    using uint_SetCompact_val [of c] y256
    by (simp_all only: r_def parts j(1) y_def [symmetric] mod_less)
  have "unat c div 2 ^ 23 = 2 * k" using uc m by simp
  then have sign: "\<not> bit c 23" using bit_unat [of c 23] by (simp add: bit_iff_odd)
  have "(uint_bits r + 7) div 8 = n"
    using byte_len_floor [OF lo hi, of j] j(2) uint_bytes_len(1,2) [of r] uint_bits_eq_0_iff [of r]
      uint_bits_eq_0_iff [of pn] r(1) bnd
    by (auto simp: y_def n_def x_def intro: byte_len_unique)
  then have "uint_GetCompact r False = Some c"
    using uint_GetCompact_parts [OF r(2), of m k False] j(4) by (simp add: c_def r(1) y_def)
  moreover have "\<not> snd (snd (uint_SetCompact c))"
    using uint_SetCompact_flags(1) [of c] y256 unfolding parts j(1) y_def [symmetric] by simp
  moreover have "compact_exp x j" using j(2,3) by (auto simp: compact_exp_def)
  ultimately show ?thesis
    using c r(1) uint_SetCompact_flags(2) [OF sign] unfolding r_def x_def y_def by blast
qed

lemma compact_exp_mono:
  assumes "compact_exp x i" "compact_exp y j" "x \<le> y"
  shows "x div 256 ^ i * 256 ^ i \<le> y div 256 ^ j * 256 ^ j"
proof -
  consider "i = j" | "i < j" | "j < i" by linarith
  then show ?thesis
  proof cases
    case 1
    with assms(3) show ?thesis by (simp add: div_le_mono)
  next
    case 2
    then have "256 ^ j * 2 ^ 15 \<le> y" using assms(2) by (auto simp: compact_exp_def)
    then have "2 ^ 15 \<le> y div 256 ^ j" by (simp add: less_eq_div_iff_mult_less_eq mult.commute)
    then have up: "2 ^ 15 * 256 ^ j \<le> y div 256 ^ j * 256 ^ j" by (rule mult_le_mono1)
    have "x < 2 ^ 23 * 256 ^ i" using assms(1) by (simp add: compact_exp_def)
    also have "\<dots> \<le> 2 ^ 15 * 256 ^ j"
    proof -
      have "(256::nat) ^ Suc i \<le> 256 ^ j" using 2 by (intro power_increasing) simp_all
      then show ?thesis by simp
    qed
    finally show ?thesis using up floor_mult_bounds(1) [of i x] by (meson div_times_less_eq_dividend le_trans less_imp_le)
  next
    case 3
    have "x < 2 ^ 23 * 256 ^ j" using assms(2,3) by (simp add: compact_exp_def)
    also have "\<dots> \<le> 2 ^ 15 * 256 ^ i"
    proof -
      have "(256::nat) ^ Suc j \<le> 256 ^ i" using 3 by (intro power_increasing) simp_all
      then show ?thesis by simp
    qed
    finally have "x < 256 ^ i * 2 ^ 15" by (simp add: mult.commute)
    with assms(1) 3 show ?thesis by (simp add: compact_exp_def)
  qed
qed

text \<open>
  C25: \<^verbatim>\<open>GetCompact\<close> never hits its assertions on a \<^verbatim>\<open>uint256\<close>, and decoding its result with
  \<^verbatim>\<open>SetCompact\<close> raises neither flag, gives a value that is at most the original one and differs
  from it by at most one part in 32768, and encodes to the same compact value again: the
  compact targets the consensus code stores are fixed points of the encoding.
\<close>

theorem compact_round_trip:
  assumes "length pn = 8"
  shows "\<exists>c. uint_GetCompact pn False = Some c \<and>
    \<not> fst (snd (uint_SetCompact c)) \<and> \<not> snd (snd (uint_SetCompact c)) \<and>
    limbs_val (fst (uint_SetCompact c)) \<le> limbs_val pn \<and>
    (limbs_val pn - limbs_val (fst (uint_SetCompact c))) * 2 ^ 15 \<le> limbs_val pn \<and>
    uint_GetCompact (fst (uint_SetCompact c)) False = Some c"
proof -
  obtain c j where c: "uint_GetCompact pn False = Some c" "compact_exp (limbs_val pn) j"
    "\<not> fst (snd (uint_SetCompact c)) \<and> \<not> snd (snd (uint_SetCompact c))"
    "limbs_val (fst (uint_SetCompact c)) = limbs_val pn div 256 ^ j * 256 ^ j"
    "uint_GetCompact (fst (uint_SetCompact c)) False = Some c"
    using compact_floor_exists [OF assms] by blast
  have "j = 0 \<or> 256 ^ j * 2 ^ 15 \<le> limbs_val pn" using c(2) by (auto simp: compact_exp_def)
  from floor_mult_bounds [OF this] c show ?thesis by auto
qed

theorem compact_round_trip_witness:
  "\<exists>c. uint_GetCompact (u256_limbs 0x123456789abcdef) False = Some c \<and>
    \<not> fst (snd (uint_SetCompact c)) \<and> \<not> snd (snd (uint_SetCompact c)) \<and>
    limbs_val (fst (uint_SetCompact c)) \<le> 0x123456789abcdef \<and>
    (0x123456789abcdef - limbs_val (fst (uint_SetCompact c))) * 2 ^ 15 \<le> 0x123456789abcdef \<and>
    uint_GetCompact (fst (uint_SetCompact c)) False = Some c"
  using compact_round_trip [of "u256_limbs 0x123456789abcdef"] by simp

text \<open>
  \<^verbatim>\<open>SetCompact\<close> decodes mantissa times \<open>256 ^ (size - 3)\<close> modulo \<open>2 ^ 256\<close>, and its overflow
  flag is raised exactly when that product does not fit into 256 bits.
\<close>

theorem SetCompact_value_and_overflow:
  "limbs_val (fst (uint_SetCompact c))
     = compact_num (unat c mod 2 ^ 23) (unat c div 2 ^ 24) mod 2 ^ 256
   \<and> length (fst (uint_SetCompact c)) = 8
   \<and> snd (snd (uint_SetCompact c)) = (2 ^ 256 \<le> compact_num (unat c mod 2 ^ 23) (unat c div 2 ^ 24))"
  using uint_SetCompact_val [of c] uint_SetCompact_flags(1) [of c] by blast

section \<open>Text form\<close>

lemma length_uint_bytes [simp]: "length (uint_bytes pn) = 4 * length pn"
  by (induction pn) (simp_all add: uint_bytes_def)

lemma le_bytes_4: "\<exists>a b c d. le_bytes 4 w = [a, b, c, d]"
  using length_le_bytes [of 4 w] by (auto simp: numeral_eq_Suc length_Suc_conv simp del: length_le_bytes)

lemma uint_of_bytes_inverse [simp]: "uint_of_bytes (uint_bytes pn) = pn"
proof (induction pn)
  case (Cons p pn)
  obtain a b c d where le: "le_bytes 4 p = [a, b, c, d]" using le_bytes_4 by blast
  have "le_word (le_bytes 4 p) = p" by simp
  with Cons.IH show ?case by (simp only: uint_bytes_def list.map concat.simps le append_Cons append_Nil uint_of_bytes.simps)
qed (simp add: uint_bytes_def)

lemma of_char_hex_digit: "d < 16 \<Longrightarrow> (of_char (hex_digit d) :: nat) = (if d < 10 then 48 + d else 87 + d)"
  by (simp add: hex_digit_def)

lemma hex_digit_facts:
  assumes "d < 16"
  shows "phexdigit (hex_digit d) = of_nat d" "is_hex (hex_digit d)" "\<not> is_space (hex_digit d)"
    "hex_digit d \<noteq> CHR ''x''" "hex_digit d \<noteq> CHR ''X''"
proof -
  show ph: "phexdigit (hex_digit d) = of_nat d"
    using assms by (cases "d = 0") (auto simp: phexdigit_def Let_def of_char_hex_digit)
  have "(of_nat d :: u8) = 0 \<longleftrightarrow> d = 0"
    using assms by (simp add: word_unat_eq_iff unat_of_nat)
  moreover have "(of_char (hex_digit 0) :: nat) = of_char CHR ''0''" by (simp add: of_char_hex_digit)
  then have "hex_digit 0 = CHR ''0''" by (simp only: of_char_eq_iff)
  ultimately show "is_hex (hex_digit d)" by (auto simp: is_hex_def ph)
  show "\<not> is_space (hex_digit d)"
    using assms by (simp add: is_space_def Let_def of_char_hex_digit)
  have "(of_char CHR ''x'' :: nat) = 120" "(of_char CHR ''X'' :: nat) = 88" by simp_all
  with of_char_hex_digit [OF assms] assms show "hex_digit d \<noteq> CHR ''x''" "hex_digit d \<noteq> CHR ''X''"
    by (auto split: if_splits)
qed

lemma unat_u8_less: "unat (b :: u8) < 256"
  using unsigned_less [of b, where ?'a = nat] by simp

lemma nibbles_u8: "of_nat (unat b mod 16) OR push_bit 4 (of_nat (unat b div 16)) = (b :: u8)"
proof -
  have "of_nat (unat b mod 16) OR push_bit 4 (of_nat (unat b div 16))
      = (of_nat (unat b mod 16) + push_bit 4 (of_nat (unat b div 16)) :: u8)"
    by (rule or_add_disjoint) (simp add: unat_of_nat)
  also have "\<dots> = of_nat (unat b mod 16 + 16 * (unat b div 16))"
    by (simp only: push_bit_eq_mult of_nat_add of_nat_mult mult.commute) simp
  also have "\<dots> = b" by (simp only: mod_mult_div_eq) simp
  finally show ?thesis .
qed

lemma phexdigit_nibbles:
  "phexdigit (hex_digit (unat b mod 16)) OR push_bit 4 (phexdigit (hex_digit (unat b div 16))) = b"
  using unat_u8_less [of b] by (simp add: hex_digit_facts nibbles_u8)

lemma sethex_loop_bytes:
  "sethex_loop (concat (map (\<lambda>b. rev (hex_byte b)) bs)) (length bs) = bs"
  by (induction bs) (simp_all add: hex_byte_def phexdigit_nibbles)

lemma hex_text_digits: "c \<in> set (concat (map hex_byte bs)) \<Longrightarrow> \<exists>d < 16. c = hex_digit d"
proof -
  assume "c \<in> set (concat (map hex_byte bs))"
  then obtain b where "c \<in> set (hex_byte b)" by auto
  then have "c = hex_digit (unat b div 16) \<or> c = hex_digit (unat b mod 16)" by (simp add: hex_byte_def)
  moreover have "unat b div 16 < 16" using unat_u8_less [of b] by simp
  ultimately show ?thesis by (metis mod_less_divisor zero_less_numeral)
qed

text \<open>
  Reading back the hexadecimal text that \<^verbatim>\<open>GetHex\<close> writes gives the same limbs, and
  \<^verbatim>\<open>SetHex\<close> reports that it consumed all of its characters.
\<close>

theorem uint_SetHex_GetHex: "uint_SetHex (length pn) (uint_GetHex pn) = (pn, 8 * length pn)"
proof -
  define s where "s = uint_GetHex pn"
  have dig: "\<exists>d < 16. c = hex_digit d" if "c \<in> set s" for c
    using that hex_text_digits unfolding s_def uint_GetHex_def by blast
  have 1: "dropWhile is_space s = s"
    using dig hex_digit_facts(3) by (cases s) fastforce+
  have 2: "(case s of a # b # r \<Rightarrow> if a = CHR ''0'' \<and> (b = CHR ''x'' \<or> b = CHR ''X'') then r else s
      | _ \<Rightarrow> s) = s"
  proof (cases s)
    case (Cons a t)
    then show ?thesis using dig hex_digit_facts(4,5) by (cases t) fastforce+
  qed simp
  have 3: "takeWhile is_hex s = s"
    using dig hex_digit_facts(2) by (metis takeWhile_eq_all_conv)
  have 4: "rev s = concat (map (\<lambda>b. rev (hex_byte b)) (uint_bytes pn))"
    by (simp add: s_def uint_GetHex_def rev_concat rev_map o_def)
  have 5: "length s = 8 * length pn"
    by (simp add: s_def uint_GetHex_def length_concat o_def hex_byte_def sum_list_triv)
  show ?thesis
    using sethex_loop_bytes [of "uint_bytes pn"]
    unfolding s_def [symmetric] uint_SetHex_def Let_def 1 2 3 4 by (simp add: 5)
qed

section \<open>The interface the consensus code relies on\<close>

text \<open>
  Difficulty and trust are computed with complement, 64-bit addition, division and
  multiplication by a 32-bit number.  The locale states what the consensus code expects of
  these operators; its lemmas are the number theory of the consensus formulas.
\<close>

locale wide_uint =
  fixes bits :: nat
    and wf :: "'a \<Rightarrow> bool"
    and val :: "'a \<Rightarrow> nat"
    and compl :: "'a \<Rightarrow> 'a"
    and add64 :: "'a \<Rightarrow> u64 \<Rightarrow> 'a"
    and mul32 :: "'a \<Rightarrow> u32 \<Rightarrow> 'a"
    and quot :: "'a \<Rightarrow> 'a \<Rightarrow> 'a"
  assumes val_less: "wf a \<Longrightarrow> val a < 2 ^ bits"
    and wide: "64 \<le> bits"
    and compl_law: "wf a \<Longrightarrow> wf (compl a) \<and> val (compl a) = 2 ^ bits - 1 - val a"
    and add64_law: "wf a \<Longrightarrow> wf (add64 a b) \<and> val (add64 a b) = (val a + unat b) mod 2 ^ bits"
    and mul32_law: "wf a \<Longrightarrow> wf (mul32 a m) \<and> val (mul32 a m) = (val a * unat m) mod 2 ^ bits"
    and quot_law: "wf a \<Longrightarrow> wf d \<Longrightarrow> wf (quot a d) \<and> val (quot a d) = val a div val d"
begin

text \<open>The closed form \<open>~t / (t + 1) + 1\<close> is \<open>2 ^ bits / (t + 1)\<close> for every non-zero \<open>t\<close>.\<close>

lemma inverse_closed_form:
  assumes "wf t" "0 < val t"
  shows "wf (add64 (quot (compl t) (add64 t 1)) 1)"
    and "val (add64 (quot (compl t) (add64 t 1)) 1) = 2 ^ bits div (val t + 1)"
proof -
  have t1: "wf (add64 t 1)" "val (add64 t 1) = (val t + 1) mod 2 ^ bits"
    and c: "wf (compl t)" "val (compl t) = 2 ^ bits - 1 - val t"
    using add64_law [OF assms(1), of 1] compl_law [OF assms(1)] by simp_all
  then have q: "wf (quot (compl t) (add64 t 1))"
    "val (quot (compl t) (add64 t 1)) = (2 ^ bits - 1 - val t) div ((val t + 1) mod 2 ^ bits)"
    using quot_law by simp_all
  then show "wf (add64 (quot (compl t) (add64 t 1)) 1)" using add64_law by simp
  have less: "val t + 1 \<le> 2 ^ bits" using val_less [OF assms(1)] by simp
  have "(2 ^ bits - 1 - val t) div ((val t + 1) mod 2 ^ bits) + 1 = 2 ^ bits div (val t + 1)"
  proof (cases "val t + 1 = 2 ^ bits")
    case False
    with less have m: "(val t + 1) mod 2 ^ bits = val t + 1" by simp
    have "(2::nat) ^ bits = (2 ^ bits - 1 - val t) + (val t + 1)" using less by linarith
    then have "2 ^ bits div (val t + 1) = ((2 ^ bits - 1 - val t) + (val t + 1)) div (val t + 1)" by metis
    also have "\<dots> = (2 ^ bits - 1 - val t) div (val t + 1) + 1" by (rule div_add_self2) simp
    finally show ?thesis unfolding m by simp
  qed simp
  moreover have "2 ^ bits div (val t + 1) < 2 ^ bits"
    using assms(2) by (intro div_less_dividend) simp_all
  ultimately show "val (add64 (quot (compl t) (add64 t 1)) 1) = 2 ^ bits div (val t + 1)"
    using q add64_law [OF q(1), of 1] by simp
qed

text \<open>Scaling a value by \<open>m / d\<close> in the order division first never exceeds the exact product.\<close>

lemma scale_bound:
  assumes "wf a" "wf d" "val d \<le> val a" "0 < val d" "val a * unat m < 2 ^ bits * val d"
  shows "wf (mul32 (quot a d) m)"
    and "val (mul32 (quot a d) m) = val a div val d * unat m"
    and "val (mul32 (quot a d) m) * val d \<le> val a * unat m"
proof -
  have q: "wf (quot a d)" "val (quot a d) = val a div val d" using quot_law [OF assms(1,2)] by simp_all
  then show "wf (mul32 (quot a d) m)" using mul32_law by simp
  have "val a div val d * val d * unat m \<le> val a * unat m" by (intro mult_le_mono1) simp
  then have le: "val a div val d * unat m * val d \<le> val a * unat m" by (simp add: mult_ac)
  with assms(5) have "val a div val d * unat m * val d < 2 ^ bits * val d" by linarith
  then have "val a div val d * unat m < 2 ^ bits" using assms(4) by simp
  with q mul32_law [OF q(1), of m] show v: "val (mul32 (quot a d) m) = val a div val d * unat m" by simp
  show "val (mul32 (quot a d) m) * val d \<le> val a * unat m" unfolding v by (rule le)
qed

end

interpretation u256: wide_uint 256 "\<lambda>pn. length pn = 8" limbs_val uint_compl uint_add64 uint_mul32 uint_div
proof unfold_locales
  fix a b :: base_uint and c :: u64 and m :: u32
  assume len: "length a = 8"
  show "limbs_val a < 2 ^ 256" using limbs_val_less [of a] len by simp
  show "length (uint_compl a) = 8 \<and> limbs_val (uint_compl a) = 2 ^ 256 - 1 - limbs_val a"
    using len by (simp add: uint_compl_val)
  show "length (uint_add64 a c) = 8 \<and> limbs_val (uint_add64 a c) = (limbs_val a + unat c) mod 2 ^ 256"
    using len by (simp add: uint_add64_def uint_add_val uint_of_u64_val)
  show "length (uint_mul32 a m) = 8 \<and> limbs_val (uint_mul32 a m) = limbs_val a * unat m mod 2 ^ 256"
    using len by (simp add: uint_mul32_val)
  show "length (uint_div a b) = 8 \<and> limbs_val (uint_div a b) = limbs_val a div limbs_val b"
    if "length b = 8"
    using len that by (simp add: uint_div_val)
qed simp

end
