(* ===== verification/Stream_Codec.thy ===== *)
theory Stream_Codec
  imports Prelude
begin

text \<open>
  The serialisation streams of \<^verbatim>\<open>src/src/xengine/stream\<close>.  A memory stream is the list of bytes not
  yet read, a writer is the list of bytes it appends and a reader maps the remaining bytes to a
  value and the bytes after it, or to the exception it throws.  \<^verbatim>\<open>CStream\<close> (\<^verbatim>\<open>stream.h\<close>,
  \<^verbatim>\<open>stream.cpp\<close>) writes lengths as \<^verbatim>\<open>CVarInt\<close>, \<^verbatim>\<open>CODataStream\<close> and \<^verbatim>\<open>CIDataStream\<close>
  (\<^verbatim>\<open>datastream.h\<close>) as 64-bit integers.  The locale \<open>codec\<close> is the contract every serialisable
  class has: loading what was saved returns the value and leaves the rest of the stream, and
  the size pass counts the bytes the save pass writes.
\<close>

section \<open>Readers\<close>

datatype stream_error =
    StreamReadError
  | StreamSizeError
  | RangeError
  | DataConflict
  | OutOfBounds

type_synonym 'a reader = "u8 list \<Rightarrow> stream_error + ('a \<times> u8 list)"

definition rbind :: "'a reader \<Rightarrow> ('a \<Rightarrow> 'b reader) \<Rightarrow> 'b reader" where
  "rbind m f bs = (case m bs of Inl e \<Rightarrow> Inl e | Inr (x, rest) \<Rightarrow> f x rest)"

definition rret :: "'a \<Rightarrow> 'a reader" where
  "rret x bs = Inr (x, bs)"

lemma rbind_Inr [simp]: "m bs = Inr (x, rest) \<Longrightarrow> rbind m f bs = f x rest"
  by (simp add: rbind_def)

lemma rret_apply [simp]: "rret x bs = Inr (x, bs)"
  by (simp add: rret_def)

section \<open>CStream\<close>

definition stream_read :: "nat \<Rightarrow> u8 list reader" where
  "stream_read n bs = (if length bs < n then Inl StreamReadError else Inr (take n bs, drop n bs))"

text \<open>Fundamental types are copied as they lie in memory; \<open>n\<close> is \<^verbatim>\<open>sizeof(T)\<close>.\<close>

definition save_basic :: "nat \<Rightarrow> 'a::len word \<Rightarrow> u8 list" where
  "save_basic n w = le_bytes n w"

definition load_basic :: "nat \<Rightarrow> 'a::len word reader" where
  "load_basic n = rbind (stream_read n) (\<lambda>bs. rret (le_word bs))"

definition size_basic :: "nat \<Rightarrow> 'a::len word \<Rightarrow> nat" where
  "size_basic n w = n"

subsection \<open>CVarInt\<close>

definition save_varint :: "u64 \<Rightarrow> u8 list" where
  "save_varint nValue =
     (if nValue < 0xFD then le_bytes 1 nValue
      else if nValue \<le> 0xFFFF then le_bytes 3 (push_bit 8 nValue OR 0xFD)
      else if nValue \<le> 0xFFFFFFFF then le_bytes 5 (push_bit 8 nValue OR 0xFE)
      else 0xFF # le_bytes 8 nValue)"

definition load_varint :: "u64 reader" where
  "load_varint =
     rbind (stream_read 1) (\<lambda>b. let nValue = le_word b :: u64 in
       if nValue \<ge> 0xFD
       then rbind (stream_read (2 * 2 ^ unat (nValue - 0xFD))) (\<lambda>bs. rret (le_word bs))
       else rret nValue)"

definition size_varint :: "u64 \<Rightarrow> nat" where
  "size_varint nValue =
     (if nValue < 0xFD then 1 else if nValue \<le> 0xFFFF then 3
      else if nValue \<le> 0xFFFFFFFF then 5 else 9)"

subsection \<open>Strings, vectors, maps and pairs\<close>

definition save_string :: "u8 list \<Rightarrow> u8 list" where
  "save_string t = save_varint (of_nat (length t)) @ t"

definition load_string :: "u8 list reader" where
  "load_string = rbind load_varint (\<lambda>n. stream_read (unat n))"

definition size_string :: "u8 list \<Rightarrow> nat" where
  "size_string t = size_varint (of_nat (length t)) + length t"

text \<open>\<^verbatim>\<open>std::vector\<close> of the byte type, the only fundamental element type the ledger classes store.\<close>

definition save_bytes :: "u8 list \<Rightarrow> u8 list" where
  "save_bytes t = save_varint (of_nat (length t)) @ (if length t > 0 then t else [])"

definition load_bytes :: "u8 list reader" where
  "load_bytes = rbind load_varint (\<lambda>n.
     if n > 0
     then (\<lambda>bs. if length bs < unat n then Inl StreamSizeError else stream_read (unat n) bs)
     else rret [])"

definition size_bytes :: "u8 list \<Rightarrow> nat" where
  "size_bytes t = size_varint (of_nat (length t)) + (if length t > 0 then length t else 0)"

text \<open>\<^verbatim>\<open>std::vector\<close> of a class type: the elements in order.\<close>

primrec load_n :: "'a reader \<Rightarrow> nat \<Rightarrow> 'a list reader" where
  "load_n ld 0 = rret []"
| "load_n ld (Suc n) = rbind ld (\<lambda>x. rbind (load_n ld n) (\<lambda>xs. rret (x # xs)))"

definition save_vector :: "('a \<Rightarrow> u8 list) \<Rightarrow> 'a list \<Rightarrow> u8 list" where
  "save_vector sv t = save_varint (of_nat (length t)) @ concat (map sv t)"

definition load_vector :: "'a reader \<Rightarrow> 'a list reader" where
  "load_vector ld = rbind load_varint (\<lambda>n. if n > 0 then load_n ld (unat n) else rret [])"

definition size_vector :: "('a \<Rightarrow> nat) \<Rightarrow> 'a list \<Rightarrow> nat" where
  "size_vector sz t = size_varint (of_nat (length t)) + (\<Sum>x\<leftarrow>t. sz x)"

definition save_pair :: "('a \<Rightarrow> u8 list) \<Rightarrow> ('b \<Rightarrow> u8 list) \<Rightarrow> 'a \<times> 'b \<Rightarrow> u8 list" where
  "save_pair sa sb p = sa (fst p) @ sb (snd p)"

definition load_pair :: "'a reader \<Rightarrow> 'b reader \<Rightarrow> ('a \<times> 'b) reader" where
  "load_pair la lb = rbind la (\<lambda>x. rbind lb (\<lambda>y. rret (x, y)))"

definition size_pair :: "('a \<Rightarrow> nat) \<Rightarrow> ('b \<Rightarrow> nat) \<Rightarrow> 'a \<times> 'b \<Rightarrow> nat" where
  "size_pair za zb p = za (fst p) + zb (snd p)"

text \<open>
  A \<^verbatim>\<open>std::map\<close> is the list of its entries in key order.  \<^verbatim>\<open>insert\<close> leaves the map unchanged when
  the key is present.
\<close>

fun std_insert :: "'k::linorder \<Rightarrow> 'v \<Rightarrow> ('k \<times> 'v) list \<Rightarrow> ('k \<times> 'v) list" where
  "std_insert k v [] = [(k, v)]"
| "std_insert k v ((k', v') # m) =
     (if k < k' then (k, v) # (k', v') # m
      else if k = k' then (k', v') # m
      else (k', v') # std_insert k v m)"

definition save_map :: "('k \<times> 'v \<Rightarrow> u8 list) \<Rightarrow> ('k \<times> 'v) list \<Rightarrow> u8 list" where
  "save_map sv m = save_varint (of_nat (length m)) @ concat (map sv m)"

definition load_map :: "('k::linorder \<times> 'v) reader \<Rightarrow> ('k \<times> 'v) list reader" where
  "load_map ld = rbind load_varint (\<lambda>n. rbind (load_n ld (unat n)) (\<lambda>items.
     rret (fold (\<lambda>(k, v). std_insert k v) items [])))"

definition size_map :: "('k \<times> 'v \<Rightarrow> nat) \<Rightarrow> ('k \<times> 'v) list \<Rightarrow> nat" where
  "size_map sz m = size_varint (of_nat (length m)) + (\<Sum>x\<leftarrow>m. sz x)"

section \<open>CODataStream and CIDataStream\<close>

definition ods_push :: "nat \<Rightarrow> 'a::len word \<Rightarrow> u8 list" where
  "ods_push n w = le_bytes n w"

definition ids_pop :: "nat \<Rightarrow> 'a::len word reader" where
  "ids_pop n bs = (if length bs < n then Inl RangeError else Inr (le_word (take n bs), drop n bs))"

definition ods_bytes :: "u8 list \<Rightarrow> u8 list" where
  "ods_bytes data = le_bytes 8 (of_nat (length data) :: u64) @ (if length data > 0 then data else [])"

text \<open>
  The byte-vector reader takes \<open>size\<close> bytes from the buffer without looking at its end: a size
  that exceeds the bytes left reads past the buffer, which is the error \<open>OutOfBounds\<close> here.
\<close>

definition ids_bytes :: "u8 list reader" where
  "ids_bytes = rbind (ids_pop 8 :: u64 reader) (\<lambda>size bs.
     if length bs < unat size then Inl OutOfBounds else Inr (take (unat size) bs, drop (unat size) bs))"

definition ods_vector :: "('a \<Rightarrow> u8 list) \<Rightarrow> 'a list \<Rightarrow> u8 list" where
  "ods_vector sv data = le_bytes 8 (of_nat (length data) :: u64) @ concat (map sv data)"

definition ids_vector :: "'a reader \<Rightarrow> 'a list reader" where
  "ids_vector ld = rbind (ids_pop 8 :: u64 reader) (\<lambda>size. load_n ld (unat size))"

definition ods_map :: "('k \<Rightarrow> u8 list) \<Rightarrow> ('v \<Rightarrow> u8 list) \<Rightarrow> ('k \<times> 'v) list \<Rightarrow> u8 list" where
  "ods_map sk sv m =
     le_bytes 8 (of_nat (length m) :: u64) @ concat (map (\<lambda>(k, v). sk k @ sv v) m)"

text \<open>A key that is already present raises the exception \<^verbatim>\<open>data conflict\<close>.\<close>

primrec ids_map_loop :: "'k::linorder reader \<Rightarrow> 'v reader \<Rightarrow> nat \<Rightarrow> ('k \<times> 'v) list \<Rightarrow> ('k \<times> 'v) list reader" where
  "ids_map_loop lk lv 0 m = rret m"
| "ids_map_loop lk lv (Suc n) m = rbind lk (\<lambda>k. rbind lv (\<lambda>v bs.
     if k \<in> set (map fst m) then Inl DataConflict else ids_map_loop lk lv n (std_insert k v m) bs))"

definition ids_map :: "'k::linorder reader \<Rightarrow> 'v reader \<Rightarrow> ('k \<times> 'v) list reader" where
  "ids_map lk lv = rbind (ids_pop 8 :: u64 reader) (\<lambda>size. ids_map_loop lk lv (unat size) [])"

section \<open>The contract of a serialisable class\<close>

locale codec =
  fixes save :: "'a \<Rightarrow> u8 list"
    and load :: "'a reader"
    and ssize :: "'a \<Rightarrow> nat"
    and ok :: "'a \<Rightarrow> bool"
  assumes load_save: "ok x \<Longrightarrow> load (save x @ rest) = Inr (x, rest)"
    and ssize_save: "ssize x = length (save x)"
begin

lemma load_save_end: "ok x \<Longrightarrow> load (save x) = Inr (x, [])"
  using load_save [of x "[]"] by simp

lemma save_prefix_free:
  assumes "ok x" "ok y" "save x @ r = save y @ r'"
  shows "x = y \<and> r = r'"
  using load_save [OF assms(1), of r] load_save [OF assms(2), of r'] unfolding assms(3) by simp

lemma save_inject: "ok x \<Longrightarrow> ok y \<Longrightarrow> save x = save y \<longleftrightarrow> x = y"
  using save_prefix_free [of x y "[]" "[]"] by auto

lemma load_n_save: "list_all ok xs \<Longrightarrow> load_n load (length xs) (concat (map save xs) @ rest) = Inr (xs, rest)"
proof (induction xs)
  case (Cons x xs)
  then show ?case using load_save [of x "concat (map save xs) @ rest"] by simp
qed simp

lemma length_concat_save: "length (concat (map save xs)) = (\<Sum>x\<leftarrow>xs. ssize x)"
  by (induction xs) (simp_all add: ssize_save)

end

section \<open>Laws of the stream classes\<close>

lemma stream_read_append [simp]: "length xs = n \<Longrightarrow> stream_read n (xs @ rest) = Inr (xs, rest)"
  by (simp add: stream_read_def)

lemma load_basic_save:
  fixes w :: "'a::len word"
  assumes "LENGTH('a) \<le> 8 * n"
  shows "load_basic n (save_basic n w @ rest) = Inr (w, rest)"
  using assms by (simp add: load_basic_def save_basic_def)

lemma basic_codec:
  "LENGTH('a::len) \<le> 8 * n \<Longrightarrow> codec (save_basic n) (load_basic n :: 'a word reader) (size_basic n) (\<lambda>_. True)"
  by unfold_locales (simp_all only: load_basic_save, simp add: size_basic_def save_basic_def)

interpretation cu8: codec "save_basic 1" "load_basic 1 :: u8 reader" "size_basic 1" "\<lambda>_. True"
  by (rule basic_codec) simp

interpretation cu16: codec "save_basic 2" "load_basic 2 :: u16 reader" "size_basic 2" "\<lambda>_. True"
  by (rule basic_codec) simp

interpretation cu32: codec "save_basic 4" "load_basic 4 :: u32 reader" "size_basic 4" "\<lambda>_. True"
  by (rule basic_codec) simp

interpretation cu64: codec "save_basic 8" "load_basic 8 :: u64 reader" "size_basic 8" "\<lambda>_. True"
  by (rule basic_codec) simp

interpretation cu256: codec "save_basic 32" "load_basic 32 :: uint256 reader" "size_basic 32" "\<lambda>_. True"
  by (rule basic_codec) simp

text \<open>The tagged forms: the tag byte followed by the low bytes of the value.\<close>

lemma le_bytes_tagged:
  fixes n :: u64 and t :: u8
  assumes "k \<le> 7"
  shows "le_bytes (Suc k) (push_bit 8 n OR ucast t) = t # le_bytes k n"
proof -
  have "ucast (push_bit 8 n OR ucast t :: u64) = t"
    by (rule bit_word_eqI) (auto simp: bit_simps)
  moreover have "le_bytes k (drop_bit 8 (push_bit 8 n OR ucast t :: u64)) = le_bytes k n"
    unfolding le_bytes_def
  proof (rule map_cong [OF refl])
    fix i assume "i \<in> set [0..<k]"
    then have i: "8 * i + 8 \<le> 56" using assms by auto
    show "ucast (drop_bit (8 * i) (drop_bit 8 (push_bit 8 n OR ucast t :: u64))) = (ucast (drop_bit (8 * i) n) :: u8)"
      using i bit_imp_le_length [of t] by (fastforce intro!: bit_word_eqI simp: bit_simps)
  qed
  ultimately show ?thesis by (simp only: le_bytes_Suc)
qed

lemma take_bit_u64_less: "take_bit k (n :: u64) = n" if "unat n < 2 ^ k"
  using that by (simp add: word_unat_eq_iff unsigned_take_bit_eq take_bit_nat_eq_self)

lemma ucast_ucast_eq_take_bit: "ucast (ucast (n :: u64) :: u8) = take_bit 8 n"
  by (rule bit_word_eqI) (auto simp: bit_simps)

lemma save_varint_cases:
  fixes n :: u64
  obtains (one) "n < 0xFD" "save_varint n = [ucast n]"
  | (two) "0xFD \<le> n" "unat n < 2 ^ 16" "save_varint n = 0xFD # le_bytes 2 n"
  | (four) "0xFFFF < n" "unat n < 2 ^ 32" "save_varint n = 0xFE # le_bytes 4 n"
  | (eight) "0xFFFFFFFF < n" "save_varint n = 0xFF # le_bytes 8 n"
proof -
  have t2: "le_bytes 3 (push_bit 8 n OR 0xFD) = 0xFD # le_bytes 2 n"
    using le_bytes_tagged [where k = 2 and n = n and t = "0xFD"] by simp
  have t4: "le_bytes 5 (push_bit 8 n OR 0xFE) = 0xFE # le_bytes 4 n"
    using le_bytes_tagged [where k = 4 and n = n and t = "0xFE"] by simp
  consider "n < 0xFD" | "0xFD \<le> n" "n \<le> 0xFFFF" | "0xFFFF < n" "n \<le> 0xFFFFFFFF" | "0xFFFFFFFF < n"
    by (meson not_le)
  then show ?thesis
  proof cases
    case 1
    then show ?thesis by (intro one) (simp_all add: save_varint_def le_bytes_def)
  next
    case 2
    then show ?thesis using t2 by (intro two) (simp_all add: save_varint_def word_le_nat_alt word_less_nat_alt)
  next
    case 3
    then have "\<not> n < 0xFD" "\<not> n \<le> 0xFFFF" by (simp_all add: word_le_nat_alt word_less_nat_alt)
    with 3 show ?thesis using t4 by (intro four) (simp_all add: save_varint_def word_le_nat_alt)
  next
    case 4
    then have "\<not> n < 0xFD" "\<not> n \<le> 0xFFFF" "\<not> n \<le> 0xFFFFFFFF"
      by (simp_all add: word_le_nat_alt word_less_nat_alt)
    with 4 show ?thesis by (intro eight) (simp_all add: save_varint_def)
  qed
qed

lemma load_varint_tag:
  assumes "t = 0xFD + of_nat j" "j \<le> 2" "length bs = 2 * 2 ^ j"
  shows "load_varint (t # bs @ rest) = Inr (le_word bs, rest)"
proof -
  have "stream_read 1 (t # bs @ rest) = Inr ([t], bs @ rest)" by (simp add: stream_read_def)
  moreover have "j = 0 \<or> j = 1 \<or> j = 2" using assms(2) by auto
  ultimately show ?thesis
    using assms(1,3) by (auto simp: load_varint_def Let_def)
qed

lemma load_varint_save [codec]: "load_varint (save_varint n @ rest) = Inr (n, rest)"
proof (cases n rule: save_varint_cases)
  case one
  have "stream_read 1 ([ucast n] @ rest) = Inr ([ucast n :: u8], rest)" by (simp add: stream_read_def)
  moreover have "(ucast (ucast n :: u8) :: u64) = n"
    using one take_bit_u64_less [of n 8] by (simp add: ucast_ucast_eq_take_bit word_less_nat_alt)
  moreover have "\<not> 0xFD \<le> n" using one by (simp add: not_le)
  ultimately show ?thesis using one by (simp add: load_varint_def)
next
  case two
  then show ?thesis using load_varint_tag [of "0xFD" 0 "le_bytes 2 n" rest]
    by (simp add: le_word_le_bytes_take take_bit_u64_less)
next
  case four
  then show ?thesis using load_varint_tag [of "0xFE" 1 "le_bytes 4 n" rest]
    by (simp add: le_word_le_bytes_take take_bit_u64_less)
next
  case eight
  then show ?thesis using load_varint_tag [of "0xFF" 2 "le_bytes 8 n" rest] by simp
qed

lemma size_varint_save: "size_varint n = length (save_varint n)"
  by (simp add: size_varint_def save_varint_def)

interpretation varint: codec save_varint load_varint size_varint "\<lambda>_. True"
  by unfold_locales (simp_all only: load_varint_save size_varint_save)

text \<open>A container whose element count fits \<^verbatim>\<open>size_t\<close>.\<close>

definition fits :: "'a list \<Rightarrow> bool" where
  "fits t = (length t < 2 ^ 64)"

lemma unat_of_nat_fits [simp]: "fits t \<Longrightarrow> unat (of_nat (length t) :: u64) = length t"
  by (simp add: fits_def unat_of_nat)

lemma of_nat_fits_gt_0 [simp]: "fits t \<Longrightarrow> (of_nat (length t) :: u64) > 0 \<longleftrightarrow> t \<noteq> []"
  by (simp add: word_less_nat_alt)

lemma string_codec: "codec save_string load_string size_string fits"
  by unfold_locales
    (simp_all add: save_string_def load_string_def size_string_def load_varint_save size_varint_save)

interpretation str: codec save_string load_string size_string fits
  by (rule string_codec)

lemma bytes_codec: "codec save_bytes load_bytes size_bytes fits"
proof unfold_locales
  fix x rest assume "fits (x :: u8 list)"
  then show "load_bytes (save_bytes x @ rest) = Inr (x, rest)"
    by (cases "x = []") (simp_all add: save_bytes_def load_bytes_def load_varint_save)
qed (simp add: save_bytes_def size_bytes_def size_varint_save)

interpretation bytes: codec save_bytes load_bytes size_bytes fits
  by (rule bytes_codec)

text \<open>A container of serialisable elements is serialisable.\<close>

context codec
begin

lemma vector_codec:
  "codec (save_vector save) (load_vector load) (size_vector ssize) (\<lambda>xs. fits xs \<and> list_all ok xs)"
proof unfold_locales
  fix x rest assume "fits x \<and> list_all ok x"
  then show "load_vector load (save_vector save x @ rest) = Inr (x, rest)"
    by (cases "x = []") (simp_all add: save_vector_def load_vector_def load_varint_save load_n_save)
qed (simp add: save_vector_def size_vector_def size_varint_save length_concat_save del: length_concat)

end

locale codec_pair = a: codec save load ssize ok + b: codec save' load' ssize' ok'
  for save :: "'a \<Rightarrow> u8 list" and load ssize ok
  and save' :: "'b \<Rightarrow> u8 list" and load' ssize' ok'
begin

lemma pair_codec:
  "codec (save_pair save save') (load_pair load load') (size_pair ssize ssize') (\<lambda>(x, y). ok x \<and> ok' y)"
  by unfold_locales
    (auto simp: save_pair_def load_pair_def size_pair_def a.load_save b.load_save a.ssize_save b.ssize_save)

end

subsection \<open>Maps\<close>

lemma std_insert_last:
  "\<forall>k' \<in> set (map fst m). k' < k \<Longrightarrow> std_insert k v m = m @ [(k, v)]"
  by (induction k v m rule: std_insert.induct) auto

lemma fold_std_insert:
  "sorted_wrt (<) (map fst (m @ items)) \<Longrightarrow> fold (\<lambda>(k, v). std_insert k v) items m = m @ items"
proof (induction items arbitrary: m)
  case (Cons i items)
  obtain k v where i: "i = (k, v)" by fastforce
  with Cons.prems have "std_insert k v m = m @ [(k, v)]"
    by (intro std_insert_last) (simp add: sorted_wrt_append)
  with Cons.IH [of "m @ [(k, v)]"] Cons.prems show ?case by (simp add: i)
qed simp

locale codec_entry = codec save load ssize ok
  for save :: "'k::linorder \<times> 'v \<Rightarrow> u8 list" and load ssize ok
begin

lemma map_codec:
  "codec (save_map save) (load_map load) (size_map ssize)
     (\<lambda>m. fits m \<and> list_all ok m \<and> sorted_wrt (<) (map fst m))"
proof unfold_locales
  fix m rest assume "fits m \<and> list_all ok m \<and> sorted_wrt (<) (map fst m)"
  then show "load_map load (save_map save m @ rest) = Inr (m, rest)"
    by (simp add: save_map_def load_map_def load_varint_save load_n_save fold_std_insert)
qed (simp add: save_map_def size_map_def size_varint_save length_concat_save del: length_concat)

end

subsection \<open>Data streams\<close>

text \<open>A data stream has no size pass: the size is the number of bytes pushed.\<close>

lemma push_codec:
  fixes n :: nat
  assumes "LENGTH('a::len) \<le> 8 * n"
  shows "codec (ods_push n) (ids_pop n :: 'a word reader) (\<lambda>_. n) (\<lambda>_. True)"
  using assms by unfold_locales (simp_all add: ods_push_def ids_pop_def)

interpretation du8: codec "ods_push 1" "ids_pop 1 :: u8 reader" "\<lambda>_. 1" "\<lambda>_. True"
  by (rule push_codec) simp

interpretation du32: codec "ods_push 4" "ids_pop 4 :: u32 reader" "\<lambda>_. 4" "\<lambda>_. True"
  by (rule push_codec) simp

interpretation du64: codec "ods_push 8" "ids_pop 8 :: u64 reader" "\<lambda>_. 8" "\<lambda>_. True"
  by (rule push_codec) simp

interpretation du256: codec "ods_push 32" "ids_pop 32 :: uint256 reader" "\<lambda>_. 32" "\<lambda>_. True"
  by (rule push_codec) simp

lemma ids_pop_size [simp]: "ids_pop 8 (le_bytes 8 w @ rest) = Inr (w :: u64, rest)"
  using du64.load_save [of w rest] by (simp add: ods_push_def)

lemma dbytes_codec: "codec ods_bytes ids_bytes (\<lambda>t. length (ods_bytes t)) fits"
proof unfold_locales
  fix x :: "u8 list" and rest assume "fits x"
  then show "ids_bytes (ods_bytes x @ rest) = Inr (x, rest)"
    by (cases "x = []") (simp_all add: ods_bytes_def ids_bytes_def)
qed simp

interpretation dbytes: codec ods_bytes ids_bytes "\<lambda>t. length (ods_bytes t)" fits
  by (rule dbytes_codec)

context codec
begin

lemma dvector_codec:
  "codec (ods_vector save) (ids_vector load) (\<lambda>t. length (ods_vector save t))
     (\<lambda>xs. fits xs \<and> list_all ok xs)"
  by unfold_locales (simp_all add: ods_vector_def ids_vector_def load_n_save)

end

locale codec_kv = codec_pair save load ssize ok save' load' ssize' ok'
  for save :: "'k::linorder \<Rightarrow> u8 list" and load ssize ok
  and save' :: "'v \<Rightarrow> u8 list" and load' ssize' ok'
begin

lemma ids_map_loop_save:
  "list_all (\<lambda>(k, v). ok k \<and> ok' v) items \<Longrightarrow> sorted_wrt (<) (map fst (m @ items)) \<Longrightarrow>
   ids_map_loop load load' (length items) m (concat (map (\<lambda>(k, v). save k @ save' v) items) @ rest)
     = Inr (m @ items, rest)"
proof (induction items arbitrary: m)
  case (Cons i items)
  obtain k v where i: "i = (k, v)" by fastforce
  from Cons.prems i have less: "\<forall>k' \<in> set (map fst m). k' < k" by (simp add: sorted_wrt_append)
  then have "k \<notin> set (map fst m)" and "std_insert k v m = m @ [(k, v)]"
    by (blast, rule std_insert_last)
  then show ?case
    using Cons.IH [of "m @ [(k, v)]"] Cons.prems
    by (simp add: i a.load_save b.load_save del: set_map)
qed simp

lemma dmap_codec:
  "codec (ods_map save save') (ids_map load load') (\<lambda>m. length (ods_map save save' m))
     (\<lambda>m. fits m \<and> list_all (\<lambda>(k, v). ok k \<and> ok' v) m \<and> sorted_wrt (<) (map fst m))"
proof unfold_locales
  fix m :: "('k \<times> 'v) list" and rest
  assume "fits m \<and> list_all (\<lambda>(k, v). ok k \<and> ok' v) m \<and> sorted_wrt (<) (map fst m)"
  then show "ids_map load load' (ods_map save save' m @ rest) = Inr (m, rest)"
    using ids_map_loop_save [of m "[]" rest] by (simp add: ods_map_def ids_map_def)
qed simp

end

interpretation key_weight: codec_kv "ods_push 32" "ids_pop 32 :: uint256 reader" "\<lambda>_. 32" "\<lambda>_. True"
  "ods_push 1" "ids_pop 1 :: u8 reader" "\<lambda>_. 1" "\<lambda>_. True"
  by unfold_locales

end
