(* ===== verification/Ledger_Tx.thy ===== *)
theory Ledger_Tx
  imports UInt256 Stream_Codec
begin

text \<open>
  Hash functions of \<^verbatim>\<open>src/src/crypto/crypto.cpp\<close>, destinations (\<^verbatim>\<open>src/src/common/destination.h\<close>,
  \<^verbatim>\<open>destination.cpp\<close>) and the transaction classes of \<^verbatim>\<open>src/src/common/transaction.h\<close>: their fields,
  predicates, derived outputs, orders and serialisation.  \<^verbatim>\<open>int64\<close> and \<^verbatim>\<open>int\<close> fields are kept as
  words of their width and read with \<open>sint\<close>.  The digest functions of the sodium library are
  the parameters \<open>blake2b\<close> and \<open>sha256\<close>.
\<close>

type_synonym i32 = "32 word"
type_synonym i64 = "64 word"
type_synonym digest = "u8 list \<Rightarrow> uint256"

section \<open>Hashes\<close>

definition CryptoHash :: "digest \<Rightarrow> u8 list \<Rightarrow> uint256" where
  "CryptoHash blake2b msg = blake2b msg"

text \<open>The streaming interface of the digest, updated with the two operands in turn.\<close>

definition CryptoHash2 :: "digest \<Rightarrow> uint256 \<Rightarrow> uint256 \<Rightarrow> uint256" where
  "CryptoHash2 blake2b h1 h2 = blake2b (le_bytes 32 h1 @ le_bytes 32 h2)"

definition CryptoSHA256D :: "digest \<Rightarrow> u8 list \<Rightarrow> uint256" where
  "CryptoSHA256D sha256 msg = sha256 (le_bytes 32 (sha256 msg))"

definition CryptoPowHash :: "digest \<Rightarrow> u8 list \<Rightarrow> uint256" where
  "CryptoPowHash sha256 msg = CryptoSHA256D sha256 msg"

text \<open>\<^verbatim>\<open>uint256(h, uint224(l))\<close> and \<^verbatim>\<open>Get32\<close>, \<^verbatim>\<open>Get64\<close> on a 256-bit word.\<close>

definition uint256_pair :: "u32 \<Rightarrow> uint256 \<Rightarrow> uint256" where
  "uint256_pair h l = push_bit 224 (ucast h) OR take_bit 224 l"

definition Get32 :: "uint256 \<Rightarrow> nat \<Rightarrow> u32" where
  "Get32 w n = ucast (drop_bit (32 * n) w)"

definition Get64 :: "uint256 \<Rightarrow> nat \<Rightarrow> u64" where
  "Get64 w n = ucast (drop_bit (64 * n) w)"

lemma Get32_limb: "n < 8 \<Longrightarrow> Get32 w n = uint_get32 (u256_limbs w) n"
  by (simp add: Get32_def uint_get32_def u256_limbs_def)

lemma Get32_uint256_pair [simp]: "Get32 (uint256_pair h l) 7 = h"
  by (rule bit_word_eqI) (auto simp: Get32_def uint256_pair_def bit_simps)

section \<open>CDestination\<close>

datatype CDestination = CDestination (dest_prefix: u8) (dest_data: uint256)

definition PREFIX_NULL :: u8 where "PREFIX_NULL = 0"
definition PREFIX_PUBKEY :: u8 where "PREFIX_PUBKEY = 1"
definition PREFIX_TEMPLATE :: u8 where "PREFIX_TEMPLATE = 2"
definition PREFIX_MAX :: u8 where "PREFIX_MAX = 3"

definition dest_null :: CDestination where
  "dest_null = CDestination PREFIX_NULL 0"

definition dest_IsNull :: "CDestination \<Rightarrow> bool" where
  "dest_IsNull d = (dest_prefix d = PREFIX_NULL)"

definition dest_IsPubKey :: "CDestination \<Rightarrow> bool" where
  "dest_IsPubKey d = (dest_prefix d = PREFIX_PUBKEY)"

definition dest_IsTemplate :: "CDestination \<Rightarrow> bool" where
  "dest_IsTemplate d = (dest_prefix d = PREFIX_TEMPLATE)"

definition dest_SetPubKey :: "uint256 \<Rightarrow> CDestination" where
  "dest_SetPubKey pubkey = CDestination PREFIX_PUBKEY pubkey"

definition dest_GetPubKey :: "CDestination \<Rightarrow> uint256" where
  "dest_GetPubKey d = (if dest_prefix d = PREFIX_PUBKEY then dest_data d else 0)"

definition dest_SetTemplateId :: "uint256 \<Rightarrow> CDestination" where
  "dest_SetTemplateId tid = CDestination PREFIX_TEMPLATE tid"

definition dest_GetTemplateId :: "CDestination \<Rightarrow> uint256" where
  "dest_GetTemplateId d = (if dest_prefix d = PREFIX_TEMPLATE then dest_data d else 0)"

text \<open>The order of \<^verbatim>\<open>operator<\<close>: prefix first, then the data as a number.\<close>

definition dest_less :: "CDestination \<Rightarrow> CDestination \<Rightarrow> bool" where
  "dest_less a b =
     (dest_prefix a < dest_prefix b \<or> (dest_prefix a = dest_prefix b \<and> dest_data a < dest_data b))"

instantiation CDestination :: linorder
begin

definition less_CDestination :: "CDestination \<Rightarrow> CDestination \<Rightarrow> bool" where
  "less_CDestination a b = dest_less a b"

definition less_eq_CDestination :: "CDestination \<Rightarrow> CDestination \<Rightarrow> bool" where
  "less_eq_CDestination a b = (a < b \<or> a = b)"

instance
proof
  fix x y z :: CDestination
  show "x < y \<longleftrightarrow> x \<le> y \<and> \<not> y \<le> x"
    by (auto simp: dest_less_def less_CDestination_def less_eq_CDestination_def)
  show "x \<le> x" by (simp add: less_eq_CDestination_def)
  show "x \<le> y \<Longrightarrow> y \<le> z \<Longrightarrow> x \<le> z"
    by (auto simp: dest_less_def less_CDestination_def less_eq_CDestination_def)
  show "x \<le> y \<Longrightarrow> y \<le> x \<Longrightarrow> x = y"
    by (auto simp: dest_less_def less_CDestination_def less_eq_CDestination_def)
  show "x \<le> y \<or> y \<le> x"
    by (cases x; cases y) (auto simp: dest_less_def less_CDestination_def less_eq_CDestination_def)
qed

end

definition save_CDestination :: "CDestination \<Rightarrow> u8 list" where
  "save_CDestination d = save_basic 1 (dest_prefix d) @ save_basic 32 (dest_data d)"

definition load_CDestination :: "CDestination reader" where
  "load_CDestination = rbind (load_basic 1) (\<lambda>p. rbind (load_basic 32) (\<lambda>d. rret (CDestination p d)))"

definition size_CDestination_ser :: "CDestination \<Rightarrow> nat" where
  "size_CDestination_ser d = size_basic 1 (dest_prefix d) + size_basic 32 (dest_data d)"

definition dest_ToDataStream :: "CDestination \<Rightarrow> u8 list" where
  "dest_ToDataStream d = ods_push 1 (dest_prefix d) @ ods_push 32 (dest_data d)"

definition dest_FromDataStream :: "CDestination reader" where
  "dest_FromDataStream = rbind (ids_pop 1) (\<lambda>p. rbind (ids_pop 32) (\<lambda>d. rret (CDestination p d)))"

lemmas basic_laws = cu8.load_save [unfolded One_nat_def] cu16.load_save cu32.load_save cu64.load_save cu256.load_save
  bytes.load_save str.load_save

lemmas basic_sizes = cu8.ssize_save [unfolded One_nat_def] cu16.ssize_save cu32.ssize_save cu64.ssize_save cu256.ssize_save
  bytes.ssize_save str.ssize_save

lemmas push_laws = du8.load_save [unfolded One_nat_def] du32.load_save du64.load_save du256.load_save
  dbytes.load_save

lemma length_ods_push [simp]: "length (ods_push n w) = n"
  by (simp add: ods_push_def)

interpretation cdest: codec save_CDestination load_CDestination size_CDestination_ser "\<lambda>_. True"
  by unfold_locales
    (simp_all add: save_CDestination_def load_CDestination_def size_CDestination_ser_def
      basic_laws basic_sizes)

interpretation ddest: codec dest_ToDataStream dest_FromDataStream "\<lambda>_. 33" "\<lambda>_. True"
  by unfold_locales
    (simp_all add: dest_ToDataStream_def dest_FromDataStream_def push_laws)

section \<open>Output references and inputs\<close>

datatype CTxOutPoint = CTxOutPoint (op_hash: uint256) (op_n: u8)

definition outpoint_null :: CTxOutPoint where
  "outpoint_null = CTxOutPoint 0 (- 1)"

definition outpoint_IsNull :: "CTxOutPoint \<Rightarrow> bool" where
  "outpoint_IsNull p = (op_hash p = 0 \<and> op_n p = - 1)"

definition outpoint_less :: "CTxOutPoint \<Rightarrow> CTxOutPoint \<Rightarrow> bool" where
  "outpoint_less a b = (op_hash a < op_hash b \<or> (op_hash a = op_hash b \<and> op_n a < op_n b))"

instantiation CTxOutPoint :: linorder
begin

definition less_CTxOutPoint :: "CTxOutPoint \<Rightarrow> CTxOutPoint \<Rightarrow> bool" where
  "less_CTxOutPoint a b = outpoint_less a b"

definition less_eq_CTxOutPoint :: "CTxOutPoint \<Rightarrow> CTxOutPoint \<Rightarrow> bool" where
  "less_eq_CTxOutPoint a b = (a < b \<or> a = b)"

instance
proof
  fix x y z :: CTxOutPoint
  show "x < y \<longleftrightarrow> x \<le> y \<and> \<not> y \<le> x"
    by (auto simp: outpoint_less_def less_CTxOutPoint_def less_eq_CTxOutPoint_def)
  show "x \<le> x" by (simp add: less_eq_CTxOutPoint_def)
  show "x \<le> y \<Longrightarrow> y \<le> z \<Longrightarrow> x \<le> z"
    by (auto simp: outpoint_less_def less_CTxOutPoint_def less_eq_CTxOutPoint_def)
  show "x \<le> y \<Longrightarrow> y \<le> x \<Longrightarrow> x = y"
    by (auto simp: outpoint_less_def less_CTxOutPoint_def less_eq_CTxOutPoint_def)
  show "x \<le> y \<or> y \<le> x"
    by (cases x; cases y) (auto simp: outpoint_less_def less_CTxOutPoint_def less_eq_CTxOutPoint_def)
qed

end

definition save_CTxOutPoint :: "CTxOutPoint \<Rightarrow> u8 list" where
  "save_CTxOutPoint p = save_basic 32 (op_hash p) @ save_basic 1 (op_n p)"

definition load_CTxOutPoint :: "CTxOutPoint reader" where
  "load_CTxOutPoint = rbind (load_basic 32) (\<lambda>h. rbind (load_basic 1) (\<lambda>n. rret (CTxOutPoint h n)))"

definition size_CTxOutPoint_ser :: "CTxOutPoint \<Rightarrow> nat" where
  "size_CTxOutPoint_ser p = size_basic 32 (op_hash p) + size_basic 1 (op_n p)"

interpretation coutp: codec save_CTxOutPoint load_CTxOutPoint size_CTxOutPoint_ser "\<lambda>_. True"
  by unfold_locales
    (simp_all add: save_CTxOutPoint_def load_CTxOutPoint_def size_CTxOutPoint_ser_def basic_laws basic_sizes)

datatype CTxIn = CTxIn (prevout: CTxOutPoint)

definition save_CTxIn :: "CTxIn \<Rightarrow> u8 list" where
  "save_CTxIn i = save_CTxOutPoint (prevout i)"

definition load_CTxIn :: "CTxIn reader" where
  "load_CTxIn = rbind load_CTxOutPoint (\<lambda>p. rret (CTxIn p))"

definition size_CTxIn_ser :: "CTxIn \<Rightarrow> nat" where
  "size_CTxIn_ser i = size_CTxOutPoint_ser (prevout i)"

interpretation ctxin: codec save_CTxIn load_CTxIn size_CTxIn_ser "\<lambda>_. True"
  by unfold_locales (simp_all add: save_CTxIn_def load_CTxIn_def size_CTxIn_ser_def coutp.load_save coutp.ssize_save)

interpretation ctxins: codec "save_vector save_CTxIn" "load_vector load_CTxIn" "size_vector size_CTxIn_ser"
  "\<lambda>xs. fits xs \<and> list_all (\<lambda>_. True) xs"
  by (rule ctxin.vector_codec)

section \<open>CTransaction\<close>

record CTransaction =
  tx_nVersion :: u16
  tx_nType :: u16
  tx_nTimeStamp :: u32
  tx_nLockUntil :: u32
  tx_vInput :: "CTxIn list"
  tx_sendTo :: CDestination
  tx_nAmount :: i64
  tx_nTxFee :: i64
  tx_vchData :: "u8 list"
  tx_vchSig :: "u8 list"

definition TX_TOKEN :: u16 where "TX_TOKEN = 0x0000"
definition TX_GENESIS :: u16 where "TX_GENESIS = 0x0100"
definition TX_STAKE :: u16 where "TX_STAKE = 0x0200"
definition TX_WORK :: u16 where "TX_WORK = 0x0300"

definition tx_SetNull :: CTransaction where
  "tx_SetNull = \<lparr> tx_nVersion = 2, tx_nType = 0, tx_nTimeStamp = 0, tx_nLockUntil = 0, tx_vInput = [],
     tx_sendTo = dest_null, tx_nAmount = 0, tx_nTxFee = 0, tx_vchData = [], tx_vchSig = [] \<rparr>"

definition tx_IsNull :: "'z CTransaction_scheme \<Rightarrow> bool" where
  "tx_IsNull tx = (tx_vInput tx = [] \<and> dest_IsNull (tx_sendTo tx))"

definition tx_IsMintTx :: "'z CTransaction_scheme \<Rightarrow> bool" where
  "tx_IsMintTx tx = (tx_nType tx = TX_GENESIS \<or> tx_nType tx = TX_STAKE \<or> tx_nType tx = TX_WORK)"

definition tx_GetTypeString :: "'z CTransaction_scheme \<Rightarrow> string" where
  "tx_GetTypeString tx =
     (if tx_nType tx = TX_TOKEN then ''token''
      else if tx_nType tx = TX_GENESIS then ''genesis''
      else if tx_nType tx = TX_STAKE then ''stake''
      else if tx_nType tx = TX_WORK then ''work'' else ''undefined'')"

definition tx_GetTxTime :: "'z CTransaction_scheme \<Rightarrow> int" where
  "tx_GetTxTime tx = uint (tx_nTimeStamp tx)"

text \<open>The fields the signature covers, and the whole transaction.\<close>

definition save_tx_body :: "'z CTransaction_scheme \<Rightarrow> u8 list" where
  "save_tx_body tx =
     save_basic 2 (tx_nVersion tx) @ save_basic 2 (tx_nType tx) @ save_basic 4 (tx_nTimeStamp tx) @
     save_basic 4 (tx_nLockUntil tx) @ save_vector save_CTxIn (tx_vInput tx) @
     save_CDestination (tx_sendTo tx) @ save_basic 8 (tx_nAmount tx) @ save_basic 8 (tx_nTxFee tx) @
     save_bytes (tx_vchData tx)"

definition save_CTransaction :: "'z CTransaction_scheme \<Rightarrow> u8 list" where
  "save_CTransaction tx = save_tx_body tx @ save_bytes (tx_vchSig tx)"

definition load_CTransaction :: "CTransaction reader" where
  "load_CTransaction =
     rbind (load_basic 2) (\<lambda>ver. rbind (load_basic 2) (\<lambda>typ. rbind (load_basic 4) (\<lambda>tim.
     rbind (load_basic 4) (\<lambda>lck. rbind (load_vector load_CTxIn) (\<lambda>inp. rbind load_CDestination (\<lambda>snt.
     rbind (load_basic 8) (\<lambda>amt. rbind (load_basic 8) (\<lambda>fee. rbind load_bytes (\<lambda>dat. rbind load_bytes (\<lambda>sig.
       rret \<lparr> tx_nVersion = ver, tx_nType = typ, tx_nTimeStamp = tim, tx_nLockUntil = lck, tx_vInput = inp,
         tx_sendTo = snt, tx_nAmount = amt, tx_nTxFee = fee, tx_vchData = dat, tx_vchSig = sig \<rparr>))))))))))"

definition size_CTransaction_ser :: "'z CTransaction_scheme \<Rightarrow> nat" where
  "size_CTransaction_ser tx =
     size_basic 2 (tx_nVersion tx) + size_basic 2 (tx_nType tx) + size_basic 4 (tx_nTimeStamp tx) +
     size_basic 4 (tx_nLockUntil tx) + size_vector size_CTxIn_ser (tx_vInput tx) +
     size_CDestination_ser (tx_sendTo tx) + size_basic 8 (tx_nAmount tx) + size_basic 8 (tx_nTxFee tx) +
     size_bytes (tx_vchData tx) + size_bytes (tx_vchSig tx)"

definition tx_ok :: "'z CTransaction_scheme \<Rightarrow> bool" where
  "tx_ok tx = (fits (tx_vInput tx) \<and> fits (tx_vchData tx) \<and> fits (tx_vchSig tx))"

lemma list_all_True [simp]: "list_all (\<lambda>_. True) xs"
  by (induction xs) simp_all

interpretation ctx: codec save_CTransaction load_CTransaction size_CTransaction_ser tx_ok
proof unfold_locales
  fix x :: CTransaction and rest
  assume "tx_ok x"
  then show "load_CTransaction (save_CTransaction x @ rest) = Inr (x, rest)"
    by (cases x) (simp add: tx_ok_def load_CTransaction_def save_CTransaction_def save_tx_body_def
        basic_laws cdest.load_save ctxins.load_save)
next
  fix x :: CTransaction
  show "size_CTransaction_ser x = length (save_CTransaction x)"
    by (simp add: size_CTransaction_ser_def save_CTransaction_def save_tx_body_def basic_sizes
        cdest.ssize_save ctxins.ssize_save)
qed

definition tx_GetHash :: "digest \<Rightarrow> 'z CTransaction_scheme \<Rightarrow> uint256" where
  "tx_GetHash blake2b tx = uint256_pair (tx_nTimeStamp tx) (CryptoHash blake2b (save_CTransaction tx))"

definition tx_GetSignatureHash :: "digest \<Rightarrow> 'z CTransaction_scheme \<Rightarrow> uint256" where
  "tx_GetSignatureHash blake2b tx = CryptoHash blake2b (save_tx_body tx)"

definition tx_GetChange :: "'z CTransaction_scheme \<Rightarrow> i64 \<Rightarrow> i64" where
  "tx_GetChange tx nValueIn = nValueIn - tx_nAmount tx - tx_nTxFee tx"

definition tx_GetLockUntil :: "'z CTransaction_scheme \<Rightarrow> u32 \<Rightarrow> u32" where
  "tx_GetLockUntil tx n =
     (if n = drop_bit 31 (tx_nLockUntil tx) then tx_nLockUntil tx AND 0x7FFFFFFF else 0)"

definition tx_SetLockUntil :: "'z CTransaction_scheme \<Rightarrow> u32 \<Rightarrow> u32 \<Rightarrow> ('z CTransaction_scheme) option" where
  "tx_SetLockUntil tx nHeight n =
     (if drop_bit 31 nHeight \<noteq> 0 then None
      else Some (tx\<lparr> tx_nLockUntil := push_bit 31 n OR nHeight \<rparr>))"

section \<open>Outputs\<close>

record CTxOut =
  out_destTo :: CDestination
  out_nAmount :: i64
  out_nTxTime :: u32
  out_nLockUntil :: u32

definition txout_null :: CTxOut where
  "txout_null = \<lparr> out_destTo = dest_null, out_nAmount = 0, out_nTxTime = 0, out_nLockUntil = 0 \<rparr>"

text \<open>The constructors from a transaction: its output 0, and its change output.\<close>

definition txout_of_tx :: "'z CTransaction_scheme \<Rightarrow> CTxOut" where
  "txout_of_tx tx = \<lparr> out_destTo = tx_sendTo tx, out_nAmount = tx_nAmount tx,
     out_nTxTime = tx_nTimeStamp tx, out_nLockUntil = tx_nLockUntil tx \<rparr>"

definition txout_change :: "'z CTransaction_scheme \<Rightarrow> CDestination \<Rightarrow> i64 \<Rightarrow> CTxOut" where
  "txout_change tx destToIn nValueIn = \<lparr> out_destTo = destToIn, out_nAmount = tx_GetChange tx nValueIn,
     out_nTxTime = tx_nTimeStamp tx, out_nLockUntil = 0 \<rparr>"

definition txout_IsNull :: "CTxOut \<Rightarrow> bool" where
  "txout_IsNull out = (dest_IsNull (out_destTo out) \<or> sint (out_nAmount out) \<le> 0)"

text \<open>The block height is converted to unsigned before it is compared.\<close>

definition lock_IsLocked :: "u32 \<Rightarrow> i32 \<Rightarrow> bool" where
  "lock_IsLocked nLockUntil nBlockHeight = (nBlockHeight < (nLockUntil AND 0x7FFFFFFF))"

definition txout_IsLocked :: "CTxOut \<Rightarrow> i32 \<Rightarrow> bool" where
  "txout_IsLocked out nBlockHeight = lock_IsLocked (out_nLockUntil out) nBlockHeight"

definition save_CTxOut :: "CTxOut \<Rightarrow> u8 list" where
  "save_CTxOut out = save_CDestination (out_destTo out) @ save_basic 8 (out_nAmount out) @
     save_basic 4 (out_nTxTime out) @ save_basic 4 (out_nLockUntil out)"

definition load_CTxOut :: "CTxOut reader" where
  "load_CTxOut = rbind load_CDestination (\<lambda>d. rbind (load_basic 8) (\<lambda>a. rbind (load_basic 4) (\<lambda>t.
     rbind (load_basic 4) (\<lambda>l. rret \<lparr> out_destTo = d, out_nAmount = a, out_nTxTime = t, out_nLockUntil = l \<rparr>))))"

definition size_CTxOut_ser :: "CTxOut \<Rightarrow> nat" where
  "size_CTxOut_ser out = size_CDestination_ser (out_destTo out) + size_basic 8 (out_nAmount out) +
     size_basic 4 (out_nTxTime out) + size_basic 4 (out_nLockUntil out)"

interpretation ctxout: codec save_CTxOut load_CTxOut size_CTxOut_ser "\<lambda>_. True"
  by unfold_locales
    (simp_all add: save_CTxOut_def load_CTxOut_def size_CTxOut_ser_def basic_laws basic_sizes
      cdest.load_save cdest.ssize_save)

record CUnspentOut =
  uo_nAmount :: i64
  uo_nTxType :: i32
  uo_nTxTime :: u32
  uo_nLockUntil :: u32
  uo_nHeight :: i32

definition unspentout_null :: CUnspentOut where
  "unspentout_null = \<lparr> uo_nAmount = 0, uo_nTxType = - 1, uo_nTxTime = 0, uo_nLockUntil = 0, uo_nHeight = - 1 \<rparr>"

definition unspentout_of_txout :: "CTxOut \<Rightarrow> i32 \<Rightarrow> i32 \<Rightarrow> CUnspentOut" where
  "unspentout_of_txout out nTxTypeIn nHeightIn = \<lparr> uo_nAmount = out_nAmount out, uo_nTxType = nTxTypeIn,
     uo_nTxTime = out_nTxTime out, uo_nLockUntil = out_nLockUntil out, uo_nHeight = nHeightIn \<rparr>"

definition unspentout_IsNull :: "CUnspentOut \<Rightarrow> bool" where
  "unspentout_IsNull u = (sint (uo_nAmount u) \<le> 0)"

definition unspentout_IsLocked :: "CUnspentOut \<Rightarrow> i32 \<Rightarrow> bool" where
  "unspentout_IsLocked u nBlockHeight = lock_IsLocked (uo_nLockUntil u) nBlockHeight"

definition save_CUnspentOut :: "CUnspentOut \<Rightarrow> u8 list" where
  "save_CUnspentOut u = save_basic 8 (uo_nAmount u) @ save_basic 4 (uo_nTxType u) @
     save_basic 4 (uo_nTxTime u) @ save_basic 4 (uo_nLockUntil u) @ save_basic 4 (uo_nHeight u)"

definition load_CUnspentOut :: "CUnspentOut reader" where
  "load_CUnspentOut = rbind (load_basic 8) (\<lambda>a. rbind (load_basic 4) (\<lambda>y. rbind (load_basic 4) (\<lambda>t.
     rbind (load_basic 4) (\<lambda>l. rbind (load_basic 4) (\<lambda>h.
       rret \<lparr> uo_nAmount = a, uo_nTxType = y, uo_nTxTime = t, uo_nLockUntil = l, uo_nHeight = h \<rparr>)))))"

definition size_CUnspentOut_ser :: "CUnspentOut \<Rightarrow> nat" where
  "size_CUnspentOut_ser u = size_basic 8 (uo_nAmount u) + size_basic 4 (uo_nTxType u) +
     size_basic 4 (uo_nTxTime u) + size_basic 4 (uo_nLockUntil u) + size_basic 4 (uo_nHeight u)"

interpretation cunspent: codec save_CUnspentOut load_CUnspentOut size_CUnspentOut_ser "\<lambda>_. True"
  by unfold_locales
    (simp_all add: save_CUnspentOut_def load_CUnspentOut_def size_CUnspentOut_ser_def basic_laws basic_sizes)

text \<open>\<^verbatim>\<open>CTxUnspent\<close> extends an output reference.\<close>

record CTxUnspent =
  un_outpoint :: CTxOutPoint
  un_output :: CTxOut
  un_nTxType :: i32
  un_nHeight :: i32

definition txunspent_null :: CTxUnspent where
  "txunspent_null = \<lparr> un_outpoint = outpoint_null, un_output = txout_null, un_nTxType = - 1, un_nHeight = - 1 \<rparr>"

definition txunspent_IsNull :: "CTxUnspent \<Rightarrow> bool" where
  "txunspent_IsNull u = (outpoint_IsNull (un_outpoint u) \<or> txout_IsNull (un_output u))"

section \<open>Assembled transactions and input contexts\<close>

record CAssembledTx = CTransaction +
  atx_destIn :: CDestination
  atx_nValueIn :: i64
  atx_nBlockHeight :: i32

definition assembled_tx :: "CTransaction \<Rightarrow> i32 \<Rightarrow> CDestination \<Rightarrow> i64 \<Rightarrow> CAssembledTx" where
  "assembled_tx tx nBlockHeightIn destInIn nValueInIn =
     CTransaction.extend tx \<lparr> atx_destIn = destInIn, atx_nValueIn = nValueInIn, atx_nBlockHeight = nBlockHeightIn \<rparr>"

definition atx_GetChange :: "CAssembledTx \<Rightarrow> i64" where
  "atx_GetChange tx = atx_nValueIn tx - tx_nAmount tx - tx_nTxFee tx"

definition atx_GetOutput :: "CAssembledTx \<Rightarrow> int \<Rightarrow> CTxOut" where
  "atx_GetOutput tx n =
     (if n = 0
      then \<lparr> out_destTo = tx_sendTo tx, out_nAmount = tx_nAmount tx, out_nTxTime = tx_nTimeStamp tx,
             out_nLockUntil = tx_GetLockUntil tx 0 \<rparr>
      else if n = 1
      then \<lparr> out_destTo = atx_destIn tx, out_nAmount = atx_GetChange tx, out_nTxTime = tx_nTimeStamp tx,
             out_nLockUntil = tx_GetLockUntil tx 1 \<rparr>
      else txout_null)"

definition save_CAssembledTx :: "CAssembledTx \<Rightarrow> u8 list" where
  "save_CAssembledTx tx = save_CTransaction tx @ save_CDestination (atx_destIn tx) @
     save_basic 8 (atx_nValueIn tx) @ save_basic 4 (atx_nBlockHeight tx)"

definition load_CAssembledTx :: "CAssembledTx reader" where
  "load_CAssembledTx = rbind load_CTransaction (\<lambda>tx. rbind load_CDestination (\<lambda>d. rbind (load_basic 8) (\<lambda>v.
     rbind (load_basic 4) (\<lambda>h. rret (assembled_tx tx h d v)))))"

definition size_CAssembledTx_ser :: "CAssembledTx \<Rightarrow> nat" where
  "size_CAssembledTx_ser tx = size_CTransaction_ser tx + size_CDestination_ser (atx_destIn tx) +
     size_basic 8 (atx_nValueIn tx) + size_basic 4 (atx_nBlockHeight tx)"

lemma save_CTransaction_truncate: "save_CTransaction tx = save_CTransaction (CTransaction.truncate tx)"
  by (simp add: save_CTransaction_def save_tx_body_def CTransaction.defs)

lemma size_CTransaction_truncate: "size_CTransaction_ser tx = size_CTransaction_ser (CTransaction.truncate tx)"
  by (simp add: size_CTransaction_ser_def CTransaction.defs)

interpretation catx: codec save_CAssembledTx load_CAssembledTx size_CAssembledTx_ser tx_ok
proof unfold_locales
  fix x :: CAssembledTx and rest
  assume "tx_ok x"
  then have "tx_ok (CTransaction.truncate x)" by (simp add: tx_ok_def CTransaction.defs)
  then show "load_CAssembledTx (save_CAssembledTx x @ rest) = Inr (x, rest)"
    by (simp add: load_CAssembledTx_def save_CAssembledTx_def save_CTransaction_truncate [of x]
        ctx.load_save cdest.load_save basic_laws assembled_tx_def CTransaction.defs)
qed (simp add: size_CAssembledTx_ser_def save_CAssembledTx_def save_CTransaction_truncate [of x for x :: CAssembledTx]
    size_CTransaction_truncate [of x for x :: CAssembledTx] ctx.ssize_save cdest.ssize_save basic_sizes)

record CTxInContxt =
  inc_nAmount :: i64
  inc_nTxTime :: u32
  inc_nLockUntil :: u32

definition txincontxt_of_txout :: "CTxOut \<Rightarrow> CTxInContxt" where
  "txincontxt_of_txout prevOutput = \<lparr> inc_nAmount = out_nAmount prevOutput, inc_nTxTime = out_nTxTime prevOutput,
     inc_nLockUntil = out_nLockUntil prevOutput \<rparr>"

definition txincontxt_IsLocked :: "CTxInContxt \<Rightarrow> i32 \<Rightarrow> bool" where
  "txincontxt_IsLocked c nBlockHeight = lock_IsLocked (inc_nLockUntil c) nBlockHeight"

definition save_CTxInContxt :: "CTxInContxt \<Rightarrow> u8 list" where
  "save_CTxInContxt c = save_basic 8 (inc_nAmount c) @ save_basic 4 (inc_nTxTime c) @ save_basic 4 (inc_nLockUntil c)"

definition load_CTxInContxt :: "CTxInContxt reader" where
  "load_CTxInContxt = rbind (load_basic 8) (\<lambda>a. rbind (load_basic 4) (\<lambda>t. rbind (load_basic 4) (\<lambda>l.
     rret \<lparr> inc_nAmount = a, inc_nTxTime = t, inc_nLockUntil = l \<rparr>)))"

definition size_CTxInContxt_ser :: "CTxInContxt \<Rightarrow> nat" where
  "size_CTxInContxt_ser c = size_basic 8 (inc_nAmount c) + size_basic 4 (inc_nTxTime c) + size_basic 4 (inc_nLockUntil c)"

interpretation cinc: codec save_CTxInContxt load_CTxInContxt size_CTxInContxt_ser "\<lambda>_. True"
  by unfold_locales
    (simp_all add: save_CTxInContxt_def load_CTxInContxt_def size_CTxInContxt_ser_def basic_laws basic_sizes)

interpretation cincs: codec "save_vector save_CTxInContxt" "load_vector load_CTxInContxt"
  "size_vector size_CTxInContxt_ser" "\<lambda>xs. fits xs \<and> list_all (\<lambda>_. True) xs"
  by (rule cinc.vector_codec)

record CTxContxt =
  ctxt_destIn :: CDestination
  ctxt_vin :: "CTxInContxt list"

definition txcontxt_null :: CTxContxt where
  "txcontxt_null = \<lparr> ctxt_destIn = dest_null, ctxt_vin = [] \<rparr>"

definition txcontxt_GetValueIn :: "CTxContxt \<Rightarrow> i64" where
  "txcontxt_GetValueIn c = fold (\<lambda>i nValueIn. nValueIn + inc_nAmount i) (ctxt_vin c) 0"

definition save_CTxContxt :: "CTxContxt \<Rightarrow> u8 list" where
  "save_CTxContxt c = save_CDestination (ctxt_destIn c) @ save_vector save_CTxInContxt (ctxt_vin c)"

definition load_CTxContxt :: "CTxContxt reader" where
  "load_CTxContxt = rbind load_CDestination (\<lambda>d. rbind (load_vector load_CTxInContxt) (\<lambda>v.
     rret \<lparr> ctxt_destIn = d, ctxt_vin = v \<rparr>))"

definition size_CTxContxt_ser :: "CTxContxt \<Rightarrow> nat" where
  "size_CTxContxt_ser c = size_CDestination_ser (ctxt_destIn c) + size_vector size_CTxInContxt_ser (ctxt_vin c)"

interpretation cctxt: codec save_CTxContxt load_CTxContxt size_CTxContxt_ser "\<lambda>c. fits (ctxt_vin c)"
  by unfold_locales
    (simp_all add: save_CTxContxt_def load_CTxContxt_def size_CTxContxt_ser_def
      cdest.load_save cdest.ssize_save cincs.load_save cincs.ssize_save)

section \<open>Indexes by transaction and by address\<close>

record CTxIndex =
  ti_nBlockHeight :: i32
  ti_nFile :: u32
  ti_nOffset :: u32

definition txindex_null :: CTxIndex where
  "txindex_null = \<lparr> ti_nBlockHeight = 0, ti_nFile = 0, ti_nOffset = 0 \<rparr>"

definition txindex_IsNull :: "CTxIndex \<Rightarrow> bool" where
  "txindex_IsNull i = (ti_nFile i = 0)"

definition txid_GetTxTime :: "uint256 \<Rightarrow> int" where
  "txid_GetTxTime txid = uint (Get32 txid 7)"

text \<open>
  The height and sequence numbers of an address entry are packed into 64 bits.  The sequence
  part is computed in the 32-bit type \<^verbatim>\<open>int\<close> and sign extended.
\<close>

definition addrtx_HeightSeq :: "i32 \<Rightarrow> i32 \<Rightarrow> i32 \<Rightarrow> i64" where
  "addrtx_HeightSeq nHeightIn nBlockSeqIn nTxSeqIn =
     push_bit 32 (scast nHeightIn) OR scast (push_bit 24 nBlockSeqIn OR nTxSeqIn)"

datatype CAddrTxIndex = CAddrTxIndex (ati_dest: CDestination) (ati_nHeightSeq: i64) (ati_txid: uint256)

definition addrtx_GetHeight :: "CAddrTxIndex \<Rightarrow> i32" where
  "addrtx_GetHeight a = ucast (signed_drop_bit 32 (ati_nHeightSeq a))"

definition addrtx_GetSeq :: "CAddrTxIndex \<Rightarrow> i32" where
  "addrtx_GetSeq a = ucast (ati_nHeightSeq a AND 0xFFFFFFFF)"

definition addrtx_less :: "CAddrTxIndex \<Rightarrow> CAddrTxIndex \<Rightarrow> bool" where
  "addrtx_less a b =
     (if ati_dest a < ati_dest b then True
      else if ati_dest a = ati_dest b
      then (if sint (ati_nHeightSeq a) < sint (ati_nHeightSeq b) then True
            else ati_nHeightSeq a = ati_nHeightSeq b \<and> ati_txid a < ati_txid b)
      else False)"

instantiation CAddrTxIndex :: linorder
begin

definition less_CAddrTxIndex :: "CAddrTxIndex \<Rightarrow> CAddrTxIndex \<Rightarrow> bool" where
  "less_CAddrTxIndex a b = addrtx_less a b"

definition less_eq_CAddrTxIndex :: "CAddrTxIndex \<Rightarrow> CAddrTxIndex \<Rightarrow> bool" where
  "less_eq_CAddrTxIndex a b = (a < b \<or> a = b)"

lemma less_CAddrTxIndex_iff:
  "a < b \<longleftrightarrow> ati_dest a < ati_dest b \<or> ati_dest a = ati_dest b \<and>
     (sint (ati_nHeightSeq a) < sint (ati_nHeightSeq b) \<or>
      ati_nHeightSeq a = ati_nHeightSeq b \<and> ati_txid a < ati_txid b)"
  by (simp add: addrtx_less_def less_CAddrTxIndex_def)

instance
proof
  fix x y z :: CAddrTxIndex
  have irr: "\<not> a < a" for a :: CAddrTxIndex by (simp add: less_CAddrTxIndex_iff)
  have tr: "a < c" if "a < b" "b < c" for a b c :: CAddrTxIndex
    using that unfolding less_CAddrTxIndex_iff by (elim disjE conjE) (simp_all, blast intro: less_trans)
  show "x < y \<longleftrightarrow> x \<le> y \<and> \<not> y \<le> x"
    unfolding less_eq_CAddrTxIndex_def using irr [of x] tr [of x y x] by blast
  show "x \<le> x" by (simp add: less_eq_CAddrTxIndex_def)
  show "x \<le> y \<Longrightarrow> y \<le> z \<Longrightarrow> x \<le> z"
    unfolding less_eq_CAddrTxIndex_def using tr [of x y z] by blast
  show "x \<le> y \<Longrightarrow> y \<le> x \<Longrightarrow> x = y"
    unfolding less_eq_CAddrTxIndex_def using irr [of x] tr [of x y x] by blast
  have "x < y \<or> y < x \<or> x = y"
  proof (cases "ati_dest x = ati_dest y \<and> ati_nHeightSeq x = ati_nHeightSeq y")
    case True
    then show ?thesis
      by (cases "ati_txid x" "ati_txid y" rule: linorder_cases)
        (simp_all add: less_CAddrTxIndex_iff CAddrTxIndex.expand)
  next
    case False
    then have "ati_dest x \<noteq> ati_dest y \<or> sint (ati_nHeightSeq x) \<noteq> sint (ati_nHeightSeq y)"
      using signed_word_eqI by blast
    then show ?thesis
      unfolding less_CAddrTxIndex_iff by (meson linorder_neqE)
  qed
  then show "x \<le> y \<or> y \<le> x" unfolding less_eq_CAddrTxIndex_def by blast
qed

end

definition save_CAddrTxIndex :: "CAddrTxIndex \<Rightarrow> u8 list" where
  "save_CAddrTxIndex a = save_CDestination (ati_dest a) @ save_basic 8 (ati_nHeightSeq a) @ save_basic 32 (ati_txid a)"

definition load_CAddrTxIndex :: "CAddrTxIndex reader" where
  "load_CAddrTxIndex = rbind load_CDestination (\<lambda>d. rbind (load_basic 8) (\<lambda>h. rbind (load_basic 32) (\<lambda>t.
     rret (CAddrTxIndex d h t))))"

definition size_CAddrTxIndex_ser :: "CAddrTxIndex \<Rightarrow> nat" where
  "size_CAddrTxIndex_ser a = size_CDestination_ser (ati_dest a) + size_basic 8 (ati_nHeightSeq a) + size_basic 32 (ati_txid a)"

interpretation cati: codec save_CAddrTxIndex load_CAddrTxIndex size_CAddrTxIndex_ser "\<lambda>_. True"
  by unfold_locales
    (simp_all add: save_CAddrTxIndex_def load_CAddrTxIndex_def size_CAddrTxIndex_ser_def basic_laws basic_sizes
      cdest.load_save cdest.ssize_save)

record CAddrTxInfo =
  atf_nDirection :: i32
  atf_destPeer :: CDestination
  atf_nTxType :: i32
  atf_nTimeStamp :: u32
  atf_nLockUntil :: u32
  atf_nAmount :: i64
  atf_nTxFee :: i64

definition addrtxinfo_null :: CAddrTxInfo where
  "addrtxinfo_null = \<lparr> atf_nDirection = 0, atf_destPeer = dest_null, atf_nTxType = 0, atf_nTimeStamp = 0,
     atf_nLockUntil = 0, atf_nAmount = 0, atf_nTxFee = 0 \<rparr>"

definition addrtxinfo_of_tx :: "i32 \<Rightarrow> CDestination \<Rightarrow> 'z CTransaction_scheme \<Rightarrow> CAddrTxInfo" where
  "addrtxinfo_of_tx nDirectionIn destPeerIn tx = \<lparr> atf_nDirection = nDirectionIn, atf_destPeer = destPeerIn,
     atf_nTxType = ucast (tx_nType tx), atf_nTimeStamp = tx_nTimeStamp tx, atf_nLockUntil = tx_nLockUntil tx,
     atf_nAmount = tx_nAmount tx, atf_nTxFee = tx_nTxFee tx \<rparr>"

definition addrtxinfo_IsNull :: "CAddrTxInfo \<Rightarrow> bool" where
  "addrtxinfo_IsNull i = (atf_nDirection i = 0)"

definition save_CAddrTxInfo :: "CAddrTxInfo \<Rightarrow> u8 list" where
  "save_CAddrTxInfo i = save_basic 4 (atf_nDirection i) @ save_CDestination (atf_destPeer i) @
     save_basic 4 (atf_nTxType i) @ save_basic 4 (atf_nTimeStamp i) @ save_basic 4 (atf_nLockUntil i) @
     save_basic 8 (atf_nAmount i) @ save_basic 8 (atf_nTxFee i)"

definition load_CAddrTxInfo :: "CAddrTxInfo reader" where
  "load_CAddrTxInfo = rbind (load_basic 4) (\<lambda>d. rbind load_CDestination (\<lambda>p. rbind (load_basic 4) (\<lambda>y.
     rbind (load_basic 4) (\<lambda>t. rbind (load_basic 4) (\<lambda>l. rbind (load_basic 8) (\<lambda>a. rbind (load_basic 8) (\<lambda>f.
       rret \<lparr> atf_nDirection = d, atf_destPeer = p, atf_nTxType = y, atf_nTimeStamp = t, atf_nLockUntil = l,
         atf_nAmount = a, atf_nTxFee = f \<rparr>)))))))"

definition size_CAddrTxInfo_ser :: "CAddrTxInfo \<Rightarrow> nat" where
  "size_CAddrTxInfo_ser i = size_basic 4 (atf_nDirection i) + size_CDestination_ser (atf_destPeer i) +
     size_basic 4 (atf_nTxType i) + size_basic 4 (atf_nTimeStamp i) + size_basic 4 (atf_nLockUntil i) +
     size_basic 8 (atf_nAmount i) + size_basic 8 (atf_nTxFee i)"

interpretation catf: codec save_CAddrTxInfo load_CAddrTxInfo size_CAddrTxInfo_ser "\<lambda>_. True"
  by unfold_locales
    (simp_all add: save_CAddrTxInfo_def load_CAddrTxInfo_def size_CAddrTxInfo_ser_def basic_laws basic_sizes
      cdest.load_save cdest.ssize_save)

section \<open>Redeem records\<close>

record CDestRedeem =
  dr_nBalance :: i64
  dr_nLockAmount :: i64
  dr_nLockBeginHeight :: i32

definition destredeem_null :: CDestRedeem where
  "destredeem_null = \<lparr> dr_nBalance = 0, dr_nLockAmount = 0, dr_nLockBeginHeight = 0 \<rparr>"

definition save_CDestRedeem :: "CDestRedeem \<Rightarrow> u8 list" where
  "save_CDestRedeem r = save_basic 8 (dr_nBalance r) @ save_basic 8 (dr_nLockAmount r) @ save_basic 4 (dr_nLockBeginHeight r)"

definition load_CDestRedeem :: "CDestRedeem reader" where
  "load_CDestRedeem = rbind (load_basic 8) (\<lambda>b. rbind (load_basic 8) (\<lambda>a. rbind (load_basic 4) (\<lambda>h.
     rret \<lparr> dr_nBalance = b, dr_nLockAmount = a, dr_nLockBeginHeight = h \<rparr>)))"

definition size_CDestRedeem_ser :: "CDestRedeem \<Rightarrow> nat" where
  "size_CDestRedeem_ser r = size_basic 8 (dr_nBalance r) + size_basic 8 (dr_nLockAmount r) + size_basic 4 (dr_nLockBeginHeight r)"

interpretation cdr: codec save_CDestRedeem load_CDestRedeem size_CDestRedeem_ser "\<lambda>_. True"
  by unfold_locales
    (simp_all add: save_CDestRedeem_def load_CDestRedeem_def size_CDestRedeem_ser_def basic_laws basic_sizes)

interpretation dest_redeem: codec_pair save_CDestination load_CDestination size_CDestination_ser "\<lambda>_. True"
  save_CDestRedeem load_CDestRedeem size_CDestRedeem_ser "\<lambda>_. True"
  by unfold_locales

interpretation redeem_entry: codec_entry "save_pair save_CDestination save_CDestRedeem"
  "load_pair load_CDestination load_CDestRedeem" "size_pair size_CDestination_ser size_CDestRedeem_ser"
  "\<lambda>(x, y). True \<and> True"
  unfolding codec_entry_def by (rule dest_redeem.pair_codec)

interpretation redeem_map: codec "save_map (save_pair save_CDestination save_CDestRedeem)"
  "load_map (load_pair load_CDestination load_CDestRedeem)"
  "size_map (size_pair size_CDestination_ser size_CDestRedeem_ser)"
  "\<lambda>m. fits m \<and> list_all (\<lambda>(x, y). True \<and> True) m \<and> sorted_wrt (<) (map fst m)"
  by (rule redeem_entry.map_codec)

record CRedeemContext =
  rc_hashRef :: uint256
  rc_mapRedeem :: "(CDestination \<times> CDestRedeem) list"

definition redeem_IsFull :: "CRedeemContext \<Rightarrow> bool" where
  "redeem_IsFull c = (rc_hashRef c = 0)"

definition redeem_Clear :: CRedeemContext where
  "redeem_Clear = \<lparr> rc_hashRef = 0, rc_mapRedeem = [] \<rparr>"

definition save_CRedeemContext :: "CRedeemContext \<Rightarrow> u8 list" where
  "save_CRedeemContext c = save_basic 32 (rc_hashRef c) @
     save_map (save_pair save_CDestination save_CDestRedeem) (rc_mapRedeem c)"

definition load_CRedeemContext :: "CRedeemContext reader" where
  "load_CRedeemContext = rbind (load_basic 32) (\<lambda>h.
     rbind (load_map (load_pair load_CDestination load_CDestRedeem)) (\<lambda>m.
       rret \<lparr> rc_hashRef = h, rc_mapRedeem = m \<rparr>))"

definition size_CRedeemContext_ser :: "CRedeemContext \<Rightarrow> nat" where
  "size_CRedeemContext_ser c = size_basic 32 (rc_hashRef c) +
     size_map (size_pair size_CDestination_ser size_CDestRedeem_ser) (rc_mapRedeem c)"

interpretation crc: codec save_CRedeemContext load_CRedeemContext size_CRedeemContext_ser
  "\<lambda>c. fits (rc_mapRedeem c) \<and> sorted_wrt (<) (map fst (rc_mapRedeem c))"
  by unfold_locales
    (simp_all add: save_CRedeemContext_def load_CRedeemContext_def size_CRedeemContext_ser_def basic_laws basic_sizes
      redeem_map.load_save redeem_map.ssize_save case_prod_unfold)

section \<open>Properties of transactions\<close>

text \<open>
  C24: a transaction survives serialisation: loading what was saved returns the same transaction and
  leaves the rest of the stream untouched, and the size pass announces exactly the bytes that the
  save pass writes.
\<close>

theorem CTransaction_round_trip:
  fixes tx :: CTransaction
  assumes "tx_ok tx"
  shows "load_CTransaction (save_CTransaction tx @ rest) = Inr (tx, rest)
    \<and> size_CTransaction_ser tx = length (save_CTransaction tx)"
  using ctx.load_save [OF assms] ctx.ssize_save by blast

theorem CTransaction_round_trip_witness:
  "load_CTransaction (save_CTransaction (tx_SetNull\<lparr> tx_vInput := [CTxIn (CTxOutPoint 7 1)], tx_nAmount := 5,
       tx_vchSig := [1, 2] \<rparr>) @ [9])
     = Inr (tx_SetNull\<lparr> tx_vInput := [CTxIn (CTxOutPoint 7 1)], tx_nAmount := 5, tx_vchSig := [1, 2] \<rparr>, [9])"
  using CTransaction_round_trip
    [of "tx_SetNull\<lparr> tx_vInput := [CTxIn (CTxOutPoint 7 1)], tx_nAmount := 5, tx_vchSig := [1, 2] \<rparr>" "[9]"]
  by (simp add: tx_ok_def fits_def tx_SetNull_def)

text \<open>Without the signature the body is still read back unambiguously.\<close>

lemma save_tx_body_eq:
  "save_tx_body (tx :: CTransaction) @ save_bytes [] = save_CTransaction (tx\<lparr> tx_vchSig := [] \<rparr>)"
  by (simp add: save_CTransaction_def save_tx_body_def)

text \<open>
  The message that is signed determines every field of the transaction except the signature
  itself, so two transactions with the same signed bytes differ at most in their signatures.
\<close>

theorem signed_bytes_determine_tx:
  fixes a b :: CTransaction
  assumes "tx_ok a" and "tx_ok b"
  shows "save_tx_body a = save_tx_body b \<longleftrightarrow> a\<lparr> tx_vchSig := [] \<rparr> = b\<lparr> tx_vchSig := [] \<rparr>"
proof -
  have ok: "tx_ok (a\<lparr> tx_vchSig := [] \<rparr>)" "tx_ok (b\<lparr> tx_vchSig := [] \<rparr>)"
    using assms by (simp_all add: tx_ok_def fits_def)
  have "save_tx_body a = save_tx_body b \<longleftrightarrow> save_tx_body a @ save_bytes [] = save_tx_body b @ save_bytes []"
    by simp
  then show ?thesis
    unfolding save_tx_body_eq using ctx.save_inject [OF ok] by blast
qed

theorem signed_bytes_determine_tx_witness:
  "save_tx_body (tx_SetNull\<lparr> tx_nAmount := 5 \<rparr>) \<noteq> save_tx_body (tx_SetNull\<lparr> tx_nAmount := 6 \<rparr>)"
  using signed_bytes_determine_tx [of "tx_SetNull\<lparr> tx_nAmount := 5 \<rparr>" "tx_SetNull\<lparr> tx_nAmount := 6 \<rparr>"]
  by (simp add: tx_ok_def fits_def tx_SetNull_def)

text \<open>
  Whatever the digest is, the time that \<^verbatim>\<open>CTxId::GetTxTime\<close> reads from a transaction id is the
  time stamp of the transaction with that id.
\<close>

theorem txid_time: "txid_GetTxTime (tx_GetHash blake2b tx) = tx_GetTxTime tx"
  by (simp add: txid_GetTxTime_def tx_GetHash_def tx_GetTxTime_def)

text \<open>
  \<^verbatim>\<open>SetLockUntil\<close> accepts exactly the heights below \<open>2 ^ 31\<close>; afterwards \<^verbatim>\<open>GetLockUntil\<close> returns
  the height for the chosen output and zero for the other one.
\<close>

theorem lock_until_round_trip:
  assumes "n = 0 \<or> n = 1" and "unat h < 2 ^ 31"
  shows "\<exists>tx'. tx_SetLockUntil tx h n = Some tx' \<and> tx_GetLockUntil tx' n = h \<and> tx_GetLockUntil tx' (1 - n) = 0"
proof -
  have h: "drop_bit 31 h = 0"
    using assms(2) by (simp add: word_unat_eq_iff unat_drop_u32)
  have low: "(push_bit 31 n OR h) AND 0x7FFFFFFF = h"
  proof -
    have "take_bit 31 h = h" using assms(2) by (simp add: word_unat_eq_iff unat_take_u32)
    moreover have "(push_bit 31 n OR h) AND mask 31 = take_bit 31 h"
      unfolding take_bit_eq_mask [symmetric] by (simp add: take_bit_or take_bit_push_bit)
    ultimately show ?thesis by (simp add: mask_eq_exp_minus_1)
  qed
  have "drop_bit 31 (push_bit 31 n OR h) = n"
    using assms(1) h by (auto simp: drop_bit_or)
  with h low assms(1) show ?thesis
    by (auto simp: tx_SetLockUntil_def tx_GetLockUntil_def)
qed

theorem lock_until_round_trip_witness:
  "\<exists>tx'. tx_SetLockUntil tx_SetNull 1000 1 = Some tx' \<and> tx_GetLockUntil tx' 1 = 1000 \<and> tx_GetLockUntil tx' 0 = 0"
  using lock_until_round_trip [of 1 1000 tx_SetNull] by simp

text \<open>
  A lock on the change output (output 1) is ignored by \<^verbatim>\<open>CAssembledTx::GetOutput(0)\<close>, but the
  output object that \<^verbatim>\<open>CTxOut(const CTransaction&)\<close> builds for output 0 is locked by it, because
  \<^verbatim>\<open>IsLocked\<close> masks the bit that selects the output: the two constructions of output 0 disagree.
\<close>

theorem change_lock_also_locks_output_0:
  assumes "tx_SetLockUntil tx h 1 = Some tx'" and "nHeight < h"
  shows "txout_IsLocked (txout_of_tx tx') nHeight
    \<and> \<not> txout_IsLocked (atx_GetOutput (assembled_tx tx' b d v) 0) nHeight"
proof -
  from assms(1) have h: "drop_bit 31 h = 0" and tx': "tx' = tx\<lparr> tx_nLockUntil := push_bit 31 1 OR h \<rparr>"
    by (auto simp: tx_SetLockUntil_def split: if_splits)
  have hi: "drop_bit 31 (push_bit 31 1 OR h) = (1 :: u32)" using h by (simp add: drop_bit_or)
  have "unat h < 2 ^ 31"
    using h by (simp add: word_unat_eq_iff unat_drop_u32 div_eq_0_iff)
  then have "take_bit 31 h = h" by (simp add: word_unat_eq_iff unat_take_u32)
  then have "(push_bit 31 1 OR h) AND mask 31 = h"
    unfolding take_bit_eq_mask [symmetric] by (simp only: take_bit_or take_bit_push_bit) simp
  then have low: "(push_bit 31 1 OR h) AND 0x7FFFFFFF = h" by (simp add: mask_eq_exp_minus_1)
  show ?thesis
    using assms(2) low hi
    by (simp add: txout_IsLocked_def lock_IsLocked_def txout_of_tx_def atx_GetOutput_def assembled_tx_def
        CTransaction.defs tx' tx_GetLockUntil_def)
qed

theorem change_lock_also_locks_output_0_witness:
  "\<exists>tx' :: CTransaction. tx_SetLockUntil tx_SetNull 1000 1 = Some tx' \<and> txout_IsLocked (txout_of_tx tx') 7
     \<and> \<not> txout_IsLocked (atx_GetOutput (assembled_tx tx' 0 dest_null 0) 0) 7"
  using change_lock_also_locks_output_0 [of tx_SetNull 1000 _ 7 0 dest_null 0]
  by (simp add: tx_SetLockUntil_def word_less_nat_alt)

text \<open>
  The packed height and sequence of an address entry are read back exactly when the packed
  32-bit sequence is not negative, that is for block sequence numbers below 128; otherwise the sign
  extension overwrites the height, which then reads as \<open>-1\<close>.
\<close>

theorem addr_height_seq:
  fixes h bs ts :: i32
  defines "sq \<equiv> push_bit 24 bs OR ts"
  shows "addrtx_GetSeq (CAddrTxIndex d (addrtx_HeightSeq h bs ts) t) = sq
    \<and> addrtx_GetHeight (CAddrTxIndex d (addrtx_HeightSeq h bs ts) t) = (if bit sq 31 then - 1 else h)"
proof -
  let ?w = "push_bit 32 (scast h) OR scast sq :: i64"
  have mask: "(0xFFFFFFFF :: i64) = mask 32" by (simp add: mask_eq_exp_minus_1)
  have "addrtx_GetSeq (CAddrTxIndex d ?w t) = sq"
    unfolding addrtx_GetSeq_def mask
    by (rule bit_word_eqI) (auto simp: bit_ucast_iff bit_and_iff bit_or_iff bit_mask_iff bit_push_bit_iff bit_signed_iff)
  moreover have "addrtx_GetHeight (CAddrTxIndex d ?w t) = (if bit sq 31 then - 1 else h)"
    by (rule bit_word_eqI, case_tac "n = 31") (auto simp: addrtx_GetHeight_def bit_ucast_iff bit_signed_drop_bit_iff bit_or_iff
        bit_push_bit_iff bit_signed_iff min_def)
  ultimately show ?thesis by (simp add: addrtx_HeightSeq_def sq_def)
qed

end
