(* ===== verification/Ledger_Block.thy ===== *)
theory Ledger_Block
  imports Ledger_Tx
begin

text \<open>
  Blocks and their Merkle tree (\<^verbatim>\<open>src/src/common/block.h\<close>), the merged-mining proof
  (\<^verbatim>\<open>src/src/common/proof.h\<close>) and the in-memory block index.  A pointer to a \<^verbatim>\<open>CBlockIndex\<close> is the
  hash of its block, the key under which the block chain keeps it, and the objects live in a
  store, a partial map from hashes; \<open>None\<close> is the null pointer.
\<close>

section \<open>CBlock\<close>

record CBlock =
  blk_nVersion :: u16
  blk_nType :: u16
  blk_nTimeStamp :: u32
  blk_hashPrev :: uint256
  blk_hashMerkle :: uint256
  blk_nBits :: u32
  blk_vchProof :: "u8 list"
  blk_txMint :: CTransaction
  blk_vtx :: "CTransaction list"

definition BLOCK_GENESIS :: u16 where "BLOCK_GENESIS = 0xffff"
definition BLOCK_ORIGIN :: u16 where "BLOCK_ORIGIN = 0xff00"
definition BLOCK_PRIMARY :: u16 where "BLOCK_PRIMARY = 0x0001"
definition BLOCK_SUBSIDIARY :: u16 where "BLOCK_SUBSIDIARY = 0x0002"
definition BLOCK_EXTENDED :: u16 where "BLOCK_EXTENDED = 0x0004"
definition BLOCK_VACANT :: u16 where "BLOCK_VACANT = 0x0008"

definition block_SetNull :: CBlock where
  "block_SetNull = \<lparr> blk_nVersion = 2, blk_nType = 0, blk_nTimeStamp = 0, blk_hashPrev = 0, blk_hashMerkle = 0,
     blk_nBits = 0, blk_vchProof = [], blk_txMint = tx_SetNull, blk_vtx = [] \<rparr>"

definition block_IsNull :: "'z CBlock_scheme \<Rightarrow> bool" where
  "block_IsNull b = (blk_nType b = 0 \<or> blk_nTimeStamp b = 0 \<or> tx_IsNull (blk_txMint b))"

definition block_IsGenesis :: "'z CBlock_scheme \<Rightarrow> bool" where
  "block_IsGenesis b = (blk_nType b = BLOCK_GENESIS)"

definition type_IsOrigin :: "u16 \<Rightarrow> bool" where
  "type_IsOrigin t = (drop_bit 15 t \<noteq> 0)"

definition type_IsPrimary :: "u16 \<Rightarrow> bool" where
  "type_IsPrimary t = (t AND 1 \<noteq> 0)"

definition block_IsOrigin :: "'z CBlock_scheme \<Rightarrow> bool" where
  "block_IsOrigin b = type_IsOrigin (blk_nType b)"

definition block_IsPrimary :: "'z CBlock_scheme \<Rightarrow> bool" where
  "block_IsPrimary b = type_IsPrimary (blk_nType b)"

definition block_IsSubsidiary :: "'z CBlock_scheme \<Rightarrow> bool" where
  "block_IsSubsidiary b = (blk_nType b = BLOCK_SUBSIDIARY)"

definition block_IsExtended :: "'z CBlock_scheme \<Rightarrow> bool" where
  "block_IsExtended b = (blk_nType b = BLOCK_EXTENDED)"

definition block_IsVacant :: "'z CBlock_scheme \<Rightarrow> bool" where
  "block_IsVacant b = (blk_nType b = BLOCK_VACANT)"

definition block_IsProofOfWork :: "'z CBlock_scheme \<Rightarrow> bool" where
  "block_IsProofOfWork b = (tx_nType (blk_txMint b) = TX_WORK)"

definition block_GetBlockHeight :: "'z CBlock_scheme \<Rightarrow> u32" where
  "block_GetBlockHeight b =
     (if block_IsGenesis b then 0
      else if block_IsExtended b then Get32 (blk_hashPrev b) 7
      else Get32 (blk_hashPrev b) 7 + 1)"

definition save_block_header :: "'z CBlock_scheme \<Rightarrow> u8 list" where
  "save_block_header b = save_basic 2 (blk_nVersion b) @ save_basic 2 (blk_nType b) @
     save_basic 4 (blk_nTimeStamp b) @ save_basic 32 (blk_hashPrev b) @ save_basic 32 (blk_hashMerkle b) @
     save_basic 4 (blk_nBits b) @ save_bytes (blk_vchProof b)"

definition block_GetHash :: "digest \<Rightarrow> 'z CBlock_scheme \<Rightarrow> uint256" where
  "block_GetHash blake2b b =
     uint256_pair (block_GetBlockHeight b) (CryptoHash blake2b (save_block_header b))"

definition block_GetTxSerializedOffset :: "'z CBlock_scheme \<Rightarrow> nat" where
  "block_GetTxSerializedOffset b = 2 + 2 + 4 + 32 + 32 + 4 + size_bytes (blk_vchProof b)"

definition block_GetSerializedProofOfWorkData :: "'z CBlock_scheme \<Rightarrow> u8 list" where
  "block_GetSerializedProofOfWorkData b = save_basic 2 (blk_nVersion b) @ save_basic 2 (blk_nType b) @
     save_basic 32 (blk_hashPrev b) @ save_basic 32 (blk_hashMerkle b) @ save_basic 4 (blk_nBits b)"

definition block_GetBlockTime :: "'z CBlock_scheme \<Rightarrow> int" where
  "block_GetBlockTime b = uint (blk_nTimeStamp b)"

definition block_GetBlockBeacon :: "'z CBlock_scheme \<Rightarrow> nat \<Rightarrow> u64" where
  "block_GetBlockBeacon b idx = (if blk_vchProof b = [] then Get64 (blk_hashPrev b) (idx mod 4) else 0)"

text \<open>
  The minted amount: the reward of the mint transaction, plus the pledge reward announced in its
  data, minus the fees of the block.  Data too short for a 64-bit integer gives \<open>-1\<close>.
\<close>

definition block_GetBlockMint :: "'z CBlock_scheme \<Rightarrow> i64" where
  "block_GetBlockMint b =
     (let nTotalTxFee = fold (\<lambda>tx nTotal. nTotal + tx_nTxFee tx) (blk_vtx b) 0;
          txMint = blk_txMint b
      in if \<not> block_IsGenesis b \<and> tx_vchData txMint \<noteq> []
         then (case (ids_pop 8 :: i64 reader) (tx_vchData txMint) of
                 Inl e \<Rightarrow> - 1
               | Inr (nPledgeReward, _) \<Rightarrow> (tx_nAmount txMint + nPledgeReward) - nTotalTxFee)
         else (tx_nAmount txMint + 0) - nTotalTxFee)"

text \<open>
  \<^verbatim>\<open>BuildMerkleTree\<close>: the array of all nodes, level after level.  \<open>j\<close> is where the current level of
  \<open>nSize\<close> nodes starts.  The inner loop steps \<open>i\<close> by two.
\<close>

function merkle_inner :: "(uint256 \<Rightarrow> uint256 \<Rightarrow> uint256) \<Rightarrow> nat \<Rightarrow> nat \<Rightarrow> nat \<Rightarrow> uint256 list \<Rightarrow> uint256 list" where
  "merkle_inner h j nSize i tree =
     (if i < nSize
      then let i2 = min (i + 1) (nSize - 1)
           in merkle_inner h j nSize (i + 2) (tree @ [h (tree ! (j + i)) (tree ! (j + i2))])
      else tree)"
  by auto
termination by (relation "measure (\<lambda>(h, j, nSize, i, tree). nSize - i)") auto

function merkle_outer :: "(uint256 \<Rightarrow> uint256 \<Rightarrow> uint256) \<Rightarrow> nat \<Rightarrow> nat \<Rightarrow> uint256 list \<Rightarrow> uint256 list" where
  "merkle_outer h j nSize tree =
     (if nSize > 1
      then merkle_outer h (j + nSize) ((nSize + 1) div 2) (merkle_inner h j nSize 0 tree)
      else tree)"
  by auto
termination by (relation "measure (\<lambda>(h, j, nSize, tree). nSize)") auto

declare merkle_inner.simps [simp del] merkle_outer.simps [simp del]

definition block_BuildMerkleTree :: "digest \<Rightarrow> 'z CBlock_scheme \<Rightarrow> uint256 list \<times> uint256" where
  "block_BuildMerkleTree blake2b b =
     (let leaves = tx_GetHash blake2b (blk_txMint b) # map (tx_GetHash blake2b) (blk_vtx b);
          tree = merkle_outer (CryptoHash2 blake2b) 0 (length (blk_vtx b) + 1) leaves
      in (tree, if tree = [] then 0 else last tree))"

definition block_CalcMerkleTreeRoot :: "digest \<Rightarrow> 'z CBlock_scheme \<Rightarrow> uint256" where
  "block_CalcMerkleTreeRoot blake2b b = snd (block_BuildMerkleTree blake2b b)"

definition GetBlockHeightByHash :: "uint256 \<Rightarrow> u32" where
  "GetBlockHeightByHash hash = Get32 hash 7"

definition save_CBlock :: "'z CBlock_scheme \<Rightarrow> u8 list" where
  "save_CBlock b = save_block_header b @ save_CTransaction (blk_txMint b) @
     save_vector save_CTransaction (blk_vtx b)"

definition load_CBlock :: "CBlock reader" where
  "load_CBlock =
     rbind (load_basic 2) (\<lambda>ver. rbind (load_basic 2) (\<lambda>typ. rbind (load_basic 4) (\<lambda>tim.
     rbind (load_basic 32) (\<lambda>prev. rbind (load_basic 32) (\<lambda>mrk. rbind (load_basic 4) (\<lambda>bits.
     rbind load_bytes (\<lambda>prf. rbind load_CTransaction (\<lambda>mint. rbind (load_vector load_CTransaction) (\<lambda>txs.
       rret \<lparr> blk_nVersion = ver, blk_nType = typ, blk_nTimeStamp = tim, blk_hashPrev = prev,
         blk_hashMerkle = mrk, blk_nBits = bits, blk_vchProof = prf, blk_txMint = mint, blk_vtx = txs \<rparr>)))))))))"

definition size_CBlock_ser :: "'z CBlock_scheme \<Rightarrow> nat" where
  "size_CBlock_ser b = size_basic 2 (blk_nVersion b) + size_basic 2 (blk_nType b) +
     size_basic 4 (blk_nTimeStamp b) + size_basic 32 (blk_hashPrev b) + size_basic 32 (blk_hashMerkle b) +
     size_basic 4 (blk_nBits b) + size_bytes (blk_vchProof b) + size_CTransaction_ser (blk_txMint b) +
     size_vector size_CTransaction_ser (blk_vtx b)"

definition block_ok :: "'z CBlock_scheme \<Rightarrow> bool" where
  "block_ok b = (fits (blk_vchProof b) \<and> tx_ok (blk_txMint b) \<and> fits (blk_vtx b) \<and> list_all tx_ok (blk_vtx b))"

interpretation ctxs: codec "save_vector save_CTransaction" "load_vector load_CTransaction"
  "size_vector size_CTransaction_ser" "\<lambda>xs. fits xs \<and> list_all tx_ok xs"
  by (rule ctx.vector_codec)

interpretation cblk: codec save_CBlock load_CBlock size_CBlock_ser block_ok
proof unfold_locales
  fix x :: CBlock and rest
  assume "block_ok x"
  then show "load_CBlock (save_CBlock x @ rest) = Inr (x, rest)"
    by (cases x) (simp add: block_ok_def load_CBlock_def save_CBlock_def save_block_header_def
        basic_laws ctx.load_save ctxs.load_save)
next
  fix x :: CBlock
  show "size_CBlock_ser x = length (save_CBlock x)"
    by (simp add: size_CBlock_ser_def save_CBlock_def save_block_header_def basic_sizes
        ctx.ssize_save ctxs.ssize_save)
qed

record CBlockEx = CBlock +
  bex_vTxContxt :: "CTxContxt list"

definition block_ex :: "CBlock \<Rightarrow> CTxContxt list \<Rightarrow> CBlockEx" where
  "block_ex b vTxContxtIn = CBlock.extend b \<lparr> bex_vTxContxt = vTxContxtIn \<rparr>"

definition save_CBlockEx :: "CBlockEx \<Rightarrow> u8 list" where
  "save_CBlockEx b = save_CBlock b @ save_vector save_CTxContxt (bex_vTxContxt b)"

definition load_CBlockEx :: "CBlockEx reader" where
  "load_CBlockEx = rbind load_CBlock (\<lambda>b. rbind (load_vector load_CTxContxt) (\<lambda>c. rret (block_ex b c)))"

definition size_CBlockEx_ser :: "CBlockEx \<Rightarrow> nat" where
  "size_CBlockEx_ser b = size_CBlock_ser b + size_vector size_CTxContxt_ser (bex_vTxContxt b)"

interpretation cctxts: codec "save_vector save_CTxContxt" "load_vector load_CTxContxt"
  "size_vector size_CTxContxt_ser" "\<lambda>xs. fits xs \<and> list_all (\<lambda>c. fits (ctxt_vin c)) xs"
  by (rule cctxt.vector_codec)

lemma save_CBlock_truncate: "save_CBlock b = save_CBlock (CBlock.truncate b)"
  by (simp add: save_CBlock_def save_block_header_def CBlock.defs)

lemma size_CBlock_truncate: "size_CBlock_ser b = size_CBlock_ser (CBlock.truncate b)"
  by (simp add: size_CBlock_ser_def CBlock.defs)

interpretation cblkex: codec save_CBlockEx load_CBlockEx size_CBlockEx_ser
  "\<lambda>b. block_ok b \<and> fits (bex_vTxContxt b) \<and> list_all (\<lambda>c. fits (ctxt_vin c)) (bex_vTxContxt b)"
proof unfold_locales
  fix x :: CBlockEx and rest
  assume ok: "block_ok x \<and> fits (bex_vTxContxt x) \<and> list_all (\<lambda>c. fits (ctxt_vin c)) (bex_vTxContxt x)"
  then have "block_ok (CBlock.truncate x)" by (simp add: block_ok_def CBlock.defs)
  with ok show "load_CBlockEx (save_CBlockEx x @ rest) = Inr (x, rest)"
    by (simp add: load_CBlockEx_def save_CBlockEx_def save_CBlock_truncate [of x] cblk.load_save cctxts.load_save
        block_ex_def CBlock.defs)
next
  fix x :: CBlockEx
  show "size_CBlockEx_ser x = length (save_CBlockEx x)"
    by (simp add: size_CBlockEx_ser_def save_CBlockEx_def save_CBlock_truncate [of x] size_CBlock_truncate [of x]
        cblk.ssize_save cctxts.ssize_save)
qed

definition GetBlockTypeStr :: "u16 \<Rightarrow> u16 \<Rightarrow> string" where
  "GetBlockTypeStr nType nMintType =
     (if nType = BLOCK_GENESIS then ''genesis''
      else if nType = BLOCK_ORIGIN then ''origin''
      else if nType = BLOCK_EXTENDED then ''extended''
      else let s0 = ''undefined-'';
               s1 = (if nType = BLOCK_PRIMARY then ''primary-'' else s0);
               s2 = (if nType = BLOCK_SUBSIDIARY then ''subsidiary-'' else s1);
               s3 = (if nType = BLOCK_VACANT then ''vacant'' else s2)
           in if nMintType = TX_WORK then s3 @ ''pow'' else s3)"

section \<open>CBlockIndex\<close>

record CBlockIndex =
  bi_phashBlock :: uint256
  bi_pOrigin :: uint256
  bi_pPrev :: "uint256 option"
  bi_pNext :: "uint256 option"
  bi_txidMint :: uint256
  bi_nMintType :: u16
  bi_destMint :: CDestination
  bi_nVersion :: u16
  bi_nType :: u16
  bi_nTimeStamp :: u32
  bi_nHeight :: u32
  bi_nRandBeacon :: u64
  bi_nChainTrust :: uint256
  bi_nMoneySupply :: i64
  bi_nProofBits :: u32
  bi_nFile :: u32
  bi_nOffset :: u32

type_synonym index_store = "uint256 \<Rightarrow> CBlockIndex option"

text \<open>
  The constructor from a block.  It leaves \<^verbatim>\<open>phashBlock\<close> null and lets \<^verbatim>\<open>pOrigin\<close> point to the
  object itself; both are the block's own hash here, which is where the caller stores the object.
\<close>

definition block_index :: "digest \<Rightarrow> uint256 \<Rightarrow> 'z CBlock_scheme \<Rightarrow> u32 \<Rightarrow> u32 \<Rightarrow> CBlockIndex" where
  "block_index blake2b hash block nFileIn nOffsetIn = \<lparr>
     bi_phashBlock = hash, bi_pOrigin = hash, bi_pPrev = None, bi_pNext = None,
     bi_txidMint = (if block_IsVacant block then 0 else tx_GetHash blake2b (blk_txMint block)),
     bi_nMintType = tx_nType (blk_txMint block), bi_destMint = tx_sendTo (blk_txMint block),
     bi_nVersion = blk_nVersion block, bi_nType = blk_nType block, bi_nTimeStamp = blk_nTimeStamp block,
     bi_nHeight = block_GetBlockHeight block, bi_nRandBeacon = 0, bi_nChainTrust = 0, bi_nMoneySupply = 0,
     bi_nProofBits = blk_nBits block, bi_nFile = nFileIn, bi_nOffset = nOffsetIn \<rparr>"

definition index_GetBlockHeight :: "'z CBlockIndex_scheme \<Rightarrow> int" where
  "index_GetBlockHeight i = sint (bi_nHeight i)"

definition index_GetBlockTime :: "'z CBlockIndex_scheme \<Rightarrow> int" where
  "index_GetBlockTime i = uint (bi_nTimeStamp i)"

definition index_GetOriginHash :: "'z CBlockIndex_scheme \<Rightarrow> uint256" where
  "index_GetOriginHash i = bi_pOrigin i"

text \<open>The parent of a fork is the origin of the block its origin block extends.\<close>

definition index_GetParentHash :: "index_store \<Rightarrow> 'z CBlockIndex_scheme \<Rightarrow> uint256 option" where
  "index_GetParentHash st i =
     (case st (bi_pOrigin i) of
        None \<Rightarrow> None
      | Some orig \<Rightarrow> (case bi_pPrev orig of
          None \<Rightarrow> Some 0
        | Some p \<Rightarrow> (case st p of None \<Rightarrow> None | Some prev \<Rightarrow> Some (index_GetOriginHash prev))))"

definition index_IsOrigin :: "'z CBlockIndex_scheme \<Rightarrow> bool" where
  "index_IsOrigin i = type_IsOrigin (bi_nType i)"

definition index_IsPrimary :: "'z CBlockIndex_scheme \<Rightarrow> bool" where
  "index_IsPrimary i = type_IsPrimary (bi_nType i)"

definition index_IsExtended :: "'z CBlockIndex_scheme \<Rightarrow> bool" where
  "index_IsExtended i = (bi_nType i = BLOCK_EXTENDED)"

definition index_IsVacant :: "'z CBlockIndex_scheme \<Rightarrow> bool" where
  "index_IsVacant i = (bi_nType i = BLOCK_VACANT)"

definition index_IsProofOfWork :: "'z CBlockIndex_scheme \<Rightarrow> bool" where
  "index_IsProofOfWork i = (bi_nMintType i = TX_WORK)"

text \<open>
  \<^verbatim>\<open>IsEquivalent\<close> walks back over vacant blocks above the compared block.  On a cyclic chain of
  vacant blocks the walk would not end, so the function is partial.
\<close>

partial_function (option) index_IsEquivalent_from :: "index_store \<Rightarrow> uint256 option \<Rightarrow> CBlockIndex \<Rightarrow> bool option" where
  "index_IsEquivalent_from st p cmp =
     (case p of
        None \<Rightarrow> Some False
      | Some h \<Rightarrow> (case st h of
          None \<Rightarrow> Some False
        | Some i \<Rightarrow>
            if h = bi_phashBlock cmp then Some True
            else if bi_nType i \<noteq> BLOCK_VACANT \<or> index_GetBlockHeight i \<le> index_GetBlockHeight cmp
            then Some False
            else index_IsEquivalent_from st (bi_pPrev i) cmp))"

definition index_IsEquivalent :: "index_store \<Rightarrow> uint256 \<Rightarrow> uint256 option \<Rightarrow> bool option" where
  "index_IsEquivalent st this pIndexCompare =
     (case pIndexCompare of
        None \<Rightarrow> Some False
      | Some c \<Rightarrow> (case st c of None \<Rightarrow> Some False | Some cmp \<Rightarrow> index_IsEquivalent_from st (Some this) cmp))"

text \<open>The serialised form of an index entry, with the hashes its pointers stand for.\<close>

record CBlockOutline =
  ol_hashBlock :: uint256
  ol_hashPrev :: uint256
  ol_hashOrigin :: uint256
  ol_txidMint :: uint256
  ol_nMintType :: u16
  ol_destMint :: CDestination
  ol_nVersion :: u16
  ol_nType :: u16
  ol_nTimeStamp :: u32
  ol_nHeight :: u32
  ol_nRandBeacon :: u64
  ol_nChainTrust :: uint256
  ol_nMoneySupply :: i64
  ol_nProofBits :: u32
  ol_nFile :: u32
  ol_nOffset :: u32

definition outline_of_index :: "CBlockIndex \<Rightarrow> CBlockOutline" where
  "outline_of_index i = \<lparr>
     ol_hashBlock = bi_phashBlock i, ol_hashPrev = (case bi_pPrev i of None \<Rightarrow> 0 | Some p \<Rightarrow> p),
     ol_hashOrigin = bi_pOrigin i, ol_txidMint = bi_txidMint i, ol_nMintType = bi_nMintType i,
     ol_destMint = bi_destMint i, ol_nVersion = bi_nVersion i, ol_nType = bi_nType i,
     ol_nTimeStamp = bi_nTimeStamp i, ol_nHeight = bi_nHeight i, ol_nRandBeacon = bi_nRandBeacon i,
     ol_nChainTrust = bi_nChainTrust i, ol_nMoneySupply = bi_nMoneySupply i, ol_nProofBits = bi_nProofBits i,
     ol_nFile = bi_nFile i, ol_nOffset = bi_nOffset i \<rparr>"

definition save_CBlockOutline :: "CBlockOutline \<Rightarrow> u8 list" where
  "save_CBlockOutline o' = save_basic 32 (ol_hashBlock o') @ save_basic 32 (ol_hashPrev o') @
     save_basic 32 (ol_hashOrigin o') @ save_basic 32 (ol_txidMint o') @ save_basic 2 (ol_nMintType o') @
     save_CDestination (ol_destMint o') @ save_basic 2 (ol_nVersion o') @ save_basic 2 (ol_nType o') @
     save_basic 4 (ol_nTimeStamp o') @ save_basic 4 (ol_nHeight o') @ save_basic 8 (ol_nRandBeacon o') @
     save_basic 32 (ol_nChainTrust o') @ save_basic 8 (ol_nMoneySupply o') @ save_basic 4 (ol_nProofBits o') @
     save_basic 4 (ol_nFile o') @ save_basic 4 (ol_nOffset o')"

definition load_CBlockOutline :: "CBlockOutline reader" where
  "load_CBlockOutline =
     rbind (load_basic 32) (\<lambda>hb. rbind (load_basic 32) (\<lambda>hp. rbind (load_basic 32) (\<lambda>ho.
     rbind (load_basic 32) (\<lambda>tm. rbind (load_basic 2) (\<lambda>mt. rbind load_CDestination (\<lambda>dm.
     rbind (load_basic 2) (\<lambda>ve. rbind (load_basic 2) (\<lambda>ty. rbind (load_basic 4) (\<lambda>ti.
     rbind (load_basic 4) (\<lambda>he. rbind (load_basic 8) (\<lambda>rb. rbind (load_basic 32) (\<lambda>ct.
     rbind (load_basic 8) (\<lambda>ms. rbind (load_basic 4) (\<lambda>pb. rbind (load_basic 4) (\<lambda>fi. rbind (load_basic 4) (\<lambda>os.
       rret \<lparr> ol_hashBlock = hb, ol_hashPrev = hp, ol_hashOrigin = ho, ol_txidMint = tm, ol_nMintType = mt,
         ol_destMint = dm, ol_nVersion = ve, ol_nType = ty, ol_nTimeStamp = ti, ol_nHeight = he,
         ol_nRandBeacon = rb, ol_nChainTrust = ct, ol_nMoneySupply = ms, ol_nProofBits = pb, ol_nFile = fi,
         ol_nOffset = os \<rparr>))))))))))))))))"

definition size_CBlockOutline_ser :: "CBlockOutline \<Rightarrow> nat" where
  "size_CBlockOutline_ser o' = size_basic 32 (ol_hashBlock o') + size_basic 32 (ol_hashPrev o') +
     size_basic 32 (ol_hashOrigin o') + size_basic 32 (ol_txidMint o') + size_basic 2 (ol_nMintType o') +
     size_CDestination_ser (ol_destMint o') + size_basic 2 (ol_nVersion o') + size_basic 2 (ol_nType o') +
     size_basic 4 (ol_nTimeStamp o') + size_basic 4 (ol_nHeight o') + size_basic 8 (ol_nRandBeacon o') +
     size_basic 32 (ol_nChainTrust o') + size_basic 8 (ol_nMoneySupply o') + size_basic 4 (ol_nProofBits o') +
     size_basic 4 (ol_nFile o') + size_basic 4 (ol_nOffset o')"

interpretation coutline: codec save_CBlockOutline load_CBlockOutline size_CBlockOutline_ser "\<lambda>_. True"
  by unfold_locales
    (simp_all add: save_CBlockOutline_def load_CBlockOutline_def size_CBlockOutline_ser_def basic_laws basic_sizes
      cdest.load_save cdest.ssize_save)

interpretation chashes: codec "save_vector (save_basic 32)" "load_vector (load_basic 32 :: uint256 reader)"
  "size_vector (size_basic 32)" "\<lambda>xs. fits xs \<and> list_all (\<lambda>_. True) xs"
  by (rule cu256.vector_codec)

section \<open>CProofOfHashWorkCompact\<close>

record CProofOfHashWorkCompact =
  pw_btcVersion :: i32
  pw_btcHashPrevBlock :: uint256
  pw_btcHashMerkleRoot :: uint256
  pw_btcTime :: u32
  pw_btcBits :: u32
  pw_btcNonce :: u32
  pw_auxOffset :: u16
  pw_coinbase :: "u8 list"
  pw_auxMerkleBranch :: "uint256 list"
  pw_trMerkleBranch :: "uint256 list"

definition PROOFHASHWORK_SIZE :: nat where "PROOFHASHWORK_SIZE = 860"

definition proof_GetBtcPow :: "CProofOfHashWorkCompact \<Rightarrow> u8 list" where
  "proof_GetBtcPow p = save_basic 4 (pw_btcVersion p) @ save_basic 32 (pw_btcHashPrevBlock p) @
     save_basic 32 (pw_btcHashMerkleRoot p) @ save_basic 4 (pw_btcTime p) @ save_basic 4 (pw_btcBits p) @
     save_basic 4 (pw_btcNonce p)"

definition proof_Save :: "CProofOfHashWorkCompact \<Rightarrow> u8 list" where
  "proof_Save p = proof_GetBtcPow p @ save_basic 2 (pw_auxOffset p) @ save_bytes (pw_coinbase p) @
     save_vector (save_basic 32) (pw_auxMerkleBranch p) @ save_vector (save_basic 32) (pw_trMerkleBranch p)"

text \<open>
  \<^verbatim>\<open>Load\<close> catches the exception of a stream that is too short and keeps what it has read so far.  One
  step reads one member: a fundamental member that is cut off keeps its old upper bytes, a vector
  member is cleared before it is read.  The second component is \<open>None\<close> after the exception.
\<close>

definition proof_step :: "'a reader \<Rightarrow> ('a \<Rightarrow> 'p \<Rightarrow> 'p) \<Rightarrow> (u8 list \<Rightarrow> 'p \<Rightarrow> 'p) \<Rightarrow> 'p \<times> u8 list option \<Rightarrow> 'p \<times> u8 list option" where
  "proof_step ld upd failed st =
     (case snd st of
        None \<Rightarrow> st
      | Some bs \<Rightarrow> (case ld bs of
          Inl e \<Rightarrow> (failed bs (fst st), None)
        | Inr (x, rest) \<Rightarrow> (upd x (fst st), Some rest)))"

definition cut_off :: "nat \<Rightarrow> u8 list \<Rightarrow> 'a::len word \<Rightarrow> 'a word" where
  "cut_off n bs old = le_word (bs @ drop (length bs) (le_bytes n old))"

definition proof_load_pow :: "CProofOfHashWorkCompact \<times> u8 list option \<Rightarrow> CProofOfHashWorkCompact \<times> u8 list option" where
  "proof_load_pow =
     proof_step (load_basic 4) (\<lambda>x. pw_btcNonce_update (\<lambda>_. x)) (\<lambda>bs. pw_btcNonce_update (cut_off 4 bs)) \<circ>
     proof_step (load_basic 4) (\<lambda>x. pw_btcBits_update (\<lambda>_. x)) (\<lambda>bs. pw_btcBits_update (cut_off 4 bs)) \<circ>
     proof_step (load_basic 4) (\<lambda>x. pw_btcTime_update (\<lambda>_. x)) (\<lambda>bs. pw_btcTime_update (cut_off 4 bs)) \<circ>
     proof_step (load_basic 32) (\<lambda>x. pw_btcHashMerkleRoot_update (\<lambda>_. x)) (\<lambda>bs. pw_btcHashMerkleRoot_update (cut_off 32 bs)) \<circ>
     proof_step (load_basic 32) (\<lambda>x. pw_btcHashPrevBlock_update (\<lambda>_. x)) (\<lambda>bs. pw_btcHashPrevBlock_update (cut_off 32 bs)) \<circ>
     proof_step (load_basic 4) (\<lambda>x. pw_btcVersion_update (\<lambda>_. x)) (\<lambda>bs. pw_btcVersion_update (cut_off 4 bs))"

definition proof_Load :: "CProofOfHashWorkCompact \<Rightarrow> u8 list \<Rightarrow> CProofOfHashWorkCompact" where
  "proof_Load p vchProof = fst
     ((proof_step (load_vector (load_basic 32)) (\<lambda>x. pw_trMerkleBranch_update (\<lambda>_. x)) (\<lambda>bs. pw_trMerkleBranch_update (\<lambda>_. [])) \<circ>
       proof_step (load_vector (load_basic 32)) (\<lambda>x. pw_auxMerkleBranch_update (\<lambda>_. x)) (\<lambda>bs. pw_auxMerkleBranch_update (\<lambda>_. [])) \<circ>
       proof_step load_bytes (\<lambda>x. pw_coinbase_update (\<lambda>_. x)) (\<lambda>bs. pw_coinbase_update (\<lambda>_. [])) \<circ>
       proof_step (load_basic 2) (\<lambda>x. pw_auxOffset_update (\<lambda>_. x)) (\<lambda>bs. pw_auxOffset_update (cut_off 2 bs)) \<circ>
       proof_load_pow) (p, Some vchProof))"

definition proof_SetBtcPow_bytes :: "CProofOfHashWorkCompact \<Rightarrow> u8 list \<Rightarrow> CProofOfHashWorkCompact" where
  "proof_SetBtcPow_bytes p vch = fst (proof_load_pow (p, Some vch))"

text \<open>Climbing a Merkle branch: the running hash is always the left operand.\<close>

definition merkle_climb :: "digest \<Rightarrow> uint256 list \<Rightarrow> uint256 \<Rightarrow> uint256" where
  "merkle_climb sha256 branch h =
     fold (\<lambda>obj res. CryptoSHA256D sha256 (le_bytes 32 res @ le_bytes 32 obj)) branch h"

definition proof_BuildCoinBase :: "digest \<Rightarrow> u8 list \<Rightarrow> u8 list \<Rightarrow> uint256 \<Rightarrow> uint256 list \<Rightarrow> u8 list \<times> uint256" where
  "proof_BuildCoinBase sha256 data1 data2 mam_pow auxBranch =
     (let mam_pow' = merkle_climb sha256 auxBranch mam_pow
      in (data1 @ le_bytes 32 mam_pow' @ data2, mam_pow'))"

definition proof_SetBtcPow :: "digest \<Rightarrow> CProofOfHashWorkCompact \<Rightarrow> u16 \<Rightarrow> u8 list \<Rightarrow> uint256 list \<Rightarrow> uint256 list \<Rightarrow> i32 \<Rightarrow> uint256 \<Rightarrow> u32 \<Rightarrow> CProofOfHashWorkCompact" where
  "proof_SetBtcPow sha256 p auxOffset coinbase auxMerkleBranch trMerkleBranch btcVersion btcHashPrevBlock btcBits =
     p\<lparr> pw_auxOffset := auxOffset, pw_coinbase := coinbase, pw_auxMerkleBranch := auxMerkleBranch,
        pw_trMerkleBranch := trMerkleBranch,
        pw_btcHashMerkleRoot := merkle_climb sha256 trMerkleBranch (CryptoSHA256D sha256 coinbase),
        pw_btcVersion := btcVersion, pw_btcHashPrevBlock := btcHashPrevBlock, pw_btcBits := btcBits,
        pw_btcNonce := 0 \<rparr>"

definition VerificationMerkleTree :: "digest \<Rightarrow> uint256 \<Rightarrow> uint256 \<Rightarrow> uint256 list \<Rightarrow> bool" where
  "VerificationMerkleTree sha256 root hash merkle_branch = (merkle_climb sha256 merkle_branch hash = root)"

section \<open>Merkle tree\<close>

text \<open>One level above a list of nodes; a last node without partner is paired with itself.\<close>

fun merkle_pair :: "(uint256 \<Rightarrow> uint256 \<Rightarrow> uint256) \<Rightarrow> uint256 list \<Rightarrow> uint256 list" where
  "merkle_pair h [] = []"
| "merkle_pair h [x] = [h x x]"
| "merkle_pair h (x # y # xs) = h x y # merkle_pair h xs"

lemma length_merkle_pair [simp]: "length (merkle_pair h xs) = (length xs + 1) div 2"
  by (induction h xs rule: merkle_pair.induct) simp_all

function merkle_root :: "(uint256 \<Rightarrow> uint256 \<Rightarrow> uint256) \<Rightarrow> uint256 list \<Rightarrow> uint256" where
  "merkle_root h xs = (if length xs > 1 then merkle_root h (merkle_pair h xs) else (if xs = [] then 0 else hd xs))"
  by auto
termination by (relation "measure (\<lambda>(h, xs). length xs)") auto

declare merkle_root.simps [simp del]

text \<open>The inner loop appends the next level.\<close>

lemma merkle_inner_pair:
  "j + length level \<le> length tree \<Longrightarrow> take (length level) (drop j tree) = level \<Longrightarrow>
   i \<le> length level \<Longrightarrow> even i \<Longrightarrow>
   merkle_inner h j (length level) i tree = tree @ merkle_pair h (drop i level)"
proof (induction h j "length level" i tree rule: merkle_inner.induct)
  case (1 h j i tree)
  have nth: "tree ! (j + k) = level ! k" if "k < length level" for k
    using that "1.prems"(1,2) by (metis add_leD1 nth_drop nth_take)
  show ?case
  proof (cases "i < length level")
    case True
    define i2 where "i2 = min (i + 1) (length level - 1)"
    have tail: "merkle_pair h (drop i level) = h (level ! i) (level ! i2) # merkle_pair h (drop (i + 2) level)"
    proof (cases "i + 1 < length level")
      case True
      then have "drop i level = level ! i # level ! (i + 1) # drop (i + 2) level"
        using \<open>i < length level\<close> by (simp add: Cons_nth_drop_Suc)
      then show ?thesis using True by (simp add: i2_def)
    next
      case False
      with True have "drop i level = [level ! i]" "i2 = i" "drop (i + 2) level = []"
        by (simp_all add: i2_def Cons_nth_drop_Suc [symmetric])
      then show ?thesis by simp
    qed
    let ?tree = "tree @ [h (tree ! (j + i)) (tree ! (j + i2))]"
    have "i + 2 \<le> length level \<or> i + 1 = length level" using True by linarith
    then have "merkle_inner h j (length level) (i + 2) ?tree = ?tree @ merkle_pair h (drop (i + 2) level)"
    proof
      assume "i + 2 \<le> length level"
      then show ?thesis using "1.hyps" [OF True i2_def] "1.prems" by simp
    next
      assume "i + 1 = length level"
      then show ?thesis by (simp add: merkle_inner.simps)
    qed
    moreover have "i2 < length level" using True by (auto simp: i2_def)
    ultimately show ?thesis
      using True nth tail by (subst merkle_inner.simps) (simp only: Let_def i2_def [symmetric] if_True, simp)
  next
    case False
    with "1.prems" show ?thesis by (subst merkle_inner.simps) simp
  qed
qed

text \<open>All levels in order, and the root of the last one.\<close>

function merkle_levels :: "(uint256 \<Rightarrow> uint256 \<Rightarrow> uint256) \<Rightarrow> uint256 list \<Rightarrow> uint256 list" where
  "merkle_levels h xs = (if length xs > 1 then xs @ merkle_levels h (merkle_pair h xs) else xs)"
  by auto
termination by (relation "measure (\<lambda>(h, xs). length xs)") auto

declare merkle_levels.simps [simp del]

lemma last_merkle_levels: "xs \<noteq> [] \<Longrightarrow> last (merkle_levels h xs) = merkle_root h xs \<and> merkle_levels h xs \<noteq> []"
proof (induction h xs rule: merkle_levels.induct)
  case (1 h xs)
  show ?case
  proof (cases "length xs > 1")
    case True
    then have "merkle_pair h xs \<noteq> []" by (cases xs; cases "tl xs") auto
    with 1 True show ?thesis by (simp add: merkle_levels.simps [of h xs] merkle_root.simps [of h xs])
  next
    case False
    with "1.prems" have "length xs = 1" by (cases xs) auto
    then show ?thesis by (auto simp: merkle_levels.simps [of h xs] merkle_root.simps [of h xs] length_Suc_conv)
  qed
qed

lemma merkle_outer_levels:
  "merkle_outer h (length pre) (length xs) (pre @ xs) = pre @ merkle_levels h xs"
proof (induction h xs arbitrary: pre rule: merkle_levels.induct)
  case (1 h xs)
  show ?case
  proof (cases "length xs > 1")
    case True
    then have "merkle_outer h (length pre) (length xs) (pre @ xs)
        = merkle_outer h (length (pre @ xs)) (length (merkle_pair h xs)) ((pre @ xs) @ merkle_pair h xs)"
      using merkle_inner_pair [of "length pre" xs "pre @ xs" 0 h]
      by (subst merkle_outer.simps) simp
    also have "\<dots> = (pre @ xs) @ merkle_levels h (merkle_pair h xs)" by (rule "1.IH" [OF True])
    finally show ?thesis using True by (simp add: merkle_levels.simps [of h xs])
  next
    case False
    then show ?thesis by (simp add: merkle_outer.simps merkle_levels.simps [of h xs])
  qed
qed

definition merkle_leaves :: "digest \<Rightarrow> 'z CBlock_scheme \<Rightarrow> uint256 list" where
  "merkle_leaves blake2b b = tx_GetHash blake2b (blk_txMint b) # map (tx_GetHash blake2b) (blk_vtx b)"

lemma build_merkle_tree:
  "block_BuildMerkleTree blake2b b =
     (merkle_levels (CryptoHash2 blake2b) (merkle_leaves blake2b b),
      merkle_root (CryptoHash2 blake2b) (merkle_leaves blake2b b))"
proof -
  let ?h = "CryptoHash2 blake2b" and ?xs = "merkle_leaves blake2b b"
  have "merkle_outer ?h 0 (length (blk_vtx b) + 1) ?xs = merkle_levels ?h ?xs"
    using merkle_outer_levels [of ?h "[]" ?xs] by (simp add: merkle_leaves_def)
  with last_merkle_levels [of ?xs ?h] show ?thesis
    by (simp add: block_BuildMerkleTree_def Let_def merkle_leaves_def)
qed

lemma merkle_pair_dup: "even (length xs) \<Longrightarrow> merkle_pair h (xs @ [x]) = merkle_pair h (xs @ [x, x])"
  by (induction h xs rule: merkle_pair.induct) simp_all

lemma merkle_root_dup: "even (length xs) \<Longrightarrow> xs \<noteq> [] \<Longrightarrow> merkle_root h (xs @ [x]) = merkle_root h (xs @ [x, x])"
  by (simp add: merkle_root.simps [of h "xs @ _"] merkle_pair_dup Suc_lessI)

section \<open>Properties of blocks and proofs\<close>

text \<open>
  C4: the array \<^verbatim>\<open>BuildMerkleTree\<close> fills is the sequence of the levels of the binary hash tree over the
  mint transaction and the transactions of the block, each level pairing the nodes below it and an
  odd last node with itself, and the value it returns is the root of that tree.
\<close>

theorem BuildMerkleTree_refines_tree:
  "block_BuildMerkleTree blake2b b =
     (merkle_levels (CryptoHash2 blake2b)
        (tx_GetHash blake2b (blk_txMint b) # map (tx_GetHash blake2b) (blk_vtx b)),
      merkle_root (CryptoHash2 blake2b)
        (tx_GetHash blake2b (blk_txMint b) # map (tx_GetHash blake2b) (blk_vtx b)))"
  using build_merkle_tree [of blake2b b] by (simp add: merkle_leaves_def)

text \<open>
  A block survives serialisation, and the transactions start at the offset that
  \<^verbatim>\<open>GetTxSerializedOffset\<close> announces: from there on the mint transaction can be loaded directly.
\<close>

theorem CBlock_round_trip:
  fixes b :: CBlock
  assumes "block_ok b"
  shows "load_CBlock (save_CBlock b @ rest) = Inr (b, rest)
    \<and> size_CBlock_ser b = length (save_CBlock b)
    \<and> load_CTransaction (drop (block_GetTxSerializedOffset b) (save_CBlock b))
        = Inr (blk_txMint b, save_vector save_CTransaction (blk_vtx b))"
proof -
  have "block_GetTxSerializedOffset b = length (save_block_header b)"
    by (simp add: block_GetTxSerializedOffset_def save_block_header_def bytes.ssize_save save_basic_def)
  then have "drop (block_GetTxSerializedOffset b) (save_CBlock b)
      = save_CTransaction (blk_txMint b) @ save_vector save_CTransaction (blk_vtx b)"
    by (simp add: save_CBlock_def)
  with assms show ?thesis
    using cblk.load_save [OF assms] cblk.ssize_save [of b] ctx.load_save [of "blk_txMint b"]
    by (simp add: block_ok_def)
qed

theorem CBlock_round_trip_witness:
  "load_CBlock (save_CBlock (block_SetNull\<lparr> blk_vchProof := [1, 2, 3], blk_vtx := [tx_SetNull] \<rparr>) @ [7])
     = Inr (block_SetNull\<lparr> blk_vchProof := [1, 2, 3], blk_vtx := [tx_SetNull] \<rparr>, [7])"
  using CBlock_round_trip [of "block_SetNull\<lparr> blk_vchProof := [1, 2, 3], blk_vtx := [tx_SetNull] \<rparr>" "[7]"]
  by (simp add: block_ok_def tx_ok_def fits_def block_SetNull_def tx_SetNull_def)

text \<open>
  Whatever the digest is, a block hash carries the height of its block, so the height of a
  primary block that points to the hash of another block is one more than the height of that block,
  and an extended block has the height of the block it extends.
\<close>

theorem block_hash_carries_height:
  "GetBlockHeightByHash (block_GetHash blake2b p) = block_GetBlockHeight p
   \<and> block_GetBlockHeight (b\<lparr> blk_nType := BLOCK_PRIMARY, blk_hashPrev := block_GetHash blake2b p \<rparr>)
       = block_GetBlockHeight p + 1
   \<and> block_GetBlockHeight (b\<lparr> blk_nType := BLOCK_EXTENDED, blk_hashPrev := block_GetHash blake2b p \<rparr>)
       = block_GetBlockHeight p"
  by (simp add: GetBlockHeightByHash_def block_GetHash_def block_GetBlockHeight_def block_IsGenesis_def
      block_IsExtended_def BLOCK_PRIMARY_def BLOCK_GENESIS_def BLOCK_EXTENDED_def)

lemma proof_step_ok: "ld bs = Inr (x, rest) \<Longrightarrow> proof_step ld upd failed (p, Some bs) = (upd x p, Some rest)"
  by (simp add: proof_step_def)

lemma proof_load_pow_save:
  "proof_load_pow (p0, Some (proof_GetBtcPow p @ rest)) =
     (p0\<lparr> pw_btcVersion := pw_btcVersion p, pw_btcHashPrevBlock := pw_btcHashPrevBlock p,
         pw_btcHashMerkleRoot := pw_btcHashMerkleRoot p, pw_btcTime := pw_btcTime p, pw_btcBits := pw_btcBits p,
         pw_btcNonce := pw_btcNonce p \<rparr>, Some rest)"
  by (simp add: proof_load_pow_def proof_GetBtcPow_def proof_step_ok basic_laws)

text \<open>
  Loading a saved proof gives the proof back whatever the object held before, and the 80-byte
  header that \<^verbatim>\<open>GetBtcPow\<close> writes is read back by \<^verbatim>\<open>SetBtcPow\<close>.
\<close>

theorem proof_Save_Load:
  assumes "fits (pw_coinbase p)" "fits (pw_auxMerkleBranch p)" "fits (pw_trMerkleBranch p)"
  shows "proof_Load p0 (proof_Save p) = p
    \<and> proof_SetBtcPow_bytes p (proof_GetBtcPow p) = p \<and> length (proof_GetBtcPow p) = 80"
proof -
  have "proof_load_pow (p0, Some (proof_Save p)) =
     (p0\<lparr> pw_btcVersion := pw_btcVersion p, pw_btcHashPrevBlock := pw_btcHashPrevBlock p,
         pw_btcHashMerkleRoot := pw_btcHashMerkleRoot p, pw_btcTime := pw_btcTime p, pw_btcBits := pw_btcBits p,
         pw_btcNonce := pw_btcNonce p \<rparr>, Some (save_basic 2 (pw_auxOffset p) @ save_bytes (pw_coinbase p) @
     save_vector (save_basic 32) (pw_auxMerkleBranch p) @ save_vector (save_basic 32) (pw_trMerkleBranch p)))"
    unfolding proof_Save_def by (rule proof_load_pow_save)
  then have "proof_Load p0 (proof_Save p) = p"
    using assms chashes.load_save_end [of "pw_trMerkleBranch p"]
    by (simp add: proof_Load_def proof_step_ok basic_laws chashes.load_save)
  moreover have "proof_SetBtcPow_bytes p (proof_GetBtcPow p) = p"
    using proof_load_pow_save [of p p "[]"] by (simp add: proof_SetBtcPow_bytes_def)
  ultimately show ?thesis by (simp add: proof_GetBtcPow_def save_basic_def)
qed

definition example_proof :: CProofOfHashWorkCompact where
  "example_proof = \<lparr> pw_btcVersion = 1, pw_btcHashPrevBlock = 2, pw_btcHashMerkleRoot = 3, pw_btcTime = 4,
     pw_btcBits = 5, pw_btcNonce = 6, pw_auxOffset = 0, pw_coinbase = [1, 2], pw_auxMerkleBranch = [7],
     pw_trMerkleBranch = [8, 9] \<rparr>"

theorem proof_Save_Load_witness:
  "proof_Load (example_proof\<lparr> pw_btcNonce := 99 \<rparr>) (proof_Save example_proof) = example_proof"
  using proof_Save_Load [of example_proof "example_proof\<lparr> pw_btcNonce := 99 \<rparr>"]
  by (simp add: example_proof_def fits_def)

lemma le_bytes_256_inject [simp]: "le_bytes 32 (a :: uint256) = le_bytes 32 b \<longleftrightarrow> a = b"
proof
  assume "le_bytes 32 a = le_bytes 32 b"
  then have "le_word (le_bytes 32 a) = (le_word (le_bytes 32 b) :: uint256)" by (rule arg_cong)
  then show "a = b" by simp
qed simp

text \<open>The messages that are hashed while a branch is climbed, two for each entry of the branch.\<close>

primrec climb_messages :: "digest \<Rightarrow> uint256 list \<Rightarrow> uint256 \<Rightarrow> u8 list list" where
  "climb_messages sha256 [] r = []"
| "climb_messages sha256 (x # branch) r =
     (let m = le_bytes 32 r @ le_bytes 32 x
      in m # le_bytes 32 (sha256 m) # climb_messages sha256 branch (CryptoSHA256D sha256 m))"

text \<open>
  C27: a Merkle branch binds its leaf: if one branch and one root verify for two different hashes, then
  among the messages hashed for the two there are two at the same position that differ and have the
  same SHA-256 digest, so the two verifications exhibit a collision of SHA-256.
\<close>

theorem merkle_branch_binding:
  assumes "VerificationMerkleTree sha256 root a branch" and "VerificationMerkleTree sha256 root b branch"
    and "a \<noteq> b"
  shows "\<exists>m m'. (m, m') \<in> set (zip (climb_messages sha256 branch a) (climb_messages sha256 branch b))
           \<and> m \<noteq> m' \<and> sha256 m = sha256 m'"
proof -
  have "merkle_climb sha256 branch a = merkle_climb sha256 branch b"
    using assms(1,2) by (simp add: VerificationMerkleTree_def)
  then show ?thesis using assms(3)
  proof (induction branch arbitrary: a b)
    case (Cons x branch)
    let ?m = "\<lambda>r. le_bytes 32 r @ le_bytes 32 x"
    show ?case
    proof (cases "CryptoSHA256D sha256 (?m a) = CryptoSHA256D sha256 (?m b)")
      case True
      show ?thesis
      proof (cases "sha256 (?m a) = sha256 (?m b)")
        case True
        with Cons.prems(2) show ?thesis by (intro exI [of _ "?m a"] exI [of _ "?m b"]) (simp add: Let_def)
      next
        case False
        with \<open>CryptoSHA256D sha256 (?m a) = CryptoSHA256D sha256 (?m b)\<close> show ?thesis
          by (intro exI [of _ "le_bytes 32 (sha256 (?m a))"] exI [of _ "le_bytes 32 (sha256 (?m b))"])
            (simp add: Let_def CryptoSHA256D_def)
      qed
    next
      case False
      with Cons.prems have "\<exists>m m'. (m, m') \<in> set (zip (climb_messages sha256 branch (CryptoSHA256D sha256 (?m a)))
          (climb_messages sha256 branch (CryptoSHA256D sha256 (?m b)))) \<and> m \<noteq> m' \<and> sha256 m = sha256 m'"
        by (intro Cons.IH) (simp_all add: merkle_climb_def)
      then show ?thesis by (auto simp: Let_def)
    qed
  qed (simp add: merkle_climb_def)
qed

theorem merkle_branch_binding_witness:
  "\<exists>m m'. (m, m') \<in> set (zip (climb_messages (\<lambda>_. 5) [2] 1) (climb_messages (\<lambda>_. 5) [2] 3)) \<and> m \<noteq> m'"
  using merkle_branch_binding [of "\<lambda>_. 5" 5 1 "[2]" 3]
  by (simp add: VerificationMerkleTree_def merkle_climb_def CryptoSHA256D_def)

text \<open>Every step back over the store goes to an entry that exists and is lower.\<close>

definition index_chain_wf :: "index_store \<Rightarrow> bool" where
  "index_chain_wf st = (\<forall>h i. st h = Some i \<longrightarrow> bi_phashBlock i = h \<and>
     (\<forall>p. bi_pPrev i = Some p \<longrightarrow> (\<exists>j. st p = Some j \<and> (bi_nType i = BLOCK_VACANT \<longrightarrow>
        index_GetBlockHeight j < index_GetBlockHeight i))))"

text \<open>The compared entry is reached from \<open>h\<close> by stepping back over vacant entries above it.\<close>

inductive vacant_path :: "index_store \<Rightarrow> CBlockIndex \<Rightarrow> uint256 \<Rightarrow> bool" for st cmp where
  vp_here: "vacant_path st cmp (bi_phashBlock cmp)" if "st (bi_phashBlock cmp) = Some i"
| vp_back: "vacant_path st cmp h" if "st h = Some i" "h \<noteq> bi_phashBlock cmp" "bi_nType i = BLOCK_VACANT"
    "index_GetBlockHeight cmp < index_GetBlockHeight i" "bi_pPrev i = Some p" "vacant_path st cmp p"

inductive_simps vacant_path_iff: "vacant_path st cmp h"

lemma IsEquivalent_from_correct:
  assumes "index_chain_wf st" "st h = Some i"
  shows "index_IsEquivalent_from st (Some h) cmp = Some (vacant_path st cmp h)"
  using assms(2)
proof (induction "nat (index_GetBlockHeight i - index_GetBlockHeight cmp)" arbitrary: h i rule: less_induct)
  case less
  show ?case
  proof (cases "h = bi_phashBlock cmp \<or> bi_nType i \<noteq> BLOCK_VACANT \<or> index_GetBlockHeight i \<le> index_GetBlockHeight cmp
      \<or> bi_pPrev i = None")
    case True
    then have "vacant_path st cmp h \<longleftrightarrow> h = bi_phashBlock cmp"
      using less.prems by (subst vacant_path_iff) auto
    with True less.prems show ?thesis
      by (subst index_IsEquivalent_from.simps) (auto simp: index_IsEquivalent_from.simps [of st None])
  next
    case False
    then obtain p where p: "bi_pPrev i = Some p" by blast
    with assms(1) less.prems False obtain j where j: "st p = Some j" "index_GetBlockHeight j < index_GetBlockHeight i"
      unfolding index_chain_wf_def by blast
    have "vacant_path st cmp h \<longleftrightarrow> vacant_path st cmp p"
      using False less.prems p by (subst vacant_path_iff) auto
    moreover have "index_IsEquivalent_from st (Some p) cmp = Some (vacant_path st cmp p)"
      using less.hyps [of j p] j False by simp
    ultimately show ?thesis
      using False less.prems p by (subst index_IsEquivalent_from.simps) auto
  qed
qed

text \<open>
  C26: on an index whose vacant entries have lower predecessors \<^verbatim>\<open>IsEquivalent\<close> always returns, and it
  returns true exactly when stepping back over vacant entries above the compared block reaches it.
\<close>

theorem IsEquivalent_decides:
  assumes "index_chain_wf st" and "st h = Some i" and "st c = Some cmp"
  shows "index_IsEquivalent st h (Some c) = Some (vacant_path st cmp h)"
  using IsEquivalent_from_correct [OF assms(1,2)] assms(3) by (simp add: index_IsEquivalent_def)

definition example_index :: "uint256 \<Rightarrow> uint256 option \<Rightarrow> u16 \<Rightarrow> u32 \<Rightarrow> CBlockIndex" where
  "example_index h prev ty height = \<lparr> bi_phashBlock = h, bi_pOrigin = 1, bi_pPrev = prev, bi_pNext = None,
     bi_txidMint = 0, bi_nMintType = 0, bi_destMint = dest_null, bi_nVersion = 2, bi_nType = ty,
     bi_nTimeStamp = 60 * height, bi_nHeight = height, bi_nRandBeacon = 0, bi_nChainTrust = 0, bi_nMoneySupply = 0,
     bi_nProofBits = 0, bi_nFile = 0, bi_nOffset = 0 \<rparr>"

theorem IsEquivalent_decides_witness:
  "index_IsEquivalent [1 \<mapsto> example_index 1 None 1 1, 2 \<mapsto> example_index 2 (Some 1) 8 2] 2 (Some 1) = Some True"
proof -
  let ?st = "[1 \<mapsto> example_index 1 None 1 1, 2 \<mapsto> example_index 2 (Some 1) 8 2]"
  have "vacant_path ?st (example_index 1 None 1 1) 2"
    by (rule vp_back [of _ _ "example_index 2 (Some 1) 8 2" _ 1],
        simp_all add: example_index_def BLOCK_VACANT_def index_GetBlockHeight_def)
      (rule vp_here [of _ "example_index 1 None 1 1", unfolded example_index_def, simplified], simp)
  moreover have "index_chain_wf ?st"
    by (auto simp: index_chain_wf_def example_index_def index_GetBlockHeight_def BLOCK_VACANT_def split: if_splits)
  ultimately show ?thesis
    using IsEquivalent_decides [of ?st 2 "example_index 2 (Some 1) 8 2" 1 "example_index 1 None 1 1"] by simp
qed

end
