(* ===== verification/Core_Difficulty.thy ===== *)
theory Core_Difficulty
  imports Ledger_Block
begin

text \<open>
  Proof of work and rewards of \<^verbatim>\<open>CCoreProtocol\<close> (\<^verbatim>\<open>src/src/minemon/core.cpp\<close>) with the constants of
  \<^verbatim>\<open>src/src/common/param.h\<close>: chain trust, difficulty retargeting, verification of a merged-mined proof,
  block rewards and pledge limits.  \<open>testnet\<close> is the flag \<^verbatim>\<open>TESTNET_FLAG\<close>.  Targets are limb arrays, so
  the formulas use the operators of \<^verbatim>\<open>uint256\<close> as the source does.
\<close>

section \<open>Constants\<close>

definition GET_PARAM :: "bool \<Rightarrow> 'a \<Rightarrow> 'a \<Rightarrow> 'a" where
  "GET_PARAM testnet mainnet_param testnet_param = (if testnet then testnet_param else mainnet_param)"

definition COIN :: int where "COIN = 1000000"
definition CENT :: int where "CENT = 10000"
definition MIN_TX_FEE :: int where "MIN_TX_FEE = CENT"
definition MAX_MONEY :: int where "MAX_MONEY = 1000000000000 * COIN"
definition MAX_REWARD_MONEY :: int where "MAX_REWARD_MONEY = 10000 * COIN"
definition MAX_BLOCK_SIZE :: nat where "MAX_BLOCK_SIZE = 2000000"
definition MAX_TX_SIZE :: nat where "MAX_TX_SIZE = MAX_BLOCK_SIZE div 20"
definition MAX_SIGNATURE_SIZE :: nat where "MAX_SIGNATURE_SIZE = 2048"
definition MAX_TX_INPUT_COUNT :: nat where "MAX_TX_INPUT_COUNT = (MAX_TX_SIZE - MAX_SIGNATURE_SIZE - 4) div 33"
definition BLOCK_TARGET_SPACING :: u64 where "BLOCK_TARGET_SPACING = 60"
definition MAX_CLOCK_DRIFT :: int where "MAX_CLOCK_DRIFT = 80"

definition MoneyRange :: "int \<Rightarrow> bool" where
  "MoneyRange nValue = (nValue \<ge> 0 \<and> nValue \<le> MAX_MONEY)"

definition RewardRange :: "int \<Rightarrow> bool" where
  "RewardRange nValue = (nValue \<ge> 0 \<and> nValue \<le> MAX_REWARD_MONEY)"

definition PROOF_OF_WORK_BITS_LOWER_LIMIT :: "bool \<Rightarrow> nat" where
  "PROOF_OF_WORK_BITS_LOWER_LIMIT testnet = GET_PARAM testnet 45 8"
definition PROOF_OF_WORK_BITS_UPPER_LIMIT :: nat where "PROOF_OF_WORK_BITS_UPPER_LIMIT = 200"
definition PROOF_OF_WORK_BITS_INIT :: "bool \<Rightarrow> nat" where
  "PROOF_OF_WORK_BITS_INIT testnet = GET_PARAM testnet 50 20"
definition PROOF_OF_WORK_DIFFICULTY_INTERVAL :: "bool \<Rightarrow> u32" where
  "PROOF_OF_WORK_DIFFICULTY_INTERVAL testnet = GET_PARAM testnet 2880 2880"

definition BPX_INIT_REWARD_TOKEN :: int where "BPX_INIT_REWARD_TOKEN = 0 * COIN"
definition BPX_INIT_BLOCK_REWARD_TOKEN :: int where "BPX_INIT_BLOCK_REWARD_TOKEN = 100 * COIN"
definition BPX_REWARD_HALVE_HEIGHT :: int where "BPX_REWARD_HALVE_HEIGHT = 60 * 24 * 365 * 2"
definition BPX_POW_REWARD_RATE :: int where "BPX_POW_REWARD_RATE = 382"
definition BPX_TOTAL_REWARD_RATE :: int where "BPX_TOTAL_REWARD_RATE = 1000"
definition BPX_MIN_PLEDGE_COIN :: int where "BPX_MIN_PLEDGE_COIN = 100 * COIN"

section \<open>Limits and trust\<close>

text \<open>
  The constructor passes the two limits through the compact encoding.  \<open>compacted\<close> is that
  \<^verbatim>\<open>SetCompact(GetCompact())\<close>; the failed assertion of \<^verbatim>\<open>GetCompact\<close> cannot occur, as
  \<open>compact_floor_exists\<close> shows, and is the unchanged value here.
\<close>

definition compacted :: "base_uint \<Rightarrow> base_uint" where
  "compacted pn = (case uint_GetCompact pn False of None \<Rightarrow> pn | Some c \<Rightarrow> fst (uint_SetCompact c))"

definition pow_all_ones :: base_uint where
  "pow_all_ones = uint_compl (uint_of_u64 8 0)"

definition nProofOfWorkLowerLimit :: "bool \<Rightarrow> base_uint" where
  "nProofOfWorkLowerLimit testnet = compacted (uint_shr pow_all_ones (PROOF_OF_WORK_BITS_LOWER_LIMIT testnet))"

definition nProofOfWorkUpperLimit :: base_uint where
  "nProofOfWorkUpperLimit = compacted (uint_shr pow_all_ones PROOF_OF_WORK_BITS_UPPER_LIMIT)"

definition nProofOfWorkInit :: "bool \<Rightarrow> base_uint" where
  "nProofOfWorkInit testnet = uint_shr pow_all_ones (PROOF_OF_WORK_BITS_INIT testnet)"

definition GetBlockTrust :: "'z CBlock_scheme \<Rightarrow> base_uint option" where
  "GetBlockTrust block =
     (if \<not> block_IsPrimary block then None
      else if \<not> block_IsProofOfWork block then None
      else let nTarget = fst (uint_SetCompact (blk_nBits block))
           in Some (uint_add64 (uint_div (uint_compl nTarget) (uint_add64 nTarget 1)) 1))"

section \<open>Retargeting\<close>

text \<open>The loop that follows \<^verbatim>\<open>pPrev\<close> until the pointer is null or \<open>n\<close> steps are done.\<close>

primrec index_walk :: "index_store \<Rightarrow> nat \<Rightarrow> uint256 option \<Rightarrow> uint256 option" where
  "index_walk st 0 p = p"
| "index_walk st (Suc n) p =
     (case p of None \<Rightarrow> None
      | Some h \<Rightarrow> (case st h of None \<Rightarrow> None | Some i \<Rightarrow> index_walk st n (bi_pPrev i)))"

text \<open>The new target from the previous one and the time the interval took.\<close>

definition retarget_clamp :: "u64 \<Rightarrow> u64 \<Rightarrow> u64" where
  "retarget_clamp nTargetTimespan nActualTimespan =
     (let a1 = (if nActualTimespan < nTargetTimespan div 4 then nTargetTimespan div 4 else nActualTimespan)
      in if a1 > nTargetTimespan * 4 then nTargetTimespan * 4 else a1)"

definition retarget_scale :: "u64 \<Rightarrow> u64 \<Rightarrow> base_uint \<Rightarrow> base_uint" where
  "retarget_scale nTargetTimespan nActualTimespan newBits =
     (if uint_ge newBits (uint_of_u64 8 nTargetTimespan)
      then uint_mul32 (uint_div newBits (uint_of_u64 8 nTargetTimespan)) (ucast nActualTimespan)
      else uint_div (uint_mul32 newBits (ucast nActualTimespan)) (uint_of_u64 8 nTargetTimespan))"

definition retarget_limit :: "bool \<Rightarrow> base_uint \<Rightarrow> base_uint" where
  "retarget_limit testnet newBits =
     (let b1 = (if uint_lt newBits nProofOfWorkUpperLimit then nProofOfWorkUpperLimit else newBits)
      in if uint_gt b1 (nProofOfWorkLowerLimit testnet) then nProofOfWorkLowerLimit testnet else b1)"

definition retarget_bits :: "bool \<Rightarrow> CBlockIndex \<Rightarrow> CBlockIndex \<Rightarrow> base_uint" where
  "retarget_bits testnet pIndexPrev pIndexFirst =
     (let nActualTimespan = of_int (index_GetBlockTime pIndexPrev - index_GetBlockTime pIndexFirst);
          nTargetTimespan = ucast (PROOF_OF_WORK_DIFFICULTY_INTERVAL testnet) * BLOCK_TARGET_SPACING;
          nActual = retarget_clamp nTargetTimespan nActualTimespan;
          newBits = fst (uint_SetCompact (bi_nProofBits pIndexPrev))
      in retarget_limit testnet (retarget_scale nTargetTimespan nActual newBits))"

definition GetProofOfWorkTarget :: "bool \<Rightarrow> index_store \<Rightarrow> CBlockIndex \<Rightarrow> u32 option" where
  "GetProofOfWorkTarget testnet st pIndexPrev =
     (let interval = PROOF_OF_WORK_DIFFICULTY_INTERVAL testnet in
      if bi_nHeight pIndexPrev = 0 then uint_GetCompact (nProofOfWorkInit testnet) False
      else if (bi_nHeight pIndexPrev + 1) mod interval \<noteq> 0 then Some (bi_nProofBits pIndexPrev)
      else case index_walk st (unat interval - 1) (Some (bi_phashBlock pIndexPrev)) of
             None \<Rightarrow> None
           | Some hFirst \<Rightarrow> (case st hFirst of None \<Rightarrow> None | Some pIndexFirst \<Rightarrow>
               if bi_nHeight pIndexFirst \<noteq> bi_nHeight pIndexPrev - (interval - 1) then None
               else if bi_phashBlock pIndexPrev = hFirst then None
               else if index_GetBlockTime pIndexPrev < index_GetBlockTime pIndexFirst then None
               else uint_GetCompact (retarget_bits testnet pIndexPrev pIndexFirst) False))"

section \<open>Rewards and pledge limits\<close>

text \<open>
  The halving divisor is computed in floating point and cast to \<^verbatim>\<open>int64\<close>; from exponent 63 on the
  cast is out of range, which is \<open>None\<close> here.
\<close>

definition GetMintWorkReward :: "int \<Rightarrow> int option" where
  "GetMintWorkReward nHeight =
     (if nHeight < 1 then Some 0
      else let k = nat ((nHeight - 1) div BPX_REWARD_HALVE_HEIGHT)
           in if k < 63 then Some (BPX_INIT_BLOCK_REWARD_TOKEN div 2 ^ k) else None)"

definition GetBlockPowReward :: "int \<Rightarrow> int option" where
  "GetBlockPowReward nHeight =
     map_option (\<lambda>r. r * BPX_POW_REWARD_RATE div BPX_TOTAL_REWARD_RATE) (GetMintWorkReward nHeight)"

definition GetBlockPledgeReward :: "int \<Rightarrow> int option" where
  "GetBlockPledgeReward nHeight =
     map_option (\<lambda>r. r * (BPX_TOTAL_REWARD_RATE - BPX_POW_REWARD_RATE) div BPX_TOTAL_REWARD_RATE)
       (GetMintWorkReward nHeight)"

function mint_total_loop :: "int \<Rightarrow> int \<Rightarrow> int \<Rightarrow> int" where
  "mint_total_loop nTotalReward nSectReward nCalcHeight =
     (if nCalcHeight > 0
      then if nCalcHeight < BPX_REWARD_HALVE_HEIGHT then nTotalReward + nSectReward * nCalcHeight
           else mint_total_loop (nTotalReward + nSectReward * BPX_REWARD_HALVE_HEIGHT) (nSectReward div 2)
                  (nCalcHeight - BPX_REWARD_HALVE_HEIGHT)
      else nTotalReward)"
  by auto
termination
  by (relation "measure (\<lambda>(t, s, c). nat c)") (auto simp: BPX_REWARD_HALVE_HEIGHT_def)

definition GetMintTotalReward :: "int \<Rightarrow> int" where
  "GetMintTotalReward nHeight = mint_total_loop 0 BPX_INIT_BLOCK_REWARD_TOKEN nHeight"

function stake_min_loop :: "int \<Rightarrow> int \<Rightarrow> int \<Rightarrow> int" where
  "stake_min_loop nStakeMinPledge nSectValue nCalcHeight =
     (if nCalcHeight > 0
      then stake_min_loop (nStakeMinPledge + nSectValue) (nSectValue div 2) (nCalcHeight - BPX_REWARD_HALVE_HEIGHT)
      else nStakeMinPledge)"
  by auto
termination
  by (relation "measure (\<lambda>(t, s, c). nat c)") (auto simp: BPX_REWARD_HALVE_HEIGHT_def)

declare mint_total_loop.simps [simp del] stake_min_loop.simps [simp del]

text \<open>The three limits: minimum pledge for mining, minimum stake, maximum pledge.\<close>

definition GetBlockPledgeMinMaxValue :: "uint256 \<Rightarrow> uint256 \<Rightarrow> int \<Rightarrow> int \<times> int \<times> int" where
  "GetBlockPledgeMinMaxValue hashGenesisBlock hashPrevBlock nMoneySupply =
     (if hashPrevBlock = hashGenesisBlock
      then (BPX_MIN_PLEDGE_COIN, BPX_INIT_BLOCK_REWARD_TOKEN, BPX_MIN_PLEDGE_COIN * 100)
      else let p = cdiv nMoneySupply 10000;
               nPowMinPledge = (if p < BPX_MIN_PLEDGE_COIN then BPX_MIN_PLEDGE_COIN else p);
               nMaxPledge = (if p < BPX_MIN_PLEDGE_COIN then BPX_MIN_PLEDGE_COIN * 100 else cdiv nMoneySupply 100);
               nCalcHeight = sint (GetBlockHeightByHash hashPrevBlock + 1)
           in (nPowMinPledge, stake_min_loop 0 BPX_INIT_BLOCK_REWARD_TOKEN nCalcHeight, nMaxPledge))"

definition GetPledgeMinMaxValue :: "(uint256 \<Rightarrow> int) \<Rightarrow> uint256 \<Rightarrow> uint256 \<Rightarrow> (int \<times> int \<times> int) option" where
  "GetPledgeMinMaxValue getBlockMoneySupply hashGenesisBlock hashPrevBlock =
     (let nMoneySupply = getBlockMoneySupply hashPrevBlock
      in if nMoneySupply < 0 then None
         else Some (GetBlockPledgeMinMaxValue hashGenesisBlock hashPrevBlock nMoneySupply))"

section \<open>Proof-of-work verification\<close>

text \<open>The error codes of \<^verbatim>\<open>src/src/minemon/error.h\<close>.\<close>

datatype Errno =
    FAILED
  | OK
  | ERR_UNAVAILABLE
  | ERR_NOT_FOUND
  | ERR_ALREADY_HAVE
  | ERR_MISSING_PREV
  | ERR_SYS_DATABASE_ERROR
  | ERR_SYS_OUT_OF_DISK_SPACE
  | ERR_SYS_STORAGE_ERROR
  | ERR_SYS_OUT_OF_MEMORY
  | ERR_BLOCK_TYPE_INVALID
  | ERR_BLOCK_OVERSIZE
  | ERR_BLOCK_PROOF_OF_WORK_INVALID
  | ERR_BLOCK_PROOF_OF_STAKE_INVALID
  | ERR_BLOCK_TIMESTAMP_OUT_OF_RANGE
  | ERR_BLOCK_COINBASE_INVALID
  | ERR_BLOCK_COINSTAKE_INVALID
  | ERR_BLOCK_TRANSACTIONS_INVALID
  | ERR_BLOCK_DUPLICATED_TRANSACTION
  | ERR_BLOCK_SIGOPCOUNT_OUT_OF_BOUND
  | ERR_BLOCK_TXHASH_MISMATCH
  | ERR_BLOCK_SIGNATURE_INVALID
  | ERR_BLOCK_INVALID_FORK
  | ERR_BLOCK_CERTTX_OUT_OF_BOUND
  | ERR_TRANSACTION_INVALID
  | ERR_TRANSACTION_OVERSIZE
  | ERR_TRANSACTION_OUTPUT_INVALID
  | ERR_TRANSACTION_INPUT_INVALID
  | ERR_TRANSACTION_TIMESTAMP_INVALID
  | ERR_TRANSACTION_NOT_ENOUGH_FEE
  | ERR_TRANSACTION_STAKE_REWARD_INVALID
  | ERR_TRANSACTION_SIGNATURE_INVALID
  | ERR_TRANSACTION_CONFLICTING_INPUT
  | ERR_TRANSACTION_TOO_MANY_CERTTX
  | ERR_WALLET_INVALID_AMOUNT
  | ERR_WALLET_INSUFFICIENT_FUNDS
  | ERR_WALLET_SIGNATURE_FAILED
  | ERR_WALLET_TX_OVERSIZE
  | ERR_WALLET_NOT_FOUND
  | ERR_WALLET_IS_LOCKED
  | ERR_WALLET_IS_UNLOCKED
  | ERR_WALLET_IS_ENCRYPTED
  | ERR_WALLET_IS_UNENCRYPTED
  | ERR_WALLET_FAILED
  | ERR_MAX_COUNT

text \<open>
  The 32 bytes at \<^verbatim>\<open>auxOffset\<close> of the coinbase are taken without a look at its length; \<open>None\<close> is the read
  past its end.
\<close>

definition coinbase_root :: "CProofOfHashWorkCompact \<Rightarrow> uint256 option" where
  "coinbase_root p =
     (let off = unat (pw_auxOffset p)
      in if length (pw_coinbase p) < off + 32 then None
         else Some (le_word (rev (take 32 (drop off (pw_coinbase p))))))"

text \<open>
  \<open>p0\<close> is what the uninitialised proof object holds.  The result \<open>None\<close> is the undefined read of
  \<open>coinbase_root\<close>.
\<close>

definition VerifyProofOfWork :: "digest \<Rightarrow> CProofOfHashWorkCompact \<Rightarrow> bool \<Rightarrow> index_store \<Rightarrow> 'z CBlock_scheme \<Rightarrow> CBlockIndex \<Rightarrow> Errno option" where
  "VerifyProofOfWork sha256 p0 testnet st block pIndexPrev =
     (if block_GetBlockTime block < index_GetBlockTime pIndexPrev then Some ERR_BLOCK_TIMESTAMP_OUT_OF_RANGE
      else case GetProofOfWorkTarget testnet st pIndexPrev of
             None \<Rightarrow> Some ERR_BLOCK_PROOF_OF_WORK_INVALID
           | Some nBits \<Rightarrow>
               if nBits \<noteq> blk_nBits block then Some ERR_BLOCK_PROOF_OF_WORK_INVALID
               else let (hashTarget, fNegative, fOverflow) = uint_SetCompact nBits in
               if fNegative \<or> uint_eq64 hashTarget 0 \<or> fOverflow \<or> uint_lt hashTarget nProofOfWorkUpperLimit
                  \<or> uint_gt hashTarget (nProofOfWorkLowerLimit testnet) then Some ERR_BLOCK_PROOF_OF_WORK_INVALID
               else if length (blk_vchProof block) > PROOFHASHWORK_SIZE then Some ERR_BLOCK_PROOF_OF_WORK_INVALID
               else let proof = proof_Load p0 (blk_vchProof block) in
               if blk_nTimeStamp block \<noteq> pw_btcTime proof then Some ERR_BLOCK_PROOF_OF_WORK_INVALID
               else let pow_hash = sha256 (save_basic 2 (blk_nVersion block) @ save_basic 2 (blk_nType block) @
                          save_basic 32 (blk_hashPrev block) @ save_basic 32 (blk_hashMerkle block) @ save_basic 4 nBits) in
               case coinbase_root proof of
                 None \<Rightarrow> None
               | Some merkle_root' \<Rightarrow>
                   if \<not> VerificationMerkleTree sha256 merkle_root' pow_hash (pw_auxMerkleBranch proof)
                   then Some ERR_BLOCK_PROOF_OF_WORK_INVALID
                   else if \<not> VerificationMerkleTree sha256 (pw_btcHashMerkleRoot proof)
                          (CryptoSHA256D sha256 (pw_coinbase proof)) (pw_trMerkleBranch proof)
                   then Some ERR_BLOCK_PROOF_OF_WORK_INVALID
                   else let hash = CryptoSHA256D sha256 (proof_GetBtcPow proof) in
                   if uint_ge (u256_limbs hash) hashTarget then Some ERR_BLOCK_PROOF_OF_WORK_INVALID
                   else Some OK)"

section \<open>Values of the limits\<close>

lemma length_compacted [simp]: "length pn = 8 \<Longrightarrow> length (compacted pn) = 8"
  by (simp add: compacted_def uint_SetCompact_val(2) split: option.split)

lemma compacted_val:
  assumes "length pn = 8" "compact_exp (limbs_val pn) j"
  shows "limbs_val (compacted pn) = limbs_val pn div 256 ^ j * 256 ^ j"
proof -
  obtain c i where c: "uint_GetCompact pn False = Some c" "compact_exp (limbs_val pn) i"
    "limbs_val (fst (uint_SetCompact c)) = limbs_val pn div 256 ^ i * 256 ^ i"
    using compact_floor_exists [OF assms(1)] by blast
  have "limbs_val pn div 256 ^ i * 256 ^ i = limbs_val pn div 256 ^ j * 256 ^ j"
    using compact_exp_mono [OF c(2) assms(2)] compact_exp_mono [OF assms(2) c(2)] by (simp add: le_antisym)
  with c show ?thesis by (simp add: compacted_def)
qed

lemma compacted_mono:
  assumes "length a = 8" "length b = 8" "limbs_val a \<le> limbs_val b"
  shows "limbs_val (compacted a) \<le> limbs_val (compacted b)"
proof -
  obtain i where "compact_exp (limbs_val a) i" using compact_floor_exists [OF assms(1)] by blast
  moreover obtain j where "compact_exp (limbs_val b) j" using compact_floor_exists [OF assms(2)] by blast
  ultimately show ?thesis using compacted_val compact_exp_mono assms by simp
qed

lemma compacted_idem:
  assumes "length a = 8"
  shows "compacted (compacted a) = compacted a"
  using compact_floor_exists [OF assms] by (auto simp: compacted_def)

lemma pow_all_ones_shr:
  "limbs_val (uint_shr pow_all_ones n) = (2 ^ 256 - 1) div 2 ^ n" and length_pow_all_ones [simp]: "length pow_all_ones = 8"
  by (simp_all add: pow_all_ones_def uint_shr_val uint_compl_val uint_of_u64_val)

lemma limits_length [simp]:
  "length nProofOfWorkUpperLimit = 8" "length (nProofOfWorkLowerLimit testnet) = 8" "length (nProofOfWorkInit testnet) = 8"
  by (simp_all add: nProofOfWorkUpperLimit_def nProofOfWorkLowerLimit_def nProofOfWorkInit_def pow_all_ones_shr)

lemma limits_fixed:
  "compacted nProofOfWorkUpperLimit = nProofOfWorkUpperLimit"
  "compacted (nProofOfWorkLowerLimit testnet) = nProofOfWorkLowerLimit testnet"
  by (simp_all add: nProofOfWorkUpperLimit_def nProofOfWorkLowerLimit_def compacted_idem pow_all_ones_shr)

lemma upper_limit_val: "limbs_val nProofOfWorkUpperLimit = (2 ^ 16 - 1) * 2 ^ 40"
proof -
  have v: "limbs_val (uint_shr pow_all_ones PROOF_OF_WORK_BITS_UPPER_LIMIT) = 2 ^ 56 - 1"
    by (simp add: pow_all_ones_shr PROOF_OF_WORK_BITS_UPPER_LIMIT_def)
  have "compact_exp (2 ^ 56 - 1) 5" by (simp add: compact_exp_def)
  then show ?thesis
    unfolding nProofOfWorkUpperLimit_def by (subst compacted_val [where j = 5]) (simp_all only: v, simp_all)
qed

lemma limits_ordered:
  "limbs_val nProofOfWorkUpperLimit \<le> limbs_val (nProofOfWorkLowerLimit testnet)"
  unfolding nProofOfWorkUpperLimit_def nProofOfWorkLowerLimit_def
  by (rule compacted_mono)
    (simp_all add: pow_all_ones_shr PROOF_OF_WORK_BITS_UPPER_LIMIT_def PROOF_OF_WORK_BITS_LOWER_LIMIT_def GET_PARAM_def)

lemma init_in_limits:
  "limbs_val nProofOfWorkUpperLimit \<le> limbs_val (nProofOfWorkInit testnet)"
  "limbs_val (compacted (nProofOfWorkInit testnet)) \<le> limbs_val (nProofOfWorkLowerLimit testnet)"
proof -
  show "limbs_val nProofOfWorkUpperLimit \<le> limbs_val (nProofOfWorkInit testnet)"
    by (simp add: upper_limit_val nProofOfWorkInit_def pow_all_ones_shr PROOF_OF_WORK_BITS_INIT_def GET_PARAM_def)
  show "limbs_val (compacted (nProofOfWorkInit testnet)) \<le> limbs_val (nProofOfWorkLowerLimit testnet)"
    unfolding nProofOfWorkInit_def nProofOfWorkLowerLimit_def
    by (rule compacted_mono)
      (simp_all add: pow_all_ones_shr PROOF_OF_WORK_BITS_INIT_def PROOF_OF_WORK_BITS_LOWER_LIMIT_def GET_PARAM_def)
qed

text \<open>The test on the target that \<open>VerifyProofOfWork\<close> makes.\<close>

definition target_in_limits :: "bool \<Rightarrow> u32 \<Rightarrow> bool" where
  "target_in_limits testnet nBits =
     (let (hashTarget, fNegative, fOverflow) = uint_SetCompact nBits
      in \<not> (fNegative \<or> uint_eq64 hashTarget 0 \<or> fOverflow \<or> uint_lt hashTarget nProofOfWorkUpperLimit
            \<or> uint_gt hashTarget (nProofOfWorkLowerLimit testnet)))"

lemma GetCompact_in_limits:
  assumes "length pn = 8" "uint_GetCompact pn False = Some c"
    "limbs_val nProofOfWorkUpperLimit \<le> limbs_val pn"
    "limbs_val (compacted pn) \<le> limbs_val (nProofOfWorkLowerLimit testnet)"
  shows "target_in_limits testnet c"
proof -
  have flags: "\<not> fst (snd (uint_SetCompact c))" "\<not> snd (snd (uint_SetCompact c))"
    using compact_floor_exists [OF assms(1)] assms(2) by auto
  have t: "fst (uint_SetCompact c) = compacted pn" using assms(2) by (simp add: compacted_def)
  have "limbs_val nProofOfWorkUpperLimit \<le> limbs_val (compacted pn)"
    using compacted_mono [OF _ assms(1,3)] by (simp add: limits_fixed)
  moreover from this have "limbs_val (compacted pn) \<noteq> 0" using upper_limit_val by simp
  ultimately show ?thesis
    using flags assms(1,4) t
    by (simp add: target_in_limits_def case_prod_unfold uint_eq64_val uint_lt_val uint_gt_val)
qed

lemma compacted_le: "length pn = 8 \<Longrightarrow> limbs_val (compacted pn) \<le> limbs_val pn"
  using compact_floor_exists [of pn] by (auto simp: compacted_def)

lemma retarget_limit_range:
  assumes "length b = 8"
  shows "length (retarget_limit testnet b) = 8"
    and "limbs_val nProofOfWorkUpperLimit \<le> limbs_val (retarget_limit testnet b)"
    and "limbs_val (retarget_limit testnet b) \<le> limbs_val (nProofOfWorkLowerLimit testnet)"
  using assms limits_ordered [of testnet]
  by (auto simp: retarget_limit_def Let_def uint_lt_val uint_gt_val)

lemma length_retarget_scale [simp]: "length b = 8 \<Longrightarrow> length (retarget_scale t a b) = 8"
  by (simp add: retarget_scale_def uint_div_val)

lemma retarget_bits_range:
  "length (retarget_bits testnet p f) = 8"
  "limbs_val nProofOfWorkUpperLimit \<le> limbs_val (retarget_bits testnet p f)"
  "limbs_val (retarget_bits testnet p f) \<le> limbs_val (nProofOfWorkLowerLimit testnet)"
  by (simp_all add: retarget_bits_def Let_def retarget_limit_range uint_SetCompact_val(2))

lemma GetProofOfWorkTarget_cases:
  assumes "GetProofOfWorkTarget testnet st p = Some nBits"
  shows "uint_GetCompact (nProofOfWorkInit testnet) False = Some nBits
    \<or> bi_nHeight p \<noteq> 0 \<and> nBits = bi_nProofBits p
    \<or> (\<exists>first. uint_GetCompact (retarget_bits testnet p first) False = Some nBits)"
proof (cases "bi_nHeight p = 0 \<or> (bi_nHeight p + 1) mod PROOF_OF_WORK_DIFFICULTY_INTERVAL testnet \<noteq> 0")
  case True
  with assms show ?thesis by (simp add: GetProofOfWorkTarget_def Let_def split: if_split_asm)
next
  case False
  with assms show ?thesis
    by (simp add: GetProofOfWorkTarget_def Let_def split: option.split_asm if_split_asm) blast
qed

text \<open>
  C2: the targets the chain demands stay inside the consensus limits: after the genesis block, and
  whenever the previous block's target passes the range test of the proof-of-work check, the target
  \<^verbatim>\<open>GetProofOfWorkTarget\<close> demands next passes it too, at every retarget.
\<close>

theorem demanded_target_in_limits:
  assumes "GetProofOfWorkTarget testnet st pIndexPrev = Some nBits"
    and "bi_nHeight pIndexPrev = 0 \<or> target_in_limits testnet (bi_nProofBits pIndexPrev)"
  shows "target_in_limits testnet nBits"
proof -
  consider (init) "uint_GetCompact (nProofOfWorkInit testnet) False = Some nBits"
    | (keep) "bi_nHeight pIndexPrev \<noteq> 0" "nBits = bi_nProofBits pIndexPrev"
    | (adjust) first where "uint_GetCompact (retarget_bits testnet pIndexPrev first) False = Some nBits"
    using GetProofOfWorkTarget_cases [OF assms(1)] by blast
  then show ?thesis
  proof cases
    case init
    then show ?thesis by (rule GetCompact_in_limits [rotated]) (simp_all add: init_in_limits)
  next
    case keep
    with assms(2) show ?thesis by simp
  next
    case adjust
    then show ?thesis
      using GetCompact_in_limits [OF _ adjust] retarget_bits_range [of testnet pIndexPrev first]
        compacted_le [of "retarget_bits testnet pIndexPrev first"] by simp
  qed
qed

theorem demanded_target_in_limits_witness:
  "\<exists>nBits. GetProofOfWorkTarget False (\<lambda>_. None) (example_index 1 None BLOCK_GENESIS 0) = Some nBits
     \<and> target_in_limits False nBits"
proof -
  obtain c where c: "uint_GetCompact (nProofOfWorkInit False) False = Some c"
    using compact_floor_exists [of "nProofOfWorkInit False"] by auto
  then have "GetProofOfWorkTarget False (\<lambda>_. None) (example_index 1 None BLOCK_GENESIS 0) = Some c"
    by (simp add: GetProofOfWorkTarget_def example_index_def)
  then show ?thesis
    using demanded_target_in_limits [of False "\<lambda>_. None" "example_index 1 None BLOCK_GENESIS 0" c]
    by (simp add: example_index_def)
qed

text \<open>
  The trust of a proof-of-work block with a non-zero target is \<open>2 ^ 256 div (target + 1)\<close>, the value
  the comment in the code claims for the closed form it computes.
\<close>

theorem block_trust_value:
  assumes "block_IsPrimary block" and "block_IsProofOfWork block"
    and "limbs_val (fst (uint_SetCompact (blk_nBits block))) > 0"
  shows "\<exists>t. GetBlockTrust block = Some t \<and> length t = 8
    \<and> limbs_val t = 2 ^ 256 div (limbs_val (fst (uint_SetCompact (blk_nBits block))) + 1)"
  using assms u256.inverse_closed_form [of "fst (uint_SetCompact (blk_nBits block))"] uint_SetCompact_val(2)
  by (simp add: GetBlockTrust_def Let_def)

theorem block_trust_value_witness:
  "\<exists>t. GetBlockTrust (block_SetNull\<lparr> blk_nType := BLOCK_PRIMARY, blk_txMint := tx_SetNull\<lparr> tx_nType := TX_WORK \<rparr>,
       blk_nBits := 0x0300ffff \<rparr>) = Some t \<and> limbs_val t = 2 ^ 256 div 65536"
proof -
  let ?b = "block_SetNull\<lparr> blk_nType := BLOCK_PRIMARY, blk_txMint := tx_SetNull\<lparr> tx_nType := TX_WORK \<rparr>, blk_nBits := 0x0300ffff \<rparr>"
  have "limbs_val (fst (uint_SetCompact 0x0300ffff)) = 65535"
    by (simp add: uint_SetCompact_val compact_num_def)
  then show ?thesis
    using block_trust_value [of ?b]
    by (auto simp: block_IsPrimary_def type_IsPrimary_def BLOCK_PRIMARY_def block_IsProofOfWork_def)
qed

lemma target_timespan_val: "ucast (PROOF_OF_WORK_DIFFICULTY_INTERVAL testnet) * BLOCK_TARGET_SPACING = 172800"
  by (simp add: PROOF_OF_WORK_DIFFICULTY_INTERVAL_def GET_PARAM_def BLOCK_TARGET_SPACING_def)

lemma retarget_clamp_range:
  "43200 \<le> unat (retarget_clamp 172800 a)" "unat (retarget_clamp 172800 a) \<le> 691200"
  by (auto simp: retarget_clamp_def Let_def word_less_nat_alt)

lemma lower_limit_less: "limbs_val (nProofOfWorkLowerLimit testnet) < 2 ^ 248"
proof -
  have "limbs_val (nProofOfWorkLowerLimit testnet)
      \<le> limbs_val (uint_shr pow_all_ones (PROOF_OF_WORK_BITS_LOWER_LIMIT testnet))"
    unfolding nProofOfWorkLowerLimit_def by (rule compacted_le) simp
  also have "\<dots> < 2 ^ 248"
    by (simp add: pow_all_ones_shr PROOF_OF_WORK_BITS_LOWER_LIMIT_def GET_PARAM_def)
  finally show ?thesis .
qed

lemma retarget_scale_bounds:
  assumes "length b = 8" "limbs_val b < 2 ^ 248" "43200 \<le> unat a" "unat a \<le> 691200"
  shows "limbs_val (retarget_scale 172800 a b) \<le> 4 * limbs_val b
    \<and> limbs_val b < 4 * limbs_val (retarget_scale 172800 a b) + 172800"
proof -
  let ?T = "uint_of_u64 8 172800" and ?m = "ucast a :: u32" and ?b = "limbs_val b"
  have T: "limbs_val ?T = 172800" "length ?T = 8" by (simp_all add: uint_of_u64_val)
  have m: "unat ?m = unat a" using assms(4) by (simp only: unat_ucast_u32) simp
  have le: "?b * unat a \<le> ?b * 691200" using assms(4) by (rule mult_le_mono2)
  show ?thesis
  proof (cases "172800 \<le> ?b")
    case True
    then have "retarget_scale 172800 a b = uint_mul32 (uint_div b ?T) ?m"
      using assms(1) T by (simp add: retarget_scale_def uint_ge_val)
    moreover have "?b * 691200 < 2 ^ 256 * 172800" using assms(2) by simp
    then have "?b * unat ?m < 2 ^ 256 * limbs_val ?T" using le unfolding T m by linarith
    ultimately have v: "limbs_val (retarget_scale 172800 a b) = ?b div 172800 * unat a"
      and up: "limbs_val (retarget_scale 172800 a b) * 172800 \<le> ?b * unat a"
      using u256.scale_bound [of b ?T ?m] assms(1) T m True by simp_all
    have "?b div 172800 * 43200 \<le> ?b div 172800 * unat a" using assms(3) by (rule mult_le_mono2)
    moreover have "?b mod 172800 < 172800" by simp
    then have "?b < ?b div 172800 * 172800 + 172800" using div_mult_mod_eq [of ?b 172800] by linarith
    ultimately show ?thesis using up le v by linarith
  next
    case False
    then have v0: "retarget_scale 172800 a b = uint_div (uint_mul32 b ?m) ?T"
      using assms(1) T by (simp add: retarget_scale_def uint_ge_val)
    have "?b * 691200 < 2 ^ 256" using False by simp
    then have "?b * unat a < 2 ^ 256" using le by linarith
    then have v: "limbs_val (retarget_scale 172800 a b) = ?b * unat a div 172800"
      using assms(1) T m by (simp add: v0 uint_div_val uint_mul32_val)
    have "?b * 43200 \<le> ?b * unat a" using assms(3) by (rule mult_le_mono2)
    then have "?b * 43200 div 172800 \<le> ?b * unat a div 172800" "?b * unat a div 172800 \<le> ?b * 691200 div 172800"
      using le by (simp_all only: div_le_mono)
    then show ?thesis using False v by simp
  qed
qed

text \<open>
  One retarget changes the target by at most a factor of four: however long the interval took, the
  scaled target is at most four times the old one, and four times the scaled target is short of the
  old one by less than the length of the interval in seconds.
\<close>

theorem retarget_factor_four:
  assumes "target_in_limits testnet c"
  shows "limbs_val (retarget_scale 172800 (retarget_clamp 172800 nActual) (fst (uint_SetCompact c)))
      \<le> 4 * limbs_val (fst (uint_SetCompact c))
    \<and> limbs_val (fst (uint_SetCompact c))
      < 4 * limbs_val (retarget_scale 172800 (retarget_clamp 172800 nActual) (fst (uint_SetCompact c))) + 172800
    \<and> ucast (PROOF_OF_WORK_DIFFICULTY_INTERVAL testnet) * BLOCK_TARGET_SPACING = 172800"
proof -
  have "limbs_val (fst (uint_SetCompact c)) < 2 ^ 248"
    using assms lower_limit_less [of testnet] uint_SetCompact_val(2) [of c]
    by (simp add: target_in_limits_def case_prod_unfold Let_def uint_gt_val)
  then show ?thesis
    using retarget_scale_bounds [OF uint_SetCompact_val(2)] retarget_clamp_range target_timespan_val by blast
qed

theorem retarget_factor_four_witness:
  "\<exists>c. target_in_limits False c
     \<and> limbs_val (retarget_scale 172800 (retarget_clamp 172800 0) (fst (uint_SetCompact c))) \<le> 4 * limbs_val (fst (uint_SetCompact c))"
proof -
  obtain c where c: "uint_GetCompact (nProofOfWorkInit False) False = Some c"
    using compact_floor_exists [of "nProofOfWorkInit False"] by auto
  then have "target_in_limits False c" by (rule GetCompact_in_limits [rotated]) (simp_all add: init_in_limits)
  then show ?thesis using retarget_factor_four [of False c 0] by blast
qed

section \<open>Rewards\<close>

abbreviation halve :: int where "halve \<equiv> BPX_REWARD_HALVE_HEIGHT"

lemma halve_pos [simp]: "0 < halve"
  by (simp add: BPX_REWARD_HALVE_HEIGHT_def)

lemma sum_shift_int:
  fixes f :: "int \<Rightarrow> int"
  assumes "0 \<le> a" "a \<le> c"
  shows "(\<Sum>h \<in> {1..c}. f h) = (\<Sum>h \<in> {1..a}. f h) + (\<Sum>h \<in> {1..c - a}. f (h + a))"
proof -
  have "{1..c} = {1..a} \<union> {a + 1..c}" using assms by auto
  then have "(\<Sum>h \<in> {1..c}. f h) = (\<Sum>h \<in> {1..a}. f h) + (\<Sum>h \<in> {a + 1..c}. f h)"
    by (simp add: sum.union_disjoint)
  also have "(\<Sum>h \<in> {a + 1..c}. f h) = (\<Sum>h \<in> {1..c - a}. f (h + a))"
    by (rule sum.reindex_bij_witness [of _ "\<lambda>h. h + a" "\<lambda>h. h - a"]) auto
  finally show ?thesis .
qed

definition reward_at :: "nat \<Rightarrow> int \<Rightarrow> int" where
  "reward_at k h = BPX_INIT_BLOCK_REWARD_TOKEN div 2 ^ (k + nat ((h - 1) div halve))"

lemma reward_at_first: "1 \<le> h \<Longrightarrow> h \<le> halve \<Longrightarrow> reward_at k h = BPX_INIT_BLOCK_REWARD_TOKEN div 2 ^ k"
  by (simp add: reward_at_def div_pos_pos_trivial)

lemma reward_at_next: "1 \<le> h \<Longrightarrow> reward_at k (h + halve) = reward_at (Suc k) h"
proof -
  assume "1 \<le> h"
  have "(h + halve - 1) div halve = (h - 1 + 1 * halve) div halve" by (simp add: algebra_simps)
  also have "\<dots> = (h - 1) div halve + 1" using div_mult_self1 [of halve "h - 1" 1] halve_pos by linarith
  finally show ?thesis
    using \<open>1 \<le> h\<close> by (simp add: reward_at_def nat_add_distrib pos_imp_zdiv_nonneg_iff)
qed

lemma sum_reward_first:
  "0 \<le> c \<Longrightarrow> c \<le> halve \<Longrightarrow> (\<Sum>h \<in> {1..c}. reward_at k h) = BPX_INIT_BLOCK_REWARD_TOKEN div 2 ^ k * c"
  by (subst sum.cong [OF refl, of _ _ "\<lambda>_. BPX_INIT_BLOCK_REWARD_TOKEN div 2 ^ k"]) (simp_all add: reward_at_first)

lemma mint_total_loop_sum:
  "mint_total_loop t (BPX_INIT_BLOCK_REWARD_TOKEN div 2 ^ k) c = t + (\<Sum>h \<in> {1..c}. reward_at k h)"
proof (induction "nat c" arbitrary: t k c rule: less_induct)
  case less
  let ?R = "BPX_INIT_BLOCK_REWARD_TOKEN div 2 ^ k"
  consider "c \<le> 0" | "0 < c" "c < halve" | "halve \<le> c" by linarith
  then show ?case
  proof cases
    case 1
    then show ?thesis by (simp add: mint_total_loop.simps)
  next
    case 2
    then show ?thesis by (simp add: mint_total_loop.simps sum_reward_first)
  next
    case 3
    have pos: "0 < c" using 3 halve_pos by (rule less_le_trans [rotated])
    have half: "?R div 2 = BPX_INIT_BLOCK_REWARD_TOKEN div 2 ^ Suc k"
      by (simp add: power_Suc2 zdiv_zmult2_eq del: power_Suc)
    have "mint_total_loop t ?R c = mint_total_loop (t + ?R * halve) (?R div 2) (c - halve)"
    proof -
      have "\<not> c < halve" using 3 by simp
      with pos show ?thesis by (subst mint_total_loop.simps) simp
    qed
    also have "\<dots> = t + ?R * halve + (\<Sum>h \<in> {1..c - halve}. reward_at (Suc k) h)"
      unfolding half using pos by (intro less.hyps) simp
    also have "(\<Sum>h \<in> {1..c - halve}. reward_at (Suc k) h) = (\<Sum>h \<in> {1..c - halve}. reward_at k (h + halve))"
      by (rule sum.cong) (simp_all add: reward_at_next)
    also have "t + ?R * halve + \<dots> = t + (\<Sum>h \<in> {1..c}. reward_at k h)"
      using 3 sum_shift_int [of halve c "reward_at k"] sum_reward_first [of halve k] less_imp_le [OF halve_pos] by simp
    finally show ?thesis .
  qed
qed

lemma GetMintWorkReward_at:
  "1 \<le> h \<Longrightarrow> h \<le> 63 * halve \<Longrightarrow> GetMintWorkReward h = Some (reward_at 0 h)"
proof -
  assume h: "1 \<le> h" "h \<le> 63 * halve"
  then have "(h - 1) div halve \<le> (63 * halve - 1) div halve" by (intro zdiv_mono1) simp_all
  also have "\<dots> < 63" by (simp add: BPX_REWARD_HALVE_HEIGHT_def)
  finally have "(h - 1) div halve < 63" .
  moreover have "0 \<le> (h - 1) div halve" using h by (simp add: pos_imp_zdiv_nonneg_iff)
  ultimately show ?thesis using h by (simp add: GetMintWorkReward_def Let_def reward_at_def)
qed

text \<open>
  The total reward that \<^verbatim>\<open>GetMintTotalReward\<close> computes section by section is the sum of the rewards
  of the single blocks that \<^verbatim>\<open>GetMintWorkReward\<close> gives, for every height up to 63 halvings (about 126
  years of blocks).
\<close>

theorem total_reward_is_sum_of_block_rewards:
  assumes "nHeight \<le> 63 * BPX_REWARD_HALVE_HEIGHT"
  shows "Some (GetMintTotalReward nHeight) = Some (\<Sum>h \<in> {1..nHeight}. the (GetMintWorkReward h))
    \<and> (\<forall>h. h \<le> nHeight \<longrightarrow> GetMintWorkReward h \<noteq> None)"
proof -
  have "(\<Sum>h \<in> {1..nHeight}. the (GetMintWorkReward h)) = (\<Sum>h \<in> {1..nHeight}. reward_at 0 h)"
    by (rule sum.cong) (use assms in \<open>auto simp: GetMintWorkReward_at\<close>)
  moreover have "GetMintTotalReward nHeight = (\<Sum>h \<in> {1..nHeight}. reward_at 0 h)"
    using mint_total_loop_sum [of 0 0 nHeight] by (simp add: GetMintTotalReward_def)
  moreover have "GetMintWorkReward h \<noteq> None" if "h \<le> nHeight" for h
  proof (cases "1 \<le> h")
    case True
    then show ?thesis using GetMintWorkReward_at that assms by simp
  next
    case False
    then show ?thesis by (simp add: GetMintWorkReward_def)
  qed
  ultimately show ?thesis by simp
qed

theorem total_reward_witness:
  "GetMintTotalReward 2 = 200000000"
proof -
  have "GetMintTotalReward 2 = (\<Sum>h \<in> {1..2}. the (GetMintWorkReward h))"
    using total_reward_is_sum_of_block_rewards [of 2] by (simp add: BPX_REWARD_HALVE_HEIGHT_def)
  also have "{1..2} = {1, 2 :: int}" by auto
  finally show ?thesis
    by (simp add: GetMintWorkReward_def BPX_REWARD_HALVE_HEIGHT_def BPX_INIT_BLOCK_REWARD_TOKEN_def COIN_def)
qed

text \<open>
  The reward of a block is split between miner and pledgers without creating coins, and at most
  one unit is lost by rounding.
\<close>

theorem reward_split:
  assumes "GetMintWorkReward nHeight = Some r"
  shows "\<exists>p q. GetBlockPowReward nHeight = Some p \<and> GetBlockPledgeReward nHeight = Some q
    \<and> 0 \<le> p \<and> 0 \<le> q \<and> p + q \<le> r \<and> r \<le> p + q + 1"
proof -
  have "0 \<le> r" using assms
    by (auto simp: GetMintWorkReward_def Let_def BPX_INIT_BLOCK_REWARD_TOKEN_def COIN_def pos_imp_zdiv_nonneg_iff
        split: if_splits)
  define p q where "p = r * 382 div 1000" and "q = r * 618 div 1000"
  have "0 \<le> p" "0 \<le> q" using \<open>0 \<le> r\<close> by (simp_all add: p_def q_def)
  moreover have "p * 1000 + r * 382 mod 1000 = r * 382" "q * 1000 + r * 618 mod 1000 = r * 618"
    unfolding p_def q_def by (rule div_mult_mod_eq)+
  moreover have "0 \<le> r * 382 mod 1000" "r * 382 mod 1000 < 1000" "0 \<le> r * 618 mod 1000" "r * 618 mod 1000 < 1000"
    by simp_all
  ultimately have "0 \<le> p \<and> 0 \<le> q \<and> p + q \<le> r \<and> r \<le> p + q + 1" by linarith
  then show ?thesis
    using assms by (simp add: GetBlockPowReward_def GetBlockPledgeReward_def BPX_POW_REWARD_RATE_def
        BPX_TOTAL_REWARD_RATE_def p_def q_def)
qed

theorem reward_split_witness: "\<exists>p q. GetBlockPowReward 5 = Some p \<and> GetBlockPledgeReward 5 = Some q \<and> p + q \<le> 100000000"
  using reward_split [of 5 100000000]
  by (auto simp: GetMintWorkReward_def BPX_REWARD_HALVE_HEIGHT_def BPX_INIT_BLOCK_REWARD_TOKEN_def COIN_def)

lemma stake_min_loop_bound:
  "0 \<le> v \<Longrightarrow> t \<le> stake_min_loop t v c \<and> stake_min_loop t v c \<le> t + 2 * v"
proof (induction t v c rule: stake_min_loop.induct)
  case (1 t v c)
  show ?case
  proof (cases "c > 0")
    case True
    from 1 True have "t + v \<le> stake_min_loop (t + v) (v div 2) (c - halve)
        \<and> stake_min_loop (t + v) (v div 2) (c - halve) \<le> t + v + 2 * (v div 2)" by simp
    moreover have "2 * (v div 2) \<le> v" using mult_div_mod_eq [of 2 v] pos_mod_sign [of 2 v] by linarith
    moreover have "stake_min_loop t v c = stake_min_loop (t + v) (v div 2) (c - halve)"
      using True by (subst stake_min_loop.simps) simp
    ultimately show ?thesis using "1.prems" by linarith
  next
    case False
    with "1.prems" show ?thesis by (simp add: stake_min_loop.simps)
  qed
qed

lemma pledge_limits_bounds:
  assumes "GetPledgeMinMaxValue getBlockMoneySupply hashGenesis hashPrev = Some (pmin, smin, pmax)"
  shows "0 \<le> getBlockMoneySupply hashPrev" "BPX_MIN_PLEDGE_COIN \<le> pmin" "pmin * 100 \<le> pmax"
    "0 \<le> smin" "smin \<le> 2 * BPX_INIT_BLOCK_REWARD_TOKEN"
    "pmax \<le> max (BPX_MIN_PLEDGE_COIN * 100) (getBlockMoneySupply hashPrev div 100)"
proof -
  let ?s = "getBlockMoneySupply hashPrev"
  have "?s div 10000 * 100 \<le> ?s div 100"
  proof -
    have "?s div 10000 = ?s div 100 div 100" by (simp add: zdiv_zmult2_eq [symmetric])
    moreover have "?s div 100 div 100 * 100 + ?s div 100 mod 100 = ?s div 100" by (rule div_mult_mod_eq)
    moreover have "0 \<le> ?s div 100 mod 100" by simp
    ultimately show ?thesis by linarith
  qed
  moreover have "0 \<le> BPX_INIT_BLOCK_REWARD_TOKEN" by (simp add: BPX_INIT_BLOCK_REWARD_TOKEN_def COIN_def)
  moreover have s: "0 \<le> ?s" and eq: "GetBlockPledgeMinMaxValue hashGenesis hashPrev ?s = (pmin, smin, pmax)"
    using assms by (auto simp: GetPledgeMinMaxValue_def Let_def split: if_splits)
  moreover have "stake_min_loop 0 BPX_INIT_BLOCK_REWARD_TOKEN c \<le> 2 * BPX_INIT_BLOCK_REWARD_TOKEN"
      "0 \<le> stake_min_loop 0 BPX_INIT_BLOCK_REWARD_TOKEN c" for c
    using stake_min_loop_bound [of BPX_INIT_BLOCK_REWARD_TOKEN 0 c] by (simp_all add: BPX_INIT_BLOCK_REWARD_TOKEN_def COIN_def)
  ultimately show "BPX_MIN_PLEDGE_COIN \<le> pmin" "pmin * 100 \<le> pmax" "0 \<le> smin" "smin \<le> 2 * BPX_INIT_BLOCK_REWARD_TOKEN"
      "pmax \<le> max (BPX_MIN_PLEDGE_COIN * 100) (?s div 100)"
    by (cases "hashPrev = hashGenesis"; force simp: GetBlockPledgeMinMaxValue_def Let_def)+
  show "0 \<le> ?s" by (rule s)
qed

text \<open>
  For every money supply that is not negative the pledge limits are consistent: the minimum pledge
  for mining is at least \<open>BPX_MIN_PLEDGE_COIN\<close>, the maximum is at least a hundred times the minimum, and
  the minimum stake is at most twice the initial block reward.
\<close>

theorem pledge_limits_consistent:
  assumes "getBlockMoneySupply hashPrev \<ge> 0"
  shows "\<exists>pmin smin pmax. GetPledgeMinMaxValue getBlockMoneySupply hashGenesis hashPrev = Some (pmin, smin, pmax)
    \<and> BPX_MIN_PLEDGE_COIN \<le> pmin \<and> pmin * 100 \<le> pmax \<and> 0 \<le> smin \<and> smin \<le> 2 * BPX_INIT_BLOCK_REWARD_TOKEN"
proof -
  obtain pmin smin pmax where "GetPledgeMinMaxValue getBlockMoneySupply hashGenesis hashPrev = Some (pmin, smin, pmax)"
    using assms by (cases "GetPledgeMinMaxValue getBlockMoneySupply hashGenesis hashPrev") (auto simp: GetPledgeMinMaxValue_def Let_def)
  with pledge_limits_bounds [OF this] show ?thesis by blast
qed

theorem pledge_limits_consistent_witness:
  "\<exists>pmin smin pmax. GetPledgeMinMaxValue (\<lambda>_. 5000000000000) 0 1 = Some (pmin, smin, pmax) \<and> pmin * 100 \<le> pmax"
  using pledge_limits_consistent [of "\<lambda>_. 5000000000000" 1 0] by auto

text \<open>
  C3: a proof that \<^verbatim>\<open>VerifyProofOfWork\<close> accepts is work on this block: the demanded target is the one in
  the block and inside the limits, the double hash of the parent-chain header in the proof is below
  it, that header commits to the coinbase, and the coinbase commits to the block's own header.
\<close>

theorem VerifyProofOfWork_sound:
  assumes "VerifyProofOfWork sha256 p0 testnet st block pIndexPrev = Some OK"
  defines "p \<equiv> proof_Load p0 (blk_vchProof block)"
  shows "GetProofOfWorkTarget testnet st pIndexPrev = Some (blk_nBits block)
    \<and> target_in_limits testnet (blk_nBits block)
    \<and> index_GetBlockTime pIndexPrev \<le> block_GetBlockTime block \<and> pw_btcTime p = blk_nTimeStamp block
    \<and> unat (CryptoSHA256D sha256 (proof_GetBtcPow p)) < limbs_val (fst (uint_SetCompact (blk_nBits block)))
    \<and> merkle_climb sha256 (pw_trMerkleBranch p) (CryptoSHA256D sha256 (pw_coinbase p)) = pw_btcHashMerkleRoot p
    \<and> coinbase_root p = Some (merkle_climb sha256 (pw_auxMerkleBranch p) (sha256 (block_GetSerializedProofOfWorkData block)))"
proof -
  have bits: "GetProofOfWorkTarget testnet st pIndexPrev = Some (blk_nBits block)"
    using assms(1) by (auto simp: VerifyProofOfWork_def split: if_splits option.splits)
  have "uint_ge (u256_limbs h) t \<longleftrightarrow> limbs_val t \<le> unat h" if "length t = 8" for h t
    using that by (simp add: uint_ge_val)
  moreover have "sha256 (save_basic 2 (blk_nVersion block) @ save_basic 2 (blk_nType block) @
      save_basic 32 (blk_hashPrev block) @ save_basic 32 (blk_hashMerkle block) @ save_basic 4 (blk_nBits block))
      = sha256 (block_GetSerializedProofOfWorkData block)"
    by (simp add: block_GetSerializedProofOfWorkData_def)
  ultimately show ?thesis
    using assms(1) bits uint_SetCompact_val(2) [of "blk_nBits block"]
    by (simp add: VerifyProofOfWork_def Let_def case_prod_unfold p_def [symmetric] target_in_limits_def
        VerificationMerkleTree_def not_less split: if_split_asm option.split_asm)
qed

definition example_work :: CProofOfHashWorkCompact where
  "example_work = \<lparr> pw_btcVersion = 1, pw_btcHashPrevBlock = 0, pw_btcHashMerkleRoot = 0, pw_btcTime = 60,
     pw_btcBits = 0, pw_btcNonce = 0, pw_auxOffset = 0, pw_coinbase = replicate 32 0, pw_auxMerkleBranch = [],
     pw_trMerkleBranch = [] \<rparr>"

definition example_work_block :: "u32 \<Rightarrow> CBlock" where
  "example_work_block nBits = block_SetNull\<lparr> blk_nType := BLOCK_PRIMARY, blk_nTimeStamp := 60, blk_nBits := nBits,
     blk_vchProof := proof_Save example_work \<rparr>"

lemma example_work_load: "proof_Load p0 (proof_Save example_work) = example_work"
proof -
  let ?p = example_work
  have f: "fits (pw_coinbase ?p)" "fits (pw_auxMerkleBranch ?p)" "fits (pw_trMerkleBranch ?p)"
    by (simp_all add: example_work_def fits_def)
  show ?thesis
    using f chashes.load_save_end [of "pw_trMerkleBranch ?p"]
    by (simp add: proof_Load_def proof_Save_def proof_load_pow_save proof_step_ok basic_laws chashes.load_save)
qed

theorem VerifyProofOfWork_sound_witness:
  "\<exists>nBits. VerifyProofOfWork (\<lambda>_. 0) example_proof False (\<lambda>_. None) (example_work_block nBits) (example_index 1 None BLOCK_GENESIS 0) = Some OK
     \<and> target_in_limits False nBits"
proof -
  let ?i = "example_index 1 None BLOCK_GENESIS 0"
  obtain c where c: "uint_GetCompact (nProofOfWorkInit False) False = Some c"
    using compact_floor_exists [of "nProofOfWorkInit False"] by auto
  then have t: "target_in_limits False c" by (rule GetCompact_in_limits [rotated]) (simp_all add: init_in_limits)
  have g: "GetProofOfWorkTarget False (\<lambda>_. None) ?i = Some c"
    using c by (simp add: GetProofOfWorkTarget_def example_index_def)
  have cb: "coinbase_root example_work = Some 0"
    by (simp add: coinbase_root_def example_work_def numeral_eq_Suc)
  have sz: "length (proof_Save example_work) \<le> PROOFHASHWORK_SIZE"
    by (simp add: proof_Save_def proof_GetBtcPow_def save_basic_def save_bytes_def save_vector_def
        size_varint_save [symmetric] size_varint_def PROOFHASHWORK_SIZE_def example_work_def)
  have "0 < limbs_val (fst (uint_SetCompact c))"
    using t uint_SetCompact_val(2) [of c] by (simp add: target_in_limits_def case_prod_unfold Let_def uint_eq64_val)
  then have "VerifyProofOfWork (\<lambda>_. 0) example_proof False (\<lambda>_. None) (example_work_block c) ?i = Some OK"
    using t g cb sz uint_SetCompact_val(2) [of c]
    by (simp add: VerifyProofOfWork_def target_in_limits_def case_prod_unfold Let_def example_work_block_def
        example_work_load uint_ge_val VerificationMerkleTree_def merkle_climb_def CryptoSHA256D_def block_GetBlockTime_def
        index_GetBlockTime_def example_index_def)
      (simp add: example_work_def)
  with VerifyProofOfWork_sound [OF this] show ?thesis by (auto simp: example_work_block_def)
qed

end
