(* ===== verification/Core_Validate.thy ===== *)
theory Core_Validate
  imports Core_Difficulty
begin

text \<open>
  The context-free checks of \<^verbatim>\<open>minemon/core.cpp\<close>: \<^verbatim>\<open>ValidateTransaction\<close> and
  \<^verbatim>\<open>ValidateBlock\<close>.  Network time is the parameter \<open>nNetTime\<close>.  The log output of \<^verbatim>\<open>DEBUG\<close>
  is dropped; it returns the code it is given.
\<close>

section \<open>Transactions\<close>

text \<open>The loop over the inputs; \<open>setInOutPoints\<close> holds the out points seen so far.\<close>

primrec validate_inputs :: "CTxOutPoint set \<Rightarrow> CTxIn list \<Rightarrow> Errno" where
  "validate_inputs setInOutPoints [] = OK"
| "validate_inputs setInOutPoints (txin # vInput) =
     (if outpoint_IsNull (prevout txin) \<or> op_n (prevout txin) > 1 then ERR_TRANSACTION_INPUT_INVALID
      else if prevout txin \<in> setInOutPoints then ERR_TRANSACTION_INPUT_INVALID
      else validate_inputs (insert (prevout txin) setInOutPoints) vInput)"

definition ValidateTransaction :: "'z CTransaction_scheme \<Rightarrow> Errno" where
  "ValidateTransaction tx =
     (if tx_IsMintTx tx then ERR_TRANSACTION_INVALID
      else if dest_IsNull (tx_sendTo tx) then ERR_TRANSACTION_OUTPUT_INVALID
      else if \<not> MoneyRange (sint (tx_nAmount tx)) then ERR_TRANSACTION_OUTPUT_INVALID
      else let err = validate_inputs {} (tx_vInput tx) in
           if err \<noteq> OK then err
           else if size_CTransaction_ser tx > MAX_TX_SIZE then ERR_TRANSACTION_OVERSIZE
           else OK)"

section \<open>Blocks\<close>

text \<open>
  \<^verbatim>\<open>setTx\<close> is filled with the first \<^verbatim>\<open>vtx.size()\<close> entries of the Merkle array.
\<close>

definition ValidateBlock :: "digest \<Rightarrow> int \<Rightarrow> CBlock \<Rightarrow> Errno" where
  "ValidateBlock blake2b nNetTime block =
     (if block_GetBlockTime block > nNetTime + MAX_CLOCK_DRIFT then ERR_BLOCK_TIMESTAMP_OUT_OF_RANGE
      else if \<not> tx_IsMintTx (blk_txMint block) then ERR_BLOCK_TRANSACTIONS_INVALID
      else if size_CBlock_ser block > MAX_BLOCK_SIZE then ERR_BLOCK_OVERSIZE
      else if blk_nType block = BLOCK_ORIGIN \<and> blk_vtx block \<noteq> [] then ERR_BLOCK_TRANSACTIONS_INVALID
      else let (vMerkleTree, root) = block_BuildMerkleTree blake2b block in
           if blk_hashMerkle block \<noteq> root then ERR_BLOCK_TXHASH_MISMATCH
           else if card (set (take (length (blk_vtx block)) vMerkleTree)) \<noteq> length (blk_vtx block)
                then ERR_BLOCK_DUPLICATED_TRANSACTION
           else if \<exists>tx\<in>set (blk_vtx block). \<not> tx_IsMintTx tx \<and> ValidateTransaction tx \<noteq> OK
                then ERR_BLOCK_TRANSACTIONS_INVALID
           else OK)"

section \<open>What the checks accept\<close>

lemma validate_inputs_OK:
  "validate_inputs S vInput = OK \<longleftrightarrow>
     distinct vInput \<and> (\<forall>i\<in>set vInput. prevout i \<notin> S \<and> op_n (prevout i) \<le> 1)"
proof (induction vInput arbitrary: S)
  case (Cons i vInput)
  have null: "outpoint_IsNull p \<Longrightarrow> op_n p > 1" for p
    by (simp add: outpoint_IsNull_def) code_simp
  have "prevout j \<noteq> prevout i \<longleftrightarrow> j \<noteq> i" for j by (cases j; cases i) simp
  then show ?case using null [of "prevout i"] by (auto simp: Cons.IH not_less)
qed simp

lemma validate_inputs_error: "validate_inputs S vInput \<noteq> OK \<Longrightarrow> validate_inputs S vInput = ERR_TRANSACTION_INPUT_INVALID"
  by (induction vInput arbitrary: S) (auto split: if_splits)

lemma size_tx_length: "size_CTransaction_ser tx = length (save_CTransaction tx)"
  by (simp add: size_CTransaction_ser_def save_CTransaction_def save_tx_body_def basic_sizes
      cdest.ssize_save ctxins.ssize_save)

text \<open>
  C29: \<^verbatim>\<open>ValidateTransaction\<close> returns \<open>OK\<close> exactly for the transactions that are no mint transactions,
  pay an amount within the money range to an address that is not null, spend pairwise different
  outputs numbered 0 or 1, and are not larger than \<open>MAX_TX_SIZE\<close>; in every other case it names the
  first rule that is broken.
\<close>

theorem ValidateTransaction_decides:
  "ValidateTransaction tx =
     (if tx_IsMintTx tx then ERR_TRANSACTION_INVALID
      else if dest_IsNull (tx_sendTo tx) \<or> sint (tx_nAmount tx) < 0 \<or> sint (tx_nAmount tx) > MAX_MONEY
           then ERR_TRANSACTION_OUTPUT_INVALID
      else if distinct (tx_vInput tx) \<and> list_all (\<lambda>i. op_n (prevout i) \<in> {0, 1}) (tx_vInput tx)
           then if length (save_CTransaction tx) > MAX_TX_SIZE then ERR_TRANSACTION_OVERSIZE else OK
      else ERR_TRANSACTION_INPUT_INVALID)"
proof -
  have u8: "(n :: u8) \<le> 1 \<longleftrightarrow> n \<in> {0, 1}" for n
    unfolding word_le_nat_alt word_unat_eq_iff insert_iff by (simp add: word_unat_eq_iff) linarith
  have "validate_inputs {} (tx_vInput tx) = OK \<longleftrightarrow>
      distinct (tx_vInput tx) \<and> list_all (\<lambda>i. op_n (prevout i) \<in> {0, 1}) (tx_vInput tx)"
    by (simp add: validate_inputs_OK list_all_iff u8)
  then show ?thesis
    using validate_inputs_error [of "{}" "tx_vInput tx"]
    by (auto simp: ValidateTransaction_def MoneyRange_def Let_def size_tx_length)
qed

text \<open>The duplicate check looks at all leaves of the tree but the last one.\<close>

lemma take_merkle_levels:
  "n \<le> length xs \<Longrightarrow> take n (merkle_levels h xs) = take n xs"
  by (subst merkle_levels.simps) simp

lemma duplicate_check:
  "card (set (take (length (blk_vtx b)) (fst (block_BuildMerkleTree blake2b b)))) = length (blk_vtx b)
     \<longleftrightarrow> distinct (butlast (merkle_leaves blake2b b))"
proof -
  have len: "length (merkle_leaves blake2b b) = Suc (length (blk_vtx b))" by (simp add: merkle_leaves_def)
  then have "take (length (blk_vtx b)) (fst (block_BuildMerkleTree blake2b b)) = butlast (merkle_leaves blake2b b)"
    by (simp add: build_merkle_tree take_merkle_levels butlast_conv_take)
  then show ?thesis using len by (simp add: distinct_card card_distinct) (metis card_distinct distinct_card len length_butlast diff_Suc_1)
qed

definition txs_valid :: "CBlock \<Rightarrow> bool" where
  "txs_valid b = list_all (\<lambda>tx. tx_IsMintTx tx \<or> ValidateTransaction tx = OK) (blk_vtx b)"

lemma ValidateBlock_OK:
  "ValidateBlock blake2b nNetTime b = OK \<longleftrightarrow>
     uint (blk_nTimeStamp b) \<le> nNetTime + MAX_CLOCK_DRIFT \<and> tx_IsMintTx (blk_txMint b)
     \<and> size_CBlock_ser b \<le> MAX_BLOCK_SIZE \<and> (blk_nType b = BLOCK_ORIGIN \<longrightarrow> blk_vtx b = [])
     \<and> blk_hashMerkle b = block_CalcMerkleTreeRoot blake2b b
     \<and> distinct (butlast (merkle_leaves blake2b b)) \<and> txs_valid b"
  using duplicate_check [of b blake2b]
  by (auto simp: ValidateBlock_def block_GetBlockTime_def block_CalcMerkleTreeRoot_def case_prod_unfold Let_def
      txs_valid_def list_all_iff)

section \<open>What a block hash commits to\<close>

text \<open>The pairs of nodes that are hashed while a tree is built, level after level.\<close>

fun level_pairs :: "uint256 list \<Rightarrow> (uint256 \<times> uint256) list" where
  "level_pairs [] = []"
| "level_pairs [x] = [(x, x)]"
| "level_pairs (x # y # xs) = (x, y) # level_pairs xs"

function tree_pairs :: "(uint256 \<Rightarrow> uint256 \<Rightarrow> uint256) \<Rightarrow> uint256 list \<Rightarrow> (uint256 \<times> uint256) list" where
  "tree_pairs h xs = (if length xs > 1 then level_pairs xs @ tree_pairs h (merkle_pair h xs) else [])"
  by auto
termination by (relation "measure (\<lambda>(h, xs). length xs)") auto

declare tree_pairs.simps [simp del]

lemma length_level_pairs: "length (level_pairs xs) = (length xs + 1) div 2"
  by (induction xs rule: level_pairs.induct) simp_all

definition pairs_collide :: "(uint256 \<Rightarrow> uint256 \<Rightarrow> uint256) \<Rightarrow> (uint256 \<times> uint256) list \<Rightarrow> (uint256 \<times> uint256) list \<Rightarrow> bool" where
  "pairs_collide h ps qs = list_ex (\<lambda>((a, b), (c, d)). (a, b) \<noteq> (c, d) \<and> h a b = h c d) (zip ps qs)"

lemma level_pairs_collide:
  assumes "length xs = length ys" "merkle_pair h xs = merkle_pair h ys" "xs \<noteq> ys"
  shows "pairs_collide h (level_pairs xs) (level_pairs ys)"
  using assms
proof (induction h xs arbitrary: ys rule: merkle_pair.induct)
  case (2 h x)
  then obtain y where "ys = [y]" by (cases ys) auto
  with 2 show ?case by (simp add: pairs_collide_def)
next
  case (3 h x y xs)
  then obtain u v us where "ys = u # v # us" by (cases ys; cases "tl ys") auto
  with 3 show ?case by (cases "(x, y) = (u, v)") (auto simp: pairs_collide_def)
qed simp

lemma tree_pairs_collide:
  assumes "length xs = length ys" "merkle_root h xs = merkle_root h ys" "xs \<noteq> ys"
  shows "pairs_collide h (tree_pairs h xs) (tree_pairs h ys)"
  using assms
proof (induction h xs arbitrary: ys rule: merkle_root.induct)
  case (1 h xs)
  show ?case
  proof (cases "length xs > 1")
    case True
    then have r: "merkle_root h (merkle_pair h xs) = merkle_root h (merkle_pair h ys)"
      using "1.prems" by (simp add: merkle_root.simps [of h xs] merkle_root.simps [of h ys])
    have "pairs_collide h (level_pairs xs) (level_pairs ys)
        \<or> pairs_collide h (tree_pairs h (merkle_pair h xs)) (tree_pairs h (merkle_pair h ys))"
      using level_pairs_collide [OF "1.prems"(1) _ "1.prems"(3), of h] "1.IH" [OF True _ r] "1.prems"(1) by auto
    then show ?thesis using True "1.prems"(1)
      by (auto simp: pairs_collide_def tree_pairs.simps [of h xs] tree_pairs.simps [of h ys] length_level_pairs)
  next
    case False
    then show ?thesis using "1.prems"
      by (cases xs; cases ys) (auto simp: merkle_root.simps)
  qed
qed

text \<open>
  C28: an accepted block commits to its transactions: if two accepted blocks have the same number of
  transactions and the same Merkle field, then their lists of transaction ids are the same, or
  building their two trees hashes, at the same position, two different pairs of nodes to the same
  value and so exhibits a collision of the digest.
\<close>

theorem accepted_block_commits_to_txids:
  assumes "ValidateBlock blake2b t b = OK" and "ValidateBlock blake2b t' b' = OK"
    and "blk_hashMerkle b = blk_hashMerkle b'" and "length (blk_vtx b) = length (blk_vtx b')"
  shows "map (tx_GetHash blake2b) (blk_txMint b # blk_vtx b) = map (tx_GetHash blake2b) (blk_txMint b' # blk_vtx b')
    \<or> pairs_collide (CryptoHash2 blake2b) (tree_pairs (CryptoHash2 blake2b) (merkle_leaves blake2b b))
         (tree_pairs (CryptoHash2 blake2b) (merkle_leaves blake2b b'))"
  using assms tree_pairs_collide [of "merkle_leaves blake2b b" "merkle_leaves blake2b b'" "CryptoHash2 blake2b"]
  by (auto simp: ValidateBlock_OK block_CalcMerkleTreeRoot_def build_merkle_tree merkle_leaves_def)

definition example_pay :: "u32 \<Rightarrow> CTransaction" where
  "example_pay t = tx_SetNull\<lparr> tx_nTimeStamp := t, tx_sendTo := dest_SetPubKey 7, tx_nAmount := 1 \<rparr>"

definition example_block :: "CTransaction list \<Rightarrow> CBlock" where
  "example_block txs = block_SetNull\<lparr> blk_nType := BLOCK_PRIMARY, blk_nTimeStamp := 60,
     blk_txMint := tx_SetNull\<lparr> tx_nType := TX_WORK, tx_nTimeStamp := 60 \<rparr>, blk_vtx := txs \<rparr>"

lemma example_pay_size: "size_CTransaction_ser (example_pay t) = 64"
  by (simp add: example_pay_def tx_SetNull_def size_CTransaction_ser_def size_basic_def size_vector_def size_bytes_def
      size_varint_def size_CDestination_ser_def)

lemma example_mint_size: "size_CTransaction_ser (tx_SetNull\<lparr> tx_nType := ty, tx_nTimeStamp := t \<rparr>) = 64"
  by (simp add: tx_SetNull_def size_CTransaction_ser_def size_basic_def size_vector_def size_bytes_def
      size_varint_def size_CDestination_ser_def)

lemma example_pay_ok: "ValidateTransaction (example_pay t) = OK"
  by (simp add: ValidateTransaction_def example_pay_size MAX_TX_SIZE_def MAX_BLOCK_SIZE_def)
    (simp add: example_pay_def tx_SetNull_def tx_IsMintTx_def TX_GENESIS_def TX_STAKE_def TX_WORK_def dest_IsNull_def
      dest_SetPubKey_def PREFIX_PUBKEY_def PREFIX_NULL_def MoneyRange_def MAX_MONEY_def COIN_def)

lemma merkle_root_zero: "length xs > 1 \<Longrightarrow> merkle_root (\<lambda>_ _. 0) xs = 0"
proof (induction xs rule: measure_induct_rule [of length])
  case (less xs)
  have zeros: "set (merkle_pair (\<lambda>_ _. 0) ys) \<subseteq> {0 :: uint256}" for ys
    by (induction "(\<lambda>_ _. 0) :: uint256 \<Rightarrow> uint256 \<Rightarrow> uint256" ys rule: merkle_pair.induct) auto
  show ?case
  proof (cases "length (merkle_pair (\<lambda>_ _. 0 :: uint256) xs) > 1")
    case True
    with less show ?thesis by (subst merkle_root.simps) simp
  next
    case False
    with less.prems have "length (merkle_pair (\<lambda>_ _. 0 :: uint256) xs) = 1" by simp
    then obtain z where "merkle_pair (\<lambda>_ _. 0 :: uint256) xs = [z]"
      by (auto simp: length_Suc_conv simp del: length_merkle_pair)
    moreover from this zeros [of xs] have "z = 0" by simp
    ultimately show ?thesis using less.prems by (subst merkle_root.simps) (simp add: merkle_root.simps)
  qed
qed

text \<open>Under the constant digest zero the ids of two transactions differ in their time stamps only.\<close>

lemma example_txid: "tx_GetHash (\<lambda>_. 0) tx = tx_GetHash (\<lambda>_. 0) tx' \<longleftrightarrow> tx_nTimeStamp tx = tx_nTimeStamp tx'"
  by (metis Get32_uint256_pair tx_GetHash_def CryptoHash_def)

lemma example_block_ok:
  assumes "distinct (60 # ts)" "ts \<noteq> []" "length ts < 200"
  shows "ValidateBlock (\<lambda>_. 0) 60 (example_block (map example_pay ts)) = OK"
    and "distinct (merkle_leaves (\<lambda>_. 0) (example_block (map example_pay ts)))"
proof -
  let ?b = "example_block (map example_pay ts)"
  have d: "distinct (merkle_leaves (\<lambda>_. 0) ?b)"
    using assms(1) by (auto simp: merkle_leaves_def example_block_def distinct_map inj_on_def example_txid comp_def
        example_pay_def)
  have z: "merkle_root (CryptoHash2 (\<lambda>_. 0)) (merkle_leaves (\<lambda>_. 0) ?b) = 0"
    using merkle_root_zero [of "merkle_leaves (\<lambda>_. 0) ?b"] assms(2)
    by (simp add: CryptoHash2_def [abs_def] merkle_leaves_def example_block_def)
  have sz: "size_CBlock_ser ?b \<le> MAX_BLOCK_SIZE"
    using assms(3) by (simp add: size_CBlock_ser_def example_block_def block_SetNull_def size_basic_def size_bytes_def size_varint_def
        size_vector_def comp_def example_pay_size example_mint_size sum_list_triv MAX_BLOCK_SIZE_def)
  show "ValidateBlock (\<lambda>_. 0) 60 ?b = OK"
    using z d sz by (simp add: ValidateBlock_OK block_CalcMerkleTreeRoot_def build_merkle_tree distinct_butlast)
      (simp add: example_block_def block_SetNull_def txs_valid_def list_all_iff example_pay_ok MAX_CLOCK_DRIFT_def tx_IsMintTx_def
        BLOCK_PRIMARY_def BLOCK_ORIGIN_def)
  show "distinct (merkle_leaves (\<lambda>_. 0) ?b)" by (rule d)
qed

theorem accepted_block_commits_to_txids_witness:
  "pairs_collide (CryptoHash2 (\<lambda>_. 0))
       (tree_pairs (CryptoHash2 (\<lambda>_. 0)) (merkle_leaves (\<lambda>_. 0) (example_block (map example_pay [61, 62]))))
       (tree_pairs (CryptoHash2 (\<lambda>_. 0)) (merkle_leaves (\<lambda>_. 0) (example_block (map example_pay [63, 64]))))"
  using accepted_block_commits_to_txids [OF example_block_ok(1) [of "[61, 62]"] example_block_ok(1) [of "[63, 64]"]]
  by (simp add: example_block_def example_txid example_pay_def)

text \<open>
  C30: the context-free checks do not see a repeated last transaction: from an accepted block with an
  even number of transactions and pairwise different ids, repeating the last transaction gives a
  different block that is accepted too, as long as it is not oversized, and that has the same hash.
\<close>

theorem ValidateBlock_accepts_repeated_last_tx:
  assumes ok: "ValidateBlock blake2b t b = OK" and "even (length (blk_vtx b))" "blk_vtx b \<noteq> []"
    and "distinct (merkle_leaves blake2b b)"
    and "size_CBlock_ser (b\<lparr> blk_vtx := blk_vtx b @ [last (blk_vtx b)] \<rparr>) \<le> MAX_BLOCK_SIZE"
  shows "ValidateBlock blake2b t (b\<lparr> blk_vtx := blk_vtx b @ [last (blk_vtx b)] \<rparr>) = OK
    \<and> block_GetHash blake2b (b\<lparr> blk_vtx := blk_vtx b @ [last (blk_vtx b)] \<rparr>) = block_GetHash blake2b b
    \<and> b\<lparr> blk_vtx := blk_vtx b @ [last (blk_vtx b)] \<rparr> \<noteq> b"
proof -
  let ?g = "tx_GetHash blake2b" and ?b = "b\<lparr> blk_vtx := blk_vtx b @ [last (blk_vtx b)] \<rparr>"
  obtain ys y where txs: "blk_vtx b = ys @ [y]" using assms(3) by (metis rev_exhaust)
  have root: "block_CalcMerkleTreeRoot blake2b ?b = block_CalcMerkleTreeRoot blake2b b"
    using merkle_root_dup [of "?g (blk_txMint b) # map ?g ys" "CryptoHash2 blake2b" "?g y"] assms(2)
    by (simp add: block_CalcMerkleTreeRoot_def build_merkle_tree merkle_leaves_def txs)
  have "butlast (merkle_leaves blake2b ?b) = merkle_leaves blake2b b" by (simp add: merkle_leaves_def)
  then have "ValidateBlock blake2b t ?b = OK"
    using ok assms(4,5) root txs by (auto simp: ValidateBlock_OK txs_valid_def)
  moreover have "block_GetHash blake2b ?b = block_GetHash blake2b b"
    by (simp add: block_GetHash_def block_GetBlockHeight_def block_IsGenesis_def block_IsExtended_def
        save_block_header_def)
  moreover have "?b \<noteq> b"
  proof
    assume "?b = b"
    then have "blk_vtx ?b = blk_vtx b" by simp
    then show False by simp
  qed
  ultimately show ?thesis by simp
qed

theorem ValidateBlock_accepts_repeated_last_tx_witness:
  "ValidateBlock (\<lambda>_. 0) 60 (example_block [example_pay 61, example_pay 62, example_pay 62]) = OK
   \<and> ValidateBlock (\<lambda>_. 0) 60 (example_block [example_pay 61, example_pay 62]) = OK"
proof -
  let ?b = "example_block (map example_pay [61, 62])"
  have v: "blk_vtx ?b = [example_pay 61, example_pay 62]" by (simp add: example_block_def)
  have ok: "ValidateBlock (\<lambda>_. 0) 60 ?b = OK" "distinct (merkle_leaves (\<lambda>_. 0) ?b)"
    by (rule example_block_ok; simp)+
  have "size_CBlock_ser (?b\<lparr> blk_vtx := blk_vtx ?b @ [last (blk_vtx ?b)] \<rparr>) \<le> MAX_BLOCK_SIZE"
    by (simp add: size_CBlock_ser_def example_block_def block_SetNull_def size_basic_def size_bytes_def size_varint_def
        size_vector_def example_pay_size example_mint_size MAX_BLOCK_SIZE_def)
  from ValidateBlock_accepts_repeated_last_tx [OF ok(1) _ _ ok(2) this] ok(1) show ?thesis
    by (simp add: example_block_def)
qed

end
