(* ===== verification/Multi_Sign.thy ===== *)
theory Multi_Sign
  imports Ledger_Tx "HOL-Library.Sublist"
begin

text \<open>
  Signatures of \<^verbatim>\<open>src/src/crypto/crypto.cpp\<close>: the ed25519 entry points over the parameters \<open>ed_sign\<close> and
  \<open>ed_verify\<close>, which stand for the sodium library, and the multiple signature built from them.  A
  multiple signature is a bitmap that says which keys of the set have signed, most significant byte
  first, followed by the signatures of these keys in the order of the keys.  A \<^verbatim>\<open>set<uint256>\<close> is the
  ascending list of its elements.
\<close>

record CCryptoKey =
  key_secret :: uint256
  key_pubkey :: uint256

type_synonym signer = "CCryptoKey \<Rightarrow> u8 list \<Rightarrow> u8 list"
type_synonym verifier = "uint256 \<Rightarrow> u8 list \<Rightarrow> u8 list \<Rightarrow> bool"

definition CryptoSign :: "signer \<Rightarrow> CCryptoKey \<Rightarrow> u8 list \<Rightarrow> u8 list" where
  "CryptoSign ed_sign key md = ed_sign key md"

definition CryptoVerify :: "verifier \<Rightarrow> uint256 \<Rightarrow> u8 list \<Rightarrow> u8 list \<Rightarrow> bool" where
  "CryptoVerify ed_verify pubkey md vchSig = (length vchSig = 64 \<and> ed_verify pubkey md vchSig)"

definition pubkey_Verify :: "verifier \<Rightarrow> uint256 \<Rightarrow> uint256 \<Rightarrow> u8 list \<Rightarrow> bool" where
  "pubkey_Verify ed_verify pubkey hash vchSig = CryptoVerify ed_verify pubkey (le_bytes 32 hash) vchSig"

section \<open>The bitmap of the signers\<close>

definition IsSigned :: "u8 list \<Rightarrow> nat \<Rightarrow> nat \<Rightarrow> bool" where
  "IsSigned pIndex nLen nIndex =
     (nLen * 8 > nIndex \<and> pIndex ! (nLen - 1 - nIndex div 8) AND push_bit (nIndex mod 8) 1 \<noteq> 0)"

definition SetSigned :: "u8 list \<Rightarrow> nat \<Rightarrow> nat \<Rightarrow> bool \<times> u8 list" where
  "SetSigned pIndex nLen nIndex =
     (if nLen * 8 \<le> nIndex then (False, pIndex)
      else (let p = nLen - 1 - nIndex div 8 in (True, pIndex[p := pIndex ! p OR push_bit (nIndex mod 8) 1])))"

definition nIndexLen :: "uint256 list \<Rightarrow> nat" where
  "nIndexLen setPubKey = (length setPubKey - 1) div 8 + 1"

text \<open>\<^verbatim>\<open>find\<close> in a set, as the distance of the iterator from \<^verbatim>\<open>begin\<close>.\<close>

fun std_find :: "'a \<Rightarrow> 'a list \<Rightarrow> nat option" where
  "std_find x [] = None"
| "std_find x (y # ys) = (if x = y then Some 0 else map_option Suc (std_find x ys))"

section \<open>CryptoMultiSign and CryptoMultiVerify\<close>

definition multi_pos :: "u8 list \<Rightarrow> nat \<Rightarrow> nat \<Rightarrow> nat" where
  "multi_pos pIndex nLen nIndex =
     fold (\<lambda>i nPosRS. if IsSigned pIndex nLen i then nPosRS + 64 else nPosRS) [0..<nIndex] nLen"

definition CryptoMultiSign :: "signer \<Rightarrow> uint256 list \<Rightarrow> CCryptoKey \<Rightarrow> u8 list \<Rightarrow> u8 list \<Rightarrow> bool \<times> u8 list" where
  "CryptoMultiSign ed_sign setPubKey privkey m vchSig =
     (if setPubKey = [] then (False, vchSig)
      else case std_find (key_pubkey privkey) setPubKey of
        None \<Rightarrow> (False, vchSig)
      | Some nIndex \<Rightarrow>
          let n = nIndexLen setPubKey in
          if vchSig \<noteq> [] \<and> length vchSig < n + 64 then (False, vchSig)
          else
            let v = (if vchSig = [] then replicate n 0 else vchSig) in
            if IsSigned v n nIndex then (True, v)
            else
              let nPosRS = multi_pos v n nIndex in
              if nPosRS > length v then (False, v)
              else
                let vchRS = CryptoSign ed_sign privkey m; (ok, v') = SetSigned v n nIndex in
                if \<not> ok then (False, v')
                else (True, take nPosRS v' @ vchRS @ drop nPosRS v'))"

text \<open>The loop of \<^verbatim>\<open>CryptoMultiVerify\<close>; \<open>None\<close> is its \<^verbatim>\<open>return false\<close>.\<close>

primrec multi_verify_loop :: "verifier \<Rightarrow> u8 list \<Rightarrow> u8 list \<Rightarrow> nat \<Rightarrow> uint256 list \<Rightarrow> nat \<Rightarrow> nat \<Rightarrow> uint256 list
    \<Rightarrow> (nat \<times> uint256 list) option" where
  "multi_verify_loop ed_verify m vchSig n [] i nPosRS setPartKey = Some (nPosRS, setPartKey)"
| "multi_verify_loop ed_verify m vchSig n (pk # keys) i nPosRS setPartKey =
     (if IsSigned vchSig n i then
        if nPosRS + 64 > length vchSig then None
        else if \<not> CryptoVerify ed_verify pk m (take 64 (drop nPosRS vchSig)) then None
        else multi_verify_loop ed_verify m vchSig n keys (i + 1) (nPosRS + 64) (insort_insert pk setPartKey)
      else multi_verify_loop ed_verify m vchSig n keys (i + 1) nPosRS setPartKey)"

definition CryptoMultiVerify :: "verifier \<Rightarrow> uint256 list \<Rightarrow> u8 list \<Rightarrow> u8 list \<Rightarrow> uint256 list \<Rightarrow> uint256 list option" where
  "CryptoMultiVerify ed_verify setPubKey m vchSig setPartKey =
     (if setPubKey = [] then None
      else let n = nIndexLen setPubKey in
        if length vchSig < n + 64 then None
        else case multi_verify_loop ed_verify m vchSig n setPubKey 0 n setPartKey of
            None \<Rightarrow> None
          | Some (nPosRS, setPartKey') \<Rightarrow> if nPosRS \<noteq> length vchSig then None else Some setPartKey')"

section \<open>Laws of the bitmap\<close>

lemma and_push_bit_1: "(w :: u8) AND push_bit k 1 \<noteq> 0 \<longleftrightarrow> bit w k"
proof
  assume "w AND push_bit k 1 \<noteq> 0"
  then obtain j where "bit (w AND push_bit k 1) j" by (metis bit_eqI bit_0_eq bot_apply bot_bool_def)
  then show "bit w k" by (auto simp: bit_simps)
next
  assume "bit w k"
  then have "bit (w AND push_bit k 1) k" by (auto simp: bit_simps dest: bit_imp_le_length)
  then show "w AND push_bit k 1 \<noteq> 0" by auto
qed

lemma IsSigned_bit: "IsSigned v n i \<longleftrightarrow> i < 8 * n \<and> bit (v ! (n - 1 - i div 8)) (i mod 8)"
  unfolding IsSigned_def and_push_bit_1 by (simp add: mult.commute)

lemma IsSigned_take: "length v \<ge> n \<Longrightarrow> IsSigned (take n v @ w) n i = IsSigned v n i"
  by (cases "n = 0") (simp_all add: IsSigned_bit nth_append)

lemma IsSigned_zero: "\<not> IsSigned (replicate n 0) n i"
  by (auto simp: IsSigned_bit)

lemma SetSigned_laws:
  assumes "i < 8 * n" "n \<le> length v"
  obtains v' where "SetSigned v n i = (True, v')" "length v' = length v" "drop n v' = drop n v"
    "\<And>j. IsSigned v' n j \<longleftrightarrow> j = i \<or> IsSigned v n j"
proof -
  let ?p = "n - 1 - i div 8"
  let ?v = "v[?p := v ! ?p OR push_bit (i mod 8) 1]"
  have p: "?p < n" "?p < length v" using assms by auto
  have same: "n - 1 - j div 8 = ?p \<longleftrightarrow> j div 8 = i div 8" if "j < 8 * n" for j
    using that assms(1) by (auto simp: less_mult_imp_div_less mult.commute)
  have "IsSigned ?v n j \<longleftrightarrow> j = i \<or> IsSigned v n j" for j
  proof (cases "j < 8 * n \<and> j div 8 = i div 8")
    case True
    then have "j mod 8 = i mod 8 \<longleftrightarrow> j = i" by (metis div_mult_mod_eq)
    moreover have "j mod 8 < 8" by simp
    ultimately show ?thesis using True p same [of j]
      by (auto simp: IsSigned_bit bit_simps assms)
  next
    case False
    then show ?thesis using same [of j] assms by (auto simp: IsSigned_bit)
  qed
  moreover have "SetSigned v n i = (True, ?v)" using assms(1) by (simp add: SetSigned_def Let_def)
  ultimately show ?thesis using p by (intro that [of ?v]) simp_all
qed

lemma bitmap_eqI:
  assumes "length v = n" "length w = n" "\<And>i. i < 8 * n \<Longrightarrow> IsSigned v n i = IsSigned w n i"
  shows "v = w"
proof (rule nth_equalityI)
  fix p assume "p < length v"
  then have p: "p < n" using assms by simp
  have "bit (v ! p) b = bit (w ! p) b" if "b < 8" for b
  proof -
    have i: "8 * (n - 1 - p) + b < 8 * n" "n - 1 - (8 * (n - 1 - p) + b) div 8 = p" "(8 * (n - 1 - p) + b) mod 8 = b"
      using p that by auto
    show ?thesis using assms(3) [OF i(1)] i by (simp add: IsSigned_bit)
  qed
  then show "v ! p = w ! p" by (intro bit_word_eqI) simp
qed (simp add: assms)

section \<open>What a multiple signature stands for\<close>

text \<open>
  The specification: \<open>v\<close> is the multiple signature of the keys in \<open>S\<close>, where \<open>sigf\<close> gives the
  signature of each key.  Bits beyond the number of keys are zero.
\<close>

definition multi_sig :: "(uint256 \<Rightarrow> u8 list) \<Rightarrow> uint256 list \<Rightarrow> uint256 set \<Rightarrow> u8 list \<Rightarrow> bool" where
  "multi_sig sigf keys S v \<longleftrightarrow>
     nIndexLen keys \<le> length v
     \<and> (\<forall>i < 8 * nIndexLen keys. IsSigned v (nIndexLen keys) i \<longleftrightarrow> i < length keys \<and> keys ! i \<in> S)
     \<and> drop (nIndexLen keys) v = concat (map sigf (filter (\<lambda>k. k \<in> S) keys))"

lemma length_keys_index: "length keys \<le> 8 * nIndexLen keys"
  by (simp add: nIndexLen_def)

lemma multi_sig_unique: "multi_sig sigf keys S v \<Longrightarrow> multi_sig sigf keys S w \<Longrightarrow> v = w"
proof -
  let ?n = "nIndexLen keys"
  assume v: "multi_sig sigf keys S v" and w: "multi_sig sigf keys S w"
  have "take ?n v = take ?n w"
  proof (rule bitmap_eqI)
    fix i assume "i < 8 * ?n"
    with v w show "IsSigned (take ?n v) ?n i = IsSigned (take ?n w) ?n i"
      using IsSigned_take [of ?n v "[]" i] IsSigned_take [of ?n w "[]" i] by (simp add: multi_sig_def)
  qed (use v w in \<open>simp_all add: multi_sig_def\<close>)
  moreover have "drop ?n v = drop ?n w" using v w by (simp add: multi_sig_def)
  ultimately show "v = w" by (metis append_take_drop_id)
qed

lemma multi_sig_empty: "multi_sig sigf keys {} (replicate (nIndexLen keys) 0)"
  by (simp add: multi_sig_def IsSigned_zero)

lemma length_blocks: "(\<And>k. length (sigf k) = 64) \<Longrightarrow> length (concat (map sigf xs)) = 64 * length xs"
  by (induction xs) simp_all

lemma std_find_nth: "std_find x xs = Some i \<Longrightarrow> i < length xs \<and> xs ! i = x"
  by (induction xs arbitrary: i) (auto split: if_splits)

lemma std_find_member: "x \<in> set xs \<Longrightarrow> \<exists>i. std_find x xs = Some i"
  by (induction xs) auto

text \<open>The position the loop of \<^verbatim>\<open>CryptoMultiSign\<close> finds is behind the signatures of the smaller keys.\<close>

lemma multi_pos_count:
  assumes "multi_sig sigf keys S v" "i \<le> length keys"
  shows "multi_pos v (nIndexLen keys) i = nIndexLen keys + 64 * length (filter (\<lambda>k. k \<in> S) (take i keys))"
  using assms(2)
proof (induction i)
  case (Suc i)
  then have "i < 8 * nIndexLen keys" using length_keys_index [of keys] by linarith
  with assms(1) Suc have "IsSigned v (nIndexLen keys) i \<longleftrightarrow> keys ! i \<in> S" by (simp add: multi_sig_def)
  with Suc show ?case by (simp add: multi_pos_def take_Suc_conv_app_nth)
qed (simp add: multi_pos_def)

lemma filter_insert_split:
  assumes "distinct keys" "i < length keys" "keys ! i \<notin> S"
  shows "filter (\<lambda>k. k \<in> insert (keys ! i) S) keys =
     filter (\<lambda>k. k \<in> S) (take i keys) @ keys ! i # filter (\<lambda>k. k \<in> S) (drop (Suc i) keys)"
    and "filter (\<lambda>k. k \<in> S) keys = filter (\<lambda>k. k \<in> S) (take i keys) @ filter (\<lambda>k. k \<in> S) (drop (Suc i) keys)"
proof -
  have split: "keys = take i keys @ keys ! i # drop (Suc i) keys" using assms(2) by (simp add: id_take_nth_drop)
  then have "keys ! i \<notin> set (take i keys)" "keys ! i \<notin> set (drop (Suc i) keys)"
    using assms(1) by (metis distinct_append disjoint_iff list.set_intros(1), metis distinct_append distinct.simps(2))
  then have same: "filter (\<lambda>k. k \<in> insert (keys ! i) S) (take i keys) = filter (\<lambda>k. k \<in> S) (take i keys)"
    "filter (\<lambda>k. k \<in> insert (keys ! i) S) (drop (Suc i) keys) = filter (\<lambda>k. k \<in> S) (drop (Suc i) keys)"
    by (auto intro!: filter_cong)
  show "filter (\<lambda>k. k \<in> insert (keys ! i) S) keys =
     filter (\<lambda>k. k \<in> S) (take i keys) @ keys ! i # filter (\<lambda>k. k \<in> S) (drop (Suc i) keys)"
    using arg_cong [OF split, of "filter (\<lambda>k. k \<in> insert (keys ! i) S)"] unfolding filter_append filter.simps same by simp
  show "filter (\<lambda>k. k \<in> S) keys = filter (\<lambda>k. k \<in> S) (take i keys) @ filter (\<lambda>k. k \<in> S) (drop (Suc i) keys)"
    using arg_cong [OF split, of "filter (\<lambda>k. k \<in> S)"] unfolding filter_append filter.simps using assms(3) by simp
qed

lemma multi_sign_insert:
  assumes "distinct keys" "multi_sig sigf keys S v" "\<And>k. length (sigf k) = 64"
    and i: "i < length keys" "keys ! i \<notin> S" and v': "SetSigned v (nIndexLen keys) i = (True, v')"
  shows "multi_pos v (nIndexLen keys) i \<le> length v
    \<and> multi_sig sigf keys (insert (keys ! i) S)
        (take (multi_pos v (nIndexLen keys) i) v' @ sigf (keys ! i) @ drop (multi_pos v (nIndexLen keys) i) v')"
proof -
  let ?n = "nIndexLen keys" and ?a = "filter (\<lambda>k. k \<in> S) (take i keys)" and ?b = "filter (\<lambda>k. k \<in> S) (drop (Suc i) keys)"
  have v: "?n \<le> length v" "drop ?n v = concat (map sigf ?a) @ concat (map sigf ?b)"
    using assms(2) filter_insert_split(2) [OF assms(1) i] by (simp_all add: multi_sig_def)
  have i8: "i < 8 * ?n" using i(1) length_keys_index [of keys] by linarith
  obtain w where w: "SetSigned v ?n i = (True, w)" "length w = length v" "drop ?n w = drop ?n v"
      "\<And>j. IsSigned w ?n j \<longleftrightarrow> j = i \<or> IsSigned v ?n j"
    using SetSigned_laws [OF i8 v(1)] by metis
  have "w = v'" using v' w(1) by simp
  have pos: "multi_pos v ?n i = ?n + length (concat (map sigf ?a))"
    using multi_pos_count [OF assms(2), of i] i(1) length_blocks [of sigf, OF assms(3)] by simp
  have w_split: "w = take ?n w @ concat (map sigf ?a) @ concat (map sigf ?b)"
    using w(3) v(2) by (metis append_take_drop_id)
  have len: "length (take ?n w) = ?n" using v(1) w(2) by simp
  have new: "take (multi_pos v ?n i) w @ sigf (keys ! i) @ drop (multi_pos v ?n i) w
      = take ?n w @ concat (map sigf ?a) @ sigf (keys ! i) @ concat (map sigf ?b)"
    unfolding pos using len by (subst (1 2) w_split) simp
  have "j < 8 * ?n \<Longrightarrow> (j = i \<or> IsSigned v ?n j) \<longleftrightarrow> (j < length keys \<and> keys ! j \<in> insert (keys ! i) S)" for j
    using assms(1,2) i by (auto simp: multi_sig_def nth_eq_iff_index_eq)
  moreover have "multi_pos v ?n i \<le> length v"
    unfolding pos using arg_cong [OF v(2), of length] v(1) by simp
  ultimately show ?thesis
    using w len filter_insert_split(1) [OF assms(1) i] v(1)
      IsSigned_take [of ?n w "concat (map sigf ?a) @ sigf (keys ! i) @ concat (map sigf ?b)"]
    unfolding \<open>w = v'\<close> [symmetric] new by (simp add: multi_sig_def del: insert_iff)
qed

lemma multi_sign_step:
  assumes "distinct keys" "multi_sig sigf keys S v \<or> v = [] \<and> S = {}" "\<And>k. length (sigf k) = 64" "S \<subseteq> set keys"
    and key: "key_pubkey k \<in> set keys" "sigf (key_pubkey k) = ed_sign k m" and ne: "v \<noteq> [] \<Longrightarrow> S \<noteq> {}"
  shows "\<exists>v'. CryptoMultiSign ed_sign keys k m v = (True, v') \<and> multi_sig sigf keys (insert (key_pubkey k) S) v'"
proof -
  let ?n = "nIndexLen keys" and ?v = "if v = [] then replicate (nIndexLen keys) 0 else v"
  obtain i where f: "std_find (key_pubkey k) keys = Some i" using std_find_member [OF key(1)] by blast
  then have i: "i < length keys" "keys ! i = key_pubkey k" using std_find_nth by metis+
  have v: "multi_sig sigf keys S ?v" using assms(2) multi_sig_empty by (auto simp: multi_sig_def nIndexLen_def)
  have i8: "i < 8 * ?n" using i(1) length_keys_index [of keys] by linarith
  have signed: "IsSigned ?v ?n i \<longleftrightarrow> key_pubkey k \<in> S" using v i i8 by (simp only: multi_sig_def) blast
  have long: "length v \<ge> ?n + 64" if "v \<noteq> []"
  proof -
    have "filter (\<lambda>k. k \<in> S) keys \<noteq> []" using ne [OF that] assms(4) by (auto simp: filter_empty_conv)
    then have "length (filter (\<lambda>k. k \<in> S) keys) \<ge> 1" by (simp only: length_greater_0_conv [symmetric])
    moreover have "length (drop ?n v) = 64 * length (filter (\<lambda>k. k \<in> S) keys)"
      using v that length_blocks [of sigf, OF assms(3)] by (simp only: multi_sig_def if_False)
    ultimately show ?thesis by simp
  qed
  show ?thesis
  proof (cases "key_pubkey k \<in> S")
    case True
    then have "CryptoMultiSign ed_sign keys k m v = (True, ?v)"
      using f signed i long by (auto simp: CryptoMultiSign_def Let_def)
    then show ?thesis using v True by (simp add: insert_absorb)
  next
    case False
    obtain v' where v': "SetSigned ?v ?n i = (True, v')"
      using SetSigned_laws [OF i8, of ?v] v by (metis multi_sig_def)
    note ins = multi_sign_insert [OF assms(1) v assms(3) i(1) _ v', unfolded i(2), OF False]
    have "CryptoMultiSign ed_sign keys k m v = (True, take (multi_pos ?v ?n i) v' @ ed_sign k m @ drop (multi_pos ?v ?n i) v')"
      using f signed i long False v' conjunct1 [OF ins] by (auto simp: CryptoMultiSign_def Let_def CryptoSign_def)
    then show ?thesis using conjunct2 [OF ins] key(2) by auto
  qed
qed

section \<open>Verification of collected signatures\<close>

lemma insort_insert_last: "\<forall>x \<in> set xs. x < k \<Longrightarrow> insort_insert k xs = xs @ [k :: 'a::linorder]"
proof -
  assume less: "\<forall>x \<in> set xs. x < k"
  then have "insort_key id k xs = xs @ [k]" by (induction xs) auto
  with less show ?thesis by (auto simp: insort_insert_key_def id_def)
qed

lemma multi_verify_loop_sig:
  assumes keys: "sorted_wrt (<) (pre @ post)" and "multi_sig sigf (pre @ post) S v" "\<And>k. length (sigf k) = 64"
    and ver: "\<And>k. k \<in> S \<Longrightarrow> CryptoVerify ed_verify k m (sigf k)"
  shows "multi_verify_loop ed_verify m v (nIndexLen (pre @ post)) post (length pre)
      (nIndexLen (pre @ post) + 64 * length (filter (\<lambda>k. k \<in> S) pre)) (filter (\<lambda>k. k \<in> S) pre)
    = Some (length v, filter (\<lambda>k. k \<in> S) (pre @ post))"
  using keys assms(2)
proof (induction post arbitrary: pre)
  case Nil
  then have "length (drop (nIndexLen pre) v) = 64 * length (filter (\<lambda>k. k \<in> S) pre)" "nIndexLen pre \<le> length v"
    using length_blocks [of sigf, OF assms(3)] by (simp_all only: multi_sig_def append_Nil2)
  then show ?case by simp
next
  case (Cons k post)
  let ?keys = "pre @ k # post" and ?f = "filter (\<lambda>k. k \<in> S)"
  let ?n = "nIndexLen ?keys" and ?pos = "nIndexLen (pre @ k # post) + 64 * length (filter (\<lambda>k. k \<in> S) pre)"
  have sig: "multi_sig sigf ((pre @ [k]) @ post) S v" and sorted: "sorted_wrt (<) ((pre @ [k]) @ post)"
    using Cons.prems by simp_all
  have "length pre < 8 * ?n" using length_keys_index [of ?keys] by simp
  then have signed: "IsSigned v ?n (length pre) \<longleftrightarrow> k \<in> S"
    using Cons.prems(2) by (simp add: multi_sig_def)
  have v: "?n \<le> length v" "drop ?n v = concat (map sigf (?f pre)) @ concat (map sigf (?f (k # post)))"
    using Cons.prems(2) by (simp_all add: multi_sig_def)
  show ?case
  proof (cases "k \<in> S")
    case False
    with signed Cons.IH [OF sorted sig] show ?thesis by simp
  next
    case True
    have pre: "length (concat (map sigf (?f pre))) = 64 * length (?f pre)" by (rule length_blocks [OF assms(3)])
    have "drop ?pos v = drop (64 * length (?f pre)) (drop ?n v)" by (simp add: add.commute)
    also have "\<dots> = sigf k @ concat (map sigf (?f post))" using True by (simp add: v(2) pre del: length_concat)
    finally have block: "take 64 (drop ?pos v) = sigf k" by (simp add: assms(3))
    have "\<not> ?pos + 64 > length v" using arg_cong [OF block, of length] by (simp add: assms(3))
    moreover have "insort_insert k (?f pre) = ?f (pre @ [k])"
      using Cons.prems(1) True by (subst insort_insert_last) (auto simp: sorted_wrt_append)
    ultimately show ?thesis
      using signed True block ver [OF True] Cons.IH [OF sorted sig] by (simp add: ac_simps)
  qed
qed

lemma multi_verify_sig:
  assumes "sorted_wrt (<) keys" "multi_sig sigf keys S v" "\<And>k. length (sigf k) = 64"
    and "\<And>k. k \<in> S \<Longrightarrow> CryptoVerify ed_verify k m (sigf k)" and "\<exists>k. k \<in> S \<and> k \<in> set keys"
  shows "CryptoMultiVerify ed_verify keys m v [] = Some (filter (\<lambda>k. k \<in> S) keys)"
proof -
  have "filter (\<lambda>k. k \<in> S) keys \<noteq> []" using assms(5) by (auto simp: filter_empty_conv)
  then have "length (filter (\<lambda>k. k \<in> S) keys) \<ge> 1" by (simp only: length_greater_0_conv [symmetric])
  moreover have "length (drop (nIndexLen keys) v) = 64 * length (filter (\<lambda>k. k \<in> S) keys)"
    using assms(2) length_blocks [of sigf, OF assms(3)] by (simp only: multi_sig_def)
  ultimately have "nIndexLen keys + 64 \<le> length v" by simp
  moreover have "keys \<noteq> []" using assms(5) by auto
  ultimately show ?thesis
    using multi_verify_loop_sig [of "[]" keys sigf S v ed_verify m] assms by (simp add: CryptoMultiVerify_def)
qed

text \<open>Signing by several key holders in turn, each extending the signature received so far.\<close>

definition multi_sign_all :: "signer \<Rightarrow> uint256 list \<Rightarrow> u8 list \<Rightarrow> CCryptoKey list \<Rightarrow> bool \<times> u8 list" where
  "multi_sign_all ed_sign keys m ks =
     fold (\<lambda>k (ok, v). if ok then CryptoMultiSign ed_sign keys k m v else (False, v)) ks (True, [])"

lemma multi_sign_fold:
  assumes "distinct keys" "\<And>k. length (sigf k) = 64" "multi_sig sigf keys S v \<or> v = [] \<and> S = {}" "S \<subseteq> set keys"
    "v \<noteq> [] \<Longrightarrow> S \<noteq> {}" "\<And>k. k \<in> set ks \<Longrightarrow> key_pubkey k \<in> set keys \<and> sigf (key_pubkey k) = ed_sign k m" "ks \<noteq> []"
  shows "\<exists>v'. fold (\<lambda>k (ok, v). if ok then CryptoMultiSign ed_sign keys k m v else (False, v)) ks (True, v) = (True, v')
    \<and> multi_sig sigf keys (S \<union> key_pubkey ` set ks) v'"
  using assms(3-)
proof (induction ks arbitrary: S v)
  case (Cons k ks)
  obtain v' where v': "CryptoMultiSign ed_sign keys k m v = (True, v')" "multi_sig sigf keys (insert (key_pubkey k) S) v'"
    using multi_sign_step [OF assms(1) Cons.prems(1) assms(2) Cons.prems(2), of k ed_sign m] Cons.prems(3) Cons.prems(4) [of k]
    by auto
  show ?case
  proof (cases "ks = []")
    case True
    with v' show ?thesis by simp
  next
    case False
    with Cons.IH [of "insert (key_pubkey k) S" v'] v' Cons.prems show ?thesis by simp
  qed
qed simp

text \<open>
  C34: key holders that sign in turn produce a multiple signature that verifies with exactly their keys,
  and the bytes do not depend on the order in which they signed.  The signature function is assumed
  to return 64 bytes that the verifier accepts under the signer's public key.
\<close>

theorem multisign_collects:
  assumes keys: "sorted_wrt (<) keys" and sub: "key_pubkey ` set ks \<subseteq> set keys" and ne: "ks \<noteq> []"
    and inj: "inj_on key_pubkey (set ks)"
    and ed: "\<And>k. k \<in> set ks \<Longrightarrow> length (ed_sign k m) = 64 \<and> ed_verify (key_pubkey k) m (ed_sign k m)"
  shows "\<exists>v. multi_sign_all ed_sign keys m ks = (True, v)
    \<and> CryptoMultiVerify ed_verify keys m v [] = Some (filter (\<lambda>pk. pk \<in> key_pubkey ` set ks) keys)
    \<and> (\<forall>ks'. set ks' = set ks \<longrightarrow> multi_sign_all ed_sign keys m ks' = (True, v))"
proof -
  obtain sigf where len: "\<And>pk. length (sigf pk) = 64" and sig: "\<And>k. k \<in> set ks \<Longrightarrow> sigf (key_pubkey k) = ed_sign k m"
  proof (rule that)
    let ?sigf = "\<lambda>pk. if pk \<in> key_pubkey ` set ks then ed_sign (inv_into (set ks) key_pubkey pk) m else replicate 64 0"
    show "length (?sigf pk) = 64" for pk using ed by (simp add: inv_into_into)
    show "?sigf (key_pubkey k) = ed_sign k m" if "k \<in> set ks" for k using that inj by simp
  qed
  let ?S = "key_pubkey ` set ks"
  have dist: "distinct keys" using keys by (simp add: strict_sorted_iff)
  have all: "\<exists>v. multi_sign_all ed_sign keys m ks' = (True, v) \<and> multi_sig sigf keys ?S v" if "set ks' = set ks" for ks'
  proof -
    have "ks' \<noteq> []" using ne that by auto
    moreover have "key_pubkey k \<in> set keys \<and> sigf (key_pubkey k) = ed_sign k m" if "k \<in> set ks'" for k
      using that \<open>set ks' = set ks\<close> sub sig by auto
    ultimately show ?thesis
      using multi_sign_fold [of keys sigf "{}" "[]" ks' ed_sign m, OF dist len] that by (simp add: multi_sign_all_def)
  qed
  then obtain v where v: "multi_sign_all ed_sign keys m ks = (True, v)" "multi_sig sigf keys ?S v" by blast
  have "\<exists>pk. pk \<in> ?S \<and> pk \<in> set keys" using sub ne by (cases ks) auto
  moreover have "CryptoVerify ed_verify pk m (sigf pk)" if "pk \<in> ?S" for pk
    using that ed sig by (auto simp: CryptoVerify_def)
  ultimately have "CryptoMultiVerify ed_verify keys m v [] = Some (filter (\<lambda>pk. pk \<in> ?S) keys)"
    by (intro multi_verify_sig [OF keys v(2) len])
  moreover have "multi_sign_all ed_sign keys m ks' = (True, v)" if "set ks' = set ks" for ks'
    using all [OF that] multi_sig_unique [OF v(2)] by blast
  ultimately show ?thesis using v(1) by blast
qed

text \<open>The example in the comment of the code: ten keys, of which the first, third and tenth sign.\<close>

definition example_key :: "uint256 \<Rightarrow> CCryptoKey" where
  "example_key n = \<lparr> key_secret = 0, key_pubkey = n \<rparr>"

theorem multisign_collects_witness:
  "\<exists>v. multi_sign_all (\<lambda>k m. replicate 64 (ucast (key_pubkey k))) [1, 2, 3, 4, 5, 6, 7, 8, 9, 10] []
        [example_key 10, example_key 1, example_key 3] = (True, v)
     \<and> CryptoMultiVerify (\<lambda>pk m s. s = replicate 64 (ucast pk)) [1, 2, 3, 4, 5, 6, 7, 8, 9, 10] [] v [] = Some [1, 3, 10]"
proof -
  have "filter (\<lambda>pk. pk \<in> key_pubkey ` set [example_key 10, example_key 1, example_key 3])
      [1, 2, 3, 4, 5, 6, 7, 8, 9, 10 :: uint256] = [1, 3, 10]"
    by (simp add: example_key_def)
  then show ?thesis
    using multisign_collects [of "[1, 2, 3, 4, 5, 6, 7, 8, 9, 10]" "[example_key 10, example_key 1, example_key 3]"
        "\<lambda>k m. replicate 64 (ucast (key_pubkey k))" "[]" "\<lambda>pk m s. s = replicate 64 (ucast pk)"]
    by (fastforce simp: example_key_def)
qed

section \<open>What an accepted multiple signature shows\<close>

lemma set_insort_insert [simp]: "set (insort_insert k xs) = insert k (set xs)"
  by (simp add: insort_insert_key_def insert_absorb set_insort_key image_iff)

lemma multi_verify_loop_sound:
  "multi_verify_loop ed_verify m v n keys i pos part = Some (pos', part') \<Longrightarrow> pk \<in> set part' \<Longrightarrow>
   pk \<in> set part \<or> pk \<in> set keys \<and> (\<exists>s. sublist s v \<and> CryptoVerify ed_verify pk m s)"
proof (induction keys arbitrary: i pos part)
  case (Cons k keys)
  have "sublist (take 64 (drop pos v)) v" by (metis sublist_take sublist_drop sublist_order.order.trans)
  with Cons show ?case by (fastforce split: if_splits)
qed simp

lemma multi_verify_sound:
  assumes "CryptoMultiVerify ed_verify keys m v [] = Some part" "pk \<in> set part"
  shows "pk \<in> set keys \<and> (\<exists>s. sublist s v \<and> CryptoVerify ed_verify pk m s)"
  using assms multi_verify_loop_sound [of ed_verify m v "nIndexLen keys" keys 0 "nIndexLen keys" "[]" _ part pk]
  by (auto simp: CryptoMultiVerify_def Let_def split: if_splits option.splits)

lemma distinct_insort_insert: "distinct xs \<Longrightarrow> distinct (insort_insert k xs)"
  by (simp add: insort_insert_key_def distinct_insort)

lemma multi_verify_loop_distinct:
  "multi_verify_loop ed_verify m v n keys i pos part = Some (pos', part') \<Longrightarrow> distinct part \<Longrightarrow> distinct part'"
  by (induction keys arbitrary: i pos part) (auto split: if_splits simp: distinct_insort_insert)

lemma multi_verify_distinct: "CryptoMultiVerify ed_verify keys m v [] = Some part \<Longrightarrow> distinct part"
  by (auto simp: CryptoMultiVerify_def Let_def multi_verify_loop_distinct split: if_splits option.splits)

lemma multi_verify_loop_cong:
  assumes "length w = length v" "drop n w = drop n v"
  shows "(\<And>j. i \<le> j \<Longrightarrow> j < i + length keys \<Longrightarrow> IsSigned w n j = IsSigned v n j) \<Longrightarrow> n \<le> pos \<Longrightarrow>
    multi_verify_loop ed_verify m w n keys i pos part = multi_verify_loop ed_verify m v n keys i pos part"
proof (induction keys arbitrary: i pos part)
  case (Cons k keys)
  have "drop pos w = drop pos v" using assms(2) Cons.prems(2) by (metis drop_drop le_add_diff_inverse2)
  moreover have "IsSigned w n i = IsSigned v n i" using Cons.prems(1) [of i] by simp
  ultimately show ?case using Cons.IH [of "i + 1"] Cons.prems assms(1) by simp
qed simp

text \<open>
  Unless the number of keys is a multiple of eight, the top bit of the bitmap belongs to no key and
  is not looked at: flipping it in any signature gives another byte string with the same verdict and
  the same set of signers, so that somebody without any key can change the bytes of a signature, and
  with them the hash of the transaction that carries it.
\<close>

theorem multisig_bitmap_malleable:
  assumes "length keys mod 8 \<noteq> 0" "v \<noteq> []"
  shows "CryptoMultiVerify ed_verify keys m (v[0 := v ! 0 XOR 0x80]) setPartKey = CryptoMultiVerify ed_verify keys m v setPartKey
    \<and> v[0 := v ! 0 XOR 0x80] \<noteq> v"
proof -
  let ?n = "nIndexLen keys" and ?w = "v[0 := v ! 0 XOR 0x80]"
  have m: "(0x80 :: u8) = push_bit 7 1" by simp
  have b: "bit (0x80 :: u8) k \<longleftrightarrow> k = 7" for k
    unfolding m bit_push_bit_iff bit_1_iff by auto
  have "bit (v ! 0 XOR 0x80) 7 \<noteq> bit (v ! 0) 7" by (simp add: bit_xor_iff b)
  then have "v ! 0 XOR 0x80 \<noteq> v ! 0" by metis
  then have diff: "?w \<noteq> v" using assms(2) by (metis length_greater_0_conv nth_list_update_eq)
  have "IsSigned ?w ?n j = IsSigned v ?n j" if "j < length keys" for j
  proof (cases "?n - 1 - j div 8 = 0 \<and> j < 8 * ?n")
    case True
    have "length keys < 8 * ?n" using assms(1) length_keys_index [of keys] by (metis le_neq_implies_less mod_mult_self1_is_0)
    then have "j mod 8 \<noteq> 7" using True that by presburger
    then have "bit (v ! 0 XOR 0x80) (j mod 8) = bit (v ! 0) (j mod 8)"
      unfolding bit_xor_iff b by simp
    then show ?thesis using True assms(2) by (simp add: IsSigned_bit)
  next
    case False
    then show ?thesis by (auto simp: IsSigned_bit)
  qed
  then have "multi_verify_loop ed_verify m ?w ?n keys 0 ?n setPartKey = multi_verify_loop ed_verify m v ?n keys 0 ?n setPartKey"
    by (intro multi_verify_loop_cong) (simp_all add: nIndexLen_def drop_update_swap)
  with diff show ?thesis by (simp add: CryptoMultiVerify_def Let_def split: option.split)
qed

theorem multisig_bitmap_malleable_witness:
  "CryptoMultiVerify (\<lambda>pk m s. True) [1, 2] [] (0x81 # replicate 64 0) [] = Some [1]"
  using multisig_bitmap_malleable [of "[1, 2]" "0x01 # replicate 64 0" "\<lambda>pk m s. True" "[]" "[]"]
  by (simp add: CryptoMultiVerify_def nIndexLen_def IsSigned_def CryptoVerify_def insort_insert_key_def)

end
