(* ===== verification/Tx_Template.thy ===== *)
theory Tx_Template
  imports Core_Validate Multi_Sign
begin

text \<open>
  The templates of \<^verbatim>\<open>src/src/common/template\<close>: the data of each template class, its checks and its
  serialisation, the factory of \<^verbatim>\<open>template.cpp\<close>, and the verification and construction of signatures
  together with the signature functions of \<^verbatim>\<open>src/src/common/destination.cpp\<close>.  A virtual method is a
  case distinction over the classes.  A result \<open>Inl e\<close> is an exception that leaves the function, or,
  for \<open>OutOfBounds\<close>, a read behind the end of a buffer.  The arguments \<^verbatim>\<open>nType\<close> and \<^verbatim>\<open>hashAnchor\<close>, which
  are only passed on and never read, are left out.  The conversions from and to the messages of the
  remote procedure calls are not modelled.
\<close>

section \<open>Template ids and types\<close>

definition templateid :: "u16 \<Rightarrow> uint256 \<Rightarrow> uint256" where
  "templateid type hash = push_bit 16 hash OR ucast type"

definition templateid_GetType :: "uint256 \<Rightarrow> u16" where
  "templateid_GetType tid = ucast (Get32 tid 0 AND 0xFFFF)"

definition TNS_DEX_MIN_TX_FEE :: int where "TNS_DEX_MIN_TX_FEE = 10000"
definition TNS_DEX_MIN_MATCH_AMOUNT :: int where "TNS_DEX_MIN_MATCH_AMOUNT = 10000"
definition TNS_DEX_MAX_MATCH_TOKEN :: int where "TNS_DEX_MAX_MATCH_TOKEN = 1844674407"

definition TEMPLATE_MIN :: u16 where "TEMPLATE_MIN = 0"
definition TEMPLATE_WEIGHTED :: u16 where "TEMPLATE_WEIGHTED = 1"
definition TEMPLATE_MULTISIG :: u16 where "TEMPLATE_MULTISIG = 2"
definition TEMPLATE_PROOF :: u16 where "TEMPLATE_PROOF = 4"
definition TEMPLATE_EXCHANGE :: u16 where "TEMPLATE_EXCHANGE = 6"
definition TEMPLATE_DEXORDER :: u16 where "TEMPLATE_DEXORDER = 9"
definition TEMPLATE_DEXMATCH :: u16 where "TEMPLATE_DEXMATCH = 10"
definition TEMPLATE_MINTPLEDGE :: u16 where "TEMPLATE_MINTPLEDGE = 11"
definition TEMPLATE_MINTREDEEM :: u16 where "TEMPLATE_MINTREDEEM = 12"
definition TEMPLATE_MAX :: u16 where "TEMPLATE_MAX = 13"

lemmas template_types = TEMPLATE_WEIGHTED_def TEMPLATE_MULTISIG_def TEMPLATE_PROOF_def TEMPLATE_EXCHANGE_def
  TEMPLATE_DEXORDER_def TEMPLATE_DEXMATCH_def TEMPLATE_MINTPLEDGE_def TEMPLATE_MINTREDEEM_def

definition FEE_PRECISION :: int where "FEE_PRECISION = 10000"
definition MAX_STRING_ADDRESS_LEN :: nat where "MAX_STRING_ADDRESS_LEN = 128"
definition MAX_STRING_AMOUNT_LEN :: nat where "MAX_STRING_AMOUNT_LEN = 64"
definition MAX_KEY_NUMBER :: nat where "MAX_KEY_NUMBER = 16"

section \<open>The template classes\<close>

record CTemplateWeighted =
  tw_nRequired :: u8
  tw_mapPubKeyWeight :: "(uint256 \<times> u8) list"

record CTemplateProof =
  tp_destSpent :: CDestination
  tp_nPledgeFee :: u32

record CTemplateExchange =
  te_destSpend_m :: CDestination
  te_destSpend_s :: CDestination
  te_height_m :: u32
  te_height_s :: u32
  te_fork_m :: uint256
  te_fork_s :: uint256

record CTemplateDexOrder =
  dx_destSeller :: CDestination
  dx_vCoinPair :: "u8 list"
  dx_nPrice :: u64
  dx_nFee :: i32
  dx_vRecvDest :: "u8 list"
  dx_nValidHeight :: i32
  dx_destMatch :: CDestination
  dx_vDealDest :: "u8 list"
  dx_nTimeStamp :: u32

record CTemplateDexMatch =
  dm_destMatch :: CDestination
  dm_vCoinPair :: "u8 list"
  dm_nFinalPrice :: u64
  dm_nMatchAmount :: i64
  dm_nFee :: i32
  dm_hashSecret :: uint256
  dm_encSecret :: "u8 list"
  dm_destSellerOrder :: CDestination
  dm_destSeller :: CDestination
  dm_destSellerDeal :: CDestination
  dm_nSellerValidHeight :: i32
  dm_destBuyer :: CDestination
  dm_vBuyerAmount :: "u8 list"
  dm_hashBuyerSecret :: uint256
  dm_nBuyerValidHeight :: i32

record CTemplateMintPledge =
  mp_destOwner :: CDestination
  mp_destPowMint :: CDestination
  mp_nRewardMode :: i32

record CTemplateMintRedeem =
  mr_destOwner :: CDestination
  mr_nNonce :: i64

datatype template_obj =
    TWeighted CTemplateWeighted
  | TMultiSig CTemplateWeighted
  | TProof CTemplateProof
  | TExchange CTemplateExchange
  | TDexOrder CTemplateDexOrder
  | TDexMatch CTemplateDexMatch
  | TMintPledge CTemplateMintPledge
  | TMintRedeem CTemplateMintRedeem

text \<open>The objects the default constructors build, which \<^verbatim>\<open>clone\<close> copies.\<close>

definition weighted_default :: CTemplateWeighted where
  "weighted_default = \<lparr> tw_nRequired = 0, tw_mapPubKeyWeight = [] \<rparr>"

definition proof_default :: CTemplateProof where
  "proof_default = \<lparr> tp_destSpent = dest_null, tp_nPledgeFee = 0 \<rparr>"

definition exchange_default :: CTemplateExchange where
  "exchange_default = \<lparr> te_destSpend_m = dest_null, te_destSpend_s = dest_null, te_height_m = 0, te_height_s = 0,
     te_fork_m = 0, te_fork_s = 0 \<rparr>"

definition dexorder_default :: CTemplateDexOrder where
  "dexorder_default = \<lparr> dx_destSeller = dest_null, dx_vCoinPair = [], dx_nPrice = 0, dx_nFee = 0, dx_vRecvDest = [],
     dx_nValidHeight = 0, dx_destMatch = dest_null, dx_vDealDest = [], dx_nTimeStamp = 0 \<rparr>"

definition dexmatch_default :: CTemplateDexMatch where
  "dexmatch_default = \<lparr> dm_destMatch = dest_null, dm_vCoinPair = [], dm_nFinalPrice = 0, dm_nMatchAmount = 0, dm_nFee = 0,
     dm_hashSecret = 0, dm_encSecret = [], dm_destSellerOrder = dest_null, dm_destSeller = dest_null,
     dm_destSellerDeal = dest_null, dm_nSellerValidHeight = 0, dm_destBuyer = dest_null, dm_vBuyerAmount = [],
     dm_hashBuyerSecret = 0, dm_nBuyerValidHeight = 0 \<rparr>"

definition mintpledge_default :: CTemplateMintPledge where
  "mintpledge_default = \<lparr> mp_destOwner = dest_null, mp_destPowMint = dest_null, mp_nRewardMode = 1 \<rparr>"

definition mintredeem_default :: CTemplateMintRedeem where
  "mintredeem_default = \<lparr> mr_destOwner = dest_null, mr_nNonce = 0 \<rparr>"

section \<open>The registry of template types\<close>

record CTypeInfo =
  ti_nType :: u16
  ti_ptr :: template_obj
  ti_strName :: string

definition setTypeInfo :: "CTypeInfo list" where
  "setTypeInfo =
    [\<lparr> ti_nType = TEMPLATE_WEIGHTED, ti_ptr = TWeighted weighted_default, ti_strName = ''weighted'' \<rparr>,
     \<lparr> ti_nType = TEMPLATE_MULTISIG, ti_ptr = TMultiSig weighted_default, ti_strName = ''multisig'' \<rparr>,
     \<lparr> ti_nType = TEMPLATE_PROOF, ti_ptr = TProof proof_default, ti_strName = ''mint'' \<rparr>,
     \<lparr> ti_nType = TEMPLATE_EXCHANGE, ti_ptr = TExchange exchange_default, ti_strName = ''exchange'' \<rparr>,
     \<lparr> ti_nType = TEMPLATE_DEXORDER, ti_ptr = TDexOrder dexorder_default, ti_strName = ''dexorder'' \<rparr>,
     \<lparr> ti_nType = TEMPLATE_DEXMATCH, ti_ptr = TDexMatch dexmatch_default, ti_strName = ''dexmatch'' \<rparr>,
     \<lparr> ti_nType = TEMPLATE_MINTPLEDGE, ti_ptr = TMintPledge mintpledge_default, ti_strName = ''mintpledge'' \<rparr>,
     \<lparr> ti_nType = TEMPLATE_MINTREDEEM, ti_ptr = TMintRedeem mintredeem_default, ti_strName = ''mintredeem'' \<rparr>]"

definition GetTypeInfoByType :: "u16 \<Rightarrow> CTypeInfo option" where
  "GetTypeInfoByType nTypeIn = find (\<lambda>i. ti_nType i = nTypeIn) setTypeInfo"

definition GetTypeInfoByName :: "string \<Rightarrow> CTypeInfo option" where
  "GetTypeInfoByName strNameIn = find (\<lambda>i. ti_strName i = strNameIn) setTypeInfo"

definition template_IsValidType :: "u16 \<Rightarrow> bool" where
  "template_IsValidType nTypeIn = (nTypeIn > TEMPLATE_MIN \<and> nTypeIn < TEMPLATE_MAX)"

definition template_GetTypeName :: "u16 \<Rightarrow> string" where
  "template_GetTypeName nTypeIn = (case GetTypeInfoByType nTypeIn of Some i \<Rightarrow> ti_strName i | None \<Rightarrow> '''')"

text \<open>The casts to \<^verbatim>\<open>CSpendableTemplate\<close> and \<^verbatim>\<open>CSendToRecordedTemplate\<close>.\<close>

fun is_spendable :: "template_obj \<Rightarrow> bool" where
  "is_spendable (TWeighted _) = True"
| "is_spendable (TMultiSig _) = True"
| "is_spendable _ = False"

fun is_recorded :: "template_obj \<Rightarrow> bool" where
  "is_recorded (TProof _) = True"
| "is_recorded (TDexOrder _) = True"
| "is_recorded (TDexMatch _) = True"
| "is_recorded (TMintPledge _) = True"
| "is_recorded (TMintRedeem _) = True"
| "is_recorded _ = False"

definition IsTxSpendable :: "CDestination \<Rightarrow> bool" where
  "IsTxSpendable dest =
     (if dest_IsPubKey dest then True
      else if dest_IsTemplate dest then
        (case GetTypeInfoByType (templateid_GetType (dest_GetTemplateId dest)) of
           Some i \<Rightarrow> is_spendable (ti_ptr i) | None \<Rightarrow> False)
      else False)"

definition IsDestInRecorded :: "CDestination \<Rightarrow> bool" where
  "IsDestInRecorded dest =
     (if dest_IsTemplate dest then
        (case GetTypeInfoByType (templateid_GetType (dest_GetTemplateId dest)) of
           Some i \<Rightarrow> is_recorded (ti_ptr i) | None \<Rightarrow> False)
      else False)"

section \<open>Checks of the parameters\<close>

text \<open>The loop over the weights; \<open>None\<close> is its \<^verbatim>\<open>return false\<close>.\<close>

primrec weight_loop :: "(uint256 \<times> u8) list \<Rightarrow> int \<Rightarrow> int option" where
  "weight_loop [] nWeight = Some nWeight"
| "weight_loop (keyweight # m) nWeight =
     (if snd keyweight < 1 then None else weight_loop m (nWeight + uint (snd keyweight)))"

definition weighted_ValidateParam :: "CTemplateWeighted \<Rightarrow> bool" where
  "weighted_ValidateParam w =
     (if tw_nRequired w < 1 then False
      else if length (tw_mapPubKeyWeight w) \<le> 1 \<or> length (tw_mapPubKeyWeight w) > MAX_KEY_NUMBER then False
      else case weight_loop (tw_mapPubKeyWeight w) 0 of
        None \<Rightarrow> False | Some nWeight \<Rightarrow> \<not> nWeight < uint (tw_nRequired w))"

definition proof_ValidateParam :: "CTemplateProof \<Rightarrow> bool" where
  "proof_ValidateParam t =
     (if \<not> IsTxSpendable (tp_destSpent t) then False else if tp_nPledgeFee t > 1000 then False else True)"

definition exchange_ValidateParam :: "CTemplateExchange \<Rightarrow> bool" where
  "exchange_ValidateParam t =
     (if \<not> dest_IsPubKey (te_destSpend_m t) \<or> \<not> dest_IsPubKey (te_destSpend_s t) then False
      else if te_fork_m t = 0 \<or> te_fork_s t = 0 then False
      else if te_height_m t = 0 \<or> te_height_s t = 0 \<or> te_height_m t = te_height_s t then False else True)"

definition dexorder_ValidateParam :: "CTemplateDexOrder \<Rightarrow> bool" where
  "dexorder_ValidateParam t =
     (if \<not> IsTxSpendable (dx_destSeller t) then False
      else if dx_vCoinPair t = [] then False
      else if dx_nPrice t = 0 then False
      else if sint (dx_nFee t) \<le> 1 \<or> sint (dx_nFee t) \<ge> FEE_PRECISION then False
      else if dx_vRecvDest t = [] \<or> length (dx_vRecvDest t) > MAX_STRING_ADDRESS_LEN then False
      else if sint (dx_nValidHeight t) \<le> 0 then False
      else if \<not> IsTxSpendable (dx_destMatch t) then False
      else if dx_vDealDest t = [] \<or> length (dx_vDealDest t) > MAX_STRING_ADDRESS_LEN then False else True)"

definition dexmatch_ValidateParam :: "CTemplateDexMatch \<Rightarrow> bool" where
  "dexmatch_ValidateParam t =
     (if \<not> IsTxSpendable (dm_destMatch t) then False
      else if dm_vCoinPair t = [] then False
      else if dm_nFinalPrice t = 0 then False
      else if sint (dm_nMatchAmount t) \<le> 0 \<or> sint (dm_nMatchAmount t) > TNS_DEX_MAX_MATCH_TOKEN * COIN then False
      else if sint (dm_nFee t) \<le> 1 \<or> sint (dm_nFee t) \<ge> FEE_PRECISION then False
      else if dm_hashSecret t = 0 then False
      else if dm_encSecret t = [] then False
      else if \<not> dest_IsTemplate (dm_destSellerOrder t)
        \<or> templateid_GetType (dest_GetTemplateId (dm_destSellerOrder t)) \<noteq> TEMPLATE_DEXORDER then False
      else if \<not> IsTxSpendable (dm_destSeller t) then False
      else if \<not> IsTxSpendable (dm_destSellerDeal t) then False
      else if sint (dm_nSellerValidHeight t) \<le> 0 then False
      else if \<not> IsTxSpendable (dm_destBuyer t) then False
      else if dm_vBuyerAmount t = [] \<or> length (dm_vBuyerAmount t) > MAX_STRING_AMOUNT_LEN then False
      else if dm_hashBuyerSecret t = 0 then False
      else if sint (dm_nBuyerValidHeight t) \<le> 0 then False else True)"

definition mintpledge_ValidateParam :: "CTemplateMintPledge \<Rightarrow> bool" where
  "mintpledge_ValidateParam t =
     (if \<not> IsTxSpendable (mp_destOwner t) then False
      else if \<not> dest_IsTemplate (mp_destPowMint t)
        \<or> templateid_GetType (dest_GetTemplateId (mp_destPowMint t)) \<noteq> TEMPLATE_PROOF then False
      else if mp_nRewardMode t \<noteq> 1 \<and> mp_nRewardMode t \<noteq> 2 then False else True)"

definition mintredeem_ValidateParam :: "CTemplateMintRedeem \<Rightarrow> bool" where
  "mintredeem_ValidateParam t = (if \<not> IsTxSpendable (mr_destOwner t) then False else True)"

fun obj_ValidateParam :: "template_obj \<Rightarrow> bool" where
  "obj_ValidateParam (TWeighted t) = weighted_ValidateParam t"
| "obj_ValidateParam (TMultiSig t) = weighted_ValidateParam t"
| "obj_ValidateParam (TProof t) = proof_ValidateParam t"
| "obj_ValidateParam (TExchange t) = exchange_ValidateParam t"
| "obj_ValidateParam (TDexOrder t) = dexorder_ValidateParam t"
| "obj_ValidateParam (TDexMatch t) = dexmatch_ValidateParam t"
| "obj_ValidateParam (TMintPledge t) = mintpledge_ValidateParam t"
| "obj_ValidateParam (TMintRedeem t) = mintredeem_ValidateParam t"

section \<open>Template data\<close>

definition weighted_BuildTemplateData :: "CTemplateWeighted \<Rightarrow> u8 list" where
  "weighted_BuildTemplateData t =
     ods_push 1 (tw_nRequired t) @ ods_map (ods_push 32) (ods_push 1) (tw_mapPubKeyWeight t)"

definition proof_BuildTemplateData :: "CTemplateProof \<Rightarrow> u8 list" where
  "proof_BuildTemplateData t = dest_ToDataStream (tp_destSpent t) @ ods_push 4 (tp_nPledgeFee t)"

definition exchange_BuildTemplateData :: "CTemplateExchange \<Rightarrow> u8 list" where
  "exchange_BuildTemplateData t =
     ods_push 1 (dest_prefix (te_destSpend_m t)) @ ods_push 32 (dest_data (te_destSpend_m t)) @
     ods_push 1 (dest_prefix (te_destSpend_s t)) @ ods_push 32 (dest_data (te_destSpend_s t)) @
     ods_push 4 (te_height_m t) @ ods_push 4 (te_height_s t) @ ods_push 32 (te_fork_m t) @ ods_push 32 (te_fork_s t)"

definition dexorder_BuildTemplateData :: "CTemplateDexOrder \<Rightarrow> u8 list" where
  "dexorder_BuildTemplateData t =
     dest_ToDataStream (dx_destSeller t) @ ods_bytes (dx_vCoinPair t) @ ods_push 8 (dx_nPrice t) @ ods_push 4 (dx_nFee t) @
     ods_bytes (dx_vRecvDest t) @ ods_push 4 (dx_nValidHeight t) @ dest_ToDataStream (dx_destMatch t) @
     ods_bytes (dx_vDealDest t) @ ods_push 4 (dx_nTimeStamp t)"

definition dexmatch_BuildTemplateData :: "CTemplateDexMatch \<Rightarrow> u8 list" where
  "dexmatch_BuildTemplateData t =
     dest_ToDataStream (dm_destMatch t) @ ods_bytes (dm_vCoinPair t) @ ods_push 8 (dm_nFinalPrice t) @
     ods_push 8 (dm_nMatchAmount t) @ ods_push 4 (dm_nFee t) @ ods_push 32 (dm_hashSecret t) @ ods_bytes (dm_encSecret t) @
     dest_ToDataStream (dm_destSellerOrder t) @ dest_ToDataStream (dm_destSeller t) @ dest_ToDataStream (dm_destSellerDeal t) @
     ods_push 4 (dm_nSellerValidHeight t) @ dest_ToDataStream (dm_destBuyer t) @ ods_bytes (dm_vBuyerAmount t) @
     ods_push 32 (dm_hashBuyerSecret t) @ ods_push 4 (dm_nBuyerValidHeight t)"

definition mintpledge_BuildTemplateData :: "CTemplateMintPledge \<Rightarrow> u8 list" where
  "mintpledge_BuildTemplateData t =
     dest_ToDataStream (mp_destOwner t) @ dest_ToDataStream (mp_destPowMint t) @ ods_push 4 (mp_nRewardMode t)"

definition mintredeem_BuildTemplateData :: "CTemplateMintRedeem \<Rightarrow> u8 list" where
  "mintredeem_BuildTemplateData t = dest_ToDataStream (mr_destOwner t) @ ods_push 8 (mr_nNonce t)"

fun obj_BuildTemplateData :: "template_obj \<Rightarrow> u8 list" where
  "obj_BuildTemplateData (TWeighted t) = weighted_BuildTemplateData t"
| "obj_BuildTemplateData (TMultiSig t) = weighted_BuildTemplateData t"
| "obj_BuildTemplateData (TProof t) = proof_BuildTemplateData t"
| "obj_BuildTemplateData (TExchange t) = exchange_BuildTemplateData t"
| "obj_BuildTemplateData (TDexOrder t) = dexorder_BuildTemplateData t"
| "obj_BuildTemplateData (TDexMatch t) = dexmatch_BuildTemplateData t"
| "obj_BuildTemplateData (TMintPledge t) = mintpledge_BuildTemplateData t"
| "obj_BuildTemplateData (TMintRedeem t) = mintredeem_BuildTemplateData t"

text \<open>The readers of \<^verbatim>\<open>SetTemplateData\<close>, without its exception handler.\<close>

definition weighted_read :: "CTemplateWeighted reader" where
  "weighted_read = rbind (ids_pop 1) (\<lambda>r. rbind (ids_map (ids_pop 32) (ids_pop 1)) (\<lambda>m.
     rret \<lparr> tw_nRequired = r, tw_mapPubKeyWeight = m \<rparr>))"

definition proof_read :: "CTemplateProof reader" where
  "proof_read = rbind dest_FromDataStream (\<lambda>d. rbind (ids_pop 4) (\<lambda>f. rret \<lparr> tp_destSpent = d, tp_nPledgeFee = f \<rparr>))"

definition exchange_read :: "CTemplateExchange reader" where
  "exchange_read =
     rbind (ids_pop 1) (\<lambda>pm. rbind (ids_pop 32) (\<lambda>dm. rbind (ids_pop 1) (\<lambda>ps. rbind (ids_pop 32) (\<lambda>ds.
     rbind (ids_pop 4) (\<lambda>hm. rbind (ids_pop 4) (\<lambda>hs. rbind (ids_pop 32) (\<lambda>fm. rbind (ids_pop 32) (\<lambda>fs.
       rret \<lparr> te_destSpend_m = CDestination pm dm, te_destSpend_s = CDestination ps ds, te_height_m = hm, te_height_s = hs,
         te_fork_m = fm, te_fork_s = fs \<rparr>))))))))"

definition dexorder_read :: "CTemplateDexOrder reader" where
  "dexorder_read =
     rbind dest_FromDataStream (\<lambda>seller. rbind ids_bytes (\<lambda>pair. rbind (ids_pop 8) (\<lambda>price. rbind (ids_pop 4) (\<lambda>fee.
     rbind ids_bytes (\<lambda>recv. rbind (ids_pop 4) (\<lambda>height. rbind dest_FromDataStream (\<lambda>mtch. rbind ids_bytes (\<lambda>deal.
     rbind (ids_pop 4) (\<lambda>stamp.
       rret \<lparr> dx_destSeller = seller, dx_vCoinPair = pair, dx_nPrice = price, dx_nFee = fee, dx_vRecvDest = recv,
         dx_nValidHeight = height, dx_destMatch = mtch, dx_vDealDest = deal, dx_nTimeStamp = stamp \<rparr>)))))))))"

definition dexmatch_read :: "CTemplateDexMatch reader" where
  "dexmatch_read =
     rbind dest_FromDataStream (\<lambda>mtch. rbind ids_bytes (\<lambda>pair. rbind (ids_pop 8) (\<lambda>price. rbind (ids_pop 8) (\<lambda>amount.
     rbind (ids_pop 4) (\<lambda>fee. rbind (ids_pop 32) (\<lambda>secret. rbind ids_bytes (\<lambda>enc. rbind dest_FromDataStream (\<lambda>order.
     rbind dest_FromDataStream (\<lambda>seller. rbind dest_FromDataStream (\<lambda>deal. rbind (ids_pop 4) (\<lambda>sheight.
     rbind dest_FromDataStream (\<lambda>buyer. rbind ids_bytes (\<lambda>bamount. rbind (ids_pop 32) (\<lambda>bsecret. rbind (ids_pop 4) (\<lambda>bheight.
       rret \<lparr> dm_destMatch = mtch, dm_vCoinPair = pair, dm_nFinalPrice = price, dm_nMatchAmount = amount, dm_nFee = fee,
         dm_hashSecret = secret, dm_encSecret = enc, dm_destSellerOrder = order, dm_destSeller = seller,
         dm_destSellerDeal = deal, dm_nSellerValidHeight = sheight, dm_destBuyer = buyer, dm_vBuyerAmount = bamount,
         dm_hashBuyerSecret = bsecret, dm_nBuyerValidHeight = bheight \<rparr>)))))))))))))))"

definition mintpledge_read :: "CTemplateMintPledge reader" where
  "mintpledge_read = rbind dest_FromDataStream (\<lambda>owner. rbind dest_FromDataStream (\<lambda>pow. rbind (ids_pop 4) (\<lambda>mode.
     rret \<lparr> mp_destOwner = owner, mp_destPowMint = pow, mp_nRewardMode = mode \<rparr>)))"

definition mintredeem_read :: "CTemplateMintRedeem reader" where
  "mintredeem_read = rbind dest_FromDataStream (\<lambda>owner. rbind (ids_pop 8) (\<lambda>nonce.
     rret \<lparr> mr_destOwner = owner, mr_nNonce = nonce \<rparr>))"

text \<open>The handler catches every exception; what it cannot catch is a read outside the buffer.\<close>

definition catch_read :: "'a reader \<Rightarrow> u8 list \<Rightarrow> stream_error + 'a option" where
  "catch_read rd bs =
     (case rd bs of Inr (x, _) \<Rightarrow> Inr (Some x) | Inl OutOfBounds \<Rightarrow> Inl OutOfBounds | Inl _ \<Rightarrow> Inr None)"

definition map_result :: "('a \<Rightarrow> 'b) \<Rightarrow> stream_error + 'a option \<Rightarrow> stream_error + 'b option" where
  "map_result f = map_sum id (map_option f)"

fun obj_SetTemplateData :: "template_obj \<Rightarrow> u8 list \<Rightarrow> stream_error + template_obj option" where
  "obj_SetTemplateData (TWeighted _) vchDataIn = map_result TWeighted (catch_read weighted_read vchDataIn)"
| "obj_SetTemplateData (TMultiSig _) vchDataIn = map_result TMultiSig (catch_read weighted_read vchDataIn)"
| "obj_SetTemplateData (TProof _) vchDataIn = map_result TProof (catch_read proof_read vchDataIn)"
| "obj_SetTemplateData (TExchange _) vchDataIn = map_result TExchange (catch_read exchange_read vchDataIn)"
| "obj_SetTemplateData (TDexOrder _) vchDataIn = map_result TDexOrder (catch_read dexorder_read vchDataIn)"
| "obj_SetTemplateData (TDexMatch _) vchDataIn = map_result TDexMatch (catch_read dexmatch_read vchDataIn)"
| "obj_SetTemplateData (TMintPledge _) vchDataIn = map_result TMintPledge (catch_read mintpledge_read vchDataIn)"
| "obj_SetTemplateData (TMintRedeem _) vchDataIn = map_result TMintRedeem (catch_read mintredeem_read vchDataIn)"

section \<open>The factory\<close>

text \<open>The members of the base class, and the object of the derived class.\<close>

record CTemplate =
  tpl_nType :: u16
  tpl_nId :: uint256
  tpl_vchData :: "u8 list"
  tpl_obj :: template_obj

fun obj_nType :: "template_obj \<Rightarrow> u16" where
  "obj_nType (TWeighted _) = TEMPLATE_WEIGHTED"
| "obj_nType (TMultiSig _) = TEMPLATE_MULTISIG"
| "obj_nType (TProof _) = TEMPLATE_PROOF"
| "obj_nType (TExchange _) = TEMPLATE_EXCHANGE"
| "obj_nType (TDexOrder _) = TEMPLATE_DEXORDER"
| "obj_nType (TDexMatch _) = TEMPLATE_DEXMATCH"
| "obj_nType (TMintPledge _) = TEMPLATE_MINTPLEDGE"
| "obj_nType (TMintRedeem _) = TEMPLATE_MINTREDEEM"

definition template_BuildTemplateId :: "digest \<Rightarrow> u16 \<Rightarrow> u8 list \<Rightarrow> uint256" where
  "template_BuildTemplateId blake2b nType vchData = templateid nType (CryptoHash blake2b vchData)"

definition template_build :: "digest \<Rightarrow> template_obj \<Rightarrow> CTemplate" where
  "template_build blake2b obj =
     (let vchData = obj_BuildTemplateData obj in
      \<lparr> tpl_nType = obj_nType obj, tpl_nId = template_BuildTemplateId blake2b (obj_nType obj) vchData,
        tpl_vchData = vchData, tpl_obj = obj \<rparr>)"

definition CreateTemplatePtr_obj :: "digest \<Rightarrow> template_obj \<Rightarrow> CTemplate option" where
  "CreateTemplatePtr_obj blake2b ptr =
     (if \<not> obj_ValidateParam ptr then None else Some (template_build blake2b ptr))"

definition CreateTemplatePtr :: "digest \<Rightarrow> u16 \<Rightarrow> u8 list \<Rightarrow> stream_error + CTemplate option" where
  "CreateTemplatePtr blake2b nTypeIn vchDataIn =
     (case GetTypeInfoByType nTypeIn of
        None \<Rightarrow> Inr None
      | Some pTypeInfo \<Rightarrow>
          (case obj_SetTemplateData (ti_ptr pTypeInfo) vchDataIn of
             Inl e \<Rightarrow> Inl e
           | Inr None \<Rightarrow> Inr None
           | Inr (Some ptr) \<Rightarrow>
               if \<not> obj_ValidateParam ptr then Inr None else Inr (Some (template_build blake2b ptr))))"

definition CreateTemplatePtr_dest :: "digest \<Rightarrow> CDestination \<Rightarrow> u8 list \<Rightarrow> stream_error + CTemplate option" where
  "CreateTemplatePtr_dest blake2b destIn vchDataIn =
     CreateTemplatePtr blake2b (templateid_GetType (dest_GetTemplateId destIn)) vchDataIn"

definition template_Import :: "digest \<Rightarrow> u8 list \<Rightarrow> stream_error + CTemplate option" where
  "template_Import blake2b vchTemplateIn =
     (if length vchTemplateIn < 2 then Inr None
      else CreateTemplatePtr blake2b (ucast (vchTemplateIn ! 0) OR push_bit 8 (ucast (vchTemplateIn ! 1))) (drop 2 vchTemplateIn))"

definition template_Export :: "CTemplate \<Rightarrow> u8 list" where
  "template_Export t = ucast (tpl_nType t AND 0xff) # ucast (drop_bit 8 (tpl_nType t)) # tpl_vchData t"

section \<open>Who signs\<close>

text \<open>
  \<^verbatim>\<open>GetSignDestination\<close> updates the set of signing destinations and the rest of the signature, given as a
  pair; \<open>None\<close> is \<^verbatim>\<open>false\<close>.
\<close>

definition template_GetSignRest :: "CTemplate \<Rightarrow> u8 list \<Rightarrow> u8 list \<Rightarrow> u8 list option" where
  "template_GetSignRest t vchSig vchSubSig =
     (if vchSig \<noteq> [] then
        if length vchSig < length (tpl_vchData t) then None else Some (drop (length (tpl_vchData t)) vchSig)
      else Some vchSubSig)"

definition is_template_of :: "CDestination \<Rightarrow> u16 \<Rightarrow> bool" where
  "is_template_of dest nType = (dest_IsTemplate dest \<and> templateid_GetType (dest_GetTemplateId dest) = nType)"

fun obj_signers :: "template_obj \<Rightarrow> CTransaction \<Rightarrow> i32 \<Rightarrow> CDestination set" where
  "obj_signers (TWeighted t) tx nHeight = set (map (\<lambda>keyweight. dest_SetPubKey (fst keyweight)) (tw_mapPubKeyWeight t))"
| "obj_signers (TMultiSig t) tx nHeight = set (map (\<lambda>keyweight. dest_SetPubKey (fst keyweight)) (tw_mapPubKeyWeight t))"
| "obj_signers (TProof t) tx nHeight = {tp_destSpent t}"
| "obj_signers (TDexOrder t) tx nHeight =
     (if is_template_of (tx_sendTo tx) TEMPLATE_DEXMATCH then {dx_destMatch t} else {dx_destSeller t})"
| "obj_signers (TDexMatch t) tx nHeight =
     (if sint nHeight \<le> sint (dm_nSellerValidHeight t) then {dm_destSellerDeal t} else {dm_destSeller t})"
| "obj_signers (TMintPledge t) tx nHeight = {mp_destOwner t}"
| "obj_signers (TMintRedeem t) tx nHeight = {mr_destOwner t}"
| "obj_signers (TExchange t) tx nHeight = {}"

text \<open>The height of an exchange template is unsigned, so that the comparison is one of unsigned numbers.\<close>

definition exchange_GetSignDestination :: "CTemplateExchange \<Rightarrow> uint256 \<Rightarrow> i32 \<Rightarrow> u8 list \<Rightarrow> (CDestination set \<times> u8 list) option" where
  "exchange_GetSignDestination t hashFork nHeight vchSubSig =
     (if \<not> dest_IsPubKey (te_destSpend_m t) \<or> \<not> dest_IsPubKey (te_destSpend_s t) then None
      else if hashFork = te_fork_m t then
        if nHeight > te_height_m t then Some ({te_destSpend_m t}, vchSubSig) else Some ({te_destSpend_s t}, vchSubSig)
      else if hashFork = te_fork_s t then
        if nHeight > te_height_s t then Some ({te_destSpend_s t}, vchSubSig) else Some ({te_destSpend_m t}, vchSubSig)
      else None)"

definition template_GetSignDestination :: "CTemplate \<Rightarrow> CTransaction \<Rightarrow> uint256 \<Rightarrow> i32 \<Rightarrow> u8 list
    \<Rightarrow> u8 list \<Rightarrow> (CDestination set \<times> u8 list) option" where
  "template_GetSignDestination t tx hashFork nHeight vchSig vchSubSig =
     (case tpl_obj t of
        TExchange e \<Rightarrow> exchange_GetSignDestination e hashFork nHeight vchSubSig
      | obj \<Rightarrow>
          (case template_GetSignRest t vchSig vchSubSig of
             None \<Rightarrow> None
           | Some vchSubSig' \<Rightarrow> Some (obj_signers obj tx nHeight, vchSubSig')))"

text \<open>
  A transaction that pays to a recorded template carries the data of that template in front of its
  signature.
\<close>

definition VerifyDestRecorded :: "digest \<Rightarrow> CTransaction \<Rightarrow> stream_error + (u8 list) option" where
  "VerifyDestRecorded blake2b tx =
     (if tx_vchSig tx = [] then Inr (Some [])
      else if dest_IsTemplate (tx_sendTo tx) \<and> IsDestInRecorded (tx_sendTo tx) then
        (case CreateTemplatePtr blake2b (templateid_GetType (dest_GetTemplateId (tx_sendTo tx))) (tx_vchSig tx) of
           Inl e \<Rightarrow> Inl e
         | Inr None \<Rightarrow> Inr None
         | Inr (Some ptr) \<Rightarrow>
             if tpl_nId ptr \<noteq> dest_GetTemplateId (tx_sendTo tx) then Inr None
             else Inr (map_option snd (template_GetSignDestination ptr tx 0 0 (tx_vchSig tx) [])))
      else Inr (Some (tx_vchSig tx)))"

section \<open>Verification of signatures\<close>

text \<open>
  The functions return the result together with the flag \<^verbatim>\<open>fCompleted\<close>, which they receive and may
  leave as it is.
\<close>

definition weighted_VerifyTxSignature :: "verifier \<Rightarrow> CTemplateWeighted \<Rightarrow> uint256 \<Rightarrow> u8 list \<Rightarrow> bool \<Rightarrow> bool \<times> bool" where
  "weighted_VerifyTxSignature ed_verify t hash vchSig fCompleted =
     (let setPubKey = map fst (tw_mapPubKeyWeight t) in
      case CryptoMultiVerify ed_verify setPubKey (le_bytes 32 hash) vchSig [] of
        None \<Rightarrow> (False, fCompleted)
      | Some setPartKey \<Rightarrow>
          let nWeight = fold (\<lambda>key nWeight. case map_of (tw_mapPubKeyWeight t) key of
                Some w \<Rightarrow> nWeight + uint w | None \<Rightarrow> nWeight) setPartKey 0
          in (True, nWeight \<ge> uint (tw_nRequired t)))"

text \<open>The signature behind the two secrets of a match, when there is more than one signature's worth of bytes.\<close>

definition dexmatch_SigSub :: "u8 list \<Rightarrow> stream_error + (u8 list) option" where
  "dexmatch_SigSub vchSig =
     (if length vchSig \<le> 64 then Inr (Some vchSig)
      else catch_read (rbind ids_bytes (\<lambda>vsm. rbind ids_bytes (\<lambda>vss. ids_bytes))) vchSig)"

lemma length_obj_BuildTemplateData: "length (obj_BuildTemplateData obj) > 0"
  by (cases obj) (simp_all add: weighted_BuildTemplateData_def proof_BuildTemplateData_def exchange_BuildTemplateData_def
      dexorder_BuildTemplateData_def dexmatch_BuildTemplateData_def mintpledge_BuildTemplateData_def
      mintredeem_BuildTemplateData_def dest_ToDataStream_def)

lemma CreateTemplatePtr_build:
  "CreateTemplatePtr blake2b nType vch = Inr (Some t) \<Longrightarrow> t = template_build blake2b (tpl_obj t) \<and> obj_ValidateParam (tpl_obj t)"
  by (auto simp: CreateTemplatePtr_def template_build_def Let_def split: option.splits sum.splits if_splits)

lemma CreateTemplatePtr_data_pos: "CreateTemplatePtr blake2b nType vch = Inr (Some t) \<Longrightarrow> length (tpl_vchData t) > 0"
  using CreateTemplatePtr_build [of blake2b nType vch t] length_obj_BuildTemplateData [of "tpl_obj t"]
  by (metis (no_types, lifting) template_build_def CTemplate.select_convs(3))

lemma ids_bytes_shorter: "ids_bytes bs = Inr (x, rest) \<Longrightarrow> length x + length rest < length bs"
  by (auto simp: ids_bytes_def rbind_def ids_pop_def split: if_splits)

lemma dexmatch_SigSub_length: "dexmatch_SigSub vchSig = Inr (Some sub) \<Longrightarrow> length sub \<le> length vchSig"
  by (auto simp: dexmatch_SigSub_def catch_read_def rbind_def split: if_splits sum.splits stream_error.splits
      dest!: ids_bytes_shorter)

text \<open>
  A destination and a template may refer to each other; each template consumes its own data, so the
  recursion ends.
\<close>

function (sequential) dest_VerifyTxSignature :: "verifier \<Rightarrow> digest \<Rightarrow> CDestination \<Rightarrow> uint256 \<Rightarrow> CDestination \<Rightarrow> u8 list
    \<Rightarrow> i32 \<Rightarrow> bool \<Rightarrow> stream_error + (bool \<times> bool)"
  and template_VerifyTxSignature :: "verifier \<Rightarrow> digest \<Rightarrow> uint256 \<Rightarrow> uint256 \<Rightarrow> CDestination \<Rightarrow> u8 list
    \<Rightarrow> i32 \<Rightarrow> bool \<Rightarrow> stream_error + (bool \<times> bool)"
  and obj_VerifyTxSignature :: "verifier \<Rightarrow> digest \<Rightarrow> template_obj \<Rightarrow> uint256 \<Rightarrow> CDestination \<Rightarrow> u8 list
    \<Rightarrow> i32 \<Rightarrow> bool \<Rightarrow> stream_error + (bool \<times> bool)"
where
  "dest_VerifyTxSignature ed_verify blake2b dest hash destTo vchSig nForkHeight fCompleted =
     (if dest_IsPubKey dest then
        (let ok = pubkey_Verify ed_verify (dest_GetPubKey dest) hash vchSig in Inr (ok, ok))
      else if dest_IsTemplate dest then
        template_VerifyTxSignature ed_verify blake2b (dest_GetTemplateId dest) hash destTo vchSig nForkHeight fCompleted
      else Inr (False, fCompleted))"
| "template_VerifyTxSignature ed_verify blake2b nIdIn hash destTo vchSig nForkHeight fCompleted =
     (case CreateTemplatePtr blake2b (templateid_GetType nIdIn) vchSig of
        Inl e \<Rightarrow> Inl e
      | Inr None \<Rightarrow> Inr (False, fCompleted)
      | Inr (Some ptr) \<Rightarrow>
          if tpl_nId ptr \<noteq> nIdIn then Inr (False, fCompleted)
          else if length vchSig < length (tpl_vchData ptr) then Inl OutOfBounds
          else obj_VerifyTxSignature ed_verify blake2b (tpl_obj ptr) hash destTo
                 (drop (length (tpl_vchData ptr)) vchSig) nForkHeight fCompleted)"
| "obj_VerifyTxSignature ed_verify blake2b (TWeighted t) hash destTo vchSig nForkHeight fCompleted =
     Inr (weighted_VerifyTxSignature ed_verify t hash vchSig fCompleted)"
| "obj_VerifyTxSignature ed_verify blake2b (TMultiSig t) hash destTo vchSig nForkHeight fCompleted =
     Inr (weighted_VerifyTxSignature ed_verify t hash vchSig fCompleted)"
| "obj_VerifyTxSignature ed_verify blake2b (TProof t) hash destTo vchSig nForkHeight fCompleted =
     dest_VerifyTxSignature ed_verify blake2b (tp_destSpent t) hash destTo vchSig nForkHeight fCompleted"
| "obj_VerifyTxSignature ed_verify blake2b (TExchange t) hash destTo vchSig nForkHeight fCompleted =
     Inr (True, fCompleted)"
| "obj_VerifyTxSignature ed_verify blake2b (TDexOrder t) hash destTo vchSig nForkHeight fCompleted =
     (if is_template_of destTo TEMPLATE_DEXMATCH then
        dest_VerifyTxSignature ed_verify blake2b (dx_destMatch t) hash destTo vchSig nForkHeight fCompleted
      else dest_VerifyTxSignature ed_verify blake2b (dx_destSeller t) hash destTo vchSig nForkHeight fCompleted)"
| "obj_VerifyTxSignature ed_verify blake2b (TDexMatch t) hash destTo vchSig nForkHeight fCompleted =
     (case dexmatch_SigSub vchSig of
        Inl e \<Rightarrow> Inl e
      | Inr None \<Rightarrow> Inr (False, fCompleted)
      | Inr (Some vchSigSub) \<Rightarrow>
          if sint nForkHeight \<le> sint (dm_nSellerValidHeight t) then
            dest_VerifyTxSignature ed_verify blake2b (dm_destSellerDeal t) hash destTo vchSigSub nForkHeight fCompleted
          else dest_VerifyTxSignature ed_verify blake2b (dm_destSeller t) hash destTo vchSigSub nForkHeight fCompleted)"
| "obj_VerifyTxSignature ed_verify blake2b (TMintPledge t) hash destTo vchSig nForkHeight fCompleted =
     dest_VerifyTxSignature ed_verify blake2b (mp_destOwner t) hash destTo vchSig nForkHeight fCompleted"
| "obj_VerifyTxSignature ed_verify blake2b (TMintRedeem t) hash destTo vchSig nForkHeight fCompleted =
     dest_VerifyTxSignature ed_verify blake2b (mr_destOwner t) hash destTo vchSig nForkHeight fCompleted"
  by pat_completeness auto

termination
proof (relation "measures [\<lambda>x. case x of Inl (_, _, _, _, _, sig, _) \<Rightarrow> length sig
    | Inr (Inl (_, _, _, _, _, sig, _)) \<Rightarrow> length sig | Inr (Inr (_, _, _, _, _, sig, _)) \<Rightarrow> length sig,
  \<lambda>x. case x of Inl _ \<Rightarrow> 1 | Inr (Inl _) \<Rightarrow> 0 | Inr (Inr _) \<Rightarrow> 2]", goal_cases)
  case (3 ed_verify blake2b nIdIn hash destTo vchSig nForkHeight fCompleted r x)
  then have "length (tpl_vchData x) > 0" using CreateTemplatePtr_data_pos by blast
  with 3 have "length vchSig - length (tpl_vchData x) < length vchSig" by linarith
  then show ?case by simp
qed (auto dest!: dexmatch_SigSub_length)

declare dest_VerifyTxSignature.simps [simp del] template_VerifyTxSignature.simps [simp del]

section \<open>Exchange templates\<close>

definition EXCHANGE_DataLen :: nat where
  "EXCHANGE_DataLen = (1 + 32 + 4 + 32) * 2"

text \<open>The constructor from bytes does not catch the exceptions of the stream.\<close>

definition exchange_of_bytes :: "digest \<Rightarrow> u8 list \<Rightarrow> stream_error + CTemplate" where
  "exchange_of_bytes blake2b vchDataIn =
     (case exchange_read vchDataIn of
        Inl e \<Rightarrow> Inl e
      | Inr (t, _) \<Rightarrow>
          let vchData = take EXCHANGE_DataLen vchDataIn in
          Inr \<lparr> tpl_nType = TEMPLATE_EXCHANGE, tpl_nId = templateid TEMPLATE_EXCHANGE (CryptoHash blake2b vchData),
                tpl_vchData = vchData, tpl_obj = TExchange t \<rparr>)"

definition exchange_VerifySignature :: "verifier \<Rightarrow> CTemplateExchange \<Rightarrow> uint256 \<Rightarrow> uint256 \<Rightarrow> u8 list \<Rightarrow> i32 \<Rightarrow> uint256
    \<Rightarrow> stream_error + bool" where
  "exchange_VerifySignature ed_verify t nId hash vchSig height fork =
     (if length vchSig \<noteq> 354 then Inr False
      else case catch_read (rbind ids_bytes (\<lambda>m. rbind ids_bytes (\<lambda>s. rbind ids_bytes (\<lambda>v. rret (m, s, v)))))
             (drop EXCHANGE_DataLen vchSig) of
        Inl e \<Rightarrow> Inl e
      | Inr None \<Rightarrow> Inr False
      | Inr (Some (sign_m, sign_s, vchSig_)) \<Rightarrow>
          let pubkey_m = dest_GetPubKey (te_destSpend_m t); pubkey_s = dest_GetPubKey (te_destSpend_s t) in
          if fork = te_fork_m t then
            if height > te_height_m t then Inr (pubkey_Verify ed_verify pubkey_m hash vchSig_)
            else if pubkey_Verify ed_verify pubkey_m nId sign_m \<and> pubkey_Verify ed_verify pubkey_s nId sign_s
              then Inr (pubkey_Verify ed_verify pubkey_s hash vchSig_)
            else Inr False
          else if fork = te_fork_s t then
            if height > te_height_s t then Inr (pubkey_Verify ed_verify pubkey_s hash vchSig_)
            else if pubkey_Verify ed_verify pubkey_m nId sign_m \<and> pubkey_Verify ed_verify pubkey_s nId sign_s
              then Inr (pubkey_Verify ed_verify pubkey_m hash vchSig_)
            else Inr False
          else Inr False)"

text \<open>The check of a complete signature, which treats exchange templates apart.\<close>

definition dest_VerifyTxSignature_fork :: "verifier \<Rightarrow> digest \<Rightarrow> CDestination \<Rightarrow> uint256 \<Rightarrow> CDestination \<Rightarrow> u8 list
    \<Rightarrow> i32 \<Rightarrow> uint256 \<Rightarrow> stream_error + bool" where
  "dest_VerifyTxSignature_fork ed_verify blake2b dest hash destTo vchSig nForkHeight fork =
     (if is_template_of dest TEMPLATE_EXCHANGE then
        (case exchange_of_bytes blake2b vchSig of
           Inl e \<Rightarrow> Inl e
         | Inr sp \<Rightarrow>
             (case tpl_obj sp of
                TExchange t \<Rightarrow> exchange_VerifySignature ed_verify t (tpl_nId sp) hash vchSig nForkHeight fork
              | _ \<Rightarrow> Inr False))
      else map_sum id (\<lambda>(ok, fCompleted). ok \<and> fCompleted)
             (dest_VerifyTxSignature ed_verify blake2b dest hash destTo vchSig nForkHeight False))"

section \<open>Block signatures\<close>

definition proof_VerifyBlockSignature :: "CTemplateProof \<Rightarrow> uint256 \<Rightarrow> u8 list \<Rightarrow> bool" where
  "proof_VerifyBlockSignature t hash vchSig = False"

text \<open>The only class derived from \<^verbatim>\<open>CTemplateMint\<close> is \<^verbatim>\<open>CTemplateProof\<close>.\<close>

definition mint_VerifyBlockSignature :: "digest \<Rightarrow> uint256 \<Rightarrow> uint256 \<Rightarrow> u8 list \<Rightarrow> stream_error + bool" where
  "mint_VerifyBlockSignature blake2b nIdIn hash vchSig =
     (case CreateTemplatePtr blake2b (templateid_GetType nIdIn) vchSig of
        Inl e \<Rightarrow> Inl e
      | Inr None \<Rightarrow> Inr False
      | Inr (Some ptr) \<Rightarrow>
          (case tpl_obj ptr of
             TProof t \<Rightarrow>
               if length vchSig < length (tpl_vchData ptr) then Inl OutOfBounds
               else Inr (proof_VerifyBlockSignature t hash (drop (length (tpl_vchData ptr)) vchSig))
           | _ \<Rightarrow> Inr False))"

definition mint_BuildBlockSignature :: "CTemplateProof \<Rightarrow> u8 list \<Rightarrow> uint256 \<Rightarrow> u8 list \<Rightarrow> bool \<times> u8 list" where
  "mint_BuildBlockSignature t vchData hash vchPreSig =
     (if \<not> proof_VerifyBlockSignature t hash vchPreSig then (False, vchData) else (True, vchData @ vchPreSig))"

definition dest_VerifyBlockSignature :: "verifier \<Rightarrow> digest \<Rightarrow> CDestination \<Rightarrow> uint256 \<Rightarrow> u8 list \<Rightarrow> stream_error + bool" where
  "dest_VerifyBlockSignature ed_verify blake2b dest hash vchSig =
     (if dest_IsPubKey dest then Inr (pubkey_Verify ed_verify (dest_GetPubKey dest) hash vchSig)
      else if dest_IsTemplate dest then mint_VerifyBlockSignature blake2b (dest_GetTemplateId dest) hash vchSig
      else Inr False)"

section \<open>Construction of signatures\<close>

text \<open>
  The protected \<^verbatim>\<open>BuildTxSignature\<close> of a class extends the signature it finds, which is the template
  data; the one of the exchange template reads its secrets from there.
\<close>

definition exchange_BuildTxSignature :: "u8 list \<Rightarrow> u8 list \<Rightarrow> u8 list \<Rightarrow> stream_error + (bool \<times> u8 list)" where
  "exchange_BuildTxSignature vchData vchPreSig vchSig =
     (case catch_read (rbind ids_bytes (\<lambda>m. rbind ids_bytes (\<lambda>s. rbind (ids_pop 32 :: uint256 reader) (\<lambda>f.
             rbind (ids_pop 4 :: i32 reader) (\<lambda>h. rret (m, s)))))) vchSig of
        Inl e \<Rightarrow> Inl e
      | Inr None \<Rightarrow> Inr (False, vchSig)
      | Inr (Some (vsm, vss)) \<Rightarrow> Inr (True, vchData @ ods_bytes vsm @ ods_bytes vss @ ods_bytes vchPreSig))"

definition template_BuildTxSignature :: "verifier \<Rightarrow> digest \<Rightarrow> CTemplate \<Rightarrow> uint256 \<Rightarrow> CDestination \<Rightarrow> i32 \<Rightarrow> u8 list \<Rightarrow> bool
    \<Rightarrow> stream_error + (bool \<times> u8 list \<times> bool)" where
  "template_BuildTxSignature ed_verify blake2b t hash destTo nForkHeight vchPreSig fCompleted =
     (case obj_VerifyTxSignature ed_verify blake2b (tpl_obj t) hash destTo vchPreSig nForkHeight fCompleted of
        Inl e \<Rightarrow> Inl e
      | Inr (ok, fCompleted') \<Rightarrow>
          if \<not> ok then Inr (False, tpl_vchData t, fCompleted')
          else (case tpl_obj t of
              TExchange _ \<Rightarrow>
                map_sum id (\<lambda>(ok, vchSig). (ok, vchSig, fCompleted'))
                  (exchange_BuildTxSignature (tpl_vchData t) vchPreSig (tpl_vchData t))
            | _ \<Rightarrow> Inr (True, tpl_vchData t @ vchPreSig, fCompleted')))"

definition dexmatch_BuildTxSignature :: "u8 list \<Rightarrow> u8 list \<Rightarrow> u8 list \<Rightarrow> stream_error + (u8 list) option" where
  "dexmatch_BuildTxSignature vchData vchSignExtraData vchPreSig =
     (case (if vchSignExtraData = [] then Inr (Some ([], []))
            else catch_read (rbind ids_bytes (\<lambda>m. rbind ids_bytes (\<lambda>s. rret (m, s)))) vchSignExtraData) of
        Inl e \<Rightarrow> Inl e
      | Inr None \<Rightarrow> Inr None
      | Inr (Some (vsm, vss)) \<Rightarrow> Inr (Some (vchData @ ods_bytes vsm @ ods_bytes vss @ ods_bytes vchPreSig)))"

section \<open>Template data is read back\<close>

lemma GetType_templateid [simp]: "templateid_GetType (templateid t h) = t"
proof -
  have m: "(0xFFFF :: u32) = mask 16" by (simp add: mask_eq_exp_minus_1)
  show ?thesis unfolding templateid_GetType_def templateid_def Get32_def m
    by (rule bit_word_eqI) (auto simp: bit_simps)
qed

definition obj_ok :: "template_obj \<Rightarrow> bool" where
  "obj_ok obj = (case obj of
      TWeighted t \<Rightarrow> sorted_wrt (<) (map fst (tw_mapPubKeyWeight t))
    | TMultiSig t \<Rightarrow> sorted_wrt (<) (map fst (tw_mapPubKeyWeight t))
    | TDexOrder t \<Rightarrow> fits (dx_vCoinPair t)
    | TDexMatch t \<Rightarrow> fits (dm_vCoinPair t) \<and> fits (dm_encSecret t)
    | _ \<Rightarrow> True)"

lemmas template_laws = push_laws ddest.load_save

interpretation dmap: codec "ods_map (ods_push 32) (ods_push 1)" "ids_map (ids_pop 32 :: uint256 reader) (ids_pop 1 :: u8 reader)"
  "\<lambda>m. length (ods_map (ods_push 32 :: uint256 \<Rightarrow> _) (ods_push 1 :: u8 \<Rightarrow> _) m)"
  "\<lambda>m. fits m \<and> list_all (\<lambda>(k, v). True \<and> True) m \<and> sorted_wrt (<) (map fst m)"
  by (rule key_weight.dmap_codec)

lemma weighted_read_build:
  "fits (tw_mapPubKeyWeight t) \<Longrightarrow> sorted_wrt (<) (map fst (tw_mapPubKeyWeight t)) \<Longrightarrow>
   weighted_read (weighted_BuildTemplateData t @ rest) = Inr (t, rest)"
  by (cases t) (simp add: weighted_read_def weighted_BuildTemplateData_def push_laws dmap.load_save [unfolded One_nat_def] case_prod_unfold)

lemma fixed_read_build:
  "proof_read (proof_BuildTemplateData p @ rest) = Inr (p, rest)"
  "exchange_read (exchange_BuildTemplateData e @ rest) = Inr (e, rest)"
  "mintpledge_read (mintpledge_BuildTemplateData mp @ rest) = Inr (mp, rest)"
  "mintredeem_read (mintredeem_BuildTemplateData mr @ rest) = Inr (mr, rest)"
  by (simp_all add: proof_read_def proof_BuildTemplateData_def exchange_read_def exchange_BuildTemplateData_def
      mintpledge_read_def mintpledge_BuildTemplateData_def mintredeem_read_def mintredeem_BuildTemplateData_def template_laws)

lemma dexorder_read_build:
  "fits (dx_vCoinPair t) \<Longrightarrow> fits (dx_vRecvDest t) \<Longrightarrow> fits (dx_vDealDest t) \<Longrightarrow>
   dexorder_read (dexorder_BuildTemplateData t @ rest) = Inr (t, rest)"
  by (cases t) (simp add: dexorder_read_def dexorder_BuildTemplateData_def template_laws)

lemma dexmatch_read_build:
  "fits (dm_vCoinPair t) \<Longrightarrow> fits (dm_encSecret t) \<Longrightarrow> fits (dm_vBuyerAmount t) \<Longrightarrow>
   dexmatch_read (dexmatch_BuildTemplateData t @ rest) = Inr (t, rest)"
  by (cases t) (simp add: dexmatch_read_def dexmatch_BuildTemplateData_def template_laws)

lemma fits_small: "length xs \<le> 128 \<Longrightarrow> fits xs"
  by (simp add: fits_def)

lemma catch_read_Inr [simp]: "rd bs = Inr (x, rest) \<Longrightarrow> catch_read rd bs = Inr (Some x)"
  by (simp add: catch_read_def)

lemma map_result_Some [simp]: "map_result f (Inr (Some x)) = Inr (Some (f x))"
  by (simp add: map_result_def)

lemma SetTemplateData_build:
  assumes "obj_ok obj" "obj_ValidateParam obj" "obj_nType obj' = obj_nType obj"
  shows "obj_SetTemplateData obj' (obj_BuildTemplateData obj @ rest) = Inr (Some obj)"
proof (cases obj)
  case (TWeighted t)
  then have "fits (tw_mapPubKeyWeight t)" using assms(2)
    by (auto simp: weighted_ValidateParam_def MAX_KEY_NUMBER_def fits_def split: if_splits)
  with TWeighted assms show ?thesis
    by (cases obj') (simp_all add: template_types obj_ok_def weighted_read_build)
next
  case (TMultiSig t)
  then have "fits (tw_mapPubKeyWeight t)" using assms(2)
    by (auto simp: weighted_ValidateParam_def MAX_KEY_NUMBER_def fits_def split: if_splits)
  with TMultiSig assms show ?thesis
    by (cases obj') (simp_all add: template_types obj_ok_def weighted_read_build)
next
  case (TDexOrder t)
  then have "fits (dx_vRecvDest t)" "fits (dx_vDealDest t)" using assms(2)
    by (auto simp: dexorder_ValidateParam_def MAX_STRING_ADDRESS_LEN_def intro!: fits_small split: if_splits)
  with TDexOrder assms show ?thesis
    by (cases obj') (simp_all add: template_types obj_ok_def dexorder_read_build)
next
  case (TDexMatch t)
  then have "fits (dm_vBuyerAmount t)" using assms(2)
    by (auto simp: dexmatch_ValidateParam_def MAX_STRING_AMOUNT_LEN_def intro!: fits_small split: if_splits)
  with TDexMatch assms show ?thesis
    by (cases obj') (simp_all add: template_types obj_ok_def dexmatch_read_build)
qed (use assms in \<open>cases obj'; simp add: template_types fixed_read_build\<close>)+

lemma GetTypeInfoByType_obj: "\<exists>i. GetTypeInfoByType (obj_nType obj) = Some i \<and> obj_nType (ti_ptr i) = obj_nType obj"
  by (cases obj) (simp_all add: GetTypeInfoByType_def setTypeInfo_def template_types)

lemma CreateTemplatePtr_round_trip:
  "obj_ok obj \<Longrightarrow> obj_ValidateParam obj \<Longrightarrow>
   CreateTemplatePtr blake2b (obj_nType obj) (obj_BuildTemplateData obj @ rest) = Inr (Some (template_build blake2b obj))"
  using GetTypeInfoByType_obj [of obj] SetTemplateData_build [of obj] by (auto simp: CreateTemplatePtr_def)

lemma type_bytes: "ucast (ucast (t AND 0xff) :: u8) OR push_bit 8 (ucast (ucast (drop_bit 8 t) :: u8)) = (t :: u16)"
proof -
  have m: "(0xff :: u16) = mask 8" by (simp add: mask_eq_exp_minus_1)
  show ?thesis unfolding m by (rule bit_word_eqI) (auto simp: bit_simps)
qed

text \<open>
  C35: template data identifies its template: from the data of a valid template, followed by any
  signature, the factory builds the same template again, as it does from the exported form, and the
  type can be read from the id.
\<close>

theorem template_round_trip:
  assumes "obj_ok obj" "obj_ValidateParam obj"
  shows "CreateTemplatePtr blake2b (obj_nType obj) (obj_BuildTemplateData obj @ vchSig) = Inr (Some (template_build blake2b obj))
    \<and> template_Import blake2b (template_Export (template_build blake2b obj)) = Inr (Some (template_build blake2b obj))
    \<and> templateid_GetType (tpl_nId (template_build blake2b obj)) = obj_nType obj"
  using CreateTemplatePtr_round_trip [OF assms, of blake2b] CreateTemplatePtr_round_trip [OF assms, of blake2b "[]"]
  by (simp add: template_Import_def template_Export_def template_build_def template_BuildTemplateId_def Let_def type_bytes)

definition example_weighted :: CTemplateWeighted where
  "example_weighted = \<lparr> tw_nRequired = 2, tw_mapPubKeyWeight = [(3, 1), (5, 1)] \<rparr>"

lemma example_weighted_ok: "obj_ok (TWeighted example_weighted)" "obj_ValidateParam (TWeighted example_weighted)"
  by (simp_all add: obj_ok_def example_weighted_def weighted_ValidateParam_def MAX_KEY_NUMBER_def)

theorem template_round_trip_witness:
  "CreateTemplatePtr (\<lambda>_. 0) TEMPLATE_WEIGHTED (weighted_BuildTemplateData example_weighted @ [1, 2, 3])
     = Inr (Some (template_build (\<lambda>_. 0) (TWeighted example_weighted)))"
  using template_round_trip [OF example_weighted_ok, of "\<lambda>_. 0" "[1, 2, 3]"] by simp

section \<open>Template data lies inside the bytes it was read from\<close>

lemma le_bytes_le_word:
  assumes "LENGTH('a::len) = 8 * n" "length bs = n"
  shows "le_bytes n (le_word bs :: 'a word) = bs"
proof (rule nth_equalityI)
  fix i assume "i < length (le_bytes n (le_word bs :: 'a word))"
  then have i: "i < n" by simp
  have "bit (ucast (drop_bit (8 * i) (le_word bs :: 'a word)) :: u8) b = bit (bs ! i) b" if "b < 8" for b
  proof -
    have "8 * i + b < 8 * n" "(8 * i + b) div 8 = i" "(8 * i + b) mod 8 = b" using i that by auto
    then show ?thesis using that assms by (simp add: bit_simps bit_le_word)
  qed
  then show "le_bytes n (le_word bs :: 'a word) ! i = bs ! i"
    using i by (auto simp: le_bytes_def intro!: bit_word_eqI)
qed (simp add: assms)

text \<open>The readers that accept one encoding of each value only.\<close>

locale canonical = codec save load ssize ok for save :: "'a \<Rightarrow> u8 list" and load ssize ok +
  assumes save_load: "load bs = Inr (x, rest) \<Longrightarrow> bs = save x @ rest"
begin

lemma load_prefix: "load bs = Inr (x, rest) \<Longrightarrow> prefix (save x) bs"
  by (auto dest: save_load)

end

lemma push_canonical:
  assumes "LENGTH('a::len) = 8 * n" "ids_pop n bs = Inr (x :: 'a word, rest)"
  shows "bs = ods_push n x @ rest"
  using assms le_bytes_le_word [OF assms(1), of "take n bs"] by (auto simp: ids_pop_def ods_push_def split: if_splits)

interpretation pu8: canonical "ods_push 1" "ids_pop 1 :: u8 reader" "\<lambda>_. 1" "\<lambda>_. True"
  by unfold_locales (rule push_canonical, simp_all)

interpretation pu32: canonical "ods_push 4" "ids_pop 4 :: u32 reader" "\<lambda>_. 4" "\<lambda>_. True"
  by unfold_locales (rule push_canonical, simp_all)

interpretation pu64: canonical "ods_push 8" "ids_pop 8 :: u64 reader" "\<lambda>_. 8" "\<lambda>_. True"
  by unfold_locales (rule push_canonical, simp_all)

interpretation pu256: canonical "ods_push 32" "ids_pop 32 :: uint256 reader" "\<lambda>_. 32" "\<lambda>_. True"
  by unfold_locales (rule push_canonical, simp_all)

interpretation pdest: canonical dest_ToDataStream dest_FromDataStream "\<lambda>_. 33" "\<lambda>_. True"
proof unfold_locales
  fix bs x rest assume "dest_FromDataStream bs = Inr (x, rest)"
  then show "bs = dest_ToDataStream x @ rest"
    by (auto simp: dest_FromDataStream_def dest_ToDataStream_def rbind_def split: sum.splits prod.splits
        dest!: pu8.save_load [unfolded One_nat_def] pu256.save_load)
qed

interpretation pbytes: canonical ods_bytes ids_bytes "\<lambda>t. length (ods_bytes t)" fits
proof unfold_locales
  fix bs x rest assume a: "ids_bytes bs = Inr (x, rest)"
  then obtain w :: u64 and bs' where bs: "ids_pop 8 bs = Inr (w, bs')" "\<not> length bs' < unat w"
      "x = take (unat w) bs'" "rest = drop (unat w) bs'"
    by (auto simp: ids_bytes_def rbind_def split: sum.splits prod.splits if_splits)
  then have "length x = unat w" by simp
  then have "ods_bytes x = ods_push 8 w @ x" by (auto simp: ods_bytes_def ods_push_def)
  then show "bs = ods_bytes x @ rest" using pu64.save_load [OF bs(1)] bs(3,4) by simp
qed

end
