(* ===== verification/Template_Auth.thy ===== *)
theory Template_Auth
  imports Tx_Template
begin

text \<open>
  What the signature checks of \<^verbatim>\<open>template.cpp\<close> and \<^verbatim>\<open>destination.cpp\<close> show.  The specification is the
  relation \<open>authorised\<close>: a destination has authorised a hash when the holders of its keys have signed
  it, through the templates the destination stands for.  The check of an accepted signature gives
  this relation for every template but the exchange template, whose address is not checked.
\<close>

section \<open>The readers of template data\<close>

lemma rbind_InrE [elim!]:
  assumes "rbind m f bs = Inr r"
  obtains x rest where "m bs = Inr (x, rest)" "f x rest = Inr r"
  using assms by (auto simp: rbind_def split: sum.splits)

lemmas canonical_dests = pu8.save_load [unfolded One_nat_def] pu32.save_load pu64.save_load pu256.save_load
  pdest.save_load pbytes.save_load

lemma fixed_read_canonical:
  "proof_read bs = Inr (p, rest) \<Longrightarrow> bs = proof_BuildTemplateData p @ rest"
  "exchange_read bs = Inr (e, rest) \<Longrightarrow> bs = exchange_BuildTemplateData e @ rest"
  "mintpledge_read bs = Inr (mp, rest) \<Longrightarrow> bs = mintpledge_BuildTemplateData mp @ rest"
  "mintredeem_read bs = Inr (mr, rest) \<Longrightarrow> bs = mintredeem_BuildTemplateData mr @ rest"
  by (auto simp: proof_read_def proof_BuildTemplateData_def exchange_read_def exchange_BuildTemplateData_def
      mintpledge_read_def mintpledge_BuildTemplateData_def mintredeem_read_def mintredeem_BuildTemplateData_def
      dest!: canonical_dests)

lemma ids_bytes_fits: "ids_bytes bs = Inr (x, rest) \<Longrightarrow> bs = ods_bytes x @ rest \<and> fits x"
proof -
  assume a: "ids_bytes bs = Inr (x, rest)"
  then have "\<exists>w :: u64. length x \<le> unat w" by (auto simp: ids_bytes_def split: if_splits) (metis order_refl)
  then obtain w :: u64 where "length x \<le> unat w" by blast
  also have "unat w < 2 ^ 64" using unsigned_less [of w] by simp
  finally show ?thesis using pbytes.save_load [OF a] by (simp add: fits_def)
qed

lemmas fits_dests = pu8.save_load [unfolded One_nat_def] pu32.save_load pu64.save_load pu256.save_load
  pdest.save_load ids_bytes_fits

lemma dexorder_read_canonical:
  "dexorder_read bs = Inr (t, rest) \<Longrightarrow> bs = dexorder_BuildTemplateData t @ rest \<and> fits (dx_vCoinPair t)"
  by (auto simp: dexorder_read_def dexorder_BuildTemplateData_def dest!: fits_dests)

lemma dexmatch_read_canonical:
  "dexmatch_read bs = Inr (t, rest) \<Longrightarrow> bs = dexmatch_BuildTemplateData t @ rest \<and> fits (dm_vCoinPair t) \<and> fits (dm_encSecret t)"
  by (auto simp: dexmatch_read_def dexmatch_BuildTemplateData_def dest!: fits_dests)

text \<open>The keys of a weighted template may come in any order, so its data is only as long as what was read.\<close>

lemma set_std_insert: "set (map fst (std_insert k v m)) = insert k (set (map fst m))"
  by (induction k v m rule: std_insert.induct) auto

lemma sorted_std_insert: "sorted_wrt (<) (map fst m) \<Longrightarrow> sorted_wrt (<) (map fst (std_insert k v m))"
proof (induction k v m rule: std_insert.induct)
  case (2 k v k' v' m)
  then show ?case using set_std_insert [of k v m] by (auto simp del: set_map)
qed simp

lemma length_std_insert: "k \<notin> set (map fst m) \<Longrightarrow> length (std_insert k v m) = Suc (length m)"
  by (induction k v m rule: std_insert.induct) auto

lemma ids_pop_length: "ids_pop n bs = Inr (x, rest) \<Longrightarrow> length bs = n + length rest"
  by (auto simp: ids_pop_def split: if_splits)

lemma ids_map_loop_length:
  "ids_map_loop (ids_pop 32 :: uint256 reader) (ids_pop 1 :: u8 reader) n m bs = Inr (m', rest) \<Longrightarrow> sorted_wrt (<) (map fst m) \<Longrightarrow>
   length m' = length m + n \<and> length bs = 33 * n + length rest \<and> sorted_wrt (<) (map fst m')"
proof (induction n arbitrary: m bs)
  case (Suc n)
  then obtain k v bs1 bs2 where step: "ids_pop 32 bs = Inr (k :: uint256, bs1)" "ids_pop 1 bs1 = Inr (v :: u8, bs2)"
      "k \<notin> set (map fst m)" "ids_map_loop (ids_pop 32) (ids_pop 1) n (std_insert k v m) bs2 = Inr (m', rest)"
    by (auto split: if_splits)
  show ?case using Suc.IH [OF step(4) sorted_std_insert [OF Suc.prems(2)]] length_std_insert [OF step(3)]
      ids_pop_length [OF step(1)] ids_pop_length [OF step(2)] by simp
qed auto

lemma length_ods_map: "length (ods_map (ods_push 32 :: uint256 \<Rightarrow> _) (ods_push 1 :: u8 \<Rightarrow> _) m) = 8 + 33 * length m"
  by (induction m) (auto simp: ods_map_def)

lemma weighted_read_length:
  "weighted_read bs = Inr (t, rest) \<Longrightarrow>
   length bs = length (weighted_BuildTemplateData t) + length rest \<and> sorted_wrt (<) (map fst (tw_mapPubKeyWeight t))"
  by (auto simp: weighted_read_def weighted_BuildTemplateData_def ids_map_def length_ods_map [unfolded One_nat_def]
      dest!: ids_map_loop_length [unfolded One_nat_def] ids_pop_length)

lemma SetTemplateData_inv:
  assumes "obj_SetTemplateData p vch = Inr (Some obj)"
  shows "obj_ok obj \<and> obj_nType obj = obj_nType p \<and> length (obj_BuildTemplateData obj) \<le> length vch
    \<and> (\<not> is_spendable obj \<longrightarrow> prefix (obj_BuildTemplateData obj) vch)"
  using assms
  by (cases p) (auto simp: map_result_def catch_read_def obj_ok_def split: sum.splits stream_error.splits
      dest!: weighted_read_length fixed_read_canonical dexorder_read_canonical dexmatch_read_canonical)

lemma GetTypeInfoByType_Some: "GetTypeInfoByType nType = Some i \<Longrightarrow> ti_nType i = nType \<and> obj_nType (ti_ptr i) = nType"
  by (auto simp: GetTypeInfoByType_def setTypeInfo_def template_types split: if_splits)

lemma CreateTemplatePtr_inv:
  assumes "CreateTemplatePtr blake2b nType vch = Inr (Some t)"
  shows "t = template_build blake2b (tpl_obj t) \<and> obj_ValidateParam (tpl_obj t) \<and> obj_ok (tpl_obj t)
    \<and> obj_nType (tpl_obj t) = nType \<and> length (tpl_vchData t) \<le> length vch
    \<and> (\<not> is_spendable (tpl_obj t) \<longrightarrow> prefix (tpl_vchData t) vch)"
  using assms
  by (auto simp: CreateTemplatePtr_def template_build_def Let_def split: option.splits sum.splits if_splits
      dest!: SetTemplateData_inv GetTypeInfoByType_Some)

text \<open>
  C39: whatever bytes a signature consists of, a template built from them passes the checks of its class
  and has the type asked for, and its data is not longer than the bytes, so that the rest of the
  signature always starts inside the buffer; apart from weighted templates, whose keys may come in any
  order, the data is the beginning of the bytes.
\<close>

theorem template_data_within_signature:
  assumes "CreateTemplatePtr blake2b nType vchSig = Inr (Some t)"
  shows "obj_ValidateParam (tpl_obj t) \<and> tpl_nType t = nType \<and> 0 < length (tpl_vchData t) \<and> length (tpl_vchData t) \<le> length vchSig
    \<and> (\<not> is_spendable (tpl_obj t) \<longrightarrow> prefix (tpl_vchData t) vchSig)
    \<and> template_VerifyTxSignature ed_verify blake2b (tpl_nId t) hash destTo vchSig nForkHeight fCompleted
        = obj_VerifyTxSignature ed_verify blake2b (tpl_obj t) hash destTo (drop (length (tpl_vchData t)) vchSig) nForkHeight fCompleted"
proof -
  note inv = CreateTemplatePtr_inv [OF assms]
  then have "tpl_nType t = nType" "templateid_GetType (tpl_nId t) = nType"
    by (metis template_build_def CTemplate.select_convs(1),
        metis template_build_def template_BuildTemplateId_def CTemplate.select_convs(2) GetType_templateid)
  with inv assms CreateTemplatePtr_data_pos [OF assms] show ?thesis
    by (simp add: template_VerifyTxSignature.simps)
qed

theorem template_data_within_signature_witness:
  "length (weighted_BuildTemplateData example_weighted) \<le> 78"
proof -
  have "CreateTemplatePtr (\<lambda>_. 0) TEMPLATE_WEIGHTED (weighted_BuildTemplateData example_weighted @ [1, 2, 3])
      = Inr (Some (template_build (\<lambda>_. 0) (TWeighted example_weighted)))"
    using CreateTemplatePtr_round_trip [OF example_weighted_ok, of "\<lambda>_. 0" "[1, 2, 3]"] by simp
  from template_data_within_signature [OF this] show ?thesis
    by (simp add: template_build_def weighted_BuildTemplateData_def length_ods_map [unfolded One_nat_def] example_weighted_def)
qed

section \<open>Authorisation\<close>

definition signed_by :: "verifier \<Rightarrow> uint256 \<Rightarrow> u8 list \<Rightarrow> uint256 \<Rightarrow> bool" where
  "signed_by ed_verify hash vchSig pubkey = (\<exists>s. sublist s vchSig \<and> pubkey_Verify ed_verify pubkey hash s)"

definition template_dest :: "digest \<Rightarrow> template_obj \<Rightarrow> CDestination" where
  "template_dest blake2b obj = dest_SetTemplateId (tpl_nId (template_build blake2b obj))"

fun obj_owner :: "template_obj \<Rightarrow> CDestination \<Rightarrow> i32 \<Rightarrow> CDestination option" where
  "obj_owner (TProof t) destTo h = Some (tp_destSpent t)"
| "obj_owner (TDexOrder t) destTo h =
     Some (if is_template_of destTo TEMPLATE_DEXMATCH then dx_destMatch t else dx_destSeller t)"
| "obj_owner (TDexMatch t) destTo h =
     Some (if sint h \<le> sint (dm_nSellerValidHeight t) then dm_destSellerDeal t else dm_destSeller t)"
| "obj_owner (TMintPledge t) destTo h = Some (mp_destOwner t)"
| "obj_owner (TMintRedeem t) destTo h = Some (mr_destOwner t)"
| "obj_owner _ destTo h = None"

fun obj_weighted :: "template_obj \<Rightarrow> CTemplateWeighted option" where
  "obj_weighted (TWeighted t) = Some t"
| "obj_weighted (TMultiSig t) = Some t"
| "obj_weighted _ = None"

text \<open>
  The holder of a key has authorised the hash when the signature contains theirs; keys of enough
  weight authorise for their weighted template; every other template passes the question on to the
  destination that owns it.
\<close>

inductive authorised :: "verifier \<Rightarrow> digest \<Rightarrow> uint256 \<Rightarrow> CDestination \<Rightarrow> i32 \<Rightarrow> u8 list \<Rightarrow> CDestination \<Rightarrow> bool"
  for ed_verify blake2b hash destTo h v
where
  by_key: "signed_by ed_verify hash v pubkey \<Longrightarrow> authorised ed_verify blake2b hash destTo h v (dest_SetPubKey pubkey)"
| by_weight: "obj_ValidateParam obj \<Longrightarrow> obj_weighted obj = Some t \<Longrightarrow> distinct keys \<Longrightarrow>
    set keys \<subseteq> set (map fst (tw_mapPubKeyWeight t)) \<Longrightarrow> (\<And>key. key \<in> set keys \<Longrightarrow> signed_by ed_verify hash v key) \<Longrightarrow>
    (\<Sum>key\<leftarrow>keys. uint (the (map_of (tw_mapPubKeyWeight t) key))) \<ge> uint (tw_nRequired t) \<Longrightarrow>
    authorised ed_verify blake2b hash destTo h v (template_dest blake2b obj)"
| by_owner: "obj_ValidateParam obj \<Longrightarrow> obj_owner obj destTo h = Some d \<Longrightarrow>
    authorised ed_verify blake2b hash destTo h v d \<Longrightarrow> authorised ed_verify blake2b hash destTo h v (template_dest blake2b obj)"

lemma weight_fold:
  "set keys \<subseteq> set (map fst m) \<Longrightarrow>
   fold (\<lambda>key n. case map_of m key of Some w \<Rightarrow> n + uint w | None \<Rightarrow> n) keys n
     = n + (\<Sum>key\<leftarrow>keys. uint (the (map_of m key)))"
proof (induction keys arbitrary: n)
  case (Cons k keys)
  then obtain w where "map_of m k = Some w" by (cases "map_of m k") (auto simp: map_of_eq_None_iff)
  with Cons show ?case by simp
qed simp

lemma weighted_sound:
  assumes "weighted_VerifyTxSignature ed_verify t hash sig fc = (True, True)" "sublist sig v"
    and "obj_ValidateParam obj" "obj_weighted obj = Some t"
  shows "authorised ed_verify blake2b hash destTo h v (template_dest blake2b obj)"
proof -
  let ?m = "tw_mapPubKeyWeight t"
  obtain part where part: "CryptoMultiVerify ed_verify (map fst ?m) (le_bytes 32 hash) sig [] = Some part"
      "fold (\<lambda>key n. case map_of ?m key of Some w \<Rightarrow> n + uint w | None \<Rightarrow> n) part 0 \<ge> uint (tw_nRequired t)"
    using assms(1) by (auto simp: weighted_VerifyTxSignature_def Let_def split: option.splits)
  have sub: "set part \<subseteq> set (map fst ?m)" using multi_verify_sound [OF part(1)] by blast
  show ?thesis
  proof (rule by_weight [OF assms(3,4)])
    show "signed_by ed_verify hash v key" if "key \<in> set part" for key
      using multi_verify_sound [OF part(1) that] assms(2) sublist_order.order.trans
      by (auto simp: signed_by_def pubkey_Verify_def)
    show "(\<Sum>key\<leftarrow>part. uint (the (map_of ?m key))) \<ge> uint (tw_nRequired t)" using part(2) weight_fold [OF sub] by simp
  qed (use multi_verify_distinct [OF part(1)] sub in simp_all)
qed

lemma dexmatch_SigSub_sublist: "dexmatch_SigSub vchSig = Inr (Some sub) \<Longrightarrow> sublist sub vchSig"
proof (cases "length vchSig \<le> 64")
  case False
  assume "dexmatch_SigSub vchSig = Inr (Some sub)"
  with False obtain m s rest where "vchSig = ods_bytes m @ ods_bytes s @ ods_bytes sub @ rest"
    by (auto simp: dexmatch_SigSub_def catch_read_def split: sum.splits stream_error.splits dest!: pbytes.save_load)
  moreover obtain a where "ods_bytes sub = a @ sub" by (cases "sub = []") (auto simp: ods_bytes_def)
  ultimately have "vchSig = (ods_bytes m @ ods_bytes s @ a) @ sub @ rest" by simp
  then show ?thesis unfolding sublist_def by blast
qed (simp add: dexmatch_SigSub_def)

lemma signature_sound_aux:
  "dest_VerifyTxSignature ed_verify blake2b dest hash destTo sig h fc = Inr (True, True) \<Longrightarrow> \<not> fc \<Longrightarrow> sublist sig v \<Longrightarrow>
     authorised ed_verify blake2b hash destTo h v dest"
  "template_VerifyTxSignature ed_verify blake2b tid hash destTo sig h fc = Inr (True, True) \<Longrightarrow> \<not> fc \<Longrightarrow> sublist sig v \<Longrightarrow>
     authorised ed_verify blake2b hash destTo h v (dest_SetTemplateId tid)"
  "obj_VerifyTxSignature ed_verify blake2b obj hash destTo sig h fc = Inr (True, True) \<Longrightarrow> \<not> fc \<Longrightarrow> sublist sig v \<Longrightarrow>
     obj_ValidateParam obj \<Longrightarrow> authorised ed_verify blake2b hash destTo h v (template_dest blake2b obj)"
proof (induction ed_verify blake2b dest hash destTo sig h fc and ed_verify blake2b tid hash destTo sig h fc
    and ed_verify blake2b obj hash destTo sig h fc
    rule: dest_VerifyTxSignature_template_VerifyTxSignature_obj_VerifyTxSignature.induct)
  case (1 ed_verify blake2b dest hash destTo sig h fc)
  show ?case
  proof (cases "dest_IsPubKey dest")
    case True
    then have dest: "dest = dest_SetPubKey (dest_GetPubKey dest)"
      by (cases dest) (simp add: dest_IsPubKey_def dest_GetPubKey_def dest_SetPubKey_def)
    have "signed_by ed_verify hash v (dest_GetPubKey dest)"
      using "1.prems" True by (auto simp: dest_VerifyTxSignature.simps signed_by_def Let_def)
    then show ?thesis by (subst dest) (rule by_key)
  next
    case False
    with "1.prems" have "dest_IsTemplate dest" by (auto simp: dest_VerifyTxSignature.simps split: if_splits)
    moreover from this have "dest = dest_SetTemplateId (dest_GetTemplateId dest)"
      by (cases dest) (simp add: dest_IsTemplate_def dest_GetTemplateId_def dest_SetTemplateId_def)
    ultimately show ?thesis using "1.IH" "1.prems" False by (simp add: dest_VerifyTxSignature.simps)
  qed
next
  case (2 ed_verify blake2b tid hash destTo sig h fc)
  then obtain ptr where ptr: "CreateTemplatePtr blake2b (templateid_GetType tid) sig = Inr (Some ptr)" "tpl_nId ptr = tid"
      "\<not> length sig < length (tpl_vchData ptr)"
      "obj_VerifyTxSignature ed_verify blake2b (tpl_obj ptr) hash destTo (drop (length (tpl_vchData ptr)) sig) h fc = Inr (True, True)"
    by (auto simp: template_VerifyTxSignature.simps split: sum.splits option.splits if_splits)
  note inv = CreateTemplatePtr_inv [OF ptr(1)]
  have "sublist (drop (length (tpl_vchData ptr)) sig) v" using "2.prems"(3) by (metis sublist_drop sublist_order.order.trans)
  then have "authorised ed_verify blake2b hash destTo h v (template_dest blake2b (tpl_obj ptr))"
    using "2.IH" [OF ptr(1) refl] ptr "2.prems"(2) inv by blast
  then show ?case using inv ptr(2) by (metis template_dest_def)
next
  case (3 ed_verify blake2b t hash destTo sig h fc)
  then show ?case using weighted_sound [of ed_verify t hash sig fc v "TWeighted t"] by simp
next
  case (4 ed_verify blake2b t hash destTo sig h fc)
  then show ?case using weighted_sound [of ed_verify t hash sig fc v "TMultiSig t"] by simp
next
  case (5 ed_verify blake2b t hash destTo sig h fc)
  then show ?case by (auto intro: by_owner)
next
  case (6 ed_verify blake2b t hash destTo sig h fc)
  then show ?case by simp
next
  case (7 ed_verify blake2b t hash destTo sig h fc)
  then show ?case by (auto intro!: by_owner split: if_splits)
next
  case (8 ed_verify blake2b t hash destTo sig h fc)
  then obtain sub where sub: "dexmatch_SigSub sig = Inr (Some sub)" by (auto split: sum.splits option.splits)
  have "sublist sub v" using dexmatch_SigSub_sublist [OF sub] "8.prems"(3) sublist_order.order.trans by blast
  then show ?case using "8.IH" [OF sub refl] "8.prems" sub by (auto intro!: by_owner split: if_splits)
next
  case (9 ed_verify blake2b t hash destTo sig h fc)
  then show ?case by (auto intro: by_owner)
next
  case (10 ed_verify blake2b t hash destTo sig h fc)
  then show ?case by (auto intro: by_owner)
qed

lemma dest_signature_sound:
  assumes "dest_VerifyTxSignature_fork ed_verify blake2b dest hash destTo vchSig nForkHeight fork = Inr True"
    and "\<not> is_template_of dest TEMPLATE_EXCHANGE"
  shows "authorised ed_verify blake2b hash destTo nForkHeight vchSig dest"
proof -
  have "dest_VerifyTxSignature ed_verify blake2b dest hash destTo vchSig nForkHeight False = Inr (True, True)"
    using assms by (cases "dest_VerifyTxSignature ed_verify blake2b dest hash destTo vchSig nForkHeight False")
      (auto simp: dest_VerifyTxSignature_fork_def)
  then show ?thesis by (rule signature_sound_aux(1)) simp_all
qed

text \<open>
  C33: an accepted signature authorises: if the check of a transaction signature succeeds for a
  destination that is not an exchange template, then the signature contains valid signatures of the
  hash by the key of the destination, or by keys of its template of enough weight, or by those of the
  destination that owns its template at the given height.
\<close>

theorem accepted_signature_authorises:
  assumes "dest_VerifyTxSignature_fork ed_verify blake2b dest hash destTo vchSig nForkHeight fork = Inr True"
    and "\<not> is_template_of dest TEMPLATE_EXCHANGE"
  shows "authorised ed_verify blake2b hash destTo nForkHeight vchSig dest"
  by (rule dest_signature_sound [OF assms])

text \<open>
  C36: a signature that a template of any class but the exchange template builds is accepted for its
  id with the same completeness: the verification of what \<^verbatim>\<open>BuildTxSignature\<close> returns gives the flag
  that building it gave.  The exchange template is excepted: it overrides \<^verbatim>\<open>BuildTxSignature\<close> by a
  function that reads the two signatures to be included from the template data and not from the
  signature data it is given.
\<close>

theorem built_signature_verifies:
  assumes "obj_ok obj" "obj_ValidateParam obj" "\<And>e. obj \<noteq> TExchange e"
    and "template_BuildTxSignature ed_verify blake2b (template_build blake2b obj) hash destTo nForkHeight vchPreSig fCompleted
      = Inr (True, vchSig, fCompleted')"
  shows "dest_VerifyTxSignature ed_verify blake2b (template_dest blake2b obj) hash destTo vchSig nForkHeight fCompleted
      = Inr (True, fCompleted')"
proof -
  let ?t = "template_build blake2b obj"
  have obj: "tpl_obj ?t = obj" "tpl_vchData ?t = obj_BuildTemplateData obj"
    "templateid_GetType (tpl_nId ?t) = obj_nType obj"
    by (simp_all add: template_build_def template_BuildTemplateId_def Let_def)
  have "obj_VerifyTxSignature ed_verify blake2b obj hash destTo vchPreSig nForkHeight fCompleted = Inr (True, fCompleted')
      \<and> vchSig = obj_BuildTemplateData obj @ vchPreSig"
    using assms(3,4) unfolding template_BuildTxSignature_def obj
    by (auto split: sum.splits prod.splits if_splits template_obj.splits)
  then have "template_VerifyTxSignature ed_verify blake2b (tpl_nId ?t) hash destTo vchSig nForkHeight fCompleted = Inr (True, fCompleted')"
    using CreateTemplatePtr_round_trip [OF assms(1,2), of blake2b vchPreSig]
    by (simp add: template_VerifyTxSignature.simps obj)
  then show ?thesis
    by (simp add: dest_VerifyTxSignature.simps template_dest_def dest_SetTemplateId_def dest_IsPubKey_def dest_IsTemplate_def
        dest_GetTemplateId_def PREFIX_PUBKEY_def PREFIX_TEMPLATE_def)
qed

text \<open>Two keys of weight one that both sign.\<close>

definition example_verify :: verifier where
  "example_verify pubkey m s = (s = replicate 64 (ucast pubkey))"

definition example_sig :: "u8 list" where
  "example_sig = 3 # replicate 64 3 @ replicate 64 5"

lemma example_weighted_sig: "weighted_VerifyTxSignature example_verify example_weighted hash example_sig fc = (True, True)"
  by (simp add: weighted_VerifyTxSignature_def example_weighted_def example_sig_def CryptoMultiVerify_def nIndexLen_def
      IsSigned_def CryptoVerify_def example_verify_def insort_insert_key_def Let_def)

lemma example_weighted_dest:
  "dest_VerifyTxSignature example_verify (\<lambda>_. 0) (template_dest (\<lambda>_. 0) (TWeighted example_weighted)) 9 dest_null
     (weighted_BuildTemplateData example_weighted @ example_sig) 1 False = Inr (True, True)"
proof -
  have "template_VerifyTxSignature example_verify (\<lambda>_. 0) (tpl_nId (template_build (\<lambda>_. 0) (TWeighted example_weighted))) 9 dest_null
      (weighted_BuildTemplateData example_weighted @ example_sig) 1 False = Inr (True, True)"
    using CreateTemplatePtr_round_trip [OF example_weighted_ok, of "\<lambda>_. 0" example_sig]
    by (simp add: template_VerifyTxSignature.simps template_build_def template_BuildTemplateId_def Let_def example_weighted_sig)
  then show ?thesis
    by (simp add: dest_VerifyTxSignature.simps template_dest_def dest_SetTemplateId_def dest_IsPubKey_def dest_IsTemplate_def
        dest_GetTemplateId_def PREFIX_PUBKEY_def PREFIX_TEMPLATE_def)
qed

theorem accepted_signature_authorises_witness:
  "authorised example_verify (\<lambda>_. 0) 9 dest_null 1 (weighted_BuildTemplateData example_weighted @ example_sig)
     (template_dest (\<lambda>_. 0) (TWeighted example_weighted))"
proof (rule accepted_signature_authorises)
  show no: "\<not> is_template_of (template_dest (\<lambda>_. 0) (TWeighted example_weighted)) TEMPLATE_EXCHANGE"
    by (simp add: is_template_of_def template_dest_def dest_SetTemplateId_def dest_GetTemplateId_def template_build_def
        template_BuildTemplateId_def template_types Let_def)
  show "dest_VerifyTxSignature_fork example_verify (\<lambda>_. 0) (template_dest (\<lambda>_. 0) (TWeighted example_weighted)) 9 dest_null
      (weighted_BuildTemplateData example_weighted @ example_sig) 1 0 = Inr True"
    using no example_weighted_dest by (simp add: dest_VerifyTxSignature_fork_def)
qed

theorem built_signature_verifies_witness:
  "dest_VerifyTxSignature example_verify (\<lambda>_. 0) (template_dest (\<lambda>_. 0) (TWeighted example_weighted)) 9 dest_null
     (weighted_BuildTemplateData example_weighted @ example_sig) 1 False = Inr (True, True)"
  by (rule built_signature_verifies [OF example_weighted_ok, where vchPreSig = example_sig])
    (simp_all add: template_BuildTxSignature_def template_build_def Let_def example_weighted_sig)

section \<open>Exchange templates\<close>

text \<open>A signature for an exchange output made up by somebody with the key \<open>pubkey\<close> on the fork \<open>fork\<close>.\<close>

definition made_up_exchange :: "uint256 \<Rightarrow> uint256 \<Rightarrow> CTemplateExchange" where
  "made_up_exchange pubkey fork = \<lparr> te_destSpend_m = dest_SetPubKey pubkey, te_destSpend_s = dest_SetPubKey pubkey,
     te_height_m = 0, te_height_s = 0, te_fork_m = fork, te_fork_s = fork \<rparr>"

definition made_up_signature :: "uint256 \<Rightarrow> uint256 \<Rightarrow> u8 list \<Rightarrow> u8 list" where
  "made_up_signature pubkey fork sig = exchange_BuildTemplateData (made_up_exchange pubkey fork) @
     ods_bytes (replicate 64 0) @ ods_bytes (replicate 64 0) @ ods_bytes sig"

lemma length_exchange_data: "length (exchange_BuildTemplateData t) = EXCHANGE_DataLen"
  by (simp add: exchange_BuildTemplateData_def EXCHANGE_DataLen_def)

text \<open>
  C40: the check of a signature for an exchange template does not compare the template in the signature
  with the address that is spent.  Whoever holds any key pair can sign a transaction from any exchange
  address at any height but 0: the signature contains a template of their own choice.
\<close>

theorem exchange_address_not_checked:
  assumes "is_template_of dest TEMPLATE_EXCHANGE" "nForkHeight > 0"
    and "length (ed_sign key (le_bytes 32 hash)) = 64"
    and "ed_verify (key_pubkey key) (le_bytes 32 hash) (ed_sign key (le_bytes 32 hash))"
  shows "dest_VerifyTxSignature_fork ed_verify blake2b dest hash destTo
    (made_up_signature (key_pubkey key) fork (ed_sign key (le_bytes 32 hash))) nForkHeight fork = Inr True"
proof -
  let ?sig = "ed_sign key (le_bytes 32 hash)" and ?e = "made_up_exchange (key_pubkey key) fork"
  let ?v = "made_up_signature (key_pubkey key) fork ?sig"
  have fits: "fits ?sig" "fits (replicate 64 0 :: u8 list)" using assms(3) by (simp_all add: fits_def)
  have read: "exchange_read ?v = Inr (?e, ods_bytes (replicate 64 0) @ ods_bytes (replicate 64 0) @ ods_bytes ?sig)"
    by (simp add: made_up_signature_def fixed_read_build)
  have len: "length ?v = 354"
    using assms(3) by (simp add: made_up_signature_def length_exchange_data EXCHANGE_DataLen_def ods_bytes_def)
  have rest: "drop EXCHANGE_DataLen ?v = ods_bytes (replicate 64 0) @ ods_bytes (replicate 64 0) @ ods_bytes ?sig"
    using length_exchange_data [of ?e] by (simp add: made_up_signature_def)
  have parts: "catch_read (rbind ids_bytes (\<lambda>m. rbind ids_bytes (\<lambda>s. rbind ids_bytes (\<lambda>v. rret (m, s, v))))) (drop EXCHANGE_DataLen ?v)
      = Inr (Some (replicate 64 0, replicate 64 0, ?sig))"
    unfolding rest using fits dbytes.load_save_end [of ?sig] by (simp add: dbytes.load_save catch_read_def)
  have "pubkey_Verify ed_verify (dest_GetPubKey (te_destSpend_m ?e)) hash ?sig"
    using assms(3,4) by (simp add: pubkey_Verify_def CryptoVerify_def made_up_exchange_def dest_SetPubKey_def dest_GetPubKey_def)
  moreover have "te_fork_m ?e = fork" "te_height_m ?e = 0" by (simp_all add: made_up_exchange_def)
  ultimately show ?thesis
    using assms(1,2) len by (simp add: dest_VerifyTxSignature_fork_def exchange_of_bytes_def read Let_def
        exchange_VerifySignature_def parts)
qed

theorem exchange_address_not_checked_witness:
  "dest_VerifyTxSignature_fork example_verify (\<lambda>_. 0) (dest_SetTemplateId (templateid TEMPLATE_EXCHANGE 77)) 9 dest_null
     (made_up_signature 5 4 (replicate 64 5)) 100 4 = Inr True"
  using exchange_address_not_checked [of "dest_SetTemplateId (templateid TEMPLATE_EXCHANGE 77)" 100
      "\<lambda>k m. replicate 64 (ucast (key_pubkey k))" "example_key 5" 9 example_verify "\<lambda>_. 0" dest_null 4]
  by (simp add: is_template_of_def dest_SetTemplateId_def dest_IsTemplate_def dest_GetTemplateId_def example_key_def
      example_verify_def)

end
