(* ===== verification/Fork_Profile.thy ===== *)
theory Fork_Profile
  imports Core_Validate
begin

text \<open>
  The compact tag-value format of \<^verbatim>\<open>xengine/compacttv.h\<close>, the fork profile that is stored in it
  (\<^verbatim>\<open>common/profile.h\<close>, \<^verbatim>\<open>common/profile.cpp\<close>), the fork context (\<^verbatim>\<open>common/forkcontext.h\<close>), the
  genesis blocks and the check of an origin block (\<^verbatim>\<open>minemon/core.cpp\<close>).
\<close>

section \<open>Tag-value format\<close>

text \<open>
  \<^verbatim>\<open>TVRangeError\<close> and \<^verbatim>\<open>TVBadGet\<close> are the exceptions the class throws; \<open>TVOutOfBounds\<close> stands for
  a read past the end of the encoded bytes, which the decoder does not check.
\<close>

datatype tv_error = TVRangeError | TVBadGet | TVOutOfBounds

datatype tv_value = TVInt i64 | TVBin "u8 list"

definition COMPACT_TYPE_FALSE :: u8 where "COMPACT_TYPE_FALSE = 0x00"
definition COMPACT_TYPE_TRUE :: u8 where "COMPACT_TYPE_TRUE = 0x20"
definition COMPACT_TYPE_INT8 :: u8 where "COMPACT_TYPE_INT8 = 0x40"
definition COMPACT_TYPE_INT16 :: u8 where "COMPACT_TYPE_INT16 = 0x60"
definition COMPACT_TYPE_INT32 :: u8 where "COMPACT_TYPE_INT32 = 0x80"
definition COMPACT_TYPE_INT64 :: u8 where "COMPACT_TYPE_INT64 = 0xA0"
definition COMPACT_TYPE_INT256 :: u8 where "COMPACT_TYPE_INT256 = 0xC0"
definition COMPACT_TYPE_BINARY :: u8 where "COMPACT_TYPE_BINARY = 0xE0"

lemmas compact_types = COMPACT_TYPE_FALSE_def COMPACT_TYPE_TRUE_def COMPACT_TYPE_INT8_def COMPACT_TYPE_INT16_def
  COMPACT_TYPE_INT32_def COMPACT_TYPE_INT64_def COMPACT_TYPE_INT256_def COMPACT_TYPE_BINARY_def

type_synonym tag_map = "(nat \<times> u8 \<times> tv_value) list"

text \<open>The common front of all \<^verbatim>\<open>Push\<close> overloads: tag range and duplicates.\<close>

definition tv_Push :: "nat \<Rightarrow> u8 \<times> tv_value \<Rightarrow> tag_map \<Rightarrow> tv_error + tag_map" where
  "tv_Push nTag tv m =
     (if nTag > 31 then Inl TVRangeError
      else if nTag \<in> set (map fst m) then Inl TVRangeError
      else Inr (std_insert nTag tv m))"

definition tv_PushBytes :: "nat \<Rightarrow> u8 list \<Rightarrow> tag_map \<Rightarrow> tv_error + tag_map" where
  "tv_PushBytes nTag vch m =
     (case tv_Push nTag (COMPACT_TYPE_BINARY, TVBin vch) m of
        Inl e \<Rightarrow> Inl e
      | Inr m' \<Rightarrow> if length vch > 255 then Inl TVRangeError else Inr m')"

definition tv_PushBool :: "nat \<Rightarrow> bool \<Rightarrow> tag_map \<Rightarrow> tv_error + tag_map" where
  "tv_PushBool nTag f m = tv_Push nTag (if f then COMPACT_TYPE_TRUE else COMPACT_TYPE_FALSE, TVInt 0) m"

definition tv_Push256 :: "nat \<Rightarrow> uint256 \<Rightarrow> tag_map \<Rightarrow> tv_error + tag_map" where
  "tv_Push256 nTag t m = tv_Push nTag (COMPACT_TYPE_INT256, TVBin (le_bytes 32 t)) m"

text \<open>\<open>n\<close> is \<^verbatim>\<open>sizeof(T)\<close> and \<open>v\<close> the value converted to \<^verbatim>\<open>int64\<close>.\<close>

definition tv_PushInt :: "nat \<Rightarrow> nat \<Rightarrow> i64 \<Rightarrow> tag_map \<Rightarrow> tv_error + tag_map" where
  "tv_PushInt n nTag v m =
     (if n = 1 then tv_Push nTag (COMPACT_TYPE_INT8, TVInt v) m
      else if n = 2 then tv_Push nTag (COMPACT_TYPE_INT16, TVInt v) m
      else if n = 4 then tv_Push nTag (COMPACT_TYPE_INT32, TVInt v) m
      else if n = 8 then tv_Push nTag (COMPACT_TYPE_INT64, TVInt v) m
      else Inl TVRangeError)"

text \<open>The \<^verbatim>\<open>Get\<close> overloads: \<open>Inr None\<close> is the return value false.\<close>

definition tv_GetBytes :: "nat \<Rightarrow> tag_map \<Rightarrow> tv_error + u8 list option" where
  "tv_GetBytes nTag m =
     (case map_of m nTag of
        None \<Rightarrow> Inr None
      | Some (ty, v) \<Rightarrow> if ty \<noteq> COMPACT_TYPE_BINARY then Inl TVRangeError
          else (case v of TVBin vch \<Rightarrow> Inr (Some vch) | TVInt _ \<Rightarrow> Inl TVBadGet))"

definition tv_GetBool :: "nat \<Rightarrow> tag_map \<Rightarrow> tv_error + bool option" where
  "tv_GetBool nTag m =
     (case map_of m nTag of
        None \<Rightarrow> Inr None
      | Some (ty, v) \<Rightarrow> if ty \<noteq> COMPACT_TYPE_TRUE \<and> ty \<noteq> COMPACT_TYPE_FALSE then Inl TVRangeError
          else Inr (Some (ty = COMPACT_TYPE_TRUE)))"

definition tv_GetInt :: "nat \<Rightarrow> tag_map \<Rightarrow> tv_error + 'a::len word option" where
  "tv_GetInt nTag m =
     (case map_of m nTag of
        None \<Rightarrow> Inr None
      | Some (ty, v) \<Rightarrow> if ty = COMPACT_TYPE_INT256 then Inl TVRangeError
          else (case v of TVInt w \<Rightarrow> Inr (Some (ucast w)) | TVBin _ \<Rightarrow> Inl TVBadGet))"

definition tv_Get256 :: "nat \<Rightarrow> tag_map \<Rightarrow> tv_error + uint256 option" where
  "tv_Get256 nTag m =
     (case map_of m nTag of
        None \<Rightarrow> Inr None
      | Some (ty, v) \<Rightarrow> if ty \<noteq> COMPACT_TYPE_INT256 then Inl TVRangeError
          else (case v of TVBin vch \<Rightarrow> Inr (Some (le_word vch)) | TVInt _ \<Rightarrow> Inl TVBadGet))"

definition tv_len :: "u8 \<Rightarrow> nat" where
  "tv_len ty = (if ty = COMPACT_TYPE_INT8 then 1 else if ty = COMPACT_TYPE_INT16 then 2
     else if ty = COMPACT_TYPE_INT32 then 4 else if ty = COMPACT_TYPE_INT64 then 8 else 0)"

fun tv_encode_entry :: "nat \<times> u8 \<times> tv_value \<Rightarrow> u8 list" where
  "tv_encode_entry (nTag, ty, TVBin vch) =
     (of_nat nTag OR ty) # (if ty = COMPACT_TYPE_BINARY then of_nat (length vch) # vch else vch)"
| "tv_encode_entry (nTag, ty, TVInt value) = (of_nat nTag OR ty) # le_bytes (tv_len ty) value"

definition tv_Encode :: "tag_map \<Rightarrow> u8 list" where
  "tv_Encode m = concat (map tv_encode_entry m)"

function tv_decode_loop :: "tag_map \<Rightarrow> u8 list \<Rightarrow> tv_error + tag_map" where
  "tv_decode_loop m [] = Inr m"
| "tv_decode_loop m (c # bs) =
     (let tag = unat (c AND 0x1f); ty = c AND 0xe0 in
      if ty = COMPACT_TYPE_BINARY then
        (case bs of
           [] \<Rightarrow> Inl TVOutOfBounds
         | sz # bs' \<Rightarrow>
             if length bs' < unat sz then Inl TVOutOfBounds
             else if tag \<in> set (map fst m) then Inl TVRangeError
             else tv_decode_loop (std_insert tag (ty, TVBin (take (unat sz) bs')) m) (drop (unat sz) bs'))
      else if ty = COMPACT_TYPE_INT256 then
        (if length bs < 32 then Inl TVOutOfBounds
         else if tag \<in> set (map fst m) then Inl TVRangeError
         else tv_decode_loop (std_insert tag (ty, TVBin (take 32 bs)) m) (drop 32 bs))
      else
        (if length bs < tv_len ty then Inl TVOutOfBounds
         else if tag \<in> set (map fst m) then Inl TVRangeError
         else tv_decode_loop (std_insert tag (ty, TVInt (le_word (take (tv_len ty) bs))) m) (drop (tv_len ty) bs)))"
  by pat_completeness auto
termination by (relation "measure (\<lambda>(m, bs). length bs)") auto

declare tv_decode_loop.simps(2) [simp del]

definition tv_Decode :: "u8 list \<Rightarrow> tv_error + tag_map" where
  "tv_Decode vchEncoded = tv_decode_loop [] vchEncoded"

text \<open>
  What the encoder can hold.  The decoder zero-extends integers, so an integer comes back as the bytes
  that were written for it; \<^verbatim>\<open>Get\<close> reads no more bytes than that for the type that was pushed.
\<close>

fun tv_entry_ok :: "nat \<times> u8 \<times> tv_value \<Rightarrow> bool" where
  "tv_entry_ok (nTag, ty, TVBin vch) \<longleftrightarrow> nTag < 32 \<and>
     (ty = COMPACT_TYPE_BINARY \<and> length vch \<le> 255 \<or> ty = COMPACT_TYPE_INT256 \<and> length vch = 32)"
| "tv_entry_ok (nTag, ty, TVInt value) \<longleftrightarrow> nTag < 32 \<and> ty \<in> {COMPACT_TYPE_FALSE, COMPACT_TYPE_TRUE, COMPACT_TYPE_INT8,
     COMPACT_TYPE_INT16, COMPACT_TYPE_INT32, COMPACT_TYPE_INT64}"

fun tv_zero_extend :: "nat \<times> u8 \<times> tv_value \<Rightarrow> nat \<times> u8 \<times> tv_value" where
  "tv_zero_extend (nTag, ty, TVBin vch) = (nTag, ty, TVBin vch)"
| "tv_zero_extend (nTag, ty, TVInt value) = (nTag, ty, TVInt (take_bit (8 * tv_len ty) value))"

lemma fst_tv_zero_extend [simp]: "fst (tv_zero_extend e) = fst e"
  by (cases e rule: tv_zero_extend.cases) simp_all

lemma tag_bits: "\<forall>t\<in>set [0..<32]. unat (of_nat t AND 0x1f :: u8) = t \<and> (of_nat t AND 0xe0 :: u8) = 0"
  by code_simp

lemma header_byte:
  assumes "nTag < 32" "(ty :: u8) AND 0x1f = 0" "ty AND 0xe0 = ty"
  shows "unat ((of_nat nTag OR ty) AND 0x1f) = nTag" "(of_nat nTag OR ty) AND 0xe0 = ty"
  using tag_bits assms by (simp_all add: bit.conj_disj_distrib2)

lemma tv_decode_entry:
  assumes ok: "tv_entry_ok e" and "fst e \<notin> set (map fst m)"
  shows "tv_decode_loop m (tv_encode_entry e @ bs) = tv_decode_loop (std_insert (fst e) (snd (tv_zero_extend e)) m) bs"
proof (cases e rule: tv_entry_ok.cases)
  case (1 nTag ty vch)
  with ok have ty: "ty AND 0x1f = 0" "ty AND 0xe0 = ty" "nTag < 32" by (auto simp: compact_types)
  have "length vch \<le> 255 \<Longrightarrow> unat (of_nat (length vch) :: u8) = length vch" by (simp add: unat_of_nat)
  with 1 assms header_byte [OF ty(3,1,2)] show ?thesis
    by (auto simp: tv_decode_loop.simps(2) Let_def compact_types)
next
  case (2 nTag ty w)
  with ok have ty: "ty AND 0x1f = 0" "ty AND 0xe0 = ty" "nTag < 32" by (auto simp: compact_types)
  have "ty \<noteq> COMPACT_TYPE_BINARY" "ty \<noteq> COMPACT_TYPE_INT256" using ok 2 by (auto simp: compact_types)
  with 2 assms header_byte [OF ty(3,1,2)] show ?thesis
    by (simp add: tv_decode_loop.simps(2) Let_def le_word_le_bytes_take)
qed

lemma tv_decode_loop_encode:
  "list_all tv_entry_ok es \<Longrightarrow> sorted_wrt (<) (map fst (m @ es)) \<Longrightarrow>
   tv_decode_loop m (concat (map tv_encode_entry es)) = Inr (m @ map tv_zero_extend es)"
proof (induction es arbitrary: m)
  case (Cons e es)
  have le: "\<forall>k\<in>set (map fst m). k < fst e" using Cons.prems(2) by (auto simp: sorted_wrt_append)
  then have "fst e \<notin> set (map fst m)" by auto
  moreover have "std_insert (fst e) (snd (tv_zero_extend e)) m = m @ [tv_zero_extend e]"
    using std_insert_last [OF le] by (metis fst_tv_zero_extend prod.collapse)
  ultimately show ?case
    using Cons.IH [of "m @ [tv_zero_extend e]"] Cons.prems tv_decode_entry [of e m] by simp
qed simp

section \<open>CProfile\<close>

record CProfile =
  pf_nVersion :: i32
  pf_strName :: "u8 list"
  pf_strSymbol :: "u8 list"
  pf_nFlag :: u8
  pf_nAmount :: i64
  pf_nMintReward :: i64
  pf_nMinTxFee :: i64
  pf_nHalveCycle :: u32
  pf_destOwner :: CDestination
  pf_hashParent :: uint256
  pf_nJointHeight :: i32

definition PROFILE_FLAG_ISOLATED :: u8 where "PROFILE_FLAG_ISOLATED = 1"
definition PROFILE_FLAG_PRIVATE :: u8 where "PROFILE_FLAG_PRIVATE = 2"
definition PROFILE_FLAG_ENCLOSED :: u8 where "PROFILE_FLAG_ENCLOSED = 4"

definition profile_SetNull :: CProfile where
  "profile_SetNull = \<lparr> pf_nVersion = 1, pf_strName = [], pf_strSymbol = [], pf_nFlag = 0, pf_nAmount = 0,
     pf_nMintReward = 0, pf_nMinTxFee = 0, pf_nHalveCycle = 0, pf_destOwner = dest_null, pf_hashParent = 0,
     pf_nJointHeight = - 1 \<rparr>"

definition profile_IsNull :: "CProfile \<Rightarrow> bool" where
  "profile_IsNull p = (pf_strName p = [])"

definition profile_IsIsolated :: "CProfile \<Rightarrow> bool" where
  "profile_IsIsolated p = (pf_nFlag p AND PROFILE_FLAG_ISOLATED \<noteq> 0)"

definition profile_IsPrivate :: "CProfile \<Rightarrow> bool" where
  "profile_IsPrivate p = (pf_nFlag p AND PROFILE_FLAG_PRIVATE \<noteq> 0)"

definition profile_IsEnclosed :: "CProfile \<Rightarrow> bool" where
  "profile_IsEnclosed p = (pf_nFlag p AND PROFILE_FLAG_ENCLOSED \<noteq> 0)"

definition profile_SetFlag :: "bool \<Rightarrow> bool \<Rightarrow> bool \<Rightarrow> CProfile \<Rightarrow> CProfile" where
  "profile_SetFlag fIsolated fPrivate fEnclosed p =
     p\<lparr> pf_nFlag := ((0 OR (if fIsolated then PROFILE_FLAG_ISOLATED else 0))
         OR (if fPrivate then PROFILE_FLAG_PRIVATE else 0)) OR (if fEnclosed then PROFILE_FLAG_ENCLOSED else 0) \<rparr>"

text \<open>Sequencing of pushes, the first exception ends the sequence.\<close>

fun tv_seq :: "(tag_map \<Rightarrow> tv_error + tag_map) list \<Rightarrow> tag_map \<Rightarrow> tv_error + tag_map" where
  "tv_seq [] m = Inr m"
| "tv_seq (f # fs) m = (case f m of Inl e \<Rightarrow> Inl e | Inr m' \<Rightarrow> tv_seq fs m')"

definition profile_Save :: "CProfile \<Rightarrow> u8 list option" where
  "profile_Save p =
     (case tv_seq ([tv_PushInt 4 0 (scast (pf_nVersion p)), tv_PushBytes 1 (pf_strName p),
             tv_PushBytes 2 (pf_strSymbol p), tv_PushInt 1 3 (ucast (pf_nFlag p)), tv_PushInt 8 4 (pf_nAmount p),
             tv_PushInt 8 5 (pf_nMintReward p), tv_PushInt 8 6 (pf_nMinTxFee p),
             tv_PushInt 4 7 (ucast (pf_nHalveCycle p)), tv_PushBytes 8 (dest_ToDataStream (pf_destOwner p))] @
           (if pf_hashParent p \<noteq> 0
            then [tv_Push256 9 (pf_hashParent p), tv_PushInt 4 10 (scast (pf_nJointHeight p))] else [])) [] of
        Inl _ \<Rightarrow> None
      | Inr m \<Rightarrow> Some (tv_Encode m))"

text \<open>
  \<^verbatim>\<open>Load\<close>: \<open>need\<close> is the pattern \<^verbatim>\<open>if (!decoder.Get(...)) return false\<close>.  An exception is caught and
  gives false; what a failed load leaves in the object is not modelled, no caller reads it.
\<close>

definition need :: "tv_error + 'a option \<Rightarrow> ('a \<Rightarrow> tv_error + 'b option) \<Rightarrow> tv_error + 'b option" where
  "need g k = (case g of Inl e \<Rightarrow> Inl e | Inr None \<Rightarrow> Inr None | Inr (Some x) \<Rightarrow> k x)"

definition may :: "tv_error + 'a option \<Rightarrow> ('a option \<Rightarrow> tv_error + 'b option) \<Rightarrow> tv_error + 'b option" where
  "may g k = (case g of Inl e \<Rightarrow> Inl e | Inr x \<Rightarrow> k x)"

definition profile_read :: "tag_map \<Rightarrow> tv_error + CProfile option" where
  "profile_read m =
     need (tv_GetInt 0 m) (\<lambda>ver. if ver \<noteq> 1 then Inr None else
     need (tv_GetBytes 1 m) (\<lambda>name. need (tv_GetBytes 2 m) (\<lambda>symbol. need (tv_GetInt 3 m) (\<lambda>flag.
     need (tv_GetInt 4 m) (\<lambda>amount. need (tv_GetInt 5 m) (\<lambda>reward. need (tv_GetInt 6 m) (\<lambda>fee.
     need (tv_GetInt 7 m) (\<lambda>halve. may (tv_Get256 9 m) (\<lambda>par.
     let parent = (case par of None \<Rightarrow> 0 | Some h \<Rightarrow> h) in
     may (tv_GetInt 10 m) (\<lambda>joint.
     if joint = None \<and> parent \<noteq> 0 then Inr None else
     may (tv_GetBytes 8 m) (\<lambda>own.
       let p = \<lparr> pf_nVersion = ver, pf_strName = name, pf_strSymbol = symbol, pf_nFlag = flag, pf_nAmount = amount,
             pf_nMintReward = reward, pf_nMinTxFee = fee, pf_nHalveCycle = halve, pf_destOwner = dest_null,
             pf_hashParent = parent, pf_nJointHeight = (case joint of None \<Rightarrow> - 1 | Some j \<Rightarrow> j) \<rparr>
       in case own of
            None \<Rightarrow> Inr (Some p)
          | Some vch \<Rightarrow> (case dest_FromDataStream vch of
                Inl _ \<Rightarrow> Inl TVRangeError
              | Inr (d, _) \<Rightarrow> Inr (Some (p\<lparr> pf_destOwner := d \<rparr>))))))))))))))"

definition tv_catch :: "tv_error + 'a option \<Rightarrow> tv_error + 'a option" where
  "tv_catch r = (case r of Inl TVOutOfBounds \<Rightarrow> Inl TVOutOfBounds | Inl _ \<Rightarrow> Inr None | Inr x \<Rightarrow> Inr x)"

definition profile_Load :: "u8 list \<Rightarrow> tv_error + CProfile option" where
  "profile_Load vchProfile =
     tv_catch (case tv_Decode vchProfile of Inl e \<Rightarrow> Inl e | Inr m \<Rightarrow> profile_read m)"

text \<open>The entries that \<^verbatim>\<open>Save\<close> pushes, in tag order.\<close>

definition profile_entries :: "CProfile \<Rightarrow> tag_map" where
  "profile_entries p =
     [(0, COMPACT_TYPE_INT32, TVInt (scast (pf_nVersion p))), (1, COMPACT_TYPE_BINARY, TVBin (pf_strName p)),
      (2, COMPACT_TYPE_BINARY, TVBin (pf_strSymbol p)), (3, COMPACT_TYPE_INT8, TVInt (ucast (pf_nFlag p))),
      (4, COMPACT_TYPE_INT64, TVInt (pf_nAmount p)), (5, COMPACT_TYPE_INT64, TVInt (pf_nMintReward p)),
      (6, COMPACT_TYPE_INT64, TVInt (pf_nMinTxFee p)), (7, COMPACT_TYPE_INT32, TVInt (ucast (pf_nHalveCycle p))),
      (8, COMPACT_TYPE_BINARY, TVBin (dest_ToDataStream (pf_destOwner p)))] @
     (if pf_hashParent p \<noteq> 0
      then [(9, COMPACT_TYPE_INT256, TVBin (le_bytes 32 (pf_hashParent p))),
            (10, COMPACT_TYPE_INT32, TVInt (scast (pf_nJointHeight p)))] else [])"

lemma length_dest_ToDataStream: "length (dest_ToDataStream d) = 33"
  by (simp add: dest_ToDataStream_def ods_push_def)

lemma profile_Save_entries:
  "profile_Save p = (if length (pf_strName p) \<le> 255 \<and> length (pf_strSymbol p) \<le> 255
     then Some (tv_Encode (profile_entries p)) else None)"
  by (simp add: profile_Save_def profile_entries_def tv_PushInt_def tv_PushBytes_def tv_Push_def tv_Push256_def
      length_dest_ToDataStream)

lemma profile_entries_ok:
  assumes "length (pf_strName p) \<le> 255" "length (pf_strSymbol p) \<le> 255"
  shows "list_all tv_entry_ok (profile_entries p)" "sorted_wrt (<) (map fst (profile_entries p))"
  using assms by (cases "pf_hashParent p = 0"; simp add: profile_entries_def length_dest_ToDataStream)+

lemma tv_Decode_profile:
  assumes "length (pf_strName p) \<le> 255" "length (pf_strSymbol p) \<le> 255"
  shows "tv_Decode (tv_Encode (profile_entries p)) = Inr (map tv_zero_extend (profile_entries p))"
  using tv_decode_loop_encode [of "profile_entries p" "[]"] profile_entries_ok [OF assms]
  by (simp add: tv_Decode_def tv_Encode_def)

lemma low_bytes [simp]:
  "ucast (take_bit 32 (scast (v :: i32) :: i64)) = v" "ucast (take_bit 32 (ucast (u :: u32) :: i64)) = u"
  "ucast (take_bit 8 (ucast (b :: u8) :: i64)) = b" "take_bit 64 (w :: i64) = w"
  by (rule bit_word_eqI; simp add: bit_simps)+

definition profile_ok :: "CProfile \<Rightarrow> bool" where
  "profile_ok p = (pf_nVersion p = 1 \<and> length (pf_strName p) \<le> 255 \<and> length (pf_strSymbol p) \<le> 255
     \<and> (pf_hashParent p = 0 \<longrightarrow> pf_nJointHeight p = - 1))"

lemma dest_stream_all: "dest_FromDataStream (dest_ToDataStream d) = Inr (d, [])"
  using ddest.load_save_end [of d] by simp

lemma profile_round_trip_aux:
  assumes "profile_ok p"
  shows "profile_Load (tv_Encode (profile_entries p)) = Inr (Some p)"
proof -
  have "profile_read (map tv_zero_extend (profile_entries p)) = Inr (Some p)"
    using assms
    by (cases "pf_hashParent p = 0")
      (simp_all add: profile_ok_def profile_entries_def profile_read_def need_def may_def tv_GetInt_def tv_GetBytes_def
        tv_Get256_def compact_types tv_len_def dest_stream_all)
  then show ?thesis
    using assms by (simp add: profile_Load_def tv_Decode_profile profile_ok_def tv_catch_def)
qed

text \<open>
  A fork profile survives its encoding: \<^verbatim>\<open>Save\<close> succeeds exactly when name and symbol have at most
  255 bytes, and \<^verbatim>\<open>Load\<close> of what was saved returns the same profile if its version is 1 and it has no
  joint height without a parent.
\<close>

theorem CProfile_round_trip:
  "(profile_Save p \<noteq> None \<longleftrightarrow> length (pf_strName p) \<le> 255 \<and> length (pf_strSymbol p) \<le> 255)
   \<and> (profile_ok p \<longrightarrow> (\<exists>vch. profile_Save p = Some vch \<and> profile_Load vch = Inr (Some p)))"
  using profile_round_trip_aux [of p] by (auto simp: profile_Save_entries profile_ok_def)

definition example_profile :: CProfile where
  "example_profile = profile_SetNull\<lparr> pf_strName := [77, 97, 109], pf_strSymbol := [77], pf_nFlag := 3, pf_nAmount := 5,
     pf_nMintReward := - 7, pf_destOwner := dest_SetPubKey 9, pf_hashParent := 11, pf_nJointHeight := - 2 \<rparr>"

theorem CProfile_round_trip_witness:
  "\<exists>vch. profile_Save example_profile = Some vch \<and> profile_Load vch = Inr (Some example_profile)"
  using CProfile_round_trip [of example_profile] by (simp add: profile_ok_def example_profile_def profile_SetNull_def)

section \<open>CForkContext\<close>

record CForkContext =
  fc_strName :: "u8 list"
  fc_strSymbol :: "u8 list"
  fc_hashFork :: uint256
  fc_hashParent :: uint256
  fc_hashJoint :: uint256
  fc_txidEmbedded :: uint256
  fc_nVersion :: u16
  fc_nFlag :: u16
  fc_nAmount :: i64
  fc_nMintReward :: i64
  fc_nMinTxFee :: i64
  fc_nHalveCycle :: u32
  fc_nJointHeight :: i32
  fc_destOwner :: CDestination

definition fork_SetNull :: CForkContext where
  "fork_SetNull = \<lparr> fc_strName = [], fc_strSymbol = [], fc_hashFork = 0, fc_hashParent = 0, fc_hashJoint = 0,
     fc_txidEmbedded = 0, fc_nVersion = 1, fc_nFlag = 0, fc_nAmount = 0, fc_nMintReward = 0, fc_nMinTxFee = 0,
     fc_nHalveCycle = 0, fc_nJointHeight = - 1, fc_destOwner = dest_null \<rparr>"

definition fork_context :: "uint256 \<Rightarrow> uint256 \<Rightarrow> uint256 \<Rightarrow> CProfile \<Rightarrow> CForkContext" where
  "fork_context hashFork hashJoint txidEmbedded profile =
     \<lparr> fc_strName = pf_strName profile, fc_strSymbol = pf_strSymbol profile, fc_hashFork = hashFork,
       fc_hashParent = pf_hashParent profile, fc_hashJoint = hashJoint, fc_txidEmbedded = txidEmbedded,
       fc_nVersion = ucast (pf_nVersion profile), fc_nFlag = ucast (pf_nFlag profile),
       fc_nAmount = pf_nAmount profile, fc_nMintReward = pf_nMintReward profile,
       fc_nMinTxFee = pf_nMinTxFee profile, fc_nHalveCycle = pf_nHalveCycle profile,
       fc_nJointHeight = pf_nJointHeight profile, fc_destOwner = pf_destOwner profile \<rparr>"

definition fork_IsNull :: "CForkContext \<Rightarrow> bool" where
  "fork_IsNull c = (fc_strName c = [])"

definition fork_IsIsolated :: "CForkContext \<Rightarrow> bool" where
  "fork_IsIsolated c = (fc_nFlag c AND 1 \<noteq> 0)"

definition fork_IsPrivate :: "CForkContext \<Rightarrow> bool" where
  "fork_IsPrivate c = (fc_nFlag c AND 2 \<noteq> 0)"

definition fork_IsEnclosed :: "CForkContext \<Rightarrow> bool" where
  "fork_IsEnclosed c = (fc_nFlag c AND 4 \<noteq> 0)"

definition fork_SetFlag :: "u16 \<Rightarrow> CForkContext \<Rightarrow> CForkContext" where
  "fork_SetFlag flag c = c\<lparr> fc_nFlag := fc_nFlag c OR flag \<rparr>"

definition fork_ResetFlag :: "u16 \<Rightarrow> CForkContext \<Rightarrow> CForkContext" where
  "fork_ResetFlag flag c = c\<lparr> fc_nFlag := fc_nFlag c AND NOT flag \<rparr>"

definition fork_SetFlags :: "bool \<Rightarrow> bool \<Rightarrow> bool \<Rightarrow> CForkContext \<Rightarrow> CForkContext" where
  "fork_SetFlags fIsolated fPrivate fEnclosed c =
     c\<lparr> fc_nFlag := ((0 OR (if fIsolated then 1 else 0)) OR (if fPrivate then 2 else 0)) OR (if fEnclosed then 4 else 0) \<rparr>"

definition fork_GetProfile :: "CForkContext \<Rightarrow> CProfile" where
  "fork_GetProfile c =
     \<lparr> pf_nVersion = ucast (fc_nVersion c), pf_strName = fc_strName c, pf_strSymbol = fc_strSymbol c,
       pf_nFlag = ucast (fc_nFlag c), pf_nAmount = fc_nAmount c, pf_nMintReward = fc_nMintReward c,
       pf_nMinTxFee = fc_nMinTxFee c, pf_nHalveCycle = fc_nHalveCycle c, pf_destOwner = fc_destOwner c,
       pf_hashParent = fc_hashParent c, pf_nJointHeight = fc_nJointHeight c \<rparr>"

definition save_CForkContext :: "CForkContext \<Rightarrow> u8 list" where
  "save_CForkContext c =
     save_string (fc_strName c) @ save_string (fc_strSymbol c) @ save_basic 32 (fc_hashFork c) @
     save_basic 32 (fc_hashParent c) @ save_basic 32 (fc_hashJoint c) @ save_basic 32 (fc_txidEmbedded c) @
     save_basic 2 (fc_nVersion c) @ save_basic 2 (fc_nFlag c) @ save_basic 8 (fc_nAmount c) @
     save_basic 8 (fc_nMintReward c) @ save_basic 8 (fc_nMinTxFee c) @ save_basic 4 (fc_nHalveCycle c) @
     save_basic 4 (fc_nJointHeight c) @ save_CDestination (fc_destOwner c)"

definition load_CForkContext :: "CForkContext reader" where
  "load_CForkContext =
     rbind load_string (\<lambda>name. rbind load_string (\<lambda>symbol. rbind (load_basic 32) (\<lambda>fork.
     rbind (load_basic 32) (\<lambda>parent. rbind (load_basic 32) (\<lambda>joint. rbind (load_basic 32) (\<lambda>txid.
     rbind (load_basic 2) (\<lambda>ver. rbind (load_basic 2) (\<lambda>flag. rbind (load_basic 8) (\<lambda>amount.
     rbind (load_basic 8) (\<lambda>reward. rbind (load_basic 8) (\<lambda>fee. rbind (load_basic 4) (\<lambda>halve.
     rbind (load_basic 4) (\<lambda>height. rbind load_CDestination (\<lambda>own.
       rret \<lparr> fc_strName = name, fc_strSymbol = symbol, fc_hashFork = fork, fc_hashParent = parent,
         fc_hashJoint = joint, fc_txidEmbedded = txid, fc_nVersion = ver, fc_nFlag = flag, fc_nAmount = amount,
         fc_nMintReward = reward, fc_nMinTxFee = fee, fc_nHalveCycle = halve, fc_nJointHeight = height,
         fc_destOwner = own \<rparr>))))))))))))))"

definition size_CForkContext_ser :: "CForkContext \<Rightarrow> nat" where
  "size_CForkContext_ser c =
     size_string (fc_strName c) + size_string (fc_strSymbol c) + size_basic 32 (fc_hashFork c) +
     size_basic 32 (fc_hashParent c) + size_basic 32 (fc_hashJoint c) + size_basic 32 (fc_txidEmbedded c) +
     size_basic 2 (fc_nVersion c) + size_basic 2 (fc_nFlag c) + size_basic 8 (fc_nAmount c) +
     size_basic 8 (fc_nMintReward c) + size_basic 8 (fc_nMinTxFee c) + size_basic 4 (fc_nHalveCycle c) +
     size_basic 4 (fc_nJointHeight c) + size_CDestination_ser (fc_destOwner c)"

interpretation cfork: codec save_CForkContext load_CForkContext size_CForkContext_ser
  "\<lambda>c. fits (fc_strName c) \<and> fits (fc_strSymbol c)"
proof unfold_locales
  fix c :: CForkContext and rest
  assume "fits (fc_strName c) \<and> fits (fc_strSymbol c)"
  then show "load_CForkContext (save_CForkContext c @ rest) = Inr (c, rest)"
    by (cases c) (simp add: load_CForkContext_def save_CForkContext_def basic_laws cdest.load_save)
next
  fix c :: CForkContext
  show "size_CForkContext_ser c = length (save_CForkContext c)"
    by (simp add: size_CForkContext_ser_def save_CForkContext_def basic_sizes cdest.ssize_save)
qed

section \<open>Genesis blocks and origin blocks\<close>

definition hex_uint256 :: "string \<Rightarrow> uint256" where
  "hex_uint256 str = u256_of_limbs (fst (uint_SetHex 8 str))"

definition genesis_owner :: "bool \<Rightarrow> CDestination" where
  "genesis_owner testnet = dest_SetPubKey (hex_uint256 (if testnet
     then ''d85c335e3ccd86021a5242a2d55321601a104732ee68acf039b171a3b554e684''
     else ''c3ceea60ce2ca480fcc0fe1d304e48cf6726f1e802477a7129c42cc701e44692''))"

definition genesis_text :: string where
  "genesis_text = ''Today of 6 years ago, R decided to change something else. At the same time something important for R was born. Under the guidance of the golden ratio, we mine the founding block at UTC+0 09:10:02.''"

definition genesis_profile :: "bool \<Rightarrow> CProfile" where
  "genesis_profile testnet = profile_SetFlag True False False
     (profile_SetNull\<lparr> pf_strName := string_bytes (if testnet then ''Minemon Test'' else ''Minemon''),
        pf_strSymbol := string_bytes (if testnet then ''MAMT'' else ''MAM''), pf_destOwner := genesis_owner testnet,
        pf_nAmount := of_int BPX_INIT_REWARD_TOKEN, pf_nMintReward := of_int BPX_INIT_REWARD_TOKEN,
        pf_nMinTxFee := of_int MIN_TX_FEE, pf_nHalveCycle := 0 \<rparr>)"

definition GetGenesisBlock :: "bool \<Rightarrow> CBlock" where
  "GetGenesisBlock testnet =
     block_SetNull\<lparr> blk_nVersion := 2, blk_nType := BLOCK_GENESIS, blk_nTimeStamp := 1625303402, blk_hashPrev := 0,
       blk_txMint := tx_SetNull\<lparr> tx_nType := TX_GENESIS, tx_nTimeStamp := 1625303402,
          tx_sendTo := genesis_owner testnet, tx_nAmount := of_int BPX_INIT_REWARD_TOKEN,
          tx_vchData := (if testnet then [] else string_bytes genesis_text) \<rparr>,
       blk_vchProof := (case profile_Save (genesis_profile testnet) of None \<Rightarrow> [] | Some vch \<Rightarrow> vch) \<rparr>"

text \<open>
  \<^verbatim>\<open>ValidateOrigin\<close> returns the loaded profile with \<open>OK\<close> and an error code otherwise; \<open>Inl\<close> is a decoder
  that left the bounds of \<^verbatim>\<open>vchProof\<close>.
\<close>

definition ValidateOrigin :: "CBlock \<Rightarrow> CProfile \<Rightarrow> tv_error + (Errno \<times> CProfile option)" where
  "ValidateOrigin block parentProfile =
     (case profile_Load (blk_vchProof block) of
        Inl e \<Rightarrow> Inl e
      | Inr None \<Rightarrow> Inr (ERR_BLOCK_INVALID_FORK, None)
      | Inr (Some forkProfile) \<Rightarrow>
          if profile_IsNull forkProfile then Inr (ERR_BLOCK_INVALID_FORK, Some forkProfile)
          else if \<not> MoneyRange (sint (pf_nAmount forkProfile)) then Inr (ERR_BLOCK_INVALID_FORK, Some forkProfile)
          else if \<not> RewardRange (sint (pf_nMintReward forkProfile)) then Inr (ERR_BLOCK_INVALID_FORK, Some forkProfile)
          else if profile_IsPrivate parentProfile \<and>
             (\<not> profile_IsPrivate forkProfile \<or> pf_destOwner parentProfile \<noteq> pf_destOwner forkProfile)
          then Inr (ERR_BLOCK_INVALID_FORK, Some forkProfile)
          else Inr (OK, Some forkProfile))"

lemma genesis_profile_ok: "profile_ok (genesis_profile testnet)"
  by (simp add: profile_ok_def genesis_profile_def profile_SetFlag_def profile_SetNull_def string_bytes_def)

lemma genesis_proof: "blk_vchProof (GetGenesisBlock testnet) = tv_Encode (profile_entries (genesis_profile testnet))"
  using genesis_profile_ok [of testnet] by (simp add: GetGenesisBlock_def profile_Save_entries profile_ok_def)

text \<open>
  The genesis block of either network carries its fork profile: \<^verbatim>\<open>ValidateOrigin\<close> reads from the proof
  field exactly the profile that \<^verbatim>\<open>GetGenesisBlock\<close> stored there and accepts it under the empty parent
  profile; the block has height 0, as its hash has, mints nothing and its profile is isolated,
  not private and not enclosed.
\<close>

theorem genesis_block_profile:
  "ValidateOrigin (GetGenesisBlock testnet) profile_SetNull = Inr (OK, Some (genesis_profile testnet))
   \<and> GetBlockHeightByHash (block_GetHash blake2b (GetGenesisBlock testnet)) = 0
   \<and> block_GetBlockMint (GetGenesisBlock testnet) = 0
   \<and> profile_IsIsolated (genesis_profile testnet) \<and> \<not> profile_IsPrivate (genesis_profile testnet)
   \<and> \<not> profile_IsEnclosed (genesis_profile testnet)"
proof -
  have "ValidateOrigin (GetGenesisBlock testnet) profile_SetNull = Inr (OK, Some (genesis_profile testnet))"
    using profile_round_trip_aux [OF genesis_profile_ok, of testnet]
    by (simp add: ValidateOrigin_def genesis_proof)
      (simp add: genesis_profile_def profile_SetFlag_def profile_SetNull_def profile_IsNull_def string_bytes_def
        MoneyRange_def RewardRange_def MAX_MONEY_def MAX_REWARD_MONEY_def BPX_INIT_REWARD_TOKEN_def COIN_def
        profile_IsPrivate_def)
  then show ?thesis
    by (simp add: genesis_profile_def profile_SetFlag_def profile_SetNull_def profile_IsIsolated_def
        profile_IsPrivate_def profile_IsEnclosed_def PROFILE_FLAG_ISOLATED_def PROFILE_FLAG_PRIVATE_def
        PROFILE_FLAG_ENCLOSED_def GetBlockHeightByHash_def block_GetHash_def block_GetBlockHeight_def
        block_IsGenesis_def GetGenesisBlock_def block_SetNull_def block_GetBlockMint_def tx_SetNull_def
        BPX_INIT_REWARD_TOKEN_def)
qed

text \<open>
  An origin block that \<^verbatim>\<open>ValidateOrigin\<close> accepts has a named profile with amount and reward in range,
  below a private parent only a private fork of the same owner is accepted, and the fork context built
  from the accepted profile and stored in the fork database yields the same profile when it is loaded
  again.
\<close>

theorem ValidateOrigin_sound:
  assumes "ValidateOrigin block parent = Inr (OK, Some p)"
  shows "pf_strName p \<noteq> [] \<and> MoneyRange (sint (pf_nAmount p)) \<and> RewardRange (sint (pf_nMintReward p))
    \<and> (profile_IsPrivate parent \<longrightarrow> profile_IsPrivate p \<and> pf_destOwner p = pf_destOwner parent)
    \<and> (fits (pf_strName p) \<and> fits (pf_strSymbol p) \<longrightarrow>
        (case load_CForkContext (save_CForkContext (fork_context hashFork hashJoint txid p)) of
           Inl _ \<Rightarrow> False | Inr (c, rest) \<Rightarrow> rest = [] \<and> fork_GetProfile c = p))"
proof -
  have ver: "pf_nVersion q = 1" if "profile_Load vch = Inr (Some q)" for vch q
    using that by (auto simp: profile_Load_def profile_read_def need_def may_def tv_catch_def Let_def
        split: sum.splits option.splits if_splits tv_error.splits prod.splits)
  have p: "profile_Load (blk_vchProof block) = Inr (Some p)"
    using assms by (auto simp: ValidateOrigin_def split: sum.splits option.splits if_splits)
  let ?c = "fork_context hashFork hashJoint txid p"
  have "ucast (ucast (pf_nFlag p) :: u16) = pf_nFlag p" by (rule bit_word_eqI) (simp add: bit_simps)
  then have "fork_GetProfile ?c = p" using ver [OF p] by (simp add: fork_GetProfile_def fork_context_def)
  then show ?thesis
    using assms p cfork.load_save_end [of ?c]
    by (auto simp: ValidateOrigin_def profile_IsNull_def fork_context_def split: if_splits)
qed

theorem ValidateOrigin_sound_witness:
  "ValidateOrigin (block_SetNull\<lparr> blk_vchProof := tv_Encode (profile_entries (example_profile\<lparr> pf_nMintReward := 7 \<rparr>)) \<rparr>)
     (example_profile\<lparr> pf_nFlag := 2 \<rparr>) = Inr (OK, Some (example_profile\<lparr> pf_nMintReward := 7 \<rparr>))
   \<and> profile_IsPrivate example_profile"
proof -
  let ?p = "example_profile\<lparr> pf_nMintReward := 7 \<rparr>"
  have "ValidateOrigin (block_SetNull\<lparr> blk_vchProof := tv_Encode (profile_entries ?p) \<rparr>)
     (example_profile\<lparr> pf_nFlag := 2 \<rparr>) = Inr (OK, Some ?p)"
    using profile_round_trip_aux [of ?p]
    by (simp add: ValidateOrigin_def)
      (simp add: example_profile_def profile_SetNull_def profile_ok_def profile_IsNull_def MoneyRange_def RewardRange_def
        MAX_MONEY_def MAX_REWARD_MONEY_def COIN_def profile_IsPrivate_def PROFILE_FLAG_PRIVATE_def)
  with ValidateOrigin_sound [OF this] show ?thesis
    by (simp add: profile_IsPrivate_def PROFILE_FLAG_PRIVATE_def example_profile_def)
qed

end
