(* ===== verification/Core_Verify.thy ===== *)
theory Core_Verify
  imports Template_Auth Fork_Profile
begin

text \<open>
  The checks of a transaction against the outputs it spends: \<^verbatim>\<open>VerifyBlockTx\<close>, \<^verbatim>\<open>VerifyTransaction\<close> and the
  rules for exchange orders, matches and pledges of \<^verbatim>\<open>src/src/minemon/core.cpp\<close>, with the parts of
  \<^verbatim>\<open>src/src/minemon/blockchain.cpp\<close> they call.  What these parts read from the databases and from the
  transaction pool is the record \<open>chain_view\<close>.  A result \<open>Inl e\<close> is an exception or a read outside a
  buffer in the template code.
\<close>

section \<open>The minimal fee\<close>

definition CalcMinTxFee :: "CTransaction \<Rightarrow> u32 \<Rightarrow> i64" where
  "CalcMinTxFee tx fee =
     (let nVchData = length (tx_vchData tx) in
      if nVchData = 0 then ucast fee
      else
        let multiplier = of_nat (nVchData div 200 + (if nVchData mod 200 > 0 then 1 else 0)) :: u32 in
        if multiplier > 5 then ucast (fee + fee * 10 + (multiplier - 5) * fee * 4)
        else ucast (fee + multiplier * fee * 2))"

section \<open>What the chain and the pool answer\<close>

record chain_view =
  cv_genesis :: uint256
  cv_last_block :: "(uint256 \<times> i32) option"
  cv_address_redeem :: "uint256 \<Rightarrow> CDestination \<Rightarrow> CDestRedeem option"
  cv_address_pledge :: "uint256 \<Rightarrow> CDestination \<Rightarrow> CDestination \<Rightarrow> (i64 \<times> i32) option"
  cv_pool_amount :: "CDestination \<Rightarrow> i64"
  cv_pool_txs :: "CTransaction list"

definition BPX_REDEEM_DAY_COUNT :: "bool \<Rightarrow> int" where "BPX_REDEEM_DAY_COUNT testnet = GET_PARAM testnet 100 10"
definition BPX_REDEEM_DAY_HEIGHT :: "bool \<Rightarrow> int" where "BPX_REDEEM_DAY_HEIGHT testnet = GET_PARAM testnet 1440 5"

text \<open>The part of a locked amount that is still locked after a number of blocks.\<close>

definition redeem_locked :: "bool \<Rightarrow> i64 \<Rightarrow> int \<Rightarrow> int" where
  "redeem_locked testnet nLockAmount nLockHeightCount =
     sint nLockAmount - cdiv (sint nLockAmount) (BPX_REDEEM_DAY_COUNT testnet) * cdiv nLockHeightCount (BPX_REDEEM_DAY_HEIGHT testnet)"

text \<open>\<^verbatim>\<open>GetRedeemLockAmount\<close> returns the locked amount and the balance, which it sets only for a lock.\<close>

definition GetRedeemLockAmount :: "bool \<Rightarrow> chain_view \<Rightarrow> CDestination \<Rightarrow> i64 \<Rightarrow> int \<times> i64" where
  "GetRedeemLockAmount testnet cv destRedeem nLastBlockBalance =
     (case cv_last_block cv of
        None \<Rightarrow> (- 1, nLastBlockBalance)
      | Some (hashLastBlock, nLastHeight) \<Rightarrow>
          (case cv_address_redeem cv hashLastBlock destRedeem of
             None \<Rightarrow> (- 1, nLastBlockBalance)
           | Some redeem \<Rightarrow>
               if sint (dr_nLockAmount redeem) > 0 \<and> sint (dr_nLockBeginHeight redeem) > 0 then
                 let nLockHeightCount = sint (nLastHeight + 1 - dr_nLockBeginHeight redeem) in
                 if nLockHeightCount \<le> 0 then (- 1, nLastBlockBalance)
                 else if nLockHeightCount < BPX_REDEEM_DAY_COUNT testnet * BPX_REDEEM_DAY_HEIGHT testnet
                   then (redeem_locked testnet (dr_nLockAmount redeem) nLockHeightCount, dr_nBalance redeem)
                 else (0, dr_nBalance redeem)
               else (0, nLastBlockBalance)))"

definition VerifyTxMintRedeem :: "bool \<Rightarrow> chain_view \<Rightarrow> CTransaction \<Rightarrow> CDestination \<Rightarrow> bool" where
  "VerifyTxMintRedeem testnet cv tx destIn =
     (let nDestTxPoolAmount = cv_pool_amount cv destIn in
      if sint nDestTxPoolAmount > 0 then False
      else let (nLockAmount, nLastBlockBalance) = GetRedeemLockAmount testnet cv destIn 0 in
        if nLockAmount < 0 then False
        else if nLockAmount > 0 then
          \<not> sint (nLastBlockBalance + nDestTxPoolAmount - (tx_nAmount tx + tx_nTxFee tx)) < nLockAmount
        else True)"

fun as_mintpledge :: "template_obj \<Rightarrow> CTemplateMintPledge option" where
  "as_mintpledge (TMintPledge t) = Some t"
| "as_mintpledge _ = None"

fun as_mintredeem :: "template_obj \<Rightarrow> CTemplateMintRedeem option" where
  "as_mintredeem (TMintRedeem t) = Some t"
| "as_mintredeem _ = None"

fun as_dexorder :: "template_obj \<Rightarrow> CTemplateDexOrder option" where
  "as_dexorder (TDexOrder t) = Some t"
| "as_dexorder _ = None"

fun as_dexmatch :: "template_obj \<Rightarrow> CTemplateDexMatch option" where
  "as_dexmatch (TDexMatch t) = Some t"
| "as_dexmatch _ = None"

text \<open>
  A template of a given class built from bytes, as the pointer and the object it is cast to.  The cast
  of a pointer to another class would give a null pointer that is used without a test; a template of
  the type asked for always has the class.
\<close>

definition create_as :: "digest \<Rightarrow> u16 \<Rightarrow> (template_obj \<Rightarrow> 'a option) \<Rightarrow> u8 list \<Rightarrow> stream_error + (CTemplate \<times> 'a) option" where
  "create_as blake2b nType cast vch =
     (case CreateTemplatePtr blake2b nType vch of
        Inl e \<Rightarrow> Inl e
      | Inr None \<Rightarrow> Inr None
      | Inr (Some ptr) \<Rightarrow> (case cast (tpl_obj ptr) of None \<Rightarrow> Inl OutOfBounds | Some obj \<Rightarrow> Inr (Some (ptr, obj))))"

text \<open>The difference of the heights is one of unsigned numbers.\<close>

definition VerifyTxPledgeTrans :: "digest \<Rightarrow> bool \<Rightarrow> chain_view \<Rightarrow> uint256 \<Rightarrow> CTransaction \<Rightarrow> CDestination \<Rightarrow> bool
    \<Rightarrow> stream_error + bool" where
  "VerifyTxPledgeTrans blake2b testnet cv hashPrev tx destIn fBlockTx =
     (case create_as blake2b TEMPLATE_MINTPLEDGE as_mintpledge (tx_vchSig tx) of
        Inl e \<Rightarrow> Inl e
      | Inr None \<Rightarrow> Inr False
      | Inr (Some (ptrSendTo, objSendTo)) \<Rightarrow>
          (case template_GetSignDestination ptrSendTo tx 0 0 (tx_vchSig tx) [] of
             None \<Rightarrow> Inr False
           | Some (_, vDestInData) \<Rightarrow>
               (case create_as blake2b TEMPLATE_MINTPLEDGE as_mintpledge vDestInData of
                  Inl e \<Rightarrow> Inl e
                | Inr None \<Rightarrow> Inr False
                | Inr (Some (_, objDestIn)) \<Rightarrow>
                    if mp_destOwner objSendTo \<noteq> mp_destOwner objDestIn then Inr False
                    else if \<not> fBlockTx \<and> (\<exists>ptx \<in> set (cv_pool_txs cv). tx_sendTo ptx = destIn) then Inr False
                    else (case cv_address_pledge cv hashPrev (mp_destPowMint objDestIn) destIn of
                        None \<Rightarrow> Inr False
                      | Some (nPledgeAmount, nPledgeHeight) \<Rightarrow>
                          if sint nPledgeAmount \<le> 0 \<or> sint nPledgeHeight \<le> 0 then Inr False
                          else Inr (\<not> uint (GetBlockHeightByHash hashPrev + 1 - nPledgeHeight) < BPX_REDEEM_DAY_HEIGHT testnet)))))"

section \<open>Exchange orders\<close>

text \<open>\<^verbatim>\<open>*setSubDest.begin()\<close> is the least destination of the set.\<close>

definition VerifyDexOrderTx :: "digest \<Rightarrow> CTransaction \<Rightarrow> CDestination \<Rightarrow> i64 \<Rightarrow> i32 \<Rightarrow> stream_error + Errno" where
  "VerifyDexOrderTx blake2b tx destIn nValueIn nHeight =
     (case VerifyDestRecorded blake2b tx of
        Inl e \<Rightarrow> Inl e
      | Inr None \<Rightarrow> Inr ERR_TRANSACTION_SIGNATURE_INVALID
      | Inr (Some vchSig) \<Rightarrow>
          (case create_as blake2b TEMPLATE_DEXORDER as_dexorder vchSig of
             Inl e \<Rightarrow> Inl e
           | Inr None \<Rightarrow> Inr ERR_TRANSACTION_SIGNATURE_INVALID
           | Inr (Some (ptrOrder, objOrder)) \<Rightarrow>
               if \<not> is_template_of (tx_sendTo tx) TEMPLATE_DEXMATCH then Inr OK
               else (case create_as blake2b TEMPLATE_DEXMATCH as_dexmatch (tx_vchSig tx) of
                   Inl e \<Rightarrow> Inl e
                 | Inr None \<Rightarrow> Inr ERR_TRANSACTION_SIGNATURE_INVALID
                 | Inr (Some (ptrMatch, objMatch)) \<Rightarrow>
                     (case template_GetSignDestination ptrOrder tx 0 nHeight (tx_vchSig tx) [] of
                        None \<Rightarrow> Inr ERR_TRANSACTION_SIGNATURE_INVALID
                      | Some (setSubDest, vchSubSig) \<Rightarrow>
                          if setSubDest = {} \<or> dm_destMatch objMatch \<noteq> Min setSubDest then Inr ERR_TRANSACTION_SIGNATURE_INVALID
                          else if dm_destSellerOrder objMatch \<noteq> destIn then Inr ERR_TRANSACTION_SIGNATURE_INVALID
                          else if dm_destSeller objMatch \<noteq> dx_destSeller objOrder then Inr ERR_TRANSACTION_SIGNATURE_INVALID
                          else if tx_nAmount tx \<noteq> dm_nMatchAmount objMatch
                            \<or> sint (tx_nAmount tx) < TNS_DEX_MIN_TX_FEE * 3 + TNS_DEX_MIN_MATCH_AMOUNT
                            then Inr ERR_TRANSACTION_SIGNATURE_INVALID
                          else if dm_nFee objMatch \<noteq> dx_nFee objOrder then Inr ERR_TRANSACTION_SIGNATURE_INVALID
                          else Inr OK))))"

section \<open>Exchange matches\<close>

text \<open>
  The shares of a match, in 64-bit arithmetic: the difference is converted to unsigned before it is
  multiplied, and so is the factor.
\<close>

definition dex_fee :: i64 where "dex_fee = word_of_int TNS_DEX_MIN_TX_FEE"

definition dex_buyer_amount :: "CTemplateDexMatch \<Rightarrow> i64" where
  "dex_buyer_amount m = (dm_nMatchAmount m - dex_fee * 3) * word_of_int (FEE_PRECISION - sint (dm_nFee m)) div word_of_int FEE_PRECISION"

definition dex_reward_amount :: "CTemplateDexMatch \<Rightarrow> i64" where
  "dex_reward_amount m = (dm_nMatchAmount m - dex_fee * 3) * word_of_int (cdiv (sint (dm_nFee m)) 2) div word_of_int FEE_PRECISION"

text \<open>The three payments out of a match: to the buyer, to the matcher and to the dealer.\<close>

definition dexmatch_payment :: "CTransaction \<Rightarrow> CTemplate \<Rightarrow> CTemplateDexMatch \<Rightarrow> i64 \<Rightarrow> i32 \<Rightarrow> Errno" where
  "dexmatch_payment tx ptrMatch m nValueIn nHeight =
     (if tx_sendTo tx = dm_destBuyer m then
        if nValueIn \<noteq> dm_nMatchAmount m then ERR_TRANSACTION_SIGNATURE_INVALID
        else if tx_nAmount tx \<noteq> dex_buyer_amount m then ERR_TRANSACTION_SIGNATURE_INVALID
        else if tx_nTxFee tx \<noteq> dex_fee then ERR_TRANSACTION_SIGNATURE_INVALID
        else OK
      else if tx_sendTo tx = dm_destMatch m then
        if nValueIn \<noteq> dm_nMatchAmount m - dex_buyer_amount m - dex_fee then ERR_TRANSACTION_SIGNATURE_INVALID
        else if tx_nAmount tx \<noteq> dex_reward_amount m then ERR_TRANSACTION_SIGNATURE_INVALID
        else if tx_nTxFee tx \<noteq> dex_fee then ERR_TRANSACTION_SIGNATURE_INVALID
        else OK
      else (case template_GetSignDestination ptrMatch tx 0 nHeight (tx_vchSig tx) [] of
          None \<Rightarrow> ERR_TRANSACTION_SIGNATURE_INVALID
        | Some (setSubDest, vchSubSig) \<Rightarrow>
            if tx_sendTo tx = Min setSubDest then
              if nValueIn \<noteq> dm_nMatchAmount m - dex_buyer_amount m - dex_reward_amount m - dex_fee * 2
                then ERR_TRANSACTION_SIGNATURE_INVALID
              else if tx_nAmount tx \<noteq> nValueIn - dex_fee then ERR_TRANSACTION_SIGNATURE_INVALID
              else if tx_nTxFee tx \<noteq> dex_fee then ERR_TRANSACTION_SIGNATURE_INVALID
              else OK
            else ERR_TRANSACTION_SIGNATURE_INVALID))"

definition CryptoSHA256 :: "digest \<Rightarrow> u8 list \<Rightarrow> uint256" where
  "CryptoSHA256 sha256 msg = sha256 msg"

definition VerifyDexMatchTx :: "digest \<Rightarrow> digest \<Rightarrow> CTransaction \<Rightarrow> i64 \<Rightarrow> i32 \<Rightarrow> stream_error + Errno" where
  "VerifyDexMatchTx blake2b sha256 tx nValueIn nHeight =
     (case VerifyDestRecorded blake2b tx of
        Inl e \<Rightarrow> Inl e
      | Inr None \<Rightarrow> Inr ERR_TRANSACTION_SIGNATURE_INVALID
      | Inr (Some vchSig) \<Rightarrow>
          (case create_as blake2b TEMPLATE_DEXMATCH as_dexmatch vchSig of
             Inl e \<Rightarrow> Inl e
           | Inr None \<Rightarrow> Inr ERR_TRANSACTION_SIGNATURE_INVALID
           | Inr (Some (ptrMatch, objMatch)) \<Rightarrow>
               if sint nHeight \<le> sint (dm_nSellerValidHeight objMatch) then
                 if dexmatch_payment tx ptrMatch objMatch nValueIn nHeight \<noteq> OK
                   then Inr (dexmatch_payment tx ptrMatch objMatch nValueIn nHeight)
                 else (case template_GetSignDestination ptrMatch tx 0 0 vchSig [] of
                     None \<Rightarrow> Inr ERR_TRANSACTION_SIGNATURE_INVALID
                   | Some (_, vchSigOut) \<Rightarrow>
                       (case catch_read (rbind ids_bytes (\<lambda>vms. rbind ids_bytes (\<lambda>vss. rbind ids_bytes (\<lambda>sub. rret vss)))) vchSigOut of
                          Inl e \<Rightarrow> Inl e
                        | Inr None \<Rightarrow> Inr ERR_TRANSACTION_SIGNATURE_INVALID
                        | Inr (Some vss) \<Rightarrow>
                            if CryptoSHA256 sha256 vss \<noteq> dm_hashBuyerSecret objMatch then Inr ERR_TRANSACTION_SIGNATURE_INVALID
                            else Inr OK))
               else Inr OK))"

section \<open>Pledges\<close>

definition VerifyMintPledgeTx :: "digest \<Rightarrow> bool \<Rightarrow> chain_view \<Rightarrow> uint256 \<Rightarrow> CTransaction \<Rightarrow> CDestination \<Rightarrow> bool
    \<Rightarrow> stream_error + Errno" where
  "VerifyMintPledgeTx blake2b testnet cv hashPrev tx destIn fBlockTx =
     (if is_template_of (tx_sendTo tx) TEMPLATE_MINTPLEDGE then
        map_sum id (\<lambda>ok. if ok then OK else ERR_TRANSACTION_INVALID)
          (VerifyTxPledgeTrans blake2b testnet cv hashPrev tx destIn fBlockTx)
      else if is_template_of (tx_sendTo tx) TEMPLATE_MINTREDEEM then
        (case VerifyDestRecorded blake2b tx of
           Inl e \<Rightarrow> Inl e
         | Inr None \<Rightarrow> Inr ERR_TRANSACTION_INVALID
         | Inr (Some vchSig) \<Rightarrow>
             (case create_as blake2b TEMPLATE_MINTREDEEM as_mintredeem (tx_vchSig tx) of
                Inl e \<Rightarrow> Inl e
              | Inr None \<Rightarrow> Inr ERR_TRANSACTION_INVALID
              | Inr (Some (_, objRedeem)) \<Rightarrow>
                  (case create_as blake2b TEMPLATE_MINTPLEDGE as_mintpledge vchSig of
                     Inl e \<Rightarrow> Inl e
                   | Inr None \<Rightarrow> Inr ERR_TRANSACTION_INVALID
                   | Inr (Some (_, objPledge)) \<Rightarrow>
                       if mp_destOwner objPledge \<noteq> mr_destOwner objRedeem then Inr ERR_TRANSACTION_INVALID else Inr OK)))
      else Inr ERR_TRANSACTION_INVALID)"

section \<open>Transactions\<close>

definition tx_fee_ok :: "CTransaction \<Rightarrow> bool" where
  "tx_fee_ok tx =
     (\<not> (\<not> MoneyRange (sint (tx_nTxFee tx)) \<or> (tx_nType tx \<noteq> TX_TOKEN \<and> tx_nTxFee tx \<noteq> 0)
       \<or> (tx_nType tx = TX_TOKEN \<and> sint (tx_nTxFee tx) < sint (CalcMinTxFee tx (word_of_int MIN_TX_FEE)))))"

definition dest_template_type :: "CDestination \<Rightarrow> u16" where
  "dest_template_type dest = (if dest_IsTemplate dest then templateid_GetType (dest_GetTemplateId dest) else 0)"

text \<open>The loops over the inputs; \<open>Inl\<close> is the early return.\<close>

fun block_inputs :: "u32 \<Rightarrow> i32 \<Rightarrow> CTxInContxt list \<Rightarrow> i64 \<Rightarrow> Errno + i64" where
  "block_inputs nTimeStamp nHeight [] nValueIn = Inr nValueIn"
| "block_inputs nTimeStamp nHeight (inctxt # vin) nValueIn =
     (if inc_nTxTime inctxt > nTimeStamp then Inl ERR_TRANSACTION_INPUT_INVALID
      else if txincontxt_IsLocked inctxt nHeight then Inl ERR_TRANSACTION_INPUT_INVALID
      else block_inputs nTimeStamp nHeight vin (nValueIn + inc_nAmount inctxt))"

fun pool_inputs :: "CDestination \<Rightarrow> u32 \<Rightarrow> i32 \<Rightarrow> CTxOut list \<Rightarrow> i64 \<Rightarrow> Errno + i64" where
  "pool_inputs destIn nTimeStamp nForkHeight [] nValueIn = Inr nValueIn"
| "pool_inputs destIn nTimeStamp nForkHeight (output # vPrevOutput) nValueIn =
     (if destIn \<noteq> out_destTo output then Inl ERR_TRANSACTION_INPUT_INVALID
      else if out_nTxTime output > nTimeStamp then Inl ERR_TRANSACTION_INPUT_INVALID
      else if txout_IsLocked output nForkHeight then Inl ERR_TRANSACTION_INPUT_INVALID
      else pool_inputs destIn nTimeStamp nForkHeight vPrevOutput (nValueIn + out_nAmount output))"

text \<open>The last part of both functions: the recorded destination and the signature.\<close>

definition verify_signature :: "verifier \<Rightarrow> digest \<Rightarrow> CTransaction \<Rightarrow> CDestination \<Rightarrow> i32 \<Rightarrow> uint256 \<Rightarrow> stream_error + Errno" where
  "verify_signature ed_verify blake2b tx destIn nForkHeight fork =
     (case VerifyDestRecorded blake2b tx of
        Inl e \<Rightarrow> Inl e
      | Inr None \<Rightarrow> Inr ERR_TRANSACTION_SIGNATURE_INVALID
      | Inr (Some vchSig) \<Rightarrow>
          map_sum id (\<lambda>ok. if ok then OK else ERR_TRANSACTION_SIGNATURE_INVALID)
            (dest_VerifyTxSignature_fork ed_verify blake2b destIn (tx_GetSignatureHash blake2b tx) (tx_sendTo tx) vchSig
               nForkHeight fork))"

definition VerifyBlockTx :: "verifier \<Rightarrow> digest \<Rightarrow> digest \<Rightarrow> bool \<Rightarrow> chain_view \<Rightarrow> CTransaction \<Rightarrow> CTxContxt \<Rightarrow> CBlockIndex
    \<Rightarrow> i32 \<Rightarrow> uint256 \<Rightarrow> stream_error + Errno" where
  "VerifyBlockTx ed_verify blake2b sha256 testnet cv tx txContxt pIndexPrev nForkHeight fork =
     (if tx_IsMintTx tx then Inr ERR_TRANSACTION_INVALID
      else let destIn = ctxt_destIn txContxt in
        case block_inputs (tx_nTimeStamp tx) (bi_nHeight pIndexPrev) (ctxt_vin txContxt) 0 of
          Inl err \<Rightarrow> Inr err
        | Inr nValueIn \<Rightarrow>
            if \<not> MoneyRange (sint nValueIn) then Inr ERR_TRANSACTION_INPUT_INVALID
            else if \<not> tx_fee_ok tx then Inr ERR_TRANSACTION_OUTPUT_INVALID
            else if sint nValueIn < sint (tx_nAmount tx + tx_nTxFee tx) then Inr ERR_TRANSACTION_INPUT_INVALID
            else
              let nToType = dest_template_type (tx_sendTo tx); nFromType = dest_template_type destIn in
              if nToType = TEMPLATE_MINTREDEEM \<and> nFromType \<noteq> TEMPLATE_MINTPLEDGE then Inr ERR_TRANSACTION_INVALID
              else
                case (if nFromType = TEMPLATE_DEXORDER then VerifyDexOrderTx blake2b tx destIn nValueIn nForkHeight
                      else if nFromType = TEMPLATE_DEXMATCH then VerifyDexMatchTx blake2b sha256 tx nValueIn nForkHeight
                      else if nFromType = TEMPLATE_MINTPLEDGE
                        then VerifyMintPledgeTx blake2b testnet cv (bi_phashBlock pIndexPrev) tx destIn True
                      else Inr OK) of
                  Inl e \<Rightarrow> Inl e
                | Inr err \<Rightarrow>
                    if err \<noteq> OK then Inr err
                    else verify_signature ed_verify blake2b tx destIn (nForkHeight - 1) fork)"

text \<open>\<^verbatim>\<open>vPrevOutput[0]\<close> of an empty vector is a read outside of it.\<close>

definition VerifyTransaction :: "verifier \<Rightarrow> digest \<Rightarrow> digest \<Rightarrow> bool \<Rightarrow> chain_view \<Rightarrow> CTransaction \<Rightarrow> CTxOut list
    \<Rightarrow> i32 \<Rightarrow> uint256 \<Rightarrow> uint256 \<Rightarrow> stream_error + Errno" where
  "VerifyTransaction ed_verify blake2b sha256 testnet cv tx vPrevOutput nForkHeight hashLastBlock fork =
     (case vPrevOutput of
        [] \<Rightarrow> Inl OutOfBounds
      | first # _ \<Rightarrow>
        let destIn = out_destTo first in
        case pool_inputs destIn (tx_nTimeStamp tx) nForkHeight vPrevOutput 0 of
          Inl err \<Rightarrow> Inr err
        | Inr nValueIn \<Rightarrow>
            if \<not> MoneyRange (sint nValueIn) then Inr ERR_TRANSACTION_INPUT_INVALID
            else if \<not> tx_fee_ok tx then Inr ERR_TRANSACTION_OUTPUT_INVALID
            else if sint nValueIn < sint (tx_nAmount tx + tx_nTxFee tx) then Inr ERR_TRANSACTION_INPUT_INVALID
            else
              let nToType = dest_template_type (tx_sendTo tx); nFromType = dest_template_type destIn in
              if nToType = TEMPLATE_MINTREDEEM \<and> nFromType \<noteq> TEMPLATE_MINTPLEDGE then Inr ERR_TRANSACTION_INVALID
              else
                case (if nFromType = TEMPLATE_DEXORDER then VerifyDexOrderTx blake2b tx destIn nValueIn (nForkHeight + 1)
                      else if nFromType = TEMPLATE_DEXMATCH then VerifyDexMatchTx blake2b sha256 tx nValueIn (nForkHeight + 1)
                      else if nFromType = TEMPLATE_MINTPLEDGE
                        then VerifyMintPledgeTx blake2b testnet cv hashLastBlock tx destIn False
                      else if nFromType = TEMPLATE_MINTREDEEM then
                        if fork \<noteq> cv_genesis cv then Inr ERR_TRANSACTION_INVALID
                        else if \<not> VerifyTxMintRedeem testnet cv tx destIn then Inr ERR_TRANSACTION_INVALID
                        else Inr OK
                      else Inr OK) of
                  Inl e \<Rightarrow> Inl e
                | Inr err \<Rightarrow>
                    if err \<noteq> OK then Inr err
                    else verify_signature ed_verify blake2b tx destIn (nForkHeight + 1) fork)"

section \<open>The shares of a match\<close>

lemma dexmatch_param_bounds:
  assumes "dexmatch_ValidateParam m"
  shows "0 < sint (dm_nMatchAmount m)" "sint (dm_nMatchAmount m) \<le> 1844674407000000" "1 < sint (dm_nFee m)" "sint (dm_nFee m) < 10000"
  using assms by (auto simp: dexmatch_ValidateParam_def TNS_DEX_MAX_MATCH_TOKEN_def COIN_def FEE_PRECISION_def split: if_splits)

lemma sint_small: "0 \<le> x \<Longrightarrow> x < 2 ^ 63 \<Longrightarrow> sint (word_of_int x :: i64) = x"
  by (simp add: int_word_sint)

lemma sint_uint_small: "uint (w :: i64) < 2 ^ 63 \<Longrightarrow> sint w = uint w"
  using sint_small [of "uint w"] by simp

lemma dex_share:
  fixes M :: i64
  assumes "30000 \<le> sint M" "sint M \<le> 1844674407000000" "0 \<le> f" "f \<le> 10000"
  shows "sint ((M - dex_fee * 3) * word_of_int f div word_of_int FEE_PRECISION) = (sint M - 30000) * f div 10000"
proof -
  let ?x = "sint M - 30000"
  have M: "M - dex_fee * 3 = word_of_int ?x"
    by (simp add: dex_fee_def TNS_DEX_MIN_TX_FEE_def)
  have le: "?x * f \<le> 1844674407000000 * 10000" using assms by (intro mult_mono) auto
  have ge: "0 \<le> ?x * f" using assms by simp
  have "(M - dex_fee * 3) * word_of_int f = word_of_int (?x * f)" by (simp add: M)
  moreover have "uint (word_of_int (?x * f) :: i64) = ?x * f"
    unfolding uint_word_of_int using le ge by (intro mod_pos_pos_trivial) simp_all
  ultimately have u: "uint ((M - dex_fee * 3) * word_of_int f div word_of_int FEE_PRECISION) = ?x * f div 10000"
    by (simp only: uint_div FEE_PRECISION_def) simp
  then show ?thesis using le by (subst sint_uint_small) (simp_all add: u)
qed

lemma dex_shares:
  assumes "dexmatch_ValidateParam m" "40000 \<le> sint (dm_nMatchAmount m)"
  defines "x \<equiv> sint (dm_nMatchAmount m) - 30000" and "f \<equiv> sint (dm_nFee m)"
  shows "sint (dex_buyer_amount m) = x * (10000 - f) div 10000"
    and "sint (dex_reward_amount m) = x * (f div 2) div 10000"
    and "sint (dex_buyer_amount m) + sint (dex_reward_amount m) \<le> x"
    and "0 \<le> sint (dex_buyer_amount m)" "0 \<le> sint (dex_reward_amount m)"
proof -
  note b = dexmatch_param_bounds [OF assms(1)]
  have x: "0 \<le> x" "0 \<le> f" "f \<le> 10000" using b assms(2) by (simp_all add: x_def f_def)
  show buyer: "sint (dex_buyer_amount m) = x * (10000 - f) div 10000"
    using b assms(2) dex_share [of "dm_nMatchAmount m" "10000 - f"] by (simp add: dex_buyer_amount_def x_def f_def FEE_PRECISION_def)
  show reward: "sint (dex_reward_amount m) = x * (f div 2) div 10000"
    using b assms(2) dex_share [of "dm_nMatchAmount m" "f div 2"] by (simp add: dex_reward_amount_def x_def f_def cdiv_nonneg)
  show "0 \<le> sint (dex_buyer_amount m)" "0 \<le> sint (dex_reward_amount m)"
    unfolding buyer reward using x by (simp_all add: pos_imp_zdiv_nonneg_iff)
  have "10000 - f + f div 2 \<le> 10000" using x by linarith
  then have "x * (10000 - f) + x * (f div 2) \<le> x * 10000"
    unfolding distrib_left [symmetric] by (rule mult_left_mono) (rule x)
  then show "sint (dex_buyer_amount m) + sint (dex_reward_amount m) \<le> x" unfolding buyer reward by linarith
qed


definition example_match :: CTemplateDexMatch where
  "example_match = \<lparr> dm_destMatch = dest_SetPubKey 1, dm_vCoinPair = [1], dm_nFinalPrice = 1, dm_nMatchAmount = 1030000, dm_nFee = 100,
     dm_hashSecret = 1, dm_encSecret = [1], dm_destSellerOrder = dest_SetTemplateId (templateid TEMPLATE_DEXORDER 5),
     dm_destSeller = dest_SetPubKey 2, dm_destSellerDeal = dest_SetPubKey 3, dm_nSellerValidHeight = 50,
     dm_destBuyer = dest_SetPubKey 4, dm_vBuyerAmount = [1], dm_hashBuyerSecret = 1, dm_nBuyerValidHeight = 50 \<rparr>"

lemma IsTxSpendable_pubkey [simp]: "IsTxSpendable (dest_SetPubKey k)"
  by (simp add: IsTxSpendable_def dest_IsPubKey_def dest_SetPubKey_def)

lemma template_dest_simps [simp]: "dest_IsTemplate (dest_SetTemplateId t)" "dest_GetTemplateId (dest_SetTemplateId t) = t"
  "\<not> dest_IsPubKey (dest_SetTemplateId t)" "dest_IsPubKey (dest_SetPubKey k)" "\<not> dest_IsTemplate (dest_SetPubKey k)"
  "dest_GetPubKey (dest_SetPubKey k) = k"
  by (simp_all add: dest_IsTemplate_def dest_SetTemplateId_def dest_GetTemplateId_def dest_IsPubKey_def dest_SetPubKey_def
      dest_GetPubKey_def PREFIX_PUBKEY_def PREFIX_TEMPLATE_def)

lemma example_match_ok: "obj_ok (TDexMatch example_match)" "obj_ValidateParam (TDexMatch example_match)"
  by (simp_all add: obj_ok_def example_match_def fits_def dexmatch_ValidateParam_def TNS_DEX_MAX_MATCH_TOKEN_def COIN_def
      FEE_PRECISION_def MAX_STRING_AMOUNT_LEN_def)

lemma example_match_shares: "dex_buyer_amount example_match = 990000" "dex_reward_amount example_match = 5000"
proof -
  have v: "dexmatch_ValidateParam example_match" using example_match_ok(2) by simp
  have "sint (dex_buyer_amount example_match) = sint (990000 :: i64)" "sint (dex_reward_amount example_match) = sint (5000 :: i64)"
    using dex_shares(1,2) [OF v] by (simp_all add: example_match_def)
  then show "dex_buyer_amount example_match = 990000" "dex_reward_amount example_match = 5000" by (simp_all only: signed_word_eqI)
qed

definition example_payment :: "CDestination \<Rightarrow> i64 \<Rightarrow> CTransaction" where
  "example_payment d n = tx_SetNull\<lparr> tx_sendTo := d, tx_nAmount := n, tx_nTxFee := 10000 \<rparr>"


section \<open>What an accepted transaction shows\<close>

lemma signed_by_mono: "signed_by ed_verify hash v k \<Longrightarrow> sublist v w \<Longrightarrow> signed_by ed_verify hash w k"
  unfolding signed_by_def using sublist_order.order.trans by blast

lemma authorised_mono:
  "authorised ed_verify blake2b hash destTo h v d \<Longrightarrow> sublist v w \<Longrightarrow> authorised ed_verify blake2b hash destTo h w d"
proof (induction rule: authorised.induct)
  case (by_key pubkey)
  then show ?case by (blast intro: authorised.by_key signed_by_mono)
next
  case (by_weight obj t keys)
  show ?case
    by (rule authorised.by_weight [OF by_weight(1-4) _ by_weight(6)])
      (use by_weight(5,7) signed_by_mono in blast)
next
  case (by_owner obj d)
  then show ?case by (blast intro: authorised.by_owner)
qed

lemma VerifyDestRecorded_sublist: "VerifyDestRecorded blake2b tx = Inr (Some v) \<Longrightarrow> sublist v (tx_vchSig tx)"
  by (auto simp: VerifyDestRecorded_def template_GetSignDestination_def exchange_GetSignDestination_def
      template_GetSignRest_def split: if_splits sum.splits option.splits template_obj.splits)

lemma verify_signature_sound:
  assumes "verify_signature ed_verify blake2b tx destIn h fork = Inr OK" "dest_template_type destIn \<noteq> TEMPLATE_EXCHANGE"
  shows "authorised ed_verify blake2b (tx_GetSignatureHash blake2b tx) (tx_sendTo tx) h (tx_vchSig tx) destIn"
proof -
  obtain v where v: "VerifyDestRecorded blake2b tx = Inr (Some v)"
      "dest_VerifyTxSignature_fork ed_verify blake2b destIn (tx_GetSignatureHash blake2b tx) (tx_sendTo tx) v h fork = Inr True"
    using assms(1) by (auto simp: verify_signature_def map_sum_def split: sum.splits option.splits if_splits)
  have "\<not> is_template_of destIn TEMPLATE_EXCHANGE" using assms(2) by (auto simp: is_template_of_def dest_template_type_def)
  then have "authorised ed_verify blake2b (tx_GetSignatureHash blake2b tx) (tx_sendTo tx) h v destIn"
    using dest_signature_sound [OF v(2)] by blast
  then show ?thesis using VerifyDestRecorded_sublist [OF v(1)] authorised_mono by blast
qed

lemma word_sum_sint: "sum_list xs = (word_of_int (\<Sum>x\<leftarrow>xs. sint x) :: i64)"
  by (induction xs) simp_all

lemma sint_sum_list:
  fixes f :: "'a \<Rightarrow> i64"
  assumes "\<And>x. x \<in> set xs \<Longrightarrow> 0 \<le> sint (f x)" "(\<Sum>x\<leftarrow>xs. sint (f x)) < 2 ^ 63"
  shows "sint (\<Sum>x\<leftarrow>xs. f x) = (\<Sum>x\<leftarrow>xs. sint (f x))"
proof -
  have "sint (\<Sum>x\<leftarrow>xs. f x) = sint (word_of_int (\<Sum>x\<leftarrow>xs. sint (f x)) :: i64)"
    using word_sum_sint [of "map f xs"] by (simp add: o_def)
  also have "\<dots> = (\<Sum>x\<leftarrow>xs. sint (f x))" by (rule sint_small [OF _ assms(2)]) (auto intro!: sum_list_nonneg assms(1))
  finally show ?thesis .
qed

lemma pool_inputs_sound:
  "pool_inputs destIn t h prevs n = Inr v \<Longrightarrow>
     v = n + (\<Sum>out\<leftarrow>prevs. out_nAmount out)
     \<and> (\<forall>out \<in> set prevs. out_destTo out = destIn \<and> out_nTxTime out \<le> t \<and> \<not> txout_IsLocked out h)"
proof (induction prevs arbitrary: n)
  case (Cons out prevs)
  with Cons.IH [of "n + out_nAmount out"] show ?case by (auto simp: not_less add.assoc split: if_splits)
qed simp

lemma block_inputs_sound:
  "block_inputs t h vin n = Inr v \<Longrightarrow>
     v = n + (\<Sum>i\<leftarrow>vin. inc_nAmount i) \<and> (\<forall>i \<in> set vin. inc_nTxTime i \<le> t \<and> \<not> txincontxt_IsLocked i h)"
proof (induction vin arbitrary: n)
  case (Cons i vin)
  with Cons.IH [of "n + inc_nAmount i"] show ?case by (auto simp: not_less add.assoc split: if_splits)
qed simp

lemma pool_inputs_not_OK [simp]: "pool_inputs destIn t h prevs n \<noteq> Inl OK"
  by (induction prevs arbitrary: n) auto

lemma block_inputs_not_OK [simp]: "block_inputs t h vin n \<noteq> Inl OK"
  by (induction vin arbitrary: n) auto

text \<open>The change of a transaction within the money range, without wrap-around.\<close>

lemma change_value:
  assumes "ValidateTransaction tx = OK" "tx_fee_ok tx" "MoneyRange (sint v)" "\<not> sint v < sint (tx_nAmount tx + tx_nTxFee tx)"
  shows "0 \<le> sint (tx_nAmount tx) \<and> 0 \<le> sint (tx_nTxFee tx) \<and> 0 \<le> sint (tx_GetChange tx v)
    \<and> sint (tx_nAmount tx) + sint (tx_nTxFee tx) + sint (tx_GetChange tx v) = sint v"
proof -
  let ?a = "sint (tx_nAmount tx)" and ?f = "sint (tx_nTxFee tx)"
  have r: "0 \<le> ?a" "?a \<le> 1000000000000000000" "0 \<le> ?f" "?f \<le> 1000000000000000000" "0 \<le> sint v" "sint v \<le> 1000000000000000000"
    using assms(1-3) by (auto simp: ValidateTransaction_def tx_fee_ok_def MoneyRange_def MAX_MONEY_def COIN_def split: if_splits)
  have "tx_nAmount tx + tx_nTxFee tx = word_of_int (?a + ?f)" by simp
  moreover have "sint (word_of_int (?a + ?f) :: i64) = ?a + ?f" by (rule sint_small) (use r in simp_all)
  ultimately have s: "sint (tx_nAmount tx + tx_nTxFee tx) = ?a + ?f" by simp
  have "tx_GetChange tx v = word_of_int (sint v - ?a - ?f)" by (simp add: tx_GetChange_def)
  moreover have "0 \<le> sint v - ?a - ?f" "sint v - ?a - ?f < 2 ^ 63" using s assms(4) r by simp_all
  ultimately have "sint (tx_GetChange tx v) = sint v - ?a - ?f" by (simp only: sint_small)
  then show ?thesis using r \<open>0 \<le> sint v - ?a - ?f\<close> by simp
qed

text \<open>
  C31: a transaction that passes the context-free checks and \<^verbatim>\<open>VerifyTransaction\<close> spends outputs of one
  destination that are neither younger than it nor locked, creates no coins (what it pays, its fee and
  its change, none of them negative, add up to what it spends) and, unless it spends from an exchange
  template, carries signatures that authorise it for that destination at the next height.  The outputs
  it spends are assumed not to be negative and to have a sum below 2^63.
\<close>

theorem accepted_transaction_sound:
  assumes tx: "ValidateTransaction tx = OK"
    and ver: "VerifyTransaction ed_verify blake2b sha256 testnet cv tx vPrevOutput nForkHeight hashLastBlock fork = Inr OK"
    and pos: "\<And>out. out \<in> set vPrevOutput \<Longrightarrow> 0 \<le> sint (out_nAmount out)" "(\<Sum>out\<leftarrow>vPrevOutput. sint (out_nAmount out)) < 2 ^ 63"
  shows "\<exists>destIn change. 0 \<le> sint (tx_nAmount tx) \<and> 0 \<le> sint (tx_nTxFee tx) \<and> 0 \<le> change
    \<and> sint (tx_nAmount tx) + sint (tx_nTxFee tx) + change = (\<Sum>out\<leftarrow>vPrevOutput. sint (out_nAmount out))
    \<and> (\<forall>out \<in> set vPrevOutput. out_destTo out = destIn \<and> out_nTxTime out \<le> tx_nTimeStamp tx \<and> \<not> txout_IsLocked out nForkHeight)
    \<and> (dest_template_type destIn \<noteq> TEMPLATE_EXCHANGE \<longrightarrow>
        authorised ed_verify blake2b (tx_GetSignatureHash blake2b tx) (tx_sendTo tx) (nForkHeight + 1) (tx_vchSig tx) destIn)"
proof -
  obtain first rest where prevs: "vPrevOutput = first # rest" using ver by (cases vPrevOutput) (auto simp: VerifyTransaction_def)
  let ?d = "out_destTo first"
  obtain v where v: "pool_inputs ?d (tx_nTimeStamp tx) nForkHeight vPrevOutput 0 = Inr v" "MoneyRange (sint v)" "tx_fee_ok tx"
      "\<not> sint v < sint (tx_nAmount tx + tx_nTxFee tx)" "verify_signature ed_verify blake2b tx ?d (nForkHeight + 1) fork = Inr OK"
    using ver by (auto simp: VerifyTransaction_def prevs Let_def split: sum.splits if_splits)
  note ins = pool_inputs_sound [OF v(1)]
  have "sint v = (\<Sum>out\<leftarrow>vPrevOutput. sint (out_nAmount out))"
    using ins sint_sum_list [OF pos] by simp
  then show ?thesis
    using change_value [OF tx v(3,2,4)] ins verify_signature_sound [OF v(5)] by (intro exI [of _ ?d] exI [of _ "sint (tx_GetChange tx v)"]) simp
qed

text \<open>
  C32: the same for a transaction of a block that has passed \<^verbatim>\<open>ValidateTransaction\<close> (which the check
  of a block applies to each of its transactions first) and whose inputs have amounts that are not
  negative and whose sum stays below \<open>2 ^ 63\<close>: when \<^verbatim>\<open>VerifyBlockTx\<close> accepts it, it is not a mint
  transaction, creates no coins and spends inputs that are not locked.  Unless they belong to an
  exchange template, the destination of the inputs has authorised it, where the height at which the
  signature is judged is one below the height of the block.  Exchange templates are excepted since
  their signatures are not bound to the address.
\<close>

theorem accepted_block_tx_sound:
  assumes tx: "ValidateTransaction tx = OK"
    and ver: "VerifyBlockTx ed_verify blake2b sha256 testnet cv tx txContxt pIndexPrev nForkHeight fork = Inr OK"
    and pos: "\<And>i. i \<in> set (ctxt_vin txContxt) \<Longrightarrow> 0 \<le> sint (inc_nAmount i)" "(\<Sum>i\<leftarrow>ctxt_vin txContxt. sint (inc_nAmount i)) < 2 ^ 63"
  shows "\<not> tx_IsMintTx tx \<and> 0 \<le> sint (tx_nAmount tx) \<and> 0 \<le> sint (tx_nTxFee tx)
    \<and> sint (tx_nAmount tx) + sint (tx_nTxFee tx) + sint (tx_GetChange tx (txcontxt_GetValueIn txContxt)) = (\<Sum>i\<leftarrow>ctxt_vin txContxt. sint (inc_nAmount i))
    \<and> 0 \<le> sint (tx_GetChange tx (txcontxt_GetValueIn txContxt))
    \<and> (\<forall>i \<in> set (ctxt_vin txContxt). inc_nTxTime i \<le> tx_nTimeStamp tx \<and> \<not> txincontxt_IsLocked i (bi_nHeight pIndexPrev))
    \<and> (dest_template_type (ctxt_destIn txContxt) \<noteq> TEMPLATE_EXCHANGE \<longrightarrow>
        authorised ed_verify blake2b (tx_GetSignatureHash blake2b tx) (tx_sendTo tx) (nForkHeight - 1) (tx_vchSig tx) (ctxt_destIn txContxt))"
proof -
  let ?d = "ctxt_destIn txContxt"
  obtain v where mint: "\<not> tx_IsMintTx tx"
    and v: "block_inputs (tx_nTimeStamp tx) (bi_nHeight pIndexPrev) (ctxt_vin txContxt) 0 = Inr v" "MoneyRange (sint v)" "tx_fee_ok tx"
      "\<not> sint v < sint (tx_nAmount tx + tx_nTxFee tx)" "verify_signature ed_verify blake2b tx ?d (nForkHeight - 1) fork = Inr OK"
    using ver by (auto simp: VerifyBlockTx_def Let_def split: sum.splits if_splits)
  note ins = block_inputs_sound [OF v(1)]
  have "fold (\<lambda>i n. n + inc_nAmount i) xs n = n + (\<Sum>i\<leftarrow>xs. inc_nAmount i)" for xs n
    by (induction xs arbitrary: n) (simp_all add: add.assoc)
  from this [of "ctxt_vin txContxt" 0] have "v = txcontxt_GetValueIn txContxt" using ins by (simp add: txcontxt_GetValueIn_def)
  moreover have "sint v = (\<Sum>i\<leftarrow>ctxt_vin txContxt. sint (inc_nAmount i))"
    using ins sint_sum_list [OF pos] by simp
  ultimately show ?thesis using mint change_value [OF tx v(3,2,4)] ins verify_signature_sound [OF v(5)] by simp
qed

section \<open>A match at the end of its term\<close>

lemma dest_type_template_dest [simp]: "dest_template_type (template_dest blake2b obj) = obj_nType obj"
  by (simp add: dest_template_type_def template_dest_def template_build_def template_BuildTemplateId_def Let_def)

lemma VerifyDestRecorded_pubkey: "dest_IsPubKey (tx_sendTo tx) \<Longrightarrow> VerifyDestRecorded blake2b tx = Inr (Some (tx_vchSig tx))"
  by (simp add: VerifyDestRecorded_def dest_IsPubKey_def dest_IsTemplate_def PREFIX_PUBKEY_def PREFIX_TEMPLATE_def)

lemma create_as_match:
  "obj_ok (TDexMatch m) \<Longrightarrow> dexmatch_ValidateParam m \<Longrightarrow>
   create_as blake2b TEMPLATE_DEXMATCH as_dexmatch (dexmatch_BuildTemplateData m @ sig) = Inr (Some (template_build blake2b (TDexMatch m), m))"
  using CreateTemplatePtr_round_trip [of "TDexMatch m" blake2b sig] by (simp add: create_as_def template_build_def Let_def)

lemma dealer_signature:
  assumes "obj_ok (TDexMatch m)" "dexmatch_ValidateParam m" "dm_destSellerDeal m = dest_SetPubKey k" "length sig = 64"
    and "pubkey_Verify ed_verify k hash sig"
  shows "dest_VerifyTxSignature_fork ed_verify blake2b (template_dest blake2b (TDexMatch m)) hash destTo
    (dexmatch_BuildTemplateData m @ sig) (dm_nSellerValidHeight m) fork = Inr True"
proof -
  let ?id = "tpl_nId (template_build blake2b (TDexMatch m))"
  have id: "templateid_GetType ?id = TEMPLATE_DEXMATCH"
    by (simp add: template_build_def template_BuildTemplateId_def Let_def)
  have key: "dest_VerifyTxSignature ed_verify blake2b (dest_SetPubKey k) hash destTo sig h fc = Inr (True, True)" for h fc
    using assms(5) by (simp add: dest_VerifyTxSignature.simps)
  have "template_VerifyTxSignature ed_verify blake2b ?id hash destTo (dexmatch_BuildTemplateData m @ sig) (dm_nSellerValidHeight m) False
      = Inr (True, True)"
    using CreateTemplatePtr_round_trip [OF assms(1), of blake2b sig] assms(2,3,4)
    by (simp add: template_VerifyTxSignature.simps id key dexmatch_SigSub_def)
      (simp add: template_build_def Let_def key dexmatch_SigSub_def)
  then have "dest_VerifyTxSignature ed_verify blake2b (template_dest blake2b (TDexMatch m)) hash destTo
      (dexmatch_BuildTemplateData m @ sig) (dm_nSellerValidHeight m) False = Inr (True, True)"
    by (simp add: dest_VerifyTxSignature.simps template_dest_def)
  moreover have "\<not> is_template_of (template_dest blake2b (TDexMatch m)) TEMPLATE_EXCHANGE"
    using id by (simp add: is_template_of_def template_dest_def template_types)
  ultimately show ?thesis by (simp add: dest_VerifyTxSignature_fork_def)
qed

text \<open>
  In the first block after the term of a match, the rules for its payments no longer apply, since
  they are judged at the height of the block, but the signature is still that of the dealer, since it
  is judged at the height below: a transaction with no more than the dealer's signature, and without
  the buyer's secret, is accepted whatever it pays and to whomever.  The transaction pool, which judges
  both at the height of the next block, demands the seller's signature there.
\<close>

theorem dealer_takes_match_after_term:
  assumes m: "obj_ok (TDexMatch m)" "dexmatch_ValidateParam m" "dm_destSellerDeal m = dest_SetPubKey k"
      "sint (dm_nSellerValidHeight m) < 2 ^ 31 - 1"
    and tx: "\<not> tx_IsMintTx tx" "dest_IsPubKey (tx_sendTo tx)" "tx_vchSig tx = dexmatch_BuildTemplateData m @ sig" "length sig = 64"
      "pubkey_Verify ed_verify k (tx_GetSignatureHash blake2b tx) sig"
    and v: "block_inputs (tx_nTimeStamp tx) (bi_nHeight pIndexPrev) vin 0 = Inr nValueIn" "MoneyRange (sint nValueIn)" "tx_fee_ok tx"
      "sint (tx_nAmount tx + tx_nTxFee tx) \<le> sint nValueIn"
  shows "VerifyBlockTx ed_verify blake2b sha256 testnet cv tx \<lparr> ctxt_destIn = template_dest blake2b (TDexMatch m), ctxt_vin = vin \<rparr>
      pIndexPrev (dm_nSellerValidHeight m + 1) fork = Inr OK"
proof -
  let ?V = "dm_nSellerValidHeight m"
  have V: "\<not> sint (?V + 1) \<le> sint ?V"
  proof -
    have "?V + 1 = word_of_int (sint ?V + 1)" by simp
    moreover have "- (2 ^ 31) \<le> sint ?V" using sint_ge [of ?V] by simp
    ultimately have "sint (?V + 1) = sint ?V + 1" using m(4) by (simp only: int_word_sint) simp
    then show ?thesis by simp
  qed
  have rec: "VerifyDestRecorded blake2b tx = Inr (Some (dexmatch_BuildTemplateData m @ sig))"
    using VerifyDestRecorded_pubkey [OF tx(2)] tx(3) by simp
  have "VerifyDexMatchTx blake2b sha256 tx nValueIn (?V + 1) = Inr OK"
    using V by (simp add: VerifyDexMatchTx_def rec create_as_match [OF m(1,2)])
  moreover have "verify_signature ed_verify blake2b tx (template_dest blake2b (TDexMatch m)) ?V fork = Inr OK"
    using dealer_signature [OF m(1-3) tx(4,5)] by (simp add: verify_signature_def rec)
  moreover have "dest_template_type (tx_sendTo tx) = 0"
    using tx(2) by (simp add: dest_template_type_def dest_IsPubKey_def dest_IsTemplate_def PREFIX_PUBKEY_def PREFIX_TEMPLATE_def)
  ultimately show ?thesis
    using tx(1) v by (simp add: VerifyBlockTx_def Let_def template_types)
qed

definition example_take :: CTransaction where
  "example_take = tx_SetNull\<lparr> tx_nTimeStamp := 9, tx_sendTo := dest_SetPubKey 3, tx_nAmount := 1020000, tx_nTxFee := 10000,
     tx_vchSig := dexmatch_BuildTemplateData example_match @ replicate 64 3 \<rparr>"

definition example_in :: CTxInContxt where
  "example_in = \<lparr> inc_nAmount = 1030000, inc_nTxTime = 5, inc_nLockUntil = 0 \<rparr>"

definition example_prev :: CBlockIndex where
  "example_prev = (block_index (\<lambda>_. 0) 7 block_SetNull 0 0)\<lparr> bi_nHeight := 50 \<rparr>"

definition example_view :: chain_view where
  "example_view = \<lparr> cv_genesis = 0, cv_last_block = None, cv_address_redeem = (\<lambda>_ _. None), cv_address_pledge = (\<lambda>_ _ _. None),
     cv_pool_amount = (\<lambda>_. 0), cv_pool_txs = [] \<rparr>"

lemma example_take_ok:
  "\<not> tx_IsMintTx example_take" "dest_IsPubKey (tx_sendTo example_take)" "tx_fee_ok example_take"
  "block_inputs (tx_nTimeStamp example_take) (bi_nHeight example_prev) [example_in] 0 = Inr 1030000"
  "sint (tx_nAmount example_take + tx_nTxFee example_take) \<le> sint (1030000 :: i64)" "MoneyRange (sint (1030000 :: i64))"
  by (simp_all add: example_take_def tx_SetNull_def tx_IsMintTx_def TX_GENESIS_def TX_STAKE_def TX_WORK_def TX_TOKEN_def
      tx_fee_ok_def CalcMinTxFee_def MoneyRange_def MAX_MONEY_def COIN_def MIN_TX_FEE_def CENT_def example_in_def example_prev_def
      txincontxt_IsLocked_def lock_IsLocked_def)

theorem dealer_takes_match_after_term_witness:
  "VerifyBlockTx example_verify (\<lambda>_. 0) (\<lambda>_. 0) False example_view example_take
     \<lparr> ctxt_destIn = template_dest (\<lambda>_. 0) (TDexMatch example_match), ctxt_vin = [example_in] \<rparr> example_prev
     (dm_nSellerValidHeight example_match + 1) 7 = Inr OK"
proof (rule dealer_takes_match_after_term)
  show "obj_ok (TDexMatch example_match)" "dexmatch_ValidateParam example_match"
    using example_match_ok by simp_all
  show "tx_vchSig example_take = dexmatch_BuildTemplateData example_match @ replicate 64 3"
    by (simp add: example_take_def)
  show "dm_destSellerDeal example_match = dest_SetPubKey 3" "sint (dm_nSellerValidHeight example_match) < 2 ^ 31 - 1"
    by (simp_all add: example_match_def)
  show "pubkey_Verify example_verify 3 (tx_GetSignatureHash (\<lambda>_. 0) example_take) (replicate 64 3)"
    by (simp add: pubkey_Verify_def CryptoVerify_def example_verify_def)
qed (fact example_take_ok | simp)+

text \<open>A payment from a key, for the rules that hold of every accepted transaction.\<close>

definition example_pay_key :: CTransaction where
  "example_pay_key = tx_SetNull\<lparr> tx_nTimeStamp := 9, tx_vInput := [CTxIn (CTxOutPoint 1 0)], tx_sendTo := dest_SetPubKey 5, tx_nAmount := 7,
     tx_nTxFee := 10000, tx_vchSig := replicate 64 3 \<rparr>"

definition example_out :: CTxOut where
  "example_out = \<lparr> out_destTo = dest_SetPubKey 3, out_nAmount = 30000, out_nTxTime = 5, out_nLockUntil = 0 \<rparr>"

lemma example_pay_key_signed: "verify_signature example_verify (\<lambda>_. 0) example_pay_key (dest_SetPubKey 3) h fork = Inr OK"
  by (simp add: verify_signature_def VerifyDestRecorded_pubkey example_pay_key_def dest_VerifyTxSignature_fork_def is_template_of_def
      dest_VerifyTxSignature.simps pubkey_Verify_def CryptoVerify_def example_verify_def)

lemma example_pay_key_fee: "tx_fee_ok example_pay_key" "\<not> tx_IsMintTx example_pay_key" "dest_template_type (dest_SetPubKey k) = 0"
  "dest_template_type (tx_sendTo example_pay_key) = 0"
  by (simp_all add: example_pay_key_def tx_SetNull_def tx_IsMintTx_def TX_GENESIS_def TX_STAKE_def TX_WORK_def TX_TOKEN_def
      tx_fee_ok_def CalcMinTxFee_def MoneyRange_def MAX_MONEY_def COIN_def MIN_TX_FEE_def CENT_def dest_template_type_def)

lemma example_pay_key_valid: "ValidateTransaction example_pay_key = OK"
proof -
  have "\<not> dest_IsNull (tx_sendTo example_pay_key)"
    by (simp add: example_pay_key_def dest_IsNull_def dest_SetPubKey_def PREFIX_NULL_def PREFIX_PUBKEY_def)
  moreover have "size_CTransaction_ser example_pay_key \<le> 1000"
    by (simp add: size_CTransaction_ser_def example_pay_key_def tx_SetNull_def size_basic_def size_vector_def size_varint_def
        size_CDestination_ser_def size_bytes_def size_CTxIn_ser_def size_CTxOutPoint_ser_def)
  moreover have "sint (tx_nAmount example_pay_key) = 7" "tx_vInput example_pay_key = [CTxIn (CTxOutPoint 1 0)]"
    by (simp_all add: example_pay_key_def)
  ultimately show ?thesis
    using example_pay_key_fee(2)
    by (simp add: ValidateTransaction_def MoneyRange_def MAX_MONEY_def COIN_def MAX_TX_SIZE_def MAX_BLOCK_SIZE_def outpoint_IsNull_def)
qed

theorem accepted_transaction_sound_witness:
  "\<exists>destIn change. sint (tx_nAmount example_pay_key) + sint (tx_nTxFee example_pay_key) + change = 30000 \<and> 0 \<le> change
    \<and> out_destTo example_out = destIn"
proof -
  have "VerifyTransaction example_verify (\<lambda>_. 0) (\<lambda>_. 0) False example_view example_pay_key [example_out] 10 0 0 = Inr OK"
    using example_pay_key_signed example_pay_key_fee
    by (simp add: VerifyTransaction_def example_out_def Let_def template_types txout_IsLocked_def lock_IsLocked_def MoneyRange_def
        MAX_MONEY_def COIN_def) (simp add: example_pay_key_def tx_SetNull_def)
  from accepted_transaction_sound [OF example_pay_key_valid this] show ?thesis by (auto simp: example_out_def)
qed

theorem accepted_block_tx_sound_witness:
  "authorised example_verify (\<lambda>_. 0) (tx_GetSignatureHash (\<lambda>_. 0) example_pay_key) (dest_SetPubKey 5) 50 (replicate 64 3) (dest_SetPubKey 3)"
proof -
  let ?c = "\<lparr> ctxt_destIn = dest_SetPubKey 3, ctxt_vin = [example_in] \<rparr>"
  have "VerifyBlockTx example_verify (\<lambda>_. 0) (\<lambda>_. 0) False example_view example_pay_key ?c example_prev 51 0 = Inr OK"
    using example_pay_key_signed example_pay_key_fee
    by (simp add: VerifyBlockTx_def example_in_def Let_def template_types txincontxt_IsLocked_def lock_IsLocked_def MoneyRange_def
        MAX_MONEY_def COIN_def) (simp add: example_pay_key_def tx_SetNull_def)
  from accepted_block_tx_sound [OF example_pay_key_valid this] show ?thesis
    by (simp add: example_in_def example_pay_key_fee template_types) (simp add: example_pay_key_def)
qed

end
