(* ===== verification/Chain_Redeem.thy ===== *)
theory Chain_Redeem
  imports Core_Verify
begin

text \<open>
  The rules for redeemed pledges in a block (\<^verbatim>\<open>CBlockChain::VerifyBlockMintRedeem\<close> in
  \<^verbatim>\<open>src/src/minemon/blockchain.cpp\<close>): what was pledged is released in equal daily parts, and the
  transactions of a block together must leave the part that is still locked.
\<close>

section \<open>The release of a locked amount\<close>

text \<open>
  The locked part of a redeemed amount is the whole amount during the first day, never grows with
  the height, and is at least one daily part as long as the lock lasts.
\<close>

theorem redeem_release_schedule:
  assumes "0 \<le> sint nLockAmount" "0 \<le> n" "n \<le> n'" "n' < BPX_REDEEM_DAY_COUNT testnet * BPX_REDEEM_DAY_HEIGHT testnet"
  shows "redeem_locked testnet nLockAmount n' \<le> redeem_locked testnet nLockAmount n
    \<and> redeem_locked testnet nLockAmount n \<le> sint nLockAmount
    \<and> sint nLockAmount div BPX_REDEEM_DAY_COUNT testnet \<le> redeem_locked testnet nLockAmount n'
    \<and> (n < BPX_REDEEM_DAY_HEIGHT testnet \<longrightarrow> redeem_locked testnet nLockAmount n = sint nLockAmount)"
proof -
  let ?a = "sint nLockAmount" and ?d = "BPX_REDEEM_DAY_COUNT testnet" and ?h = "BPX_REDEEM_DAY_HEIGHT testnet"
  have p: "0 < ?d" "0 < ?h" by (simp_all add: BPX_REDEEM_DAY_COUNT_def BPX_REDEEM_DAY_HEIGHT_def GET_PARAM_def)
  have locked: "redeem_locked testnet nLockAmount k = ?a - ?a div ?d * (k div ?h)" if "0 \<le> k" for k
    using that assms(1) p by (simp add: redeem_locked_def cdiv_nonneg)
  have "0 \<le> ?a div ?d" using assms(1) p by (simp add: pos_imp_zdiv_nonneg_iff)
  moreover have "n div ?h \<le> n' div ?h" "0 \<le> n div ?h" using assms p by (simp_all add: zdiv_mono1 pos_imp_zdiv_nonneg_iff)
  moreover have "n' div ?h \<le> ?d - 1"
  proof -
    have "n' div ?h * ?h \<le> n'" using p(2) by (metis div_mult_mod_eq le_add_same_cancel1 pos_mod_sign)
    then have "n' div ?h * ?h < ?d * ?h" using assms(4) by simp
    then have "n' div ?h < ?d" using p(2) by simp
    then show ?thesis by simp
  qed
  ultimately have "?a div ?d * (n div ?h) \<le> ?a div ?d * (n' div ?h)" "0 \<le> ?a div ?d * (n div ?h)"
      "?a div ?d * (n' div ?h) \<le> ?a div ?d * (?d - 1)"
    by (simp_all add: mult_left_mono)
  moreover have "?a div ?d * ?d \<le> ?a" using p by (metis div_mult_mod_eq le_add_same_cancel1 pos_mod_sign)
  moreover have "?a div ?d * (?d - 1) = ?a div ?d * ?d - ?a div ?d" by (simp add: right_diff_distrib)
  moreover have "n div ?h = 0" if "n < ?h" using that assms(2) by simp
  ultimately show ?thesis using locked [of n] locked [of n'] assms(2,3) by auto
qed

theorem redeem_release_schedule_witness:
  "redeem_locked False 1000000 2900 = 980000 \<and> redeem_locked False 1000000 2900 \<le> redeem_locked False 1000000 1500"
  using redeem_release_schedule [of 1000000 1500 2900 False]
  by (simp add: redeem_locked_def BPX_REDEEM_DAY_COUNT_def BPX_REDEEM_DAY_HEIGHT_def GET_PARAM_def cdiv_def)

section \<open>Redeeming transactions of a block\<close>

text \<open>
  The loop over the transactions and their contexts, with the set of redeem addresses that received
  coins in this block and the amounts spent so far.  Where the record of an address cannot be read, the
  code says \<^verbatim>\<open>return -1\<close>, which as a \<^verbatim>\<open>bool\<close> is \<^verbatim>\<open>true\<close>.
\<close>

fun block_redeem_loop :: "bool \<Rightarrow> chain_view \<Rightarrow> u32 \<Rightarrow> uint256 \<Rightarrow> CTransaction list \<Rightarrow> CTxContxt list \<Rightarrow> CDestination set
    \<Rightarrow> (CDestination \<Rightarrow> i64) \<Rightarrow> stream_error + bool" where
  "block_redeem_loop testnet cv nHeight hashPrev [] cs setBlockRedeem mapRedeemValue = Inr True"
| "block_redeem_loop testnet cv nHeight hashPrev (tx # txs) [] setBlockRedeem mapRedeemValue = Inl OutOfBounds"
| "block_redeem_loop testnet cv nHeight hashPrev (tx # txs) (txContxt # cs) setBlockRedeem mapRedeemValue =
     (let setBlockRedeem' = (if is_template_of (tx_sendTo tx) TEMPLATE_MINTREDEEM
            then insert (tx_sendTo tx) setBlockRedeem else setBlockRedeem);
          destIn = ctxt_destIn txContxt in
      if is_template_of destIn TEMPLATE_MINTREDEEM then
        if destIn \<in> setBlockRedeem' then Inr False
        else (case cv_address_redeem cv hashPrev destIn of
            None \<Rightarrow> Inr True
          | Some redeem \<Rightarrow>
              if sint (dr_nLockBeginHeight redeem) > 0 then
                let nRedeemValue = mapRedeemValue destIn;
                    nLockHeightCount = sint (nHeight - dr_nLockBeginHeight redeem) in
                if nLockHeightCount \<le> 0 then Inr False
                else if nLockHeightCount < BPX_REDEEM_DAY_COUNT testnet * BPX_REDEEM_DAY_HEIGHT testnet
                  \<and> sint (dr_nBalance redeem - nRedeemValue - tx_nAmount tx - tx_nTxFee tx)
                      < redeem_locked testnet (dr_nLockAmount redeem) nLockHeightCount then Inr False
                else block_redeem_loop testnet cv nHeight hashPrev txs cs setBlockRedeem'
                       (mapRedeemValue(destIn := nRedeemValue + (tx_nAmount tx + tx_nTxFee tx)))
              else block_redeem_loop testnet cv nHeight hashPrev txs cs setBlockRedeem' mapRedeemValue)
      else block_redeem_loop testnet cv nHeight hashPrev txs cs setBlockRedeem' mapRedeemValue)"

definition VerifyBlockMintRedeem :: "bool \<Rightarrow> chain_view \<Rightarrow> CBlockEx \<Rightarrow> stream_error + bool" where
  "VerifyBlockMintRedeem testnet cv block =
     block_redeem_loop testnet cv (block_GetBlockHeight block) (blk_hashPrev block)
       (blk_vtx block) (bex_vTxContxt block) {} (\<lambda>_. 0)"

text \<open>What the transactions of a list spend from an address.\<close>

definition spent_from :: "CDestination \<Rightarrow> (CTransaction \<times> CTxContxt) list \<Rightarrow> int" where
  "spent_from d txs = (\<Sum>(tx, c)\<leftarrow>txs. if ctxt_destIn c = d then sint (tx_nAmount tx) + sint (tx_nTxFee tx) else 0)"

lemma spent_from_Cons [simp]:
  "spent_from d ((tx, c) # txs) = (if ctxt_destIn c = d then sint (tx_nAmount tx) + sint (tx_nTxFee tx) else 0) + spent_from d txs"
  by (simp add: spent_from_def)

lemma spent_from_nonneg:
  "\<forall>(tx, c) \<in> set txs. 0 \<le> sint (tx_nAmount tx) \<and> 0 \<le> sint (tx_nTxFee tx) \<Longrightarrow> 0 \<le> spent_from d txs"
  by (induction txs) (auto simp: spent_from_def)

lemma spent_from_none: "\<forall>(tx, c) \<in> set txs. ctxt_destIn c \<noteq> d \<Longrightarrow> spent_from d txs = 0"
  by (induction txs) (auto simp: spent_from_def)

lemma block_redeem_step_other:
  assumes "block_redeem_loop testnet cv nHeight hashPrev (tx # txs) (c # cs) S M = Inr True"
    and "is_template_of (ctxt_destIn c) TEMPLATE_MINTREDEEM \<longrightarrow> cv_address_redeem cv hashPrev (ctxt_destIn c) \<noteq> None"
    and "ctxt_destIn c \<noteq> d"
  shows "\<exists>S' M'. block_redeem_loop testnet cv nHeight hashPrev txs cs S' M' = Inr True \<and> M' d = M d"
  using assms by (auto simp: Let_def split: if_splits option.splits) (metis fun_upd_apply)+

lemma block_redeem_step_spend:
  assumes "block_redeem_loop testnet cv nHeight hashPrev (tx # txs) (c # cs) S M = Inr True"
    and "is_template_of d TEMPLATE_MINTREDEEM" "cv_address_redeem cv hashPrev d = Some r" "sint (dr_nLockBeginHeight r) > 0"
      "sint (nHeight - dr_nLockBeginHeight r) < BPX_REDEEM_DAY_COUNT testnet * BPX_REDEEM_DAY_HEIGHT testnet"
    and "ctxt_destIn c = d"
    and pos: "0 \<le> sint (tx_nAmount tx)" "0 \<le> sint (tx_nTxFee tx)" "0 \<le> sint (M d)" "0 \<le> sint (dr_nBalance r)"
      "sint (M d) + sint (tx_nAmount tx) + sint (tx_nTxFee tx) < 2 ^ 62"
  obtains S' M' where "block_redeem_loop testnet cv nHeight hashPrev txs cs S' M' = Inr True"
    "sint (M' d) = sint (M d) + sint (tx_nAmount tx) + sint (tx_nTxFee tx)"
    "redeem_locked testnet (dr_nLockAmount r) (sint (nHeight - dr_nLockBeginHeight r)) \<le> sint (dr_nBalance r) - sint (M' d)"
proof -
  let ?a = "sint (tx_nAmount tx)" and ?f = "sint (tx_nTxFee tx)" and ?m = "M d + (tx_nAmount tx + tx_nTxFee tx)"
  have m: "sint ?m = sint (M d) + ?a + ?f"
    using pos by (simp add: sint_word_ariths signed_take_bit_int_eq_self)
  have "sint (dr_nBalance r) < 2 ^ 63" using sint_lt [of "dr_nBalance r"] by simp
  then have b: "sint (dr_nBalance r - M d - tx_nAmount tx - tx_nTxFee tx) = sint (dr_nBalance r) - sint (M d) - ?a - ?f"
    using pos by (simp add: sint_word_ariths signed_take_bit_int_eq_self)
  show ?thesis
    using assms(1-6) m b by (auto simp: Let_def split: if_splits intro!: that)
qed

lemma block_redeem_loop_keeps:
  assumes "block_redeem_loop testnet cv nHeight hashPrev txs cs S M = Inr True"
    and "\<forall>c \<in> set cs. is_template_of (ctxt_destIn c) TEMPLATE_MINTREDEEM \<longrightarrow> cv_address_redeem cv hashPrev (ctxt_destIn c) \<noteq> None"
    and d: "is_template_of d TEMPLATE_MINTREDEEM" "cv_address_redeem cv hashPrev d = Some r" "sint (dr_nLockBeginHeight r) > 0"
      "sint (nHeight - dr_nLockBeginHeight r) < BPX_REDEEM_DAY_COUNT testnet * BPX_REDEEM_DAY_HEIGHT testnet"
    and pos: "\<forall>tx \<in> set txs. 0 \<le> sint (tx_nAmount tx) \<and> 0 \<le> sint (tx_nTxFee tx)" "0 \<le> sint (M d)" "0 \<le> sint (dr_nBalance r)"
    and bound: "sint (M d) + spent_from d (zip txs cs) < 2 ^ 62"
    and used: "\<exists>(tx, c) \<in> set (zip txs cs). ctxt_destIn c = d"
  shows "redeem_locked testnet (dr_nLockAmount r) (sint (nHeight - dr_nLockBeginHeight r))
    \<le> sint (dr_nBalance r) - sint (M d) - spent_from d (zip txs cs)"
  using assms(1,2) pos(1,2) bound used
proof (induction txs arbitrary: cs S M)
  case (Cons tx txs)
  obtain c cs' where cs: "cs = c # cs'" using Cons.prems(6) by (cases cs) auto
  have rest: "0 \<le> spent_from d (zip txs cs')"
    using Cons.prems(3) by (intro spent_from_nonneg) (auto dest: set_zip_leftD)
  show ?case
  proof (cases "ctxt_destIn c = d")
    case False
    obtain S' M' where "block_redeem_loop testnet cv nHeight hashPrev txs cs' S' M' = Inr True" "M' d = M d"
      using block_redeem_step_other [of testnet cv nHeight hashPrev tx txs c cs' S M d] Cons.prems(1,2) False by (auto simp: cs)
    with Cons.IH [of cs' S' M'] Cons.prems False show ?thesis by (simp add: cs)
  next
    case True
    have pre: "0 \<le> sint (tx_nAmount tx)" "0 \<le> sint (tx_nTxFee tx)"
        "sint (M d) + sint (tx_nAmount tx) + sint (tx_nTxFee tx) < 2 ^ 62"
      using Cons.prems(3,5) True rest by (simp_all add: cs)
    obtain S' M' where step: "block_redeem_loop testnet cv nHeight hashPrev txs cs' S' M' = Inr True"
        "sint (M' d) = sint (M d) + sint (tx_nAmount tx) + sint (tx_nTxFee tx)"
        "redeem_locked testnet (dr_nLockAmount r) (sint (nHeight - dr_nLockBeginHeight r)) \<le> sint (dr_nBalance r) - sint (M' d)"
      using block_redeem_step_spend [OF Cons.prems(1) [unfolded cs] d True pre(1,2) Cons.prems(4) pos(3) pre(3)] by blast
    show ?thesis
    proof (cases "\<exists>(tx, c) \<in> set (zip txs cs'). ctxt_destIn c = d")
      case True
      with Cons.IH [OF step(1)] Cons.prems step(2) pre \<open>ctxt_destIn c = d\<close> show ?thesis by (simp add: cs)
    next
      case False
      then have "spent_from d (zip txs cs') = 0" by (intro spent_from_none) auto
      with step \<open>ctxt_destIn c = d\<close> show ?thesis by (simp add: cs)
    qed
  qed
qed simp

text \<open>
  C38: the transactions of an accepted block together leave, on every redeem address they spend from, at
  least what is still locked at the height of the block, provided the records of the redeem addresses
  can be read.
\<close>

theorem accepted_block_keeps_locked_redeem:
  assumes "VerifyBlockMintRedeem testnet cv block = Inr True"
    and "\<forall>c \<in> set (bex_vTxContxt block). is_template_of (ctxt_destIn c) TEMPLATE_MINTREDEEM
      \<longrightarrow> cv_address_redeem cv (blk_hashPrev block) (ctxt_destIn c) \<noteq> None"
    and "is_template_of d TEMPLATE_MINTREDEEM" "cv_address_redeem cv (blk_hashPrev block) d = Some r"
    and "sint (dr_nLockBeginHeight r) > 0" "0 \<le> sint (dr_nBalance r)"
    and "sint (block_GetBlockHeight block - dr_nLockBeginHeight r) < BPX_REDEEM_DAY_COUNT testnet * BPX_REDEEM_DAY_HEIGHT testnet"
    and "\<forall>tx \<in> set (blk_vtx block). 0 \<le> sint (tx_nAmount tx) \<and> 0 \<le> sint (tx_nTxFee tx)"
    and "spent_from d (zip (blk_vtx block) (bex_vTxContxt block)) < 2 ^ 62"
    and "\<exists>(tx, c) \<in> set (zip (blk_vtx block) (bex_vTxContxt block)). ctxt_destIn c = d"
  shows "redeem_locked testnet (dr_nLockAmount r) (sint (block_GetBlockHeight block - dr_nLockBeginHeight r))
    \<le> sint (dr_nBalance r) - spent_from d (zip (blk_vtx block) (bex_vTxContxt block))"
  using block_redeem_loop_keeps [of testnet cv "block_GetBlockHeight block" "blk_hashPrev block" "blk_vtx block"
      "bex_vTxContxt block" "{}" "\<lambda>_. 0" d r] assms
  by (simp add: VerifyBlockMintRedeem_def)

text \<open>
  Where the record of a redeem address cannot be read, the block is accepted without any further check,
  whatever it spends: \<^verbatim>\<open>return -1\<close> in a function of type \<^verbatim>\<open>bool\<close> means success.
\<close>

lemma unreadable_redeem_accepts_block:
  assumes "blk_vtx block = tx # txs" "bex_vTxContxt block = c # cs"
    and "is_template_of (ctxt_destIn c) TEMPLATE_MINTREDEEM" "tx_sendTo tx \<noteq> ctxt_destIn c"
    and "cv_address_redeem cv (blk_hashPrev block) (ctxt_destIn c) = None"
  shows "VerifyBlockMintRedeem testnet cv block = Inr True"
  using assms by (simp add: VerifyBlockMintRedeem_def Let_def)

text \<open>A redeem address with 1000000 of its 2000000 locked at height 1, and a block at height 1500.\<close>

definition example_redeem :: CDestination where
  "example_redeem = dest_SetTemplateId (templateid TEMPLATE_MINTREDEEM 0)"

definition example_lock :: CDestRedeem where
  "example_lock = \<lparr> dr_nBalance = 2000000, dr_nLockAmount = 1000000, dr_nLockBeginHeight = 1 \<rparr>"

definition example_redeem_view :: chain_view where
  "example_redeem_view = example_view\<lparr> cv_address_redeem := (\<lambda>_ _. Some example_lock) \<rparr>"

definition example_redeem_block :: CBlockEx where
  "example_redeem_block = block_ex (block_SetNull\<lparr> blk_nType := BLOCK_PRIMARY, blk_hashPrev := uint256_pair 1499 0,
     blk_vtx := [example_payment (dest_SetPubKey 4) 400000, example_payment (dest_SetPubKey 5) 500000] \<rparr>)
     [\<lparr> ctxt_destIn = example_redeem, ctxt_vin = [] \<rparr>, \<lparr> ctxt_destIn = example_redeem, ctxt_vin = [] \<rparr>]"

lemma example_redeem_template: "is_template_of example_redeem TEMPLATE_MINTREDEEM" "\<not> is_template_of (dest_SetPubKey k) t"
  "dest_SetPubKey k \<noteq> example_redeem"
  by (simp_all add: example_redeem_def is_template_of_def) (simp add: dest_SetPubKey_def dest_SetTemplateId_def PREFIX_PUBKEY_def PREFIX_TEMPLATE_def)

lemma example_redeem_block_fields:
  "blk_vtx example_redeem_block = [example_payment (dest_SetPubKey 4) 400000, example_payment (dest_SetPubKey 5) 500000]"
  "bex_vTxContxt example_redeem_block = [\<lparr> ctxt_destIn = example_redeem, ctxt_vin = [] \<rparr>, \<lparr> ctxt_destIn = example_redeem, ctxt_vin = [] \<rparr>]"
  "block_GetBlockHeight example_redeem_block = 1500"
  by (simp_all add: example_redeem_block_def block_ex_def CBlock.defs block_SetNull_def block_GetBlockHeight_def block_IsGenesis_def
      block_IsExtended_def BLOCK_PRIMARY_def BLOCK_GENESIS_def BLOCK_EXTENDED_def)

lemma example_redeem_locked: "redeem_locked False 1000000 1499 = 990000"
  by (simp add: redeem_locked_def BPX_REDEEM_DAY_COUNT_def BPX_REDEEM_DAY_HEIGHT_def GET_PARAM_def cdiv_def)

theorem accepted_block_keeps_locked_redeem_witness:
  "VerifyBlockMintRedeem False example_redeem_view example_redeem_block = Inr True
   \<and> 990000 \<le> sint (dr_nBalance example_lock)
      - spent_from example_redeem (zip (blk_vtx example_redeem_block) (bex_vTxContxt example_redeem_block))"
proof -
  note f = example_redeem_block_fields example_redeem_template example_redeem_locked
  have ok: "VerifyBlockMintRedeem False example_redeem_view example_redeem_block = Inr True"
    by (simp add: VerifyBlockMintRedeem_def f example_payment_def example_redeem_view_def example_lock_def Let_def)
  have spent: "spent_from example_redeem (zip (blk_vtx example_redeem_block) (bex_vTxContxt example_redeem_block)) = 920000"
    by (simp add: f example_payment_def spent_from_def)
  show ?thesis
    using accepted_block_keeps_locked_redeem [OF ok, of example_redeem example_lock] ok spent
    by (simp add: f example_redeem_view_def example_payment_def)
      (simp add: example_lock_def f BPX_REDEEM_DAY_COUNT_def BPX_REDEEM_DAY_HEIGHT_def GET_PARAM_def)
qed

end
