(* ===== verification/Chain_Reward.thy ===== *)
theory Chain_Reward
  imports Core_Verify
begin

text \<open>
  The pledge reward of a block and the sums of a period (\<^verbatim>\<open>src/src/minemon/blockchain.cpp\<close>,
  \<^verbatim>\<open>CBlockBase::GetMintPledgeData\<close> in \<^verbatim>\<open>src/src/storage/blockbase.cpp\<close>).  What the module reads from storage is the record \<open>pledge_store\<close>.  A
  result \<open>Inl e\<close> is an uncaught exception or undefined behaviour, \<open>Inr None\<close> the result \<^verbatim>\<open>false\<close>.
\<close>

section \<open>What is read from storage\<close>

record pledge_store =
  ps_genesis :: uint256
  ps_index :: index_store
  ps_pow_pledges :: "uint256 \<Rightarrow> CDestination \<Rightarrow> (CDestination \<times> (i64 \<times> i32)) list option"
  ps_template_data :: "CDestination \<Rightarrow> u8 list option"

definition GetBlockMoneySupply :: "pledge_store \<Rightarrow> uint256 \<Rightarrow> i64" where
  "GetBlockMoneySupply s hashBlock = (case ps_index s hashBlock of None \<Rightarrow> - 1 | Some pIndex \<Rightarrow> bi_nMoneySupply pIndex)"

definition pledge_limits :: "pledge_store \<Rightarrow> uint256 \<Rightarrow> (int \<times> int \<times> int) option" where
  "pledge_limits s hashPrevBlock =
     GetPledgeMinMaxValue (\<lambda>h. sint (GetBlockMoneySupply s h)) (ps_genesis s) hashPrevBlock"

text \<open>The pledges of a mining address that count, each at most the maximum, with their sum.\<close>

definition GetMintPledgeData :: "pledge_store \<Rightarrow> uint256 \<Rightarrow> CDestination \<Rightarrow> int \<Rightarrow> int \<Rightarrow> ((CDestination \<times> i64) list \<times> i64) option" where
  "GetMintPledgeData s hashBlock destMintPow nMinPledge nMaxPledge =
     map_option (\<lambda>mapPowPledgeList.
       let mapValidPledge = map (\<lambda>(d, n, _). (d, if sint n > nMaxPledge then word_of_int nMaxPledge else n))
             (filter (\<lambda>(d, n, _). sint n \<ge> nMinPledge) mapPowPledgeList)
       in (mapValidPledge, fold (\<lambda>(d, n) nTotalPledge. nTotalPledge + n) mapValidPledge 0))
       (ps_pow_pledges s hashBlock destMintPow)"

definition GetPledgeTemplateParam :: "digest \<Rightarrow> pledge_store \<Rightarrow> CDestination \<Rightarrow> stream_error + CTemplateMintPledge option" where
  "GetPledgeTemplateParam blake2b s destMintPledge =
     (if \<not> is_template_of destMintPledge TEMPLATE_MINTPLEDGE then Inr None
      else case ps_template_data s destMintPledge of
        None \<Rightarrow> Inr None
      | Some vTemplateData \<Rightarrow>
          map_sum id (map_option snd) (create_as blake2b TEMPLATE_MINTPLEDGE as_mintpledge vTemplateData))"

fun as_proof :: "template_obj \<Rightarrow> CTemplateProof option" where
  "as_proof (TProof t) = Some t"
| "as_proof _ = None"

definition GetPowMintTemplateParam :: "digest \<Rightarrow> pledge_store \<Rightarrow> CDestination \<Rightarrow> stream_error + CTemplateProof option" where
  "GetPowMintTemplateParam blake2b s destMint =
     (if \<not> is_template_of destMint TEMPLATE_PROOF then Inr None
      else case ps_template_data s destMint of
        None \<Rightarrow> Inr None
      | Some vTemplateData \<Rightarrow>
          map_sum id (map_option snd) (create_as blake2b TEMPLATE_PROOF as_proof vTemplateData))"

section \<open>The pledge reward of a block\<close>

text \<open>Products of amounts are taken in 128 bits, with the operands sign extended.\<close>

definition mul_div128 :: "i64 \<Rightarrow> i64 \<Rightarrow> i64 \<Rightarrow> i64" where
  "mul_div128 a b c = ucast ((scast a :: 128 word) * scast b div scast c)"

text \<open>The reward is \<open>- 1\<close> where more coins exist than the schedule allows.\<close>

definition CalcPledgeRewardValue :: "pledge_store \<Rightarrow> uint256 \<Rightarrow> i64 \<Rightarrow> int \<Rightarrow> int \<Rightarrow> stream_error + i64" where
  "CalcPledgeRewardValue s hashPrevBlock nTotalPledge nPowMinPledge nMaxPledge =
     (if sint nTotalPledge < nPowMinPledge then Inr 0
      else
        let nCalcTotalPledge = (if sint nTotalPledge > nMaxPledge then word_of_int nMaxPledge else nTotalPledge);
            nPrevHeight = sint (GetBlockHeightByHash hashPrevBlock);
            nSurplusReward = word_of_int (GetMintTotalReward nPrevHeight) - GetBlockMoneySupply s hashPrevBlock in
        if sint nSurplusReward < 0 then Inr (- 1)
        else case GetBlockPledgeReward (nPrevHeight + 1) of
          None \<Rightarrow> Inl OutOfBounds
        | Some nPledgeReward \<Rightarrow>
            if nMaxPledge = 0 then Inl OutOfBounds
            else Inr (mul_div128 (nSurplusReward + word_of_int nPledgeReward) nCalcTotalPledge (word_of_int nMaxPledge)))"

definition GetMintPledgeReward :: "pledge_store \<Rightarrow> uint256 \<Rightarrow> CDestination \<Rightarrow> stream_error + i64" where
  "GetMintPledgeReward s hashPrevBlock destMintPow =
     (case pledge_limits s hashPrevBlock of
        None \<Rightarrow> Inr (- 1)
      | Some (nPowMinPledge, nStakeMinPledge, nMaxPledge) \<Rightarrow>
          (case GetMintPledgeData s hashPrevBlock destMintPow nStakeMinPledge nMaxPledge of
             None \<Rightarrow> Inr 0
           | Some (mapValidPledge, nTotalPledge) \<Rightarrow>
               (case CalcPledgeRewardValue s hashPrevBlock nTotalPledge nPowMinPledge nMaxPledge of
                  Inl e \<Rightarrow> Inl e
                | Inr nReward \<Rightarrow> if sint nReward < 0 then Inr (- 1) else Inr nReward)))"

text \<open>\<^verbatim>\<open>m[k] += v\<close> on a \<^verbatim>\<open>std::map\<close>.\<close>

fun std_add :: "'k::linorder \<Rightarrow> i64 \<Rightarrow> ('k \<times> i64) list \<Rightarrow> ('k \<times> i64) list" where
  "std_add k v [] = [(k, v)]"
| "std_add k v ((k', v') # m) =
     (if k < k' then (k, v) # (k', v') # m
      else if k = k' then (k', v' + v) # m
      else (k', v') # std_add k v m)"

text \<open>The share of one pledge, less the fee in parts of a thousand that the miner keeps.\<close>

definition dest_reward :: "i64 \<Rightarrow> i64 \<Rightarrow> u32 \<Rightarrow> i64 \<Rightarrow> i64" where
  "dest_reward nBlockPledgeReward nTotalPledge nPledgeFee nPledge =
     (let nDestReward = mul_div128 nBlockPledgeReward nPledge nTotalPledge in
      if nPledgeFee > 0 \<and> nPledgeFee \<le> 1000
        then nDestReward - ucast ((scast nDestReward :: 128 word) * ucast nPledgeFee div 1000)
      else nDestReward)"

fun distribute_loop :: "(i64 \<Rightarrow> i64) \<Rightarrow> (CDestination \<times> i64) list \<Rightarrow> (CDestination \<times> i64) list \<Rightarrow> i64 \<Rightarrow> (CDestination \<times> i64) list \<times> i64" where
  "distribute_loop share [] mapPledgeReward nDistributeTotalReward = (mapPledgeReward, nDistributeTotalReward)"
| "distribute_loop share ((d, nPledge) # ps) mapPledgeReward nDistributeTotalReward =
     distribute_loop share ps (std_add d (share nPledge) mapPledgeReward) (nDistributeTotalReward + share nPledge)"

definition distribute_rest :: "CDestination \<Rightarrow> i64 \<Rightarrow> (CDestination \<times> i64) list \<times> i64 \<Rightarrow> (CDestination \<times> i64) list" where
  "distribute_rest destMint nBlockPledgeReward = (\<lambda>(mapPledgeReward, nDistributeTotalReward).
     if sint (nBlockPledgeReward - nDistributeTotalReward) > 0
       then std_add destMint (nBlockPledgeReward - nDistributeTotalReward) mapPledgeReward else mapPledgeReward)"

definition CalcBlockPledgeReward :: "digest \<Rightarrow> pledge_store \<Rightarrow> CBlockIndex \<Rightarrow> (CDestination \<times> i64) list
    \<Rightarrow> stream_error + (CDestination \<times> i64) list option" where
  "CalcBlockPledgeReward blake2b s pIndex mapPledgeReward =
     (case bi_pPrev pIndex of
        None \<Rightarrow> Inr None
      | Some hashPrevBlock \<Rightarrow> (case pledge_limits s hashPrevBlock of
          None \<Rightarrow> Inr None
        | Some (nPowMinPledge, nStakeMinPledge, nMaxPledge) \<Rightarrow>
            (case GetMintPledgeData s hashPrevBlock (bi_destMint pIndex) nStakeMinPledge nMaxPledge of
               None \<Rightarrow> Inr None
             | Some (mapValidPledge, nTotalPledge) \<Rightarrow>
                 (case CalcPledgeRewardValue s hashPrevBlock nTotalPledge nPowMinPledge nMaxPledge of
                    Inl e \<Rightarrow> Inl e
                  | Inr nBlockPledgeReward \<Rightarrow>
                      if sint nBlockPledgeReward < 0 then Inr None
                      else if nBlockPledgeReward = 0 \<or> mapValidPledge = [] then Inr (Some mapPledgeReward)
                      else (case GetPowMintTemplateParam blake2b s (bi_destMint pIndex) of
                          Inl e \<Rightarrow> Inl e
                        | Inr None \<Rightarrow> Inr None
                        | Inr (Some obj) \<Rightarrow>
                            if nTotalPledge = 0 then Inl OutOfBounds
                            else Inr (Some (distribute_rest (bi_destMint pIndex) nBlockPledgeReward
                              (distribute_loop (dest_reward nBlockPledgeReward nTotalPledge (tp_nPledgeFee obj))
                                 mapValidPledge mapPledgeReward 0))))))))"

section \<open>The distribution of a period\<close>

definition BPX_PLEDGE_REWARD_DISTRIBUTE_HEIGHT :: "bool \<Rightarrow> u32" where
  "BPX_PLEDGE_REWARD_DISTRIBUTE_HEIGHT testnet = GET_PARAM testnet 1440 5"

text \<open>A link to an entry that does not exist would be a dangling pointer.\<close>

primrec calc_distribute_loop :: "digest \<Rightarrow> pledge_store \<Rightarrow> nat \<Rightarrow> CBlockIndex \<Rightarrow> (CDestination \<times> i64) list
    \<Rightarrow> stream_error + (CDestination \<times> i64) list option" where
  "calc_distribute_loop blake2b s 0 pIndex mapPledgeReward = Inr (Some mapPledgeReward)"
| "calc_distribute_loop blake2b s (Suc n) pIndex mapPledgeReward =
     (case bi_pPrev pIndex of
        None \<Rightarrow> Inr (Some mapPledgeReward)
      | Some p \<Rightarrow> (case CalcBlockPledgeReward blake2b s pIndex mapPledgeReward of
          Inl e \<Rightarrow> Inl e
        | Inr None \<Rightarrow> Inr None
        | Inr (Some mapPledgeReward') \<Rightarrow> (case ps_index s p of
            None \<Rightarrow> Inl OutOfBounds
          | Some pPrev \<Rightarrow> calc_distribute_loop blake2b s n pPrev mapPledgeReward')))"

definition CalcDistributePledgeReward :: "digest \<Rightarrow> bool \<Rightarrow> pledge_store \<Rightarrow> uint256 \<Rightarrow> stream_error + (CDestination \<times> i64) list option" where
  "CalcDistributePledgeReward blake2b testnet s hashBlock =
     (let nDistributeHeight = BPX_PLEDGE_REWARD_DISTRIBUTE_HEIGHT testnet in
      if GetBlockHeightByHash hashBlock mod nDistributeHeight \<noteq> 0 then Inr None
      else case ps_index s hashBlock of
        None \<Rightarrow> Inr None
      | Some pIndex \<Rightarrow> calc_distribute_loop blake2b s (unat nDistributeHeight) pIndex [])"

section \<open>Products in 128 bits\<close>

lemma uint_scast128: "0 \<le> sint (a :: i64) \<Longrightarrow> uint (scast a :: 128 word) = sint a"
proof -
  assume "0 \<le> sint a"
  moreover have "sint a < 2 ^ 128" using sint_lt [of a] by simp
  ultimately show ?thesis unfolding scast_eq uint_word_of_int by (simp only: len_of_numeral_defs mod_pos_pos_trivial) simp
qed

lemma mul_div128_val:
  assumes "0 \<le> sint a" "0 \<le> sint b" "sint b \<le> sint c" "0 < sint c"
  shows "sint (mul_div128 a b c) = sint a * sint b div sint c" "0 \<le> sint a * sint b div sint c" "sint a * sint b div sint c \<le> sint a"
proof -
  have r: "sint a < 2 ^ 63" "sint b < 2 ^ 63" using sint_lt [of a] sint_lt [of b] by simp_all
  have le: "sint a * sint b \<le> sint a * sint c" using assms by (simp add: mult_left_mono)
  then have "sint a * sint b div sint c \<le> sint a * sint c div sint c" using assms by (intro zdiv_mono1) simp_all
  then show q: "sint a * sint b div sint c \<le> sint a" using assms by simp
  show p: "0 \<le> sint a * sint b div sint c" using assms by (simp add: pos_imp_zdiv_nonneg_iff)
  have "sint a * sint b < 2 ^ 63 * 2 ^ 63" using r assms by (intro mult_strict_mono) simp_all
  then have small: "sint a * sint b < 2 ^ 128" "0 \<le> sint a * sint b" using assms by simp_all
  have "uint ((scast a :: 128 word) * scast b) = sint a * sint b mod 2 ^ 128"
    unfolding uint_word_ariths uint_scast128 [OF assms(1)] uint_scast128 [OF assms(2)] by simp
  also have "\<dots> = sint a * sint b" using small by (rule mod_pos_pos_trivial [rotated])
  finally have "uint ((scast a :: 128 word) * scast b div scast c) = sint a * sint b div sint c"
    using assms(4) by (simp only: uint_div uint_scast128 less_imp_le)
  moreover have "(sint a * sint b div sint c) mod 2 ^ 64 = sint a * sint b div sint c"
    using p q r by (intro mod_pos_pos_trivial) simp_all
  ultimately have u: "uint (mul_div128 a b c) = sint a * sint b div sint c"
    unfolding mul_div128_def by (simp only: unsigned_ucast_eq take_bit_eq_mod) simp
  have "uint (mul_div128 a b c) < 2 ^ 63" unfolding u using q r(1) by (rule le_less_trans)
  then show "sint (mul_div128 a b c) = sint a * sint b div sint c" using u by (simp only: sint_uint_small)
qed

section \<open>The reward stays within the schedule\<close>

lemma mint_total_loop_bound:
  "0 \<le> r \<Longrightarrow> t \<le> mint_total_loop t r c \<and> mint_total_loop t r c \<le> t + 2 * r * halve"
proof (induction t r c rule: mint_total_loop.induct)
  case (1 t r c)
  have half: "2 * (r div 2) \<le> r" using mult_div_mod_eq [of 2 r] pos_mod_sign [of 2 r] by linarith
  have pos: "0 < halve" by (simp add: BPX_REWARD_HALVE_HEIGHT_def)
  consider "c \<le> 0" | "0 < c" "c < halve" | "halve \<le> c" by linarith
  then show ?case
  proof cases
    case 1
    moreover have "0 \<le> r * halve" using "1.prems" pos by (intro mult_nonneg_nonneg) linarith+
    ultimately show ?thesis by (subst (1 2) mint_total_loop.simps) (simp add: mult.commute)
  next
    case 2
    then have "mint_total_loop t r c = t + r * c" by (subst mint_total_loop.simps) simp
    moreover have "r * c \<le> r * halve" "0 \<le> r * c" using 2 "1.prems" by (simp_all add: mult_left_mono)
    ultimately show ?thesis by linarith
  next
    case 3
    then have "0 < c" using pos by linarith
    with 3 have eq: "mint_total_loop t r c = mint_total_loop (t + r * halve) (r div 2) (c - halve)"
      by (subst mint_total_loop.simps) simp
    have "0 \<le> r * halve" using "1.prems" pos by (intro mult_nonneg_nonneg) linarith+
    moreover have "2 * (r div 2) * halve \<le> r * halve" using half pos by (intro mult_right_mono) linarith+
    moreover from "1.IH" 3 \<open>0 < c\<close> "1.prems" have "t + r * halve \<le> mint_total_loop (t + r * halve) (r div 2) (c - halve)
        \<and> mint_total_loop (t + r * halve) (r div 2) (c - halve) \<le> t + r * halve + 2 * (r div 2) * halve" by simp
    ultimately show ?thesis unfolding eq by linarith
  qed
qed

lemma total_reward_bounds: "0 \<le> GetMintTotalReward h" "GetMintTotalReward h \<le> 210240000000000"
  using mint_total_loop_bound [of BPX_INIT_BLOCK_REWARD_TOKEN 0 h]
  by (simp_all add: GetMintTotalReward_def BPX_INIT_BLOCK_REWARD_TOKEN_def COIN_def BPX_REWARD_HALVE_HEIGHT_def)

lemma total_reward_Suc:
  assumes "0 \<le> h" "h < 63 * halve"
  shows "\<exists>r. GetMintWorkReward (h + 1) = Some r \<and> GetMintTotalReward (h + 1) = GetMintTotalReward h + r"
proof -
  have "{1..h + 1} = insert (h + 1) {1..h}" using assms(1) by auto
  then have "GetMintTotalReward (h + 1) = GetMintTotalReward h + reward_at 0 (h + 1)"
    using mint_total_loop_sum [of 0 0 h] mint_total_loop_sum [of 0 0 "h + 1"] by (simp add: GetMintTotalReward_def)
  with GetMintWorkReward_at [of "h + 1"] assms show ?thesis by simp
qed

lemma pledge_share_small:
  assumes "GetBlockPledgeReward h = Some q"
  shows "0 \<le> q" "q \<le> 61800000"
proof -
  obtain r where r: "GetMintWorkReward h = Some r" "q = r * 618 div 1000"
    using assms by (auto simp: GetBlockPledgeReward_def BPX_TOTAL_REWARD_RATE_def BPX_POW_REWARD_RATE_def)
  have "0 \<le> r \<and> r \<le> 100000000"
  proof (cases "h < 1")
    case False
    then obtain k where k: "r = 100000000 div 2 ^ k"
      using r(1) by (auto simp: GetMintWorkReward_def Let_def BPX_INIT_BLOCK_REWARD_TOKEN_def COIN_def split: if_splits)
    moreover have "(100000000 :: int) div 2 ^ k \<le> 100000000" using zdiv_mono2 [of 100000000 1 "2 ^ k"] by simp
    ultimately show ?thesis by (simp add: pos_imp_zdiv_nonneg_iff)
  qed (use r in \<open>simp add: GetMintWorkReward_def\<close>)
  then show "0 \<le> q" "q \<le> 61800000" using r(2) zdiv_mono1 [of "r * 618" "100000000 * 618" 1000] by (simp_all add: pos_imp_zdiv_nonneg_iff)
qed

lemma sint_in_range: "- (2 ^ 63) \<le> x \<Longrightarrow> x < 2 ^ 63 \<Longrightarrow> sint (word_of_int x :: i64) = x"
  by (simp add: int_word_sint)

lemma pledge_limits_small:
  assumes "pledge_limits s hash = Some (pmin, smin, pmax)"
  shows "0 \<le> sint (GetBlockMoneySupply s hash)" "0 < pmin" "pmin \<le> pmax" "0 \<le> smin" "0 < pmax" "pmax < 2 ^ 62"
    "sint (word_of_int pmax :: i64) = pmax"
proof -
  note b = pledge_limits_bounds [OF assms [unfolded pledge_limits_def]]
  have c: "BPX_MIN_PLEDGE_COIN = 100000000" by (simp add: BPX_MIN_PLEDGE_COIN_def COIN_def)
  show "0 \<le> sint (GetBlockMoneySupply s hash)" "0 < pmin" "pmin \<le> pmax" "0 \<le> smin" "0 < pmax"
    using b(1-4) c by simp_all
  have "sint (GetBlockMoneySupply s hash) div 100 \<le> 2 ^ 63 div 100"
    using sint_lt [of "GetBlockMoneySupply s hash"] by (intro zdiv_mono1) simp_all
  with b(6) c show "pmax < 2 ^ 62" by simp
  with \<open>0 < pmax\<close> show "sint (word_of_int pmax :: i64) = pmax" by (intro sint_small) simp_all
qed

lemma CalcPledgeRewardValue_eq:
  assumes lim: "pledge_limits s hash = Some (pmin, smin, pmax)" and h: "h = sint (GetBlockHeightByHash hash)"
    and r: "CalcPledgeRewardValue s hash nTotal pmin pmax = Inr r"
  defines "supply \<equiv> sint (GetBlockMoneySupply s hash)"
  shows "sint r = (if sint nTotal < pmin then 0 else if GetMintTotalReward h < supply then - 1
      else (GetMintTotalReward h - supply + the (GetBlockPledgeReward (h + 1))) * min (sint nTotal) pmax div pmax)"
    and "pmin \<le> sint nTotal \<Longrightarrow> supply \<le> GetMintTotalReward h \<Longrightarrow>
      \<exists>q. GetBlockPledgeReward (h + 1) = Some q \<and> 0 \<le> sint r \<and> sint r \<le> GetMintTotalReward h - supply + q"
proof -
  note b = pledge_limits_small [OF lim]
  let ?t = "GetMintTotalReward h"
  let ?w = "word_of_int ?t - GetBlockMoneySupply s hash"
  have t: "0 \<le> ?t" "?t \<le> 210240000000000" by (rule total_reward_bounds)+
  have "sint (word_of_int (?t - supply) :: i64) = ?t - supply" if "0 \<le> supply" "supply < 2 ^ 63"
    by (rule sint_in_range) (use that t in simp_all)
  moreover have "?w = word_of_int (?t - supply)" by (simp add: supply_def)
  moreover have "supply < 2 ^ 63" using sint_lt [of "GetBlockMoneySupply s hash"] by (simp add: supply_def)
  moreover have "0 \<le> supply" using b(1) by (simp add: supply_def)
  ultimately have w: "sint ?w = ?t - supply" by simp
  let ?calc = "if sint nTotal > pmax then word_of_int pmax else nTotal"
  have calc: "sint ?calc = min (sint nTotal) pmax" using b(7) by simp
  have "sint r = (?t - supply + q) * min (sint nTotal) pmax div pmax \<and> 0 \<le> sint r \<and> sint r \<le> ?t - supply + q"
    if "pmin \<le> sint nTotal" "supply \<le> ?t" "GetBlockPledgeReward (h + 1) = Some q" for q
  proof -
    have q: "0 \<le> q" "q \<le> 61800000" using pledge_share_small that(3) by blast+
    have r': "r = mul_div128 (?w + word_of_int q) ?calc (word_of_int pmax)"
      using r that w b(5) by (simp add: CalcPledgeRewardValue_def Let_def h [symmetric])
    have "?w + word_of_int q = word_of_int (?t - supply + q)" by (simp add: supply_def)
    moreover have "sint (word_of_int (?t - supply + q) :: i64) = ?t - supply + q"
      by (rule sint_small) (use that(2) q t b(1) in \<open>simp_all add: supply_def\<close>)
    ultimately have a: "sint (?w + word_of_int q) = ?t - supply + q" by simp
    show ?thesis
      unfolding r' using mul_div128_val [of "?w + word_of_int q" ?calc "word_of_int pmax"] that(1,2) q b
      unfolding a calc by simp
  qed
  moreover have "r = 0" if "sint nTotal < pmin" using r that by (simp add: CalcPledgeRewardValue_def)
  moreover have "r = - 1" if "pmin \<le> sint nTotal" "?t < supply"
    using r that w by (simp add: CalcPledgeRewardValue_def Let_def h [symmetric])
  moreover have "\<exists>q. GetBlockPledgeReward (h + 1) = Some q" if "pmin \<le> sint nTotal" "supply \<le> ?t"
    using r that w by (auto simp: CalcPledgeRewardValue_def Let_def h [symmetric] split: option.splits)
  ultimately show "sint r = (if sint nTotal < pmin then 0 else if ?t < supply then - 1
      else (?t - supply + the (GetBlockPledgeReward (h + 1))) * min (sint nTotal) pmax div pmax)"
    and "pmin \<le> sint nTotal \<Longrightarrow> supply \<le> ?t \<Longrightarrow>
      \<exists>q. GetBlockPledgeReward (h + 1) = Some q \<and> 0 \<le> sint r \<and> sint r \<le> ?t - supply + q"
    by (auto simp: not_less)
qed

section \<open>The distribution gives out the reward\<close>

definition rsum :: "('k \<times> i64) list \<Rightarrow> int" where
  "rsum m = (\<Sum>(k, n)\<leftarrow>m. sint n)"

definition rnonneg :: "('k \<times> i64) list \<Rightarrow> bool" where
  "rnonneg m = list_all (\<lambda>(k, n). 0 \<le> sint n) m"

lemma rsum_simps [simp]: "rsum [] = 0" "rsum ((k, n) # m) = sint n + rsum m" "rsum (m @ m') = rsum m + rsum m'"
  by (simp_all add: rsum_def)

lemma rnonneg_simps [simp]: "rnonneg []" "rnonneg ((k, n) # m) = (0 \<le> sint n \<and> rnonneg m)" "rnonneg (m @ m') = (rnonneg m \<and> rnonneg m')"
  by (simp_all add: rnonneg_def)

lemma rsum_nonneg: "rnonneg m \<Longrightarrow> 0 \<le> rsum m"
  by (induction m) auto

lemma sint_add_small: "0 \<le> sint a \<Longrightarrow> 0 \<le> sint b \<Longrightarrow> sint a + sint b < 2 ^ 63 \<Longrightarrow> sint (a + b :: i64) = sint a + sint b"
  using sint_small [of "sint a + sint b"] by simp

lemma sint_sub_small: "0 \<le> sint b \<Longrightarrow> sint b \<le> sint a \<Longrightarrow> sint (a - b :: i64) = sint a - sint b"
  using sint_small [of "sint a - sint b"] sint_lt [of a] by simp

lemma std_add_sum:
  "rnonneg m \<Longrightarrow> 0 \<le> sint v \<Longrightarrow> rsum m + sint v < 2 ^ 63 \<Longrightarrow> rsum (std_add k v m) = rsum m + sint v \<and> rnonneg (std_add k v m)"
proof (induction m)
  case (Cons e m)
  obtain k' v' where e: "e = (k', v')" by fastforce
  have m: "0 \<le> rsum m" using Cons.prems(1) by (intro rsum_nonneg) (simp add: e)
  then have "sint (v' + v) = sint v' + sint v" using Cons.prems by (intro sint_add_small) (simp_all add: e)
  with Cons m show ?case by (simp add: e)
qed simp

lemma std_add_keys: "set (map fst (std_add k v m)) = insert k (set (map fst m))"
  by (induction k v m rule: std_add.induct) auto

lemma std_add_sorted: "sorted_wrt (<) (map fst m) \<Longrightarrow> sorted_wrt (<) (map fst (std_add k v m))"
proof (induction k v m rule: std_add.induct)
  case (2 k v k' v' m)
  then show ?case using std_add_keys [of k v m] by (auto simp: image_iff)
qed simp

lemma distribute_loop_sum:
  "rnonneg m \<Longrightarrow> list_all (\<lambda>(d, n). 0 \<le> sint (share n)) ps \<Longrightarrow> 0 \<le> sint t \<Longrightarrow>
   T = (\<Sum>(d, n)\<leftarrow>ps. sint (share n)) \<Longrightarrow> rsum m + T < 2 ^ 63 \<Longrightarrow> sint t + T < 2 ^ 63 \<Longrightarrow>
   distribute_loop share ps m t = (m', t') \<Longrightarrow> rsum m' = rsum m + T \<and> rnonneg m' \<and> sint t' = sint t + T"
proof (induction ps arbitrary: m t T)
  case (Cons p ps)
  obtain d n where p: "p = (d, n)" by fastforce
  let ?T = "\<Sum>(d, n)\<leftarrow>ps. sint (share n)"
  have T: "0 \<le> ?T" "T = sint (share n) + ?T" "0 \<le> sint (share n)"
    using Cons.prems(2,4) by (auto simp: p list_all_iff intro!: sum_list_nonneg)
  have a: "rsum (std_add d (share n) m) = rsum m + sint (share n) \<and> rnonneg (std_add d (share n) m)"
    using Cons.prems T by (intro std_add_sum) auto
  have b: "sint (t + share n) = sint t + sint (share n)" using Cons.prems T by (intro sint_add_small) auto
  have "rsum m' = rsum (std_add d (share n) m) + ?T \<and> rnonneg m' \<and> sint t' = sint (t + share n) + ?T"
  proof (rule Cons.IH)
    show "list_all (\<lambda>(d, n). 0 \<le> sint (share n)) ps" "distribute_loop share ps (std_add d (share n) m) (t + share n) = (m', t')"
      using Cons.prems by (simp_all add: p)
  qed (use Cons.prems T a b in auto)
  then show ?case using a b T by simp
qed simp

lemma dest_reward_bounds:
  assumes "0 \<le> sint R" "0 \<le> sint p" "sint p \<le> sint tot" "0 < sint tot"
  shows "0 \<le> sint (dest_reward R tot fee p)" "sint (dest_reward R tot fee p) \<le> sint R * sint p div sint tot"
proof -
  note m = mul_div128_val [OF assms]
  let ?r = "mul_div128 R p tot"
  have "0 \<le> sint (dest_reward R tot fee p) \<and> sint (dest_reward R tot fee p) \<le> sint ?r"
  proof (cases "0 < fee \<and> fee \<le> 1000")
    case False
    then have "dest_reward R tot fee p = ?r" by (auto simp: dest_reward_def Let_def)
    then show ?thesis using m by simp
  next
    case True
    let ?f = "ucast fee :: i64"
    have "uint fee \<le> uint (1000 :: u32)" using True by (simp only: word_le_def)
    then have fee: "uint fee \<le> 1000" by simp
    have uf: "uint ?f = uint fee" using fee by (simp add: unsigned_ucast_eq take_bit_int_eq_self)
    then have f: "0 \<le> sint ?f" "sint ?f \<le> 1000" using fee sint_uint_small [of ?f] by simp_all
    have "(scast ?f :: 128 word) = ucast fee" using uint_scast128 [OF f(1)] f fee uf sint_uint_small [of ?f]
      by (intro word_uint_eqI) (simp add: unsigned_ucast_eq take_bit_int_eq_self)
    moreover have "(scast (1000 :: i64) :: 128 word) = 1000" by simp
    ultimately have eq: "dest_reward R tot fee p = ?r - mul_div128 ?r ?f 1000"
      using True by (simp add: dest_reward_def Let_def mul_div128_def)
    have "0 \<le> sint ?r" using m by simp
    note n = mul_div128_val [OF this f(1), of 1000]
    have "sint (?r - mul_div128 ?r ?f 1000) = sint ?r - sint (mul_div128 ?r ?f 1000)"
      using n f by (intro sint_sub_small) simp_all
    then show ?thesis unfolding eq using n f \<open>0 \<le> sint ?r\<close> by simp
  qed
  then show "0 \<le> sint (dest_reward R tot fee p)" "sint (dest_reward R tot fee p) \<le> sint R * sint p div sint tot"
    using m by simp_all
qed

lemma sum_of_quotients: "0 < (t :: int) \<Longrightarrow> (\<Sum>x\<leftarrow>xs. a * f x div t) \<le> a * (\<Sum>x\<leftarrow>xs. f x) div t"
proof (induction xs)
  case (Cons x xs)
  have "a * f x div t + a * (\<Sum>x\<leftarrow>xs. f x) div t \<le> (a * f x + a * (\<Sum>x\<leftarrow>xs. f x)) div t"
    using Cons.prems div_add1_eq [of "a * f x" "a * (\<Sum>x\<leftarrow>xs. f x)" t]
    by (simp add: pos_imp_zdiv_nonneg_iff)
  with Cons show ?case by (simp add: distrib_left)
qed simp

text \<open>The pledges in storage are not negative and add up to less than 2^63.\<close>

definition pledges_ok :: "pledge_store \<Rightarrow> bool" where
  "pledges_ok s = (\<forall>h d l. ps_pow_pledges s h d = Some l \<longrightarrow>
     (\<forall>(k, n, b) \<in> set l. 0 \<le> sint n) \<and> (\<Sum>(k, n, b)\<leftarrow>l. sint n) < 2 ^ 63)"

lemma fold_pledges:
  "rnonneg ps \<Longrightarrow> 0 \<le> sint t \<Longrightarrow> sint t + rsum ps < 2 ^ 63 \<Longrightarrow> sint (fold (\<lambda>(d, n) t. t + n) ps t) = sint t + rsum ps"
proof (induction ps arbitrary: t)
  case (Cons p ps)
  obtain d n where p: "p = (d, n)" by fastforce
  have "0 \<le> rsum ps" using Cons.prems(1) by (intro rsum_nonneg) (simp add: p)
  then have "sint (t + n) = sint t + sint n" using Cons.prems by (intro sint_add_small) (simp_all add: p)
  with Cons show ?case by (simp add: p)
qed simp

lemma valid_pledges_sum:
  fixes smin :: int
  assumes "\<forall>(k, n, b) \<in> set l. 0 \<le> sint n" "0 < pmax" "sint (word_of_int pmax :: i64) = pmax"
  defines "ps \<equiv> map (\<lambda>(d, n, _). (d, if sint n > pmax then word_of_int pmax else n)) (filter (\<lambda>(d, n, _). sint n \<ge> smin) l)"
  shows "rnonneg ps \<and> rsum ps \<le> (\<Sum>(k, n, b)\<leftarrow>l. sint n)"
  using assms(1) unfolding ps_def by (induction l) (use assms(2,3) in auto)

lemma rsum_member: "rnonneg ps \<Longrightarrow> (d, n) \<in> set ps \<Longrightarrow> sint n \<le> rsum ps"
proof (induction ps)
  case (Cons p ps)
  then show ?case using rsum_nonneg [of ps] by (cases p) auto
qed simp

lemma GetMintPledgeData_sum:
  assumes "pledges_ok s" "pledge_limits s hash = Some (pmin, smin, pmax)" "GetMintPledgeData s h d smin pmax = Some (ps, tot)"
  shows "rnonneg ps" "sint tot = rsum ps" "\<And>k n. (k, n) \<in> set ps \<Longrightarrow> sint n \<le> sint tot"
proof -
  note b = pledge_limits_small [OF assms(2)]
  obtain l where l: "ps_pow_pledges s h d = Some l"
      "ps = map (\<lambda>(d, n, _). (d, if sint n > pmax then word_of_int pmax else n)) (filter (\<lambda>(d, n, _). sint n \<ge> smin) l)"
      "tot = fold (\<lambda>(d, n) t. t + n) ps 0"
    using assms(3) by (auto simp: GetMintPledgeData_def Let_def)
  have ok: "\<forall>(k, n, b) \<in> set l. 0 \<le> sint n" "(\<Sum>(k, n, b)\<leftarrow>l. sint n) < 2 ^ 63" using assms(1) l(1) by (auto simp: pledges_ok_def)
  have v: "rnonneg ps \<and> rsum ps \<le> (\<Sum>(k, n, b)\<leftarrow>l. sint n)" unfolding l(2) by (rule valid_pledges_sum [OF ok(1) b(5,7)])
  then show "rnonneg ps" by simp
  show "sint tot = rsum ps" unfolding l(3) using v ok(2) fold_pledges [of ps 0] by simp
  then show "\<And>k n. (k, n) \<in> set ps \<Longrightarrow> sint n \<le> sint tot" using v rsum_member by metis
qed

lemma GetMintPledgeReward_small:
  assumes "GetMintPledgeReward s hash d = Inr r"
  shows "- 1 \<le> sint r" "sint r \<le> 210240061800000"
proof -
  have "- 1 \<le> sint r \<and> sint r \<le> 210240061800000"
  proof (cases "\<exists>pmin smin pmax ps tot w. pledge_limits s hash = Some (pmin, smin, pmax) \<and>
      CalcPledgeRewardValue s hash tot pmin pmax = Inr w \<and> r = (if sint w < 0 then - 1 else w)")
    case True
    then obtain pmin smin pmax tot w where w: "pledge_limits s hash = Some (pmin, smin, pmax)"
        "CalcPledgeRewardValue s hash tot pmin pmax = Inr w" "r = (if sint w < 0 then - 1 else w)" by blast
    let ?h = "sint (GetBlockHeightByHash hash)"
    have "sint w \<le> 210240061800000"
    proof (cases "pmin \<le> sint tot \<and> sint (GetBlockMoneySupply s hash) \<le> GetMintTotalReward ?h")
      case True
      with CalcPledgeRewardValue_eq(2) [OF w(1) refl w(2)] obtain q where
        "GetBlockPledgeReward (?h + 1) = Some q" "sint w \<le> GetMintTotalReward ?h - sint (GetBlockMoneySupply s hash) + q" by blast
      then show ?thesis using total_reward_bounds [of ?h] pledge_share_small pledge_limits_small(1) [OF w(1)] by fastforce
    next
      case False
      then show ?thesis using CalcPledgeRewardValue_eq(1) [OF w(1) refl w(2)] by (auto split: if_splits)
    qed
    then show ?thesis using w(3) by simp
  next
    case False
    then have "r = - 1 \<or> r = 0"
      using assms by (fastforce simp: GetMintPledgeReward_def split: option.splits sum.splits if_splits prod.splits)
    then show ?thesis by auto
  qed
  then show "- 1 \<le> sint r" "sint r \<le> 210240061800000" by simp_all
qed

lemma distribute_conserves:
  assumes m: "rnonneg m" "rsum m + sint R < 2 ^ 63" and R: "0 \<le> sint R"
    and ps: "rnonneg ps" "0 < sint tot" "sint tot = rsum ps" "\<And>k n. (k, n) \<in> set ps \<Longrightarrow> sint n \<le> sint tot"
    and m': "m' = distribute_rest d R (distribute_loop (dest_reward R tot fee) ps m 0)"
  shows "rsum m' = rsum m + sint R \<and> rnonneg m'"
proof -
  let ?share = "dest_reward R tot fee"
  let ?T = "\<Sum>(d, n)\<leftarrow>ps. sint (?share n)"
  have share: "0 \<le> sint (?share n) \<and> sint (?share n) \<le> sint R * sint n div sint tot" if "(k, n) \<in> set ps" for k n
    using dest_reward_bounds [OF R _ _ ps(2), of n fee] ps(1) ps(4) [OF that] that by (auto simp: rnonneg_def list_all_iff)
  have "?T \<le> (\<Sum>p\<leftarrow>ps. sint R * sint (snd p) div sint tot)"
    using share by (intro sum_list_mono) (auto simp: case_prod_beta)
  also have "\<dots> \<le> sint R * (\<Sum>p\<leftarrow>ps. sint (snd p)) div sint tot" by (rule sum_of_quotients [OF ps(2)])
  also have "\<dots> = sint R" using ps(2,3) by (simp add: rsum_def case_prod_unfold)
  finally have T: "?T \<le> sint R" .
  have "0 \<le> ?T" using share by (auto intro!: sum_list_nonneg)
  obtain m1 t1 where loop: "distribute_loop ?share ps m 0 = (m1, t1)" by fastforce
  have sR: "sint R < 2 ^ 63" using sint_lt [of R] by simp
  have "rsum m1 = rsum m + ?T \<and> rnonneg m1 \<and> sint t1 = sint (0 :: i64) + ?T"
  proof (rule distribute_loop_sum [OF m(1) _ _ refl _ _ loop])
    show "list_all (\<lambda>(d, n). 0 \<le> sint (?share n)) ps" using share by (auto simp: list_all_iff)
  qed (use m T sR in simp_all)
  moreover from this have "sint (R - t1) = sint R - ?T" using T \<open>0 \<le> ?T\<close> by (subst sint_sub_small) simp_all
  moreover have "rsum (std_add d (R - t1) m1) = rsum m1 + sint (R - t1) \<and> rnonneg (std_add d (R - t1) m1)"
    if "0 < sint (R - t1)" using calculation that m by (intro std_add_sum) simp_all
  ultimately show ?thesis using T unfolding m' loop distribute_rest_def by auto
qed

lemma CalcBlockPledgeReward_conserves:
  assumes s: "pledges_ok s" and calc: "CalcBlockPledgeReward blake2b s pIndex m = Inr (Some m')" and p: "bi_pPrev pIndex = Some p"
    and m: "rnonneg m" "rsum m < 2 ^ 62"
  shows "\<exists>r. GetMintPledgeReward s p (bi_destMint pIndex) = Inr r \<and> 0 \<le> sint r \<and> rsum m' = rsum m + sint r \<and> rnonneg m'"
proof -
  obtain pmin smin pmax ps tot r where *: "pledge_limits s p = Some (pmin, smin, pmax)"
      "GetMintPledgeData s p (bi_destMint pIndex) smin pmax = Some (ps, tot)"
      "CalcPledgeRewardValue s p tot pmin pmax = Inr r" "0 \<le> sint r"
      "r = 0 \<or> ps = [] \<Longrightarrow> m' = m"
      "r \<noteq> 0 \<Longrightarrow> ps \<noteq> [] \<Longrightarrow> \<exists>fee. m' = distribute_rest (bi_destMint pIndex) r (distribute_loop (dest_reward r tot fee) ps m 0)"
    using calc p by (fastforce simp: CalcBlockPledgeReward_def not_less split: option.splits sum.splits if_splits prod.splits)
  have R: "GetMintPledgeReward s p (bi_destMint pIndex) = Inr r" using * by (simp add: GetMintPledgeReward_def)
  note small = GetMintPledgeReward_small [OF R] and data = GetMintPledgeData_sum [OF s *(1,2)] and lim = pledge_limits_small [OF *(1)]
  have "rsum m' = rsum m + sint r \<and> rnonneg m'"
  proof (cases "r = 0 \<or> ps = []")
    case True
    then have "r = 0"
    proof
      assume "ps = []"
      then have "sint tot < pmin" using data(2) lim(2) by simp
      then show ?thesis using *(3) by (simp add: CalcPledgeRewardValue_def)
    qed
    with True *(5) m show ?thesis by auto
  next
    case False
    then obtain fee where fee: "m' = distribute_rest (bi_destMint pIndex) r (distribute_loop (dest_reward r tot fee) ps m 0)"
      using *(6) by blast
    have "sint r \<noteq> 0" using False signed_word_eqI [of r 0] by auto
    then have "0 < sint tot" using lim(2) CalcPledgeRewardValue_eq(1) [OF *(1) refl *(3)] by (auto split: if_splits)
    then show ?thesis using small m by (intro distribute_conserves [OF m(1) _ *(4) data(1) _ data(2,3) fee]) simp_all
  qed
  with R *(4) show ?thesis by blast
qed

text \<open>The rewards of the blocks of a period, going back from its last block.\<close>

primrec period_rewards :: "pledge_store \<Rightarrow> nat \<Rightarrow> CBlockIndex \<Rightarrow> int list" where
  "period_rewards s 0 pIndex = []"
| "period_rewards s (Suc n) pIndex =
     (case bi_pPrev pIndex of
        None \<Rightarrow> []
      | Some p \<Rightarrow> (case GetMintPledgeReward s p (bi_destMint pIndex) of Inl e \<Rightarrow> 0 | Inr r \<Rightarrow> sint r)
          # (case ps_index s p of None \<Rightarrow> [] | Some pPrev \<Rightarrow> period_rewards s n pPrev))"

lemma calc_distribute_loop_sum:
  assumes "pledges_ok s"
  shows "calc_distribute_loop blake2b s n pIndex m = Inr (Some m') \<Longrightarrow> rnonneg m \<Longrightarrow> rsum m + int n * 300000000000000 < 2 ^ 62 \<Longrightarrow>
    rsum m' = rsum m + sum_list (period_rewards s n pIndex) \<and> rnonneg m'"
proof (induction n arbitrary: pIndex m)
  case (Suc n)
  show ?case
  proof (cases "bi_pPrev pIndex")
    case None
    then show ?thesis using Suc.prems by simp
  next
    case (Some p)
    obtain m1 pPrev where st: "CalcBlockPledgeReward blake2b s pIndex m = Inr (Some m1)" "ps_index s p = Some pPrev"
        "calc_distribute_loop blake2b s n pPrev m1 = Inr (Some m')"
      using Suc.prems(1) Some by (auto split: sum.splits option.splits)
    have "rsum m < 2 ^ 62" using Suc.prems(3) by simp
    from CalcBlockPledgeReward_conserves [OF assms st(1) Some Suc.prems(2) this]
    obtain r where r: "GetMintPledgeReward s p (bi_destMint pIndex) = Inr r" "rsum m1 = rsum m + sint r" "rnonneg m1" by blast
    have "rsum m1 + int n * 300000000000000 < 2 ^ 62" using Suc.prems(3) r(2) GetMintPledgeReward_small(2) [OF r(1)] by simp
    with Suc.IH [OF st(3) r(3)] show ?thesis using Some st r by simp
  qed
qed simp

text \<open>
  C15: what a period distributes is exactly the sum of the pledge rewards of its blocks, as the miners
  computed them: rounding and the fee of the miner move coins between the entries, but none is created
  or lost, every entry is non-negative, and no sum overflows.
\<close>

theorem period_distribution_conserves_rewards:
  assumes "pledges_ok s" "CalcDistributePledgeReward blake2b testnet s hashBlock = Inr (Some m)"
  shows "\<exists>pIndex. ps_index s hashBlock = Some pIndex
    \<and> rsum m = sum_list (period_rewards s (unat (BPX_PLEDGE_REWARD_DISTRIBUTE_HEIGHT testnet)) pIndex) \<and> rnonneg m"
proof -
  let ?n = "unat (BPX_PLEDGE_REWARD_DISTRIBUTE_HEIGHT testnet)"
  obtain pIndex where p: "ps_index s hashBlock = Some pIndex" "calc_distribute_loop blake2b s ?n pIndex [] = Inr (Some m)"
    using assms(2) by (auto simp: CalcDistributePledgeReward_def Let_def split: if_splits option.splits)
  have "int ?n * 300000000000000 < 2 ^ 62"
    by (cases testnet) (simp_all add: BPX_PLEDGE_REWARD_DISTRIBUTE_HEIGHT_def GET_PARAM_def)
  with calc_distribute_loop_sum [OF assms(1) p(2)] p(1) show ?thesis by simp
qed

text \<open>
  C16: an honest miner keeps the supply within the schedule: if the coins below a block do not exceed the
  total reward of the schedule at its height, the pledge reward that \<^verbatim>\<open>GetMintPledgeReward\<close> computes for the
  next block is not negative, and together with the reward of the miner it does not exceed the total
  reward at the next height.
\<close>

theorem honest_reward_keeps_schedule:
  assumes "h = sint (GetBlockHeightByHash hashPrev)" "0 \<le> h" "h < 63 * BPX_REWARD_HALVE_HEIGHT"
    and "0 \<le> sint (GetBlockMoneySupply s hashPrev)" "sint (GetBlockMoneySupply s hashPrev) \<le> GetMintTotalReward h"
    and "GetMintPledgeReward s hashPrev destMint = Inr r"
  shows "\<exists>p. GetBlockPowReward (h + 1) = Some p \<and> 0 \<le> p \<and> 0 \<le> sint r
    \<and> sint (GetBlockMoneySupply s hashPrev) + p + sint r \<le> GetMintTotalReward (h + 1)"
proof -
  let ?s = "sint (GetBlockMoneySupply s hashPrev)"
  obtain w where w: "GetMintWorkReward (h + 1) = Some w" "GetMintTotalReward (h + 1) = GetMintTotalReward h + w"
    using total_reward_Suc assms(2,3) by blast
  obtain p q where pq: "GetBlockPowReward (h + 1) = Some p" "GetBlockPledgeReward (h + 1) = Some q" "0 \<le> p" "0 \<le> q" "p + q \<le> w"
    using reward_split [OF w(1)] by blast
  obtain pmin smin pmax where lim: "pledge_limits s hashPrev = Some (pmin, smin, pmax)"
    using assms(4) by (auto simp: pledge_limits_def GetPledgeMinMaxValue_def Let_def intro: prod_cases3)
  have "0 \<le> sint r \<and> sint r \<le> GetMintTotalReward h - ?s + q"
  proof (cases "GetMintPledgeData s hashPrev destMint smin pmax")
    case None
    then show ?thesis using assms(5,6) lim pq(4) by (simp add: GetMintPledgeReward_def)
  next
    case (Some d)
    obtain ps tot where d: "d = (ps, tot)" by fastforce
    obtain v where v: "CalcPledgeRewardValue s hashPrev tot pmin pmax = Inr v" "r = (if sint v < 0 then - 1 else v)"
      using assms(6) lim Some d by (auto simp: GetMintPledgeReward_def split: sum.splits if_splits)
    note e = CalcPledgeRewardValue_eq [OF lim assms(1) v(1)]
    have "0 \<le> sint v \<and> sint v \<le> GetMintTotalReward h - ?s + q"
      using e(1) e(2) assms(5) pq(2,4) by (cases "sint tot < pmin") (auto simp: not_less)
    then show ?thesis using v(2) by simp
  qed
  with w pq show ?thesis by auto
qed


section \<open>A small chain\<close>

text \<open>
  A chain of two blocks, the second mined for a proof template that keeps a fee of 50 in 1000, with one
  pledge of 200 coins to it.
\<close>

definition example_miner :: CTemplateProof where
  "example_miner = \<lparr> tp_destSpent = dest_SetPubKey 3, tp_nPledgeFee = 50 \<rparr>"

definition example_mint :: CDestination where
  "example_mint = template_dest (\<lambda>_. 0) (TProof example_miner)"

definition example_pledge :: CTemplateMintPledge where
  "example_pledge = \<lparr> mp_destOwner = dest_SetPubKey 5, mp_destPowMint = example_mint, mp_nRewardMode = 2 \<rparr>"

definition example_pledger :: CDestination where
  "example_pledger = template_dest (\<lambda>_. 0) (TMintPledge example_pledge)"

definition example_hash :: "u32 \<Rightarrow> uint256" where
  "example_hash h = uint256_pair h 7"

definition example_link :: "u32 \<Rightarrow> CBlockIndex" where
  "example_link h = (block_index (\<lambda>_. 0) (example_hash h) block_SetNull 0 0)\<lparr> bi_nHeight := h,
     bi_pPrev := (if h = 0 then None else Some (example_hash (h - 1))), bi_destMint := example_mint, bi_nMoneySupply := 0 \<rparr>"

definition example_store :: pledge_store where
  "example_store = \<lparr> ps_genesis = example_hash 0,
     ps_index = [example_hash 5 \<mapsto> (example_link 5)\<lparr> bi_pPrev := Some (example_hash 0) \<rparr>, example_hash 0 \<mapsto> example_link 0],
     ps_pow_pledges = (\<lambda>h d. Some (if d = example_mint then [(example_pledger, 200000000, 1)] else [])),
     ps_template_data = [example_mint \<mapsto> proof_BuildTemplateData example_miner, example_pledger \<mapsto> mintpledge_BuildTemplateData example_pledge] \<rparr>"

lemma example_dests:
  "dest_IsTemplate example_mint" "dest_IsTemplate example_pledger"
  "templateid_GetType (dest_GetTemplateId example_mint) = TEMPLATE_PROOF" "templateid_GetType (dest_GetTemplateId example_pledger) = TEMPLATE_MINTPLEDGE"
  by (simp_all add: example_mint_def example_pledger_def template_dest_def template_build_def template_BuildTemplateId_def Let_def
      dest_SetTemplateId_def dest_GetTemplateId_def dest_IsTemplate_def)

lemma example_dests_is:
  "is_template_of example_mint TEMPLATE_PROOF" "is_template_of example_pledger TEMPLATE_MINTPLEDGE"
  by (simp_all add: is_template_of_def example_dests)

lemma example_dests_less: "example_mint < example_pledger"
  by (simp add: example_mint_def example_pledger_def template_dest_def template_build_def template_BuildTemplateId_def Let_def
      template_types CryptoHash_def dest_less_def less_CDestination_def dest_SetTemplateId_def templateid_def)

lemma example_dests_neq: "example_mint \<noteq> example_pledger" "example_pledger \<noteq> example_mint"
  using example_dests_less by auto

lemma example_hash_eq [simp]: "example_hash a = example_hash b \<longleftrightarrow> a = b" "GetBlockHeightByHash (example_hash a) = a"
proof -
  have h: "Get32 (example_hash a) 7 = a" for a by (simp add: example_hash_def)
  then show "GetBlockHeightByHash (example_hash a) = a" by (simp add: GetBlockHeightByHash_def)
  show "example_hash a = example_hash b \<longleftrightarrow> a = b" using h by metis
qed

lemma example_templates:
  "GetPowMintTemplateParam (\<lambda>_. 0) example_store example_mint = Inr (Some example_miner)"
  "GetPledgeTemplateParam (\<lambda>_. 0) example_store example_pledger = Inr (Some example_pledge)"
proof -
  have p: "proof_ValidateParam example_miner"
    by (simp add: example_miner_def proof_ValidateParam_def IsTxSpendable_def)
  have m: "mintpledge_ValidateParam example_pledge"
    using example_dests by (simp add: example_pledge_def mintpledge_ValidateParam_def IsTxSpendable_def)
  show "GetPowMintTemplateParam (\<lambda>_. 0) example_store example_mint = Inr (Some example_miner)"
    using CreateTemplatePtr_round_trip [of "TProof example_miner" "\<lambda>_. 0" "[]"] p example_dests_is example_dests_neq
    by (simp add: GetPowMintTemplateParam_def example_store_def create_as_def obj_ok_def template_build_def Let_def)
  show "GetPledgeTemplateParam (\<lambda>_. 0) example_store example_pledger = Inr (Some example_pledge)"
    using CreateTemplatePtr_round_trip [of "TMintPledge example_pledge" "\<lambda>_. 0" "[]"] m example_dests_is example_dests_neq
    by (simp add: GetPledgeTemplateParam_def example_store_def create_as_def obj_ok_def template_build_def Let_def)
qed

lemma example_pledges_ok: "pledges_ok example_store"
  by (simp add: pledges_ok_def example_store_def)

lemma example_limits: "pledge_limits example_store (example_hash 0) = Some (100000000, 100000000, 10000000000)"
  by (simp add: pledge_limits_def GetPledgeMinMaxValue_def GetBlockPledgeMinMaxValue_def GetBlockMoneySupply_def example_store_def
      example_link_def BPX_MIN_PLEDGE_COIN_def BPX_INIT_BLOCK_REWARD_TOKEN_def COIN_def)

lemma example_data: "GetMintPledgeData example_store h example_mint 100000000 10000000000 = Some ([(example_pledger, 200000000)], 200000000)"
  by (simp add: GetMintPledgeData_def example_store_def)

lemma example_reward_value: "CalcPledgeRewardValue example_store (example_hash 0) 200000000 100000000 10000000000 = Inr 1236000"
proof -
  have "GetBlockPledgeReward 1 = Some 61800000"
    by (simp add: GetBlockPledgeReward_def GetMintWorkReward_def BPX_INIT_BLOCK_REWARD_TOKEN_def COIN_def BPX_TOTAL_REWARD_RATE_def
        BPX_POW_REWARD_RATE_def BPX_REWARD_HALVE_HEIGHT_def)
  then show ?thesis
    by (simp add: CalcPledgeRewardValue_def Let_def GetBlockMoneySupply_def example_store_def example_link_def GetMintTotalReward_def
        mint_total_loop.simps mul_div128_def)
qed

lemma example_reward: "GetMintPledgeReward example_store (example_hash 0) example_mint = Inr 1236000"
  by (simp add: GetMintPledgeReward_def example_limits example_data example_reward_value)

lemma example_distribution:
  "CalcDistributePledgeReward (\<lambda>_. 0) True example_store (example_hash 5) = Inr (Some [(example_mint, 61800), (example_pledger, 1174200)])"
proof -
  let ?i = "(example_link 5)\<lparr> bi_pPrev := Some (example_hash 0) \<rparr>"
  have share: "dest_reward 1236000 200000000 50 200000000 = 1174200"
    by (simp add: dest_reward_def mul_div128_def)
  have "CalcBlockPledgeReward (\<lambda>_. 0) example_store ?i [] = Inr (Some [(example_mint, 61800), (example_pledger, 1174200)])"
    using example_dests_less example_dests_neq
    by (simp add: CalcBlockPledgeReward_def example_limits example_data example_reward_value example_templates example_link_def
        share distribute_rest_def example_miner_def)
  moreover have "ps_index example_store (example_hash 5) = Some ?i" "ps_index example_store (example_hash 0) = Some (example_link 0)"
    by (simp_all add: example_store_def)
  ultimately have "calc_distribute_loop (\<lambda>_. 0) example_store (Suc (Suc n)) ?i [] = Inr (Some [(example_mint, 61800), (example_pledger, 1174200)])" for n
    by (simp add: example_link_def)
  from this [of 3] have "calc_distribute_loop (\<lambda>_. 0) example_store 5 ?i [] = Inr (Some [(example_mint, 61800), (example_pledger, 1174200)])"
    by simp
  moreover have "ps_index example_store (example_hash 5) = Some ?i" by (simp add: example_store_def)
  moreover have "unat (BPX_PLEDGE_REWARD_DISTRIBUTE_HEIGHT True) = 5" "5 mod BPX_PLEDGE_REWARD_DISTRIBUTE_HEIGHT True = 0"
    by (simp_all add: BPX_PLEDGE_REWARD_DISTRIBUTE_HEIGHT_def GET_PARAM_def)
  ultimately show ?thesis by (simp add: CalcDistributePledgeReward_def)
qed

theorem period_distribution_conserves_rewards_witness:
  "rsum [(example_mint, 61800), (example_pledger, 1174200)] = sum_list (period_rewards example_store 5 ((example_link 5)\<lparr> bi_pPrev := Some (example_hash 0) \<rparr>))"
  using period_distribution_conserves_rewards [OF example_pledges_ok example_distribution]
  by (auto simp: BPX_PLEDGE_REWARD_DISTRIBUTE_HEIGHT_def GET_PARAM_def example_store_def)

theorem honest_reward_keeps_schedule_witness:
  "GetMintPledgeReward example_store (example_hash 0) example_mint = Inr 1236000 \<and> 1236000 \<le> GetMintTotalReward 1"
proof -
  have s: "0 \<le> sint (GetBlockMoneySupply example_store (example_hash 0))"
    "sint (GetBlockMoneySupply example_store (example_hash 0)) \<le> GetMintTotalReward 0"
    by (simp_all add: GetBlockMoneySupply_def example_store_def example_link_def GetMintTotalReward_def mint_total_loop.simps)
  from honest_reward_keeps_schedule [of 0, OF _ _ _ s example_reward] s(1) example_reward show ?thesis
    by (fastforce simp: BPX_REWARD_HALVE_HEIGHT_def)
qed

end
