(* ===== verification/Address_Text.thy ===== *)
theory Address_Text
  imports Ledger_Tx
begin

text \<open>
  The text forms of destinations: hexadecimal strings (\<^verbatim>\<open>xengine/util.h\<close>, \<^verbatim>\<open>common/destination.cpp\<close>) and
  the base-32 addresses with a CRC-24Q checksum (\<^verbatim>\<open>crypto/crc24q.cpp\<close>, \<^verbatim>\<open>crypto/base32.cpp\<close>,
  \<^verbatim>\<open>minemon/address.cpp\<close>).  Strings are lists of bytes.
\<close>

section \<open>CRC-24Q\<close>

definition crc24q_table :: "u32 list" where
  "crc24q_table =
    [0x00000000, 0x01864CFB, 0x028AD50D, 0x030C99F6, 0x0493E6E1, 0x0515AA1A, 0x061933EC, 0x079F7F17,
     0x08A18139, 0x0927CDC2, 0x0A2B5434, 0x0BAD18CF, 0x0C3267D8, 0x0DB42B23, 0x0EB8B2D5, 0x0F3EFE2E,
     0x10C54E89, 0x11430272, 0x124F9B84, 0x13C9D77F, 0x1456A868, 0x15D0E493, 0x16DC7D65, 0x175A319E,
     0x1864CFB0, 0x19E2834B, 0x1AEE1ABD, 0x1B685646, 0x1CF72951, 0x1D7165AA, 0x1E7DFC5C, 0x1FFBB0A7,
     0x200CD1E9, 0x218A9D12, 0x228604E4, 0x2300481F, 0x249F3708, 0x25197BF3, 0x2615E205, 0x2793AEFE,
     0x28AD50D0, 0x292B1C2B, 0x2A2785DD, 0x2BA1C926, 0x2C3EB631, 0x2DB8FACA, 0x2EB4633C, 0x2F322FC7,
     0x30C99F60, 0x314FD39B, 0x32434A6D, 0x33C50696, 0x345A7981, 0x35DC357A, 0x36D0AC8C, 0x3756E077,
     0x38681E59, 0x39EE52A2, 0x3AE2CB54, 0x3B6487AF, 0x3CFBF8B8, 0x3D7DB443, 0x3E712DB5, 0x3FF7614E,
     0x4019A3D2, 0x419FEF29, 0x429376DF, 0x43153A24, 0x448A4533, 0x450C09C8, 0x4600903E, 0x4786DCC5,
     0x48B822EB, 0x493E6E10, 0x4A32F7E6, 0x4BB4BB1D, 0x4C2BC40A, 0x4DAD88F1, 0x4EA11107, 0x4F275DFC,
     0x50DCED5B, 0x515AA1A0, 0x52563856, 0x53D074AD, 0x544F0BBA, 0x55C94741, 0x56C5DEB7, 0x5743924C,
     0x587D6C62, 0x59FB2099, 0x5AF7B96F, 0x5B71F594, 0x5CEE8A83, 0x5D68C678, 0x5E645F8E, 0x5FE21375,
     0x6015723B, 0x61933EC0, 0x629FA736, 0x6319EBCD, 0x648694DA, 0x6500D821, 0x660C41D7, 0x678A0D2C,
     0x68B4F302, 0x6932BFF9, 0x6A3E260F, 0x6BB86AF4, 0x6C2715E3, 0x6DA15918, 0x6EADC0EE, 0x6F2B8C15,
     0x70D03CB2, 0x71567049, 0x725AE9BF, 0x73DCA544, 0x7443DA53, 0x75C596A8, 0x76C90F5E, 0x774F43A5,
     0x7871BD8B, 0x79F7F170, 0x7AFB6886, 0x7B7D247D, 0x7CE25B6A, 0x7D641791, 0x7E688E67, 0x7FEEC29C,
     0x803347A4, 0x81B50B5F, 0x82B992A9, 0x833FDE52, 0x84A0A145, 0x8526EDBE, 0x862A7448, 0x87AC38B3,
     0x8892C69D, 0x89148A66, 0x8A181390, 0x8B9E5F6B, 0x8C01207C, 0x8D876C87, 0x8E8BF571, 0x8F0DB98A,
     0x90F6092D, 0x917045D6, 0x927CDC20, 0x93FA90DB, 0x9465EFCC, 0x95E3A337, 0x96EF3AC1, 0x9769763A,
     0x98578814, 0x99D1C4EF, 0x9ADD5D19, 0x9B5B11E2, 0x9CC46EF5, 0x9D42220E, 0x9E4EBBF8, 0x9FC8F703,
     0xA03F964D, 0xA1B9DAB6, 0xA2B54340, 0xA3330FBB, 0xA4AC70AC, 0xA52A3C57, 0xA626A5A1, 0xA7A0E95A,
     0xA89E1774, 0xA9185B8F, 0xAA14C279, 0xAB928E82, 0xAC0DF195, 0xAD8BBD6E, 0xAE872498, 0xAF016863,
     0xB0FAD8C4, 0xB17C943F, 0xB2700DC9, 0xB3F64132, 0xB4693E25, 0xB5EF72DE, 0xB6E3EB28, 0xB765A7D3,
     0xB85B59FD, 0xB9DD1506, 0xBAD18CF0, 0xBB57C00B, 0xBCC8BF1C, 0xBD4EF3E7, 0xBE426A11, 0xBFC426EA,
     0xC02AE476, 0xC1ACA88D, 0xC2A0317B, 0xC3267D80, 0xC4B90297, 0xC53F4E6C, 0xC633D79A, 0xC7B59B61,
     0xC88B654F, 0xC90D29B4, 0xCA01B042, 0xCB87FCB9, 0xCC1883AE, 0xCD9ECF55, 0xCE9256A3, 0xCF141A58,
     0xD0EFAAFF, 0xD169E604, 0xD2657FF2, 0xD3E33309, 0xD47C4C1E, 0xD5FA00E5, 0xD6F69913, 0xD770D5E8,
     0xD84E2BC6, 0xD9C8673D, 0xDAC4FECB, 0xDB42B230, 0xDCDDCD27, 0xDD5B81DC, 0xDE57182A, 0xDFD154D1,
     0xE026359F, 0xE1A07964, 0xE2ACE092, 0xE32AAC69, 0xE4B5D37E, 0xE5339F85, 0xE63F0673, 0xE7B94A88,
     0xE887B4A6, 0xE901F85D, 0xEA0D61AB, 0xEB8B2D50, 0xEC145247, 0xED921EBC, 0xEE9E874A, 0xEF18CBB1,
     0xF0E37B16, 0xF16537ED, 0xF269AE1B, 0xF3EFE2E0, 0xF4709DF7, 0xF5F6D10C, 0xF6FA48FA, 0xF77C0401,
     0xF842FA2F, 0xF9C4B6D4, 0xFAC82F22, 0xFB4E63D9, 0xFCD11CCE, 0xFD575035, 0xFE5BC9C3, 0xFFDD8538]"

definition crc24q_step :: "u8 \<Rightarrow> u32 \<Rightarrow> u32" where
  "crc24q_step d crc = push_bit 8 crc XOR crc24q_table ! unat (ucast d XOR (0xFF AND drop_bit 16 crc))"

definition crc24q :: "u8 list \<Rightarrow> u32" where
  "crc24q data = (fold crc24q_step data 0) AND 0x00ffffff"

text \<open>
  The reference: one message bit after the other is shifted into a 24-bit register that is reduced by
  the polynomial \<open>0x1864CFB\<close> of the comment in \<^verbatim>\<open>crc24q.h\<close>.
\<close>

definition crc_bit :: "u32 \<Rightarrow> u32" where
  "crc_bit crc = take_bit 24 (push_bit 1 crc XOR (if bit crc 23 then 0x1864CFB else 0))"

definition crc_byte :: "u8 \<Rightarrow> u32 \<Rightarrow> u32" where
  "crc_byte d crc = (crc_bit ^^ 8) (crc XOR push_bit 16 (ucast d))"

text \<open>Both are linear over exclusive or, so the table is determined by its entries at powers of two.\<close>

lemma crc_bit_xor: "crc_bit (a XOR b) = crc_bit a XOR crc_bit b"
  by (rule bit_word_eqI) (auto simp: crc_bit_def bit_simps)

lemma crc_bits_xor: "(crc_bit ^^ n) (a XOR b) = (crc_bit ^^ n) a XOR (crc_bit ^^ n) b"
  by (induction n) (simp_all add: crc_bit_xor)

lemma crc_bits_push:
  assumes "n \<le> 8" "take_bit 16 lo = lo"
  shows "(crc_bit ^^ n) lo = push_bit n lo"
  using assms(1)
proof (induction n)
  case (Suc n)
  have hi: "\<not> bit lo k" if "k \<ge> 16" for k using assms(2) that by (metis bit_take_bit_iff not_less)
  have "crc_bit (push_bit n lo) = push_bit (Suc n) lo"
  proof (rule bit_word_eqI)
    fix k :: nat
    assume "k < LENGTH(32)"
    moreover have "16 \<le> k - Suc n" if "k \<ge> 24" using that Suc.prems by linarith
    ultimately show "bit (crc_bit (push_bit n lo)) k = bit (push_bit (Suc n) lo) k"
      using hi [of "23 - n"] hi [of "k - Suc n"] Suc.prems
      by (cases "k < 24") (auto simp: crc_bit_def bit_simps simp del: push_bit_Suc)
  qed
  with Suc show ?case by simp
qed simp

definition crc_entry :: "nat \<Rightarrow> u32" where
  "crc_entry i = push_bit 24 (of_nat i) XOR (crc_bit ^^ 8) (push_bit 16 (of_nat i))"

fun crc_double :: "u32 list \<Rightarrow> u32 list \<Rightarrow> u32 list" where
  "crc_double [] xs = xs"
| "crc_double (b # bs) xs = crc_double bs (xs @ map (\<lambda>x. x XOR b) xs)"

lemma crc_table_double:
  "crc24q_table = crc_double [0x01864CFB, 0x028AD50D, 0x0493E6E1, 0x08A18139, 0x10C54E89, 0x200CD1E9, 0x4019A3D2, 0x803347A4] [0]"
  by (simp add: crc24q_table_def)

lemma crc_bits_8: "(crc_bit ^^ 8) c = crc_bit (crc_bit (crc_bit (crc_bit (crc_bit (crc_bit (crc_bit (crc_bit c)))))))"
  by (simp add: numeral_eq_Suc)

lemma crc_entry_pow:
  "map (\<lambda>k. crc_entry (2 ^ k)) [0..<8] = [0x01864CFB, 0x028AD50D, 0x0493E6E1, 0x08A18139, 0x10C54E89, 0x200CD1E9, 0x4019A3D2, 0x803347A4]"
proof -
  have "[0..<8] = [0, 1, 2, 3, 4, 5, 6, 7 :: nat]" by (simp add: upt_rec)
  then show ?thesis by (simp add: crc_entry_def crc_bits_8 crc_bit_def)
qed

lemma crc_entry_add:
  assumes "k < 8" "i < 2 ^ k"
  shows "crc_entry (i + 2 ^ k) = crc_entry i XOR crc_entry (2 ^ k)"
proof -
  have "(of_nat i :: u32) AND 2 ^ k = 0"
  proof (rule bit_word_eqI)
    fix n
    have "\<not> bit i k" using assms(2) by (simp add: bit_iff_odd)
    then show "bit ((of_nat i :: u32) AND 2 ^ k) n = bit (0 :: u32) n" by (auto simp: bit_simps)
  qed
  then have "(of_nat (i + 2 ^ k) :: u32) = of_nat i XOR 2 ^ k" by (simp add: disjunctive_add_eq_xor)
  then show ?thesis
    by (simp add: crc_entry_def push_bit_xor crc_bits_xor xor.assoc xor.left_commute)
qed

lemma crc_double_entries:
  "k + length bs \<le> 8 \<Longrightarrow> bs = map (\<lambda>j. crc_entry (2 ^ j)) [k..<k + length bs] \<Longrightarrow>
   crc_double bs (map crc_entry [0..<2 ^ k]) = map crc_entry [0..<2 ^ (k + length bs)]"
proof (induction bs arbitrary: k)
  case (Cons b bs)
  have b: "b = crc_entry (2 ^ k)" "bs = map (\<lambda>j. crc_entry (2 ^ j)) [Suc k..<Suc k + length bs]"
    using Cons.prems(2) upt_conv_Cons [of k "Suc (k + length bs)"] by (simp_all del: upt_Suc)
  have "map crc_entry [0..<2 ^ k] @ map (\<lambda>x. x XOR b) (map crc_entry [0..<2 ^ k]) = map crc_entry [0..<2 ^ Suc k]"
  proof (rule nth_equalityI)
    fix i
    assume "i < length (map crc_entry [0..<2 ^ k] @ map (\<lambda>x. x XOR b) (map crc_entry [0..<2 ^ k]))"
    then show "(map crc_entry [0..<2 ^ k] @ map (\<lambda>x. x XOR b) (map crc_entry [0..<2 ^ k])) ! i = map crc_entry [0..<2 ^ Suc k] ! i"
      using crc_entry_add [of k "i - 2 ^ k"] Cons.prems(1) by (auto simp: nth_append b(1))
  qed simp
  with Cons.IH [of "Suc k"] Cons.prems(1) b(2) show ?case by simp
qed simp

lemma crc_entry_0: "crc_entry 0 = 0"
proof -
  have "crc_bit 0 = 0" by (simp add: crc_bit_def)
  then have "(crc_bit ^^ n) 0 = 0" for n by (induction n) simp_all
  then show ?thesis by (simp add: crc_entry_def)
qed

lemma crc_table_entries: "crc24q_table = map crc_entry [0..<256]"
proof -
  let ?bs = "map (\<lambda>k. crc_entry (2 ^ k)) [0..<8]"
  have "crc_double ?bs (map crc_entry [0..<2 ^ 0]) = map crc_entry [0..<2 ^ (0 + length ?bs)]"
    by (rule crc_double_entries) (simp_all only: length_map length_upt add_0 diff_zero order_refl)
  then show ?thesis
    unfolding crc_entry_pow by (simp add: crc_table_double crc_entry_0 del: crc_double.simps)
qed

text \<open>The index the code looks up is a byte.\<close>

lemma crc_index:
  fixes d :: u8 and crc :: u32
  defines "j \<equiv> ucast d XOR (0xFF AND drop_bit 16 crc)"
  shows "crc24q_table ! unat j = push_bit 24 j XOR (crc_bit ^^ 8) (push_bit 16 j)"
proof -
  have m: "(0xFF :: u32) = mask 8" by (simp add: mask_eq_exp_minus_1)
  have "take_bit 8 j = j" by (rule bit_word_eqI) (auto simp: j_def m bit_simps dest: bit_imp_le_length)
  then have "unat j < 2 ^ 8" by (metis take_bit_nat_less_exp unsigned_take_bit_eq)
  then show ?thesis by (simp add: crc_table_entries crc_entry_def)
qed

lemma crc_step_byte: "take_bit 24 (crc24q_step d c) = crc_byte d (take_bit 24 c)"
proof -
  define j :: u32 where "j = ucast d XOR (0xFF AND drop_bit 16 c)"
  have m: "(0xFF :: u32) = mask 8" by (simp add: mask_eq_exp_minus_1)
  have split: "take_bit 24 c XOR push_bit 16 (ucast d) = push_bit 16 j XOR take_bit 16 c"
    by (rule bit_word_eqI) (auto simp: j_def m bit_simps)
  have X: "take_bit 24 ((crc_bit ^^ 8) y) = (crc_bit ^^ 8) y" for y
    by (simp add: crc_bits_8 crc_bit_def [of "crc_bit _"])
  have "crc24q_step d c = push_bit 8 c XOR (push_bit 24 j XOR (crc_bit ^^ 8) (push_bit 16 j))"
    by (simp add: crc24q_step_def j_def crc_index)
  then have "take_bit 24 (crc24q_step d c) = take_bit 24 (push_bit 8 c) XOR (crc_bit ^^ 8) (push_bit 16 j)"
    by (simp add: take_bit_xor X take_bit_push_bit)
  also have "take_bit 24 (push_bit 8 c) = (crc_bit ^^ 8) (take_bit 16 c)"
    by (simp add: crc_bits_push take_bit_push_bit)
  finally show ?thesis by (simp add: crc_byte_def split crc_bits_xor xor.commute)
qed

lemma crc24q_take: "crc24q data = take_bit 24 (fold crc24q_step data 0)"
proof -
  have "(0x00ffffff :: u32) = mask 24" by (simp add: mask_eq_exp_minus_1)
  then show ?thesis by (simp add: crc24q_def take_bit_eq_mask)
qed

text \<open>
  The table-driven \<^verbatim>\<open>crc24q\<close>, which lets garbage run through the top byte of its register and masks
  it at the end, computes the remainder of the message by the polynomial in the comment, one bit at a
  time in a 24-bit register.
\<close>

theorem crc24q_is_polynomial_remainder:
  "crc24q data = fold crc_byte data 0"
proof -
  have "take_bit 24 (fold crc24q_step data c) = fold crc_byte data (take_bit 24 c)" for c
    by (induction data arbitrary: c) (simp_all add: crc_step_byte)
  then show ?thesis by (simp add: crc24q_take)
qed

lemma crc_step_own_byte:
  assumes "(ucast d :: u32) = 0xFF AND drop_bit 16 c"
  shows "crc24q_step d c = push_bit 8 c"
proof -
  have "crc24q_table ! 0 = 0" by (simp add: crc24q_table_def)
  then show ?thesis by (simp add: crc24q_step_def assms)
qed

lemma crc24q_append_crc:
  fixes data :: "u8 list"
  defines "c \<equiv> crc24q data"
  shows "crc24q (data @ [ucast (drop_bit 16 c), ucast (drop_bit 8 c), ucast c]) = 0"
proof -
  define f where "f = fold crc24q_step data 0"
  have c: "c = take_bit 24 f" by (simp add: c_def f_def crc24q_take)
  have m: "(0xFF :: u32) = mask 8" by (simp add: mask_eq_exp_minus_1)
  have "crc24q_step (ucast (drop_bit 16 c)) f = push_bit 8 f"
    by (rule crc_step_own_byte) (rule bit_word_eqI, auto simp: c m bit_simps)
  moreover have "crc24q_step (ucast (drop_bit 8 c)) (push_bit 8 f) = push_bit 8 (push_bit 8 f)"
    by (rule crc_step_own_byte) (rule bit_word_eqI, auto simp: c m bit_simps add.commute)
  moreover have "crc24q_step (ucast c) (push_bit 8 (push_bit 8 f)) = push_bit 8 (push_bit 8 (push_bit 8 f))"
    by (rule crc_step_own_byte) (rule bit_word_eqI, auto simp: c m bit_simps)
  ultimately show ?thesis
    by (simp add: crc24q_take f_def [symmetric] take_bit_push_bit)
qed

section \<open>Base 32\<close>

definition base32_alphabet :: "u8 list" where
  "base32_alphabet = string_bytes ''0123456789abcdefghjkmnpqrstvwxyz''"

text \<open>The eight indices of five bytes, and the five bytes of eight indices.\<close>

fun base32_split :: "u8 list \<Rightarrow> u8 list" where
  "base32_split [m0, m1, m2, m3, m4] =
     [drop_bit 3 m0 AND 0x1F, (push_bit 2 m0 AND 0x1C) OR (drop_bit 6 m1 AND 0x03), drop_bit 1 m1 AND 0x1F,
      (push_bit 4 m1 AND 0x10) OR (drop_bit 4 m2 AND 0x0F), (push_bit 1 m2 AND 0x1E) OR (drop_bit 7 m3 AND 0x01),
      drop_bit 2 m3 AND 0x1F, (push_bit 3 m3 AND 0x18) OR (drop_bit 5 m4 AND 0x07), m4 AND 0x1F]"
| "base32_split _ = []"

fun base32_join :: "u8 list \<Rightarrow> u8 list" where
  "base32_join [i0, i1, i2, i3, i4, i5, i6, i7] =
     [(push_bit 3 i0 AND 0xF8) OR (drop_bit 2 i1 AND 0x07),
      (push_bit 6 i1 AND 0xC0) OR (push_bit 1 i2 AND 0x3E) OR (drop_bit 4 i3 AND 0x01),
      (push_bit 4 i3 AND 0xF0) OR (drop_bit 1 i4 AND 0x0F),
      (push_bit 7 i4 AND 0x80) OR (push_bit 2 i5 AND 0x7C) OR (drop_bit 3 i6 AND 0x03),
      (push_bit 5 i6 AND 0xE0) OR (i7 AND 0x1F)]"
| "base32_join _ = []"

definition Base32Encode5Bytes :: "u8 list \<Rightarrow> u8 list" where
  "Base32Encode5Bytes md5 = map (\<lambda>i. base32_alphabet ! unat i) (base32_split md5)"

definition Base32Encode :: "u8 list \<Rightarrow> u8 list" where
  "Base32Encode md32 =
     (let crc = crc24q (take 32 md32)
      in concat (map (\<lambda>i. Base32Encode5Bytes (take 5 (drop i md32))) [0, 5, 10, 15, 20, 25]) @
         Base32Encode5Bytes [md32 ! 30, md32 ! 31, ucast (drop_bit 16 crc), ucast (drop_bit 8 crc), ucast crc])"

definition base32_letters :: "u8 list" where
  "base32_letters = [10, 11, 12, 13, 14, 15, 16, 17, - 1, 18, 19, - 1, 20, 21, - 1, 22, 23, 24, 25, 26, - 1, 27, 28, 29, 30, 31]"

definition base32_digit :: "u8 list" where
  "base32_digit = replicate 48 (- 1) @ [0, 1, 2, 3, 4, 5, 6, 7, 8, 9] @ replicate 7 (- 1) @ base32_letters @
     replicate 6 (- 1) @ base32_letters @ replicate 133 (- 1)"

text \<open>
  \<^verbatim>\<open>digit\<close> is indexed with a \<^verbatim>\<open>char\<close>, so a byte above 127 is a negative index.  \<^verbatim>\<open>sum\<close> is the test for
  characters outside the alphabet, written the way the code has it.
\<close>

definition Base32Decode5Bytes :: "u8 list \<Rightarrow> stream_error + bool \<times> u8 list" where
  "Base32Decode5Bytes psz =
     (if length psz < 8 \<or> list_ex (\<lambda>c. c \<ge> 0x80) (take 8 psz) then Inl OutOfBounds
      else let idx = map (\<lambda>c. base32_digit ! unat c) (take 8 psz);
               sum = fold (\<lambda>i s. s AND (scast i :: i32)) idx 0
           in Inr (\<not> (signed_drop_bit 7 sum \<noteq> 0), base32_join idx))"

primrec base32_decode_loop :: "nat \<Rightarrow> u8 list \<Rightarrow> stream_error + u8 list option" where
  "base32_decode_loop 0 s = Inr (Some [])"
| "base32_decode_loop (Suc n) s =
     (case Base32Decode5Bytes (take 8 s) of
        Inl e \<Rightarrow> Inl e
      | Inr (ok, md5) \<Rightarrow>
          if \<not> ok then Inr None
          else (case base32_decode_loop n (drop 8 s) of
                  Inr (Some data) \<Rightarrow> Inr (Some (md5 @ data))
                | r \<Rightarrow> r))"

definition Base32Decode :: "u8 list \<Rightarrow> stream_error + u8 list option" where
  "Base32Decode strBase32 =
     (if length strBase32 \<noteq> 56 then Inr None
      else case base32_decode_loop 7 strBase32 of
             Inr (Some data) \<Rightarrow> if crc24q data \<noteq> 0 then Inr None else Inr (Some (take 32 data))
           | r \<Rightarrow> r)"

lemma u8_eqI:
  assumes "bit a 0 = bit b 0" "bit a 1 = bit b 1" "bit a 2 = bit b 2" "bit a 3 = bit b 3"
    "bit a 4 = bit b 4" "bit a 5 = bit b 5" "bit a 6 = bit b 6" "bit a 7 = bit (b :: u8) 7"
  shows "a = b"
proof (rule bit_word_eqI)
  fix n
  assume "n < LENGTH(8)"
  then have "n \<in> {0, 1, 2, 3, 4, 5, 6, 7}" by auto
  with assms show "bit a n = bit b n" by auto
qed

lemma base32_alphabet_ascii: "list_all (\<lambda>c. c < 0x80) base32_alphabet"
  by (simp add: base32_alphabet_def string_bytes_def)

lemma base32_alphabet_digits: "map (\<lambda>c. base32_digit ! unat c) base32_alphabet = map of_nat [0..<32]"
  by (simp add: base32_alphabet_def base32_digit_def base32_letters_def string_bytes_def nth_append nth_Cons' upt_rec)

lemma length_base32_alphabet: "length base32_alphabet = 32"
  by (simp add: base32_alphabet_def string_bytes_def)

lemma base32_digit_alphabet:
  assumes "unat (i :: u8) < 32"
  shows "base32_alphabet ! unat i < 0x80" "base32_digit ! unat (base32_alphabet ! unat i) = i"
proof -
  show "base32_alphabet ! unat i < 0x80"
    using assms base32_alphabet_ascii by (simp add: list_all_length length_base32_alphabet)
  have "map (\<lambda>c. base32_digit ! unat c) base32_alphabet ! unat i = map of_nat [0..<32] ! unat i"
    by (simp only: base32_alphabet_digits)
  then show "base32_digit ! unat (base32_alphabet ! unat i) = i"
    using assms by (simp add: length_base32_alphabet)
qed

lemma base32_index_bound: "(i :: u8) AND 0x1F = i \<Longrightarrow> unat i < 32"
proof -
  assume i: "i AND 0x1F = i"
  have "(0x1F :: u8) = mask 5" by (simp add: mask_eq_exp_minus_1)
  then have "take_bit 5 i = i" using i by (simp add: take_bit_eq_mask)
  then have "unat i < 2 ^ 5" by (metis take_bit_nat_less_exp unsigned_take_bit_eq)
  then show ?thesis by simp
qed

lemma base32_split_bound: "i \<in> set (base32_split md5) \<Longrightarrow> unat i < 32"
  by (cases md5 rule: base32_split.cases)
    (auto intro!: base32_index_bound simp: bit.conj_disj_distrib2 and.assoc simp del: push_bit_Suc)

lemma base32_join_split: "length md5 = 5 \<Longrightarrow> base32_join (base32_split md5) = md5"
proof (cases md5 rule: base32_split.cases)
  case (1 m0 m1 m2 m3 m4)
  show ?thesis unfolding 1 base32_split.simps base32_join.simps list.inject
    by (intro conjI refl; rule u8_eqI; simp add: bit_simps numeral_2_eq_2 [symmetric] del: push_bit_Suc)
qed simp_all

lemma length_base32_split: "length md5 = 5 \<Longrightarrow> length (base32_split md5) = 8"
  by (cases md5 rule: base32_split.cases) simp_all

lemma length_Base32Encode5Bytes: "length md5 = 5 \<Longrightarrow> length (Base32Encode5Bytes md5) = 8"
  by (simp add: Base32Encode5Bytes_def length_base32_split)

lemma base32_sum_zero: "fold (\<lambda>i s. s AND (scast i :: i32)) idx 0 = 0"
  by (induction idx) simp_all

lemma base32_decode_group:
  "length psz = 8 \<Longrightarrow> list_all (\<lambda>c. c < 0x80) psz \<Longrightarrow>
   Base32Decode5Bytes psz = Inr (True, base32_join (map (\<lambda>c. base32_digit ! unat c) psz))"
  by (auto simp: Base32Decode5Bytes_def base32_sum_zero list_all_iff list_ex_iff not_le)

lemma base32_group_round_trip: "length md5 = 5 \<Longrightarrow> Base32Decode5Bytes (Base32Encode5Bytes md5) = Inr (True, md5)"
proof -
  assume len: "length md5 = 5"
  have "list_all (\<lambda>c. c < 0x80) (Base32Encode5Bytes md5)"
    "map (\<lambda>c. base32_digit ! unat c) (Base32Encode5Bytes md5) = base32_split md5"
    using base32_split_bound base32_digit_alphabet by (auto simp: Base32Encode5Bytes_def list_all_iff intro: map_idI)
  then show ?thesis using len by (simp add: base32_decode_group length_Base32Encode5Bytes base32_join_split)
qed

lemma base32_loop_round_trip:
  "list_all (\<lambda>g. length g = 5) gs \<Longrightarrow>
   base32_decode_loop (length gs) (concat (map Base32Encode5Bytes gs)) = Inr (Some (concat gs))"
  by (induction gs) (simp_all add: length_Base32Encode5Bytes base32_group_round_trip)

lemma Base32_round_trip_aux:
  assumes "length md32 = 32"
  shows "Base32Decode (Base32Encode md32) = Inr (Some md32)" "length (Base32Encode md32) = 56"
proof -
  let ?c = "crc24q md32"
  let ?tail = "[ucast (drop_bit 16 ?c), ucast (drop_bit 8 ?c), ucast ?c]"
  let ?gs = "map (\<lambda>i. take 5 (drop i md32)) [0, 5, 10, 15, 20, 25] @ [[md32 ! 30, md32 ! 31] @ ?tail]"
  have enc: "Base32Encode md32 = concat (map Base32Encode5Bytes ?gs)"
    using assms by (simp add: Base32Encode_def Let_def)
  have gs: "list_all (\<lambda>g. length g = 5) ?gs" using assms by simp
  have "length (concat (map Base32Encode5Bytes gs)) = 8 * length gs" if "list_all (\<lambda>g. length g = 5) gs" for gs
    using that by (induction gs) (simp_all add: length_Base32Encode5Bytes)
  from this [OF gs] show len: "length (Base32Encode md32) = 56" unfolding enc by simp
  have "drop 30 md32 = [md32 ! 30, md32 ! 31]"
    using Cons_nth_drop_Suc [of 30 md32] Cons_nth_drop_Suc [of 31 md32] assms by simp
  moreover have "concat (map (\<lambda>i. take 5 (drop i md32)) [0, 5, 10, 15, 20, 25]) = take 30 md32"
    using take_add [of 5 5 md32] take_add [of 10 5 md32] take_add [of 15 5 md32] take_add [of 20 5 md32]
      take_add [of 25 5 md32] by simp
  ultimately have "concat ?gs = (take 30 md32 @ drop 30 md32) @ ?tail"
    by (simp only: concat_append append_assoc) simp
  then have "concat ?gs = md32 @ ?tail" by (simp only: append_take_drop_id)
  moreover have "length ?gs = 7" by simp
  ultimately have "base32_decode_loop 7 (Base32Encode md32) = Inr (Some (md32 @ ?tail))"
    using base32_loop_round_trip [OF gs] unfolding enc by (simp only:)
  then show "Base32Decode (Base32Encode md32) = Inr (Some md32)"
    using len assms crc24q_append_crc [of md32] by (simp add: Base32Decode_def)
qed

lemma base32_join_mask: "base32_join (map (\<lambda>i. i AND 0x1F) idx) = base32_join idx"
proof (cases idx rule: base32_join.cases)
  case (1 i0 i1 i2 i3 i4 i5 i6 i7)
  show ?thesis unfolding 1 list.map base32_join.simps list.inject
    by (intro conjI refl; rule u8_eqI; simp add: bit_simps numeral_2_eq_2 [symmetric] del: push_bit_Suc)
qed simp_all

text \<open>The decoder with every character it does not know replaced by \<open>z\<close>.\<close>

definition base32_as_z :: "u8 \<Rightarrow> u8" where
  "base32_as_z c = (if base32_digit ! unat c = - 1 then 122 else c)"

lemma base32_as_z_digit: "base32_digit ! unat (base32_as_z c) AND 0x1F = base32_digit ! unat c AND 0x1F"
proof -
  have "base32_digit ! 122 = 31" by (simp add: base32_digit_def base32_letters_def nth_append nth_Cons')
  then show ?thesis by (simp add: base32_as_z_def)
qed

lemma base32_decode_group_as_z:
  assumes "length psz = 8" "list_all (\<lambda>c. c < 0x80) psz"
  shows "Base32Decode5Bytes (map base32_as_z psz) = Base32Decode5Bytes psz"
proof -
  let ?d = "\<lambda>c. base32_digit ! unat c"
  have "list_all (\<lambda>c. c < 0x80) (map base32_as_z psz)"
    using assms(2) by (auto simp: list_all_iff base32_as_z_def)
  moreover have "base32_join (map ?d (map base32_as_z psz)) = base32_join (map ?d psz)"
    using base32_join_mask [of "map ?d (map base32_as_z psz)"] base32_join_mask [of "map ?d psz"]
    by (simp add: comp_def base32_as_z_digit)
  ultimately show ?thesis using assms by (simp add: base32_decode_group)
qed

lemma base32_loop_as_z:
  "length str = 8 * n \<Longrightarrow> list_all (\<lambda>c. c < 0x80) str \<Longrightarrow>
   base32_decode_loop n (map base32_as_z str) = base32_decode_loop n str"
proof (induction n arbitrary: str)
  case (Suc n)
  have "list_all (\<lambda>c. c < 0x80) (take 8 str)" "list_all (\<lambda>c. c < 0x80) (drop 8 str)"
    using Suc.prems(2) by (auto simp: list_all_iff dest: in_set_takeD in_set_dropD)
  with Suc.IH [of "drop 8 str"] Suc.prems show ?case
    by (simp add: take_map drop_map base32_decode_group_as_z split: sum.split)
qed simp

text \<open>
  The decoder never rejects a character: \<^verbatim>\<open>sum\<close> starts at zero and is only masked, so every ASCII
  character outside the alphabet decodes like \<open>z\<close>, and a string in which such a character replaces a
  \<open>z\<close> is decoded to the same result.
\<close>

theorem Base32_accepts_invalid_characters:
  assumes "length str = 56" "list_all (\<lambda>c. c < 0x80) str"
  shows "Base32Decode str = Base32Decode (map base32_as_z str) \<and> Base32Decode5Bytes psz \<noteq> Inr (False, md5)"
  using assms base32_loop_as_z [of str 7] by (auto simp: Base32Decode_def Base32Decode5Bytes_def base32_sum_zero Let_def)

theorem Base32_accepts_invalid_characters_witness:
  "Base32Decode (replicate 56 (of_nat (of_char (CHR ''u'')))) = Base32Decode (replicate 56 (of_nat (of_char (CHR ''z''))))"
proof -
  have "base32_as_z 117 = 122" by (simp add: base32_as_z_def base32_digit_def base32_letters_def nth_append nth_Cons')
  then show ?thesis
    using Base32_accepts_invalid_characters [of "replicate 56 117"] by (simp add: list_all_iff)
qed

section \<open>Addresses\<close>

definition ADDRESS_LEN :: nat where "ADDRESS_LEN = 57"

text \<open>The object is passed in and returned, with the boolean result.\<close>

definition address_ParseString :: "u8 list \<Rightarrow> CDestination \<Rightarrow> stream_error + bool \<times> CDestination" where
  "address_ParseString strAddress d =
     (if length strAddress \<noteq> ADDRESS_LEN \<or> scast (strAddress ! 0) <s (48 :: i32)
         \<or> \<not> (scast (strAddress ! 0) <s (48 + ucast PREFIX_MAX :: i32)) then Inr (False, d)
      else case Base32Decode (drop 1 strAddress) of
             Inl e \<Rightarrow> Inl e
           | Inr None \<Rightarrow> Inr (False, d)
           | Inr (Some md32) \<Rightarrow> Inr (True, CDestination (strAddress ! 0 - 48) (le_word md32)))"

definition address_ToString :: "CDestination \<Rightarrow> u8 list" where
  "address_ToString d = (48 + dest_prefix d) # Base32Encode (le_bytes 32 (dest_data d))"

text \<open>
  An address survives its text form: parsing what \<^verbatim>\<open>CAddress::ToString\<close> writes for a destination with
  a known prefix succeeds and gives the same destination, whatever the object held before.
\<close>

theorem address_round_trip:
  assumes "dest_prefix d \<in> {PREFIX_NULL, PREFIX_PUBKEY, PREFIX_TEMPLATE}"
  shows "address_ParseString (address_ToString d) d0 = Inr (True, d)"
proof -
  have "length (le_bytes 32 (dest_data d)) = 32" by simp
  note base = Base32_round_trip_aux [OF this]
  have "dest_prefix d \<in> {0, 1, 2}" using assms by (simp add: PREFIX_NULL_def PREFIX_PUBKEY_def PREFIX_TEMPLATE_def)
  then show ?thesis
    using base by (cases d) (auto simp: address_ParseString_def address_ToString_def ADDRESS_LEN_def PREFIX_MAX_def)
qed

theorem address_round_trip_witness:
  "address_ParseString (address_ToString (dest_SetPubKey 12345)) dest_null = Inr (True, dest_SetPubKey 12345)"
  by (rule address_round_trip) (simp add: dest_SetPubKey_def)

section \<open>Hexadecimal text\<close>

definition hexc :: "u8 list" where
  "hexc = string_bytes ''0123456789abcdef''"

definition hex_pair :: "u8 \<Rightarrow> u8 list" where
  "hex_pair c = [hexc ! unat (drop_bit 4 c), hexc ! unat (c AND 15)]"

text \<open>The text is assembled in a buffer for 64 bytes at a time.\<close>

function ToHexString :: "u8 list \<Rightarrow> u8 list" where
  "ToHexString bs = (if bs = [] then [] else concat (map hex_pair (take 64 bs)) @ ToHexString (drop 64 bs))"
  by auto
termination by (relation "measure length") (auto simp: neq_Nil_conv)

declare ToHexString.simps [simp del]

definition UIntToHexString :: "nat \<Rightarrow> 'a::len word \<Rightarrow> u8 list" where
  "UIntToHexString n t = concat (map (\<lambda>i. hex_pair (ucast (drop_bit ((n - i - 1) * 8) t AND 0xFF))) [0..<n])"

definition CharToHex :: "u8 \<Rightarrow> i32" where
  "CharToHex c = (if 48 \<le> c \<and> c \<le> 57 then ucast c - 48
     else if 97 \<le> c \<and> c \<le> 102 then ucast c - 97 + 10
     else if 65 \<le> c \<and> c \<le> 70 then ucast c - 65 + 10 else - 1)"

text \<open>
  The loop reads two characters at a time up to the terminating zero; a single last character is
  followed by that zero, which is no digit.
\<close>

fun ParseHexString :: "u8 list \<Rightarrow> u8 list" where
  "ParseHexString (c # d # psz) =
     (if c = 0 \<or> CharToHex c <s 0 \<or> CharToHex d <s 0 then []
      else ucast (push_bit 4 (CharToHex c) OR CharToHex d) # ParseHexString psz)"
| "ParseHexString _ = []"

fun ParseHexString_n :: "u8 list \<Rightarrow> nat \<Rightarrow> u8 list" where
  "ParseHexString_n (c # d # psz) (Suc n) =
     (if c = 0 \<or> CharToHex c <s 0 \<or> CharToHex d <s 0 then []
      else ucast (push_bit 4 (CharToHex c) OR CharToHex d) # ParseHexString_n psz n)"
| "ParseHexString_n _ _ = []"

definition dest_ParseString :: "u8 list \<Rightarrow> CDestination \<Rightarrow> bool \<times> CDestination" where
  "dest_ParseString str d =
     (if length str \<noteq> 33 * 2 - 1 \<or> scast (str ! 0) <s (48 :: i32) \<or> \<not> (scast (str ! 0) <s (48 + ucast PREFIX_MAX :: i32))
      then (False, d)
      else let bs = ParseHexString_n (drop 1 str) 32
           in (length bs = 32, CDestination (str ! 0 - 48) (le_word (bs @ drop (length bs) (le_bytes 32 (dest_data d))))))"

definition dest_ToString :: "CDestination \<Rightarrow> u8 list" where
  "dest_ToString d = (48 + dest_prefix d) # ToHexString (le_bytes 32 (dest_data d))"

text \<open>\<^verbatim>\<open>SetPubKey\<close> and \<^verbatim>\<open>SetTemplateId\<close> from a string: a destination text first, plain hexadecimal otherwise.\<close>

definition dest_SetHexData :: "u8 \<Rightarrow> (CDestination \<Rightarrow> bool) \<Rightarrow> u8 list \<Rightarrow> CDestination \<Rightarrow> bool \<times> CDestination" where
  "dest_SetHexData pre is_kind str d =
     (case dest_ParseString str d of
        (True, d') \<Rightarrow> if dest_IsNull d' \<or> \<not> is_kind d' then (False, d') else (True, d')
      | (False, d') \<Rightarrow>
          let (pn, used) = uint_SetHex 8 (map (\<lambda>c. char_of (unat c)) str);
              d'' = CDestination (dest_prefix d') (u256_of_limbs pn)
          in if used \<noteq> length str then (False, d'') else (True, CDestination pre (dest_data d'')))"

definition dest_SetPubKey_str :: "u8 list \<Rightarrow> CDestination \<Rightarrow> bool \<times> CDestination" where
  "dest_SetPubKey_str = dest_SetHexData PREFIX_PUBKEY dest_IsPubKey"

definition dest_SetTemplateId_str :: "u8 list \<Rightarrow> CDestination \<Rightarrow> bool \<times> CDestination" where
  "dest_SetTemplateId_str = dest_SetHexData PREFIX_TEMPLATE dest_IsTemplate"

lemma ToHexString_concat: "ToHexString bs = concat (map hex_pair bs)"
proof (induction bs rule: ToHexString.induct)
  case (1 bs)
  have "concat (map hex_pair bs) = concat (map hex_pair (take 64 bs)) @ concat (map hex_pair (drop 64 bs))"
    by (metis append_take_drop_id concat_append map_append)
  with 1 show ?case by (subst ToHexString.simps) auto
qed

lemma hexc_digits: "map CharToHex hexc = map of_nat [0..<16]" "0 \<notin> set hexc" "length hexc = 16"
  by (simp_all add: hexc_def string_bytes_def CharToHex_def upt_rec)

lemma CharToHex_hexc: "k < 16 \<Longrightarrow> CharToHex (hexc ! k) = of_nat k \<and> hexc ! k \<noteq> 0"
proof -
  assume k: "k < 16"
  have "map CharToHex hexc ! k = map of_nat [0..<16] ! k" by (simp only: hexc_digits)
  moreover have "hexc ! k \<noteq> 0" using k hexc_digits(2,3) nth_mem [of k hexc] by metis
  ultimately show ?thesis using k by (simp add: hexc_digits(3))
qed

lemma hex_pair_parse:
  "\<exists>c d. hex_pair b = [c, d] \<and> c \<noteq> 0 \<and> \<not> CharToHex c <s 0 \<and> \<not> CharToHex d <s 0
     \<and> ucast (push_bit 4 (CharToHex c) OR CharToHex d) = b"
proof -
  have m: "(15 :: u8) = mask 4" by (simp add: mask_eq_exp_minus_1)
  have k: "unat (drop_bit 4 b) < 2 ^ 4" "unat (b AND 15) < 2 ^ 4"
  proof -
    have "unat (drop_bit 4 b) = drop_bit 4 (unat b)"
      by (rule bit_eqI) (auto simp: bit_simps dest: bit_imp_le_length)
    moreover have "unat b < 256" using unsigned_less [of b] by simp
    ultimately show "unat (drop_bit 4 b) < 2 ^ 4" by (simp add: drop_bit_eq_div)
    show "unat (b AND 15) < 2 ^ 4"
      unfolding m by (simp only: take_bit_eq_mask [symmetric] unsigned_take_bit_eq take_bit_nat_less_exp)
  qed
  have nn: "\<not> (of_nat n :: i32) <s 0" if "n < 16" for n
    using that by (simp add: word_sless_alt signed_of_nat bit_iff_odd)
  have hi: "(of_nat (unat (drop_bit 4 b)) :: i32) = ucast (drop_bit 4 b)" "(of_nat (unat (b AND 15)) :: i32) = ucast (b AND 15)"
    by (rule of_nat_unat_ucast)+
  have "ucast (push_bit 4 (ucast (drop_bit 4 b) :: i32) OR ucast (b AND 15)) = b"
    by (rule bit_word_eqI) (auto simp: m bit_simps)
  then show ?thesis
    using CharToHex_hexc [of "unat (drop_bit 4 b)"] CharToHex_hexc [of "unat (b AND 15)"] k
      nn [of "unat (drop_bit 4 b)"] nn [of "unat (b AND 15)"]
    by (simp add: hex_pair_def hi)
qed

lemma ParseHexString_hex_pair:
  "ParseHexString (hex_pair b @ s) = b # ParseHexString s"
  "ParseHexString_n (hex_pair b @ s) (Suc n) = b # ParseHexString_n s n"
  using hex_pair_parse [of b] by auto

lemma ParseHexString_ToHexString:
  "ParseHexString (ToHexString bs) = bs" "ParseHexString_n (ToHexString bs) (length bs) = bs"
  unfolding ToHexString_concat by (induction bs) (simp_all add: ParseHexString_hex_pair)

lemma length_ToHexString: "length (ToHexString bs) = 2 * length bs"
  unfolding ToHexString_concat by (induction bs) (simp_all add: hex_pair_def)

text \<open>
  A destination survives its hexadecimal text, and the text of a public key or template destination
  is accepted by \<^verbatim>\<open>SetPubKey\<close> or \<^verbatim>\<open>SetTemplateId\<close> of its own kind and refused by the other one.
\<close>

theorem destination_text_round_trip:
  assumes "dest_prefix d \<in> {PREFIX_NULL, PREFIX_PUBKEY, PREFIX_TEMPLATE}"
  shows "dest_ParseString (dest_ToString d) d0 = (True, d)
    \<and> dest_SetPubKey_str (dest_ToString d) d0 = (dest_IsPubKey d, d)
    \<and> dest_SetTemplateId_str (dest_ToString d) d0 = (dest_IsTemplate d, d)"
proof -
  have "dest_prefix d \<in> {0, 1, 2}" using assms by (simp add: PREFIX_NULL_def PREFIX_PUBKEY_def PREFIX_TEMPLATE_def)
  then have "dest_ParseString (dest_ToString d) d0 = (True, d)"
    using ParseHexString_ToHexString(2) [of "le_bytes 32 (dest_data d)"]
    by (cases d) (auto simp: dest_ParseString_def dest_ToString_def length_ToHexString PREFIX_MAX_def)
  then show ?thesis
    by (simp add: dest_SetPubKey_str_def dest_SetTemplateId_str_def dest_SetHexData_def)
      (auto simp: dest_IsNull_def dest_IsPubKey_def dest_IsTemplate_def PREFIX_NULL_def PREFIX_PUBKEY_def PREFIX_TEMPLATE_def)
qed

theorem destination_text_round_trip_witness:
  "dest_SetPubKey_str (dest_ToString (dest_SetPubKey 12345)) dest_null = (True, dest_SetPubKey 12345)"
  using destination_text_round_trip [of "dest_SetPubKey 12345" dest_null]
  by (simp add: dest_SetPubKey_def dest_IsPubKey_def)

end
