(* ===== verification/Ordered_Map.thy ===== *)
theory Ordered_Map
  imports Main
begin

text \<open>
  The associative containers of the storage code: a \<^verbatim>\<open>std::map\<close> is the list of its
  entries in ascending key order, \<^verbatim>\<open>m[k] = v\<close> is \<open>std_assign\<close> and \<^verbatim>\<open>m.erase(k)\<close> is
  \<open>std_erase\<close>.  The lemmas read such a list as a map from keys to values.
\<close>

fun std_assign :: "'k::linorder \<Rightarrow> 'v \<Rightarrow> ('k \<times> 'v) list \<Rightarrow> ('k \<times> 'v) list" where
  "std_assign k v [] = [(k, v)]"
| "std_assign k v ((k', v') # m) =
     (if k < k' then (k, v) # (k', v') # m
      else if k = k' then (k, v) # m
      else (k', v') # std_assign k v m)"

definition std_erase :: "'k \<Rightarrow> ('k \<times> 'v) list \<Rightarrow> ('k \<times> 'v) list" where
  "std_erase k m = filter (\<lambda>e. fst e \<noteq> k) m"

text \<open>A method call on \<^verbatim>\<open>m[k]\<close>, which first creates a default value where the key is new.\<close>

definition std_modify :: "'k::linorder \<Rightarrow> 'v \<Rightarrow> ('v \<Rightarrow> 'v) \<Rightarrow> ('k \<times> 'v) list \<Rightarrow> ('k \<times> 'v) list" where
  "std_modify k v0 f m = std_assign k (f (case map_of m k of Some v \<Rightarrow> v | None \<Rightarrow> v0)) m"

abbreviation std_sorted :: "('k::linorder \<times> 'v) list \<Rightarrow> bool" where
  "std_sorted m \<equiv> sorted_wrt (<) (map fst m)"

lemma map_of_std_assign [simp]: "map_of (std_assign k v m) = (map_of m)(k \<mapsto> v)"
  by (induction k v m rule: std_assign.induct) (auto simp: fun_eq_iff)

lemma std_assign_subset: "set (std_assign k v m) \<subseteq> insert (k, v) (set m)"
  by (induction k v m rule: std_assign.induct) auto

lemma std_assign_keys: "fst ` set (std_assign k v m) = insert k (fst ` set m)"
  by (induction k v m rule: std_assign.induct) auto

lemma std_assign_sorted [simp, intro]: "std_sorted m \<Longrightarrow> std_sorted (std_assign k v m)"
proof (induction k v m rule: std_assign.induct)
  case (2 k v k' v' m)
  then show ?case using std_assign_keys [of k v m] by (auto simp: image_iff)
qed simp

lemma map_of_std_erase [simp]: "map_of (std_erase k m) = (map_of m)(k := None)"
  unfolding std_erase_def by (induction m) (auto simp: fun_eq_iff)

lemma std_erase_subset: "set (std_erase k m) \<subseteq> set m"
  by (auto simp: std_erase_def)

lemma std_erase_sorted [simp, intro]: "std_sorted m \<Longrightarrow> std_sorted (std_erase k m)"
  unfolding std_erase_def by (induction m) auto

lemma std_sorted_distinct: "std_sorted m \<Longrightarrow> distinct (map fst m)"
  by (induction m) auto

lemma in_set_std_sorted: "std_sorted m \<Longrightarrow> (k, v) \<in> set m \<longleftrightarrow> map_of m k = Some v"
  using map_of_is_SomeI [OF std_sorted_distinct] map_of_SomeD by metis

text \<open>Two ascending lists with the same entries are the same list.\<close>

lemma std_sorted_ext: "std_sorted m \<Longrightarrow> std_sorted m' \<Longrightarrow> map_of m = map_of m' \<Longrightarrow> m = m'"
proof (induction m arbitrary: m')
  case Nil
  then show ?case by (metis map_of_eq_empty_iff)
next
  case (Cons e m)
  obtain k v where e: "e = (k, v)" by fastforce
  show ?case
  proof (cases m')
    case Nil
    with Cons.prems(3) show ?thesis by (metis map_of_eq_empty_iff)
  next
    case (Cons e' m'')
    obtain k' v' where e': "e' = (k', v')" by fastforce
    have lt: "\<forall>x\<in>set (map fst m). k < x" "\<forall>x\<in>set (map fst m''). k' < x" using Cons.prems Cons e e' by auto
    have "map_of (e' # m'') k = Some v" "map_of (e # m) k' = Some v'" using Cons.prems(3) Cons e e' by (metis map_of_Cons_code(2))+
    then have k: "k = k'" "v = v'"
      using lt e e' by (auto split: if_splits dest!: map_of_SomeD simp: image_iff) (metis less_asym' fst_conv)+
    have "map_of m x = map_of m'' x" for x
    proof (cases "x = k")
      case True
      then show ?thesis using lt k by (metis less_irrefl map_of_eq_None_iff image_set)
    qed (use Cons.prems(3) Cons e e' k in \<open>auto simp: fun_eq_iff split: if_splits\<close>)
    then have "m = m''" using Cons.IH [of m''] Cons.prems Cons by auto
    then show ?thesis using Cons e e' k by simp
  qed
qed

lemma std_assign_same: "std_sorted m \<Longrightarrow> map_of m k = Some v \<Longrightarrow> std_assign k v m = m"
  by (rule std_sorted_ext) auto

lemma std_modify_sorted [simp]: "std_sorted m \<Longrightarrow> std_sorted (std_modify k v0 f m)"
  by (simp add: std_modify_def)

lemma map_of_map_snd: "map_of (map (\<lambda>(k, v). (k, g v)) m) k = map_option g (map_of m k)"
  by (induction m) auto

lemma map_of_filter_snd: "distinct (map fst m) \<Longrightarrow>
    map_of (filter (\<lambda>(k, v). P v) m) k = (case map_of m k of None \<Rightarrow> None | Some v \<Rightarrow> if P v then Some v else None)"
  by (induction m) (auto simp: map_of_eq_None_iff split: option.splits)

lemma std_filter_sorted: "std_sorted m \<Longrightarrow> std_sorted (filter P m)"
  by (induction m) auto

end
