(* ===== verification/Reward_Payout.thy ===== *)
theory Reward_Payout
  imports Chain_Reward Address_Text Ordered_Map
begin

text \<open>
  How the pledge rewards of a period are paid: the transactions of the following blocks, their number per
  block and the cache of the lists (\<^verbatim>\<open>GetDistributePledgeRewardTxList\<close> in
  \<^verbatim>\<open>src/src/minemon/blockchain.cpp\<close>, \<^verbatim>\<open>CalcSingleBlockDistributePledgeRewardTxCount\<close> in
  \<^verbatim>\<open>src/src/minemon/core.cpp\<close>).
\<close>

section \<open>Reward transactions\<close>

text \<open>The address that only serves to measure the size of the template data.\<close>

definition addrSpent :: "stream_error + CDestination" where
  "addrSpent = map_sum id snd (address_ParseString (string_bytes ''15taqqmde43g4ndtddxwe0ajvgxcrpfjp5brs5qyp3ypmj539ffthjq4j'') dest_null)"

definition proof_template_data :: "digest \<Rightarrow> stream_error + u8 list option" where
  "proof_template_data blake2b =
     map_sum id (\<lambda>d. map_option tpl_vchData (CreateTemplatePtr_obj blake2b (TProof \<lparr> tp_destSpent = d, tp_nPledgeFee = 0 \<rparr>))) addrSpent"

definition CalcSingleBlockDistributePledgeRewardTxCount :: "digest \<Rightarrow> stream_error + u32" where
  "CalcSingleBlockDistributePledgeRewardTxCount blake2b =
     (case proof_template_data blake2b of
        Inl e \<Rightarrow> Inl e
      | Inr None \<Rightarrow> Inr 0
      | Inr (Some vch) \<Rightarrow>
          let block = block_SetNull\<lparr> blk_txMint := (blk_txMint block_SetNull)\<lparr> tx_vchSig := vch, tx_vchData := ods_push 8 (0 :: i64) \<rparr>,
                blk_vchProof := replicate PROOFHASHWORK_SIZE 0 \<rparr>;
              nMaxTxSize = MAX_BLOCK_SIZE - size_CBlock_ser block;
              txDistributePledge = tx_SetNull\<lparr> tx_vchData := dest_ToDataStream dest_null \<rparr>;
              nDistributeTxCount = of_nat (nMaxTxSize div size_CTransaction_ser txDistributePledge) :: u32
          in Inr (if nDistributeTxCount > 100 then nDistributeTxCount - 100 else nDistributeTxCount))"

text \<open>The transaction that pays the reward of one address.\<close>

definition pledge_reward_tx :: "digest \<Rightarrow> pledge_store \<Rightarrow> CDestination \<times> i64 \<Rightarrow> stream_error + CTransaction option" where
  "pledge_reward_tx blake2b s = (\<lambda>(d, nReward).
     let tx = \<lambda>sendTo. tx_SetNull\<lparr> tx_nType := TX_STAKE, tx_nTimeStamp := 0, tx_sendTo := sendTo, tx_nAmount := nReward,
           tx_vchData := dest_ToDataStream d \<rparr> in
     if \<not> dest_IsTemplate d then Inr None
     else if templateid_GetType (dest_GetTemplateId d) = TEMPLATE_MINTPLEDGE then
       map_sum id (map_option (\<lambda>obj. tx (if mp_nRewardMode obj = 1 then d else mp_destOwner obj))) (GetPledgeTemplateParam blake2b s d)
     else if templateid_GetType (dest_GetTemplateId d) = TEMPLATE_PROOF then Inr (Some (tx d))
     else Inr None)"

text \<open>
  The lists of reward transactions of the blocks of the next period, filled one transaction after the
  other.  They are filled in place, so that what was filled before a failure stays.
\<close>

fun fill_rewards :: "digest \<Rightarrow> pledge_store \<Rightarrow> nat \<Rightarrow> nat \<Rightarrow> (CDestination \<times> i64) list \<Rightarrow> CTransaction list list
    \<Rightarrow> (stream_error + bool) \<times> CTransaction list list" where
  "fill_rewards blake2b s nSingleBlockTxCount nAddTxCount [] vRewardList = (Inr True, vRewardList)"
| "fill_rewards blake2b s nSingleBlockTxCount nAddTxCount (kv # m) vRewardList =
     (case pledge_reward_tx blake2b s kv of
        Inl e \<Rightarrow> (Inl e, vRewardList)
      | Inr None \<Rightarrow> (Inr False, vRewardList)
      | Inr (Some tx) \<Rightarrow>
          let i = nAddTxCount div nSingleBlockTxCount in
          if i < length vRewardList
            then fill_rewards blake2b s nSingleBlockTxCount (nAddTxCount + 1) m (vRewardList[i := vRewardList ! i @ [tx]])
          else (Inl OutOfBounds, vRewardList))"

type_synonym reward_cache = "(uint256 \<times> CTransaction list list) list"

text \<open>
  The cache is cut down to 16 entries from its least key on, but the entry that is about to be used
  stays.  \<open>pre\<close> are the entries before the iterator.
\<close>

fun cache_trim :: "uint256 \<Rightarrow> reward_cache \<Rightarrow> reward_cache \<Rightarrow> reward_cache" where
  "cache_trim hashCalcEndBlock pre [] = pre"
| "cache_trim hashCalcEndBlock pre ((h, v) # rest) =
     (if length pre + length ((h, v) # rest) > 16 then
        if h \<noteq> hashCalcEndBlock then cache_trim hashCalcEndBlock pre rest
        else cache_trim hashCalcEndBlock (pre @ [(h, v)]) rest
      else pre @ (h, v) # rest)"

text \<open>The remainder operator has the sign of its first operand.\<close>

definition cmod :: "int \<Rightarrow> int \<Rightarrow> int" where
  "cmod a b = a - cdiv a b * b"

text \<open>
  The last block at a multiple of the period, going back from a block.  The inner option of the result
  is the null pointer; the loop has no result where the links run in a circle.
\<close>

partial_function (option) period_end :: "index_store \<Rightarrow> int \<Rightarrow> CBlockIndex \<Rightarrow> CBlockIndex option option" where
  "period_end st nDistributeHeight pIndex =
     (if cmod (index_GetBlockHeight pIndex) nDistributeHeight > 0 then
        (case bi_pPrev pIndex of
           None \<Rightarrow> Some None
         | Some p \<Rightarrow> (case st p of None \<Rightarrow> None | Some pPrev \<Rightarrow> period_end st nDistributeHeight pPrev))
      else Some (Some pIndex))"

definition calc_rewards :: "digest \<Rightarrow> bool \<Rightarrow> pledge_store \<Rightarrow> uint256 \<Rightarrow> (stream_error + bool) \<times> CTransaction list list" where
  "calc_rewards blake2b testnet s hashCalcEndBlock =
     (case CalcDistributePledgeReward blake2b testnet s hashCalcEndBlock of
        Inl e \<Rightarrow> (Inl e, [])
      | Inr None \<Rightarrow> (Inr False, [])
      | Inr (Some mapPledgeReward) \<Rightarrow>
          if mapPledgeReward = [] then (Inr True, [])
          else (case CalcSingleBlockDistributePledgeRewardTxCount blake2b of
              Inl e \<Rightarrow> (Inl e, [])
            | Inr nSingleBlockTxCount \<Rightarrow>
                if nSingleBlockTxCount = 0 then (Inr False, [])
                else
                  let n = length mapPledgeReward; c = unat nSingleBlockTxCount;
                      nAddBlockCount = of_nat (n div c + (if n mod c > 0 then 1 else 0)) :: u32 in
                  fill_rewards blake2b s c 0 mapPledgeReward (replicate (unat nAddBlockCount) [])))"

definition reward_list_at :: "bool \<Rightarrow> uint256 \<Rightarrow> u32 \<Rightarrow> CTransaction list \<Rightarrow> CTransaction list list \<Rightarrow> CTransaction list" where
  "reward_list_at testnet hashPrevBlock nPrevBlockTime vPledgeRewardTxList vRewardList =
     (let nTxListIndex = unat (GetBlockHeightByHash hashPrevBlock mod BPX_PLEDGE_REWARD_DISTRIBUTE_HEIGHT testnet) in
      if nTxListIndex < length vRewardList
        then map (\<lambda>tx. tx\<lparr> tx_nTimeStamp := nPrevBlockTime + 1 \<rparr>) (vRewardList ! nTxListIndex)
      else vPledgeRewardTxList)"

definition GetDistributePledgeRewardTxList :: "digest \<Rightarrow> bool \<Rightarrow> pledge_store \<Rightarrow> reward_cache \<Rightarrow> uint256 \<Rightarrow> u32 \<Rightarrow> CTransaction list
    \<Rightarrow> ((stream_error + CTransaction list option) \<times> reward_cache) option" where
  "GetDistributePledgeRewardTxList blake2b testnet s cache hashPrevBlock nPrevBlockTime vPledgeRewardTxList =
     (let nDistributeHeight = BPX_PLEDGE_REWARD_DISTRIBUTE_HEIGHT testnet in
      if GetBlockHeightByHash hashPrevBlock < nDistributeHeight then Some (Inr (Some vPledgeRewardTxList), cache)
      else case ps_index s hashPrevBlock of
        None \<Rightarrow> Some (Inr None, cache)
      | Some pIndex \<Rightarrow> (case period_end (ps_index s) (uint nDistributeHeight) pIndex of
          None \<Rightarrow> None
        | Some None \<Rightarrow> Some (Inr None, cache)
        | Some (Some pEnd) \<Rightarrow>
            let hashCalcEndBlock = bi_phashBlock pEnd;
                cache' = cache_trim hashCalcEndBlock [] cache in
            Some (case map_of cache' hashCalcEndBlock of
                Some vRewardList \<Rightarrow>
                  (Inr (Some (reward_list_at testnet hashPrevBlock nPrevBlockTime vPledgeRewardTxList vRewardList)), cache')
              | None \<Rightarrow>
                  (case calc_rewards blake2b testnet s hashCalcEndBlock of (r, vRewardList) \<Rightarrow>
                     (map_sum id (\<lambda>ok. if ok
                          then Some (reward_list_at testnet hashPrevBlock nPrevBlockTime vPledgeRewardTxList vRewardList)
                          else None) r,
                      std_assign hashCalcEndBlock vRewardList cache')))))"

section \<open>How many reward transactions fit in a block\<close>

lemma addrSpent_val: "addrSpent = Inr (dest_SetPubKey 111034695322192369303983619915912859027254457066677184572250088148552317113646)"
  unfolding addrSpent_def by code_simp

lemma proof_template_data_val: "\<exists>vch. proof_template_data blake2b = Inr (Some vch) \<and> length vch = 37"
proof -
  have "proof_ValidateParam \<lparr> tp_destSpent = dest_SetPubKey 111034695322192369303983619915912859027254457066677184572250088148552317113646, tp_nPledgeFee = 0 \<rparr>"
    by (simp add: proof_ValidateParam_def IsTxSpendable_def)
  then show ?thesis
    by (simp add: proof_template_data_def addrSpent_val CreateTemplatePtr_obj_def template_build_def proof_BuildTemplateData_def
        dest_ToDataStream_def ods_push_def Let_def)
qed

lemma reward_tx_count: "CalcSingleBlockDistributePledgeRewardTxCount blake2b = Inr 20507"
proof -
  obtain vch where v: "proof_template_data blake2b = Inr (Some vch)" "length vch = 37" using proof_template_data_val by blast
  have tx: "size_CTransaction_ser (tx_SetNull\<lparr> tx_vchData := dest_ToDataStream dest_null \<rparr>) = 97"
    by (simp add: size_CTransaction_ser_def tx_SetNull_def size_basic_def size_vector_def size_varint_def
        size_CDestination_ser_def size_bytes_def size_CTxIn_ser_def size_CTxOutPoint_ser_def dest_ToDataStream_def ods_push_def)
  have b: "size_CBlock_ser (block_SetNull\<lparr> blk_txMint := (blk_txMint block_SetNull)\<lparr> tx_vchSig := vch, tx_vchData := ods_push 8 (0 :: i64) \<rparr>,
      blk_vchProof := replicate PROOFHASHWORK_SIZE 0 \<rparr>) = 1049"
    by (simp add: size_CBlock_ser_def block_SetNull_def v size_CTransaction_ser_def tx_SetNull_def size_basic_def size_vector_def size_varint_def
        size_CDestination_ser_def size_bytes_def ods_push_def PROOFHASHWORK_SIZE_def)
  show ?thesis
    by (simp add: CalcSingleBlockDistributePledgeRewardTxCount_def v tx b MAX_BLOCK_SIZE_def)
qed

section \<open>The lists of reward transactions\<close>

lemma chunk_append:
  assumes "0 < c" "i < N"
  shows "take c (drop (c * i) (xs @ [x])) =
    (if i = length xs div c then take c (drop (c * i) xs) @ [x] else take c (drop (c * i) xs))"
proof -
  let ?k = "length xs div c"
  have k: "c * ?k \<le> length xs" "length xs < c * ?k + c" using assms(1) dividend_less_times_div [of c "length xs"] by (simp_all add: add.commute)
  consider "i < ?k" | "i = ?k" | "?k < i" by linarith
  then show ?thesis
  proof cases
    case 1
    then have "c * i + c \<le> c * ?k" using mult_le_mono2 [of "Suc i" ?k c] by simp
    then have "c * i + c \<le> length xs" using k(1) by linarith
    with 1 show ?thesis by simp
  next
    case 2
    with k show ?thesis by simp
  next
    case 3
    then have "c * ?k + c \<le> c * i" using mult_le_mono2 [of "Suc ?k" i c] by simp
    then have "length xs < c * i" using k(2) by linarith
    with 3 show ?thesis by simp
  qed
qed

definition chunks :: "nat \<Rightarrow> nat \<Rightarrow> 'a list \<Rightarrow> 'a list list" where
  "chunks c N xs = map (\<lambda>i. take c (drop (c * i) xs)) [0..<N]"

lemma chunks_push:
  assumes "0 < c" "length xs div c < N"
  shows "(chunks c N xs)[length xs div c := chunks c N xs ! (length xs div c) @ [x]] = chunks c N (xs @ [x])"
  using assms chunk_append [OF assms(1), of _ N xs x] by (auto simp: chunks_def intro!: nth_equalityI simp: nth_list_update)

lemma concat_chunks: "0 < c \<Longrightarrow> concat (chunks c N xs) = take (c * N) xs"
proof (induction N)
  case (Suc N)
  then show ?case by (simp add: chunks_def take_add [symmetric] add.commute)
qed (simp add: chunks_def)

lemma fill_rewards_chunks:
  "fill_rewards blake2b s c (length xs) m (chunks c N xs) = (Inr True, L) \<Longrightarrow> 0 < c \<Longrightarrow> length xs \<le> c * N \<Longrightarrow>
   \<exists>txs. list_all2 (\<lambda>kv tx. pledge_reward_tx blake2b s kv = Inr (Some tx)) m txs \<and> L = chunks c N (xs @ txs) \<and> length (xs @ txs) \<le> c * N"
proof (induction m arbitrary: xs)
  case (Cons kv m)
  obtain tx where tx: "pledge_reward_tx blake2b s kv = Inr (Some tx)" "length xs div c < N"
      "fill_rewards blake2b s c (length (xs @ [tx])) m (chunks c N (xs @ [tx])) = (Inr True, L)"
    using Cons.prems chunks_push [OF Cons.prems(2), of xs N]
    by (auto simp: Let_def chunks_def split: sum.splits option.splits if_splits)
  have "length xs < c * N" using tx(2) Cons.prems(2) by (simp add: div_less_iff_less_mult mult.commute)
  with Cons.IH [OF tx(3) Cons.prems(2)] obtain txs where
    "list_all2 (\<lambda>kv tx. pledge_reward_tx blake2b s kv = Inr (Some tx)) m txs" "L = chunks c N ((xs @ [tx]) @ txs)"
    "length ((xs @ [tx]) @ txs) \<le> c * N" by auto
  then show ?case using tx(1) by (intro exI [of _ "tx # txs"]) simp
qed simp

text \<open>
  Who receives the reward credited to an address: a miner's address receives its own; for a pledge
  address the stored template decides, by its reward mode, between the address itself, which adds the
  reward to the pledge, and its owner.
\<close>

definition reward_payee :: "digest \<Rightarrow> pledge_store \<Rightarrow> CDestination \<Rightarrow> CDestination \<Rightarrow> bool" where
  "reward_payee blake2b s d payee \<longleftrightarrow>
     is_template_of d TEMPLATE_PROOF \<and> payee = d
   \<or> (\<exists>p. is_template_of d TEMPLATE_MINTPLEDGE \<and> GetPledgeTemplateParam blake2b s d = Inr (Some p)
        \<and> payee = (if mp_nRewardMode p = 1 then d else mp_destOwner p))"

text \<open>
  A transaction that pays the amount credited to an address: it creates the coins, goes to the payee, and
  names the credited address in its data.
\<close>

definition pays_reward :: "digest \<Rightarrow> pledge_store \<Rightarrow> CDestination \<times> i64 \<Rightarrow> CTransaction \<Rightarrow> bool" where
  "pays_reward blake2b s kv tx \<longleftrightarrow> reward_payee blake2b s (fst kv) (tx_sendTo tx) \<and> tx_nAmount tx = snd kv \<and> tx_nTxFee tx = 0
     \<and> tx_nType tx = TX_STAKE \<and> tx_vInput tx = [] \<and> tx_vchSig tx = [] \<and> dest_FromDataStream (tx_vchData tx) = Inr (fst kv, [])"

lemma pledge_reward_tx_pays:
  assumes "pledge_reward_tx blake2b s (d, n) = Inr (Some tx)"
  shows "pays_reward blake2b s (d, n) tx"
proof -
  have t: "TEMPLATE_MINTPLEDGE \<noteq> TEMPLATE_PROOF" by (simp add: template_types)
  show ?thesis using assms t
    by (cases "GetPledgeTemplateParam blake2b s d")
      (auto simp: pledge_reward_tx_def pays_reward_def reward_payee_def is_template_of_def Let_def tx_SetNull_def dest_stream_all
        map_option_case split: if_splits option.splits)
qed

lemma pays_reward_stamp [simp]: "pays_reward blake2b s kv (tx\<lparr> tx_nTimeStamp := t \<rparr>) = pays_reward blake2b s kv tx"
  by (simp add: pays_reward_def)

text \<open>The keys of the reward map are those of a \<^verbatim>\<open>std::map\<close>.\<close>

lemma distribute_loop_sorted:
  "sorted_wrt (<) (map fst m) \<Longrightarrow> sorted_wrt (<) (map fst (fst (distribute_loop share ps m t)))"
  by (induction share ps m t rule: distribute_loop.induct) (simp_all add: std_add_sorted)

lemma CalcBlockPledgeReward_sorted:
  assumes "CalcBlockPledgeReward blake2b s pIndex m = Inr (Some m')" "sorted_wrt (<) (map fst m)"
  shows "sorted_wrt (<) (map fst m')"
proof -
  have r: "sorted_wrt (<) (map fst (distribute_rest d r (distribute_loop share ps m t)))" for d r share ps t
    using distribute_loop_sorted [OF assms(2), of share ps t]
    by (cases "distribute_loop share ps m t") (simp add: distribute_rest_def std_add_sorted)
  show ?thesis using assms r
    by (auto simp: CalcBlockPledgeReward_def split: option.splits sum.splits if_splits prod.splits)
qed

lemma calc_distribute_loop_sorted:
  "calc_distribute_loop blake2b s n pIndex m = Inr (Some m') \<Longrightarrow> sorted_wrt (<) (map fst m) \<Longrightarrow> sorted_wrt (<) (map fst m')"
  by (induction n arbitrary: pIndex m)
    (auto split: option.splits sum.splits if_splits dest: CalcBlockPledgeReward_sorted)

lemma distribution_distinct:
  "CalcDistributePledgeReward blake2b testnet s h = Inr (Some m) \<Longrightarrow> distinct (map fst m)"
  using calc_distribute_loop_sorted [of blake2b s _ _ "[]" m]
  by (auto simp: CalcDistributePledgeReward_def Let_def strict_sorted_iff split: option.splits if_splits)

lemma calc_rewards_lists:
  assumes "calc_rewards blake2b testnet s hashEnd = (Inr True, L)"
  shows "\<exists>m txs c. CalcDistributePledgeReward blake2b testnet s hashEnd = Inr (Some m) \<and> concat L = txs \<and> L = chunks c (length L) txs
    \<and> list_all2 (\<lambda>kv tx. pledge_reward_tx blake2b s kv = Inr (Some tx)) m txs"
proof -
  obtain m where m: "CalcDistributePledgeReward blake2b testnet s hashEnd = Inr (Some m)"
    using assms by (auto simp: calc_rewards_def split: sum.splits option.splits)
  show ?thesis
  proof (cases "m = []")
    case True
    then show ?thesis using assms m by (auto simp: calc_rewards_def chunks_def)
  next
    case False
    obtain w where w: "CalcSingleBlockDistributePledgeRewardTxCount blake2b = Inr w" "w \<noteq> 0"
      using assms m False by (auto simp: calc_rewards_def split: sum.splits if_splits)
    define c where "c = unat w"
    define N where "N = unat (of_nat (length m div c + (if length m mod c > 0 then 1 else 0)) :: u32)"
    have c: "0 < c" "fill_rewards blake2b s c 0 m (replicate N []) = (Inr True, L)"
      using assms m False w by (simp_all add: calc_rewards_def Let_def c_def N_def unat_gt_0)
    have "replicate N [] = chunks c N ([] :: CTransaction list)" by (simp add: chunks_def map_replicate_const)
    then have "fill_rewards blake2b s c (length ([] :: CTransaction list)) m (chunks c N []) = (Inr True, L)" using c(2) by simp
    from fill_rewards_chunks [OF this c(1)] obtain txs where txs:
      "list_all2 (\<lambda>kv tx. pledge_reward_tx blake2b s kv = Inr (Some tx)) m txs" "L = chunks c N txs" "length txs \<le> c * N" by auto
    have "length L = N" using txs(2) by (simp add: chunks_def)
    moreover have "concat L = txs" using txs(2,3) concat_chunks [OF c(1), of N txs] by simp
    ultimately show ?thesis using m txs by blast
  qed
qed

lemma reward_lists_cover:
  assumes "\<And>i. i < n \<Longrightarrow> unat (GetBlockHeightByHash (hash i) mod BPX_PLEDGE_REWARD_DISTRIBUTE_HEIGHT testnet) = i" "length L \<le> n"
    and f: "\<And>tx t. f (tx\<lparr> tx_nTimeStamp := t \<rparr>) = f tx"
  shows "map f (concat (map (\<lambda>i. reward_list_at testnet (hash i) (t i) [] L) [0..<n])) = map f (concat L)"
proof -
  have split: "[0..<n] = [0..<length L] @ [length L..<n]" using assms(2) upt_add_eq_append [of 0 "length L" "n - length L"] by simp
  have one: "map f (reward_list_at testnet (hash i) (t i) [] L) = (if i < length L then map f (L ! i) else [])" if "i < n" for i
    using assms(1) [OF that] f by (simp add: reward_list_at_def Let_def comp_def)
  have "map f (concat (map (\<lambda>i. reward_list_at testnet (hash i) (t i) [] L) [0..<n]))
      = concat (map (\<lambda>i. map f (reward_list_at testnet (hash i) (t i) [] L)) [0..<n])"
    by (simp only: map_concat map_map comp_def)
  also have "map (\<lambda>i. map f (reward_list_at testnet (hash i) (t i) [] L)) [0..<n]
      = map (\<lambda>i. if i < length L then map f (L ! i) else []) [0..<n]"
    using one by (intro map_cong) simp_all
  also have "concat (map (\<lambda>i. if i < length L then map f (L ! i) else []) [0..<n])
      = concat (map (\<lambda>i. map f (L ! i)) [0..<length L])"
  proof -
    have eq: "map (\<lambda>i. if i < length L then map f (L ! i) else []) [0..<length L] = map (\<lambda>i. map f (L ! i)) [0..<length L]"
      "map (\<lambda>i. if i < length L then map f (L ! i) else []) [length L..<n] = map (\<lambda>i. []) [length L..<n]"
      by (intro map_cong; simp)+
    show ?thesis unfolding split map_append concat_append eq by simp
  qed
  also have "map (\<lambda>i. map f (L ! i)) [0..<length L] = map (map f) L" by (intro nth_equalityI) simp_all
  also have "concat (map (map f) L) = map f (concat L)" by (simp only: map_concat)
  finally show ?thesis .
qed

text \<open>
  C17: every reward of a period is paid exactly once in the blocks of the next one, and to the right
  address.  The transactions in the lists that the blocks get, in the order of the blocks, correspond one
  to one to the entries of the reward map: the transaction of an entry creates the credited amount
  without a fee, pays it to the credited address or, where the template of a pledge address says so, to
  its owner, and names the credited address in its data; no address is credited twice, and each
  transaction is stamped one second after the block before it.  The lists are computed by
  \<^verbatim>\<open>calc_rewards\<close>, and there are not more of them than blocks in a period.
\<close>

theorem period_rewards_paid_once:
  assumes "calc_rewards blake2b testnet s hashEnd = (Inr True, L)"
    and "length L \<le> unat (BPX_PLEDGE_REWARD_DISTRIBUTE_HEIGHT testnet)"
    and "\<And>i. i < unat (BPX_PLEDGE_REWARD_DISTRIBUTE_HEIGHT testnet) \<Longrightarrow>
      unat (GetBlockHeightByHash (hash i) mod BPX_PLEDGE_REWARD_DISTRIBUTE_HEIGHT testnet) = i"
  shows "\<exists>m. CalcDistributePledgeReward blake2b testnet s hashEnd = Inr (Some m) \<and> distinct (map fst m)
    \<and> list_all2 (pays_reward blake2b s) m (concat (map (\<lambda>i. reward_list_at testnet (hash i) (t i) [] L)
        [0..<unat (BPX_PLEDGE_REWARD_DISTRIBUTE_HEIGHT testnet)]))
    \<and> (\<forall>i. \<forall>tx\<in>set (reward_list_at testnet (hash i) (t i) [] L). tx_nTimeStamp tx = t i + 1)"
proof -
  let ?f = "\<lambda>tx. tx\<lparr> tx_nTimeStamp := 0 \<rparr>"
  let ?T = "concat (map (\<lambda>i. reward_list_at testnet (hash i) (t i) [] L) [0..<unat (BPX_PLEDGE_REWARD_DISTRIBUTE_HEIGHT testnet)])"
  obtain m txs where m: "CalcDistributePledgeReward blake2b testnet s hashEnd = Inr (Some m)" "concat L = txs"
      "list_all2 (\<lambda>kv tx. pledge_reward_tx blake2b s kv = Inr (Some tx)) m txs"
    using calc_rewards_lists [OF assms(1)] by blast
  have f: "list_all2 (pays_reward blake2b s) m (map ?f xs) = list_all2 (pays_reward blake2b s) m xs" for xs
    by (simp add: list_all2_map2)
  have "list_all2 (pays_reward blake2b s) m txs"
    using m(3) by (rule list_all2_mono) (auto intro: pledge_reward_tx_pays)
  moreover have "map ?f ?T = map ?f txs"
    unfolding m(2) [symmetric] by (rule reward_lists_cover [OF assms(3,2)]) simp_all
  ultimately have "list_all2 (pays_reward blake2b s) m ?T" using f [of txs] f [of ?T] by simp
  moreover have "\<forall>i. \<forall>tx\<in>set (reward_list_at testnet (hash i) (t i) [] L). tx_nTimeStamp tx = t i + 1"
    by (auto simp: reward_list_at_def Let_def)
  ultimately show ?thesis using m(1) distribution_distinct by blast
qed

section \<open>The cache of reward lists\<close>

lemma cache_trim_keeps: "map_of (cache_trim h pre rest) h = map_of (pre @ rest) h"
  by (induction h pre rest rule: cache_trim.induct) (auto simp: map_add_def split: option.splits)

text \<open>
  A failed distribution is not tried again.  The entry of the cache is made before the rewards are
  computed and stays when that fails, so that the next call for the same period succeeds with whatever
  had been filled in; where the computation of the rewards itself fails, that is nothing at all.
\<close>

theorem failed_distribution_then_succeeds:
  assumes "BPX_PLEDGE_REWARD_DISTRIBUTE_HEIGHT testnet \<le> GetBlockHeightByHash hash" "ps_index s hash = Some pIndex"
    and "period_end (ps_index s) (uint (BPX_PLEDGE_REWARD_DISTRIBUTE_HEIGHT testnet)) pIndex = Some (Some pEnd)"
    and "map_of cache (bi_phashBlock pEnd) = None" "calc_rewards blake2b testnet s (bi_phashBlock pEnd) = (Inr False, L)"
  shows "\<exists>cache' cache''. GetDistributePledgeRewardTxList blake2b testnet s cache hash t v = Some (Inr None, cache')
    \<and> GetDistributePledgeRewardTxList blake2b testnet s cache' hash t v = Some (Inr (Some (reward_list_at testnet hash t v L)), cache'')
    \<and> (CalcDistributePledgeReward blake2b testnet s (bi_phashBlock pEnd) = Inr None \<longrightarrow> reward_list_at testnet hash t v L = v)"
proof -
  let ?e = "bi_phashBlock pEnd"
  let ?c = "std_assign ?e L (cache_trim ?e [] cache)"
  have none: "map_of (cache_trim ?e [] cache) ?e = None" using assms(4) by (simp add: cache_trim_keeps)
  have first: "GetDistributePledgeRewardTxList blake2b testnet s cache hash t v = Some (Inr None, ?c)"
    using assms none by (simp add: GetDistributePledgeRewardTxList_def Let_def not_less [symmetric])
  have "map_of (cache_trim ?e [] ?c) ?e = Some L" by (simp add: cache_trim_keeps map_of_std_assign)
  then have "GetDistributePledgeRewardTxList blake2b testnet s ?c hash t v
      = Some (Inr (Some (reward_list_at testnet hash t v L)), cache_trim ?e [] ?c)"
    using assms by (simp add: GetDistributePledgeRewardTxList_def Let_def not_less [symmetric])
  moreover have "L = []" if "CalcDistributePledgeReward blake2b testnet s ?e = Inr None"
    using assms(5) that by (simp add: calc_rewards_def)
  ultimately show ?thesis using first by (auto simp: reward_list_at_def)
qed

section \<open>Finding the end of the period\<close>

text \<open>Every entry of the index but those of height 0 has a predecessor, one lower.\<close>

definition index_linked :: "index_store \<Rightarrow> bool" where
  "index_linked st = (\<forall>h i. st h = Some i \<longrightarrow> bi_phashBlock i = h \<and> 0 \<le> index_GetBlockHeight i \<and>
     (index_GetBlockHeight i > 0 \<longrightarrow> (\<exists>p j. bi_pPrev i = Some p \<and> st p = Some j \<and> index_GetBlockHeight j + 1 = index_GetBlockHeight i)))"

lemma cmod_nonneg: "0 \<le> a \<Longrightarrow> 0 < b \<Longrightarrow> cmod a b = a mod b"
  by (simp add: cmod_def minus_div_mult_eq_mod)

text \<open>
  On a linked index the search for the end of the period returns, and what it returns is the entry
  at the last multiple of the period that is not above the given one.
\<close>

theorem period_end_found:
  assumes "index_linked st" "st h = Some i" "0 < n"
  shows "\<exists>e. period_end st n i = Some (Some e) \<and> st (bi_phashBlock e) = Some e
    \<and> index_GetBlockHeight e = index_GetBlockHeight i - index_GetBlockHeight i mod n"
  using assms(2)
proof (induction "nat (index_GetBlockHeight i mod n)" arbitrary: h i)
  case 0
  have "0 \<le> index_GetBlockHeight i" "bi_phashBlock i = h" using assms(1) 0 by (auto simp: index_linked_def)
  moreover have "index_GetBlockHeight i mod n \<le> 0" using 0 by simp
  moreover have "0 \<le> index_GetBlockHeight i mod n" using assms(3) by simp
  ultimately show ?case using 0 assms(3) by (subst period_end.simps) (simp add: cmod_nonneg)
next
  case (Suc k)
  let ?a = "index_GetBlockHeight i"
  have a: "0 \<le> ?a" "?a mod n = int k + 1" using assms(1) Suc by (auto simp: index_linked_def)
  then have "0 < ?a" by (metis add_pos_nonneg mod_0 of_nat_0_le_iff order_le_less zero_less_one add.commute less_irrefl)
  then obtain p j where p: "bi_pPrev i = Some p" "st p = Some j" "index_GetBlockHeight j + 1 = ?a"
    using assms(1) Suc.prems unfolding index_linked_def by blast
  have "?a = ?a div n * n + (int k + 1)" using a(2) div_mult_mod_eq [of ?a n] by simp
  then have "index_GetBlockHeight j = ?a div n * n + int k" using p(3) by simp
  moreover have "int k < n" using a(2) assms(3) pos_mod_bound [of n ?a] by simp
  ultimately have j: "index_GetBlockHeight j mod n = int k" by simp
  obtain e where "period_end st n j = Some (Some e)" "st (bi_phashBlock e) = Some e"
      "index_GetBlockHeight e = index_GetBlockHeight j - index_GetBlockHeight j mod n"
    using Suc.hyps(1) [of j p] j p(2) by auto
  then show ?case using a p j assms(3) by (subst period_end.simps) (simp add: cmod_nonneg)
qed

section \<open>The cache changes no answer\<close>

definition cache_ok :: "digest \<Rightarrow> bool \<Rightarrow> pledge_store \<Rightarrow> reward_cache \<Rightarrow> bool" where
  "cache_ok blake2b testnet s cache = (\<forall>(h, L) \<in> set cache. calc_rewards blake2b testnet s h = (Inr True, L))"

lemma cache_trim_subset: "set (cache_trim h pre rest) \<subseteq> set (pre @ rest)"
  by (induction h pre rest rule: cache_trim.induct) auto

lemma map_sum_ok_iff: "map_sum id (\<lambda>ok. if ok then Some x else None) r = Inr (Some y) \<longleftrightarrow> r = Inr True \<and> y = x"
  by (cases r) auto

text \<open>
  C18: as long as every computation of reward lists succeeds, the cache is invisible: a call answers the
  same with the cache as with an empty one, and leaves a cache with the same property.
\<close>

theorem reward_cache_transparent:
  assumes "cache_ok blake2b testnet s cache"
    and "GetDistributePledgeRewardTxList blake2b testnet s cache hash t v = Some (Inr (Some txs), cache')"
  shows "\<exists>cache''. GetDistributePledgeRewardTxList blake2b testnet s [] hash t v = Some (Inr (Some txs), cache'')
    \<and> cache_ok blake2b testnet s cache'"
proof -
  have trim: "cache_ok blake2b testnet s (cache_trim h [] cache)" for h
    using assms(1) cache_trim_subset [of h "[]" cache] by (fastforce simp: cache_ok_def)
  have assign: "cache_ok blake2b testnet s (std_assign h L (cache_trim h [] cache))" if "calc_rewards blake2b testnet s h = (Inr True, L)" for h L
    using trim [of h] std_assign_subset [of h L "cache_trim h [] cache"] that by (fastforce simp: cache_ok_def)
  have found: "calc_rewards blake2b testnet s h = (Inr True, L)" if "map_of (cache_trim h [] cache) h = Some L" for h L
    using trim [of h] map_of_SomeD [OF that] by (fastforce simp: cache_ok_def)
  show ?thesis
    using assms trim
    by (auto simp: GetDistributePledgeRewardTxList_def Let_def map_sum_ok_iff split: if_splits option.splits prod.splits
        dest!: found intro: assign)
qed

section \<open>Paying the rewards of the small chain\<close>

definition example_payout :: "CTransaction list list" where
  "example_payout = [[
     tx_SetNull\<lparr> tx_nType := TX_STAKE, tx_sendTo := example_mint, tx_nAmount := 61800, tx_vchData := dest_ToDataStream example_mint \<rparr>,
     tx_SetNull\<lparr> tx_nType := TX_STAKE, tx_sendTo := dest_SetPubKey 5, tx_nAmount := 1174200, tx_vchData := dest_ToDataStream example_pledger \<rparr>]]"

lemma example_calc_rewards: "calc_rewards (\<lambda>_. 0) True example_store (example_hash 5) = (Inr True, example_payout)"
proof -
  have "pledge_reward_tx (\<lambda>_. 0) example_store (example_mint, 61800) = Inr (Some (hd (hd example_payout)))"
    "pledge_reward_tx (\<lambda>_. 0) example_store (example_pledger, 1174200) = Inr (Some (hd (tl (hd example_payout))))"
    by (simp_all add: pledge_reward_tx_def Let_def example_dests example_templates example_payout_def example_pledge_def template_types tx_SetNull_def)
  then show ?thesis
    by (simp add: calc_rewards_def example_distribution reward_tx_count Let_def) (simp add: example_payout_def)
qed

theorem period_rewards_paid_once_witness:
  "list_all2 (pays_reward (\<lambda>_. 0) example_store) [(example_mint, 61800), (example_pledger, 1174200)]
     (concat (map (\<lambda>i. reward_list_at True (example_hash (of_nat i)) 9 [] example_payout) [0..<5]))
   \<and> tx_sendTo (concat (map (\<lambda>i. reward_list_at True (example_hash (of_nat i)) 9 [] example_payout) [0..<5]) ! 1) = dest_SetPubKey 5"
proof -
  have n: "unat (BPX_PLEDGE_REWARD_DISTRIBUTE_HEIGHT True) = 5" "BPX_PLEDGE_REWARD_DISTRIBUTE_HEIGHT True = 5"
    by (simp_all add: BPX_PLEDGE_REWARD_DISTRIBUTE_HEIGHT_def GET_PARAM_def)
  have "unat (GetBlockHeightByHash (example_hash (of_nat i)) mod BPX_PLEDGE_REWARD_DISTRIBUTE_HEIGHT True) = i"
    if "i < unat (BPX_PLEDGE_REWARD_DISTRIBUTE_HEIGHT True)" for i
    using that unfolding n by (simp add: unat_mod unat_of_nat)
  from period_rewards_paid_once [OF example_calc_rewards _ this, of "\<lambda>_. 9"]
  have l: "list_all2 (pays_reward (\<lambda>_. 0) example_store) [(example_mint, 61800), (example_pledger, 1174200)]
     (concat (map (\<lambda>i. reward_list_at True (example_hash (of_nat i)) 9 [] example_payout) [0..<5]))"
    by (simp only: n example_distribution) (simp add: example_payout_def)
  have "pays_reward (\<lambda>_. 0) example_store (example_pledger, 1174200)
      (concat (map (\<lambda>i. reward_list_at True (example_hash (of_nat i)) 9 [] example_payout) [0..<5]) ! 1)"
    using list_all2_nthD [OF l, of 1] by simp
  then show ?thesis using l
    by (auto simp: pays_reward_def reward_payee_def is_template_of_def example_dests example_templates example_pledge_def template_types)
qed

lemma example_period_end: "ps_index example_store (example_hash 5) = Some i \<Longrightarrow> period_end st 5 i = Some (Some i) \<and> bi_phashBlock i = example_hash 5"
  by (auto simp: example_store_def example_link_def block_index_def period_end.simps cmod_def cdiv_def index_GetBlockHeight_def)

definition example_unread_store :: pledge_store where
  "example_unread_store = example_store\<lparr> ps_pow_pledges := (\<lambda>_ _. None) \<rparr>"

theorem failed_distribution_then_succeeds_witness:
  "\<exists>cache' cache''. GetDistributePledgeRewardTxList (\<lambda>_. 0) True example_unread_store [] (example_hash 5) 9 [] = Some (Inr None, cache')
    \<and> GetDistributePledgeRewardTxList (\<lambda>_. 0) True example_unread_store cache' (example_hash 5) 9 [] = Some (Inr (Some []), cache'')"
proof -
  let ?i = "(example_link 5)\<lparr> bi_pPrev := Some (example_hash 0) \<rparr>"
  have n: "BPX_PLEDGE_REWARD_DISTRIBUTE_HEIGHT True = 5"
    by (simp add: BPX_PLEDGE_REWARD_DISTRIBUTE_HEIGHT_def GET_PARAM_def)
  have i: "ps_index example_unread_store (example_hash 5) = Some ?i" "ps_index example_store (example_hash 5) = Some ?i"
    by (simp_all add: example_unread_store_def example_store_def)
  note e = example_period_end [OF i(2)]
  have "CalcBlockPledgeReward (\<lambda>_. 0) example_unread_store ?i [] = Inr None"
    by (simp add: CalcBlockPledgeReward_def GetMintPledgeData_def example_unread_store_def split: option.splits)
  then have "calc_distribute_loop (\<lambda>_. 0) example_unread_store (Suc n) ?i [] = Inr None" for n by simp
  from this [of 4] have c: "CalcDistributePledgeReward (\<lambda>_. 0) True example_unread_store (example_hash 5) = Inr None"
    using i(1) by (simp add: CalcDistributePledgeReward_def n)
  then have "calc_rewards (\<lambda>_. 0) True example_unread_store (example_hash 5) = (Inr False, [])" by (simp add: calc_rewards_def)
  with failed_distribution_then_succeeds [of True "example_hash 5" example_unread_store ?i ?i "[]" "\<lambda>_. 0" "[]" 9 "[]"] i e c
  show ?thesis by (auto simp: n)
qed

theorem reward_cache_transparent_witness:
  "\<exists>cache''. GetDistributePledgeRewardTxList (\<lambda>_. 0) True example_store [] (example_hash 5) 9 []
     = Some (Inr (Some (map (\<lambda>tx. tx\<lparr> tx_nTimeStamp := 10 \<rparr>) (hd example_payout))), cache'')"
proof -
  let ?c = "[(example_hash 5, example_payout)]" and ?i = "(example_link 5)\<lparr> bi_pPrev := Some (example_hash 0) \<rparr>"
  have n: "BPX_PLEDGE_REWARD_DISTRIBUTE_HEIGHT True = 5"
    by (simp add: BPX_PLEDGE_REWARD_DISTRIBUTE_HEIGHT_def GET_PARAM_def)
  have i: "ps_index example_store (example_hash 5) = Some ?i" by (simp add: example_store_def)
  have "cache_ok (\<lambda>_. 0) True example_store ?c" by (simp add: cache_ok_def example_calc_rewards)
  moreover have "GetDistributePledgeRewardTxList (\<lambda>_. 0) True example_store ?c (example_hash 5) 9 []
      = Some (Inr (Some (map (\<lambda>tx. tx\<lparr> tx_nTimeStamp := 10 \<rparr>) (hd example_payout))), ?c)"
    using example_period_end [OF i] i
    by (simp add: GetDistributePledgeRewardTxList_def n reward_list_at_def) (simp add: example_payout_def)
  ultimately show ?thesis using reward_cache_transparent by blast
qed

theorem period_end_found_witness:
  "\<exists>e. period_end [example_hash 1 \<mapsto> example_link 1, example_hash 0 \<mapsto> example_link 0] 5 (example_link 1) = Some (Some e)
    \<and> index_GetBlockHeight e = 0"
proof -
  let ?st = "[example_hash 1 \<mapsto> example_link 1, example_hash 0 \<mapsto> example_link 0]"
  have "index_linked ?st"
    by (auto simp: index_linked_def example_link_def block_index_def index_GetBlockHeight_def)
  from period_end_found [OF this, of "example_hash 1" "example_link 1" 5] show ?thesis
    by (auto simp: example_link_def index_GetBlockHeight_def)
qed

end
