(* ===== verification/KV_Store.thy ===== *)
theory KV_Store
  imports Stream_Codec Ordered_Map "HOL-Library.List_Lexorder"
begin

text \<open>
  The key-value store under the databases of the node: \<^verbatim>\<open>CLevelDBEngine\<close>
  (\<^verbatim>\<open>storage/leveldbeng.cpp\<close>) with its pending batch and its iterator, and the typed access
  methods of \<^verbatim>\<open>CKVDB\<close> (\<^verbatim>\<open>xengine/db/kvdb.h\<close>).  The contents of the database are the pairs of
  byte strings that LevelDB keeps, in the bytewise order of the keys; whether LevelDB reports
  success for a write is an argument of the operations that write.  The locale \<open>kv_table\<close> is what a
  database with one type of keys and one type of values may rely on.
\<close>

section \<open>CLevelDBEngine\<close>

type_synonym bytes = "u8 list"

datatype batch_op = BatchPut bytes bytes | BatchDelete bytes

record CLevelDBEngine =
  eng_pdb :: "(bytes \<times> bytes) list"
  eng_pbatch :: "batch_op list option"
  eng_piter :: "(bytes \<times> bytes) list option"

definition eng_Open :: "(bytes \<times> bytes) list \<Rightarrow> CLevelDBEngine" where
  "eng_Open db = \<lparr> eng_pdb = db, eng_pbatch = None, eng_piter = None \<rparr>"

definition eng_TxnBegin :: "CLevelDBEngine \<Rightarrow> bool \<times> CLevelDBEngine" where
  "eng_TxnBegin e = (if eng_pbatch e \<noteq> None then (False, e) else (True, e\<lparr> eng_pbatch := Some [] \<rparr>))"

fun batch_apply :: "batch_op \<Rightarrow> (bytes \<times> bytes) list \<Rightarrow> (bytes \<times> bytes) list" where
  "batch_apply (BatchPut k v) db = std_assign k v db"
| "batch_apply (BatchDelete k) db = std_erase k db"

text \<open>A batch is written atomically; it is dropped whether or not the write succeeds.\<close>

definition eng_TxnCommit :: "bool \<Rightarrow> CLevelDBEngine \<Rightarrow> bool \<times> CLevelDBEngine" where
  "eng_TxnCommit status e = (case eng_pbatch e of None \<Rightarrow> (False, e)
     | Some pbatch \<Rightarrow> (status, e\<lparr> eng_pdb := (if status then fold batch_apply pbatch (eng_pdb e) else eng_pdb e),
         eng_pbatch := None \<rparr>))"

definition eng_TxnAbort :: "CLevelDBEngine \<Rightarrow> CLevelDBEngine" where
  "eng_TxnAbort e = e\<lparr> eng_pbatch := None \<rparr>"

text \<open>
  Reading looks at the database only, not at the batch.  A read finds the key or not; that the database
  fails to read (a status that is neither of the two) is not modelled, and neither is the refusal of \<^verbatim>\<open>Put\<close> that
  would follow from it.
\<close>

definition eng_Get :: "CLevelDBEngine \<Rightarrow> bytes \<Rightarrow> bytes option" where
  "eng_Get e ssKey = map_of (eng_pdb e) ssKey"

definition eng_Put :: "bool \<Rightarrow> bytes \<Rightarrow> bytes \<Rightarrow> bool \<Rightarrow> CLevelDBEngine \<Rightarrow> bool \<times> CLevelDBEngine" where
  "eng_Put status ssKey ssValue fOverwrite e =
     (if \<not> fOverwrite \<and> eng_Get e ssKey \<noteq> None then (False, e)
      else case eng_pbatch e of
        Some pbatch \<Rightarrow> (True, e\<lparr> eng_pbatch := Some (pbatch @ [BatchPut ssKey ssValue]) \<rparr>)
      | None \<Rightarrow> (status, if status then e\<lparr> eng_pdb := std_assign ssKey ssValue (eng_pdb e) \<rparr> else e))"

definition eng_Remove :: "bool \<Rightarrow> bytes \<Rightarrow> CLevelDBEngine \<Rightarrow> bool \<times> CLevelDBEngine" where
  "eng_Remove status ssKey e = (case eng_pbatch e of
        Some pbatch \<Rightarrow> (True, e\<lparr> eng_pbatch := Some (pbatch @ [BatchDelete ssKey]) \<rparr>)
      | None \<Rightarrow> (status, if status then e\<lparr> eng_pdb := std_erase ssKey (eng_pdb e) \<rparr> else e))"

text \<open>\<open>None\<close>: the database could not be destroyed or opened again, and \<^verbatim>\<open>pdb\<close> is null.\<close>

definition eng_RemoveAll :: "bool \<Rightarrow> CLevelDBEngine option" where
  "eng_RemoveAll status = (if status then Some (eng_Open []) else None)"

definition eng_MoveFirst :: "CLevelDBEngine \<Rightarrow> CLevelDBEngine" where
  "eng_MoveFirst e = e\<lparr> eng_piter := Some (eng_pdb e) \<rparr>"

definition eng_MoveTo :: "bytes \<Rightarrow> CLevelDBEngine \<Rightarrow> CLevelDBEngine" where
  "eng_MoveTo ssKey e = e\<lparr> eng_piter := Some (dropWhile (\<lambda>kv. fst kv < ssKey) (eng_pdb e)) \<rparr>"

definition eng_MoveNext :: "CLevelDBEngine \<Rightarrow> (bytes \<times> bytes) option \<times> CLevelDBEngine" where
  "eng_MoveNext e = (case eng_piter e of
       Some (kv # rest) \<Rightarrow> (Some kv, e\<lparr> eng_piter := Some rest \<rparr>)
     | _ \<Rightarrow> (None, e))"

section \<open>CKVDB\<close>

text \<open>The store is \<open>None\<close> where \<^verbatim>\<open>dbEngine\<close> is null; every method then returns false.\<close>

type_synonym CKVDB = "CLevelDBEngine option"

definition kv_lift :: "(CLevelDBEngine \<Rightarrow> bool \<times> CLevelDBEngine) \<Rightarrow> CKVDB \<Rightarrow> bool \<times> CKVDB" where
  "kv_lift f d = (case d of None \<Rightarrow> (False, None) | Some e \<Rightarrow> map_prod id Some (f e))"

definition kv_TxnBegin :: "CKVDB \<Rightarrow> bool \<times> CKVDB" where
  "kv_TxnBegin = kv_lift eng_TxnBegin"

definition kv_TxnCommit :: "bool \<Rightarrow> CKVDB \<Rightarrow> bool \<times> CKVDB" where
  "kv_TxnCommit status = kv_lift (eng_TxnCommit status)"

definition kv_TxnAbort :: "CKVDB \<Rightarrow> CKVDB" where
  "kv_TxnAbort d = map_option eng_TxnAbort d"

definition kv_RemoveAll :: "bool \<Rightarrow> CKVDB \<Rightarrow> bool \<times> CKVDB" where
  "kv_RemoveAll status d = (case d of None \<Rightarrow> (False, None) | Some _ \<Rightarrow>
     (case eng_RemoveAll status of Some e \<Rightarrow> (True, Some e) | None \<Rightarrow> (False, None)))"

text \<open>A value that cannot be deserialised raises an exception, which is logged and means false.\<close>

definition kv_Read :: "('k \<Rightarrow> bytes) \<Rightarrow> 'v reader \<Rightarrow> CKVDB \<Rightarrow> 'k \<Rightarrow> 'v option" where
  "kv_Read save_key load_value d key = (case d of None \<Rightarrow> None | Some e \<Rightarrow>
     (case eng_Get e (save_key key) of None \<Rightarrow> None | Some ssValue \<Rightarrow>
       (case load_value ssValue of Inl _ \<Rightarrow> None | Inr (v, _) \<Rightarrow> Some v)))"

definition kv_Write :: "('k \<Rightarrow> bytes) \<Rightarrow> ('v \<Rightarrow> bytes) \<Rightarrow> bool \<Rightarrow> 'k \<Rightarrow> 'v \<Rightarrow> CKVDB \<Rightarrow> bool \<times> CKVDB" where
  "kv_Write save_key save_value status key v = kv_lift (eng_Put status (save_key key) (save_value v) True)"

definition kv_WriteNew :: "('k \<Rightarrow> bytes) \<Rightarrow> ('v \<Rightarrow> bytes) \<Rightarrow> bool \<Rightarrow> 'k \<Rightarrow> 'v \<Rightarrow> CKVDB \<Rightarrow> bool \<times> CKVDB" where
  "kv_WriteNew save_key save_value status key v = kv_lift (eng_Put status (save_key key) (save_value v) False)"

definition kv_Erase :: "('k \<Rightarrow> bytes) \<Rightarrow> bool \<Rightarrow> 'k \<Rightarrow> CKVDB \<Rightarrow> bool \<times> CKVDB" where
  "kv_Erase save_key status key = kv_lift (eng_Remove status (save_key key))"

subsection \<open>Walking through the entries\<close>

text \<open>
  A walker gets a key, a value and its own state; it asks for more (\<open>Inr True\<close>), stops the walk
  (\<open>Inr False\<close>) or throws (\<open>Inl\<close>).  \<open>stop\<close> is the test on the key that ends a prefix walk.
\<close>

type_synonym 's walker = "bytes \<Rightarrow> bytes \<Rightarrow> 's \<Rightarrow> (stream_error + bool) \<times> 's"

function kv_walk_loop :: "(bytes \<Rightarrow> bool) \<Rightarrow> 's walker \<Rightarrow> CLevelDBEngine \<Rightarrow> 's \<Rightarrow> bool \<times> CLevelDBEngine \<times> 's" where
  "kv_walk_loop stop fnWalker e s = (case eng_MoveNext e of
       (None, e') \<Rightarrow> (True, e', s)
     | (Some (k, v), e') \<Rightarrow>
         if stop k then (True, e', s)
         else (case fnWalker k v s of
             (Inl _, s') \<Rightarrow> (False, e', s')
           | (Inr b, s') \<Rightarrow> if b then kv_walk_loop stop fnWalker e' s' else (True, e', s')))"
  by pat_completeness auto
termination
  by (relation "measure (\<lambda>(_, _, e, _). case eng_piter e of None \<Rightarrow> 0 | Some l \<Rightarrow> length l)")
    (auto simp: eng_MoveNext_def split: option.splits list.splits)

declare kv_walk_loop.simps [simp del]

definition kv_WalkThrough :: "'s walker \<Rightarrow> CKVDB \<Rightarrow> 's \<Rightarrow> bool \<times> CKVDB \<times> 's" where
  "kv_WalkThrough fnWalker d s = (case d of None \<Rightarrow> (False, None, s) | Some e \<Rightarrow>
     (case kv_walk_loop (\<lambda>_. False) fnWalker (eng_MoveFirst e) s of (ok, e', s') \<Rightarrow> (ok, Some e', s')))"

text \<open>\<^verbatim>\<open>memcmp\<close> on the first bytes of the key, after the test of its length.\<close>

definition key_beyond :: "bytes \<Rightarrow> bytes \<Rightarrow> bool" where
  "key_beyond ssKeyPrefix ssKey = (length ssKey < length ssKeyPrefix \<or> ssKeyPrefix < take (length ssKeyPrefix) ssKey)"

definition kv_WalkThroughFrom :: "'s walker \<Rightarrow> bytes \<Rightarrow> bool \<Rightarrow> CKVDB \<Rightarrow> 's \<Rightarrow> bool \<times> CKVDB \<times> 's" where
  "kv_WalkThroughFrom fnWalker ssKeyBegin fPrefix d s = (case d of None \<Rightarrow> (False, None, s) | Some e \<Rightarrow>
     (case kv_walk_loop (\<lambda>ssKey. fPrefix \<and> key_beyond ssKeyBegin ssKey) fnWalker (eng_MoveTo ssKeyBegin e) s of
        (ok, e', s') \<Rightarrow> (ok, Some e', s')))"

definition kv_WalkThroughOfPrefix :: "'s walker \<Rightarrow> bytes \<Rightarrow> bytes \<Rightarrow> CKVDB \<Rightarrow> 's \<Rightarrow> bool \<times> CKVDB \<times> 's" where
  "kv_WalkThroughOfPrefix fnWalker ssKeyBegin ssKeyPrefix d s = (case d of None \<Rightarrow> (False, None, s) | Some e \<Rightarrow>
     (case kv_walk_loop (key_beyond ssKeyPrefix) fnWalker (eng_MoveTo ssKeyBegin e) s of
        (ok, e', s') \<Rightarrow> (ok, Some e', s')))"

section \<open>Walks as folds over the entries\<close>

fun walk_list :: "'s walker \<Rightarrow> (bytes \<times> bytes) list \<Rightarrow> 's \<Rightarrow> bool \<times> 's" where
  "walk_list fnWalker [] s = (True, s)"
| "walk_list fnWalker ((k, v) # l) s = (case fnWalker k v s of
     (Inl _, s') \<Rightarrow> (False, s') | (Inr b, s') \<Rightarrow> if b then walk_list fnWalker l s' else (True, s'))"

lemma kv_walk_loop_list:
  "eng_piter e = Some l \<Longrightarrow> \<exists>i. kv_walk_loop stop f e s =
     (case walk_list f (takeWhile (\<lambda>kv. \<not> stop (fst kv)) l) s of (ok, s') \<Rightarrow> (ok, e\<lparr> eng_piter := Some i \<rparr>, s'))"
proof (induction l arbitrary: e s)
  case Nil
  then show ?case by (cases e, subst kv_walk_loop.simps) (auto simp: eng_MoveNext_def)
next
  case (Cons kv l)
  obtain k v where kv: "kv = (k, v)" by fastforce
  have e: "eng_MoveNext e = (Some (k, v), e\<lparr> eng_piter := Some l \<rparr>)" using Cons.prems kv by (simp add: eng_MoveNext_def)
  show ?case
  proof (cases "stop k")
    case True
    then show ?thesis by (subst kv_walk_loop.simps) (auto simp: e kv)
  next
    case False
    obtain r s' where f: "f k v s = (r, s')" by fastforce
    show ?thesis
    proof (cases r)
      case (Inl a)
      then show ?thesis using False f by (subst kv_walk_loop.simps) (auto simp: e kv)
    next
      case (Inr b)
      then show ?thesis using False f Cons.IH [of "e\<lparr> eng_piter := Some l \<rparr>" s']
        by (subst kv_walk_loop.simps) (auto simp: e kv)
    qed
  qed
qed

lemma kv_WalkThrough_list:
  "\<exists>i. kv_WalkThrough f (Some e) s = (case walk_list f (eng_pdb e) s of (ok, s') \<Rightarrow> (ok, Some (e\<lparr> eng_piter := Some i \<rparr>), s'))"
proof -
  have t: "takeWhile (\<lambda>kv. \<not> False) (eng_pdb e) = eng_pdb e" by simp
  obtain i where "kv_walk_loop (\<lambda>_. False) f (eng_MoveFirst e) s =
      (case walk_list f (eng_pdb e) s of (ok, s') \<Rightarrow> (ok, (eng_MoveFirst e)\<lparr> eng_piter := Some i \<rparr>, s'))"
    using kv_walk_loop_list [of "eng_MoveFirst e" "eng_pdb e" "\<lambda>_. False" f s] unfolding t by (auto simp: eng_MoveFirst_def)
  then show ?thesis by (cases "walk_list f (eng_pdb e) s") (auto simp: kv_WalkThrough_def eng_MoveFirst_def)
qed

subsection \<open>Prefix walks\<close>

lemma list_less_take:
  fixes p k :: "'a::linorder list"
  assumes "p \<le> k" "length p \<le> length k"
  shows "p \<le> take (length p) k"
  using assms
proof (induction p arbitrary: k)
  case (Cons a p)
  then show ?case by (cases k) auto
qed simp

lemma prefix_le:
  fixes p k :: "'a::linorder list"
  shows "prefix p k \<Longrightarrow> p \<le> k"
proof (induction p arbitrary: k)
  case (Cons a p)
  then show ?case by (cases k) auto
qed simp

text \<open>On the keys from the prefix on, the test that ends the walk is that the prefix is missing.\<close>

lemma key_beyond_iff: "p \<le> k \<Longrightarrow> key_beyond p k \<longleftrightarrow> \<not> prefix p k"
proof (cases "length p \<le> length k")
  case True
  assume "p \<le> k"
  then have "p \<le> take (length p) k" using True by (rule list_less_take)
  moreover have "prefix p k \<longleftrightarrow> take (length p) k = p" by (metis append_take_drop_id append_eq_conv_conj prefix_def)
  ultimately show ?thesis using True by (auto simp: key_beyond_def order.strict_iff_order)
qed (auto simp: key_beyond_def dest: prefix_length_le)

text \<open>Once a key lies beyond the prefix, so do all larger ones.\<close>

lemma key_beyond_mono:
  assumes "p \<le> k" "k \<le> k'" "key_beyond p k"
  shows "key_beyond p k'"
  using assms
proof (induction p arbitrary: k k')
  case Nil
  then show ?case by (simp add: key_beyond_def)
next
  case (Cons a p)
  show ?case
  proof (cases k; cases k')
    fix b l b' l' assume k: "k = b # l" "k' = b' # l'"
    have "a \<le> b" "b \<le> b'" using Cons.prems k by auto
    with Cons show ?thesis unfolding k by (auto simp: key_beyond_def) 
  qed (use Cons.prems in \<open>auto simp: key_beyond_def\<close>)
qed

lemma sorted_takeWhile:
  assumes "sorted_wrt (<) (map f xs)" "\<And>x y. x \<in> set xs \<Longrightarrow> y \<in> set xs \<Longrightarrow> f x < f y \<Longrightarrow> P y \<Longrightarrow> P x"
  shows "takeWhile P xs = filter P xs"
  using assms
proof (induction xs)
  case (Cons x xs)
  have "takeWhile P xs = filter P xs" using Cons.prems by (intro Cons.IH) (auto intro: Cons.prems(2))
  moreover have "filter P xs = []" if "\<not> P x" using Cons.prems that by (auto simp: filter_empty_conv)
  ultimately show ?case by simp
qed simp

lemma sorted_dropWhile:
  "std_sorted db \<Longrightarrow> dropWhile (\<lambda>kv. fst kv < b) db = filter (\<lambda>kv. b \<le> fst kv) db"
proof (induction db)
  case (Cons kv db)
  have "filter (\<lambda>kv. b \<le> fst kv) db = db" if "b \<le> fst kv"
    using Cons.prems that by (intro filter_True) (force dest: order.strict_implies_order intro: order.trans)
  with Cons show ?case by (cases "b \<le> fst kv") (auto simp: not_le)
qed simp

lemma prefix_range:
  assumes "std_sorted db" "p \<le> b"
  shows "takeWhile (\<lambda>kv. \<not> key_beyond p (fst kv)) (dropWhile (\<lambda>kv. fst kv < b) db)
    = filter (\<lambda>kv. b \<le> fst kv \<and> prefix p (fst kv)) db"
proof -
  have "takeWhile (\<lambda>kv. \<not> key_beyond p (fst kv)) (filter (\<lambda>kv. b \<le> fst kv) db)
      = filter (\<lambda>kv. \<not> key_beyond p (fst kv)) (filter (\<lambda>kv. b \<le> fst kv) db)"
  proof (rule sorted_takeWhile [of fst])
    show "sorted_wrt (<) (map fst (filter (\<lambda>kv. b \<le> fst kv) db))" using assms(1) by (induction db) auto
    fix x y assume "x \<in> set (filter (\<lambda>kv. b \<le> fst kv) db)" "fst x < fst y" "\<not> key_beyond p (fst y)"
    then show "\<not> key_beyond p (fst x)"
      using order.trans [OF assms(2), of "fst x"] key_beyond_mono [of p "fst x" "fst y"] by (auto dest: order.strict_implies_order)
  qed
  also have "\<dots> = filter (\<lambda>kv. b \<le> fst kv \<and> prefix p (fst kv)) db"
    using assms(2) by (auto simp: key_beyond_iff intro!: filter_cong)
  finally show ?thesis by (simp add: sorted_dropWhile [OF assms(1)])
qed

text \<open>
  A walk over a prefix is complete.  On a database in key order, the walk that starts at a key
  with the prefix calls the walker on exactly the entries from that key on whose key has the prefix,
  in key order, although the loop only looks at the first bytes of one key at a time and ends at the
  first key that is too short or too large.
\<close>

theorem prefix_walk_complete:
  assumes "std_sorted (eng_pdb e)" "prefix ssKeyPrefix ssKeyBegin"
  shows "\<exists>i. kv_WalkThroughOfPrefix f ssKeyBegin ssKeyPrefix (Some e) s =
    (case walk_list f (filter (\<lambda>kv. ssKeyBegin \<le> fst kv \<and> prefix ssKeyPrefix (fst kv)) (eng_pdb e)) s of
       (ok, s') \<Rightarrow> (ok, Some (e\<lparr> eng_piter := Some i \<rparr>), s'))"
proof -
  let ?d = "dropWhile (\<lambda>kv. fst kv < ssKeyBegin) (eng_pdb e)"
  obtain i where "kv_walk_loop (key_beyond ssKeyPrefix) f (eng_MoveTo ssKeyBegin e) s =
      (case walk_list f (takeWhile (\<lambda>kv. \<not> key_beyond ssKeyPrefix (fst kv)) ?d) s of
        (ok, s') \<Rightarrow> (ok, (eng_MoveTo ssKeyBegin e)\<lparr> eng_piter := Some i \<rparr>, s'))"
    using kv_walk_loop_list [of "eng_MoveTo ssKeyBegin e" ?d "key_beyond ssKeyPrefix" f s] by (auto simp: eng_MoveTo_def)
  then show ?thesis unfolding kv_WalkThroughOfPrefix_def prefix_range [OF assms(1) prefix_le [OF assms(2)]]
    by (auto simp: eng_MoveTo_def split: prod.splits)
qed

theorem prefix_walk_complete_witness:
  "\<exists>i. kv_WalkThroughOfPrefix (\<lambda>k v s. (Inr True, s @ [v])) [1, 2] [1]
      (Some (eng_Open [([1], [9]), ([1, 2], [8]), ([1, 3], [7]), ([2], [6])])) []
    = (True, Some ((eng_Open [([1], [9]), ([1, 2], [8]), ([1, 3], [7]), ([2], [6])])\<lparr> eng_piter := Some i \<rparr>), [[8], [7]])"
  using prefix_walk_complete [of "eng_Open [([1], [9]), ([1, 2], [8]), ([1, 3], [7]), ([2], [6])]" "[1]" "[1, 2]"
      "\<lambda>k v s. (Inr True, s @ [v])" "[]"]
  by (simp add: eng_Open_def)

section \<open>Databases of one key and one value type\<close>

text \<open>The shape of an update in a transaction, as the databases of the node write it.\<close>

definition kv_txn :: "('k \<Rightarrow> bytes) \<Rightarrow> ('v \<Rightarrow> bytes) \<Rightarrow> bool \<Rightarrow> ('k \<times> 'v) list \<Rightarrow> 'k list \<Rightarrow> CKVDB \<Rightarrow> bool \<times> CKVDB" where
  "kv_txn save_key save_value status vAddNew vRemove d =
     (case kv_TxnBegin d of (False, d') \<Rightarrow> (False, d') | (True, d') \<Rightarrow>
        kv_TxnCommit status (fold (\<lambda>k d. snd (kv_Erase save_key status k d)) vRemove
          (fold (\<lambda>(k, v) d. snd (kv_Write save_key save_value status k v d)) vAddNew d')))"

lemma fold_kv_Write:
  "eng_pbatch e = Some b \<Longrightarrow> fold (\<lambda>(k, v) d. snd (kv_Write sk sv st k v d)) adds (Some e) =
     Some (e\<lparr> eng_pbatch := Some (b @ map (\<lambda>(k, v). BatchPut (sk k) (sv v)) adds) \<rparr>)"
  by (induction adds arbitrary: e b) (auto simp: kv_Write_def kv_lift_def eng_Put_def)

lemma fold_kv_Erase:
  "eng_pbatch e = Some b \<Longrightarrow> fold (\<lambda>k d. snd (kv_Erase sk st k d)) rems (Some e) =
     Some (e\<lparr> eng_pbatch := Some (b @ map (\<lambda>k. BatchDelete (sk k)) rems) \<rparr>)"
  by (induction rems arbitrary: e b) (auto simp: kv_Erase_def kv_lift_def eng_Remove_def)

lemma kv_txn_eq:
  assumes "eng_pbatch e = None"
  shows "kv_txn sk sv st adds rems (Some e) = (st, Some (e\<lparr> eng_pdb := (if st then
     fold (\<lambda>k. std_erase (sk k)) rems (fold (\<lambda>(k, v). std_assign (sk k) (sv v)) adds (eng_pdb e)) else eng_pdb e) \<rparr>))"
proof -
  have "fold batch_apply (map (\<lambda>(k, v). BatchPut (sk k) (sv v)) adds) db = fold (\<lambda>(k, v). std_assign (sk k) (sv v)) adds db" for db
    by (induction adds arbitrary: db) auto
  moreover have "fold batch_apply (map (\<lambda>k. BatchDelete (sk k)) rems) db = fold (\<lambda>k. std_erase (sk k)) rems db" for db
    by (induction rems arbitrary: db) auto
  ultimately show ?thesis using assms
    by (cases e) (simp add: kv_txn_def kv_TxnBegin_def kv_lift_def eng_TxnBegin_def fold_kv_Write fold_kv_Erase
        kv_TxnCommit_def eng_TxnCommit_def)
qed

lemma std_insert_new: "map_of m k = None \<Longrightarrow> std_insert k v m = std_assign k v m"
  by (induction k v m rule: std_insert.induct) (auto split: if_splits)

text \<open>The entries of a well-formed table are images of keys and values, in key order.\<close>

definition table_entry :: "('k \<Rightarrow> bytes) \<Rightarrow> ('v \<Rightarrow> bytes) \<Rightarrow> 'k \<times> 'v \<Rightarrow> bytes \<times> bytes" where
  "table_entry save_key save_value kv = (save_key (fst kv), save_value (snd kv))"

definition table_wf :: "('k \<Rightarrow> bytes) \<Rightarrow> ('v \<Rightarrow> bytes) \<Rightarrow> ('k \<Rightarrow> bool) \<Rightarrow> ('v \<Rightarrow> bool) \<Rightarrow> CLevelDBEngine \<Rightarrow> bool" where
  "table_wf save_key save_value key_ok value_ok e \<longleftrightarrow> std_sorted (eng_pdb e) \<and> eng_pbatch e = None \<and>
     set (eng_pdb e) \<subseteq> table_entry save_key save_value ` {(k, v). key_ok k \<and> value_ok v}"

lemma table_wf_iter [simp]: "table_wf sk sv ko vo (e\<lparr> eng_piter := i \<rparr>) = table_wf sk sv ko vo e"
  by (simp add: table_wf_def)

lemma fold_erase_apply: "fold (\<lambda>k m. m(k := None)) rems f x = (if x \<in> set rems then None else f x)"
  by (induction rems arbitrary: f) auto

lemma list_of_image: "set ys \<subseteq> f ` A \<Longrightarrow> \<exists>xs. ys = map f xs \<and> set xs \<subseteq> A"
proof (induction ys)
  case (Cons y ys)
  then obtain x xs where "x \<in> A" "y = f x" "ys = map f xs" "set xs \<subseteq> A" by auto
  then show ?case by (intro exI [of _ "x # xs"]) simp
qed simp

locale kv_table = kcod: codec save_key load_key size_key key_ok + vcod: codec save_value load_value size_value value_ok
  for save_key :: "'k \<Rightarrow> u8 list" and load_key size_key key_ok
    and save_value :: "'v \<Rightarrow> u8 list" and load_value size_value value_ok
begin

lemma wf_assign:
  assumes "table_wf save_key save_value key_ok value_ok e" "key_ok k" "value_ok v"
  shows "table_wf save_key save_value key_ok value_ok (e\<lparr> eng_pdb := std_assign (save_key k) (save_value v) (eng_pdb e) \<rparr>)"
proof -
  have "(save_key k, save_value v) \<in> table_entry save_key save_value ` {(k, v). key_ok k \<and> value_ok v}"
    using assms by (intro image_eqI [of _ _ "(k, v)"]) (auto simp: table_entry_def)
  then show ?thesis using assms(1) std_assign_subset [of "save_key k" "save_value v" "eng_pdb e"]
    unfolding table_wf_def by (auto simp del: Collect_case_prod)
qed

lemma wf_erase:
  assumes "table_wf save_key save_value key_ok value_ok e"
  shows "table_wf save_key save_value key_ok value_ok (e\<lparr> eng_pdb := std_erase (save_key k) (eng_pdb e) \<rparr>)"
  using assms std_erase_subset [of "save_key k" "eng_pdb e"] unfolding table_wf_def by (simp add: std_erase_sorted) (blast)

lemma read_assign:
  assumes "key_ok k" "key_ok k'" "value_ok v"
  shows "kv_Read save_key load_value (Some (e\<lparr> eng_pdb := std_assign (save_key k) (save_value v) (eng_pdb e) \<rparr>)) k'
    = (if k' = k then Some v else kv_Read save_key load_value (Some e) k')"
  using assms by (auto simp: kv_Read_def eng_Get_def kcod.save_inject vcod.load_save_end)

lemma read_erase:
  assumes "key_ok k" "key_ok k'"
  shows "kv_Read save_key load_value (Some (e\<lparr> eng_pdb := std_erase (save_key k) (eng_pdb e) \<rparr>)) k'
    = (if k' = k then None else kv_Read save_key load_value (Some e) k')"
  using assms by (auto simp: kv_Read_def eng_Get_def kcod.save_inject)

lemma fold_assign:
  assumes "table_wf save_key save_value key_ok value_ok e" "\<forall>(k, v)\<in>set adds. key_ok k \<and> value_ok v"
  shows "table_wf save_key save_value key_ok value_ok
      (e\<lparr> eng_pdb := fold (\<lambda>(k, v). std_assign (save_key k) (save_value v)) adds (eng_pdb e) \<rparr>)
    \<and> (\<forall>k'. key_ok k' \<longrightarrow> kv_Read save_key load_value
        (Some (e\<lparr> eng_pdb := fold (\<lambda>(k, v). std_assign (save_key k) (save_value v)) adds (eng_pdb e) \<rparr>)) k'
      = fold (\<lambda>(k, v) m. m(k \<mapsto> v)) adds (kv_Read save_key load_value (Some e)) k')"
  using assms
proof (induction adds rule: rev_induct)
  case (snoc kv adds)
  obtain k v where kv: "kv = (k, v)" by fastforce
  let ?e = "e\<lparr> eng_pdb := fold (\<lambda>(k, v). std_assign (save_key k) (save_value v)) adds (eng_pdb e) \<rparr>"
  have "key_ok k" "value_ok v" using snoc.prems kv by auto
  moreover have "table_wf save_key save_value key_ok value_ok ?e" using snoc by auto
  ultimately have "table_wf save_key save_value key_ok value_ok (?e\<lparr> eng_pdb := std_assign (save_key k) (save_value v) (eng_pdb ?e) \<rparr>)"
    by (intro wf_assign)
  with snoc read_assign [of k _ v ?e] \<open>key_ok k\<close> \<open>value_ok v\<close> show ?case by (auto simp: kv)
qed simp

lemma fold_erase:
  assumes "table_wf save_key save_value key_ok value_ok e" "\<forall>k\<in>set rems. key_ok k"
  shows "table_wf save_key save_value key_ok value_ok (e\<lparr> eng_pdb := fold (\<lambda>k. std_erase (save_key k)) rems (eng_pdb e) \<rparr>)
    \<and> (\<forall>k'. key_ok k' \<longrightarrow> kv_Read save_key load_value
        (Some (e\<lparr> eng_pdb := fold (\<lambda>k. std_erase (save_key k)) rems (eng_pdb e) \<rparr>)) k'
      = fold (\<lambda>k m. m(k := None)) rems (kv_Read save_key load_value (Some e)) k')"
  using assms
proof (induction rems rule: rev_induct)
  case (snoc k rems)
  let ?e = "e\<lparr> eng_pdb := fold (\<lambda>k. std_erase (save_key k)) rems (eng_pdb e) \<rparr>"
  have "table_wf save_key save_value key_ok value_ok ?e" using snoc by auto
  then have "table_wf save_key save_value key_ok value_ok (?e\<lparr> eng_pdb := std_erase (save_key k) (eng_pdb ?e) \<rparr>)"
    by (rule wf_erase)
  with snoc read_erase [of k _ ?e] show ?case by auto
qed simp

text \<open>A transaction that is committed performs its writes and then its deletions; one that is not changes nothing.\<close>

lemma txn_read:
  assumes "table_wf save_key save_value key_ok value_ok e"
    and "\<forall>(k, v)\<in>set adds. key_ok k \<and> value_ok v" "\<forall>k\<in>set rems. key_ok k"
  shows "\<exists>e'. kv_txn save_key save_value st adds rems (Some e) = (st, Some e') \<and> table_wf save_key save_value key_ok value_ok e'
    \<and> (\<forall>k'. key_ok k' \<longrightarrow> kv_Read save_key load_value (Some e') k' = (if st
        then fold (\<lambda>k m. m(k := None)) rems (fold (\<lambda>(k, v) m. m(k \<mapsto> v)) adds (kv_Read save_key load_value (Some e))) k'
        else kv_Read save_key load_value (Some e) k'))"
proof (cases st)
  case True
  let ?a = "e\<lparr> eng_pdb := fold (\<lambda>(k, v). std_assign (save_key k) (save_value v)) adds (eng_pdb e) \<rparr>"
  let ?r = "?a\<lparr> eng_pdb := fold (\<lambda>k. std_erase (save_key k)) rems (eng_pdb ?a) \<rparr>"
  note a = fold_assign [OF assms(1,2)]
  note r = fold_erase [OF conjunct1 [OF a] assms(3)]
  have "kv_txn save_key save_value st adds rems (Some e) = (st, Some ?r)"
    using assms(1) True by (simp add: kv_txn_eq table_wf_def)
  moreover have "kv_Read save_key load_value (Some ?r) k' = (if st
      then fold (\<lambda>k m. m(k := None)) rems (fold (\<lambda>(k, v) m. m(k \<mapsto> v)) adds (kv_Read save_key load_value (Some e))) k'
      else kv_Read save_key load_value (Some e) k')" if "key_ok k'" for k'
    unfolding if_P [OF True] using r a that by (simp add: fold_erase_apply)
  ultimately show ?thesis using conjunct1 [OF r] by blast
next
  case False
  have "kv_txn save_key save_value st adds rems (Some e) = (st, Some e)"
    using assms(1) False by (cases e) (simp add: kv_txn_eq table_wf_def)
  then show ?thesis using assms(1) False by auto
qed

text \<open>The entries are those that reading finds, each of them once.\<close>

lemma entries:
  assumes "table_wf save_key save_value key_ok value_ok e"
  shows "\<exists>ents. eng_pdb e = map (table_entry save_key save_value) ents \<and> distinct (map fst ents)
    \<and> (\<forall>(k, v)\<in>set ents. key_ok k \<and> value_ok v)
    \<and> (\<forall>k v. key_ok k \<longrightarrow> (k, v) \<in> set ents \<longleftrightarrow> kv_Read save_key load_value (Some e) k = Some v)"
proof -
  have "set (eng_pdb e) \<subseteq> table_entry save_key save_value ` {(k, v). key_ok k \<and> value_ok v}"
    using assms by (simp add: table_wf_def)
  from list_of_image [OF this]
  obtain ents where ents: "eng_pdb e = map (table_entry save_key save_value) ents" "\<forall>(k, v)\<in>set ents. key_ok k \<and> value_ok v"
    by blast
  have s: "std_sorted (eng_pdb e)" using assms by (simp add: table_wf_def)
  then have "distinct (map fst ents)"
    unfolding ents(1) using std_sorted_distinct [OF s] ents by (auto simp: distinct_map inj_on_def table_entry_def)
  moreover have "(k, v) \<in> set ents \<longleftrightarrow> kv_Read save_key load_value (Some e) k = Some v" if "key_ok k" for k v
  proof
    assume i: "(k, v) \<in> set ents"
    then have "(save_key k, save_value v) \<in> set (eng_pdb e)" by (force simp: ents(1) table_entry_def)
    then show "kv_Read save_key load_value (Some e) k = Some v"
      using i ents(2) by (auto simp: in_set_std_sorted [OF s] kv_Read_def eng_Get_def vcod.load_save_end)
  next
    assume r: "kv_Read save_key load_value (Some e) k = Some v"
    then obtain b where b: "(save_key k, b) \<in> set (eng_pdb e)"
      by (auto simp: in_set_std_sorted [OF s] kv_Read_def eng_Get_def split: option.splits)
    then obtain k' v' where e: "(k', v') \<in> set ents" "save_key k = save_key k'" "b = save_value v'"
      by (auto simp: ents(1) table_entry_def)
    have "k' = k" using e ents(2) that kcod.save_inject by auto
    moreover have "v' = v"
      using r b e ents(2) by (auto simp: in_set_std_sorted [OF s] kv_Read_def eng_Get_def vcod.load_save_end)
    ultimately show "(k, v) \<in> set ents" using e by simp
  qed
  ultimately show ?thesis using ents by blast
qed

end

end
