(* ===== verification/Unspent_DB.thy ===== *)
theory Unspent_DB
  imports KV_Store Ledger_Tx
begin

text \<open>
  The database of unspent outputs (\<^verbatim>\<open>storage/unspentdb.h\<close>, \<^verbatim>\<open>storage/unspentdb.cpp\<close>): changes are
  collected in an upper cache, the background thread writes a lower cache to the key-value store and
  then exchanges the two.  The locale \<open>unspent_store\<close> is the contract for the users of the database:
  it is one map from output references to outputs, and flushing does not show.  A step relation gives
  the interleaving of a reader, of updates and of the flush thread under their locks.
\<close>

section \<open>The double cache\<close>

type_synonym unspent_map = "(CTxOutPoint \<times> CTxOut) list"

record CDblMap =
  dbl_mapCache0 :: unspent_map
  dbl_mapCache1 :: unspent_map
  dbl_nIdxUpper :: nat

definition dbl_init :: CDblMap where
  "dbl_init = \<lparr> dbl_mapCache0 = [], dbl_mapCache1 = [], dbl_nIdxUpper = 0 \<rparr>"

definition dbl_get :: "nat \<Rightarrow> CDblMap \<Rightarrow> unspent_map" where
  "dbl_get i c = (if i = 0 then dbl_mapCache0 c else dbl_mapCache1 c)"

definition dbl_set :: "nat \<Rightarrow> unspent_map \<Rightarrow> CDblMap \<Rightarrow> CDblMap" where
  "dbl_set i m c = (if i = 0 then c\<lparr> dbl_mapCache0 := m \<rparr> else c\<lparr> dbl_mapCache1 := m \<rparr>)"

text \<open>The index is 0 or 1, and \<^verbatim>\<open>nIdxUpper ^ 1\<close> is the other one.\<close>

definition dbl_GetUpperMap :: "CDblMap \<Rightarrow> unspent_map" where
  "dbl_GetUpperMap c = dbl_get (dbl_nIdxUpper c) c"

definition dbl_GetLowerMap :: "CDblMap \<Rightarrow> unspent_map" where
  "dbl_GetLowerMap c = dbl_get (1 - dbl_nIdxUpper c) c"

definition dbl_Flip :: "CDblMap \<Rightarrow> CDblMap" where
  "dbl_Flip c = (dbl_set (1 - dbl_nIdxUpper c) [] c)\<lparr> dbl_nIdxUpper := 1 - dbl_nIdxUpper c \<rparr>"

section \<open>CForkUnspentDB\<close>

record CForkUnspentDB =
  udb_kv :: CKVDB
  udb_dblCache :: CDblMap

definition udb_open :: "CKVDB \<Rightarrow> CForkUnspentDB" where
  "udb_open d = \<lparr> udb_kv = d, udb_dblCache = dbl_init \<rparr>"

definition RemoveAll :: "bool \<Rightarrow> CForkUnspentDB \<Rightarrow> bool \<times> CForkUnspentDB" where
  "RemoveAll status db = (case kv_RemoveAll status (udb_kv db) of
       (False, d) \<Rightarrow> (False, db\<lparr> udb_kv := d \<rparr>)
     | (True, d) \<Rightarrow> (True, db\<lparr> udb_kv := d, udb_dblCache := dbl_init \<rparr>))"

definition upper_add :: "CTxUnspent list \<Rightarrow> unspent_map \<Rightarrow> unspent_map" where
  "upper_add vAddNew mapUpper = fold (\<lambda>u. std_assign (un_outpoint u) (un_output u)) vAddNew mapUpper"

definition upper_remove :: "CTxUnspent list \<Rightarrow> unspent_map \<Rightarrow> unspent_map" where
  "upper_remove vRemove mapUpper = fold (\<lambda>u. std_assign (un_outpoint u) txout_null) vRemove mapUpper"

definition UpdateUnspent :: "CTxUnspent list \<Rightarrow> CTxUnspent list \<Rightarrow> CForkUnspentDB \<Rightarrow> CForkUnspentDB" where
  "UpdateUnspent vAddNew vRemove db =
     (let c = udb_dblCache db
      in db\<lparr> udb_dblCache := dbl_set (dbl_nIdxUpper c) (upper_remove vRemove (upper_add vAddNew (dbl_GetUpperMap c))) c \<rparr>)"

definition RepairUnspent :: "bool \<Rightarrow> CTxUnspent list \<Rightarrow> CTxOutPoint list \<Rightarrow> CForkUnspentDB \<Rightarrow> bool \<times> CForkUnspentDB" where
  "RepairUnspent status vAddUpdate vRemove db =
     map_prod id (\<lambda>d. db\<lparr> udb_kv := d \<rparr>) (kv_txn save_CTxOutPoint save_CTxOut status
       (map (\<lambda>u. (un_outpoint u, un_output u)) vAddUpdate) vRemove (udb_kv db))"

definition WriteUnspent :: "bool \<Rightarrow> CTxOutPoint \<Rightarrow> CTxOut \<Rightarrow> CForkUnspentDB \<Rightarrow> bool \<times> CForkUnspentDB" where
  "WriteUnspent status txout output db =
     map_prod id (\<lambda>d. db\<lparr> udb_kv := d \<rparr>) (kv_Write save_CTxOutPoint save_CTxOut status txout output (udb_kv db))"

definition disk_read :: "CKVDB \<Rightarrow> CTxOutPoint \<Rightarrow> CTxOut option" where
  "disk_read = kv_Read save_CTxOutPoint load_CTxOut"

text \<open>One level of the cache: an entry with a null output hides the levels below.\<close>

definition cache_read :: "unspent_map \<Rightarrow> (CTxOutPoint \<Rightarrow> CTxOut option) \<Rightarrow> CTxOutPoint \<Rightarrow> CTxOut option" where
  "cache_read m below txout = (case map_of m txout of
     Some output \<Rightarrow> if txout_IsNull output then None else Some output
   | None \<Rightarrow> below txout)"

definition ReadUnspent :: "CForkUnspentDB \<Rightarrow> CTxOutPoint \<Rightarrow> CTxOut option" where
  "ReadUnspent db = cache_read (dbl_GetUpperMap (udb_dblCache db))
     (cache_read (dbl_GetLowerMap (udb_dblCache db)) (disk_read (udb_kv db)))"

text \<open>The two halves of the flush: the lower cache is written in one transaction, then the caches are exchanged.\<close>

definition lower_new :: "unspent_map \<Rightarrow> unspent_map" where
  "lower_new mapLower = filter (\<lambda>kv. \<not> txout_IsNull (snd kv)) mapLower"

definition lower_removed :: "unspent_map \<Rightarrow> CTxOutPoint list" where
  "lower_removed mapLower = map fst (filter (\<lambda>kv. txout_IsNull (snd kv)) mapLower)"

definition flush_commit :: "bool \<Rightarrow> CForkUnspentDB \<Rightarrow> bool \<times> CForkUnspentDB" where
  "flush_commit status db =
     (let mapLower = dbl_GetLowerMap (udb_dblCache db)
      in map_prod id (\<lambda>d. db\<lparr> udb_kv := d \<rparr>) (kv_txn save_CTxOutPoint save_CTxOut status
           (lower_new mapLower) (lower_removed mapLower) (udb_kv db)))"

definition flush_flip :: "CForkUnspentDB \<Rightarrow> CForkUnspentDB" where
  "flush_flip db = db\<lparr> udb_dblCache := dbl_Flip (udb_dblCache db) \<rparr>"

definition Flush :: "bool \<Rightarrow> CForkUnspentDB \<Rightarrow> bool \<times> CForkUnspentDB" where
  "Flush status db = (case flush_commit status db of
     (False, db') \<Rightarrow> (False, db') | (True, db') \<Rightarrow> (True, flush_flip db'))"

subsection \<open>Walking and copying\<close>

type_synonym 's unspent_walker = "CTxOutPoint \<Rightarrow> CTxOut \<Rightarrow> 's \<Rightarrow> bool \<times> 's"

definition LoadWalker :: "'s unspent_walker \<Rightarrow> unspent_map \<Rightarrow> unspent_map \<Rightarrow> 's walker" where
  "LoadWalker walker mapUpper mapLower ssKey ssValue s = (case load_CTxOutPoint ssKey of
       Inl err \<Rightarrow> (Inl err, s)
     | Inr (txout, _) \<Rightarrow>
         if map_of mapUpper txout \<noteq> None \<or> map_of mapLower txout \<noteq> None then (Inr True, s)
         else (case load_CTxOut ssValue of
             Inl err \<Rightarrow> (Inl err, s)
           | Inr (output, _) \<Rightarrow> map_prod Inr id (walker txout output s)))"

text \<open>The loops over the caches end with \<open>False\<close> where the walker does.\<close>

fun cache_walk :: "'s unspent_walker \<Rightarrow> (CTxOutPoint \<times> CTxOut \<Rightarrow> bool) \<Rightarrow> unspent_map \<Rightarrow> 's \<Rightarrow> bool \<times> 's" where
  "cache_walk walker skip [] s = (True, s)"
| "cache_walk walker skip ((txout, output) # m) s =
     (if skip (txout, output) then cache_walk walker skip m s
      else case walker txout output s of (False, s') \<Rightarrow> (False, s') | (True, s') \<Rightarrow> cache_walk walker skip m s')"

definition WalkThroughUnspent :: "'s unspent_walker \<Rightarrow> CForkUnspentDB \<Rightarrow> 's \<Rightarrow> bool \<times> CForkUnspentDB \<times> 's" where
  "WalkThroughUnspent walker db s =
     (let mapUpper = dbl_GetUpperMap (udb_dblCache db); mapLower = dbl_GetLowerMap (udb_dblCache db)
      in case kv_WalkThrough (LoadWalker walker mapUpper mapLower) (udb_kv db) s of
           (False, d, s') \<Rightarrow> (False, db\<lparr> udb_kv := d \<rparr>, s')
         | (True, d, s') \<Rightarrow>
             (case cache_walk walker (\<lambda>kv. map_of mapUpper (fst kv) \<noteq> None \<or> txout_IsNull (snd kv)) mapLower s' of
                (False, s'') \<Rightarrow> (False, db\<lparr> udb_kv := d \<rparr>, s'')
              | (True, s'') \<Rightarrow>
                  (case cache_walk walker (\<lambda>kv. txout_IsNull (snd kv)) mapUpper s'' of
                     (r, s''') \<Rightarrow> (r, db\<lparr> udb_kv := d \<rparr>, s'''))))"

text \<open>The copy ignores why its walk ended: \<^verbatim>\<open>WalkThrough\<close> returns true also where a write failed.\<close>

definition CopyWalker :: "(CTxOutPoint \<Rightarrow> bool) \<Rightarrow> CForkUnspentDB walker" where
  "CopyWalker status ssKey ssValue db = (case load_CTxOutPoint ssKey of
       Inl err \<Rightarrow> (Inl err, db)
     | Inr (txout, _) \<Rightarrow> (case load_CTxOut ssValue of
           Inl err \<Rightarrow> (Inl err, db)
         | Inr (output, _) \<Rightarrow> map_prod Inr id (WriteUnspent (status txout) txout output db)))"

definition Copy :: "bool \<Rightarrow> (CTxOutPoint \<Rightarrow> bool) \<Rightarrow> CForkUnspentDB \<Rightarrow> CForkUnspentDB \<Rightarrow> bool \<times> CForkUnspentDB \<times> CForkUnspentDB" where
  "Copy removed status db dbUnspent = (case RemoveAll removed dbUnspent of
       (False, dst) \<Rightarrow> (False, db, dst)
     | (True, dst) \<Rightarrow> (case kv_WalkThrough (CopyWalker status) (udb_kv db) dst of
           (False, d, dst') \<Rightarrow> (False, db\<lparr> udb_kv := d \<rparr>, dst')
         | (True, d, dst') \<Rightarrow> (True, db\<lparr> udb_kv := d \<rparr>, dst'\<lparr> udb_dblCache := udb_dblCache db \<rparr>)))"

subsection \<open>The walkers\<close>

record CListUnspentWalker =
  luw_destOwner :: CDestination
  luw_nMax :: u32
  luw_nCounter :: u32
  luw_vUnspent :: "CTxUnspent list"

text \<open>\<^verbatim>\<open>CTxUnspent(txout, output)\<close> leaves the type and the height at -1.\<close>

definition list_Walk :: "CListUnspentWalker unspent_walker" where
  "list_Walk txout output w =
     (if luw_nMax w \<noteq> 0 \<and> luw_nMax w \<le> luw_nCounter w then (False, w)
      else if luw_destOwner w = out_destTo output then
        (True, w\<lparr> luw_vUnspent := luw_vUnspent w @ [\<lparr> un_outpoint = txout, un_output = output, un_nTxType = - 1, un_nHeight = - 1 \<rparr>],
                  luw_nCounter := luw_nCounter w + 1 \<rparr>)
      else (True, w))"

text \<open>\<^verbatim>\<open>CBlockBase::ListForkUnspent\<close> ignores the result of the walk.\<close>

definition ListForkUnspent :: "CDestination \<Rightarrow> u32 \<Rightarrow> CForkUnspentDB \<Rightarrow> CTxUnspent list" where
  "ListForkUnspent dest nMax db = (case WalkThroughUnspent list_Walk db
       \<lparr> luw_destOwner = dest, luw_nMax = nMax, luw_nCounter = 0, luw_vUnspent = [] \<rparr> of (_, _, w) \<Rightarrow> luw_vUnspent w)"

section \<open>CUnspentDB\<close>

text \<open>
  The databases of all forks.  \<open>kv\<close> is the store that opening the files of a fork gives, null where
  they cannot be opened.
\<close>

type_synonym CUnspentDB = "(uint256 \<times> CForkUnspentDB) list"

definition forks_ExistFork :: "uint256 \<Rightarrow> CUnspentDB \<Rightarrow> bool" where
  "forks_ExistFork hashFork m = (map_of m hashFork \<noteq> None)"

definition forks_LoadFork :: "CKVDB \<Rightarrow> uint256 \<Rightarrow> CUnspentDB \<Rightarrow> bool \<times> CUnspentDB" where
  "forks_LoadFork kv hashFork m = (if forks_ExistFork hashFork m then (True, m)
     else if kv = None then (False, m) else (True, std_assign hashFork (udb_open kv) m))"

text \<open>The database is emptied, forgotten, and its files are removed.\<close>

definition forks_RemoveFork :: "uint256 \<Rightarrow> CUnspentDB \<Rightarrow> CUnspentDB" where
  "forks_RemoveFork hashFork m = std_erase hashFork m"

definition forks_AddNewFork :: "CKVDB \<Rightarrow> uint256 \<Rightarrow> CUnspentDB \<Rightarrow> bool \<times> CUnspentDB" where
  "forks_AddNewFork kv hashFork m = forks_LoadFork kv hashFork (forks_RemoveFork hashFork m)"

definition forks_with :: "uint256 \<Rightarrow> (CForkUnspentDB \<Rightarrow> bool \<times> CForkUnspentDB) \<Rightarrow> CUnspentDB \<Rightarrow> bool \<times> CUnspentDB" where
  "forks_with hashFork f m = (case map_of m hashFork of None \<Rightarrow> (False, m)
     | Some db \<Rightarrow> (case f db of (b, db') \<Rightarrow> (b, std_assign hashFork db' m)))"

definition forks_Update :: "uint256 \<Rightarrow> CTxUnspent list \<Rightarrow> CTxUnspent list \<Rightarrow> CUnspentDB \<Rightarrow> bool \<times> CUnspentDB" where
  "forks_Update hashFork vAddNew vRemove = forks_with hashFork (\<lambda>db. (True, UpdateUnspent vAddNew vRemove db))"

definition forks_RepairUnspent :: "bool \<Rightarrow> uint256 \<Rightarrow> CTxUnspent list \<Rightarrow> CTxOutPoint list \<Rightarrow> CUnspentDB \<Rightarrow> bool \<times> CUnspentDB" where
  "forks_RepairUnspent status hashFork vAddUpdate vRemove = forks_with hashFork (RepairUnspent status vAddUpdate vRemove)"

definition forks_Retrieve :: "uint256 \<Rightarrow> CUnspentDB \<Rightarrow> CTxOutPoint \<Rightarrow> CTxOut option" where
  "forks_Retrieve hashFork m txout = (case map_of m hashFork of None \<Rightarrow> None | Some db \<Rightarrow> ReadUnspent db txout)"

definition forks_Copy :: "bool \<Rightarrow> (CTxOutPoint \<Rightarrow> bool) \<Rightarrow> uint256 \<Rightarrow> uint256 \<Rightarrow> CUnspentDB \<Rightarrow> bool \<times> CUnspentDB" where
  "forks_Copy removed status srcFork destFork m = (case (map_of m srcFork, map_of m destFork) of
       (Some src, Some dest) \<Rightarrow> (case Copy removed status src dest of
           (b, src', dest') \<Rightarrow> (b, std_assign destFork dest' (std_assign srcFork src' m)))
     | _ \<Rightarrow> (False, m))"

definition forks_WalkThrough :: "'s unspent_walker \<Rightarrow> uint256 \<Rightarrow> CUnspentDB \<Rightarrow> 's \<Rightarrow> bool \<times> CUnspentDB \<times> 's" where
  "forks_WalkThrough walker hashFork m s = (case map_of m hashFork of None \<Rightarrow> (False, m, s)
     | Some db \<Rightarrow> (case WalkThroughUnspent walker db s of (b, db', s') \<Rightarrow> (b, std_assign hashFork db' m, s')))"

definition forks_Flush :: "bool \<Rightarrow> uint256 \<Rightarrow> CUnspentDB \<Rightarrow> CUnspentDB" where
  "forks_Flush status hashFork m = snd (forks_with hashFork (Flush status) m)"

text \<open>One round of the flush thread, and the stores that are left when the node stops.\<close>

definition FlushProc :: "(uint256 \<Rightarrow> bool) \<Rightarrow> CUnspentDB \<Rightarrow> CUnspentDB" where
  "FlushProc status m = map (\<lambda>(h, db). (h, snd (Flush (status h) db))) m"

definition forks_Deinitialize :: "(uint256 \<Rightarrow> bool) \<Rightarrow> (uint256 \<Rightarrow> bool) \<Rightarrow> CUnspentDB \<Rightarrow> (uint256 \<times> CKVDB) list" where
  "forks_Deinitialize status1 status2 m = map (\<lambda>(h, db). (h, udb_kv db)) (FlushProc status2 (FlushProc status1 m))"

section \<open>The contract of the database\<close>

text \<open>What an update means for the map from references to unspent outputs.\<close>

definition utxo_update :: "CTxUnspent list \<Rightarrow> CTxUnspent list \<Rightarrow> (CTxOutPoint \<Rightarrow> CTxOut option) \<Rightarrow> CTxOutPoint \<Rightarrow> CTxOut option" where
  "utxo_update vAddNew vRemove m = fold (\<lambda>u m. m(un_outpoint u := None)) vRemove
     (fold (\<lambda>u m. m(un_outpoint u := (if txout_IsNull (un_output u) then None else Some (un_output u)))) vAddNew m)"

datatype store_op = OpUpdate "CTxUnspent list" "CTxUnspent list" | OpFlush bool

fun op_spec :: "store_op \<Rightarrow> (CTxOutPoint \<Rightarrow> CTxOut option) \<Rightarrow> CTxOutPoint \<Rightarrow> CTxOut option" where
  "op_spec (OpUpdate vAddNew vRemove) m = utxo_update vAddNew vRemove m"
| "op_spec (OpFlush status) m = m"

locale unspent_store =
  fixes inv :: "'d \<Rightarrow> bool"
    and read :: "'d \<Rightarrow> CTxOutPoint \<Rightarrow> CTxOut option"
    and update :: "CTxUnspent list \<Rightarrow> CTxUnspent list \<Rightarrow> 'd \<Rightarrow> 'd"
    and flush :: "bool \<Rightarrow> 'd \<Rightarrow> 'd"
  assumes update_inv: "inv d \<Longrightarrow> inv (update vAddNew vRemove d)"
    and update_read: "inv d \<Longrightarrow> read (update vAddNew vRemove d) = utxo_update vAddNew vRemove (read d)"
    and flush_inv: "inv d \<Longrightarrow> inv (flush status d)"
    and flush_read: "inv d \<Longrightarrow> read (flush status d) = read d"
begin

lemma run_ops:
  "inv d \<Longrightarrow> inv (fold (\<lambda>p. case p of OpUpdate a r \<Rightarrow> update a r | OpFlush st \<Rightarrow> flush st) ops d)
     \<and> read (fold (\<lambda>p. case p of OpUpdate a r \<Rightarrow> update a r | OpFlush st \<Rightarrow> flush st) ops d) = fold op_spec ops (read d)"
proof (induction ops arbitrary: d)
  case (Cons p ops)
  then show ?case by (cases p) (simp_all add: update_inv update_read flush_inv flush_read)
qed simp

end

section \<open>The caches implement the contract\<close>

interpretation utab: kv_table save_CTxOutPoint load_CTxOutPoint size_CTxOutPoint_ser "\<lambda>_. True"
  save_CTxOut load_CTxOut size_CTxOut_ser "\<lambda>_. True"
  by (intro kv_table.intro coutp.codec_axioms ctxout.codec_axioms)

definition udb_inv :: "CForkUnspentDB \<Rightarrow> bool" where
  "udb_inv db \<longleftrightarrow> (case udb_kv db of None \<Rightarrow> False
       | Some e \<Rightarrow> table_wf save_CTxOutPoint save_CTxOut (\<lambda>_. True) (\<lambda>_. True) e)
     \<and> std_sorted (dbl_mapCache0 (udb_dblCache db)) \<and> std_sorted (dbl_mapCache1 (udb_dblCache db))
     \<and> dbl_nIdxUpper (udb_dblCache db) \<in> {0, 1}"

lemma udb_inv_sorted: "udb_inv db \<Longrightarrow> std_sorted (dbl_GetUpperMap (udb_dblCache db)) \<and> std_sorted (dbl_GetLowerMap (udb_dblCache db))"
  by (simp add: udb_inv_def dbl_GetUpperMap_def dbl_GetLowerMap_def dbl_get_def)

lemma map_of_upper_add: "map_of (upper_add as m) = fold (\<lambda>u m. m(un_outpoint u \<mapsto> un_output u)) as (map_of m)"
  unfolding upper_add_def by (induction as arbitrary: m) auto

lemma map_of_upper_remove: "map_of (upper_remove rs m) = fold (\<lambda>u m. m(un_outpoint u \<mapsto> txout_null)) rs (map_of m)"
  unfolding upper_remove_def by (induction rs arbitrary: m) auto

lemma upper_sorted: "std_sorted m \<Longrightarrow> std_sorted (upper_remove rs (upper_add as m))"
proof -
  have "std_sorted (fold (\<lambda>u. std_assign (un_outpoint u) (f u)) xs m)" if "std_sorted m" for f :: "CTxUnspent \<Rightarrow> CTxOut" and xs m
    using that by (induction xs arbitrary: m) auto
  then show "std_sorted m \<Longrightarrow> ?thesis" by (simp add: upper_add_def upper_remove_def)
qed

lemma txout_null_IsNull [simp]: "txout_IsNull txout_null"
  by (simp add: txout_IsNull_def txout_null_def)

lemma cache_read_update: "cache_read (upper_remove rs (upper_add as m)) below = utxo_update as rs (cache_read m below)"
proof -
  define cr where "cr f = (\<lambda>k. case f k of Some u \<Rightarrow> if txout_IsNull u then None else Some u | None \<Rightarrow> below k)" for f
  have cr: "cache_read m below = cr (map_of m)" for m by (simp add: fun_eq_iff cr_def cache_read_def)
  have upd: "cr (f(k \<mapsto> u)) = (cr f)(k := (if txout_IsNull u then None else Some u))" for f k u
    by (auto simp: fun_eq_iff cr_def)
  have a: "cr (fold (\<lambda>u m. m(un_outpoint u \<mapsto> un_output u)) as f) = fold (\<lambda>u m. m(un_outpoint u := (if txout_IsNull (un_output u) then None else Some (un_output u)))) as (cr f)" for f
    by (induction as arbitrary: f) (simp_all add: upd)
  have "cr (fold (\<lambda>u m. m(un_outpoint u \<mapsto> txout_null)) rs f) = fold (\<lambda>u m. m(un_outpoint u := None)) rs (cr f)" for f
    by (induction rs arbitrary: f) (simp_all add: upd)
  with a show ?thesis by (simp add: cr map_of_upper_add map_of_upper_remove utxo_update_def)
qed

lemma dbl_set_upper [simp]:
  "dbl_nIdxUpper c \<in> {0, 1} \<Longrightarrow> dbl_GetUpperMap (dbl_set (dbl_nIdxUpper c) m c) = m
    \<and> dbl_GetLowerMap (dbl_set (dbl_nIdxUpper c) m c) = dbl_GetLowerMap c"
  by (auto simp: dbl_set_def dbl_GetUpperMap_def dbl_GetLowerMap_def dbl_get_def)

lemma UpdateUnspent_ok:
  assumes "udb_inv db"
  shows "udb_inv (UpdateUnspent as rs db)"
    "dbl_GetUpperMap (udb_dblCache (UpdateUnspent as rs db)) = upper_remove rs (upper_add as (dbl_GetUpperMap (udb_dblCache db)))"
    "dbl_GetLowerMap (udb_dblCache (UpdateUnspent as rs db)) = dbl_GetLowerMap (udb_dblCache db)"
    "udb_kv (UpdateUnspent as rs db) = udb_kv db"
proof -
  have i: "dbl_nIdxUpper (udb_dblCache db) \<in> {0, 1}" using assms by (simp add: udb_inv_def)
  show "dbl_GetUpperMap (udb_dblCache (UpdateUnspent as rs db)) = upper_remove rs (upper_add as (dbl_GetUpperMap (udb_dblCache db)))"
    "dbl_GetLowerMap (udb_dblCache (UpdateUnspent as rs db)) = dbl_GetLowerMap (udb_dblCache db)"
    "udb_kv (UpdateUnspent as rs db) = udb_kv db"
    using dbl_set_upper [OF i] by (simp_all add: UpdateUnspent_def Let_def)
  show "udb_inv (UpdateUnspent as rs db)"
    using assms udb_inv_sorted [OF assms] upper_sorted [of "dbl_GetUpperMap (udb_dblCache db)" rs as]
    by (auto simp: udb_inv_def UpdateUnspent_def Let_def dbl_set_def)
qed

lemma Update_read: "udb_inv db \<Longrightarrow> ReadUnspent (UpdateUnspent as rs db) = utxo_update as rs (ReadUnspent db)"
  by (simp add: ReadUnspent_def UpdateUnspent_ok cache_read_update)

text \<open>A committed transaction puts the lower cache onto the disk, and leaves it in place.\<close>

lemma fold_assign_apply:
  "distinct (map fst kvs) \<Longrightarrow> fold (\<lambda>(k, v) m. m(k \<mapsto> v)) kvs f x = (case map_of kvs x of Some v \<Rightarrow> Some v | None \<Rightarrow> f x)"
proof (induction kvs arbitrary: f)
  case (Cons kv kvs)
  then show ?case by (cases kv) (auto split: option.splits simp: map_of_eq_None_iff rev_image_eqI)
qed simp

lemma flush_commit_ok:
  assumes "udb_inv db" "flush_commit status db = (b, db')"
  shows "udb_inv db' \<and> udb_dblCache db' = udb_dblCache db \<and> b = status
    \<and> cache_read (dbl_GetLowerMap (udb_dblCache db)) (disk_read (udb_kv db')) = cache_read (dbl_GetLowerMap (udb_dblCache db)) (disk_read (udb_kv db))
    \<and> (status \<longrightarrow> disk_read (udb_kv db') = cache_read (dbl_GetLowerMap (udb_dblCache db)) (disk_read (udb_kv db)))
    \<and> (\<not> status \<longrightarrow> disk_read (udb_kv db') = disk_read (udb_kv db))"
proof -
  let ?l = "dbl_GetLowerMap (udb_dblCache db)"
  obtain e where e: "udb_kv db = Some e" "table_wf save_CTxOutPoint save_CTxOut (\<lambda>_. True) (\<lambda>_. True) e"
    using assms(1) by (auto simp: udb_inv_def split: option.splits)
  have l: "distinct (map fst ?l)" using udb_inv_sorted [OF assms(1)] std_sorted_distinct by blast
  obtain e' where t: "kv_txn save_CTxOutPoint save_CTxOut status (lower_new ?l) (lower_removed ?l) (Some e) = (status, Some e')"
      "table_wf save_CTxOutPoint save_CTxOut (\<lambda>_. True) (\<lambda>_. True) e'"
      "\<And>k. disk_read (Some e') k = (if status then fold (\<lambda>k m. m(k := None)) (lower_removed ?l)
         (fold (\<lambda>(k, v) m. m(k \<mapsto> v)) (lower_new ?l) (disk_read (Some e))) k else disk_read (Some e) k)"
    using utab.txn_read [OF e(2), of "lower_new ?l" "lower_removed ?l" status] unfolding disk_read_def by auto
  have "fold (\<lambda>k m. m(k := None)) (lower_removed m) (fold (\<lambda>(k, v) m. m(k \<mapsto> v)) (lower_new m) f) k = cache_read m f k"
    if "distinct (map fst m)" for m k and f :: "CTxOutPoint \<Rightarrow> CTxOut option"
  proof -
    have "distinct (map fst (lower_new m))" using that by (simp add: lower_new_def distinct_map_filter)
    moreover have "map_of (lower_new m) k = (case map_of m k of Some u \<Rightarrow> if txout_IsNull u then None else Some u | None \<Rightarrow> None)"
      using that unfolding lower_new_def by (induction m) (auto split: option.splits simp: map_of_eq_None_iff)
    moreover have "k \<in> set (lower_removed m) \<longleftrightarrow> (\<exists>u. map_of m k = Some u \<and> txout_IsNull u)"
      using that unfolding lower_removed_def by (induction m) (auto simp: rev_image_eqI)
    ultimately show ?thesis
      by (auto simp: fold_erase_apply fold_assign_apply cache_read_def split: option.splits)
  qed
  with t(3) l have "disk_read (Some e') = (if status then cache_read ?l (disk_read (Some e)) else disk_read (Some e))"
    by (auto simp: fun_eq_iff)
  moreover have "cache_read ?l (cache_read ?l f) = cache_read ?l f" for f by (auto simp: fun_eq_iff cache_read_def split: option.splits)
  moreover have "b = status \<and> db' = db\<lparr> udb_kv := Some e' \<rparr>" using assms(2) e(1) t(1) by (simp add: flush_commit_def Let_def)
  ultimately show ?thesis using assms(1) t(2) e(1) by (auto simp: udb_inv_def)
qed

lemma dbl_Flip_maps:
  "dbl_nIdxUpper c \<in> {0, 1} \<Longrightarrow> dbl_GetUpperMap (dbl_Flip c) = [] \<and> dbl_GetLowerMap (dbl_Flip c) = dbl_GetUpperMap c
    \<and> dbl_nIdxUpper (dbl_Flip c) \<in> {0, 1}"
  by (auto simp: dbl_Flip_def dbl_set_def dbl_GetUpperMap_def dbl_GetLowerMap_def dbl_get_def)

lemma flush_flip_ok:
  assumes "udb_inv db"
  shows "udb_inv (flush_flip db)" "dbl_GetUpperMap (udb_dblCache (flush_flip db)) = []"
    "dbl_GetLowerMap (udb_dblCache (flush_flip db)) = dbl_GetUpperMap (udb_dblCache db)" "udb_kv (flush_flip db) = udb_kv db"
proof -
  have i: "dbl_nIdxUpper (udb_dblCache db) \<in> {0, 1}" using assms by (simp add: udb_inv_def)
  show "dbl_GetUpperMap (udb_dblCache (flush_flip db)) = []"
    "dbl_GetLowerMap (udb_dblCache (flush_flip db)) = dbl_GetUpperMap (udb_dblCache db)" "udb_kv (flush_flip db) = udb_kv db"
    using dbl_Flip_maps [OF i] by (simp_all add: flush_flip_def)
  show "udb_inv (flush_flip db)" using assms by (auto simp: udb_inv_def flush_flip_def dbl_Flip_def dbl_set_def)
qed

lemma cache_read_empty [simp]: "cache_read [] below = below"
  by (simp add: fun_eq_iff cache_read_def)

lemma Flush_ok:
  assumes "udb_inv db"
  shows "udb_inv (snd (Flush status db)) \<and> ReadUnspent (snd (Flush status db)) = ReadUnspent db"
proof -
  obtain b db' where c: "flush_commit status db = (b, db')" by fastforce
  note k = flush_commit_ok [OF assms c]
  show ?thesis
  proof (cases status)
    case True
    then have "Flush status db = (True, flush_flip db')" using c k by (simp add: Flush_def)
    then show ?thesis using k True flush_flip_ok [of db'] by (simp add: ReadUnspent_def)
  next
    case False
    then have "Flush status db = (False, db')" using c k by (simp add: Flush_def)
    then show ?thesis using k by (simp add: ReadUnspent_def)
  qed
qed

interpretation ustore: unspent_store udb_inv ReadUnspent UpdateUnspent "\<lambda>status db. snd (Flush status db)"
  by unfold_locales (simp_all add: UpdateUnspent_ok Update_read Flush_ok)

text \<open>
  C7: the database of unspent outputs is one map.  Whatever updates and flushes follow one another,
  with transactions that succeed or fail, reading an output returns what a plain map would return
  after the same updates: the caches, their exchange and the writes of the flush thread do not show.
\<close>

theorem unspent_db_refines_map:
  "udb_inv db \<Longrightarrow> udb_inv (fold (\<lambda>p. case p of OpUpdate a r \<Rightarrow> UpdateUnspent a r | OpFlush st \<Rightarrow> (\<lambda>db. snd (Flush st db))) ops db)
     \<and> ReadUnspent (fold (\<lambda>p. case p of OpUpdate a r \<Rightarrow> UpdateUnspent a r | OpFlush st \<Rightarrow> (\<lambda>db. snd (Flush st db))) ops db)
       = fold op_spec ops (ReadUnspent db)"
  by (rule ustore.run_ops)

definition example_unspent :: "uint256 \<Rightarrow> i64 \<Rightarrow> CTxUnspent" where
  "example_unspent h n = \<lparr> un_outpoint = CTxOutPoint h 0,
     un_output = \<lparr> out_destTo = CDestination PREFIX_PUBKEY 7, out_nAmount = n, out_nTxTime = 5, out_nLockUntil = 0 \<rparr>,
     un_nTxType = 0, un_nHeight = 1 \<rparr>"

definition example_udb :: CForkUnspentDB where
  "example_udb = udb_open (Some (eng_Open []))"

lemma example_udb_inv: "udb_inv example_udb"
  by (simp add: example_udb_def udb_open_def udb_inv_def table_wf_def eng_Open_def dbl_init_def)

lemma example_udb_read: "ReadUnspent example_udb = (\<lambda>_. None)"
  by (simp add: fun_eq_iff example_udb_def udb_open_def ReadUnspent_def dbl_init_def dbl_GetUpperMap_def dbl_GetLowerMap_def
      dbl_get_def disk_read_def kv_Read_def eng_Get_def eng_Open_def)

theorem unspent_db_refines_map_witness:
  "ReadUnspent (snd (Flush True (UpdateUnspent [] [example_unspent 3 10] (snd (Flush True
      (UpdateUnspent [example_unspent 3 10, example_unspent 4 20] [] example_udb)))))) (CTxOutPoint 3 0) = None
   \<and> ReadUnspent (snd (Flush True (UpdateUnspent [] [example_unspent 3 10] (snd (Flush True
      (UpdateUnspent [example_unspent 3 10, example_unspent 4 20] [] example_udb)))))) (CTxOutPoint 4 0)
     = Some (un_output (example_unspent 4 20))"
  using unspent_db_refines_map [OF example_udb_inv, of "[OpUpdate [example_unspent 3 10, example_unspent 4 20] [],
      OpFlush True, OpUpdate [] [example_unspent 3 10], OpFlush True]"]
  by (simp add: example_udb_read utxo_update_def example_unspent_def txout_IsNull_def dest_IsNull_def PREFIX_PUBKEY_def PREFIX_NULL_def)

text \<open>
  Stopping the node loses nothing.  The two flushes of the shutdown empty both caches, so a
  database opened again on the files reads as the running one did.
\<close>

theorem shutdown_keeps_unspent:
  assumes "udb_inv db"
  shows "ReadUnspent (udb_open (udb_kv (snd (Flush True (snd (Flush True db)))))) = ReadUnspent db"
proof -
  have step: "udb_inv (snd (Flush True d)) \<and> dbl_GetUpperMap (udb_dblCache (snd (Flush True d))) = []
      \<and> (dbl_GetUpperMap (udb_dblCache d) = [] \<longrightarrow> dbl_GetLowerMap (udb_dblCache (snd (Flush True d))) = [])" if "udb_inv d" for d
  proof -
    obtain b d' where c: "flush_commit True d = (b, d')" by fastforce
    note k = flush_commit_ok [OF that c]
    then have "Flush True d = (True, flush_flip d')" using c by (simp add: Flush_def)
    then show ?thesis using k flush_flip_ok [of d'] by simp
  qed
  let ?d = "snd (Flush True (snd (Flush True db)))"
  have caches: "dbl_GetUpperMap (udb_dblCache ?d) = []" "dbl_GetLowerMap (udb_dblCache ?d) = []"
    using step [OF assms] step [of "snd (Flush True db)"] by auto
  have "ReadUnspent (udb_open (udb_kv ?d)) = disk_read (udb_kv ?d)"
    by (simp add: ReadUnspent_def udb_open_def dbl_init_def dbl_GetUpperMap_def dbl_GetLowerMap_def dbl_get_def)
  also have "\<dots> = ReadUnspent ?d" using caches by (simp add: ReadUnspent_def)
  also have "\<dots> = ReadUnspent db" using assms Flush_ok by simp
  finally show ?thesis .
qed

theorem shutdown_keeps_unspent_witness:
  "ReadUnspent (udb_open (udb_kv (snd (Flush True (snd (Flush True (UpdateUnspent [example_unspent 3 10] [] example_udb)))))))
    (CTxOutPoint 3 0) = Some (un_output (example_unspent 3 10))"
  using shutdown_keeps_unspent [OF UpdateUnspent_ok(1) [OF example_udb_inv], of "[example_unspent 3 10]" "[]"]
  by (simp add: Update_read [OF example_udb_inv] example_udb_read utxo_update_def example_unspent_def txout_IsNull_def dest_IsNull_def
      PREFIX_PUBKEY_def PREFIX_NULL_def)

section \<open>Readers beside updates and the flush thread\<close>

text \<open>
  A reader takes the lock of the upper cache, of the lower cache and of the store one after the other;
  between two of them an update may run, the flush thread may commit the lower cache (it holds the
  lower lock for upgrade, which lets readers in) or exchange the caches (with both locks).
\<close>

datatype reader_pc = RStart | RUpperMiss | RLowerMiss | RDone "CTxOut option"

record conc =
  c_db :: CForkUnspentDB
  c_reader :: reader_pc
  c_committed :: bool

fun cache_hit :: "CTxOut option \<Rightarrow> reader_pc \<Rightarrow> reader_pc" where
  "cache_hit None miss = miss"
| "cache_hit (Some output) miss = RDone (if txout_IsNull output then None else Some output)"

inductive conc_step :: "CTxOutPoint \<Rightarrow> conc \<Rightarrow> conc \<Rightarrow> bool" for txout where
  read_upper: "c_reader s = RStart \<Longrightarrow>
     conc_step txout s (s\<lparr> c_reader := cache_hit (map_of (dbl_GetUpperMap (udb_dblCache (c_db s))) txout) RUpperMiss \<rparr>)"
| read_lower: "c_reader s = RUpperMiss \<Longrightarrow>
     conc_step txout s (s\<lparr> c_reader := cache_hit (map_of (dbl_GetLowerMap (udb_dblCache (c_db s))) txout) RLowerMiss \<rparr>)"
| read_disk: "c_reader s = RLowerMiss \<Longrightarrow> conc_step txout s (s\<lparr> c_reader := RDone (disk_read (udb_kv (c_db s)) txout) \<rparr>)"
| update: "conc_step txout s (s\<lparr> c_db := UpdateUnspent vAddNew vRemove (c_db s) \<rparr>)"
| commit: "\<not> c_committed s \<Longrightarrow> flush_commit status (c_db s) = (b, db') \<Longrightarrow>
     conc_step txout s (s\<lparr> c_db := db', c_committed := b \<rparr>)"
| flip: "c_committed s \<Longrightarrow> conc_step txout s (s\<lparr> c_db := flush_flip (c_db s), c_committed := False \<rparr>)"

text \<open>A run, with the values the output had at its moments.\<close>

inductive conc_run :: "CTxOutPoint \<Rightarrow> conc \<Rightarrow> CTxOut option set \<Rightarrow> conc \<Rightarrow> bool" for txout s0 where
  run_start: "conc_run txout s0 {ReadUnspent (c_db s0) txout} s0"
| run_step: "conc_run txout s0 H s \<Longrightarrow> conc_step txout s s' \<Longrightarrow> conc_run txout s0 (insert (ReadUnspent (c_db s') txout) H) s'"

definition below_upper :: "CForkUnspentDB \<Rightarrow> CTxOutPoint \<Rightarrow> CTxOut option" where
  "below_upper db = cache_read (dbl_GetLowerMap (udb_dblCache db)) (disk_read (udb_kv db))"

lemma ReadUnspent_below: "ReadUnspent db = cache_read (dbl_GetUpperMap (udb_dblCache db)) (below_upper db)"
  by (simp add: ReadUnspent_def below_upper_def)

definition reader_inv :: "CTxOutPoint \<Rightarrow> CTxOut option set \<Rightarrow> conc \<Rightarrow> bool" where
  "reader_inv txout H s \<longleftrightarrow> (case c_reader s of RStart \<Rightarrow> True
     | RUpperMiss \<Rightarrow> below_upper (c_db s) txout \<in> H
     | RLowerMiss \<Rightarrow> below_upper (c_db s) txout \<in> H \<and> disk_read (udb_kv (c_db s)) txout \<in> H
     | RDone r \<Rightarrow> r \<in> H)"

definition conc_inv :: "CTxOutPoint \<Rightarrow> CTxOut option set \<Rightarrow> conc \<Rightarrow> bool" where
  "conc_inv txout H s \<longleftrightarrow> udb_inv (c_db s) \<and> ReadUnspent (c_db s) txout \<in> H
     \<and> (c_committed s \<longrightarrow> disk_read (udb_kv (c_db s)) = below_upper (c_db s)) \<and> reader_inv txout H s"

lemma conc_inv_step:
  assumes "conc_step txout s s'" "conc_inv txout H s"
  shows "conc_inv txout (insert (ReadUnspent (c_db s') txout) H) s'"
  using assms
proof (cases rule: conc_step.cases)
  case read_upper
  then show ?thesis using assms(2)
    by (cases "map_of (dbl_GetUpperMap (udb_dblCache (c_db s))) txout")
      (auto simp: conc_inv_def reader_inv_def ReadUnspent_below cache_read_def)
next
  case read_lower
  then show ?thesis using assms(2)
    by (cases "map_of (dbl_GetLowerMap (udb_dblCache (c_db s))) txout")
      (auto simp: conc_inv_def reader_inv_def below_upper_def cache_read_def)
next
  case read_disk
  then show ?thesis using assms(2) by (auto simp: conc_inv_def reader_inv_def)
next
  case (update as rs)
  then show ?thesis using assms(2)
    by (auto simp: conc_inv_def reader_inv_def below_upper_def UpdateUnspent_ok split: reader_pc.splits)
next
  case (commit status b db')
  have "udb_inv (c_db s)" using assms(2) by (simp add: conc_inv_def)
  note k = flush_commit_ok [OF this commit(3)]
  have "below_upper db' = below_upper (c_db s)" "ReadUnspent db' = ReadUnspent (c_db s)"
    using k by (simp_all add: below_upper_def ReadUnspent_def)
  moreover have "disk_read (udb_kv db') = (if b then below_upper (c_db s) else disk_read (udb_kv (c_db s)))"
    using k by (auto simp: below_upper_def)
  ultimately show ?thesis using assms(2) k commit(1)
    by (auto simp: conc_inv_def reader_inv_def split: reader_pc.splits if_splits)
next
  case flip
  have "udb_inv (c_db s)" using assms(2) by (simp add: conc_inv_def)
  note k = flush_flip_ok [OF this]
  have "below_upper (flush_flip (c_db s)) = ReadUnspent (c_db s)" "ReadUnspent (flush_flip (c_db s)) = ReadUnspent (c_db s)"
    using assms(2) flip k by (simp_all add: conc_inv_def below_upper_def ReadUnspent_def)
  then show ?thesis using assms(2) k flip(1)
    by (auto simp: conc_inv_def reader_inv_def split: reader_pc.splits)
qed

text \<open>
  C8: reading is linearisable.  A reader that runs beside updates of the upper cache and beside the
  commits and exchanges of the flush thread, in any interleaving of their critical sections, returns
  a value that the output had at some moment between the start of the read and its end.
\<close>

theorem concurrent_read_linearisable:
  assumes "conc_run txout s0 H s" "udb_inv (c_db s0)" "c_reader s0 = RStart" "\<not> c_committed s0" "c_reader s = RDone r"
  shows "r \<in> H"
proof -
  have "conc_inv txout H s"
    using assms(1)
  proof (induction rule: conc_run.induct)
    case run_start
    show ?case using assms(2-4) by (simp add: conc_inv_def reader_inv_def)
  next
    case (run_step H s s')
    from conc_inv_step [OF run_step.hyps(2) run_step.IH] show ?case .
  qed
  then show ?thesis using assms(5) by (simp add: conc_inv_def reader_inv_def)
qed

theorem concurrent_read_linearisable_witness:
  "\<exists>H s. conc_run (CTxOutPoint 3 0) \<lparr> c_db = UpdateUnspent [example_unspent 3 10] [] example_udb, c_reader = RStart, c_committed = False \<rparr> H s
    \<and> c_reader s = RDone (Some (un_output (example_unspent 3 10))) \<and> Some (un_output (example_unspent 3 10)) \<in> H"
proof -
  let ?s = "\<lparr> c_db = UpdateUnspent [example_unspent 3 10] [] example_udb, c_reader = RStart, c_committed = False \<rparr>"
  let ?s' = "?s\<lparr> c_reader := cache_hit (map_of (dbl_GetUpperMap (udb_dblCache (c_db ?s))) (CTxOutPoint 3 0)) RUpperMiss \<rparr>"
  have run: "conc_run (CTxOutPoint 3 0) ?s (insert (ReadUnspent (c_db ?s') (CTxOutPoint 3 0)) {ReadUnspent (c_db ?s) (CTxOutPoint 3 0)}) ?s'"
    by (rule conc_run.run_step [OF conc_run.run_start conc_step.read_upper]) simp
  have r: "c_reader ?s' = RDone (Some (un_output (example_unspent 3 10)))"
    by (simp add: UpdateUnspent_ok [OF example_udb_inv] upper_remove_def upper_add_def map_of_std_assign example_unspent_def
        txout_IsNull_def dest_IsNull_def PREFIX_PUBKEY_def PREFIX_NULL_def)
  from concurrent_read_linearisable [OF run _ _ _ r] r run show ?thesis
    using UpdateUnspent_ok(1) [OF example_udb_inv] by (metis (no_types, lifting) conc.select_convs)
qed

section \<open>Listing the unspent outputs\<close>

fun uwalk :: "'s unspent_walker \<Rightarrow> unspent_map \<Rightarrow> 's \<Rightarrow> bool \<times> 's" where
  "uwalk w [] s = (True, s)"
| "uwalk w ((k, v) # l) s = (case w k v s of (False, s') \<Rightarrow> (False, s') | (True, s') \<Rightarrow> uwalk w l s')"

lemma cache_walk_uwalk: "cache_walk w skip m s = uwalk w (filter (\<lambda>kv. \<not> skip kv) m) s"
  by (induction w skip m s rule: cache_walk.induct) (auto split: bool.splits prod.splits)

lemma LoadWalker_entry:
  "LoadWalker w U L (save_CTxOutPoint k) (save_CTxOut v) s =
     (if map_of U k = None \<and> map_of L k = None then map_prod Inr id (w k v s) else (Inr True, s))"
  by (auto simp: LoadWalker_def coutp.load_save_end ctxout.load_save_end)

lemma load_walk:
  "walk_list (LoadWalker w U L) (map (table_entry save_CTxOutPoint save_CTxOut) ents) s =
     (True, snd (uwalk w (filter (\<lambda>kv. map_of U (fst kv) = None \<and> map_of L (fst kv) = None) ents) s))"
proof (induction ents arbitrary: s)
  case (Cons kv ents)
  obtain k v where kv: "kv = (k, v)" by fastforce
  show ?case
  proof (cases "w k v s")
    case (Pair b s')
    then show ?thesis by (cases b) (simp_all add: Cons.IH kv table_entry_def [of _ _ "(k, v)"] LoadWalker_entry)
  qed
qed simp

text \<open>A walker that stops leaves its state alone and would stop again.\<close>

definition latched :: "'s unspent_walker \<Rightarrow> bool" where
  "latched w \<longleftrightarrow> (\<forall>k v s s'. w k v s = (False, s') \<longrightarrow> s' = s \<and> (\<forall>k v. w k v s = (False, s)))"

lemma uwalk_append:
  assumes "latched w"
  shows "snd (uwalk w (l @ l') s) = snd (uwalk w l' (snd (uwalk w l s)))"
proof (induction l arbitrary: s)
  case (Cons kv l)
  obtain k v where kv: "kv = (k, v)" by fastforce
  obtain b s' where w: "w k v s = (b, s')" by fastforce
  show ?case
  proof (cases b)
    case False
    then have "s' = s" "\<And>k v. w k v s = (False, s)" using assms w by (auto simp: latched_def)
    then have "snd (uwalk w l' s) = s" by (cases l') auto
    then show ?thesis using False w kv \<open>s' = s\<close> by simp
  qed (use Cons.IH w kv in simp)
qed simp

lemma uwalk_stop: "uwalk w l s = (False, s') \<Longrightarrow> \<exists>k v s0. w k v s0 = (False, s')"
proof (induction w l s rule: uwalk.induct)
  case (2 w k v l s)
  then show ?case by (cases "w k v s") (auto split: bool.splits)
qed simp

lemma walk_visits_unspent:
  assumes "udb_inv db" "latched w"
  shows "\<exists>ents. distinct (map fst ents) \<and> (\<forall>k u. (k, u) \<in> set ents \<longleftrightarrow> ReadUnspent db k = Some u)
    \<and> (\<forall>s. snd (snd (WalkThroughUnspent w db s)) = snd (uwalk w ents s))"
proof -
  let ?U = "dbl_GetUpperMap (udb_dblCache db)" and ?L = "dbl_GetLowerMap (udb_dblCache db)"
  obtain e where e: "udb_kv db = Some e" "table_wf save_CTxOutPoint save_CTxOut (\<lambda>_. True) (\<lambda>_. True) e"
    using assms(1) by (auto simp: udb_inv_def split: option.splits)
  obtain ents where ents: "eng_pdb e = map (table_entry save_CTxOutPoint save_CTxOut) ents" "distinct (map fst ents)"
      "\<And>k v. (k, v) \<in> set ents \<longleftrightarrow> disk_read (Some e) k = Some v"
    using utab.entries [OF e(2)] unfolding disk_read_def by auto
  note UL = udb_inv_sorted [OF assms(1)]
  have m: "distinct (map fst ?U)" "distinct (map fst ?L)" using UL std_sorted_distinct by blast+
  let ?D = "filter (\<lambda>kv. map_of ?U (fst kv) = None \<and> map_of ?L (fst kv) = None) ents"
  let ?l = "filter (\<lambda>kv. \<not> (map_of ?U (fst kv) \<noteq> None \<or> txout_IsNull (snd kv))) ?L"
  let ?u = "filter (\<lambda>kv. \<not> txout_IsNull (snd kv)) ?U"
  have d: "distinct (map fst (?D @ ?l @ ?u))"
    using ents(2) m unfolding map_append distinct_append
    by (intro conjI distinct_map_filter) (auto simp: map_of_eq_None_iff)
  have inU: "(k, v) \<in> set ?U \<longleftrightarrow> map_of ?U k = Some v" and inL: "(k, v) \<in> set ?L \<longleftrightarrow> map_of ?L k = Some v" for k v
    using in_set_std_sorted [OF conjunct1 [OF UL]] in_set_std_sorted [OF conjunct2 [OF UL]] by simp_all
  have r: "(k, v) \<in> set (?D @ ?l @ ?u) \<longleftrightarrow> ReadUnspent db k = Some v" for k v
    unfolding set_append set_filter Un_iff mem_Collect_eq fst_conv snd_conv inU inL ents(3) ReadUnspent_def cache_read_def e(1)
    by (cases "map_of ?U k"; cases "map_of ?L k") auto
  have "snd (snd (WalkThroughUnspent w db s)) = snd (uwalk w (?D @ ?l @ ?u) s)" for s
  proof -
    obtain i where i: "kv_WalkThrough (LoadWalker w ?U ?L) (udb_kv db) s = (True, Some (e\<lparr> eng_piter := Some i \<rparr>), snd (uwalk w ?D s))"
      using kv_WalkThrough_list [of "LoadWalker w ?U ?L" e s] unfolding ents(1) load_walk e(1) by auto
    obtain b1 s1 where 1: "uwalk w ?l (snd (uwalk w ?D s)) = (b1, s1)" by fastforce
    obtain b2 s2 where 2: "uwalk w ?u s1 = (b2, s2)" by fastforce
    have stop: "s2 = s1" if "\<not> b1"
    proof -
      have "\<exists>k v s0. w k v s0 = (False, s1)" using uwalk_stop [of w ?l _ s1] 1 that by simp
      then have "\<And>k v. w k v s1 = (False, s1)" using assms(2) unfolding latched_def by metis
      then show ?thesis using 2 by (cases "?u") auto
    qed
    have "snd (snd (WalkThroughUnspent w db s)) = s2"
      using i 1 2 stop by (cases b1) (auto simp: WalkThroughUnspent_def Let_def cache_walk_uwalk)
    then show ?thesis using 1 2 by (simp add: uwalk_append [OF assms(2)])
  qed
  with d r show ?thesis by blast
qed

lemma list_Walk_latched: "latched list_Walk"
  by (auto simp: latched_def list_Walk_def split: if_splits)

definition owned_by :: "CDestination \<Rightarrow> unspent_map \<Rightarrow> unspent_map" where
  "owned_by dest ents = filter (\<lambda>kv. out_destTo (snd kv) = dest) ents"

definition listed :: "CTxOutPoint \<times> CTxOut \<Rightarrow> CTxUnspent" where
  "listed kv = \<lparr> un_outpoint = fst kv, un_output = snd kv, un_nTxType = - 1, un_nHeight = - 1 \<rparr>"

lemma uwalk_list_Walk:
  assumes "luw_nMax w = 0 \<or> unat (luw_nCounter w) \<le> unat (luw_nMax w)"
  shows "luw_vUnspent (snd (uwalk list_Walk ents w)) = luw_vUnspent w @ map listed
    (if luw_nMax w = 0 then owned_by (luw_destOwner w) ents
     else take (unat (luw_nMax w) - unat (luw_nCounter w)) (owned_by (luw_destOwner w) ents))"
  using assms
proof (induction ents arbitrary: w)
  case Nil
  then show ?case by (simp add: owned_by_def)
next
  case (Cons kv ents)
  obtain k u where kv: "kv = (k, u)" by fastforce
  consider "luw_nMax w \<noteq> 0" "luw_nMax w \<le> luw_nCounter w"
    | "luw_nMax w = 0 \<or> luw_nCounter w < luw_nMax w" "luw_destOwner w \<noteq> out_destTo u"
    | "luw_nMax w = 0 \<or> luw_nCounter w < luw_nMax w" "luw_destOwner w = out_destTo u" by fastforce
  then show ?case
  proof cases
    case 1
    then show ?thesis by (simp add: kv list_Walk_def word_le_nat_alt)
  next
    case 2
    then have "list_Walk k u w = (True, w)" by (auto simp: list_Walk_def)
    then show ?thesis using 2 Cons by (simp add: kv owned_by_def)
  next
    case 3
    let ?w = "w\<lparr> luw_vUnspent := luw_vUnspent w @ [listed (k, u)], luw_nCounter := luw_nCounter w + 1 \<rparr>"
    have w: "list_Walk k u w = (True, ?w)" using 3 by (auto simp: list_Walk_def listed_def)
    show ?thesis
    proof (cases "luw_nMax w = 0")
      case True
      then show ?thesis using Cons.IH [of ?w] w 3 by (simp add: kv owned_by_def)
    next
      case False
      then have lt: "unat (luw_nCounter w) < unat (luw_nMax w)" using 3 by (simp add: word_less_nat_alt)
      moreover have "unat (luw_nMax w) < 2 ^ 32" using unsigned_less [of "luw_nMax w", where 'a = nat] by simp
      ultimately have "unat (luw_nCounter w + 1) = unat (luw_nCounter w) + 1" by (simp add: unat_word_ariths)
      moreover from lt obtain n where "unat (luw_nMax w) - unat (luw_nCounter w) = Suc n" "unat (luw_nMax w) - (unat (luw_nCounter w) + 1) = n"
        by (metis Suc_diff_Suc Suc_eq_plus1)
      ultimately show ?thesis using Cons.IH [of ?w] w 3 lt False by (simp add: kv owned_by_def)
    qed
  qed
qed

text \<open>
  C23: the list of unspent outputs is right.  The wallet's query returns outputs of the given
  destination that are unspent at that moment, each of them once, all of them where no limit is set,
  and otherwise as many as the limit allows.
\<close>

theorem ListForkUnspent_correct:
  assumes "udb_inv db"
  shows "\<exists>ents. distinct (map fst ents) \<and> (\<forall>k u. (k, u) \<in> set ents \<longleftrightarrow> ReadUnspent db k = Some u \<and> out_destTo u = dest)
    \<and> ListForkUnspent dest nMax db = map listed (if nMax = 0 then ents else take (unat nMax) ents)"
proof -
  obtain ents where ents: "distinct (map fst ents)" "\<forall>k u. (k, u) \<in> set ents \<longleftrightarrow> ReadUnspent db k = Some u"
      "\<forall>s. snd (snd (WalkThroughUnspent list_Walk db s)) = snd (uwalk list_Walk ents s)"
    using walk_visits_unspent [OF assms list_Walk_latched] by blast
  have "ListForkUnspent dest nMax db = map listed (if nMax = 0 then owned_by dest ents else take (unat nMax) (owned_by dest ents))"
    using ents(3) uwalk_list_Walk [of "\<lparr> luw_destOwner = dest, luw_nMax = nMax, luw_nCounter = 0, luw_vUnspent = [] \<rparr>" ents]
    by (simp add: ListForkUnspent_def case_prod_unfold)
  moreover have "distinct (map fst (owned_by dest ents))" using ents(1) by (simp add: owned_by_def distinct_map_filter)
  moreover have "\<forall>k u. (k, u) \<in> set (owned_by dest ents) \<longleftrightarrow> ReadUnspent db k = Some u \<and> out_destTo u = dest"
    using ents(2) by (simp add: owned_by_def)
  ultimately show ?thesis by blast
qed

theorem ListForkUnspent_correct_witness:
  "ListForkUnspent (CDestination PREFIX_PUBKEY 7) 1 (UpdateUnspent [example_unspent 3 10] [] example_udb)
    = [listed (CTxOutPoint 3 0, un_output (example_unspent 3 10))]"
proof -
  have r: "ReadUnspent (UpdateUnspent [example_unspent 3 10] [] example_udb) = [CTxOutPoint 3 0 \<mapsto> un_output (example_unspent 3 10)]"
    by (simp add: Update_read [OF example_udb_inv] example_udb_read utxo_update_def example_unspent_def txout_IsNull_def dest_IsNull_def
        PREFIX_PUBKEY_def PREFIX_NULL_def)
  have d: "out_destTo (un_output (example_unspent 3 10)) = CDestination PREFIX_PUBKEY 7" by (simp add: example_unspent_def)
  obtain ents where ents: "distinct (map fst ents)"
      "\<forall>k u. (k, u) \<in> set ents \<longleftrightarrow> [CTxOutPoint 3 0 \<mapsto> un_output (example_unspent 3 10)] k = Some u \<and> out_destTo u = CDestination PREFIX_PUBKEY 7"
      "ListForkUnspent (CDestination PREFIX_PUBKEY 7) 1 (UpdateUnspent [example_unspent 3 10] [] example_udb)
        = map listed (if (1::u32) = 0 then ents else take (unat (1::u32)) ents)"
    using ListForkUnspent_correct [OF UpdateUnspent_ok(1) [OF example_udb_inv], of "[example_unspent 3 10]" "[]" "CDestination PREFIX_PUBKEY 7" 1]
    unfolding r by blast
  have "set ents = {(CTxOutPoint 3 0, un_output (example_unspent 3 10))}"
  proof (intro set_eqI)
    fix x :: "CTxOutPoint \<times> CTxOut"
    show "x \<in> set ents \<longleftrightarrow> x \<in> {(CTxOutPoint 3 0, un_output (example_unspent 3 10))}"
      using ents(2) [rule_format, of "fst x" "snd x"] d by (cases x) auto
  qed
  with ents(1) have "ents = [(CTxOutPoint 3 0, un_output (example_unspent 3 10))]"
    by (cases ents; cases "tl ents") (auto simp: insert_eq_iff)
  with ents(3) show ?thesis by simp
qed

section \<open>Copying a database\<close>

lemma CopyWalker_entry:
  "CopyWalker status (save_CTxOutPoint k) (save_CTxOut v) dst = map_prod Inr id (WriteUnspent (status k) k v dst)"
  by (simp add: CopyWalker_def coutp.load_save_end ctxout.load_save_end)

lemma copy_walk:
  assumes "udb_kv dst = Some e" "table_wf save_CTxOutPoint save_CTxOut (\<lambda>_. True) (\<lambda>_. True) e"
  shows "\<exists>e'. walk_list (CopyWalker (\<lambda>_. True)) (map (table_entry save_CTxOutPoint save_CTxOut) ents) dst
      = (True, dst\<lparr> udb_kv := Some e' \<rparr>) \<and> disk_read (Some e') = fold (\<lambda>(k, v) m. m(k \<mapsto> v)) ents (disk_read (Some e))
    \<and> table_wf save_CTxOutPoint save_CTxOut (\<lambda>_. True) (\<lambda>_. True) e'"
  using assms
proof (induction ents arbitrary: dst e)
  case Nil
  then show ?case by (intro exI [of _ e]) (cases dst, simp)
next
  case (Cons kv ents)
  obtain k v where kv: "kv = (k, v)" by fastforce
  let ?e = "e\<lparr> eng_pdb := std_assign (save_CTxOutPoint k) (save_CTxOut v) (eng_pdb e) \<rparr>"
  have "WriteUnspent True k v dst = (True, dst\<lparr> udb_kv := Some ?e \<rparr>)"
    using Cons.prems by (simp add: WriteUnspent_def kv_Write_def kv_lift_def eng_Put_def table_wf_def)
  moreover have "disk_read (Some ?e) = (disk_read (Some e))(k \<mapsto> v)"
    using utab.read_assign [where k = k and v = v and e = e] by (simp add: fun_eq_iff disk_read_def)
  moreover have "table_wf save_CTxOutPoint save_CTxOut (\<lambda>_. True) (\<lambda>_. True) ?e" using Cons.prems by (intro utab.wf_assign) auto
  ultimately show ?case
    using Cons.IH [of "dst\<lparr> udb_kv := Some ?e \<rparr>" ?e] by (simp add: kv table_entry_def [of _ _ "(k, v)"] CopyWalker_entry)
qed

lemma RemoveAll_ok: "udb_kv dst = Some e \<Longrightarrow> RemoveAll True dst = (True, udb_open (Some (eng_Open [])))"
  by (cases dst) (simp add: RemoveAll_def kv_RemoveAll_def eng_RemoveAll_def udb_open_def)

lemma empty_table: "table_wf sk sv ko vo (eng_Open [])"
  by (simp add: table_wf_def eng_Open_def)

text \<open>A copy whose writes all succeed reads like the original.\<close>

lemma Copy_complete:
  assumes "udb_inv db" "udb_kv dst = Some e0"
  shows "\<exists>db' dst'. Copy True (\<lambda>_. True) db dst = (True, db', dst') \<and> ReadUnspent dst' = ReadUnspent db
    \<and> ReadUnspent db' = ReadUnspent db \<and> udb_inv db' \<and> udb_inv dst'"
proof -
  obtain e where e: "udb_kv db = Some e" "table_wf save_CTxOutPoint save_CTxOut (\<lambda>_. True) (\<lambda>_. True) e"
    using assms(1) by (auto simp: udb_inv_def split: option.splits)
  obtain ents where ents: "eng_pdb e = map (table_entry save_CTxOutPoint save_CTxOut) ents" "distinct (map fst ents)"
      "\<And>k v. (k, v) \<in> set ents \<longleftrightarrow> disk_read (Some e) k = Some v"
    using utab.entries [OF e(2)] unfolding disk_read_def by auto
  let ?d = "udb_open (Some (eng_Open []))"
  obtain e' where e': "walk_list (CopyWalker (\<lambda>_. True)) (eng_pdb e) ?d = (True, ?d\<lparr> udb_kv := Some e' \<rparr>)"
      "disk_read (Some e') = fold (\<lambda>(k, v) m. m(k \<mapsto> v)) ents (disk_read (Some (eng_Open [])))"
      "table_wf save_CTxOutPoint save_CTxOut (\<lambda>_. True) (\<lambda>_. True) e'"
    using copy_walk [of ?d, OF _ empty_table, of ents] unfolding ents(1) by (auto simp: udb_open_def)
  have "disk_read (Some (eng_Open [])) = (\<lambda>_. None)" by (simp add: fun_eq_iff disk_read_def kv_Read_def eng_Get_def eng_Open_def)
  then have "disk_read (Some e') k = disk_read (Some e) k" for k
    using ents(2) ents(3) [of k] unfolding e'(2) by (cases "disk_read (Some e) k") (auto simp: fold_assign_apply map_of_eq_None_iff split: option.splits)
  then have "disk_read (Some e') = disk_read (Some e)" by (simp add: fun_eq_iff)
  moreover obtain i where "kv_WalkThrough (CopyWalker (\<lambda>_. True)) (udb_kv db) ?d = (True, Some (e\<lparr> eng_piter := Some i \<rparr>), ?d\<lparr> udb_kv := Some e' \<rparr>)"
    using kv_WalkThrough_list [of "CopyWalker (\<lambda>_. True)" e ?d] e'(1) e(1) by auto
  moreover have "disk_read (Some (e\<lparr> eng_piter := Some i \<rparr>)) = disk_read (Some e)" by (simp add: fun_eq_iff disk_read_def kv_Read_def eng_Get_def)
  ultimately show ?thesis using e e'(3) assms(1)
    by (simp add: Copy_def RemoveAll_ok [OF assms(2)] ReadUnspent_def udb_open_def udb_inv_def)
qed

text \<open>
  A copy whose writes fail reports success as well, with nothing copied: the walk over the source ends
  at the first failed write, and the walk returns true however it ends.
\<close>

lemma Copy_reports_failed_writes_as_success:
  assumes "udb_inv db" "udb_kv dst = Some e0"
  shows "\<exists>db' dst'. Copy True (\<lambda>_. False) db dst = (True, db', dst') \<and> udb_kv dst' = Some (eng_Open [])"
proof -
  obtain e where e: "udb_kv db = Some e" "table_wf save_CTxOutPoint save_CTxOut (\<lambda>_. True) (\<lambda>_. True) e"
    using assms(1) by (auto simp: udb_inv_def split: option.splits)
  obtain ents where ents: "eng_pdb e = map (table_entry save_CTxOutPoint save_CTxOut) ents"
    using utab.entries [OF e(2)] by auto
  let ?d = "udb_open (Some (eng_Open []))"
  have "walk_list (CopyWalker (\<lambda>_. False)) (eng_pdb e) ?d = (True, ?d)"
  proof (cases ents)
    case (Cons kv es)
    have "WriteUnspent False (fst kv) (snd kv) ?d = (False, ?d)"
      by (simp add: WriteUnspent_def kv_Write_def kv_lift_def eng_Put_def udb_open_def eng_Open_def)
    then show ?thesis using Cons by (simp add: ents table_entry_def [of _ _ kv] CopyWalker_entry)
  qed (simp add: ents)
  then obtain i where "kv_WalkThrough (CopyWalker (\<lambda>_. False)) (udb_kv db) ?d = (True, Some (e\<lparr> eng_piter := Some i \<rparr>), ?d)"
    using kv_WalkThrough_list [of "CopyWalker (\<lambda>_. False)" e ?d] e(1) by auto
  then show ?thesis by (simp add: Copy_def RemoveAll_ok [OF assms(2)] udb_open_def)
qed

section \<open>Forks do not interfere\<close>

text \<open>An update of one fork changes what that fork reads, as the map it stands for, and no other fork.\<close>

lemma forks_Update_frame:
  assumes "\<And>h db. map_of m h = Some db \<Longrightarrow> udb_inv db" "forks_ExistFork hashFork m"
  shows "forks_Retrieve h (snd (forks_Update hashFork vAddNew vRemove m)) =
    (if h = hashFork then utxo_update vAddNew vRemove (forks_Retrieve hashFork m) else forks_Retrieve h m)"
proof -
  obtain db where db: "map_of m hashFork = Some db" using assms(2) by (auto simp: forks_ExistFork_def)
  have get: "forks_Retrieve h m = (case map_of m h of None \<Rightarrow> (\<lambda>_. None) | Some db \<Rightarrow> ReadUnspent db)" for h m
    by (auto simp: fun_eq_iff forks_Retrieve_def split: option.splits)
  show ?thesis unfolding get using db Update_read [OF assms(1) [OF db]] by (simp add: forks_Update_def forks_with_def)
qed

text \<open>A round of the flush thread changes nothing that is read.\<close>

lemma FlushProc_read:
  assumes "\<And>h db. map_of m h = Some db \<Longrightarrow> udb_inv db"
  shows "forks_Retrieve h (FlushProc status m) = forks_Retrieve h m"
proof -
  have "map_of (FlushProc status m) h = map_option (\<lambda>db. snd (Flush (status h) db)) (map_of m h)"
    unfolding FlushProc_def by (induction m) auto
  then show ?thesis using Flush_ok [OF assms] by (auto simp: fun_eq_iff forks_Retrieve_def split: option.splits)
qed

end
