(* ===== verification/Block_View.thy ===== *)
theory Block_View
  imports Unspent_DB Ledger_Block
begin

text \<open>
  The view of the unspent outputs at a block (\<^verbatim>\<open>CBlockView\<close> of \<^verbatim>\<open>storage/blockbase.h\<close> and
  \<^verbatim>\<open>storage/blockbase.cpp\<close>): the changes against the database are collected in \<^verbatim>\<open>mapUnspent\<close>, with a
  counter that tells which of them are left when the view is committed.  The specification is a map
  from output references to outputs on which a transaction is applied and undone; the lemmas show that
  the view follows it and that its changes turn the database into it.
\<close>

section \<open>CViewUnspent\<close>

record CViewUnspent =
  vu_output :: CTxOut
  vu_nTxType :: i32
  vu_nHeight :: i32
  vu_fSpent :: bool
  vu_nOpt :: int

definition vu_init :: CViewUnspent where
  "vu_init = \<lparr> vu_output = txout_null, vu_nTxType = - 1, vu_nHeight = - 1, vu_fSpent = False, vu_nOpt = 0 \<rparr>"

definition vu_Enable :: "CTxOut \<Rightarrow> i32 \<Rightarrow> i32 \<Rightarrow> CViewUnspent \<Rightarrow> CViewUnspent" where
  "vu_Enable outputIn nTxTypeIn nHeightIn u = \<lparr> vu_output = outputIn, vu_nTxType = nTxTypeIn, vu_nHeight = nHeightIn,
     vu_fSpent = False, vu_nOpt = vu_nOpt u + 1 \<rparr>"

definition vu_Disable :: "CTxOut \<Rightarrow> i32 \<Rightarrow> i32 \<Rightarrow> CViewUnspent \<Rightarrow> CViewUnspent" where
  "vu_Disable outputIn nTxTypeIn nHeightIn u = \<lparr> vu_output = outputIn, vu_nTxType = nTxTypeIn, vu_nHeight = nHeightIn,
     vu_fSpent = True, vu_nOpt = vu_nOpt u - 1 \<rparr>"

definition vu_IsModified :: "CViewUnspent \<Rightarrow> bool" where
  "vu_IsModified u = (vu_nOpt u \<noteq> 0)"

section \<open>CBlockView\<close>

type_synonym view_map = "(CTxOutPoint \<times> CViewUnspent) list"

record CBlockView =
  view_hashFork :: uint256
  view_fCommittable :: bool
  view_mapTx :: "(uint256 \<times> CTransaction) list"
  view_mapUnspent :: view_map
  view_vTxRemove :: "uint256 list"
  view_vAddrTxRemove :: "CAddrTxIndex list"
  view_vTxAddNew :: "uint256 list"
  view_vBlockAddNew :: "(uint256 \<times> CBlockEx) list"
  view_vBlockRemove :: "(uint256 \<times> CBlockEx) list"

text \<open>A view is initialised once, after its construction, with all containers empty.\<close>

definition view_Initialize :: "uint256 \<Rightarrow> bool \<Rightarrow> CBlockView" where
  "view_Initialize hashForkIn fCommittableIn = \<lparr> view_hashFork = hashForkIn, view_fCommittable = fCommittableIn,
     view_mapTx = [], view_mapUnspent = [], view_vTxRemove = [], view_vAddrTxRemove = [], view_vTxAddNew = [],
     view_vBlockAddNew = [], view_vBlockRemove = [] \<rparr>"

definition view_ExistsTx :: "(uint256 \<Rightarrow> bool) \<Rightarrow> CBlockView \<Rightarrow> uint256 \<Rightarrow> bool" where
  "view_ExistsTx baseExistsTx view txid = (case map_of (view_mapTx view) txid of
     Some tx \<Rightarrow> \<not> tx_IsNull tx | None \<Rightarrow> baseExistsTx txid)"

definition view_RetrieveTx :: "(uint256 \<Rightarrow> CTransaction option) \<Rightarrow> CBlockView \<Rightarrow> uint256 \<Rightarrow> CTransaction option" where
  "view_RetrieveTx baseRetrieveTx view txid = (case map_of (view_mapTx view) txid of
     Some tx \<Rightarrow> if tx_IsNull tx then None else Some tx | None \<Rightarrow> baseRetrieveTx txid)"

definition map_RetrieveUnspent :: "(CTxOutPoint \<Rightarrow> CTxOut option) \<Rightarrow> view_map \<Rightarrow> CTxOutPoint \<Rightarrow> CTxOut option" where
  "map_RetrieveUnspent baseUnspent m out = (case map_of m out of
     Some u \<Rightarrow> if vu_fSpent u then None else Some (vu_output u) | None \<Rightarrow> baseUnspent out)"

definition view_RetrieveUnspent :: "(CTxOutPoint \<Rightarrow> CTxOut option) \<Rightarrow> CBlockView \<Rightarrow> CTxOutPoint \<Rightarrow> CTxOut option" where
  "view_RetrieveUnspent baseUnspent view = map_RetrieveUnspent baseUnspent (view_mapUnspent view)"

definition view_set :: "(CTxOut \<Rightarrow> i32 \<Rightarrow> i32 \<Rightarrow> CViewUnspent \<Rightarrow> CViewUnspent) \<Rightarrow> CTxOutPoint \<Rightarrow> CTxOut \<Rightarrow> i32 \<Rightarrow> i32 \<Rightarrow> view_map \<Rightarrow> view_map" where
  "view_set f out output nTxType nHeight m = std_modify out vu_init (f output nTxType nHeight) m"

definition contxt_output :: "CDestination \<Rightarrow> CTxInContxt \<Rightarrow> CTxOut" where
  "contxt_output destIn c = \<lparr> out_destTo = destIn, out_nAmount = inc_nAmount c, out_nTxTime = inc_nTxTime c,
     out_nLockUntil = inc_nLockUntil c \<rparr>"

text \<open>The loop over the inputs reads \<^verbatim>\<open>txContxt.vin[i]\<close> without a check.\<close>

fun view_inputs :: "(CTxOut \<Rightarrow> i32 \<Rightarrow> i32 \<Rightarrow> CViewUnspent \<Rightarrow> CViewUnspent) \<Rightarrow> CDestination \<Rightarrow> CTxIn list \<Rightarrow> CTxInContxt list \<Rightarrow> view_map
    \<Rightarrow> stream_error + view_map" where
  "view_inputs f destIn [] vin m = Inr m"
| "view_inputs f destIn (i # is) [] m = Inl OutOfBounds"
| "view_inputs f destIn (i # is) (c # vin) m = view_inputs f destIn is vin (view_set f (prevout i) (contxt_output destIn c) (- 1) (- 1) m)"

definition view_outputs :: "(CTxOut \<Rightarrow> i32 \<Rightarrow> i32 \<Rightarrow> CViewUnspent \<Rightarrow> CViewUnspent) \<Rightarrow> uint256 \<Rightarrow> CTransaction \<Rightarrow> i32 \<Rightarrow> CTxContxt \<Rightarrow> view_map \<Rightarrow> view_map" where
  "view_outputs f txid tx nHeight txContxt m =
     (let output0 = txout_of_tx tx; output1 = txout_change tx (ctxt_destIn txContxt) (txcontxt_GetValueIn txContxt);
          m0 = (if txout_IsNull output0 then m else view_set f (CTxOutPoint txid 0) output0 (ucast (tx_nType tx)) nHeight m)
      in if txout_IsNull output1 then m0 else view_set f (CTxOutPoint txid 1) output1 (ucast (tx_nType tx)) nHeight m0)"

definition AddTx :: "uint256 \<Rightarrow> CTransaction \<Rightarrow> i32 \<Rightarrow> CTxContxt \<Rightarrow> CBlockView \<Rightarrow> stream_error + CBlockView" where
  "AddTx txid tx nHeight txContxt view = map_sum id
     (\<lambda>m. view\<lparr> view_mapTx := std_assign txid tx (view_mapTx view), view_vTxAddNew := view_vTxAddNew view @ [txid],
            view_mapUnspent := view_outputs vu_Enable txid tx nHeight txContxt m \<rparr>)
     (view_inputs vu_Disable (ctxt_destIn txContxt) (tx_vInput tx) (ctxt_vin txContxt) (view_mapUnspent view))"

definition addr_removals :: "uint256 \<Rightarrow> CTransaction \<Rightarrow> i32 \<Rightarrow> i32 \<Rightarrow> i32 \<Rightarrow> CTxContxt \<Rightarrow> CAddrTxIndex list" where
  "addr_removals txid tx nHeight nBlockSeq nTxSeq txContxt =
     (let seq = addrtx_HeightSeq nHeight nBlockSeq nTxSeq
      in if ctxt_destIn txContxt = tx_sendTo tx then [CAddrTxIndex (ctxt_destIn txContxt) seq txid]
         else (if dest_IsNull (ctxt_destIn txContxt) then [] else [CAddrTxIndex (ctxt_destIn txContxt) seq txid])
              @ [CAddrTxIndex (tx_sendTo tx) seq txid])"

definition RemoveTx :: "uint256 \<Rightarrow> CTransaction \<Rightarrow> i32 \<Rightarrow> i32 \<Rightarrow> i32 \<Rightarrow> CTxContxt \<Rightarrow> bool \<Rightarrow> CBlockView \<Rightarrow> stream_error + CBlockView" where
  "RemoveTx txid tx nHeight nBlockSeq nTxSeq txContxt fAddrTxIndexIn view = map_sum id
     (\<lambda>m. view\<lparr> view_mapTx := std_assign txid tx_SetNull (view_mapTx view), view_vTxRemove := view_vTxRemove view @ [txid],
            view_vAddrTxRemove := view_vAddrTxRemove view @
              (if fAddrTxIndexIn then addr_removals txid tx nHeight nBlockSeq nTxSeq txContxt else []),
            view_mapUnspent := view_outputs vu_Disable txid tx nHeight txContxt m \<rparr>)
     (view_inputs vu_Enable (ctxt_destIn txContxt) (tx_vInput tx) (ctxt_vin txContxt) (view_mapUnspent view))"

definition InsertBlockList :: "uint256 \<Rightarrow> CBlockEx \<Rightarrow> (uint256 \<times> CBlockEx) list \<Rightarrow> (uint256 \<times> CBlockEx) list" where
  "InsertBlockList hash block blockList =
     (if blockList = [] then [(hash, block)]
      else if blk_hashPrev block = fst (hd blockList) then (hash, block) # blockList
      else if blk_hashPrev (snd (last blockList)) = hash then blockList @ [(hash, block)]
      else blockList)"

definition AddBlock :: "uint256 \<Rightarrow> CBlockEx \<Rightarrow> CBlockView \<Rightarrow> CBlockView" where
  "AddBlock hash block view = view\<lparr> view_vBlockAddNew := InsertBlockList hash block (view_vBlockAddNew view) \<rparr>"

definition RemoveBlock :: "uint256 \<Rightarrow> CBlockEx \<Rightarrow> CBlockView \<Rightarrow> CBlockView" where
  "RemoveBlock hash block view = view\<lparr> view_vBlockRemove := InsertBlockList hash block (view_vBlockRemove view) \<rparr>"

subsection \<open>The changes of a view\<close>

text \<open>
  The entries that are modified, in the order of the map; type and height of an output that was
  enabled again are looked up (\<open>retrieveTx\<close>, with the type and the height of a transaction) and kept.
\<close>

definition unspent_info :: "(uint256 \<Rightarrow> (u16 \<times> i32) option) \<Rightarrow> CTxOutPoint \<Rightarrow> CViewUnspent \<Rightarrow> CViewUnspent" where
  "unspent_info retrieveTx out u =
     (if vu_IsModified u \<and> \<not> vu_fSpent u \<and> (vu_nTxType u = - 1 \<or> vu_nHeight u = - 1)
      then case retrieveTx (op_hash out) of
             Some (nType, nHeight) \<Rightarrow> u\<lparr> vu_nTxType := ucast nType, vu_nHeight := nHeight \<rparr>
           | None \<Rightarrow> u
      else u)"

definition as_unspent :: "CTxOutPoint \<times> CViewUnspent \<Rightarrow> CTxUnspent" where
  "as_unspent e = \<lparr> un_outpoint = fst e, un_output = vu_output (snd e), un_nTxType = vu_nTxType (snd e), un_nHeight = vu_nHeight (snd e) \<rparr>"

definition GetUnspentChanges :: "(uint256 \<Rightarrow> (u16 \<times> i32) option) \<Rightarrow> CBlockView \<Rightarrow> CTxUnspent list \<times> CTxUnspent list \<times> CBlockView" where
  "GetUnspentChanges retrieveTx view =
     (let m = map (\<lambda>(out, u). (out, unspent_info retrieveTx out u)) (view_mapUnspent view)
      in (map as_unspent (filter (\<lambda>e. vu_IsModified (snd e) \<and> \<not> vu_fSpent (snd e)) m),
          map as_unspent (filter (\<lambda>e. vu_IsModified (snd e) \<and> vu_fSpent (snd e)) m),
          view\<lparr> view_mapUnspent := m \<rparr>))"

text \<open>The other overload returns references only for the spent outputs.\<close>

definition GetUnspentChanges_refs :: "CBlockView \<Rightarrow> CTxUnspent list \<times> CTxOutPoint list" where
  "GetUnspentChanges_refs view =
     (map as_unspent (filter (\<lambda>e. vu_IsModified (snd e) \<and> \<not> vu_fSpent (snd e)) (view_mapUnspent view)),
      map fst (filter (\<lambda>e. vu_IsModified (snd e) \<and> vu_fSpent (snd e)) (view_mapUnspent view)))"

definition view_tx :: "CBlockView \<Rightarrow> uint256 \<Rightarrow> CTransaction" where
  "view_tx view txid = (case map_of (view_mapTx view) txid of Some tx \<Rightarrow> tx | None \<Rightarrow> tx_SetNull)"

definition GetTxUpdated :: "CBlockView \<Rightarrow> uint256 set" where
  "GetTxUpdated view = set (filter (\<lambda>txid. \<not> tx_IsNull (view_tx view txid)) (view_vTxRemove view))"

definition GetTxRemoved :: "CBlockView \<Rightarrow> bool \<Rightarrow> uint256 list \<times> CAddrTxIndex list" where
  "GetTxRemoved view fAddrTxIndexIn =
     (filter (\<lambda>txid. tx_IsNull (view_tx view txid)) (view_vTxRemove view),
      if fAddrTxIndexIn then filter (\<lambda>a. tx_IsNull (view_tx view (ati_txid a))) (view_vAddrTxRemove view) else [])"

definition view_GetBlockChanges :: "CBlockView \<Rightarrow> CBlockEx list \<times> CBlockEx list" where
  "view_GetBlockChanges view = (map snd (view_vBlockAddNew view), map snd (view_vBlockRemove view))"

section \<open>Transactions on a map of unspent outputs\<close>

type_synonym utxo = "CTxOutPoint \<Rightarrow> CTxOut option"

text \<open>The outputs a transaction creates, and those its context says it spends.\<close>

definition tx_created :: "uint256 \<Rightarrow> CTransaction \<Rightarrow> CTxContxt \<Rightarrow> (CTxOutPoint \<times> CTxOut) list" where
  "tx_created txid tx c = filter (\<lambda>e. \<not> txout_IsNull (snd e))
     [(CTxOutPoint txid 0, txout_of_tx tx), (CTxOutPoint txid 1, txout_change tx (ctxt_destIn c) (txcontxt_GetValueIn c))]"

definition tx_spent :: "CTransaction \<Rightarrow> CTxContxt \<Rightarrow> (CTxOutPoint \<times> CTxOut) list" where
  "tx_spent tx c = zip (map prevout (tx_vInput tx)) (map (contxt_output (ctxt_destIn c)) (ctxt_vin c))"

definition put_all :: "(CTxOutPoint \<times> CTxOut) list \<Rightarrow> utxo \<Rightarrow> utxo" where
  "put_all es m = fold (\<lambda>(k, u) m. m(k \<mapsto> u)) es m"

definition drop_all :: "(CTxOutPoint \<times> CTxOut) list \<Rightarrow> utxo \<Rightarrow> utxo" where
  "drop_all es m = fold (\<lambda>(k, u) m. m(k := None)) es m"

definition tx_apply :: "uint256 \<Rightarrow> CTransaction \<Rightarrow> CTxContxt \<Rightarrow> utxo \<Rightarrow> utxo" where
  "tx_apply txid tx c m = put_all (tx_created txid tx c) (drop_all (tx_spent tx c) m)"

definition tx_undo :: "uint256 \<Rightarrow> CTransaction \<Rightarrow> CTxContxt \<Rightarrow> utxo \<Rightarrow> utxo" where
  "tx_undo txid tx c m = drop_all (tx_created txid tx c) (put_all (tx_spent tx c) m)"

text \<open>
  A transaction fits a map when its inputs are different outputs of the map, with the values the
  context records, and the map has none of the outputs it creates.
\<close>

definition tx_fits :: "uint256 \<Rightarrow> CTransaction \<Rightarrow> CTxContxt \<Rightarrow> utxo \<Rightarrow> bool" where
  "tx_fits txid tx c m \<longleftrightarrow> length (tx_vInput tx) \<le> length (ctxt_vin c) \<and> distinct (map prevout (tx_vInput tx))
     \<and> (\<forall>(k, u)\<in>set (tx_spent tx c). m k = Some u) \<and> (\<forall>(k, u)\<in>set (tx_created txid tx c). m k = None)"

lemma drop_all_apply: "drop_all es m x = (if x \<in> fst ` set es then None else m x)"
  unfolding drop_all_def by (induction es arbitrary: m) auto

lemma put_all_apply: "distinct (map fst es) \<Longrightarrow> put_all es m x = (case map_of es x of Some u \<Rightarrow> Some u | None \<Rightarrow> m x)"
  unfolding put_all_def by (rule fold_assign_apply)

lemma tx_created_distinct: "distinct (map fst (tx_created txid tx c))"
  by (auto simp: tx_created_def)

lemma tx_spent_keys: "length (tx_vInput tx) \<le> length (ctxt_vin c) \<Longrightarrow> map fst (tx_spent tx c) = map prevout (tx_vInput tx)"
  by (simp add: tx_spent_def map_fst_zip_take min_def)

text \<open>Undoing a transaction on the map it was applied to gives the map back.\<close>

lemma tx_undo_apply:
  assumes "tx_fits txid tx c m"
  shows "tx_undo txid tx c (tx_apply txid tx c m) = m"
proof
  fix x
  let ?s = "tx_spent tx c" and ?o = "tx_created txid tx c"
  have d: "distinct (map fst ?s)" using assms by (simp add: tx_fits_def tx_spent_keys)
  have spent: "m x = Some u" if "map_of ?s x = Some u" for u using assms map_of_SomeD [OF that] by (auto simp: tx_fits_def)
  have fresh: "m x = None" if "x \<in> fst ` set ?o" using assms that by (auto simp: tx_fits_def)
  have notin: "map_of ?o x = None" if "x \<notin> fst ` set ?o" using that by (simp add: map_of_eq_None_iff)
  show "tx_undo txid tx c (tx_apply txid tx c m) x = m x"
    using spent fresh notin
    by (auto simp: tx_undo_def tx_apply_def drop_all_apply put_all_apply d tx_created_distinct map_of_eq_None_iff rev_image_eqI
        split: option.splits)
qed

section \<open>The view follows the specification\<close>

lemma retrieve_view_set:
  "map_RetrieveUnspent base (view_set vu_Enable out u t h m) = (map_RetrieveUnspent base m)(out \<mapsto> u)"
  "map_RetrieveUnspent base (view_set vu_Disable out u t h m) = (map_RetrieveUnspent base m)(out := None)"
  by (auto simp: fun_eq_iff map_RetrieveUnspent_def view_set_def std_modify_def vu_Enable_def vu_Disable_def)

lemma view_inputs_retrieve:
  "view_inputs vu_Disable d is vin m = Inr m' \<Longrightarrow>
     map_RetrieveUnspent base m' = drop_all (zip (map prevout is) (map (contxt_output d) vin)) (map_RetrieveUnspent base m)"
  "view_inputs vu_Enable d is vin m = Inr m' \<Longrightarrow>
     map_RetrieveUnspent base m' = put_all (zip (map prevout is) (map (contxt_output d) vin)) (map_RetrieveUnspent base m)"
proof -
  show "view_inputs vu_Disable d is vin m = Inr m' \<Longrightarrow>
      map_RetrieveUnspent base m' = drop_all (zip (map prevout is) (map (contxt_output d) vin)) (map_RetrieveUnspent base m)"
    by (induction "vu_Disable" d "is" vin m rule: view_inputs.induct) (simp_all add: drop_all_def retrieve_view_set)
  show "view_inputs vu_Enable d is vin m = Inr m' \<Longrightarrow>
      map_RetrieveUnspent base m' = put_all (zip (map prevout is) (map (contxt_output d) vin)) (map_RetrieveUnspent base m)"
    by (induction "vu_Enable" d "is" vin m rule: view_inputs.induct) (simp_all add: put_all_def retrieve_view_set)
qed

lemma view_outputs_retrieve:
  "map_RetrieveUnspent base (view_outputs vu_Enable txid tx h c m) = put_all (tx_created txid tx c) (map_RetrieveUnspent base m)"
  "map_RetrieveUnspent base (view_outputs vu_Disable txid tx h c m) = drop_all (tx_created txid tx c) (map_RetrieveUnspent base m)"
  by (simp_all add: view_outputs_def Let_def tx_created_def put_all_def drop_all_def retrieve_view_set)

lemma map_sum_Inr: "map_sum id f r = Inr y \<longleftrightarrow> (\<exists>x. r = Inr x \<and> y = f x)"
  by (cases r) auto

lemma AddTx_retrieve:
  "AddTx txid tx h c view = Inr view' \<Longrightarrow> view_RetrieveUnspent base view' = tx_apply txid tx c (view_RetrieveUnspent base view)"
  by (auto simp: AddTx_def map_sum_Inr view_RetrieveUnspent_def tx_apply_def tx_spent_def view_outputs_retrieve view_inputs_retrieve(1))

lemma RemoveTx_retrieve:
  "RemoveTx txid tx h bs ts c fAddr view = Inr view' \<Longrightarrow> view_RetrieveUnspent base view' = tx_undo txid tx c (view_RetrieveUnspent base view)"
  by (auto simp: RemoveTx_def map_sum_Inr view_RetrieveUnspent_def tx_undo_def tx_spent_def view_outputs_retrieve view_inputs_retrieve(2))

lemma view_inputs_total: "length is \<le> length vin \<Longrightarrow> \<exists>m'. view_inputs f d is vin m = Inr m'"
  by (induction f d "is" vin m rule: view_inputs.induct) auto

lemma AddTx_total: "length (tx_vInput tx) \<le> length (ctxt_vin c) \<Longrightarrow> \<exists>view'. AddTx txid tx h c view = Inr view'"
  using view_inputs_total by (fastforce simp: AddTx_def map_sum_Inr)

lemma RemoveTx_total: "length (tx_vInput tx) \<le> length (ctxt_vin c) \<Longrightarrow> \<exists>view'. RemoveTx txid tx h bs ts c fAddr view = Inr view'"
  using view_inputs_total by (fastforce simp: RemoveTx_def map_sum_Inr)

section \<open>The counter of the changes\<close>

text \<open>
  The counter of an entry is 1 for an output that is new against the database, -1 for one that is
  spent, and 0 where the view has come back to what the database has.
\<close>

definition entry_inv :: "utxo \<Rightarrow> CTxOutPoint \<Rightarrow> CViewUnspent \<Rightarrow> bool" where
  "entry_inv base k e \<longleftrightarrow> vu_nOpt e = (if vu_fSpent e then 0 else 1) - (if base k = None then 0 else 1)
     \<and> (\<not> vu_fSpent e \<and> base k \<noteq> None \<longrightarrow> base k = Some (vu_output e)) \<and> (\<not> vu_fSpent e \<longrightarrow> \<not> txout_IsNull (vu_output e))"

definition map_inv :: "utxo \<Rightarrow> view_map \<Rightarrow> bool" where
  "map_inv base m \<longleftrightarrow> std_sorted m \<and> (\<forall>k e. map_of m k = Some e \<longrightarrow> entry_inv base k e)"

definition utxo_ok :: "utxo \<Rightarrow> bool" where
  "utxo_ok m \<longleftrightarrow> (\<forall>k u. m k = Some u \<longrightarrow> \<not> txout_IsNull u)"

lemma map_inv_Disable:
  assumes "map_inv base m" "map_RetrieveUnspent base m k = Some u'"
  shows "map_inv base (view_set vu_Disable k u t h m)"
proof (cases "map_of m k")
  case None
  then show ?thesis using assms
    by (auto simp: map_inv_def view_set_def std_modify_def entry_inv_def vu_Disable_def vu_init_def map_RetrieveUnspent_def)
next
  case (Some e)
  then have "entry_inv base k e" "\<not> vu_fSpent e" using assms by (auto simp: map_inv_def map_RetrieveUnspent_def split: if_splits)
  then show ?thesis using assms(1) Some by (auto simp: map_inv_def view_set_def std_modify_def entry_inv_def vu_Disable_def)
qed

lemma map_inv_Enable:
  assumes "map_inv base m" "map_RetrieveUnspent base m k = None" "\<not> txout_IsNull u" "base k \<noteq> None \<longrightarrow> base k = Some u"
  shows "map_inv base (view_set vu_Enable k u t h m)"
proof (cases "map_of m k")
  case None
  then show ?thesis using assms
    by (auto simp: map_inv_def view_set_def std_modify_def entry_inv_def vu_Enable_def vu_init_def map_RetrieveUnspent_def)
next
  case (Some e)
  then have "entry_inv base k e" "vu_fSpent e" using assms by (auto simp: map_inv_def map_RetrieveUnspent_def split: if_splits)
  then show ?thesis using assms Some by (auto simp: map_inv_def view_set_def std_modify_def entry_inv_def vu_Enable_def)
qed

text \<open>Both loops of a transaction are folds over the outputs it spends and creates.\<close>

abbreviation set_all :: "(CTxOut \<Rightarrow> i32 \<Rightarrow> i32 \<Rightarrow> CViewUnspent \<Rightarrow> CViewUnspent) \<Rightarrow> i32 \<Rightarrow> i32 \<Rightarrow> (CTxOutPoint \<times> CTxOut) list \<Rightarrow> view_map \<Rightarrow> view_map" where
  "set_all f t h es m \<equiv> fold (\<lambda>(k, u). view_set f k u t h) es m"

lemma view_inputs_fold:
  "length is \<le> length vin \<Longrightarrow> view_inputs f d is vin m = Inr (set_all f (- 1) (- 1) (zip (map prevout is) (map (contxt_output d) vin)) m)"
  by (induction f d "is" vin m rule: view_inputs.induct) simp_all

lemma view_outputs_fold: "view_outputs f txid tx h c m = set_all f (ucast (tx_nType tx)) h (tx_created txid tx c) m"
  by (simp add: view_outputs_def Let_def tx_created_def)

lemma set_all_Disable_inv:
  assumes "map_inv base m" "distinct (map fst es)" "\<forall>(k, u)\<in>set es. map_RetrieveUnspent base m k \<noteq> None"
  shows "map_inv base (set_all vu_Disable t h es m)"
  using assms
proof (induction es arbitrary: m)
  case (Cons e es)
  obtain k u where e: "e = (k, u)" by fastforce
  have "map_inv base (view_set vu_Disable k u t h m)" using Cons.prems e by (auto intro: map_inv_Disable)
  moreover have "\<forall>(k', u')\<in>set es. map_RetrieveUnspent base (view_set vu_Disable k u t h m) k' \<noteq> None"
    using Cons.prems e by (auto simp: retrieve_view_set rev_image_eqI)
  ultimately show ?case using Cons.IH Cons.prems(2) e by simp
qed simp

lemma set_all_Enable_inv:
  assumes "map_inv base m" "distinct (map fst es)"
    and "\<forall>(k, u)\<in>set es. map_RetrieveUnspent base m k = None \<and> \<not> txout_IsNull u \<and> (base k \<noteq> None \<longrightarrow> base k = Some u)"
  shows "map_inv base (set_all vu_Enable t h es m)"
  using assms
proof (induction es arbitrary: m)
  case (Cons e es)
  obtain k u where e: "e = (k, u)" by fastforce
  have "map_inv base (view_set vu_Enable k u t h m)" using Cons.prems e by (auto intro: map_inv_Enable)
  moreover have "\<forall>(k', u')\<in>set es. map_RetrieveUnspent base (view_set vu_Enable k u t h m) k' = None \<and> \<not> txout_IsNull u'
      \<and> (base k' \<noteq> None \<longrightarrow> base k' = Some u')"
    using Cons.prems e by (auto simp: retrieve_view_set rev_image_eqI)
  ultimately show ?case using Cons.IH Cons.prems(2) e by simp
qed simp

text \<open>
  A reference names one output: the outputs that transactions create agree with one assignment
  \<open>orig\<close> of outputs to references, whatever branch of the block tree they are on.
\<close>

definition utxo_from :: "(CTxOutPoint \<Rightarrow> CTxOut) \<Rightarrow> utxo \<Rightarrow> bool" where
  "utxo_from orig m \<longleftrightarrow> (\<forall>k u. m k = Some u \<longrightarrow> u = orig k \<and> \<not> txout_IsNull u)"

definition tx_conforms :: "(CTxOutPoint \<Rightarrow> CTxOut) \<Rightarrow> uint256 \<Rightarrow> CTransaction \<Rightarrow> CTxContxt \<Rightarrow> bool" where
  "tx_conforms orig txid tx c \<longleftrightarrow> (\<forall>(k, u)\<in>set (tx_created txid tx c). u = orig k)"

lemma tx_created_nonnull: "(k, u) \<in> set (tx_created txid tx c) \<Longrightarrow> \<not> txout_IsNull u"
  by (auto simp: tx_created_def split: if_splits)

lemma tx_apply_from:
  assumes "utxo_from orig m" "tx_conforms orig txid tx c"
  shows "utxo_from orig (tx_apply txid tx c m)"
  unfolding utxo_from_def tx_apply_def put_all_apply [OF tx_created_distinct] drop_all_apply
  using assms tx_created_nonnull
  by (auto simp: utxo_from_def tx_conforms_def dest!: map_of_SomeD split: option.splits if_splits)

lemma AddTx_inv:
  assumes "map_inv base (view_mapUnspent view)" "utxo_from orig base" "tx_conforms orig txid tx c"
    and "tx_fits txid tx c (view_RetrieveUnspent base view)"
  shows "\<exists>view'. AddTx txid tx h c view = Inr view' \<and> map_inv base (view_mapUnspent view')
    \<and> view_RetrieveUnspent base view' = tx_apply txid tx c (view_RetrieveUnspent base view)"
proof -
  let ?m = "view_mapUnspent view" and ?R = "view_RetrieveUnspent base view"
  have len: "length (tx_vInput tx) \<le> length (ctxt_vin c)" using assms(4) by (simp add: tx_fits_def)
  let ?m1 = "set_all vu_Disable (- 1) (- 1) (tx_spent tx c) ?m"
  have in1: "view_inputs vu_Disable (ctxt_destIn c) (tx_vInput tx) (ctxt_vin c) ?m = Inr ?m1"
    using view_inputs_fold [OF len] by (simp add: tx_spent_def)
  have "map_inv base ?m1"
  proof (rule set_all_Disable_inv [OF assms(1)])
    show "distinct (map fst (tx_spent tx c))" using assms(4) by (simp add: tx_fits_def tx_spent_keys)
    show "\<forall>(k, u)\<in>set (tx_spent tx c). map_RetrieveUnspent base ?m k \<noteq> None"
      using assms(4) by (auto simp: tx_fits_def view_RetrieveUnspent_def)
  qed
  moreover have "map_RetrieveUnspent base ?m1 = drop_all (tx_spent tx c) ?R"
    using view_inputs_retrieve(1) [OF in1] by (simp add: tx_spent_def view_RetrieveUnspent_def)
  ultimately have "map_inv base (set_all vu_Enable (ucast (tx_nType tx)) h (tx_created txid tx c) ?m1)"
    using assms(2-4) tx_created_nonnull
    by (intro set_all_Enable_inv tx_created_distinct)
      (fastforce simp: drop_all_apply tx_fits_def tx_conforms_def utxo_from_def)+
  moreover obtain view' where v: "AddTx txid tx h c view = Inr view'" using AddTx_total [OF len] by blast
  moreover have "view_mapUnspent view' = set_all vu_Enable (ucast (tx_nType tx)) h (tx_created txid tx c) ?m1"
    using v in1 by (auto simp: AddTx_def view_outputs_fold)
  ultimately show ?thesis using AddTx_retrieve [OF v] by simp
qed

lemma RemoveTx_inv:
  assumes "map_inv base (view_mapUnspent view)" "utxo_from orig base" "utxo_from orig m0" "tx_fits txid tx c m0"
    and "view_RetrieveUnspent base view = tx_apply txid tx c m0"
  shows "\<exists>view'. RemoveTx txid tx h bs ts c fAddr view = Inr view' \<and> map_inv base (view_mapUnspent view')
    \<and> view_RetrieveUnspent base view' = m0"
proof -
  let ?m = "view_mapUnspent view" and ?R = "view_RetrieveUnspent base view"
  have len: "length (tx_vInput tx) \<le> length (ctxt_vin c)" using assms(4) by (simp add: tx_fits_def)
  have spent: "distinct (map fst (tx_spent tx c))" using assms(4) by (simp add: tx_fits_def tx_spent_keys)
  let ?m1 = "set_all vu_Enable (- 1) (- 1) (tx_spent tx c) ?m"
  have in1: "view_inputs vu_Enable (ctxt_destIn c) (tx_vInput tx) (ctxt_vin c) ?m = Inr ?m1"
    using view_inputs_fold [OF len] by (simp add: tx_spent_def)
  have "map_inv base ?m1"
  proof (rule set_all_Enable_inv [OF assms(1) spent], intro ballI, clarify)
    fix k u assume ku: "(k, u) \<in> set (tx_spent tx c)"
    then have m0: "m0 k = Some u" using assms(4) by (auto simp: tx_fits_def)
    have "map_of (tx_created txid tx c) k = None"
      using m0 assms(4) by (auto simp: tx_fits_def map_of_eq_None_iff)
    then have "tx_apply txid tx c m0 k = None"
      using ku by (auto simp: tx_apply_def put_all_apply [OF tx_created_distinct] drop_all_apply rev_image_eqI)
    then show "map_RetrieveUnspent base ?m k = None \<and> \<not> txout_IsNull u \<and> (base k \<noteq> None \<longrightarrow> base k = Some u)"
      using m0 assms(2,3,5) by (auto simp: utxo_from_def view_RetrieveUnspent_def)
  qed
  moreover have R1: "map_RetrieveUnspent base ?m1 = put_all (tx_spent tx c) (tx_apply txid tx c m0)"
    using view_inputs_retrieve(2) [OF in1] assms(5) by (simp add: tx_spent_def view_RetrieveUnspent_def)
  have "map_inv base (set_all vu_Disable (ucast (tx_nType tx)) h (tx_created txid tx c) ?m1)"
  proof (rule set_all_Disable_inv [OF calculation tx_created_distinct])
    have "map_RetrieveUnspent base ?m1 k \<noteq> None" if "(k, u) \<in> set (tx_created txid tx c)" for k u
    proof -
      have "map_of (tx_created txid tx c) k = Some u" using that by (simp add: tx_created_distinct)
      then show ?thesis unfolding R1 put_all_apply [OF spent] tx_apply_def put_all_apply [OF tx_created_distinct]
        by (simp split: option.splits)
    qed
    then show "\<forall>(k, u)\<in>set (tx_created txid tx c). map_RetrieveUnspent base ?m1 k \<noteq> None" by blast
  qed
  moreover obtain view' where v: "RemoveTx txid tx h bs ts c fAddr view = Inr view'" using RemoveTx_total [OF len] by blast
  moreover have "view_mapUnspent view' = set_all vu_Disable (ucast (tx_nType tx)) h (tx_created txid tx c) ?m1"
    using v in1 by (auto simp: RemoveTx_def view_outputs_fold)
  ultimately show ?thesis using RemoveTx_retrieve [OF v] assms(5) tx_undo_apply [OF assms(4)] by simp
qed

section \<open>Committing a view\<close>

lemma fold_add_unspent:
  "distinct (map un_outpoint as) \<Longrightarrow>
     fold (\<lambda>u m. m(un_outpoint u := (if txout_IsNull (un_output u) then None else Some (un_output u)))) as m x =
       (if x \<in> un_outpoint ` set as then (case map_of (map (\<lambda>u. (un_outpoint u, un_output u)) as) x of
          Some u \<Rightarrow> if txout_IsNull u then None else Some u | None \<Rightarrow> None) else m x)"
  by (induction as arbitrary: m) auto

lemma fold_remove_unspent: "fold (\<lambda>u m. m(un_outpoint u := None)) rs m x = (if x \<in> un_outpoint ` set rs then None else m x)"
  by (induction rs arbitrary: m) auto

lemma map_of_filter: "distinct (map fst m) \<Longrightarrow> map_of (filter P m) x = (case map_of m x of Some v \<Rightarrow> if P (x, v) then Some v else None | None \<Rightarrow> None)"
  by (induction m) (auto split: option.splits simp: map_of_eq_None_iff rev_image_eqI)

text \<open>What \<open>utxo_update\<close> does with the modified entries of a map of views.\<close>

definition changes_new :: "view_map \<Rightarrow> CTxUnspent list" where
  "changes_new m = map as_unspent (filter (\<lambda>e. vu_IsModified (snd e) \<and> \<not> vu_fSpent (snd e)) m)"

definition changes_spent :: "view_map \<Rightarrow> CTxUnspent list" where
  "changes_spent m = map as_unspent (filter (\<lambda>e. vu_IsModified (snd e) \<and> vu_fSpent (snd e)) m)"

lemma update_changes:
  assumes "map_inv base m"
  shows "utxo_update (changes_new m) (changes_spent m) base = map_RetrieveUnspent base m"
proof
  fix x
  let ?n = "filter (\<lambda>e. vu_IsModified (snd e) \<and> \<not> vu_fSpent (snd e)) m"
  let ?s = "filter (\<lambda>e. vu_IsModified (snd e) \<and> vu_fSpent (snd e)) m"
  have d: "distinct (map fst m)" using assms std_sorted_distinct by (auto simp: map_inv_def)
  have keys: "map un_outpoint (changes_new m) = map fst ?n" "un_outpoint ` set (changes_spent m) = fst ` set ?s"
    by (auto simp: changes_new_def changes_spent_def as_unspent_def image_image)
  have dn: "distinct (map un_outpoint (changes_new m))" unfolding keys using d by (simp add: distinct_map_filter)
  have in_iff: "x \<in> fst ` set (filter P m) \<longleftrightarrow> (\<exists>e. map_of m x = Some e \<and> P (x, e))" for P
    using d by (force simp: in_set_std_sorted)
  have out: "map_of (map (\<lambda>u. (un_outpoint u, un_output u)) (changes_new m)) x = map_option vu_output (map_of ?n x)"
    by (induction m) (auto simp: changes_new_def as_unspent_def)
  have set_new: "un_outpoint ` set (changes_new m) = fst ` set ?n" using keys(1) by (metis image_set)
  have "utxo_update (changes_new m) (changes_spent m) base x =
      (if x \<in> fst ` set ?s then None else if x \<in> fst ` set ?n then (case map_option vu_output (map_of ?n x) of
          Some u \<Rightarrow> if txout_IsNull u then None else Some u | None \<Rightarrow> None) else base x)"
    by (simp add: utxo_update_def fold_remove_unspent fold_add_unspent [OF dn] keys(2) set_new out)
  also have "\<dots> = map_RetrieveUnspent base m x"
  proof (cases "map_of m x")
    case None
    then show ?thesis by (simp add: in_iff map_RetrieveUnspent_def del: set_filter)
  next
    case (Some e)
    then have "entry_inv base x e" using assms by (simp add: map_inv_def)
    then show ?thesis using Some
      by (cases "vu_fSpent e"; cases "base x") (simp_all add: in_iff map_of_filter [OF d] map_RetrieveUnspent_def vu_IsModified_def entry_inv_def
          del: set_filter)
  qed
  finally show "utxo_update (changes_new m) (changes_spent m) base x = map_RetrieveUnspent base m x" .
qed

text \<open>Looking up the type and the height of an output changes nothing else.\<close>

lemma unspent_info_fields:
  "vu_output (unspent_info r k e) = vu_output e" "vu_fSpent (unspent_info r k e) = vu_fSpent e" "vu_nOpt (unspent_info r k e) = vu_nOpt e"
  by (auto simp: unspent_info_def split: option.splits)

lemma GetUnspentChanges_update:
  assumes "map_inv base (view_mapUnspent view)" "GetUnspentChanges r view = (vAddNew, vRemove, view')"
  shows "utxo_update vAddNew vRemove base = view_RetrieveUnspent base view"
proof -
  let ?m = "map (\<lambda>(out, u). (out, unspent_info r out u)) (view_mapUnspent view)"
  have of: "map_of (map (\<lambda>(out, u). (out, unspent_info r out u)) m) k = map_option (unspent_info r k) (map_of m k)" for m k
    by (induction m) auto
  have "map fst ?m = map fst (view_mapUnspent view)" by (simp add: comp_def case_prod_unfold)
  then have "std_sorted ?m" using assms(1) unfolding map_inv_def by presburger
  then have "map_inv base ?m" using assms(1) unfolding map_inv_def by (auto simp: of entry_inv_def unspent_info_fields)
  moreover have "vAddNew = changes_new ?m" "vRemove = changes_spent ?m"
    using assms(2) by (auto simp: GetUnspentChanges_def Let_def changes_new_def changes_spent_def)
  moreover have "map_RetrieveUnspent base ?m = view_RetrieveUnspent base view"
    by (simp add: fun_eq_iff map_RetrieveUnspent_def view_RetrieveUnspent_def of unspent_info_fields split: option.splits)
  ultimately show ?thesis using update_changes by simp
qed

end
