(* ===== verification/Chain_View.thy ===== *)
theory Chain_View
  imports Block_View
begin

text \<open>
  Views at arbitrary blocks (\<^verbatim>\<open>GetBranch\<close>, \<^verbatim>\<open>GetBlockView\<close> of \<^verbatim>\<open>storage/blockbase.cpp\<close>): the blocks
  of the main chain are taken back to a common ancestor and those of the branch are applied.  The
  block files are the argument \<open>ts\<close>, which returns the block written at a file and an offset.  The
  lemmas relate the view to the replay of the chain from its first block.
\<close>

section \<open>GetBranch\<close>

text \<open>
  Pointers to index entries are the hashes under which the entries are stored, \<open>None\<close> the null
  pointer.  The result is \<open>Inl ()\<close> where the code dereferences a null pointer.
\<close>

partial_function (option) GetBranch_loop :: "index_store \<Rightarrow> uint256 option \<Rightarrow> uint256 option \<Rightarrow> uint256 list
    \<Rightarrow> (unit + uint256 option \<times> uint256 list) option" where
  "GetBranch_loop st pIndexRef pIndex vPath =
     (if pIndex = pIndexRef then Some (Inr (pIndex, vPath))
      else case (Option.bind pIndexRef st, Option.bind pIndex st) of
        (Some iRef, Some i) \<Rightarrow>
          if index_GetBlockTime iRef > index_GetBlockTime i then GetBranch_loop st (bi_pPrev iRef) pIndex vPath
          else if index_GetBlockTime i > index_GetBlockTime iRef then GetBranch_loop st pIndexRef (bi_pPrev i) (vPath @ [the pIndex])
          else GetBranch_loop st (bi_pPrev iRef) (bi_pPrev i) (vPath @ [the pIndex])
      | _ \<Rightarrow> Some (Inl ()))"

definition GetBranch :: "index_store \<Rightarrow> uint256 \<Rightarrow> uint256 \<Rightarrow> (unit + uint256 option \<times> uint256 list) option" where
  "GetBranch st pIndexRef pIndex = GetBranch_loop st (Some pIndexRef) (Some pIndex) []"

section \<open>GetBlockView\<close>

datatype view_error = ReadFailed | NoIndex | NoFork | Undefined

text \<open>The transactions of a block are removed from the last to the first.\<close>

primrec remove_vtx :: "digest \<Rightarrow> bool \<Rightarrow> CBlockEx \<Rightarrow> nat \<Rightarrow> CBlockView \<Rightarrow> stream_error + CBlockView" where
  "remove_vtx blake2b fAddr block 0 view = Inr view"
| "remove_vtx blake2b fAddr block (Suc j) view =
     (if j < length (bex_vTxContxt block) then
        case RemoveTx (tx_GetHash blake2b (blk_vtx block ! j)) (blk_vtx block ! j) (block_GetBlockHeight block) 0 (of_nat j + 1)
               (bex_vTxContxt block ! j) fAddr view of
          Inl err \<Rightarrow> Inl err | Inr view' \<Rightarrow> remove_vtx blake2b fAddr block j view'
      else Inl OutOfBounds)"

definition remove_block :: "digest \<Rightarrow> bool \<Rightarrow> uint256 \<Rightarrow> CBlockEx \<Rightarrow> CBlockView \<Rightarrow> stream_error + CBlockView" where
  "remove_block blake2b fAddr hash block view =
     (case remove_vtx blake2b fAddr block (length (blk_vtx block)) view of
        Inl err \<Rightarrow> Inl err
      | Inr view' \<Rightarrow> map_sum id (RemoveBlock hash block)
          (if dest_IsNull (tx_sendTo (blk_txMint block)) then Inr view'
           else RemoveTx (tx_GetHash blake2b (blk_txMint block)) (blk_txMint block) (block_GetBlockHeight block) 0 0 txcontxt_null fAddr view'))"

fun add_vtx :: "digest \<Rightarrow> i32 \<Rightarrow> CTransaction list \<Rightarrow> CTxContxt list \<Rightarrow> CBlockView \<Rightarrow> stream_error + CBlockView" where
  "add_vtx blake2b nHeight [] cs view = Inr view"
| "add_vtx blake2b nHeight (tx # vtx) [] view = Inl OutOfBounds"
| "add_vtx blake2b nHeight (tx # vtx) (c # cs) view = (case AddTx (tx_GetHash blake2b tx) tx nHeight c view of
     Inl err \<Rightarrow> Inl err | Inr view' \<Rightarrow> add_vtx blake2b nHeight vtx cs view')"

definition add_mint :: "digest \<Rightarrow> 'z CBlock_scheme \<Rightarrow> CBlockView \<Rightarrow> stream_error + CBlockView" where
  "add_mint blake2b block view = (if dest_IsNull (tx_sendTo (blk_txMint block)) then Inr view
     else AddTx (tx_GetHash blake2b (blk_txMint block)) (blk_txMint block) (block_GetBlockHeight block) txcontxt_null view)"

definition add_block :: "digest \<Rightarrow> uint256 \<Rightarrow> CBlockEx \<Rightarrow> CBlockView \<Rightarrow> stream_error + CBlockView" where
  "add_block blake2b hash block view = (case add_mint blake2b block view of
     Inl err \<Rightarrow> Inl err
   | Inr view' \<Rightarrow> map_sum id (AddBlock hash block) (add_vtx blake2b (block_GetBlockHeight block) (blk_vtx block) (bex_vTxContxt block) view'))"

type_synonym block_files = "u32 \<Rightarrow> u32 \<Rightarrow> CBlockEx option"

definition ts_Read :: "block_files \<Rightarrow> CBlockIndex \<Rightarrow> CBlockEx option" where
  "ts_Read ts i = ts (bi_nFile i) (bi_nOffset i)"

partial_function (option) rollback :: "digest \<Rightarrow> bool \<Rightarrow> index_store \<Rightarrow> block_files \<Rightarrow> uint256 option \<Rightarrow> uint256 option \<Rightarrow> CBlockView
    \<Rightarrow> (view_error + CBlockView) option" where
  "rollback blake2b fAddr st ts pBranch p view =
     (if p = pBranch then Some (Inr view)
      else case Option.bind p st of
        None \<Rightarrow> Some (Inl Undefined)
      | Some i \<Rightarrow> (case ts_Read ts i of
            None \<Rightarrow> Some (Inl ReadFailed)
          | Some block \<Rightarrow> (case remove_block blake2b fAddr (bi_phashBlock i) block view of
                Inl _ \<Rightarrow> Some (Inl Undefined)
              | Inr view' \<Rightarrow> rollback blake2b fAddr st ts pBranch (bi_pPrev i) view')))"

fun roll_forward :: "digest \<Rightarrow> index_store \<Rightarrow> block_files \<Rightarrow> uint256 list \<Rightarrow> CBlockView \<Rightarrow> view_error + CBlockView" where
  "roll_forward blake2b st ts [] view = Inr view"
| "roll_forward blake2b st ts (h # hs) view = (case st h of
      None \<Rightarrow> Inl Undefined
    | Some i \<Rightarrow> (case ts_Read ts i of
          None \<Rightarrow> Inl ReadFailed
        | Some block \<Rightarrow> (case add_block blake2b (bi_phashBlock i) block view of
              Inl _ \<Rightarrow> Inl Undefined
            | Inr view' \<Rightarrow> roll_forward blake2b st ts hs view')))"

text \<open>\<open>forks\<close> gives the last block of a fork.\<close>

definition GetBlockView :: "digest \<Rightarrow> bool \<Rightarrow> index_store \<Rightarrow> block_files \<Rightarrow> (uint256 \<Rightarrow> uint256 option) \<Rightarrow> uint256 \<Rightarrow> bool
    \<Rightarrow> (view_error + CBlockView) option" where
  "GetBlockView blake2b fAddr st ts forks hash fCommitable = (case st hash of
      None \<Rightarrow> Some (Inl NoIndex)
    | Some pIndex \<Rightarrow> (case forks (index_GetOriginHash pIndex) of
          None \<Rightarrow> Some (Inl NoFork)
        | Some pForkLast \<Rightarrow> Option.bind (GetBranch st pForkLast hash) (\<lambda>r. case r of
              Inl _ \<Rightarrow> Some (Inl Undefined)
            | Inr (pBranch, vPath) \<Rightarrow> map_option (\<lambda>r. case r of
                  Inl err \<Rightarrow> Inl err
                | Inr view \<Rightarrow> roll_forward blake2b st ts (rev vPath) view)
                (rollback blake2b fAddr st ts pBranch (Some pForkLast) (view_Initialize (index_GetOriginHash pIndex) fCommitable)))))"

section \<open>GetBranch finds a common ancestor\<close>

text \<open>
  The block tree: one root, every other entry above a known one, at a larger height and not at an
  earlier time, and later than the root.
\<close>

definition index_tree :: "index_store \<Rightarrow> uint256 \<Rightarrow> bool" where
  "index_tree st g \<longleftrightarrow> (\<exists>r. st g = Some r \<and> bi_pPrev r = None \<and> (\<forall>h i. st h = Some i \<longrightarrow> bi_phashBlock i = h \<and>
     (h \<noteq> g \<longrightarrow> index_GetBlockTime r < index_GetBlockTime i \<and> (\<exists>p j. bi_pPrev i = Some p \<and> st p = Some j
        \<and> index_GetBlockTime j \<le> index_GetBlockTime i \<and> unat (bi_nHeight j) < unat (bi_nHeight i)))))"

text \<open>The entries from \<open>b\<close> up to the child of its ancestor \<open>c\<close>.\<close>

primrec up_path :: "index_store \<Rightarrow> uint256 \<Rightarrow> uint256 list \<Rightarrow> uint256 \<Rightarrow> bool" where
  "up_path st c [] b \<longleftrightarrow> b = c"
| "up_path st c (h # hs) b \<longleftrightarrow> h = b \<and> (\<exists>i p. st b = Some i \<and> bi_pPrev i = Some p \<and> up_path st c hs p)"

lemma up_path_snoc: "up_path st b vPath a \<Longrightarrow> st b = Some i \<Longrightarrow> bi_pPrev i = Some p \<Longrightarrow> up_path st p (vPath @ [b]) a"
  by (induction vPath arbitrary: a) auto

lemma index_tree_entry:
  assumes "index_tree st g" "st h = Some i"
  shows "bi_phashBlock i = h" "h \<noteq> g \<Longrightarrow> \<exists>p j. bi_pPrev i = Some p \<and> st p = Some j \<and> index_GetBlockTime j \<le> index_GetBlockTime i
    \<and> unat (bi_nHeight j) < unat (bi_nHeight i)" "h = g \<Longrightarrow> bi_pPrev i = None"
    "h \<noteq> g \<Longrightarrow> st g = Some r \<Longrightarrow> index_GetBlockTime r < index_GetBlockTime i"
  using assms unfolding index_tree_def by auto

lemma GetBranch_loop_returns:
  assumes "index_tree st g" "st a = Some ia" "st b = Some ib" "up_path st a ra a0" "up_path st b vPath b0"
  shows "\<exists>c ic rpath path. GetBranch_loop st (Some a) (Some b) vPath = Some (Inr (Some c, path)) \<and> st c = Some ic
    \<and> up_path st c rpath a0 \<and> up_path st c path b0"
  using assms(2-)
proof (induction "unat (bi_nHeight ia) + unat (bi_nHeight ib)" arbitrary: a b ia ib ra vPath rule: less_induct)
  case less
  note ta = index_tree_entry [OF assms(1) less.prems(1)] and tb = index_tree_entry [OF assms(1) less.prems(2)]
  obtain r where r: "st g = Some r" using assms(1) by (auto simp: index_tree_def)
  show ?case
  proof (cases "a = b")
    case True
    then show ?thesis using less.prems by (subst GetBranch_loop.simps) auto
  next
    case False
    consider (ref) "index_GetBlockTime ia > index_GetBlockTime ib" | (idx) "index_GetBlockTime ib > index_GetBlockTime ia"
      | (eq) "index_GetBlockTime ia = index_GetBlockTime ib" by linarith
    then show ?thesis
    proof cases
      case ref
      then have "a \<noteq> g" using r False less.prems(1) tb(4) [OF _ r] by auto
      then obtain p j where p: "bi_pPrev ia = Some p" "st p = Some j" "unat (bi_nHeight j) < unat (bi_nHeight ia)" using ta(2) by blast
      have up: "up_path st p (ra @ [a]) a0" using up_path_snoc [OF less.prems(3,1) p(1)] .
      show ?thesis using less.hyps [OF _ p(2) less.prems(2) up less.prems(4)] p(3) ref False p(1) less.prems
        by (subst GetBranch_loop.simps) simp
    next
      case idx
      then have "b \<noteq> g" using r False less.prems(2) ta(4) [OF _ r] by auto
      then obtain p j where p: "bi_pPrev ib = Some p" "st p = Some j" "unat (bi_nHeight j) < unat (bi_nHeight ib)" using tb(2) by blast
      have up: "up_path st p (vPath @ [b]) b0" using up_path_snoc [OF less.prems(4,2) p(1)] .
      show ?thesis using less.hyps [OF _ less.prems(1) p(2) less.prems(3) up] p(3) idx False p(1) less.prems
        by (subst GetBranch_loop.simps) simp
    next
      case eq
      have "a \<noteq> g" "b \<noteq> g" using eq False r less.prems(1,2) ta(4) [OF _ r] tb(4) [OF _ r] by fastforce+
      then obtain p j p' j' where p: "bi_pPrev ia = Some p" "st p = Some j" "unat (bi_nHeight j) < unat (bi_nHeight ia)"
          "bi_pPrev ib = Some p'" "st p' = Some j'" "unat (bi_nHeight j') < unat (bi_nHeight ib)" using ta(2) tb(2) by blast
      have up: "up_path st p (ra @ [a]) a0" "up_path st p' (vPath @ [b]) b0"
        using up_path_snoc [OF less.prems(3,1) p(1)] up_path_snoc [OF less.prems(4,2) p(4)] by blast+
      show ?thesis using less.hyps [OF _ p(2,5) up] p(3,6) eq False p(1,4) less.prems
        by (subst GetBranch_loop.simps) simp
    qed
  qed
qed

text \<open>Where times grow strictly along the tree, the ancestor is the last common one.\<close>

definition strict_times :: "index_store \<Rightarrow> bool" where
  "strict_times st \<longleftrightarrow> (\<forall>h i p j. st h = Some i \<longrightarrow> bi_pPrev i = Some p \<longrightarrow> st p = Some j \<longrightarrow> index_GetBlockTime j < index_GetBlockTime i)"

lemma up_path_time:
  assumes "index_tree st g" "strict_times st" "up_path st d q b" "st d = Some i0" "st b = Some ib"
  shows "index_GetBlockTime i0 \<le> index_GetBlockTime ib \<and> (index_GetBlockTime i0 = index_GetBlockTime ib \<longrightarrow> d = b)"
  using assms(3,5)
proof (induction q arbitrary: b ib)
  case Nil
  then show ?case using assms(4) by simp
next
  case (Cons h q)
  then obtain p where p: "bi_pPrev ib = Some p" "up_path st d q p" by auto
  have "b \<noteq> g" using index_tree_entry(3) [OF assms(1) Cons.prems(2)] p(1) by auto
  then obtain j where j: "st p = Some j" using index_tree_entry(2) [OF assms(1) Cons.prems(2)] p(1) by auto
  have "index_GetBlockTime j < index_GetBlockTime ib" using assms(2) Cons.prems(2) p(1) j unfolding strict_times_def by blast
  with Cons.IH [OF p(2) j] show ?case by auto
qed

lemma up_path_prev: "up_path st d q b \<Longrightarrow> d \<noteq> b \<Longrightarrow> st b = Some i \<Longrightarrow> bi_pPrev i = Some p \<Longrightarrow> \<exists>q. up_path st d q p"
  by (cases q) auto

lemma GetBranch_loop_last:
  assumes "index_tree st g" "strict_times st" "st d = Some i0"
    and "st a = Some ia" "st b = Some ib" "up_path st d qa a" "up_path st d qb b"
    and "GetBranch_loop st (Some a) (Some b) vPath = Some (Inr (Some c, path))"
  shows "\<exists>q. up_path st d q c"
  using assms(4-)
proof (induction "unat (bi_nHeight ia) + unat (bi_nHeight ib)" arbitrary: a b ia ib qa qb vPath rule: less_induct)
  case less
  note ta = index_tree_entry [OF assms(1) less.prems(1)] and tb = index_tree_entry [OF assms(1) less.prems(2)]
  note da = up_path_time [OF assms(1,2) less.prems(3) assms(3) less.prems(1)]
  note db = up_path_time [OF assms(1,2) less.prems(4) assms(3) less.prems(2)]
  show ?case
  proof (cases "a = b")
    case True
    then show ?thesis using less.prems(4,5) by (subst (asm) GetBranch_loop.simps) auto
  next
    case False
    have root: "x \<noteq> g" if "d \<noteq> x" "up_path st d q x" "st x = Some i" for x q i
      using that index_tree_entry(3) [OF assms(1) that(3)] by (cases q) auto
    consider (ref) "index_GetBlockTime ia > index_GetBlockTime ib" | (idx) "index_GetBlockTime ib > index_GetBlockTime ia"
      | (eq) "index_GetBlockTime ia = index_GetBlockTime ib" by linarith
    then show ?thesis
    proof cases
      case ref
      have "d \<noteq> a" using ref db da less.prems(1) assms(3) by auto
      from root [OF this less.prems(3,1)] ta(2)
      obtain p j where p: "bi_pPrev ia = Some p" "st p = Some j" "unat (bi_nHeight j) < unat (bi_nHeight ia)" by blast
      obtain q where q: "up_path st d q p" using up_path_prev [OF less.prems(3) \<open>d \<noteq> a\<close> less.prems(1) p(1)] by blast
      have "GetBranch_loop st (Some p) (Some b) vPath = Some (Inr (Some c, path))"
        using less.prems(5) ref False p(1) less.prems(1,2) by (subst (asm) GetBranch_loop.simps) simp
      then show ?thesis using less.hyps [OF _ p(2) less.prems(2) q less.prems(4)] p(3) by simp
    next
      case idx
      have "d \<noteq> b" using idx db da less.prems(2) assms(3) by auto
      from root [OF this less.prems(4,2)] tb(2)
      obtain p j where p: "bi_pPrev ib = Some p" "st p = Some j" "unat (bi_nHeight j) < unat (bi_nHeight ib)" by blast
      obtain q where q: "up_path st d q p" using up_path_prev [OF less.prems(4) \<open>d \<noteq> b\<close> less.prems(2) p(1)] by blast
      have "GetBranch_loop st (Some a) (Some p) (vPath @ [b]) = Some (Inr (Some c, path))"
        using less.prems(5) idx False p(1) less.prems(1,2) by (subst (asm) GetBranch_loop.simps) simp
      then show ?thesis using less.hyps [OF _ less.prems(1) p(2) less.prems(3) q] p(3) by simp
    next
      case eq
      have d: "d \<noteq> a" "d \<noteq> b" using eq False da db less.prems(1,2) assms(3) by auto
      from root [OF d(1) less.prems(3,1)] root [OF d(2) less.prems(4,2)] ta(2) tb(2)
      obtain p j p' j' where p: "bi_pPrev ia = Some p" "st p = Some j" "unat (bi_nHeight j) < unat (bi_nHeight ia)"
          "bi_pPrev ib = Some p'" "st p' = Some j'" "unat (bi_nHeight j') < unat (bi_nHeight ib)" by blast
      obtain q q' where q: "up_path st d q p" "up_path st d q' p'"
        using up_path_prev [OF less.prems(3) d(1) less.prems(1) p(1)] up_path_prev [OF less.prems(4) d(2) less.prems(2) p(4)] by blast
      have "GetBranch_loop st (Some p) (Some p') (vPath @ [b]) = Some (Inr (Some c, path))"
        using less.prems(5) eq False p(1,4) less.prems(1,2) by (subst (asm) GetBranch_loop.simps) simp
      then show ?thesis using less.hyps [OF _ p(2,5) q] p(3,6) by simp
    qed
  qed
qed

text \<open>
  C14: on a block tree \<^verbatim>\<open>GetBranch\<close> returns, with an entry that is an ancestor of both arguments and
  the path from the second argument up to it.  Where the times of blocks grow strictly, this is the
  last common ancestor: every other one is an ancestor of it.
\<close>

theorem GetBranch_common_ancestor:
  assumes "index_tree st g" "st a = Some ia" "st b = Some ib"
  shows "\<exists>c ra path. GetBranch st a b = Some (Inr (Some c, path)) \<and> up_path st c ra a \<and> up_path st c path b
    \<and> (strict_times st \<longrightarrow> (\<forall>d i0 qa qb. st d = Some i0 \<longrightarrow> up_path st d qa a \<longrightarrow> up_path st d qb b \<longrightarrow> (\<exists>q. up_path st d q c)))"
proof -
  obtain c ra path where r: "GetBranch st a b = Some (Inr (Some c, path))" "up_path st c ra a" "up_path st c path b"
    using GetBranch_loop_returns [OF assms, of "[]" a "[]" b] by (auto simp: GetBranch_def)
  then show ?thesis using GetBranch_loop_last [OF assms(1) _ _ assms(2,3)] unfolding GetBranch_def by blast
qed

text \<open>
  A first block with the time of the genesis block crashes the node.  The rules for blocks accept
  a block with the time of its predecessor.  Where the genesis block is the last block of the fork and
  the new block on it has the same time, both loop variables go back by one, and the null pointer above
  the genesis block is dereferenced.
\<close>

theorem GetBranch_past_genesis:
  assumes "st g = Some ig" "bi_pPrev ig = None" "st b = Some ib" "bi_pPrev ib = Some g" "b \<noteq> g"
    and "index_GetBlockTime ib = index_GetBlockTime ig"
  shows "GetBranch st g b = Some (Inl ())"
  using assms unfolding GetBranch_def by (subst GetBranch_loop.simps) (simp add: GetBranch_loop.simps)

section \<open>The replay of a chain\<close>

type_synonym tx_entry = "uint256 \<times> CTransaction \<times> CTxContxt"

definition entry_apply :: "tx_entry \<Rightarrow> utxo \<Rightarrow> utxo" where
  "entry_apply e = tx_apply (fst e) (fst (snd e)) (snd (snd e))"

definition entry_fits :: "tx_entry \<Rightarrow> utxo \<Rightarrow> bool" where
  "entry_fits e = tx_fits (fst e) (fst (snd e)) (snd (snd e))"

definition entry_conforms :: "(CTxOutPoint \<Rightarrow> CTxOut) \<Rightarrow> tx_entry \<Rightarrow> bool" where
  "entry_conforms orig e = tx_conforms orig (fst e) (fst (snd e)) (snd (snd e))"

definition mint_entries :: "digest \<Rightarrow> 'z CBlock_scheme \<Rightarrow> tx_entry list" where
  "mint_entries blake2b block = (if dest_IsNull (tx_sendTo (blk_txMint block)) then []
     else [(tx_GetHash blake2b (blk_txMint block), blk_txMint block, txcontxt_null)])"

definition vtx_entries :: "digest \<Rightarrow> CTransaction list \<Rightarrow> CTxContxt list \<Rightarrow> tx_entry list" where
  "vtx_entries blake2b vtx cs = zip (map (tx_GetHash blake2b) vtx) (zip vtx cs)"

definition block_entries :: "digest \<Rightarrow> CBlockEx \<Rightarrow> tx_entry list" where
  "block_entries blake2b block = mint_entries blake2b block @ vtx_entries blake2b (blk_vtx block) (bex_vTxContxt block)"

definition txs_apply :: "tx_entry list \<Rightarrow> utxo \<Rightarrow> utxo" where
  "txs_apply es m = fold entry_apply es m"

text \<open>Every transaction fits the map its predecessors leave, and creates the outputs its references name.\<close>

primrec txs_fit :: "(CTxOutPoint \<Rightarrow> CTxOut) \<Rightarrow> tx_entry list \<Rightarrow> utxo \<Rightarrow> bool" where
  "txs_fit orig [] m \<longleftrightarrow> True"
| "txs_fit orig (e # es) m \<longleftrightarrow> entry_fits e m \<and> entry_conforms orig e \<and> txs_fit orig es (entry_apply e m)"

definition block_fits :: "digest \<Rightarrow> (CTxOutPoint \<Rightarrow> CTxOut) \<Rightarrow> CBlockEx \<Rightarrow> utxo \<Rightarrow> bool" where
  "block_fits blake2b orig block m \<longleftrightarrow> length (blk_vtx block) = length (bex_vTxContxt block) \<and> txs_fit orig (block_entries blake2b block) m"

text \<open>The unspent outputs after a block: those after its predecessor with the block applied.\<close>

inductive chain_utxo :: "digest \<Rightarrow> (CTxOutPoint \<Rightarrow> CTxOut) \<Rightarrow> index_store \<Rightarrow> block_files \<Rightarrow> uint256 \<Rightarrow> utxo \<Rightarrow> bool"
  for blake2b orig st ts where
  chain_first: "st h = Some i \<Longrightarrow> bi_pPrev i = None \<Longrightarrow> ts_Read ts i = Some block \<Longrightarrow> block_fits blake2b orig block Map.empty \<Longrightarrow>
     chain_utxo blake2b orig st ts h (txs_apply (block_entries blake2b block) Map.empty)"
| chain_next: "chain_utxo blake2b orig st ts p m \<Longrightarrow> st h = Some i \<Longrightarrow> bi_pPrev i = Some p \<Longrightarrow> ts_Read ts i = Some block \<Longrightarrow>
     block_fits blake2b orig block m \<Longrightarrow> chain_utxo blake2b orig st ts h (txs_apply (block_entries blake2b block) m)"

lemma txs_apply_append: "txs_apply (es @ es') m = txs_apply es' (txs_apply es m)"
  by (simp add: txs_apply_def)

lemma txs_fit_append: "txs_fit orig (es @ es') m \<longleftrightarrow> txs_fit orig es m \<and> txs_fit orig es' (txs_apply es m)"
  by (induction es arbitrary: m) (auto simp: txs_apply_def)

lemma txs_apply_from: "utxo_from orig m \<Longrightarrow> txs_fit orig es m \<Longrightarrow> utxo_from orig (txs_apply es m)"
proof (induction es arbitrary: m)
  case (Cons e es)
  then have "utxo_from orig (entry_apply e m)"
    using tx_apply_from by (simp add: entry_apply_def entry_conforms_def)
  with Cons show ?case by (simp add: txs_apply_def)
qed (simp add: txs_apply_def)

lemma chain_utxo_from: "chain_utxo blake2b orig st ts h m \<Longrightarrow> utxo_from orig m"
  by (induction rule: chain_utxo.induct) (auto simp: block_fits_def utxo_from_def [of _ Map.empty] intro!: txs_apply_from)

subsection \<open>Views follow the replay\<close>

text \<open>A view over the database \<open>base\<close> that shows the map \<open>m\<close>.\<close>

definition view_shows :: "utxo \<Rightarrow> CBlockView \<Rightarrow> utxo \<Rightarrow> bool" where
  "view_shows base view m \<longleftrightarrow> map_inv base (view_mapUnspent view) \<and> view_RetrieveUnspent base view = m"

lemma AddTx_shows:
  assumes "view_shows base view m" "utxo_from orig base" "tx_conforms orig txid tx c" "tx_fits txid tx c m"
  shows "\<exists>view'. AddTx txid tx h c view = Inr view' \<and> view_shows base view' (tx_apply txid tx c m)"
  using assms AddTx_inv [of base view orig txid tx c h] by (auto simp: view_shows_def)

lemma RemoveTx_shows:
  assumes "view_shows base view (tx_apply txid tx c m)" "utxo_from orig base" "utxo_from orig m" "tx_fits txid tx c m"
  shows "\<exists>view'. RemoveTx txid tx h bs ts c fAddr view = Inr view' \<and> view_shows base view' m"
  using assms RemoveTx_inv [of base view orig m txid tx c h bs ts fAddr] by (auto simp: view_shows_def)

lemma add_vtx_shows:
  assumes "view_shows base view m" "utxo_from orig base" "length vtx = length cs" "txs_fit orig (vtx_entries blake2b vtx cs) m"
  shows "\<exists>view'. add_vtx blake2b h vtx cs view = Inr view' \<and> view_shows base view' (txs_apply (vtx_entries blake2b vtx cs) m)"
  using assms(3,1,4)
proof (induction vtx cs arbitrary: view m rule: list_induct2)
  case Nil
  then show ?case by (simp add: vtx_entries_def txs_apply_def)
next
  case (Cons tx vtx c cs)
  then have f: "tx_fits (tx_GetHash blake2b tx) tx c m" "tx_conforms orig (tx_GetHash blake2b tx) tx c"
      "txs_fit orig (vtx_entries blake2b vtx cs) (tx_apply (tx_GetHash blake2b tx) tx c m)"
    by (auto simp: vtx_entries_def entry_fits_def entry_conforms_def entry_apply_def)
  obtain view1 where "AddTx (tx_GetHash blake2b tx) tx h c view = Inr view1" "view_shows base view1 (tx_apply (tx_GetHash blake2b tx) tx c m)"
    using AddTx_shows [OF Cons.prems(1) assms(2) f(2,1)] by blast
  with Cons.IH [OF this(2) f(3)] show ?case by (auto simp: vtx_entries_def txs_apply_def entry_apply_def)
qed

lemma add_mint_shows:
  assumes "view_shows base view m" "utxo_from orig base" "txs_fit orig (mint_entries blake2b block) m"
  shows "\<exists>view'. add_mint blake2b block view = Inr view' \<and> view_shows base view' (txs_apply (mint_entries blake2b block) m)"
  using assms AddTx_shows [OF assms(1,2), of "tx_GetHash blake2b (blk_txMint block)" "blk_txMint block" txcontxt_null]
  by (auto simp: add_mint_def mint_entries_def txs_apply_def entry_fits_def entry_conforms_def entry_apply_def)

lemma view_shows_blocks: "view_shows base (AddBlock h b view) m = view_shows base view m" "view_shows base (RemoveBlock h b view) m = view_shows base view m"
  by (simp_all add: view_shows_def AddBlock_def RemoveBlock_def view_RetrieveUnspent_def)

lemma add_block_shows:
  assumes "view_shows base view m" "utxo_from orig base" "block_fits blake2b orig block m"
  shows "\<exists>view'. add_block blake2b hash block view = Inr view' \<and> view_shows base view' (txs_apply (block_entries blake2b block) m)"
proof -
  have f: "txs_fit orig (mint_entries blake2b block) m" "length (blk_vtx block) = length (bex_vTxContxt block)"
      "txs_fit orig (vtx_entries blake2b (blk_vtx block) (bex_vTxContxt block)) (txs_apply (mint_entries blake2b block) m)"
    using assms(3) by (auto simp: block_fits_def block_entries_def txs_fit_append)
  obtain view1 where v1: "add_mint blake2b block view = Inr view1" "view_shows base view1 (txs_apply (mint_entries blake2b block) m)"
    using add_mint_shows [OF assms(1,2) f(1)] by blast
  from add_vtx_shows [OF this(2) assms(2) f(2,3), of "block_GetBlockHeight block"] v1(1) show ?thesis
    by (auto simp: add_block_def block_entries_def txs_apply_append view_shows_blocks)
qed

lemma vtx_entries_snoc:
  "length vtx = length cs \<Longrightarrow> j < length vtx \<Longrightarrow> vtx_entries blake2b (take (Suc j) vtx) (take (Suc j) cs) =
     vtx_entries blake2b (take j vtx) (take j cs) @ [(tx_GetHash blake2b (vtx ! j), vtx ! j, cs ! j)]"
  by (simp add: vtx_entries_def take_Suc_conv_app_nth)

lemma remove_vtx_shows:
  assumes "utxo_from orig base" "utxo_from orig m" "length (blk_vtx block) = length (bex_vTxContxt block)" "j \<le> length (blk_vtx block)"
    and "view_shows base view (txs_apply (vtx_entries blake2b (take j (blk_vtx block)) (take j (bex_vTxContxt block))) m)"
    and "txs_fit orig (vtx_entries blake2b (take j (blk_vtx block)) (take j (bex_vTxContxt block))) m"
  shows "\<exists>view'. remove_vtx blake2b fAddr block j view = Inr view' \<and> view_shows base view' m"
  using assms(4-)
proof (induction j arbitrary: view)
  case 0
  then show ?case by (simp add: vtx_entries_def txs_apply_def)
next
  case (Suc j)
  let ?es = "vtx_entries blake2b (take j (blk_vtx block)) (take j (bex_vTxContxt block))"
  let ?tx = "blk_vtx block ! j" and ?c = "bex_vTxContxt block ! j"
  have split: "vtx_entries blake2b (take (Suc j) (blk_vtx block)) (take (Suc j) (bex_vTxContxt block)) = ?es @ [(tx_GetHash blake2b ?tx, ?tx, ?c)]"
    using vtx_entries_snoc assms(3) Suc.prems(1) by auto
  have f: "txs_fit orig ?es m" "tx_fits (tx_GetHash blake2b ?tx) ?tx ?c (txs_apply ?es m)"
    using Suc.prems(3) unfolding split by (auto simp: txs_fit_append entry_fits_def)
  have sh: "view_shows base view (tx_apply (tx_GetHash blake2b ?tx) ?tx ?c (txs_apply ?es m))"
    using Suc.prems(2) unfolding split by (simp add: txs_apply_def entry_apply_def)
  obtain view1 where v1: "RemoveTx (tx_GetHash blake2b ?tx) ?tx (block_GetBlockHeight block) 0 (of_nat j + 1) ?c fAddr view = Inr view1"
      "view_shows base view1 (txs_apply ?es m)"
    using RemoveTx_shows [OF sh assms(1) txs_apply_from [OF assms(2) f(1)] f(2)] by blast
  from Suc.IH [OF _ v1(2) f(1)] v1(1) Suc.prems(1) assms(3) show ?case by simp
qed

lemma remove_block_shows:
  assumes "utxo_from orig base" "utxo_from orig m" "block_fits blake2b orig block m"
    and "view_shows base view (txs_apply (block_entries blake2b block) m)"
  shows "\<exists>view'. remove_block blake2b fAddr hash block view = Inr view' \<and> view_shows base view' m"
proof -
  let ?me = "mint_entries blake2b block" and ?ve = "vtx_entries blake2b (blk_vtx block) (bex_vTxContxt block)"
  have f: "txs_fit orig ?me m" "length (blk_vtx block) = length (bex_vTxContxt block)" "txs_fit orig ?ve (txs_apply ?me m)"
    using assms(3) by (auto simp: block_fits_def block_entries_def txs_fit_append)
  have "\<exists>view'. remove_vtx blake2b fAddr block (length (blk_vtx block)) view = Inr view' \<and> view_shows base view' (txs_apply ?me m)"
    using assms(4) f by (intro remove_vtx_shows [OF assms(1) txs_apply_from [OF assms(2) f(1)] f(2)])
      (simp_all add: block_entries_def txs_apply_append)
  then obtain view1 where v1: "remove_vtx blake2b fAddr block (length (blk_vtx block)) view = Inr view1" "view_shows base view1 (txs_apply ?me m)"
    by blast
  show ?thesis
  proof (cases "dest_IsNull (tx_sendTo (blk_txMint block))")
    case True
    then show ?thesis using v1 by (simp add: remove_block_def mint_entries_def txs_apply_def view_shows_blocks)
  next
    case False
    have "view_shows base view1 (tx_apply (tx_GetHash blake2b (blk_txMint block)) (blk_txMint block) txcontxt_null m)"
        "tx_fits (tx_GetHash blake2b (blk_txMint block)) (blk_txMint block) txcontxt_null m"
      using v1(2) f(1) False by (simp_all add: mint_entries_def txs_apply_def entry_apply_def entry_fits_def)
    from RemoveTx_shows [OF this(1) assms(1,2) this(2), of "block_GetBlockHeight block" 0 0 fAddr] v1(1) False show ?thesis
      by (auto simp: remove_block_def view_shows_blocks)
  qed
qed

inductive_cases chain_utxo_cases: "chain_utxo blake2b orig st ts h m"

lemma chain_utxo_det: "chain_utxo blake2b orig st ts h m \<Longrightarrow> chain_utxo blake2b orig st ts h m' \<Longrightarrow> m = m'"
proof (induction arbitrary: m' rule: chain_utxo.induct)
  case (chain_first h i block)
  from chain_first.prems show ?case using chain_first.hyps by (auto elim: chain_utxo_cases)
next
  case (chain_next p m h i block)
  from chain_next.prems obtain m'' where "chain_utxo blake2b orig st ts p m''" "m' = txs_apply (block_entries blake2b block) m''"
    using chain_next.hyps by (auto elim: chain_utxo_cases)
  then show ?case using chain_next.IH by simp
qed

lemma rollback_shows:
  assumes "utxo_from orig base" "up_path st c rpath a" "chain_utxo blake2b orig st ts a ma" "index_tree st g" "view_shows base view ma"
  shows "\<exists>view' mc. rollback blake2b fAddr st ts (Some c) (Some a) view = Some (Inr view') \<and> chain_utxo blake2b orig st ts c mc
    \<and> view_shows base view' mc"
  using assms(2,3,5)
proof (induction rpath arbitrary: a ma view)
  case Nil
  then show ?case by (subst rollback.simps) auto
next
  case (Cons h rpath)
  show ?case
  proof (cases "a = c")
    case True
    then show ?thesis using Cons.prems by (subst rollback.simps) auto
  next
    case False
    from Cons.prems(1) obtain i p where i: "st a = Some i" "bi_pPrev i = Some p" "up_path st c rpath p" by auto
    obtain mp block where b: "chain_utxo blake2b orig st ts p mp" "ts_Read ts i = Some block" "block_fits blake2b orig block mp"
        "ma = txs_apply (block_entries blake2b block) mp"
      using Cons.prems(2) i by (auto elim: chain_utxo_cases)
    obtain view1 where v1: "remove_block blake2b fAddr (bi_phashBlock i) block view = Inr view1" "view_shows base view1 mp"
      using remove_block_shows [OF assms(1) chain_utxo_from [OF b(1)] b(3), of view fAddr "bi_phashBlock i"] Cons.prems(3) b(4) by auto
    from Cons.IH [OF i(3) b(1) v1(2)] v1(1) i(1,2) b(2) False show ?thesis by (subst rollback.simps) simp
  qed
qed

lemma roll_forward_append:
  "roll_forward blake2b st ts (hs @ hs') view = (case roll_forward blake2b st ts hs view of
     Inl err \<Rightarrow> Inl err | Inr view' \<Rightarrow> roll_forward blake2b st ts hs' view')"
  by (induction hs arbitrary: view) (auto split: option.splits sum.splits)

lemma roll_forward_shows:
  assumes "utxo_from orig base" "up_path st c path b" "chain_utxo blake2b orig st ts c mc" "chain_utxo blake2b orig st ts b mb" "view_shows base view mc"
  shows "\<exists>view'. roll_forward blake2b st ts (rev path) view = Inr view' \<and> view_shows base view' mb"
  using assms(2,4)
proof (induction path arbitrary: b mb)
  case Nil
  then show ?case using chain_utxo_det [OF assms(3), of mb] assms(5) by simp
next
  case (Cons h path)
  from Cons.prems(1) obtain i p where i: "h = b" "st b = Some i" "bi_pPrev i = Some p" "up_path st c path p" by auto
  obtain mp block where b: "chain_utxo blake2b orig st ts p mp" "ts_Read ts i = Some block" "block_fits blake2b orig block mp"
      "mb = txs_apply (block_entries blake2b block) mp"
    using Cons.prems(2) i by (auto elim: chain_utxo_cases)
  obtain view1 where v1: "roll_forward blake2b st ts (rev path) view = Inr view1" "view_shows base view1 mp"
    using Cons.IH [OF i(4) b(1)] by blast
  from add_block_shows [OF v1(2) assms(1) b(3), of "bi_phashBlock i"] v1(1) i b(2,4) show ?case
    by (auto simp: roll_forward_append)
qed

lemma view_Initialize_shows: "view_shows base (view_Initialize hashFork fCommitable) base"
  by (simp add: view_shows_def view_Initialize_def map_inv_def view_RetrieveUnspent_def map_RetrieveUnspent_def fun_eq_iff)

lemma GetBlockView_shows:
  assumes "index_tree st g" "st hash = Some pIndex" "forks (index_GetOriginHash pIndex) = Some pForkLast"
    and "chain_utxo blake2b orig st ts pForkLast base" "chain_utxo blake2b orig st ts hash m"
  shows "\<exists>view. GetBlockView blake2b fAddr st ts forks hash fCommitable = Some (Inr view) \<and> view_shows base view m"
proof -
  have from_base: "utxo_from orig base" using chain_utxo_from [OF assms(4)] .
  obtain il where il: "st pForkLast = Some il" using assms(4) by (auto elim: chain_utxo_cases)
  obtain c ra path where b: "GetBranch st pForkLast hash = Some (Inr (Some c, path))" "up_path st c ra pForkLast" "up_path st c path hash"
    using GetBranch_loop_returns [OF assms(1) il assms(2), of "[]" pForkLast "[]" hash] by (auto simp: GetBranch_def)
  obtain view1 mc where v1: "rollback blake2b fAddr st ts (Some c) (Some pForkLast) (view_Initialize (index_GetOriginHash pIndex) fCommitable) = Some (Inr view1)"
      "chain_utxo blake2b orig st ts c mc" "view_shows base view1 mc"
    using rollback_shows [OF from_base b(2) assms(4,1) view_Initialize_shows] by blast
  obtain view2 where v2: "roll_forward blake2b st ts (rev path) view1 = Inr view2" "view_shows base view2 m"
    using roll_forward_shows [OF from_base b(3) v1(2) assms(5) v1(3)] by blast
  show ?thesis using assms(2,3) b(1) v1(1) v2 by (auto simp: GetBlockView_def)
qed

text \<open>
  C6: a view at any block shows the unspent outputs of the chain that ends there.  Where the database
  holds the unspent outputs at the last block of the fork, the view at a block of the tree, on the main
  chain or on a branch, is built without reading a missing context, and retrieving an output through it
  returns what the replay of the blocks up to that block leaves.
\<close>

theorem GetBlockView_shows_chain:
  assumes "index_tree st g" "st hash = Some pIndex" "forks (index_GetOriginHash pIndex) = Some pForkLast"
    and "chain_utxo blake2b orig st ts pForkLast base" "chain_utxo blake2b orig st ts hash m"
  shows "\<exists>view. GetBlockView blake2b fAddr st ts forks hash fCommitable = Some (Inr view) \<and> view_RetrieveUnspent base view = m"
  using GetBlockView_shows [where forks = forks, OF assms] by (auto simp: view_shows_def)

text \<open>
  C5: committing a view makes it the database.  Where the view was built over the database at the last
  block of the fork and shows the outputs at another block, writing its changes to the database of
  unspent outputs turns the database into the outputs at that block, so that a reorganisation of the
  chain leaves exactly the outputs of the new chain.
\<close>

theorem reorganisation_reaches_new_chain:
  assumes "index_tree st g" "st hash = Some pIndex" "forks (index_GetOriginHash pIndex) = Some pForkLast"
    and "chain_utxo blake2b orig st ts pForkLast (ReadUnspent db)" "chain_utxo blake2b orig st ts hash m" "udb_inv db"
  shows "\<exists>view vAddNew vRemove view'. GetBlockView blake2b fAddr st ts forks hash fCommitable = Some (Inr view)
    \<and> GetUnspentChanges retrieveTx view = (vAddNew, vRemove, view') \<and> ReadUnspent (UpdateUnspent vAddNew vRemove db) = m"
proof -
  obtain view where v: "GetBlockView blake2b fAddr st ts forks hash fCommitable = Some (Inr view)" "view_shows (ReadUnspent db) view m"
    using GetBlockView_shows [where forks = forks, OF assms(1-5)] by blast
  obtain vAddNew vRemove view' where c: "GetUnspentChanges retrieveTx view = (vAddNew, vRemove, view')" by (cases "GetUnspentChanges retrieveTx view") auto
  have "utxo_update vAddNew vRemove (ReadUnspent db) = m"
    using v(2) GetUnspentChanges_update [OF _ c] by (simp add: view_shows_def)
  then show ?thesis using v(1) c Update_read [OF assms(6)] by auto
qed

section \<open>An example with two branches\<close>

definition fork_tx :: "u32 \<Rightarrow> i64 \<Rightarrow> CTransaction" where
  "fork_tx t n = tx_SetNull\<lparr> tx_nType := TX_WORK, tx_nTimeStamp := t, tx_sendTo := CDestination PREFIX_TEMPLATE 9, tx_nAmount := n \<rparr>"

definition fork_block :: "CTransaction \<Rightarrow> CBlockEx" where
  "fork_block tx = \<lparr> blk_nVersion = 1, blk_nType = BLOCK_PRIMARY, blk_nTimeStamp = tx_nTimeStamp tx, blk_hashPrev = 1, blk_hashMerkle = 0,
     blk_nBits = 0, blk_vchProof = [], blk_txMint = tx, blk_vtx = [], bex_vTxContxt = [] \<rparr>"

definition fork_entry :: "uint256 \<Rightarrow> uint256 option \<Rightarrow> u32 \<Rightarrow> u32 \<Rightarrow> CBlockIndex" where
  "fork_entry h p t n = \<lparr> bi_phashBlock = h, bi_pOrigin = 1, bi_pPrev = p, bi_pNext = None, bi_txidMint = 0, bi_nMintType = TX_WORK,
     bi_destMint = dest_null, bi_nVersion = 1, bi_nType = BLOCK_PRIMARY, bi_nTimeStamp = t, bi_nHeight = n, bi_nRandBeacon = 0,
     bi_nChainTrust = 0, bi_nMoneySupply = 0, bi_nProofBits = 0, bi_nFile = ucast h, bi_nOffset = 0 \<rparr>"

definition fork_store :: index_store where
  "fork_store = [1 \<mapsto> fork_entry 1 None 5 0, 2 \<mapsto> fork_entry 2 (Some 1) 10 1, 3 \<mapsto> fork_entry 3 (Some 1) 11 1]"

definition fork_files :: block_files where
  "fork_files nFile nOffset = (if nFile = 1 then Some (fork_block tx_SetNull) else if nFile = 2 then Some (fork_block (fork_tx 10 20))
     else Some (fork_block (fork_tx 11 30)))"

definition fork_orig :: "CTxOutPoint \<Rightarrow> CTxOut" where
  "fork_orig k = txout_of_tx (if txid_GetTxTime (op_hash k) = 10 then fork_tx 10 20 else fork_tx 11 30)"

definition fork_id :: "u32 \<Rightarrow> i64 \<Rightarrow> uint256" where
  "fork_id t n = tx_GetHash (\<lambda>_. 0) (fork_tx t n)"

lemma fork_tree: "index_tree fork_store 1" "strict_times fork_store"
  by (auto simp: index_tree_def strict_times_def fork_store_def fork_entry_def index_GetBlockTime_def split: if_splits)

lemma fork_created: "0 < sint n \<Longrightarrow> tx_created (fork_id t n) (fork_tx t n) txcontxt_null = [(CTxOutPoint (fork_id t n) 0, txout_of_tx (fork_tx t n))]"
  by (simp add: tx_created_def txout_IsNull_def txout_of_tx_def txout_change_def txcontxt_null_def fork_tx_def dest_IsNull_def dest_null_def
      PREFIX_TEMPLATE_def PREFIX_NULL_def)

lemma fork_entries:
  "block_entries (\<lambda>_. 0) (fork_block (fork_tx t n)) = [(fork_id t n, fork_tx t n, txcontxt_null)]"
  "block_entries (\<lambda>_. 0) (fork_block tx_SetNull) = []"
  by (simp_all add: block_entries_def mint_entries_def vtx_entries_def fork_block_def fork_tx_def fork_id_def dest_IsNull_def
      tx_SetNull_def dest_null_def PREFIX_TEMPLATE_def PREFIX_NULL_def)

lemma fork_spent: "tx_spent (fork_tx t n) c = []" "tx_vInput (fork_tx t n) = []"
  by (simp_all add: tx_spent_def fork_tx_def tx_SetNull_def)

lemma fork_apply: "0 < sint n \<Longrightarrow> txs_apply [(fork_id t n, fork_tx t n, txcontxt_null)] Map.empty = [CTxOutPoint (fork_id t n) 0 \<mapsto> txout_of_tx (fork_tx t n)]"
  by (simp add: txs_apply_def entry_apply_def tx_apply_def fork_created fork_spent put_all_def drop_all_def)

lemma fork_fits:
  assumes "0 < sint n" "fork_orig (CTxOutPoint (fork_id t n) 0) = txout_of_tx (fork_tx t n)"
  shows "block_fits (\<lambda>_. 0) fork_orig (fork_block (fork_tx t n)) Map.empty"
  using assms by (simp add: block_fits_def fork_entries entry_fits_def tx_fits_def entry_conforms_def tx_conforms_def fork_created fork_spent)
    (simp add: fork_block_def)

lemma fork_orig_id:
  "fork_orig (CTxOutPoint (fork_id 10 20) 0) = txout_of_tx (fork_tx 10 20)"
  "fork_orig (CTxOutPoint (fork_id 11 30) 0) = txout_of_tx (fork_tx 11 30)"
  by (simp_all add: fork_orig_def fork_id_def txid_time tx_GetTxTime_def) (simp_all add: fork_tx_def)

lemma fork_chain:
  "chain_utxo (\<lambda>_. 0) fork_orig fork_store fork_files 2 [CTxOutPoint (fork_id 10 20) 0 \<mapsto> txout_of_tx (fork_tx 10 20)]"
  "chain_utxo (\<lambda>_. 0) fork_orig fork_store fork_files 3 [CTxOutPoint (fork_id 11 30) 0 \<mapsto> txout_of_tx (fork_tx 11 30)]"
proof -
  have g: "chain_utxo (\<lambda>_. 0) fork_orig fork_store fork_files 1 Map.empty"
    using chain_first [of fork_store 1 "fork_entry 1 None 5 0" fork_files "fork_block tx_SetNull" "\<lambda>_. 0" fork_orig]
    by (simp add: fork_store_def fork_entry_def ts_Read_def fork_files_def block_fits_def fork_entries txs_apply_def) (simp add: fork_block_def)
  show "chain_utxo (\<lambda>_. 0) fork_orig fork_store fork_files 2 [CTxOutPoint (fork_id 10 20) 0 \<mapsto> txout_of_tx (fork_tx 10 20)]"
    using chain_next [OF g, of 2 "fork_entry 2 (Some 1) 10 1" "fork_block (fork_tx 10 20)"] fork_fits [of 20 10]
    by (simp add: fork_store_def fork_entry_def ts_Read_def fork_files_def fork_entries fork_apply fork_orig_id)
  show "chain_utxo (\<lambda>_. 0) fork_orig fork_store fork_files 3 [CTxOutPoint (fork_id 11 30) 0 \<mapsto> txout_of_tx (fork_tx 11 30)]"
    using chain_next [OF g, of 3 "fork_entry 3 (Some 1) 11 1" "fork_block (fork_tx 11 30)"] fork_fits [of 30 11]
    by (simp add: fork_store_def fork_entry_def ts_Read_def fork_files_def fork_entries fork_apply fork_orig_id)
qed

lemma fork_entry_3: "fork_store 3 = Some (fork_entry 3 (Some 1) 11 1)" "index_GetOriginHash (fork_entry 3 (Some 1) 11 1) = 1"
  by (simp_all add: fork_store_def fork_entry_def index_GetOriginHash_def)

theorem GetBranch_common_ancestor_witness:
  "\<exists>c path. GetBranch fork_store 2 3 = Some (Inr (Some c, path)) \<and> (\<exists>q. up_path fork_store 1 q c)"
proof -
  have s: "fork_store 2 = Some (fork_entry 2 (Some 1) 10 1)" "fork_store 1 = Some (fork_entry 1 None 5 0)"
      "up_path fork_store 1 [2] 2" "up_path fork_store 1 [3] 3"
    by (simp_all add: fork_store_def fork_entry_def)
  from GetBranch_common_ancestor [OF fork_tree(1) s(1) fork_entry_3(1)] fork_tree(2) s(2-) show ?thesis by blast
qed

theorem GetBranch_past_genesis_witness:
  "GetBranch [1 \<mapsto> fork_entry 1 None 5 0, 2 \<mapsto> fork_entry 2 (Some 1) 5 1] 1 2 = Some (Inl ())"
  by (rule GetBranch_past_genesis [of _ 1 "fork_entry 1 None 5 0" 2 "fork_entry 2 (Some 1) 5 1"]) (simp_all add: fork_entry_def index_GetBlockTime_def)

theorem GetBlockView_shows_chain_witness:
  "\<exists>view. GetBlockView (\<lambda>_. 0) True fork_store fork_files [1 \<mapsto> 2] 3 True = Some (Inr view)
    \<and> view_RetrieveUnspent [CTxOutPoint (fork_id 10 20) 0 \<mapsto> txout_of_tx (fork_tx 10 20)] view (CTxOutPoint (fork_id 11 30) 0) = Some (txout_of_tx (fork_tx 11 30))"
  using GetBlockView_shows_chain [where forks = "[1 \<mapsto> 2]", OF fork_tree(1) fork_entry_3(1) _ fork_chain, of True True] fork_entry_3(2) by auto

lemma fork_database: "\<exists>db. udb_inv db \<and> ReadUnspent db = [CTxOutPoint (fork_id 10 20) 0 \<mapsto> txout_of_tx (fork_tx 10 20)]"
proof -
  let ?u = "\<lparr> un_outpoint = CTxOutPoint (fork_id 10 20) 0, un_output = txout_of_tx (fork_tx 10 20), un_nTxType = 0, un_nHeight = 1 \<rparr>"
  have "ReadUnspent (UpdateUnspent [?u] [] example_udb) = [CTxOutPoint (fork_id 10 20) 0 \<mapsto> txout_of_tx (fork_tx 10 20)]"
    by (simp add: Update_read [OF example_udb_inv] example_udb_read utxo_update_def txout_IsNull_def txout_of_tx_def fork_tx_def
        dest_IsNull_def PREFIX_TEMPLATE_def PREFIX_NULL_def)
  then show ?thesis using UpdateUnspent_ok(1) [OF example_udb_inv] by blast
qed

theorem reorganisation_reaches_new_chain_witness:
  "\<exists>db view vAddNew vRemove view'. ReadUnspent db (CTxOutPoint (fork_id 10 20) 0) \<noteq> None
    \<and> GetBlockView (\<lambda>_. 0) True fork_store fork_files [1 \<mapsto> 2] 3 True = Some (Inr view)
    \<and> GetUnspentChanges (\<lambda>_. None) view = (vAddNew, vRemove, view')
    \<and> ReadUnspent (UpdateUnspent vAddNew vRemove db) = [CTxOutPoint (fork_id 11 30) 0 \<mapsto> txout_of_tx (fork_tx 11 30)]"
proof -
  obtain db where db: "udb_inv db" "ReadUnspent db = [CTxOutPoint (fork_id 10 20) 0 \<mapsto> txout_of_tx (fork_tx 10 20)]"
    using fork_database by blast
  have l: "[1 \<mapsto> (2::uint256)] (index_GetOriginHash (fork_entry 3 (Some 1) 11 1)) = Some 2" using fork_entry_3(2) by simp
  have "ReadUnspent db (CTxOutPoint (fork_id 10 20) 0) \<noteq> None" using db(2) by simp
  with reorganisation_reaches_new_chain [where forks = "[1 \<mapsto> 2]", OF fork_tree(1) fork_entry_3(1) l fork_chain(1) [folded db(2)] fork_chain(2) db(1)]
  show ?thesis by blast
qed

end
