(* ===== verification/Block_Cache.thy ===== *)
theory Block_Cache
  imports KV_Store Chain_Reward
begin

text \<open>
  The shape that the pledge and the redeem database share (\<^verbatim>\<open>storage/pledgedb.cpp\<close>,
  \<^verbatim>\<open>storage/redeemdb.cpp\<close>): a record per block in the key-value store, complete at the first block of
  a period and an increment to it at the others, with one cache for each kind.  The locale
  \<open>cached_table\<close> shows that the caches never change an answer.
\<close>

record 'c cached_db =
  cdb_kv :: CKVDB
  cdb_fCache :: bool
  cdb_mapCacheFull :: "(uint256 \<times> 'c) list"
  cdb_mapCacheInc :: "(uint256 \<times> 'c) list"

definition MAX_FULL_CACHE_COUNT :: nat where "MAX_FULL_CACHE_COUNT = 16"
definition MAX_INC_CACHE_COUNT :: nat where "MAX_INC_CACHE_COUNT = 1440 * 2"

definition IsFullBlock :: "bool \<Rightarrow> uint256 \<Rightarrow> bool" where
  "IsFullBlock testnet hashBlock = (if GetBlockHeightByHash hashBlock = 0 then True
     else GetBlockHeightByHash hashBlock mod BPX_PLEDGE_REWARD_DISTRIBUTE_HEIGHT testnet = 1)"

text \<open>The first entries of the map are erased until there is room for one more.\<close>

fun cache_evict :: "nat \<Rightarrow> ('k \<times> 'c) list \<Rightarrow> ('k \<times> 'c) list" where
  "cache_evict n [] = []"
| "cache_evict n (e # m) = (if length (e # m) \<ge> n then cache_evict n m else e # m)"

definition cache_add :: "nat \<Rightarrow> uint256 \<Rightarrow> 'c \<Rightarrow> (uint256 \<times> 'c) list \<Rightarrow> (uint256 \<times> 'c) list" where
  "cache_add n hashBlock c m = (if map_of m hashBlock = None then std_insert hashBlock c (cache_evict n m) else m)"

definition cdb_AddCache :: "bool \<Rightarrow> uint256 \<Rightarrow> 'c \<Rightarrow> 'c cached_db \<Rightarrow> 'c cached_db" where
  "cdb_AddCache testnet hashBlock c db =
     (if cdb_fCache db then
        if IsFullBlock testnet hashBlock
        then db\<lparr> cdb_mapCacheFull := cache_add MAX_FULL_CACHE_COUNT hashBlock c (cdb_mapCacheFull db) \<rparr>
        else db\<lparr> cdb_mapCacheInc := cache_add MAX_INC_CACHE_COUNT hashBlock c (cdb_mapCacheInc db) \<rparr>
      else db)"

definition cdb_cache :: "bool \<Rightarrow> uint256 \<Rightarrow> 'c cached_db \<Rightarrow> (uint256 \<times> 'c) list" where
  "cdb_cache testnet hashBlock db = (if IsFullBlock testnet hashBlock then cdb_mapCacheFull db else cdb_mapCacheInc db)"

text \<open>The result is \<open>None\<close> where the code returns a null pointer.\<close>

definition cdb_GetCache :: "'c reader \<Rightarrow> bool \<Rightarrow> uint256 \<Rightarrow> 'c cached_db \<Rightarrow> 'c option \<times> 'c cached_db" where
  "cdb_GetCache load testnet hashBlock db =
     (if hashBlock = 0 \<or> \<not> cdb_fCache db then (None, db)
      else case map_of (cdb_cache testnet hashBlock db) hashBlock of
        Some c \<Rightarrow> (Some c, db)
      | None \<Rightarrow> (case kv_Read (save_basic 32) load (cdb_kv db) hashBlock of
            None \<Rightarrow> (None, db)
          | Some c \<Rightarrow> (let db' = cdb_AddCache testnet hashBlock c db
                      in (map_of (cdb_cache testnet hashBlock db') hashBlock, db'))))"

text \<open>\<open>c0\<close> is the context the caller passes by reference; for the null hash it stays as it is.\<close>

definition cdb_Get :: "'c reader \<Rightarrow> bool \<Rightarrow> uint256 \<Rightarrow> 'c \<Rightarrow> 'c cached_db \<Rightarrow> 'c option \<times> 'c cached_db" where
  "cdb_Get load testnet hashBlock c0 db =
     (if hashBlock = 0 then (Some c0, db)
      else if cdb_fCache db then cdb_GetCache load testnet hashBlock db
      else (kv_Read (save_basic 32) load (cdb_kv db) hashBlock, db))"

definition cdb_Add :: "('c \<Rightarrow> bytes) \<Rightarrow> bool \<Rightarrow> bool \<Rightarrow> uint256 \<Rightarrow> 'c \<Rightarrow> 'c cached_db \<Rightarrow> bool \<times> 'c cached_db" where
  "cdb_Add save status testnet hashBlock c db = (case kv_Write (save_basic 32) save status hashBlock c (cdb_kv db) of
     (False, d) \<Rightarrow> (False, db\<lparr> cdb_kv := d \<rparr>)
   | (True, d) \<Rightarrow> (True, cdb_AddCache testnet hashBlock c (db\<lparr> cdb_kv := d \<rparr>)))"

definition cdb_Remove :: "bool \<Rightarrow> bool \<Rightarrow> uint256 \<Rightarrow> 'c cached_db \<Rightarrow> bool \<times> 'c cached_db" where
  "cdb_Remove status testnet hashBlock db =
     (if hashBlock = 0 then (True, db)
      else let db' = (if \<not> cdb_fCache db then db
                      else if IsFullBlock testnet hashBlock then db\<lparr> cdb_mapCacheFull := std_erase hashBlock (cdb_mapCacheFull db) \<rparr>
                      else db\<lparr> cdb_mapCacheInc := std_erase hashBlock (cdb_mapCacheInc db) \<rparr>)
           in map_prod id (\<lambda>d. db'\<lparr> cdb_kv := d \<rparr>) (kv_Erase (save_basic 32) status hashBlock (cdb_kv db')))"

definition cdb_Clear :: "bool \<Rightarrow> 'c cached_db \<Rightarrow> 'c cached_db" where
  "cdb_Clear status db = db\<lparr> cdb_mapCacheFull := [], cdb_mapCacheInc := [], cdb_kv := snd (kv_RemoveAll status (cdb_kv db)) \<rparr>"

section \<open>The caches are transparent\<close>

lemma cache_evict_subset: "set (cache_evict n m) \<subseteq> set m"
  by (induction n m rule: cache_evict.induct) auto

lemma cache_evict_suffix: "\<exists>pre. m = pre @ cache_evict n m"
proof (induction n m rule: cache_evict.induct)
  case (2 n e m)
  show ?case
  proof (cases "length (e # m) \<ge> n")
    case True
    then obtain pre where "m = pre @ cache_evict n m" using 2 by blast
    then have "e # m = (e # pre) @ cache_evict n (e # m)" using True by simp
    then show ?thesis by blast
  qed simp
qed simp

lemma cache_evict_size: "0 < n \<Longrightarrow> length (cache_evict n m) < n"
  by (induction n m rule: cache_evict.induct) auto

lemma cache_evict_sorted: "std_sorted m \<Longrightarrow> std_sorted (cache_evict n m)"
  by (metis cache_evict_suffix map_append sorted_wrt_append)

lemma cache_add_ok:
  assumes "std_sorted m" "\<And>k c. map_of m k = Some c \<Longrightarrow> d k = Some c" "d h = Some c"
  shows "std_sorted (cache_add n h c m)" "map_of (cache_add n h c m) h = Some c" "\<And>k c'. map_of (cache_add n h c m) k = Some c' \<Longrightarrow> d k = Some c'"
proof -
  have e: "map_of (cache_evict n m) k = Some c' \<Longrightarrow> map_of m k = Some c'" for k c'
    using cache_evict_subset [of n m] cache_evict_sorted [OF assms(1)] assms(1) by (auto simp flip: in_set_std_sorted)
  then have n: "map_of m h = None \<Longrightarrow> map_of (cache_evict n m) h = None" by (metis not_None_eq)
  show "std_sorted (cache_add n h c m)" using assms(1) n by (auto simp: cache_add_def std_insert_new cache_evict_sorted)
  show "map_of (cache_add n h c m) h = Some c" using assms(2,3) n
    by (cases "map_of m h") (auto simp: cache_add_def std_insert_new)
  show "d k = Some c'" if "map_of (cache_add n h c m) k = Some c'" for k c'
    using that assms(2,3) n e by (auto simp: cache_add_def std_insert_new split: if_splits)
qed

definition cdb_disk :: "'c reader \<Rightarrow> 'c cached_db \<Rightarrow> uint256 \<Rightarrow> 'c option" where
  "cdb_disk load db = kv_Read (save_basic 32) load (cdb_kv db)"

definition cdb_inv :: "('c \<Rightarrow> bytes) \<Rightarrow> 'c reader \<Rightarrow> ('c \<Rightarrow> bool) \<Rightarrow> 'c cached_db \<Rightarrow> bool" where
  "cdb_inv save load ok db \<longleftrightarrow> (case cdb_kv db of None \<Rightarrow> False | Some e \<Rightarrow> table_wf (save_basic 32 :: uint256 \<Rightarrow> bytes) save (\<lambda>_. True) ok e)
     \<and> std_sorted (cdb_mapCacheFull db) \<and> (\<forall>k c. map_of (cdb_mapCacheFull db) k = Some c \<longrightarrow> cdb_disk load db k = Some c)
     \<and> std_sorted (cdb_mapCacheInc db) \<and> (\<forall>k c. map_of (cdb_mapCacheInc db) k = Some c \<longrightarrow> cdb_disk load db k = Some c)"

lemma cdb_AddCache_ok:
  assumes "cdb_inv save load ok db" "cdb_disk load db h = Some c"
  shows "cdb_inv save load ok (cdb_AddCache testnet h c db)" "cdb_disk load (cdb_AddCache testnet h c db) = cdb_disk load db"
    "cdb_fCache (cdb_AddCache testnet h c db) = cdb_fCache db"
    "cdb_fCache db \<Longrightarrow> map_of (cdb_cache testnet h (cdb_AddCache testnet h c db)) h = Some c"
proof -
  have f: "std_sorted (cdb_mapCacheFull db)" "\<And>k c. map_of (cdb_mapCacheFull db) k = Some c \<Longrightarrow> cdb_disk load db k = Some c"
    and i: "std_sorted (cdb_mapCacheInc db)" "\<And>k c. map_of (cdb_mapCacheInc db) k = Some c \<Longrightarrow> cdb_disk load db k = Some c"
    using assms(1) by (auto simp: cdb_inv_def)
  note F = cache_add_ok [of _ "cdb_disk load db", OF f assms(2)] and I = cache_add_ok [of _ "cdb_disk load db", OF i assms(2)]
  show d: "cdb_disk load (cdb_AddCache testnet h c db) = cdb_disk load db" by (simp add: cdb_disk_def cdb_AddCache_def)
  show "cdb_fCache (cdb_AddCache testnet h c db) = cdb_fCache db" by (simp add: cdb_AddCache_def)
  show "cdb_fCache db \<Longrightarrow> map_of (cdb_cache testnet h (cdb_AddCache testnet h c db)) h = Some c"
    using F(2) I(2) by (simp add: cdb_cache_def cdb_AddCache_def)
  show "cdb_inv save load ok (cdb_AddCache testnet h c db)"
    using assms(1) F(1,3) I(1,3) unfolding cdb_inv_def d by (auto simp: cdb_AddCache_def)
qed

text \<open>
  How the records refer to each other: those of the blocks that start a period have no reference,
  the others refer to such a record.
\<close>

definition ref_wf :: "bool \<Rightarrow> ('c \<Rightarrow> uint256) \<Rightarrow> (uint256 \<Rightarrow> 'c option) \<Rightarrow> bool" where
  "ref_wf testnet ref disk \<longleftrightarrow> (\<forall>h c. disk h = Some c \<longrightarrow> h \<noteq> 0 \<and> (ref c = 0 \<longleftrightarrow> IsFullBlock testnet h)
     \<and> (ref c \<noteq> 0 \<longrightarrow> (\<exists>r. disk (ref c) = Some r \<and> ref r = 0)))"

lemma ref_wfD:
  assumes "ref_wf testnet ref disk" "disk h = Some c"
  shows "h \<noteq> 0" "ref c = 0 \<longleftrightarrow> IsFullBlock testnet h" "ref c \<noteq> 0 \<Longrightarrow> \<exists>r. disk (ref c) = Some r \<and> ref r = 0"
  using assms by (auto simp: ref_wf_def)

lemma ref_wf_add:
  assumes "ref_wf testnet ref disk" "disk h = None" "h \<noteq> 0" "ref c = 0 \<longleftrightarrow> IsFullBlock testnet h"
    "ref c \<noteq> 0 \<Longrightarrow> \<exists>r. disk (ref c) = Some r \<and> ref r = 0"
  shows "ref_wf testnet ref (disk(h \<mapsto> c))"
  unfolding ref_wf_def
proof (intro allI impI)
  fix k x assume k: "(disk(h \<mapsto> c)) k = Some x"
  have keep: "\<exists>r. (disk(h \<mapsto> c)) y = Some r \<and> ref r = 0" if "\<exists>r. disk y = Some r \<and> ref r = 0" for y
    using that assms(2) by auto
  show "k \<noteq> 0 \<and> (ref x = 0 \<longleftrightarrow> IsFullBlock testnet k) \<and> (ref x \<noteq> 0 \<longrightarrow> (\<exists>r. (disk(h \<mapsto> c)) (ref x) = Some r \<and> ref r = 0))"
  proof (cases "k = h")
    case True
    then show ?thesis using k assms(3-5) keep by simp
  next
    case False
    then have "disk k = Some x" using k by simp
    from ref_wfD [OF assms(1) this] show ?thesis using keep by simp
  qed
qed

locale cached_table = kv_table "save_basic 32 :: uint256 \<Rightarrow> bytes" "load_basic 32" "size_basic 32" "\<lambda>_. True" save load ssize ok
  for save :: "'c \<Rightarrow> bytes" and load ssize ok
begin

lemma disk_ok:
  assumes "cdb_inv save load ok db" "cdb_disk load db h = Some c"
  shows "ok c"
proof -
  obtain e where e: "cdb_kv db = Some e" "table_wf (save_basic 32 :: uint256 \<Rightarrow> bytes) save (\<lambda>_. True) ok e"
    using assms(1) by (auto simp: cdb_inv_def split: option.splits)
  from entries [OF e(2)] show ?thesis
  proof (elim exE conjE)
    fix ents :: "(uint256 \<times> 'c) list" assume k: "\<forall>(k, v)\<in>set ents. True \<and> ok v"
      and r: "\<forall>k v. True \<longrightarrow> (k, v) \<in> set ents \<longleftrightarrow> kv_Read (save_basic 32) load (Some e) k = Some v"
    have "(h, c) \<in> set ents" using r assms(2) by (simp add: cdb_disk_def e(1))
    with k show "ok c" by fast
  qed
qed

lemma Get_ok:
  assumes "cdb_inv save load ok db"
  shows "\<exists>db'. cdb_Get load testnet h c0 db = (if h = 0 then Some c0 else cdb_disk load db h, db')
    \<and> cdb_inv save load ok db' \<and> cdb_disk load db' = cdb_disk load db \<and> cdb_fCache db' = cdb_fCache db"
proof (cases "h \<noteq> 0 \<and> cdb_fCache db")
  case True
  show ?thesis
  proof (cases "map_of (cdb_cache testnet h db) h")
    case (Some c)
    then have "cdb_disk load db h = Some c" using assms by (auto simp: cdb_inv_def cdb_cache_def split: if_splits)
    then show ?thesis using True Some assms by (simp add: cdb_Get_def cdb_GetCache_def)
  next
    case None
    show ?thesis
    proof (cases "cdb_disk load db h")
      case (Some c)
      note a = cdb_AddCache_ok [OF assms Some, of testnet]
      have "cdb_Get load testnet h c0 db = (Some c, cdb_AddCache testnet h c db)"
        using True None Some a(4) by (simp add: cdb_Get_def cdb_GetCache_def cdb_disk_def Let_def)
      then show ?thesis using True Some a by simp
    qed (use True None assms in \<open>simp add: cdb_Get_def cdb_GetCache_def cdb_disk_def\<close>)
  qed
qed (use assms in \<open>auto simp: cdb_Get_def cdb_disk_def\<close>)

lemma GetCache_ok:
  assumes "cdb_inv save load ok db" "h \<noteq> 0" "cdb_fCache db"
  shows "\<exists>db'. cdb_GetCache load testnet h db = (cdb_disk load db h, db')
    \<and> cdb_inv save load ok db' \<and> cdb_disk load db' = cdb_disk load db \<and> cdb_fCache db' = cdb_fCache db"
  using Get_ok [OF assms(1), of testnet h] assms(2,3) by (simp add: cdb_Get_def)

lemma Add_ok:
  assumes "cdb_inv save load ok db" "ok c" "cdb_disk load db h = None \<or> cdb_disk load db h = Some c"
  shows "\<exists>db'. cdb_Add save True testnet h c db = (True, db') \<and> cdb_inv save load ok db'
    \<and> cdb_disk load db' = (cdb_disk load db)(h \<mapsto> c) \<and> cdb_fCache db' = cdb_fCache db"
proof -
  obtain e where e: "cdb_kv db = Some e" "table_wf (save_basic 32 :: uint256 \<Rightarrow> bytes) save (\<lambda>_. True) ok e"
    using assms(1) by (auto simp: cdb_inv_def split: option.splits)
  let ?e = "e\<lparr> eng_pdb := std_assign (save_basic 32 h) (save c) (eng_pdb e) \<rparr>"
  let ?db = "db\<lparr> cdb_kv := Some ?e \<rparr>"
  have w: "kv_Write (save_basic 32) save True h c (cdb_kv db) = (True, Some ?e)"
    using e by (simp add: kv_Write_def kv_lift_def eng_Put_def table_wf_def)
  have d: "cdb_disk load ?db = (cdb_disk load db)(h \<mapsto> c)"
    using read_assign [where k = h and v = c and e = e] assms(2) e(1) by (simp add: fun_eq_iff cdb_disk_def)
  have "cdb_inv save load ok ?db"
    unfolding cdb_inv_def d using assms(1,3) wf_assign [OF e(2) _ assms(2)] by (auto simp: cdb_inv_def)
  then show ?thesis using cdb_AddCache_ok [of save load ok ?db h c testnet] d w by (simp add: cdb_Add_def)
qed

end

section \<open>Records that refer to a complete record\<close>

definition lay_inv :: "('c \<Rightarrow> bytes) \<Rightarrow> 'c reader \<Rightarrow> ('c \<Rightarrow> bool) \<Rightarrow> ('c \<Rightarrow> uint256) \<Rightarrow> bool \<Rightarrow> 'c cached_db \<Rightarrow> bool" where
  "lay_inv save load ok ref testnet db \<longleftrightarrow> cdb_inv save load ok db \<and> ref_wf testnet ref (cdb_disk load db)"

text \<open>Reading leaves the records and the invariant alone: only the caches may change.\<close>

definition lay_same :: "('c \<Rightarrow> bytes) \<Rightarrow> 'c reader \<Rightarrow> ('c \<Rightarrow> bool) \<Rightarrow> ('c \<Rightarrow> uint256) \<Rightarrow> bool \<Rightarrow> 'c cached_db \<Rightarrow> 'c cached_db \<Rightarrow> bool" where
  "lay_same save load ok ref testnet db db' \<longleftrightarrow>
     lay_inv save load ok ref testnet db' \<and> cdb_disk load db' = cdb_disk load db \<and> cdb_fCache db' = cdb_fCache db"

lemma lay_same_trans:
  "lay_same save load ok ref testnet db db' \<Longrightarrow> lay_same save load ok ref testnet db' db'' \<Longrightarrow> lay_same save load ok ref testnet db db''"
  by (simp add: lay_same_def)

locale layered_table = cached_table save load ssize ok
  for save :: "'c \<Rightarrow> bytes" and load ssize ok +
  fixes ref :: "'c \<Rightarrow> uint256"
begin

lemma lay_Get:
  assumes "lay_inv save load ok ref testnet db"
  shows "\<exists>db'. cdb_Get load testnet h c0 db = (if h = 0 then Some c0 else cdb_disk load db h, db') \<and> lay_same save load ok ref testnet db db'"
  using Get_ok [of db testnet h c0] assms by (auto simp: lay_inv_def lay_same_def)

lemma lay_GetCache:
  assumes "lay_inv save load ok ref testnet db" "h \<noteq> 0" "cdb_fCache db"
  shows "\<exists>db'. cdb_GetCache load testnet h db = (cdb_disk load db h, db') \<and> lay_same save load ok ref testnet db db'"
  using GetCache_ok [of db h testnet] assms by (auto simp: lay_inv_def lay_same_def)

lemma lay_record:
  assumes "lay_inv save load ok ref testnet db" "cdb_disk load db h = Some c"
  shows "h \<noteq> 0" "ref c = 0 \<longleftrightarrow> IsFullBlock testnet h" "ok c" "cdb_disk load db 0 = None"
    "ref c \<noteq> 0 \<Longrightarrow> \<exists>r. cdb_disk load db (ref c) = Some r \<and> ref r = 0 \<and> ok r"
proof -
  have w: "ref_wf testnet ref (cdb_disk load db)" and i: "cdb_inv save load ok db"
    using assms(1) by (simp_all add: lay_inv_def)
  show "h \<noteq> 0" "ref c = 0 \<longleftrightarrow> IsFullBlock testnet h" using ref_wfD [OF w assms(2)] by simp_all
  show "ok c" by (rule disk_ok [OF i assms(2)])
  show "cdb_disk load db 0 = None" using ref_wfD(1) [OF w, of 0] by (cases "cdb_disk load db 0") auto
  show "\<exists>r. cdb_disk load db (ref c) = Some r \<and> ref r = 0 \<and> ok r" if r: "ref c \<noteq> 0"
    using ref_wfD(3) [OF w assms(2) r] disk_ok [OF i] by blast
qed

text \<open>Adding the record of a new block: no record refers to it, so nothing else changes its meaning.\<close>

lemma lay_Add:
  assumes inv: "lay_inv save load ok ref testnet db" and "ok c" and h: "h \<noteq> 0" "cdb_disk load db h = None"
    and r: "ref c = 0 \<longleftrightarrow> IsFullBlock testnet h" "ref c \<noteq> 0 \<longrightarrow> (\<exists>r. cdb_disk load db (ref c) = Some r \<and> ref r = 0)"
  shows "\<exists>db'. cdb_Add save True testnet h c db = (True, db') \<and> lay_inv save load ok ref testnet db'
    \<and> cdb_disk load db' = (cdb_disk load db)(h \<mapsto> c) \<and> ref c \<noteq> h \<and> (\<forall>k x. cdb_disk load db k = Some x \<longrightarrow> ref x \<noteq> h)"
proof -
  have i: "cdb_inv save load ok db" "ref_wf testnet ref (cdb_disk load db)" using inv by (simp_all add: lay_inv_def)
  from Add_ok [OF i(1) assms(2), of h testnet] h(2) obtain db' where
    w: "cdb_Add save True testnet h c db = (True, db')" "cdb_inv save load ok db'" "cdb_disk load db' = (cdb_disk load db)(h \<mapsto> c)" by auto
  have "lay_inv save load ok ref testnet db'"
    using w ref_wf_add [OF i(2) h(2,1) r(1)] r(2) by (simp add: lay_inv_def)
  moreover have "ref c \<noteq> h" using r(2) h by (cases "ref c = 0") auto
  moreover have "ref x \<noteq> h" if "cdb_disk load db k = Some x" for k x
    using lay_record(5) [OF inv that] h by (cases "ref x = 0") auto
  ultimately show ?thesis using w by blast
qed

end

end
