(* ===== verification/Pledge_DB.thy ===== *)
theory Pledge_DB
  imports Block_Cache
begin

text \<open>
  The pledge database (\<^verbatim>\<open>storage/pledgedb.h\<close>, \<^verbatim>\<open>storage/pledgedb.cpp\<close>): how much each pledge address
  has pledged to each miner, after every block.  A block at the start of a period stores the complete
  map; the others store what changed since the last complete one, with its hash.  The lemmas show that
  the amounts read back at a block are the sums of the changes of the blocks below it.
\<close>

section \<open>CPledgeContext\<close>

type_synonym pledge_list = "(CDestination \<times> i64 \<times> i32) list"
type_synonym pledge_map = "(CDestination \<times> pledge_list) list"

record CPledgeContext =
  pc_hashRef :: uint256
  pc_mapPledge :: pledge_map

definition pledge_IsFull :: "CPledgeContext \<Rightarrow> bool" where
  "pledge_IsFull c = (pc_hashRef c = 0)"

definition pledge_Clear :: CPledgeContext where
  "pledge_Clear = \<lparr> pc_hashRef = 0, pc_mapPledge = [] \<rparr>"

definition ClearEmpty :: "pledge_map \<Rightarrow> pledge_map" where
  "ClearEmpty m = filter (\<lambda>(_, l). l \<noteq> []) (map (\<lambda>(d, l). (d, filter (\<lambda>(_, a, _). a \<noteq> 0) l)) m)"

text \<open>A change of the amount; a height of zero leaves the height alone.\<close>

definition pledge_merge :: "i64 \<times> i32 \<Rightarrow> i64 \<times> i32 \<Rightarrow> i64 \<times> i32" where
  "pledge_merge vd md = (fst md + fst vd, if 0 < sint (snd vd) then snd vd else snd md)"

definition add_inc_list :: "CDestination \<Rightarrow> pledge_list \<Rightarrow> pledge_map \<Rightarrow> pledge_map" where
  "add_inc_list d l m = fold (\<lambda>(k, vd). std_modify d [] (std_modify k (0, 0) (pledge_merge vd))) l m"

definition AddIncPledge :: "pledge_map \<Rightarrow> pledge_map \<Rightarrow> pledge_map" where
  "AddIncPledge mapIncPledgeIn m = fold (\<lambda>(d, l). add_inc_list d l) mapIncPledgeIn m"

abbreviation "save_pledge_entry \<equiv> save_pair save_CDestination (save_pair (save_basic 8 :: i64 \<Rightarrow> u8 list) (save_basic 4 :: i32 \<Rightarrow> u8 list))"
abbreviation "load_pledge_entry \<equiv> load_pair load_CDestination (load_pair (load_basic 8 :: i64 reader) (load_basic 4 :: i32 reader))"
abbreviation "size_pledge_entry \<equiv> size_pair size_CDestination_ser (size_pair (size_basic 8 :: i64 \<Rightarrow> nat) (size_basic 4 :: i32 \<Rightarrow> nat))"

definition save_CPledgeContext :: "CPledgeContext \<Rightarrow> u8 list" where
  "save_CPledgeContext c = save_basic 32 (pc_hashRef c) @ save_map (save_pair save_CDestination (save_map save_pledge_entry)) (pc_mapPledge c)"

definition load_CPledgeContext :: "CPledgeContext reader" where
  "load_CPledgeContext = rbind (load_basic 32) (\<lambda>h. rbind (load_map (load_pair load_CDestination (load_map load_pledge_entry))) (\<lambda>m.
     rret \<lparr> pc_hashRef = h, pc_mapPledge = m \<rparr>))"

definition size_CPledgeContext_ser :: "CPledgeContext \<Rightarrow> nat" where
  "size_CPledgeContext_ser c = size_basic 32 (pc_hashRef c) + size_map (size_pair size_CDestination_ser (size_map size_pledge_entry)) (pc_mapPledge c)"

section \<open>CPledgeDB\<close>

type_synonym CPledgeDB = "CPledgeContext cached_db"

definition GetPledge :: "bool \<Rightarrow> uint256 \<Rightarrow> CPledgeContext \<Rightarrow> CPledgeDB \<Rightarrow> CPledgeContext option \<times> CPledgeDB" where
  "GetPledge = cdb_Get load_CPledgeContext"

definition GetPledge_map :: "bool \<Rightarrow> uint256 \<Rightarrow> CPledgeDB \<Rightarrow> pledge_map option \<times> CPledgeDB" where
  "GetPledge_map testnet hashBlock db = (case cdb_Get load_CPledgeContext testnet hashBlock pledge_Clear db of
     (r, db') \<Rightarrow> (map_option pc_mapPledge r, db'))"

definition GetFullPledge :: "bool \<Rightarrow> uint256 \<Rightarrow> CPledgeContext \<Rightarrow> CPledgeDB \<Rightarrow> CPledgeContext option \<times> CPledgeDB" where
  "GetFullPledge testnet hashBlock c0 db = (case GetPledge testnet hashBlock c0 db of
       (None, db') \<Rightarrow> (None, db')
     | (Some c, db') \<Rightarrow>
         if pledge_IsFull c then (Some c, db')
         else (case GetPledge_map testnet (pc_hashRef c) db' of
             (None, db'') \<Rightarrow> (None, db'')
           | (Some m, db'') \<Rightarrow> (Some \<lparr> pc_hashRef = 0, pc_mapPledge = AddIncPledge (pc_mapPledge c) m \<rparr>, db'')))"

definition GetFullBlockPledge :: "bool \<Rightarrow> uint256 \<Rightarrow> pledge_map \<Rightarrow> CPledgeDB \<Rightarrow> CPledgeContext option \<times> CPledgeDB" where
  "GetFullBlockPledge testnet hashPrev mapBlockPledgeIn db = (case GetFullPledge testnet hashPrev pledge_Clear db of
       (None, db') \<Rightarrow> (None, db')
     | (Some c, db') \<Rightarrow> (Some (c\<lparr> pc_mapPledge := ClearEmpty (AddIncPledge mapBlockPledgeIn (pc_mapPledge c)) \<rparr>), db'))"

definition GetIncrementBlockPledge :: "bool \<Rightarrow> uint256 \<Rightarrow> pledge_map \<Rightarrow> CPledgeDB \<Rightarrow> CPledgeContext option \<times> CPledgeDB" where
  "GetIncrementBlockPledge testnet hashPrev mapBlockPledgeIn db = (case GetPledge testnet hashPrev pledge_Clear db of
       (None, db') \<Rightarrow> (None, db')
     | (Some c, db') \<Rightarrow>
         (let c' = (if pledge_IsFull c then \<lparr> pc_hashRef = hashPrev, pc_mapPledge = [] \<rparr> else c)
          in (Some (c'\<lparr> pc_mapPledge := AddIncPledge mapBlockPledgeIn (pc_mapPledge c') \<rparr>), db')))"

definition GetBlockPledge :: "bool \<Rightarrow> uint256 \<Rightarrow> uint256 \<Rightarrow> pledge_map \<Rightarrow> CPledgeDB \<Rightarrow> CPledgeContext option \<times> CPledgeDB" where
  "GetBlockPledge testnet hashBlock hashPrev mapBlockPledgeIn db =
     (if IsFullBlock testnet hashBlock then GetFullBlockPledge testnet hashPrev mapBlockPledgeIn db
      else GetIncrementBlockPledge testnet hashPrev mapBlockPledgeIn db)"

definition AddPledge :: "bool \<Rightarrow> bool \<Rightarrow> uint256 \<Rightarrow> CPledgeContext \<Rightarrow> CPledgeDB \<Rightarrow> bool \<times> CPledgeDB" where
  "AddPledge = cdb_Add save_CPledgeContext"

definition RemovePledge :: "bool \<Rightarrow> bool \<Rightarrow> uint256 \<Rightarrow> CPledgeDB \<Rightarrow> bool \<times> CPledgeDB" where
  "RemovePledge = cdb_Remove"

definition AddBlockPledge :: "bool \<Rightarrow> bool \<Rightarrow> uint256 \<Rightarrow> uint256 \<Rightarrow> pledge_map \<Rightarrow> CPledgeDB \<Rightarrow> bool \<times> CPledgeDB" where
  "AddBlockPledge status testnet hashBlock hashPrev mapBlockPledgeIn db =
     (case GetBlockPledge testnet hashBlock hashPrev mapBlockPledgeIn db of
        (None, db') \<Rightarrow> (False, db') | (Some c, db') \<Rightarrow> AddPledge status testnet hashBlock c db')"

text \<open>The list of one miner in a map, empty where the miner has none.\<close>

definition list_of :: "pledge_map \<Rightarrow> CDestination \<Rightarrow> pledge_list" where
  "list_of m d = (case map_of m d of None \<Rightarrow> [] | Some l \<Rightarrow> l)"

definition merge_list :: "pledge_list \<Rightarrow> pledge_list \<Rightarrow> pledge_list" where
  "merge_list inc l = fold (\<lambda>(k, vd). std_modify k (0, 0) (pledge_merge vd)) inc l"

text \<open>\<open>None\<close>: false is returned.  The list that the caller passes in is empty.\<close>

definition GetPowPledgeList :: "bool \<Rightarrow> uint256 \<Rightarrow> CDestination \<Rightarrow> CPledgeDB \<Rightarrow> pledge_list option \<times> CPledgeDB" where
  "GetPowPledgeList testnet hashBlock destPowMint db =
     (if hashBlock = 0 then (Some [], db)
      else if cdb_fCache db then
        (case cdb_GetCache load_CPledgeContext testnet hashBlock db of
           (None, db') \<Rightarrow> (None, db')
         | (Some c, db') \<Rightarrow>
             if IsFullBlock testnet hashBlock then (Some (list_of (pc_mapPledge c) destPowMint), db')
             else if pc_hashRef c \<noteq> 0 then
               (case cdb_GetCache load_CPledgeContext testnet (pc_hashRef c) db' of
                  (None, db'') \<Rightarrow> (None, db'')
                | (Some r, db'') \<Rightarrow>
                    (Some (merge_list (list_of (pc_mapPledge c) destPowMint) (list_of (pc_mapPledge r) destPowMint)), db''))
             else (Some (merge_list (list_of (pc_mapPledge c) destPowMint) []), db'))
      else (case GetFullPledge testnet hashBlock pledge_Clear db of
          (None, db') \<Rightarrow> (None, db') | (Some c, db') \<Rightarrow> (Some (list_of (pc_mapPledge c) destPowMint), db')))"

definition data_of :: "pledge_map \<Rightarrow> CDestination \<Rightarrow> CDestination \<Rightarrow> i64 \<times> i32" where
  "data_of m d p = (case map_of (list_of m d) p of None \<Rightarrow> (0, 0) | Some v \<Rightarrow> v)"

definition GetAddressPledgeData :: "bool \<Rightarrow> uint256 \<Rightarrow> CDestination \<Rightarrow> CDestination \<Rightarrow> CPledgeDB \<Rightarrow> (i64 \<times> i32) option \<times> CPledgeDB" where
  "GetAddressPledgeData testnet hashBlock destPowMint destPledge db =
     (if hashBlock = 0 then (Some (0, 0), db)
      else if cdb_fCache db then
        (case cdb_GetCache load_CPledgeContext testnet hashBlock db of
           (None, db') \<Rightarrow> (None, db')
         | (Some c, db') \<Rightarrow>
             if IsFullBlock testnet hashBlock then (Some (data_of (pc_mapPledge c) destPowMint destPledge), db')
             else let inc = (case map_of (list_of (pc_mapPledge c) destPowMint) destPledge of
                               None \<Rightarrow> id | Some vd \<Rightarrow> pledge_merge vd)
                  in if pc_hashRef c \<noteq> 0 then
                       (case cdb_GetCache load_CPledgeContext testnet (pc_hashRef c) db' of
                          (None, db'') \<Rightarrow> (None, db'')
                        | (Some r, db'') \<Rightarrow> (Some (inc (data_of (pc_mapPledge r) destPowMint destPledge)), db''))
                     else (Some (inc (0, 0)), db'))
      else (case GetFullPledge testnet hashBlock pledge_Clear db of
          (None, db') \<Rightarrow> (None, db') | (Some c, db') \<Rightarrow> (Some (data_of (pc_mapPledge c) destPowMint destPledge), db')))"

section \<open>The serialised context\<close>

interpretation pledge_amount: codec_pair "save_basic 8 :: i64 \<Rightarrow> u8 list" "load_basic 8" "size_basic 8" "\<lambda>_. True"
  "save_basic 4 :: i32 \<Rightarrow> u8 list" "load_basic 4" "size_basic 4" "\<lambda>_. True"
  by unfold_locales

interpretation pledge_item: codec_pair save_CDestination load_CDestination size_CDestination_ser "\<lambda>_. True"
  "save_pair (save_basic 8 :: i64 \<Rightarrow> u8 list) (save_basic 4 :: i32 \<Rightarrow> u8 list)" "load_pair (load_basic 8) (load_basic 4)"
  "size_pair (size_basic 8) (size_basic 4)" "\<lambda>(x, y). True \<and> True"
  by (intro codec_pair.intro cdest.codec_axioms pledge_amount.pair_codec)

interpretation pledge_entry: codec_entry save_pledge_entry load_pledge_entry size_pledge_entry "\<lambda>(x, y). True \<and> (case y of (x, y) \<Rightarrow> True \<and> True)"
  unfolding codec_entry_def by (rule pledge_item.pair_codec)

abbreviation pledge_list_ok :: "pledge_list \<Rightarrow> bool" where
  "pledge_list_ok m \<equiv> fits m \<and> list_all (\<lambda>(x, y). True \<and> (case y of (x, y) \<Rightarrow> True \<and> True)) m \<and> std_sorted m"

interpretation miner_item: codec_pair save_CDestination load_CDestination size_CDestination_ser "\<lambda>_. True"
  "save_map save_pledge_entry" "load_map load_pledge_entry" "size_map size_pledge_entry" pledge_list_ok
  by (intro codec_pair.intro cdest.codec_axioms pledge_entry.map_codec)

interpretation miner_entry: codec_entry "save_pair save_CDestination (save_map save_pledge_entry)"
  "load_pair load_CDestination (load_map load_pledge_entry)" "size_pair size_CDestination_ser (size_map size_pledge_entry)"
  "\<lambda>(x, y). True \<and> pledge_list_ok y"
  unfolding codec_entry_def by (rule miner_item.pair_codec)

interpretation pledge_map: codec "save_map (save_pair save_CDestination (save_map save_pledge_entry))"
  "load_map (load_pair load_CDestination (load_map load_pledge_entry))" "size_map (size_pair size_CDestination_ser (size_map size_pledge_entry))"
  "\<lambda>m. fits m \<and> list_all (\<lambda>(x, y). True \<and> pledge_list_ok y) m \<and> std_sorted m"
  by (rule miner_entry.map_codec)

text \<open>A map that can be written: ascending at both levels, and short enough for the length prefix.\<close>

definition pledge_sorted :: "pledge_map \<Rightarrow> bool" where
  "pledge_sorted m \<longleftrightarrow> std_sorted m \<and> (\<forall>(d, l) \<in> set m. std_sorted l)"

definition pledge_fits :: "pledge_map \<Rightarrow> bool" where
  "pledge_fits m \<longleftrightarrow> fits m \<and> (\<forall>(d, l) \<in> set m. fits l)"

definition pctx_ok :: "CPledgeContext \<Rightarrow> bool" where
  "pctx_ok c \<longleftrightarrow> pledge_sorted (pc_mapPledge c) \<and> pledge_fits (pc_mapPledge c)"

lemma pctx_ok_map: "pctx_ok c \<Longrightarrow> fits (pc_mapPledge c) \<and> list_all (\<lambda>(x, y). True \<and> pledge_list_ok y) (pc_mapPledge c) \<and> std_sorted (pc_mapPledge c)"
  unfolding pctx_ok_def pledge_sorted_def pledge_fits_def by (auto simp: list_all_iff)

lemma pledge_context_load: "pctx_ok c \<Longrightarrow> load_CPledgeContext (save_CPledgeContext c @ rest) = Inr (c, rest)"
  using pledge_map.load_save [OF pctx_ok_map] by (simp add: save_CPledgeContext_def load_CPledgeContext_def basic_laws)

interpretation cpc: codec save_CPledgeContext load_CPledgeContext size_CPledgeContext_ser pctx_ok
  by unfold_locales
    (erule pledge_context_load, simp add: save_CPledgeContext_def size_CPledgeContext_ser_def basic_sizes pledge_map.ssize_save)

interpretation pledge_table: layered_table save_CPledgeContext load_CPledgeContext size_CPledgeContext_ser pctx_ok pc_hashRef
  by (intro layered_table.intro cached_table.intro kv_table.intro cu256.codec_axioms cpc.codec_axioms)

section \<open>Amounts\<close>

definition amount_of :: "pledge_map \<Rightarrow> CDestination \<Rightarrow> CDestination \<Rightarrow> i64" where
  "amount_of m d p = fst (data_of m d p)"

lemma list_of_modify: "list_of (std_modify d [] f m) = (list_of m)(d := f (list_of m d))"
  by (auto simp: fun_eq_iff list_of_def std_modify_def split: option.splits)

lemma list_of_add_inc_list:
  "list_of (add_inc_list d l m) = (list_of m)(d := merge_list l (list_of m d))"
proof (induction l arbitrary: m)
  case (Cons e l)
  obtain k vd where e: "e = (k, vd)" by (cases e)
  show ?case using Cons [of "std_modify d [] (std_modify k (0, 0) (pledge_merge vd)) m"]
    by (auto simp: e add_inc_list_def merge_list_def list_of_modify fun_eq_iff)
qed (simp add: add_inc_list_def merge_list_def)

definition item_of :: "pledge_list \<Rightarrow> CDestination \<Rightarrow> i64 \<times> i32" where
  "item_of l p = (case map_of l p of None \<Rightarrow> (0, 0) | Some v \<Rightarrow> v)"

lemma data_of_item: "data_of m d p = item_of (list_of m d) p"
  by (simp add: data_of_def item_of_def)

lemma item_of_merge_list:
  assumes "distinct (map fst inc)"
  shows "item_of (merge_list inc l) p = (case map_of inc p of None \<Rightarrow> item_of l p | Some vd \<Rightarrow> pledge_merge vd (item_of l p))"
  using assms
proof (induction inc arbitrary: l)
  case (Cons e inc)
  obtain k vd where e: "e = (k, vd)" by (cases e)
  have "item_of (std_modify k (0, 0) (pledge_merge vd) l) p = (if p = k then pledge_merge vd (item_of l k) else item_of l p)"
    by (auto simp: item_of_def std_modify_def split: option.splits)
  moreover have "map_of inc k = None" using Cons.prems e by (simp add: map_of_eq_None_iff)
  ultimately show ?case using Cons.IH [of "std_modify k (0, 0) (pledge_merge vd) l"] Cons.prems e by (auto simp: merge_list_def split: option.splits)
qed (simp add: merge_list_def)

lemma list_of_AddIncPledge:
  assumes "distinct (map fst inc)"
  shows "list_of (AddIncPledge inc m) d = (if d \<in> fst ` set inc then merge_list (list_of inc d) (list_of m d) else list_of m d)"
  using assms
proof (induction inc arbitrary: m)
  case (Cons e inc)
  obtain k l where e: "e = (k, l)" by fastforce
  have "map_of inc k = None" using Cons.prems e by (simp add: map_of_eq_None_iff)
  then show ?case using Cons.IH [of "add_inc_list k l m"] Cons.prems e
    by (auto simp: AddIncPledge_def list_of_add_inc_list list_of_def [of "(k, l) # inc"] list_of_def [of inc])
qed (simp add: AddIncPledge_def)

lemma merge_list_Nil [simp]: "merge_list [] l = l"
  by (simp add: merge_list_def)

lemma list_of_AddIncPledge_merge:
  "distinct (map fst inc) \<Longrightarrow> list_of (AddIncPledge inc m) d = merge_list (list_of inc d) (list_of m d)"
  by (simp add: list_of_AddIncPledge) (auto simp: list_of_def map_of_eq_None_iff image_iff split: option.splits)

lemma pledge_sorted_list: "pledge_sorted m \<Longrightarrow> std_sorted (list_of m d)"
  by (auto simp: pledge_sorted_def list_of_def split: option.splits dest!: map_of_SomeD)

lemma pledge_sorted_distinct: "pledge_sorted m \<Longrightarrow> distinct (map fst m)"
  by (simp add: pledge_sorted_def std_sorted_distinct)

text \<open>An increment adds its amount; the height of the increment wins where it is positive.\<close>

lemma data_of_AddIncPledge:
  assumes "pledge_sorted inc"
  shows "data_of (AddIncPledge inc m) d p
    = (case map_of (list_of inc d) p of None \<Rightarrow> data_of m d p | Some vd \<Rightarrow> pledge_merge vd (data_of m d p))"
  using assms by (simp add: data_of_item list_of_AddIncPledge_merge pledge_sorted_distinct item_of_merge_list
    std_sorted_distinct [OF pledge_sorted_list] split: option.splits)

lemma amount_of_AddIncPledge:
  "pledge_sorted inc \<Longrightarrow> amount_of (AddIncPledge inc m) d p = amount_of m d p + amount_of inc d p"
  by (simp add: amount_of_def data_of_AddIncPledge data_of_def [of inc] pledge_merge_def split: option.splits)

lemma list_of_ClearEmpty:
  assumes "distinct (map fst m)"
  shows "list_of (ClearEmpty m) d = filter (\<lambda>(_, a, _). a \<noteq> 0) (list_of m d)"
proof -
  let ?m = "map (\<lambda>(d, l). (d, filter (\<lambda>(_, a, _). a \<noteq> 0) l)) m"
  have "distinct (map fst ?m)" using assms by (simp add: case_prod_unfold comp_def)
  then show ?thesis using map_of_filter_snd [of ?m "\<lambda>l. l \<noteq> []" d]
    by (auto simp: list_of_def ClearEmpty_def map_of_map_snd split: option.splits)
qed

lemma amount_of_ClearEmpty:
  assumes "pledge_sorted m"
  shows "amount_of (ClearEmpty m) d p = amount_of m d p"
proof -
  have "item_of (filter (\<lambda>(_, a, _). a \<noteq> 0) (list_of m d)) p = (let v = item_of (list_of m d) p in if fst v \<noteq> 0 then v else (0, 0))"
    using map_of_filter_snd [OF std_sorted_distinct [OF pledge_sorted_list [OF assms]], of "\<lambda>v. fst v \<noteq> 0" d p]
    by (auto simp: item_of_def case_prod_unfold Let_def split: option.splits)
  then show ?thesis using assms by (simp add: amount_of_def data_of_item list_of_ClearEmpty pledge_sorted_distinct Let_def)
qed

lemma pledge_sorted_modify:
  assumes "pledge_sorted m"
  shows "pledge_sorted (std_modify d [] (std_modify k (0, 0) f) m)"
proof -
  let ?l = "std_modify k (0, 0) f (case map_of m d of Some v \<Rightarrow> v | None \<Rightarrow> [])"
  have "std_sorted ?l" using pledge_sorted_list [OF assms, of d] by (simp add: list_of_def split: option.splits)
  then show ?thesis using assms std_assign_subset [of d ?l m]
    unfolding std_modify_def [of d] pledge_sorted_def by (auto simp: std_modify_def)
qed

lemma pledge_sorted_AddIncPledge: "pledge_sorted m \<Longrightarrow> pledge_sorted (AddIncPledge inc m)"
proof (induction inc arbitrary: m)
  case (Cons e inc)
  have "pledge_sorted (add_inc_list d l m)" if "pledge_sorted m" for d l m
    using that by (induction l arbitrary: m) (auto simp: add_inc_list_def pledge_sorted_modify)
  then show ?case using Cons by (cases e) (simp add: AddIncPledge_def)
qed (simp add: AddIncPledge_def)

lemma pledge_sorted_ClearEmpty: "pledge_sorted m \<Longrightarrow> pledge_sorted (ClearEmpty m)"
  unfolding pledge_sorted_def ClearEmpty_def
  by (auto intro!: std_filter_sorted simp: comp_def case_prod_unfold)

section \<open>What the database answers\<close>

abbreviation pledge_disk :: "CPledgeDB \<Rightarrow> uint256 \<Rightarrow> CPledgeContext option" where
  "pledge_disk \<equiv> cdb_disk load_CPledgeContext"

abbreviation pledge_inv :: "bool \<Rightarrow> CPledgeDB \<Rightarrow> bool" where
  "pledge_inv \<equiv> lay_inv save_CPledgeContext load_CPledgeContext pctx_ok pc_hashRef"

abbreviation same_pledges :: "bool \<Rightarrow> CPledgeDB \<Rightarrow> CPledgeDB \<Rightarrow> bool" where
  "same_pledges \<equiv> lay_same save_CPledgeContext load_CPledgeContext pctx_ok pc_hashRef"

text \<open>The amount that the records of a block stand for.\<close>

definition rec_amount :: "(uint256 \<Rightarrow> CPledgeContext option) \<Rightarrow> uint256 \<Rightarrow> CDestination \<Rightarrow> CDestination \<Rightarrow> i64" where
  "rec_amount disk h d p = (case disk h of None \<Rightarrow> 0 | Some c \<Rightarrow> amount_of (pc_mapPledge c) d p
     + (case disk (pc_hashRef c) of None \<Rightarrow> 0 | Some r \<Rightarrow> amount_of (pc_mapPledge r) d p))"

lemma GetFullPledge_ok:
  assumes inv: "pledge_inv testnet db" and c: "pledge_disk db h = Some c"
  shows "\<exists>m db'. GetFullPledge testnet h c0 db = (Some \<lparr> pc_hashRef = 0, pc_mapPledge = m \<rparr>, db') \<and> same_pledges testnet db db'
    \<and> pledge_sorted m \<and> amount_of m = rec_amount (pledge_disk db) h"
proof -
  note rc = pledge_table.lay_record [OF inv c]
  have srt: "pledge_sorted (pc_mapPledge c)" using rc(3) by (simp add: pctx_ok_def)
  obtain db1 where g: "GetPledge testnet h c0 db = (Some c, db1)" "same_pledges testnet db db1"
    using pledge_table.lay_Get [OF inv, of h c0] rc(1) c by (auto simp: GetPledge_def)
  show ?thesis
  proof (cases "pc_hashRef c = 0")
    case True
    have "amount_of (pc_mapPledge c) = rec_amount (pledge_disk db) h"
      by (simp add: fun_eq_iff rec_amount_def c True rc(4))
    moreover have "c = \<lparr> pc_hashRef = 0, pc_mapPledge = pc_mapPledge c \<rparr>" using True by (cases c) simp
    ultimately show ?thesis using g srt True by (auto simp: GetFullPledge_def pledge_IsFull_def intro!: exI [of _ "pc_mapPledge c"])
  next
    case False
    from rc(5) [OF this] obtain r where r: "pledge_disk db (pc_hashRef c) = Some r" "pctx_ok r" by blast
    have "pledge_inv testnet db1" "pledge_disk db1 = pledge_disk db" using g(2) by (simp_all add: lay_same_def)
    with pledge_table.lay_Get [of testnet db1 "pc_hashRef c" pledge_Clear] False r(1) obtain db2 where
      g2: "GetPledge_map testnet (pc_hashRef c) db1 = (Some (pc_mapPledge r), db2)" "same_pledges testnet db1 db2"
      by (auto simp: GetPledge_map_def)
    have "amount_of (AddIncPledge (pc_mapPledge c) (pc_mapPledge r)) = rec_amount (pledge_disk db) h"
      by (simp add: fun_eq_iff rec_amount_def c r amount_of_AddIncPledge srt)
    moreover have "pledge_sorted (AddIncPledge (pc_mapPledge c) (pc_mapPledge r))"
      using r(2) by (simp add: pledge_sorted_AddIncPledge pctx_ok_def)
    ultimately show ?thesis using g g2 False lay_same_trans [OF g(2) g2(2)]
      by (simp add: GetFullPledge_def pledge_IsFull_def)
  qed
qed

text \<open>The pledge of one address: both ways of reading add up the record and its reference.\<close>

lemma GetAddressPledgeData_ok:
  assumes inv: "pledge_inv testnet db" and c: "pledge_disk db h = Some c"
  shows "\<exists>n db'. GetAddressPledgeData testnet h d p db = (Some (rec_amount (pledge_disk db) h d p, n), db') \<and> same_pledges testnet db db'"
proof -
  note rc = pledge_table.lay_record [OF inv c]
  have srt: "pledge_sorted (pc_mapPledge c)" using rc(3) by (simp add: pctx_ok_def)
  show ?thesis
  proof (cases "cdb_fCache db")
    case False
    then show ?thesis using GetFullPledge_ok [OF inv c, of pledge_Clear] rc(1)
      by (auto simp: GetAddressPledgeData_def amount_of_def fun_eq_iff) (metis prod.collapse)
  next
    case True
    from pledge_table.lay_GetCache [OF inv rc(1) True] c obtain db1 where
      g: "cdb_GetCache load_CPledgeContext testnet h db = (Some c, db1)" "same_pledges testnet db db1" by auto
    show ?thesis
    proof (cases "pc_hashRef c = 0")
      case True
      then show ?thesis using g rc \<open>cdb_fCache db\<close> c
        by (auto simp: GetAddressPledgeData_def rec_amount_def amount_of_def) (metis prod.collapse)
    next
      case False
      from rc(5) [OF this] obtain r where r: "pledge_disk db (pc_hashRef c) = Some r" by blast
      have "pledge_inv testnet db1" "pledge_disk db1 = pledge_disk db" "cdb_fCache db1" using g(2) True by (simp_all add: lay_same_def)
      with pledge_table.lay_GetCache [of testnet db1 "pc_hashRef c"] False r obtain db2 where
        g2: "cdb_GetCache load_CPledgeContext testnet (pc_hashRef c) db1 = (Some r, db2)" "same_pledges testnet db1 db2" by auto
      show ?thesis using lay_same_trans [OF g(2) g2(2)] g(1) g2(1) rc(1,2) r c False True
        by (cases "map_of (list_of (pc_mapPledge c) d) p")
          (auto simp: GetAddressPledgeData_def rec_amount_def amount_of_def pledge_merge_def data_of_def [of "pc_mapPledge c"] intro: prod.collapse [symmetric])
    qed
  qed
qed

lemma merge_list_sorted: "std_sorted l \<Longrightarrow> std_sorted (merge_list inc l)"
  unfolding merge_list_def by (induction inc arbitrary: l) (simp_all add: case_prod_unfold)

lemma amount_of_list: "fst (item_of (list_of m d) p) = amount_of m d p"
  by (simp add: amount_of_def data_of_item)

lemma amount_merge_list:
  assumes "pledge_sorted inc"
  shows "fst (item_of (merge_list (list_of inc d) l) p) = amount_of inc d p + fst (item_of l p)"
  using item_of_merge_list [OF std_sorted_distinct [OF pledge_sorted_list [OF assms, of d]], of l p]
  by (auto simp: amount_of_def data_of_def pledge_merge_def split: option.splits)

lemma GetPowPledgeList_ok:
  assumes inv: "pledge_inv testnet db" and c: "pledge_disk db h = Some c"
  shows "\<exists>l db'. GetPowPledgeList testnet h d db = (Some l, db') \<and> same_pledges testnet db db' \<and> std_sorted l
    \<and> (\<forall>p. fst (item_of l p) = rec_amount (pledge_disk db) h d p)"
proof -
  note rc = pledge_table.lay_record [OF inv c]
  have srt: "pledge_sorted (pc_mapPledge c)" using rc(3) by (simp add: pctx_ok_def)
  show ?thesis
  proof (cases "cdb_fCache db")
    case False
    from GetFullPledge_ok [OF inv c, of pledge_Clear] obtain m db' where
      g: "GetFullPledge testnet h pledge_Clear db = (Some \<lparr> pc_hashRef = 0, pc_mapPledge = m \<rparr>, db')" "same_pledges testnet db db'"
        "pledge_sorted m" "amount_of m = rec_amount (pledge_disk db) h" by blast
    then show ?thesis using False rc(1) by (simp add: GetPowPledgeList_def amount_of_list pledge_sorted_list)
  next
    case True
    from pledge_table.lay_GetCache [OF inv rc(1) True] c obtain db1 where
      g: "cdb_GetCache load_CPledgeContext testnet h db = (Some c, db1)" "same_pledges testnet db db1" by auto
    show ?thesis
    proof (cases "pc_hashRef c = 0")
      case True
      then show ?thesis using g rc srt \<open>cdb_fCache db\<close> c
        by (simp add: GetPowPledgeList_def rec_amount_def amount_of_list pledge_sorted_list)
    next
      case False
      from rc(5) [OF this] obtain r where r: "pledge_disk db (pc_hashRef c) = Some r" "pctx_ok r" by blast
      have "pledge_inv testnet db1" "pledge_disk db1 = pledge_disk db" "cdb_fCache db1" using g(2) True by (simp_all add: lay_same_def)
      with pledge_table.lay_GetCache [of testnet db1 "pc_hashRef c"] False r obtain db2 where
        g2: "cdb_GetCache load_CPledgeContext testnet (pc_hashRef c) db1 = (Some r, db2)" "same_pledges testnet db1 db2" by auto
      show ?thesis using lay_same_trans [OF g(2) g2(2)] g(1) g2(1) rc(1,2) srt r c False True
        by (simp add: GetPowPledgeList_def rec_amount_def amount_merge_list amount_of_list merge_list_sorted pledge_sorted_list pctx_ok_def)
    qed
  qed
qed

text \<open>The record of a new block: complete or an increment, it stands for the old amounts and the new ones.\<close>

lemma GetBlockPledge_ok:
  assumes inv: "pledge_inv testnet db" and pc: "pledge_disk db prev = Some pc" and s: "pledge_sorted inc"
  shows "\<exists>c db'. GetBlockPledge testnet h prev inc db = (Some c, db') \<and> same_pledges testnet db db' \<and> pledge_sorted (pc_mapPledge c)
    \<and> (pc_hashRef c = 0 \<longleftrightarrow> IsFullBlock testnet h) \<and> (pc_hashRef c \<noteq> 0 \<longrightarrow> (\<exists>r. pledge_disk db (pc_hashRef c) = Some r \<and> pc_hashRef r = 0))
    \<and> (\<forall>d p. amount_of (pc_mapPledge c) d p + (case pledge_disk db (pc_hashRef c) of None \<Rightarrow> 0 | Some r \<Rightarrow> amount_of (pc_mapPledge r) d p)
         = rec_amount (pledge_disk db) prev d p + amount_of inc d p)"
proof -
  note rc = pledge_table.lay_record [OF inv pc]
  have srt: "pledge_sorted (pc_mapPledge pc)" using rc(3) by (simp add: pctx_ok_def)
  show ?thesis
  proof (cases "IsFullBlock testnet h")
    case True
    from GetFullPledge_ok [OF inv pc, of pledge_Clear] obtain m db' where
      g: "GetFullPledge testnet prev pledge_Clear db = (Some \<lparr> pc_hashRef = 0, pc_mapPledge = m \<rparr>, db')" "same_pledges testnet db db'"
        "pledge_sorted m" "amount_of m = rec_amount (pledge_disk db) prev" by blast
    have "pledge_sorted (AddIncPledge inc m)" by (rule pledge_sorted_AddIncPledge [OF g(3)])
    then show ?thesis using True g s rc(4)
      by (simp add: GetBlockPledge_def GetFullBlockPledge_def pledge_sorted_ClearEmpty amount_of_ClearEmpty amount_of_AddIncPledge)
  next
    case False
    from pledge_table.lay_Get [OF inv, of prev pledge_Clear] rc(1) pc obtain db' where
      g: "GetPledge testnet prev pledge_Clear db = (Some pc, db')" "same_pledges testnet db db'" by (auto simp: GetPledge_def)
    have e: "amount_of [] d p = 0" "pledge_sorted []" for d p by (simp_all add: amount_of_def data_of_def list_of_def pledge_sorted_def)
    show ?thesis
    proof (cases "pc_hashRef pc = 0")
      case True
      then show ?thesis using False g s rc srt e pc
        by (simp add: GetBlockPledge_def GetIncrementBlockPledge_def pledge_IsFull_def pledge_sorted_AddIncPledge amount_of_AddIncPledge rec_amount_def Let_def)
    next
      case nf: False
      from rc(5) [OF this] obtain r where r: "pledge_disk db (pc_hashRef pc) = Some r" "pc_hashRef r = 0" by blast
      then show ?thesis using False g s srt pc nf
        by (simp add: GetBlockPledge_def GetIncrementBlockPledge_def pledge_IsFull_def pledge_sorted_AddIncPledge amount_of_AddIncPledge rec_amount_def)
    qed
  qed
qed

text \<open>Adding a block succeeds, and leaves the amounts of every other block as they were.\<close>

lemma AddBlockPledge_ok:
  assumes inv: "pledge_inv testnet db" and pc: "pledge_disk db prev = Some pc" and s: "pledge_sorted inc"
    and h: "h \<noteq> 0" "pledge_disk db h = None"
    and fit: "\<And>c db'. GetBlockPledge testnet h prev inc db = (Some c, db') \<Longrightarrow> pledge_fits (pc_mapPledge c)"
  shows "\<exists>db'. AddBlockPledge True testnet h prev inc db = (True, db') \<and> pledge_inv testnet db'
    \<and> dom (pledge_disk db') = insert h (dom (pledge_disk db))
    \<and> (\<forall>k d p. rec_amount (pledge_disk db') k d p = (if k = h then rec_amount (pledge_disk db) prev d p + amount_of inc d p
        else rec_amount (pledge_disk db) k d p))"
proof -
  from GetBlockPledge_ok [OF inv pc s, of h] obtain c db1 where
    g: "GetBlockPledge testnet h prev inc db = (Some c, db1)" "same_pledges testnet db db1" "pledge_sorted (pc_mapPledge c)"
      "pc_hashRef c = 0 \<longleftrightarrow> IsFullBlock testnet h" "pc_hashRef c \<noteq> 0 \<longrightarrow> (\<exists>r. pledge_disk db (pc_hashRef c) = Some r \<and> pc_hashRef r = 0)"
    and a: "\<And>d p. amount_of (pc_mapPledge c) d p + (case pledge_disk db (pc_hashRef c) of None \<Rightarrow> 0 | Some r \<Rightarrow> amount_of (pc_mapPledge r) d p)
         = rec_amount (pledge_disk db) prev d p + amount_of inc d p" by blast
  have ok: "pctx_ok c" using g(3) fit [OF g(1)] by (simp add: pctx_ok_def)
  have i1: "pledge_inv testnet db1" "pledge_disk db1 = pledge_disk db" using g(2) by (simp_all add: lay_same_def)
  from pledge_table.lay_Add [OF i1(1) ok h(1)] h(2) g(4,5) i1(2) obtain db2 where
    w: "AddPledge True testnet h c db1 = (True, db2)" "pledge_inv testnet db2" "pledge_disk db2 = (pledge_disk db)(h \<mapsto> c)"
      "pc_hashRef c \<noteq> h" "\<forall>k x. pledge_disk db k = Some x \<longrightarrow> pc_hashRef x \<noteq> h" by (auto simp: AddPledge_def)
  have "rec_amount (pledge_disk db2) k d p = (if k = h then rec_amount (pledge_disk db) prev d p + amount_of inc d p
      else rec_amount (pledge_disk db) k d p)" for k d p
  proof (cases "k = h")
    case True
    then show ?thesis using w(4) a [of d p] by (simp add: w(3) rec_amount_def)
  next
    case False
    then show ?thesis using w(5) by (auto simp: w(3) rec_amount_def split: option.split)
  qed
  then show ?thesis using g(1) w(1-3) by (simp add: AddBlockPledge_def)
qed

section \<open>Histories\<close>

text \<open>
  The blocks added so far, the last one first: hash, predecessor and what the block changes.  The
  amount at a block is the sum over the path below it.
\<close>

type_synonym pledge_history = "(uint256 \<times> uint256 \<times> pledge_map) list"

fun hist_amount :: "pledge_history \<Rightarrow> uint256 \<Rightarrow> CDestination \<Rightarrow> CDestination \<Rightarrow> i64" where
  "hist_amount [] k d p = 0"
| "hist_amount ((h, prev, inc) # hist) k d p =
     (if k = h then hist_amount hist prev d p + amount_of inc d p else hist_amount hist k d p)"

text \<open>
  The databases that the code can reach: an empty one to which the genesis block is added, then any
  sequence of added blocks, in any order that adds a block after its predecessor, and of reads.
\<close>

inductive pledge_reach :: "bool \<Rightarrow> pledge_history \<Rightarrow> CPledgeDB \<Rightarrow> bool" for testnet where
  genesis: "cdb_inv save_CPledgeContext load_CPledgeContext pctx_ok db \<Longrightarrow> pledge_disk db = (\<lambda>_. None) \<Longrightarrow> h \<noteq> 0
    \<Longrightarrow> GetBlockHeightByHash h = 0 \<Longrightarrow> AddPledge True testnet h pledge_Clear db = (ok, db') \<Longrightarrow> pledge_reach testnet [(h, 0, [])] db'"
| block: "pledge_reach testnet hist db \<Longrightarrow> prev \<in> fst ` set hist \<Longrightarrow> h \<notin> fst ` set hist \<Longrightarrow> h \<noteq> 0 \<Longrightarrow> pledge_sorted inc
    \<Longrightarrow> (\<And>c dbc. GetBlockPledge testnet h prev inc db = (Some c, dbc) \<Longrightarrow> pledge_fits (pc_mapPledge c))
    \<Longrightarrow> AddBlockPledge True testnet h prev inc db = (ok, db') \<Longrightarrow> pledge_reach testnet ((h, prev, inc) # hist) db'"
| read: "pledge_reach testnet hist db \<Longrightarrow> h \<in> fst ` set hist \<Longrightarrow> GetAddressPledgeData testnet h d p db = (r, db') \<Longrightarrow> pledge_reach testnet hist db'"
| list: "pledge_reach testnet hist db \<Longrightarrow> h \<in> fst ` set hist \<Longrightarrow> GetPowPledgeList testnet h d db = (r, db') \<Longrightarrow> pledge_reach testnet hist db'"

lemma rec_amount_empty: "pledge_disk db = (\<lambda>_. None)(h \<mapsto> pledge_Clear) \<Longrightarrow> rec_amount (pledge_disk db) k d p = 0"
  by (auto simp: rec_amount_def pledge_Clear_def amount_of_def data_of_def list_of_def split: option.splits)

lemma pledge_reach_inv:
  "pledge_reach testnet hist db \<Longrightarrow> pledge_inv testnet db \<and> dom (pledge_disk db) = fst ` set hist
     \<and> rec_amount (pledge_disk db) = hist_amount hist"
proof (induction rule: pledge_reach.induct)
  case (genesis db h ok db')
  have c: "pctx_ok pledge_Clear" by (simp add: pctx_ok_def pledge_Clear_def pledge_sorted_def pledge_fits_def fits_def)
  obtain w: "cdb_inv save_CPledgeContext load_CPledgeContext pctx_ok db'" "pledge_disk db' = (\<lambda>_. None)(h \<mapsto> pledge_Clear)"
    using pledge_table.Add_ok [OF genesis(1) c, of h testnet] genesis(2,5) by (auto simp: AddPledge_def)
  have "ref_wf testnet pc_hashRef (pledge_disk db')"
    using genesis(3,4) by (simp add: w(2) ref_wf_def pledge_Clear_def IsFullBlock_def)
  moreover have "rec_amount (pledge_disk db') = hist_amount [(h, 0, [])]"
    by (intro ext) (simp add: rec_amount_empty [OF w(2)], simp add: amount_of_def data_of_def list_of_def)
  moreover have "dom (pledge_disk db') = {h}" by (simp add: w(2))
  ultimately show ?case using w(1) by (simp add: lay_inv_def)
next
  case (block hist db prev h inc ok db')
  then have IH: "pledge_inv testnet db" "dom (pledge_disk db) = fst ` set hist" "rec_amount (pledge_disk db) = hist_amount hist" by auto
  obtain pc where pc: "pledge_disk db prev = Some pc" using block.hyps(2) IH(2) by (metis domD)
  have n: "pledge_disk db h = None" using block.hyps(3) IH(2) by (metis domIff)
  from AddBlockPledge_ok [OF IH(1) pc block.hyps(5) block.hyps(4) n block.hyps(6)] block.hyps(7)
  have "pledge_inv testnet db'" "dom (pledge_disk db') = insert h (dom (pledge_disk db))"
    "rec_amount (pledge_disk db') k d p = (if k = h then rec_amount (pledge_disk db) prev d p + amount_of inc d p
        else rec_amount (pledge_disk db) k d p)" for k d p by auto
  then show ?case using IH by (simp add: fun_eq_iff)
next
  case (read hist db h d p r db')
  then obtain c where "pledge_disk db h = Some c" by (metis domD)
  with GetAddressPledgeData_ok [of testnet db h c d p] read have "same_pledges testnet db db'" by auto
  then show ?case using read by (simp add: lay_same_def)
next
  case (list hist db h d r db')
  then obtain c where "pledge_disk db h = Some c" by (metis domD)
  with GetPowPledgeList_ok [of testnet db h c d] list have "same_pledges testnet db db'" by auto
  then show ?case using list by (simp add: lay_same_def)
qed

text \<open>
  C19: the pledge database adds up.  However blocks were added and read before, with and without the
  caches and wherever the complete records lie, the amount that an address has pledged to a miner at a
  block is the sum of the changes of the blocks on the path from the genesis block to it, and the list
  of the miner holds the same amounts in ascending order of the address.
\<close>

theorem pledge_db_sums_path:
  assumes "pledge_reach testnet hist db" "h \<in> fst ` set hist"
  shows "(\<exists>n. fst (GetAddressPledgeData testnet h d p db) = Some (hist_amount hist h d p, n))
    \<and> (\<exists>l. fst (GetPowPledgeList testnet h d db) = Some l \<and> std_sorted l \<and> (\<forall>q. fst (item_of l q) = hist_amount hist h d q))"
proof -
  have i: "pledge_inv testnet db" "dom (pledge_disk db) = fst ` set hist" "rec_amount (pledge_disk db) = hist_amount hist"
    using pledge_reach_inv [OF assms(1)] by auto
  obtain c where c: "pledge_disk db h = Some c" using assms(2) i(2) by (metis domD)
  show ?thesis using GetAddressPledgeData_ok [OF i(1) c, of d p] GetPowPledgeList_ok [OF i(1) c, of d] i(3) by auto
qed

definition example_pledge_db :: CPledgeDB where
  "example_pledge_db = \<lparr> cdb_kv = Some \<lparr> eng_pdb = [], eng_pbatch = None, eng_piter = None \<rparr>, cdb_fCache = True, cdb_mapCacheFull = [], cdb_mapCacheInc = [] \<rparr>"

definition pledge_pow :: CDestination where "pledge_pow = CDestination 2 4"
definition pledge_dest :: CDestination where "pledge_dest = CDestination 2 11"

text \<open>Hashes of blocks at the heights 0, 1 and 2: the height is in the upper 32 bits.\<close>

definition example_hash0 :: uint256 where "example_hash0 = 1"
definition example_hash1 :: uint256 where "example_hash1 = 0x100000000000000000000000000000000000000000000000000000001"
definition example_hash2 :: uint256 where "example_hash2 = 0x200000000000000000000000000000000000000000000000000000001"

definition example_pledge_inc :: "i64 \<Rightarrow> i32 \<Rightarrow> pledge_map" where
  "example_pledge_inc a h = [(pledge_pow, [(pledge_dest, a, h)])]"

definition example_run0 :: CPledgeDB where
  "example_run0 = snd (AddPledge True False example_hash0 pledge_Clear example_pledge_db)"

definition example_run1 :: CPledgeDB where
  "example_run1 = snd (AddBlockPledge True False example_hash1 example_hash0 (example_pledge_inc 100 1) example_run0)"

definition example_run2 :: CPledgeDB where
  "example_run2 = snd (AddBlockPledge True False example_hash2 example_hash1 (example_pledge_inc (-30) 0) example_run1)"

lemma example_inc_sorted: "pledge_sorted (example_pledge_inc a h)"
  by (simp add: pledge_sorted_def example_pledge_inc_def)

lemma example_inc_fits: "pledge_fits (example_pledge_inc a h)"
  by (simp add: pledge_fits_def example_pledge_inc_def fits_def)

lemma example_reach0: "pledge_reach False [(example_hash0, 0, [])] example_run0"
proof (rule pledge_reach.genesis)
  show "cdb_inv save_CPledgeContext load_CPledgeContext pctx_ok example_pledge_db"
    by (simp add: example_pledge_db_def cdb_inv_def table_wf_def)
  show "pledge_disk example_pledge_db = (\<lambda>_. None)"
    by (simp add: fun_eq_iff example_pledge_db_def cdb_disk_def kv_Read_def eng_Get_def)
  show "GetBlockHeightByHash example_hash0 = 0" by code_simp
qed (simp_all add: example_hash0_def prod_eq_iff example_run0_def)

lemma example_reach1: "pledge_reach False [(example_hash1, example_hash0, example_pledge_inc 100 1), (example_hash0, 0, [])] example_run1"
proof (rule pledge_reach.block [OF example_reach0])
  have "map_option pc_mapPledge (fst (GetBlockPledge False example_hash1 example_hash0 (example_pledge_inc 100 1) example_run0)) = Some (example_pledge_inc 100 1)"
    by code_simp
  then show "pledge_fits (pc_mapPledge c)"
    if "GetBlockPledge False example_hash1 example_hash0 (example_pledge_inc 100 1) example_run0 = (Some c, dbc)" for c dbc
    using that by (simp add: example_inc_fits)
qed (simp_all add: example_hash0_def example_hash1_def prod_eq_iff example_run1_def example_inc_sorted)

lemma example_reach2:
  "pledge_reach False [(example_hash2, example_hash1, example_pledge_inc (-30) 0), (example_hash1, example_hash0, example_pledge_inc 100 1), (example_hash0, 0, [])] example_run2"
proof (rule pledge_reach.block [OF example_reach1])
  have "map_option pc_mapPledge (fst (GetBlockPledge False example_hash2 example_hash1 (example_pledge_inc (-30) 0) example_run1)) = Some (example_pledge_inc (-30) 0)"
    by code_simp
  then show "pledge_fits (pc_mapPledge c)"
    if "GetBlockPledge False example_hash2 example_hash1 (example_pledge_inc (-30) 0) example_run1 = (Some c, dbc)" for c dbc
    using that by (simp add: example_inc_fits)
qed (simp_all add: example_hash0_def example_hash1_def example_hash2_def prod_eq_iff example_run2_def example_inc_sorted)

theorem pledge_db_sums_path_witness:
  "\<exists>n. fst (GetAddressPledgeData False example_hash2 pledge_pow pledge_dest example_run2) = Some (70, n)"
  using pledge_db_sums_path [OF example_reach2, of example_hash2 pledge_pow pledge_dest]
  by (simp add: example_hash0_def example_hash1_def example_hash2_def amount_of_def data_of_def list_of_def example_pledge_inc_def)

end
