(* ===== verification/Redeem_DB.thy ===== *)
theory Redeem_DB
  imports Block_Cache
begin

text \<open>
  The redeem database (\<^verbatim>\<open>storage/redeemdb.cpp\<close>): the balance of every redeem address after each block,
  with the amount that is locked and the height at which the lock began.  As in the pledge database a
  block stores either everything or what changed since the last complete record.  The lemmas show that
  what is read back at a block follows the changes of the blocks below it.
\<close>

section \<open>CRedeemDB\<close>

type_synonym CRedeemDB = "CRedeemContext cached_db"
type_synonym redeem_map = "(CDestination \<times> CDestRedeem) list"
type_synonym redeem_changes = "(CDestination \<times> i64) list"

definition GetRedeem :: "bool \<Rightarrow> uint256 \<Rightarrow> CRedeemContext \<Rightarrow> CRedeemDB \<Rightarrow> CRedeemContext option \<times> CRedeemDB" where
  "GetRedeem = cdb_Get load_CRedeemContext"

definition GetRedeem_map :: "bool \<Rightarrow> uint256 \<Rightarrow> CRedeemDB \<Rightarrow> redeem_map option \<times> CRedeemDB" where
  "GetRedeem_map testnet hashBlock db = (case cdb_Get load_CRedeemContext testnet hashBlock redeem_Clear db of
     (r, db') \<Rightarrow> (map_option rc_mapRedeem r, db'))"

definition redeem_merge :: "redeem_map \<Rightarrow> redeem_map \<Rightarrow> redeem_map" where
  "redeem_merge mapIncRedeem m = fold (\<lambda>(k, r). std_assign k r) mapIncRedeem m"

text \<open>\<^verbatim>\<open>Retrieve\<close>: the complete context of a block.\<close>

definition redeem_Retrieve :: "bool \<Rightarrow> uint256 \<Rightarrow> CRedeemContext \<Rightarrow> CRedeemDB \<Rightarrow> CRedeemContext option \<times> CRedeemDB" where
  "redeem_Retrieve testnet hashBlock c0 db = (case GetRedeem testnet hashBlock c0 db of
       (None, db') \<Rightarrow> (None, db')
     | (Some c, db') \<Rightarrow>
         if redeem_IsFull c then (Some c, db')
         else (case GetRedeem_map testnet (rc_hashRef c) db' of
             (None, db'') \<Rightarrow> (None, db'')
           | (Some m, db'') \<Rightarrow> (Some \<lparr> rc_hashRef = 0, rc_mapRedeem = redeem_merge (rc_mapRedeem c) m \<rparr>, db'')))"

text \<open>One change that is not zero: coins that arrive start a new lock of the whole balance.\<close>

definition redeem_change :: "uint256 \<Rightarrow> i64 \<Rightarrow> CDestRedeem \<Rightarrow> CDestRedeem" where
  "redeem_change hashBlock v redeem =
     (if 0 < sint v then \<lparr> dr_nBalance = dr_nBalance redeem + v, dr_nLockAmount = dr_nBalance redeem + v,
        dr_nLockBeginHeight = GetBlockHeightByHash hashBlock \<rparr>
      else redeem\<lparr> dr_nBalance := dr_nBalance redeem + v \<rparr>)"

definition full_redeem_loop :: "uint256 \<Rightarrow> redeem_changes \<Rightarrow> redeem_map \<Rightarrow> redeem_map" where
  "full_redeem_loop hashBlock vTxRedeemIn m =
     fold (\<lambda>(dest, v) m. if v = 0 then m else std_modify dest destredeem_null (redeem_change hashBlock v) m) vTxRedeemIn m"

definition redeem_drop_empty :: "redeem_map \<Rightarrow> redeem_map" where
  "redeem_drop_empty m = filter (\<lambda>(_, r). \<not> sint (dr_nBalance r) \<le> 0) m"

definition GetFullBlockRedeem :: "bool \<Rightarrow> uint256 \<Rightarrow> uint256 \<Rightarrow> redeem_changes \<Rightarrow> CRedeemDB \<Rightarrow> CRedeemContext option \<times> CRedeemDB" where
  "GetFullBlockRedeem testnet hashBlock hashPrev vTxRedeemIn db = (case GetRedeem testnet hashPrev redeem_Clear db of
       (None, db') \<Rightarrow> (None, db')
     | (Some c, db') \<Rightarrow>
         (case (if redeem_IsFull c then (Some (rc_mapRedeem c), db')
                else case GetRedeem_map testnet (rc_hashRef c) db' of (r, db'') \<Rightarrow> (map_option (redeem_merge (rc_mapRedeem c)) r, db'')) of
            (None, db'') \<Rightarrow> (None, db'')
          | (Some m, db'') \<Rightarrow>
              (Some \<lparr> rc_hashRef = 0, rc_mapRedeem = redeem_drop_empty (full_redeem_loop hashBlock vTxRedeemIn m) \<rparr>, db'')))"

definition inc_redeem_loop :: "uint256 \<Rightarrow> redeem_map \<Rightarrow> redeem_changes \<Rightarrow> redeem_map \<Rightarrow> redeem_map" where
  "inc_redeem_loop hashBlock mapRefFullRedeem vTxRedeemIn m =
     fold (\<lambda>(dest, v) m. if v \<noteq> 0 then
         (let redeem = (case map_of m dest of Some r \<Rightarrow> r
                | None \<Rightarrow> (case map_of mapRefFullRedeem dest of Some r \<Rightarrow> r | None \<Rightarrow> destredeem_null))
          in std_assign dest (redeem_change hashBlock v redeem) m) else m) vTxRedeemIn m"

definition GetIncrementBlockRedeem :: "bool \<Rightarrow> uint256 \<Rightarrow> uint256 \<Rightarrow> redeem_changes \<Rightarrow> CRedeemDB \<Rightarrow> CRedeemContext option \<times> CRedeemDB" where
  "GetIncrementBlockRedeem testnet hashBlock hashPrev vTxRedeemIn db = (case GetRedeem testnet hashPrev redeem_Clear db of
       (None, db') \<Rightarrow> (None, db')
     | (Some c, db') \<Rightarrow>
         (case (if redeem_IsFull c then (Some (\<lparr> rc_hashRef = hashPrev, rc_mapRedeem = [] \<rparr>, rc_mapRedeem c), db')
                else case GetRedeem_map testnet (rc_hashRef c) db' of (r, db'') \<Rightarrow> (map_option (\<lambda>m. (c, m)) r, db'')) of
            (None, db'') \<Rightarrow> (None, db'')
          | (Some (c', mapRefFullRedeem), db'') \<Rightarrow>
              (Some (c'\<lparr> rc_mapRedeem := inc_redeem_loop hashBlock mapRefFullRedeem vTxRedeemIn (rc_mapRedeem c') \<rparr>), db'')))"

definition GetBlockRedeem :: "bool \<Rightarrow> uint256 \<Rightarrow> uint256 \<Rightarrow> redeem_changes \<Rightarrow> CRedeemDB \<Rightarrow> CRedeemContext option \<times> CRedeemDB" where
  "GetBlockRedeem testnet hashBlock hashPrev vTxRedeemIn db =
     (if IsFullBlock testnet hashBlock then GetFullBlockRedeem testnet hashBlock hashPrev vTxRedeemIn db
      else GetIncrementBlockRedeem testnet hashBlock hashPrev vTxRedeemIn db)"

definition AddRedeem :: "bool \<Rightarrow> bool \<Rightarrow> uint256 \<Rightarrow> CRedeemContext \<Rightarrow> CRedeemDB \<Rightarrow> bool \<times> CRedeemDB" where
  "AddRedeem = cdb_Add save_CRedeemContext"

definition RemoveRedeem :: "bool \<Rightarrow> bool \<Rightarrow> uint256 \<Rightarrow> CRedeemDB \<Rightarrow> bool \<times> CRedeemDB" where
  "RemoveRedeem = cdb_Remove"

definition AddBlockRedeem :: "bool \<Rightarrow> bool \<Rightarrow> uint256 \<Rightarrow> uint256 \<Rightarrow> redeem_changes \<Rightarrow> CRedeemDB \<Rightarrow> bool \<times> CRedeemDB" where
  "AddBlockRedeem status testnet hashBlock hashPrev vTxRedeemIn db =
     (case GetBlockRedeem testnet hashBlock hashPrev vTxRedeemIn db of
        (None, db') \<Rightarrow> (False, db') | (Some c, db') \<Rightarrow> AddRedeem status testnet hashBlock c db')"

text \<open>\<open>r0\<close> is the record the caller passes in, which stays as it is where nothing is found.\<close>

definition GetAddressRedeem :: "bool \<Rightarrow> uint256 \<Rightarrow> CDestination \<Rightarrow> CDestRedeem \<Rightarrow> CRedeemDB \<Rightarrow> CDestRedeem option \<times> CRedeemDB" where
  "GetAddressRedeem testnet hashBlock dest r0 db =
     (if hashBlock = 0 then (Some r0, db)
      else case cdb_Get load_CRedeemContext testnet hashBlock redeem_Clear db of
        (None, db') \<Rightarrow> (None, db')
      | (Some c, db') \<Rightarrow> (case map_of (rc_mapRedeem c) dest of
            Some r \<Rightarrow> (Some r, db')
          | None \<Rightarrow> if IsFullBlock testnet hashBlock \<or> rc_hashRef c = 0 then (Some r0, db')
                    else (case cdb_Get load_CRedeemContext testnet (rc_hashRef c) redeem_Clear db' of
                        (None, db'') \<Rightarrow> (None, db'')
                      | (Some f, db'') \<Rightarrow> (Some (case map_of (rc_mapRedeem f) dest of Some r \<Rightarrow> r | None \<Rightarrow> r0), db''))))"

definition rctx_ok :: "CRedeemContext \<Rightarrow> bool" where
  "rctx_ok c \<longleftrightarrow> fits (rc_mapRedeem c) \<and> std_sorted (rc_mapRedeem c)"

interpretation redeem_table: layered_table save_CRedeemContext load_CRedeemContext size_CRedeemContext_ser rctx_ok rc_hashRef
  unfolding rctx_ok_def [abs_def] by (intro layered_table.intro cached_table.intro kv_table.intro cu256.codec_axioms crc.codec_axioms)

section \<open>Changes of one address\<close>

text \<open>What the changes of a block do to the record of one address.\<close>

fun redeem_apply :: "uint256 \<Rightarrow> CDestination \<Rightarrow> redeem_changes \<Rightarrow> CDestRedeem \<Rightarrow> CDestRedeem" where
  "redeem_apply h d [] r = r"
| "redeem_apply h d ((d', v) # chs) r = redeem_apply h d chs (if d' = d \<and> v \<noteq> 0 then redeem_change h v r else r)"

definition red_of :: "redeem_map \<Rightarrow> CDestination \<Rightarrow> CDestRedeem" where
  "red_of m d = (case map_of m d of Some r \<Rightarrow> r | None \<Rightarrow> destredeem_null)"

definition layered :: "redeem_map \<Rightarrow> redeem_map \<Rightarrow> CDestination \<Rightarrow> CDestRedeem" where
  "layered inc f d = (case map_of inc d of Some r \<Rightarrow> r | None \<Rightarrow> red_of f d)"

lemma red_of_full_loop: "red_of (full_redeem_loop h chs m) d = redeem_apply h d chs (red_of m d)"
proof (induction chs arbitrary: m)
  case (Cons e chs)
  obtain d' v where e: "e = (d', v)" by (cases e)
  have "red_of (std_modify d' destredeem_null (redeem_change h v) m) d = (if d' = d then redeem_change h v (red_of m d) else red_of m d)"
    by (auto simp: red_of_def std_modify_def split: option.splits)
  then show ?case using Cons [of "std_modify d' destredeem_null (redeem_change h v) m"] Cons [of m]
    by (cases "d' = d") (simp_all add: e full_redeem_loop_def)
qed (simp add: full_redeem_loop_def)

lemma inc_redeem_loop_Cons:
  "inc_redeem_loop h f ((d, v) # chs) m = inc_redeem_loop h f chs (if v \<noteq> 0 then std_assign d (redeem_change h v (layered m f d)) m else m)"
  by (cases "map_of m d") (simp_all add: inc_redeem_loop_def layered_def red_of_def)

lemma layered_inc_loop: "layered (inc_redeem_loop h f chs m) f d = redeem_apply h d chs (layered m f d)"
proof (induction chs arbitrary: m)
  case (Cons e chs)
  obtain d' v where e: "e = (d', v)" by (cases e)
  let ?m = "std_assign d' (redeem_change h v (layered m f d')) m"
  have "layered ?m f d = (if d' = d then redeem_change h v (layered m f d) else layered m f d)"
    by (cases "d' = d") (simp_all add: layered_def)
  then show ?case using Cons [of ?m] Cons [of m]
    by (cases "d' = d") (simp_all add: e inc_redeem_loop_Cons)
qed (simp add: inc_redeem_loop_def)

lemma red_of_merge: "distinct (map fst inc) \<Longrightarrow> red_of (redeem_merge inc m) d = layered inc m d"
proof (induction inc arbitrary: m)
  case (Cons e inc)
  obtain d' r where e: "e = (d', r)" by (cases e)
  have "map_of inc d' = None" using Cons.prems e by (simp add: map_of_eq_None_iff)
  then show ?case using Cons.IH [of "std_assign d' r m"] Cons.prems
    by (auto simp: e redeem_merge_def layered_def red_of_def split: option.splits)
qed (simp add: redeem_merge_def layered_def)

lemma redeem_merge_sorted: "std_sorted m \<Longrightarrow> std_sorted (redeem_merge inc m)"
  unfolding redeem_merge_def by (induction inc arbitrary: m) (simp_all add: case_prod_unfold)

lemma full_redeem_loop_sorted: "std_sorted m \<Longrightarrow> std_sorted (full_redeem_loop h chs m)"
  unfolding full_redeem_loop_def by (induction chs arbitrary: m) (simp_all add: case_prod_unfold std_modify_def)

lemma inc_redeem_loop_sorted: "std_sorted m \<Longrightarrow> std_sorted (inc_redeem_loop h f chs m)"
  unfolding inc_redeem_loop_def by (induction chs arbitrary: m) (simp_all add: case_prod_unfold Let_def)

definition redeem_norm :: "CDestRedeem \<Rightarrow> CDestRedeem" where
  "redeem_norm r = (if sint (dr_nBalance r) \<le> 0 then destredeem_null else r)"

lemma red_of_drop_empty:
  assumes "std_sorted m"
  shows "red_of (redeem_drop_empty m) d = redeem_norm (red_of m d)" "std_sorted (redeem_drop_empty m)"
proof -
  show "red_of (redeem_drop_empty m) d = redeem_norm (red_of m d)"
    using map_of_filter_snd [OF std_sorted_distinct [OF assms], of "\<lambda>r. \<not> sint (dr_nBalance r) \<le> 0" d] unfolding redeem_drop_empty_def
    by (cases "map_of m d") (simp_all add: red_of_def redeem_norm_def destredeem_null_def)
  show "std_sorted (redeem_drop_empty m)" using assms unfolding redeem_drop_empty_def by (rule std_filter_sorted)
qed

section \<open>What the database answers\<close>

abbreviation redeem_disk :: "CRedeemDB \<Rightarrow> uint256 \<Rightarrow> CRedeemContext option" where
  "redeem_disk \<equiv> cdb_disk load_CRedeemContext"

abbreviation redeem_inv :: "bool \<Rightarrow> CRedeemDB \<Rightarrow> bool" where
  "redeem_inv \<equiv> lay_inv save_CRedeemContext load_CRedeemContext rctx_ok rc_hashRef"

abbreviation same_redeems :: "bool \<Rightarrow> CRedeemDB \<Rightarrow> CRedeemDB \<Rightarrow> bool" where
  "same_redeems \<equiv> lay_same save_CRedeemContext load_CRedeemContext rctx_ok rc_hashRef"

text \<open>The record of an address that the contexts of a block stand for.\<close>

definition rec_redeem :: "(uint256 \<Rightarrow> CRedeemContext option) \<Rightarrow> uint256 \<Rightarrow> CDestination \<Rightarrow> CDestRedeem" where
  "rec_redeem disk h d = (case disk h of None \<Rightarrow> destredeem_null
     | Some c \<Rightarrow> layered (rc_mapRedeem c) (case disk (rc_hashRef c) of None \<Rightarrow> [] | Some f \<Rightarrow> rc_mapRedeem f) d)"

lemma layered_Nil [simp]: "layered m [] = red_of m" "layered [] m = red_of m"
  by (auto simp: fun_eq_iff layered_def red_of_def split: option.split)

lemma GetRedeem_map_ok:
  assumes "redeem_inv testnet db" "redeem_disk db h = Some f"
  shows "\<exists>db'. GetRedeem_map testnet h db = (Some (rc_mapRedeem f), db') \<and> same_redeems testnet db db'"
  using redeem_table.lay_Get [OF assms(1), of h redeem_Clear] redeem_table.lay_record(1) [OF assms] assms(2)
  by (auto simp: GetRedeem_map_def)

lemma GetAddressRedeem_ok:
  assumes inv: "redeem_inv testnet db" and c: "redeem_disk db h = Some c"
  shows "\<exists>db'. GetAddressRedeem testnet h d destredeem_null db = (Some (rec_redeem (redeem_disk db) h d), db') \<and> same_redeems testnet db db'"
proof -
  note rc = redeem_table.lay_record [OF inv c]
  from redeem_table.lay_Get [OF inv, of h redeem_Clear] rc(1) c obtain db1 where
    g: "cdb_Get load_CRedeemContext testnet h redeem_Clear db = (Some c, db1)" "same_redeems testnet db db1" by auto
  show ?thesis
  proof (cases "rc_hashRef c = 0 \<or> map_of (rc_mapRedeem c) d \<noteq> None")
    case True
    then show ?thesis using g rc c by (cases "map_of (rc_mapRedeem c) d") (auto simp: GetAddressRedeem_def rec_redeem_def layered_def red_of_def)
  next
    case False
    then obtain f where f: "redeem_disk db (rc_hashRef c) = Some f" using rc(5) by blast
    have "redeem_inv testnet db1" "redeem_disk db1 = redeem_disk db" using g(2) by (simp_all add: lay_same_def)
    with redeem_table.lay_Get [of testnet db1 "rc_hashRef c" redeem_Clear] False f obtain db2 where
      g2: "cdb_Get load_CRedeemContext testnet (rc_hashRef c) redeem_Clear db1 = (Some f, db2)" "same_redeems testnet db1 db2" by auto
    show ?thesis using lay_same_trans [OF g(2) g2(2)] g(1) g2(1) rc(1,2) c f False
      by (auto simp: GetAddressRedeem_def rec_redeem_def layered_def red_of_def)
  qed
qed

text \<open>
  The new context: an increment applies the changes to what the contexts of the predecessor stand
  for, a complete one also forgets the addresses without a positive balance.
\<close>

lemma GetBlockRedeem_ok:
  assumes inv: "redeem_inv testnet db" and pc: "redeem_disk db prev = Some pc"
  shows "\<exists>c db'. GetBlockRedeem testnet h prev chs db = (Some c, db') \<and> same_redeems testnet db db' \<and> std_sorted (rc_mapRedeem c)
    \<and> (rc_hashRef c = 0 \<longleftrightarrow> IsFullBlock testnet h) \<and> (rc_hashRef c \<noteq> 0 \<longrightarrow> (\<exists>f. redeem_disk db (rc_hashRef c) = Some f \<and> rc_hashRef f = 0))
    \<and> (\<forall>d. layered (rc_mapRedeem c) (case redeem_disk db (rc_hashRef c) of None \<Rightarrow> [] | Some f \<Rightarrow> rc_mapRedeem f) d
         = (if IsFullBlock testnet h then redeem_norm else id) (redeem_apply h d chs (rec_redeem (redeem_disk db) prev d)))"
proof -
  note rc = redeem_table.lay_record [OF inv pc]
  have srt: "std_sorted (rc_mapRedeem pc)" using rc(3) by (simp add: rctx_ok_def)
  from redeem_table.lay_Get [OF inv, of prev redeem_Clear] rc(1) pc obtain db1 where
    g: "GetRedeem testnet prev redeem_Clear db = (Some pc, db1)" "same_redeems testnet db db1" by (auto simp: GetRedeem_def)
  have i1: "redeem_inv testnet db1" "redeem_disk db1 = redeem_disk db" using g(2) by (simp_all add: lay_same_def)
  show ?thesis
  proof (cases "rc_hashRef pc = 0")
    case True
    then have "rec_redeem (redeem_disk db) prev = red_of (rc_mapRedeem pc)" by (simp add: fun_eq_iff rec_redeem_def pc rc(4))
    then show ?thesis using g True srt rc(1,4) pc
        red_of_drop_empty [OF full_redeem_loop_sorted [OF srt]] layered_inc_loop [where m = "[]" and f = "rc_mapRedeem pc"]
      by (simp add: GetBlockRedeem_def GetFullBlockRedeem_def GetIncrementBlockRedeem_def redeem_IsFull_def red_of_full_loop inc_redeem_loop_sorted)
  next
    case False
    from rc(5) [OF this] obtain f where f: "redeem_disk db (rc_hashRef pc) = Some f" "rc_hashRef f = 0" "std_sorted (rc_mapRedeem f)"
      by (auto simp: rctx_ok_def)
    have rec: "rec_redeem (redeem_disk db) prev = layered (rc_mapRedeem pc) (rc_mapRedeem f)" by (simp add: fun_eq_iff rec_redeem_def pc f(1))
    from GetRedeem_map_ok [OF i1(1), of "rc_hashRef pc" f] f(1) i1(2) obtain db2 where
      g2: "GetRedeem_map testnet (rc_hashRef pc) db1 = (Some (rc_mapRedeem f), db2)" "same_redeems testnet db1 db2" by auto
    show ?thesis using g(1) g2(1) lay_same_trans [OF g(2) g2(2)] False f rec rc(4) srt
        red_of_drop_empty [OF full_redeem_loop_sorted [OF redeem_merge_sorted [OF f(3)]]]
      by (simp add: GetBlockRedeem_def GetFullBlockRedeem_def GetIncrementBlockRedeem_def redeem_IsFull_def red_of_full_loop
        red_of_merge std_sorted_distinct inc_redeem_loop_sorted layered_inc_loop)
  qed
qed

lemma AddBlockRedeem_ok:
  assumes inv: "redeem_inv testnet db" and pc: "redeem_disk db prev = Some pc" and h: "h \<noteq> 0" "redeem_disk db h = None"
    and fit: "\<And>c db'. GetBlockRedeem testnet h prev chs db = (Some c, db') \<Longrightarrow> fits (rc_mapRedeem c)"
  shows "\<exists>db'. AddBlockRedeem True testnet h prev chs db = (True, db') \<and> redeem_inv testnet db'
    \<and> dom (redeem_disk db') = insert h (dom (redeem_disk db))
    \<and> (\<forall>k d. rec_redeem (redeem_disk db') k d = (if k = h
        then (if IsFullBlock testnet h then redeem_norm else id) (redeem_apply h d chs (rec_redeem (redeem_disk db) prev d))
        else rec_redeem (redeem_disk db) k d))"
proof -
  from GetBlockRedeem_ok [OF inv pc, of h chs] obtain c db1 where
    g: "GetBlockRedeem testnet h prev chs db = (Some c, db1)" "same_redeems testnet db db1" "std_sorted (rc_mapRedeem c)"
      "rc_hashRef c = 0 \<longleftrightarrow> IsFullBlock testnet h" "rc_hashRef c \<noteq> 0 \<longrightarrow> (\<exists>f. redeem_disk db (rc_hashRef c) = Some f \<and> rc_hashRef f = 0)"
    and a: "\<And>d. layered (rc_mapRedeem c) (case redeem_disk db (rc_hashRef c) of None \<Rightarrow> [] | Some f \<Rightarrow> rc_mapRedeem f) d
         = (if IsFullBlock testnet h then redeem_norm else id) (redeem_apply h d chs (rec_redeem (redeem_disk db) prev d))"
    by blast
  have ok: "rctx_ok c" using g(3) fit [OF g(1)] by (simp add: rctx_ok_def)
  have i1: "redeem_inv testnet db1" "redeem_disk db1 = redeem_disk db" using g(2) by (simp_all add: lay_same_def)
  from redeem_table.lay_Add [OF i1(1) ok h(1)] h(2) g(4,5) i1(2) obtain db2 where
    w: "AddRedeem True testnet h c db1 = (True, db2)" "redeem_inv testnet db2" "redeem_disk db2 = (redeem_disk db)(h \<mapsto> c)"
      "rc_hashRef c \<noteq> h" "\<forall>k x. redeem_disk db k = Some x \<longrightarrow> rc_hashRef x \<noteq> h" by (auto simp: AddRedeem_def)
  have "rec_redeem (redeem_disk db2) k d = (if k = h
      then (if IsFullBlock testnet h then redeem_norm else id) (redeem_apply h d chs (rec_redeem (redeem_disk db) prev d))
      else rec_redeem (redeem_disk db) k d)" for k d
  proof (cases "k = h")
    case True
    then show ?thesis using w(4) a [of d] by (simp add: w(3) rec_redeem_def)
  next
    case False
    then show ?thesis using w(5) by (auto simp: w(3) rec_redeem_def split: option.split)
  qed
  then show ?thesis using g(1) w(1-3) by (simp add: AddBlockRedeem_def)
qed

section \<open>Histories\<close>

text \<open>The blocks added so far, the last one first, and the record of an address along the path below a block.\<close>

type_synonym redeem_history = "(uint256 \<times> uint256 \<times> redeem_changes) list"

fun hist_redeem :: "redeem_history \<Rightarrow> uint256 \<Rightarrow> CDestination \<Rightarrow> CDestRedeem" where
  "hist_redeem [] k d = destredeem_null"
| "hist_redeem ((h, prev, chs) # hist) k d = (if k = h then redeem_apply h d chs (hist_redeem hist prev d) else hist_redeem hist k d)"

text \<open>The changes never take a balance below zero.\<close>

fun changes_covered :: "uint256 \<Rightarrow> CDestination \<Rightarrow> redeem_changes \<Rightarrow> CDestRedeem \<Rightarrow> bool" where
  "changes_covered h d [] r = True"
| "changes_covered h d ((d', v) # chs) r =
     (let r' = (if d' = d \<and> v \<noteq> 0 then redeem_change h v r else r)
      in 0 \<le> sint (dr_nBalance r') \<and> changes_covered h d chs r')"

text \<open>Two records with the same balance; the lock data of an empty one do not matter.\<close>

definition redeem_sim :: "CDestRedeem \<Rightarrow> CDestRedeem \<Rightarrow> bool" where
  "redeem_sim r r' \<longleftrightarrow> dr_nBalance r = dr_nBalance r' \<and> 0 \<le> sint (dr_nBalance r) \<and> (r = r' \<or> dr_nBalance r = 0)"

lemma sint_zeroD: "sint w = 0 \<Longrightarrow> w = 0"
  by (metis signed_0 signed_word_eqI)

lemma redeem_sim_change:
  assumes "redeem_sim r r'" "0 \<le> sint (dr_nBalance (redeem_change h v r'))"
  shows "redeem_sim (redeem_change h v r) (redeem_change h v r')"
proof -
  have "v = 0" if "dr_nBalance r' = 0" "\<not> 0 < sint v" using assms(2) that by (auto simp: redeem_change_def intro: sint_zeroD)
  then show ?thesis using assms by (auto simp: redeem_sim_def redeem_change_def)
qed

lemma redeem_sim_apply:
  "redeem_sim r r' \<Longrightarrow> changes_covered h d chs r' \<Longrightarrow> redeem_sim (redeem_apply h d chs r) (redeem_apply h d chs r')"
proof (induction chs arbitrary: r r')
  case (Cons e chs)
  obtain d' v where e: "e = (d', v)" by (cases e)
  show ?case using Cons.prems redeem_sim_change [of r r' h v] by (auto simp: e Let_def intro!: Cons.IH)
qed simp

lemma redeem_sim_norm: "redeem_sim r r' \<Longrightarrow> redeem_sim (redeem_norm r) r'"
proof (cases "sint (dr_nBalance r) \<le> 0")
  case True
  moreover assume "redeem_sim r r'"
  ultimately have "dr_nBalance r = 0" "dr_nBalance r' = 0" by (auto simp: redeem_sim_def intro: sint_zeroD)
  then show ?thesis by (simp add: redeem_sim_def redeem_norm_def destredeem_null_def)
qed (simp add: redeem_norm_def)

inductive redeem_reach :: "bool \<Rightarrow> redeem_history \<Rightarrow> CRedeemDB \<Rightarrow> bool" for testnet where
  genesis: "cdb_inv save_CRedeemContext load_CRedeemContext rctx_ok db \<Longrightarrow> redeem_disk db = (\<lambda>_. None) \<Longrightarrow> h \<noteq> 0
    \<Longrightarrow> GetBlockHeightByHash h = 0 \<Longrightarrow> AddRedeem True testnet h redeem_Clear db = (ok, db') \<Longrightarrow> redeem_reach testnet [(h, 0, [])] db'"
| block: "redeem_reach testnet hist db \<Longrightarrow> prev \<in> fst ` set hist \<Longrightarrow> h \<notin> fst ` set hist \<Longrightarrow> h \<noteq> 0
    \<Longrightarrow> (\<And>d. changes_covered h d chs (hist_redeem hist prev d))
    \<Longrightarrow> (\<And>c dbc. GetBlockRedeem testnet h prev chs db = (Some c, dbc) \<Longrightarrow> fits (rc_mapRedeem c))
    \<Longrightarrow> AddBlockRedeem True testnet h prev chs db = (ok, db') \<Longrightarrow> redeem_reach testnet ((h, prev, chs) # hist) db'"
| read: "redeem_reach testnet hist db \<Longrightarrow> h \<in> fst ` set hist \<Longrightarrow> GetAddressRedeem testnet h d destredeem_null db = (r, db')
    \<Longrightarrow> redeem_reach testnet hist db'"

lemma redeem_sim_null: "redeem_sim destredeem_null destredeem_null"
  by (simp add: redeem_sim_def destredeem_null_def)

lemma redeem_reach_inv:
  "redeem_reach testnet hist db \<Longrightarrow> redeem_inv testnet db \<and> dom (redeem_disk db) = fst ` set hist
     \<and> (\<forall>h d. redeem_sim (rec_redeem (redeem_disk db) h d) (hist_redeem hist h d))"
proof (induction rule: redeem_reach.induct)
  case (genesis db h ok db')
  have c: "rctx_ok redeem_Clear" by (simp add: rctx_ok_def redeem_Clear_def fits_def)
  obtain w: "cdb_inv save_CRedeemContext load_CRedeemContext rctx_ok db'" "redeem_disk db' = (\<lambda>_. None)(h \<mapsto> redeem_Clear)"
    using redeem_table.Add_ok [OF genesis(1) c, of h testnet] genesis(2,5) by (auto simp: AddRedeem_def)
  have "ref_wf testnet rc_hashRef (redeem_disk db')"
    using genesis(3,4) by (simp add: w(2) ref_wf_def redeem_Clear_def IsFullBlock_def)
  moreover have "rec_redeem (redeem_disk db') k d = destredeem_null" for k d
    using genesis(3) by (simp add: w(2) rec_redeem_def redeem_Clear_def red_of_def)
  moreover have "dom (redeem_disk db') = {h}" by (simp add: w(2))
  ultimately show ?case using w(1) by (simp add: lay_inv_def redeem_sim_null)
next
  case (block hist db prev h chs ok db')
  then have IH: "redeem_inv testnet db" "dom (redeem_disk db) = fst ` set hist"
    "\<And>h d. redeem_sim (rec_redeem (redeem_disk db) h d) (hist_redeem hist h d)" by auto
  obtain pc where pc: "redeem_disk db prev = Some pc" using block.hyps(2) IH(2) by (metis domD)
  have n: "redeem_disk db h = None" using block.hyps(3) IH(2) by (metis domIff)
  from AddBlockRedeem_ok [where chs = chs, OF IH(1) pc block.hyps(4) n block.hyps(6)] block.hyps(7)
  have "redeem_inv testnet db'" "dom (redeem_disk db') = insert h (dom (redeem_disk db))"
    "rec_redeem (redeem_disk db') k d = (if k = h
        then (if IsFullBlock testnet h then redeem_norm else id) (redeem_apply h d chs (rec_redeem (redeem_disk db) prev d))
        else rec_redeem (redeem_disk db) k d)" for k d by auto
  then show ?case using IH redeem_sim_apply [OF IH(3) block.hyps(5)] by (simp add: redeem_sim_norm)
next
  case (read hist db h d r db')
  then obtain c where "redeem_disk db h = Some c" by (metis domD)
  with GetAddressRedeem_ok [of testnet db h c d] read have "same_redeems testnet db db'" by auto
  then show ?case using read by (simp add: lay_same_def)
qed

text \<open>
  C20: the redeem database follows the chain.  As long as no change takes a balance below zero, the
  record that is read for an address at a block has the balance to which the changes of the blocks on
  the path below it lead, and where that balance is not zero also the amount and the begin of the lock,
  although complete records forget the empty addresses and increments hold only what changed.
\<close>

theorem redeem_db_follows_path:
  assumes "redeem_reach testnet hist db" "h \<in> fst ` set hist"
  shows "\<exists>r. fst (GetAddressRedeem testnet h d destredeem_null db) = Some r \<and> dr_nBalance r = dr_nBalance (hist_redeem hist h d)
    \<and> 0 \<le> sint (dr_nBalance r) \<and> (dr_nBalance r \<noteq> 0 \<longrightarrow> r = hist_redeem hist h d)"
proof -
  have i: "redeem_inv testnet db" "dom (redeem_disk db) = fst ` set hist"
    "redeem_sim (rec_redeem (redeem_disk db) h d) (hist_redeem hist h d)"
    using redeem_reach_inv [OF assms(1)] by auto
  obtain c where c: "redeem_disk db h = Some c" using assms(2) i(2) by (metis domD)
  show ?thesis using GetAddressRedeem_ok [OF i(1) c, of d] i(3) by (auto simp: redeem_sim_def)
qed

text \<open>Coins arrive at height 1, where the record is complete, and a part of them leaves at height 2.\<close>

definition example_redeem_db :: CRedeemDB where
  "example_redeem_db = \<lparr> cdb_kv = Some \<lparr> eng_pdb = [], eng_pbatch = None, eng_piter = None \<rparr>, cdb_fCache = True, cdb_mapCacheFull = [], cdb_mapCacheInc = [] \<rparr>"

definition example_redeemer :: CDestination where "example_redeemer = CDestination 2 12"

definition example_rhash0 :: uint256 where "example_rhash0 = 1"
definition example_rhash1 :: uint256 where "example_rhash1 = 0x100000000000000000000000000000000000000000000000000000001"
definition example_rhash2 :: uint256 where "example_rhash2 = 0x200000000000000000000000000000000000000000000000000000001"

definition example_redeem0 :: CRedeemDB where
  "example_redeem0 = snd (AddRedeem True False example_rhash0 redeem_Clear example_redeem_db)"

definition example_redeem1 :: CRedeemDB where
  "example_redeem1 = snd (AddBlockRedeem True False example_rhash1 example_rhash0 [(example_redeemer, 500)] example_redeem0)"

definition example_redeem2 :: CRedeemDB where
  "example_redeem2 = snd (AddBlockRedeem True False example_rhash2 example_rhash1 [(example_redeemer, -20)] example_redeem1)"

lemma example_redeem_reach0: "redeem_reach False [(example_rhash0, 0, [])] example_redeem0"
proof (rule redeem_reach.genesis)
  show "cdb_inv save_CRedeemContext load_CRedeemContext rctx_ok example_redeem_db"
    by (simp add: example_redeem_db_def cdb_inv_def table_wf_def)
  show "redeem_disk example_redeem_db = (\<lambda>_. None)"
    by (simp add: fun_eq_iff example_redeem_db_def cdb_disk_def kv_Read_def eng_Get_def)
  show "GetBlockHeightByHash example_rhash0 = 0" by code_simp
qed (simp_all add: example_rhash0_def prod_eq_iff example_redeem0_def)

lemma example_redeem_reach1:
  "redeem_reach False [(example_rhash1, example_rhash0, [(example_redeemer, 500)]), (example_rhash0, 0, [])] example_redeem1"
proof (rule redeem_reach.block [OF example_redeem_reach0])
  have "map_option (length \<circ> rc_mapRedeem) (fst (GetBlockRedeem False example_rhash1 example_rhash0 [(example_redeemer, 500)] example_redeem0)) = Some 1"
    by code_simp
  then show "fits (rc_mapRedeem c)"
    if "GetBlockRedeem False example_rhash1 example_rhash0 [(example_redeemer, 500)] example_redeem0 = (Some c, dbc)" for c dbc
    using that by (simp add: fits_def)
  show "changes_covered example_rhash1 d [(example_redeemer, 500)] (hist_redeem [(example_rhash0, 0, [])] example_rhash0 d)" for d
    by (simp add: redeem_change_def destredeem_null_def)
qed (simp_all add: example_rhash0_def example_rhash1_def prod_eq_iff example_redeem1_def)

lemma example_redeem_reach2:
  "redeem_reach False [(example_rhash2, example_rhash1, [(example_redeemer, -20)]), (example_rhash1, example_rhash0, [(example_redeemer, 500)]), (example_rhash0, 0, [])] example_redeem2"
proof (rule redeem_reach.block [OF example_redeem_reach1])
  have "map_option (length \<circ> rc_mapRedeem) (fst (GetBlockRedeem False example_rhash2 example_rhash1 [(example_redeemer, -20)] example_redeem1)) = Some 1"
    by code_simp
  then show "fits (rc_mapRedeem c)"
    if "GetBlockRedeem False example_rhash2 example_rhash1 [(example_redeemer, -20)] example_redeem1 = (Some c, dbc)" for c dbc
    using that by (simp add: fits_def)
  show "changes_covered example_rhash2 d [(example_redeemer, -20)]
      (hist_redeem [(example_rhash1, example_rhash0, [(example_redeemer, 500)]), (example_rhash0, 0, [])] example_rhash1 d)" for d
    by (simp add: redeem_change_def destredeem_null_def)
qed (simp_all add: example_rhash0_def example_rhash1_def example_rhash2_def prod_eq_iff example_redeem2_def)

theorem redeem_db_follows_path_witness:
  "fst (GetAddressRedeem False example_rhash2 example_redeemer destredeem_null example_redeem2)
     = Some \<lparr> dr_nBalance = 480, dr_nLockAmount = 500, dr_nLockBeginHeight = GetBlockHeightByHash example_rhash1 \<rparr>"
  using redeem_db_follows_path [OF example_redeem_reach2, of example_rhash2 example_redeemer]
  by (auto simp: redeem_change_def destredeem_null_def)

end
