(* ===== verification/Template_DB.thy ===== *)
theory Template_DB
  imports KV_Store Ledger_Tx
begin

text \<open>
  The database of template data (\<^verbatim>\<open>storage/templatedatadb.cpp\<close>) with the bounded cache
  \<^verbatim>\<open>CCache\<close> (\<^verbatim>\<open>xengine/cache.h\<close>) in front of a key-value store.
\<close>

section \<open>CCache\<close>

text \<open>
  The container has a unique index on the key and a sequence in the order of insertion: a list of
  pairs with different keys, the oldest first.
\<close>

record ('k, 'v) CCache =
  cc_cntrCache :: "('k \<times> 'v) list"
  cc_nMaxCount :: nat

definition cc_Exists :: "('k, 'v) CCache \<Rightarrow> 'k \<Rightarrow> bool" where
  "cc_Exists c key = (map_of (cc_cntrCache c) key \<noteq> None)"

definition cc_Retrieve :: "('k, 'v) CCache \<Rightarrow> 'k \<Rightarrow> 'v option" where
  "cc_Retrieve c key = map_of (cc_cntrCache c) key"

definition cc_AddNew :: "'k \<Rightarrow> 'v \<Rightarrow> ('k, 'v) CCache \<Rightarrow> ('k, 'v) CCache" where
  "cc_AddNew key v c =
     (let l = (if cc_Exists c key then map (\<lambda>(k, w). (k, if k = key then v else w)) (cc_cntrCache c)
               else cc_cntrCache c @ [(key, v)])
      in c\<lparr> cc_cntrCache := (if cc_nMaxCount c \<noteq> 0 \<and> length l > cc_nMaxCount c then tl l else l) \<rparr>)"

definition cc_Remove :: "'k \<Rightarrow> ('k, 'v) CCache \<Rightarrow> ('k, 'v) CCache" where
  "cc_Remove key c = c\<lparr> cc_cntrCache := filter (\<lambda>(k, _). k \<noteq> key) (cc_cntrCache c) \<rparr>"

definition cc_Clear :: "('k, 'v) CCache \<Rightarrow> ('k, 'v) CCache" where
  "cc_Clear c = c\<lparr> cc_cntrCache := [] \<rparr>"

text \<open>Different keys, and never more entries than the limit.\<close>

definition cc_inv :: "('k, 'v) CCache \<Rightarrow> bool" where
  "cc_inv c \<longleftrightarrow> distinct (map fst (cc_cntrCache c)) \<and> (cc_nMaxCount c \<noteq> 0 \<longrightarrow> length (cc_cntrCache c) \<le> cc_nMaxCount c)"

lemma map_of_set_value: "map_of (map (\<lambda>(k, w). (k, if k = key then v else w)) m) x =
    (if x = key \<and> map_of m key \<noteq> None then Some v else map_of m x)"
  by (induction m) auto

lemma map_of_tl_le: "distinct (map fst l) \<Longrightarrow> map_of (tl l) x = Some y \<Longrightarrow> map_of l x = Some y"
  by (cases l) (auto simp: image_iff dest: map_of_SomeD)

lemma cc_AddNew_inv: "cc_inv c \<Longrightarrow> cc_inv (cc_AddNew key v c)"
proof -
  assume i: "cc_inv c"
  have k: "map fst (map (\<lambda>(k, w). (k, if k = key then v else w)) m) = map fst m" for m by (induction m) auto
  show ?thesis
  proof (cases "cc_Exists c key")
    case True
    then show ?thesis using i k [of "cc_cntrCache c"]
      by (auto simp: cc_AddNew_def cc_inv_def Let_def simp del: map_map)
  next
    case False
    then have "distinct (map fst (cc_cntrCache c @ [(key, v)]))"
      using i by (auto simp: cc_Exists_def cc_inv_def map_of_eq_None_iff)
    then have "distinct (map fst (tl (cc_cntrCache c @ [(key, v)])))" by (metis distinct_tl map_tl)
    then show ?thesis using False i \<open>distinct (map fst (cc_cntrCache c @ [(key, v)]))\<close>
      by (auto simp: cc_AddNew_def cc_inv_def Let_def)
  qed
qed

text \<open>What is found after adding an entry was there before or is the new value.\<close>

lemma cc_AddNew_Retrieve:
  assumes "cc_inv c" "cc_Retrieve (cc_AddNew key v c) x = Some y"
  shows "if x = key then y = v else cc_Retrieve c x = Some y"
proof -
  let ?l = "if cc_Exists c key then map (\<lambda>(k, w). (k, if k = key then v else w)) (cc_cntrCache c) else cc_cntrCache c @ [(key, v)]"
  have m: "map_of ?l x = (if x = key then Some v else map_of (cc_cntrCache c) x)"
    by (auto simp: cc_Exists_def map_of_set_value map_add_def split: option.split)
  have "map fst (map (\<lambda>(k, w). (k, if k = key then v else w)) m) = map fst m" for m by (induction m) auto
  then have d: "distinct (map fst ?l)"
    using assms(1) by (auto simp: cc_Exists_def cc_inv_def map_of_eq_None_iff simp del: map_map)
  have "map_of ?l x = Some y" using assms(2) map_of_tl_le [OF d] by (auto simp: cc_Retrieve_def cc_AddNew_def Let_def split: if_splits)
  then show ?thesis using m by (auto simp: cc_Retrieve_def split: if_splits)
qed

lemma cc_Remove_inv: "cc_inv c \<Longrightarrow> cc_inv (cc_Remove key c)"
  by (auto simp: cc_inv_def cc_Remove_def distinct_map_filter intro: le_trans [OF length_filter_le])

lemma cc_Remove_Retrieve:
  fixes c :: "('k, 'v) CCache"
  shows "cc_Retrieve (cc_Remove key c) = (cc_Retrieve c)(key := None)"
proof -
  have "map_of (filter (\<lambda>(k, _). k \<noteq> key) m) = (map_of m)(key := None)" for m :: "('k \<times> 'v) list" by (induction m) auto
  then show ?thesis by (intro ext) (simp add: cc_Remove_def cc_Retrieve_def)
qed

section \<open>CTemplateDataDB\<close>

record CTemplateDataDB =
  td_kv :: CKVDB
  td_fCache :: bool
  td_cacheTemplate :: "(CDestination, u8 list) CCache"

definition td_AddNew :: "bool \<Rightarrow> CDestination \<Rightarrow> u8 list \<Rightarrow> CTemplateDataDB \<Rightarrow> bool \<times> CTemplateDataDB" where
  "td_AddNew status dest vTemplateData db = (case kv_Write save_CDestination save_bytes status dest vTemplateData (td_kv db) of
     (False, d) \<Rightarrow> (False, db\<lparr> td_kv := d \<rparr>)
   | (True, d) \<Rightarrow> (True, (db\<lparr> td_kv := d \<rparr>)\<lparr> td_cacheTemplate :=
       (if td_fCache db then cc_AddNew dest vTemplateData (td_cacheTemplate db) else td_cacheTemplate db) \<rparr>))"

definition td_Remove :: "bool \<Rightarrow> CDestination \<Rightarrow> CTemplateDataDB \<Rightarrow> bool \<times> CTemplateDataDB" where
  "td_Remove status dest db =
     (let db' = (if td_fCache db then db\<lparr> td_cacheTemplate := cc_Remove dest (td_cacheTemplate db) \<rparr> else db)
      in map_prod id (\<lambda>d. db'\<lparr> td_kv := d \<rparr>) (kv_Erase save_CDestination status dest (td_kv db')))"

definition td_Retrieve :: "CDestination \<Rightarrow> CTemplateDataDB \<Rightarrow> u8 list option \<times> CTemplateDataDB" where
  "td_Retrieve dest db =
     (if td_fCache db then
        (case cc_Retrieve (td_cacheTemplate db) dest of
           Some v \<Rightarrow> (Some v, db)
         | None \<Rightarrow> (case kv_Read save_CDestination load_bytes (td_kv db) dest of
               None \<Rightarrow> (None, db)
             | Some v \<Rightarrow> (Some v, db\<lparr> td_cacheTemplate := cc_AddNew dest v (td_cacheTemplate db) \<rparr>)))
      else (kv_Read save_CDestination load_bytes (td_kv db) dest, db))"

definition td_Clear :: "bool \<Rightarrow> CTemplateDataDB \<Rightarrow> CTemplateDataDB" where
  "td_Clear status db = db\<lparr> td_cacheTemplate := cc_Clear (td_cacheTemplate db), td_kv := snd (kv_RemoveAll status (td_kv db)) \<rparr>"

interpretation ttab: kv_table save_CDestination load_CDestination size_CDestination_ser "\<lambda>_. True" save_bytes load_bytes size_bytes fits
  by (intro kv_table.intro cdest.codec_axioms bytes.codec_axioms)

text \<open>The map the database stands for: the store, which the cache agrees with.\<close>

definition td_read :: "CTemplateDataDB \<Rightarrow> CDestination \<Rightarrow> u8 list option" where
  "td_read db = kv_Read save_CDestination load_bytes (td_kv db)"

definition td_inv :: "CTemplateDataDB \<Rightarrow> bool" where
  "td_inv db \<longleftrightarrow> (case td_kv db of None \<Rightarrow> False | Some e \<Rightarrow> table_wf save_CDestination save_bytes (\<lambda>_. True) fits e)
     \<and> cc_inv (td_cacheTemplate db) \<and> (\<not> td_fCache db \<longrightarrow> cc_cntrCache (td_cacheTemplate db) = []) \<and> (\<forall>d v. cc_Retrieve (td_cacheTemplate db) d = Some v \<longrightarrow> td_read db d = Some v)"

lemma td_Retrieve_ok:
  assumes "td_inv db"
  shows "\<exists>db'. td_Retrieve d db = (td_read db d, db') \<and> td_inv db' \<and> td_read db' = td_read db"
proof (cases "td_fCache db \<and> cc_Retrieve (td_cacheTemplate db) d = None \<and> td_read db d \<noteq> None")
  case True
  then obtain v where v: "td_read db d = Some v" by blast
  let ?db = "db\<lparr> td_cacheTemplate := cc_AddNew d v (td_cacheTemplate db) \<rparr>"
  have r: "td_read ?db = td_read db" by (simp add: td_read_def)
  have i: "cc_inv (td_cacheTemplate db)" using assms by (simp add: td_inv_def)
  have "td_read db x = Some y" if "cc_Retrieve (cc_AddNew d v (td_cacheTemplate db)) x = Some y" for x y
    using cc_AddNew_Retrieve [OF i that] v assms by (cases "x = d") (auto simp: td_inv_def)
  then have "td_inv ?db" using assms True cc_AddNew_inv [OF i] unfolding td_inv_def r by simp
  then show ?thesis using True v r by (auto simp: td_Retrieve_def td_read_def)
next
  case False
  then show ?thesis using assms by (cases "cc_Retrieve (td_cacheTemplate db) d") (auto simp: td_Retrieve_def td_read_def td_inv_def)
qed

lemma td_AddNew_ok:
  assumes "td_inv db" "fits v"
  shows "\<exists>db'. td_AddNew status d v db = (status, db') \<and> td_inv db' \<and> td_read db' = (if status then (td_read db)(d \<mapsto> v) else td_read db)"
proof -
  obtain e where e: "td_kv db = Some e" "table_wf save_CDestination save_bytes (\<lambda>_. True) fits e"
    using assms(1) by (auto simp: td_inv_def split: option.splits)
  have nb: "eng_pbatch e = None" using e(2) by (simp add: table_wf_def)
  show ?thesis
  proof (cases status)
    case False
    then have "td_AddNew status d v db = (False, db)" using e nb
      by (simp add: td_AddNew_def kv_Write_def kv_lift_def eng_Put_def)
    then show ?thesis using assms False by simp
  next
    case True
    let ?e = "e\<lparr> eng_pdb := std_assign (save_CDestination d) (save_bytes v) (eng_pdb e) \<rparr>"
    let ?c = "if td_fCache db then cc_AddNew d v (td_cacheTemplate db) else td_cacheTemplate db"
    let ?db = "db\<lparr> td_kv := Some ?e, td_cacheTemplate := ?c \<rparr>"
    have w: "td_AddNew status d v db = (True, ?db)"
      using e nb True by (simp add: td_AddNew_def kv_Write_def kv_lift_def eng_Put_def)
    have r: "td_read ?db = (td_read db)(d \<mapsto> v)"
      using ttab.read_assign [where k = d and v = v and e = e] assms(2) e(1) by (simp add: fun_eq_iff td_read_def)
    have i: "cc_inv (td_cacheTemplate db)" using assms(1) by (simp add: td_inv_def)
    have "((td_read db)(d \<mapsto> v)) x = Some y" if "cc_Retrieve ?c x = Some y" for x y
    proof (cases "td_fCache db")
      case True
      then show ?thesis using cc_AddNew_Retrieve [OF i, of d v x y] that assms(1) by (cases "x = d") (auto simp: td_inv_def)
    qed (use that assms(1) in \<open>auto simp: td_inv_def cc_Retrieve_def\<close>)
    then have "td_inv ?db" using assms(1) ttab.wf_assign [OF e(2) _ assms(2)] cc_AddNew_inv [OF i] unfolding td_inv_def r by simp
    then show ?thesis using w r True by simp
  qed
qed

end
