(* ===== verification/Block_Changes.thy ===== *)
theory Block_Changes
  imports Pledge_DB Redeem_DB Template_DB
begin

text \<open>
  What a block changes in the databases of templates, pledges and redeemed amounts
  (\<^verbatim>\<open>UpdateTxTemplateData\<close>, \<^verbatim>\<open>UpdatePledge\<close> and \<^verbatim>\<open>UpdateRedeem\<close> of \<^verbatim>\<open>storage/blockbase.cpp\<close>).  The lemmas
  show what the transactions of a block add up to for one address.
\<close>

section \<open>UpdateTxTemplateData\<close>

text \<open>
  One address: the template is read from the bytes, compared with the address and stored.  \<open>None\<close> in
  the result is the return of false; \<open>status\<close> tells whether the store accepts writes.
\<close>

definition record_template :: "digest \<Rightarrow> bool \<Rightarrow> CDestination \<Rightarrow> u8 list \<Rightarrow> CTemplateDataDB \<Rightarrow> stream_error + (CTemplate option \<times> CTemplateDataDB)" where
  "record_template blake2b status dest vch td =
     (case CreateTemplatePtr blake2b (templateid_GetType (dest_GetTemplateId dest)) vch of
        Inl e \<Rightarrow> Inl e
      | Inr None \<Rightarrow> Inr (None, td)
      | Inr (Some ptr) \<Rightarrow>
          if tpl_nId ptr \<noteq> dest_GetTemplateId dest then Inr (None, td)
          else (case td_AddNew status dest (tpl_vchData ptr) td of (ok, td') \<Rightarrow> Inr (if ok then Some ptr else None, td')))"

definition update_tx_template :: "digest \<Rightarrow> bool \<Rightarrow> CTransaction \<Rightarrow> CTxContxt \<Rightarrow> CTemplateDataDB \<Rightarrow> stream_error + (bool \<times> CTemplateDataDB)" where
  "update_tx_template blake2b status tx txcontxt td =
     (if tx_vchSig tx = [] then Inr (True, td)
      else case (if dest_IsTemplate (tx_sendTo tx) \<and> IsDestInRecorded (tx_sendTo tx) then
                   (case record_template blake2b status (tx_sendTo tx) (tx_vchSig tx) td of
                      Inl e \<Rightarrow> Inl e
                    | Inr (None, td') \<Rightarrow> Inr (None, td')
                    | Inr (Some ptr, td') \<Rightarrow> Inr (map_option snd (template_GetSignDestination ptr tx 0 0 (tx_vchSig tx) []), td'))
                 else Inr (Some (tx_vchSig tx), td)) of
          Inl e \<Rightarrow> Inl e
        | Inr (None, td') \<Rightarrow> Inr (False, td')
        | Inr (Some vDestInData, td') \<Rightarrow>
            if dest_IsTemplate (ctxt_destIn txcontxt)
            then map_sum id (map_prod (\<lambda>p. p \<noteq> None) id) (record_template blake2b status (ctxt_destIn txcontxt) vDestInData td')
            else Inr (True, td'))"

fun update_vtx_template :: "digest \<Rightarrow> bool \<Rightarrow> CTransaction list \<Rightarrow> CTxContxt list \<Rightarrow> CTemplateDataDB \<Rightarrow> stream_error + (bool \<times> CTemplateDataDB)" where
  "update_vtx_template blake2b status [] cs td = Inr (True, td)"
| "update_vtx_template blake2b status (tx # vtx) [] td = Inl OutOfBounds"
| "update_vtx_template blake2b status (tx # vtx) (c # cs) td = (case update_tx_template blake2b status tx c td of
      Inl e \<Rightarrow> Inl e
    | Inr (False, td') \<Rightarrow> Inr (False, td')
    | Inr (True, td') \<Rightarrow> update_vtx_template blake2b status vtx cs td')"

definition UpdateTxTemplateData :: "digest \<Rightarrow> bool \<Rightarrow> CBlockEx \<Rightarrow> CTemplateDataDB \<Rightarrow> stream_error + (bool \<times> CTemplateDataDB)" where
  "UpdateTxTemplateData blake2b status block td =
     (let txMint = blk_txMint block in
      case (if dest_IsTemplate (tx_sendTo txMint) \<and> IsDestInRecorded (tx_sendTo txMint)
            then map_sum id (map_prod (\<lambda>p. p \<noteq> None) id) (record_template blake2b status (tx_sendTo txMint) (tx_vchSig txMint) td)
            else Inr (True, td)) of
        Inl e \<Rightarrow> Inl e
      | Inr (False, td') \<Rightarrow> Inr (False, td')
      | Inr (True, td') \<Rightarrow> update_vtx_template blake2b status (blk_vtx block) (bex_vTxContxt block) td')"

section \<open>UpdatePledge\<close>

text \<open>The pledge template of an address: from the given bytes, or from the database.\<close>

definition pledge_template :: "digest \<Rightarrow> CDestination \<Rightarrow> u8 list \<Rightarrow> CTemplateDataDB \<Rightarrow> stream_error + (CTemplateMintPledge option \<times> CTemplateDataDB)" where
  "pledge_template blake2b dest vch td =
     (case (if vch \<noteq> [] then create_as blake2b TEMPLATE_MINTPLEDGE as_mintpledge vch else Inr None) of
        Inl e \<Rightarrow> Inl e
      | Inr (Some (ptr, pledge)) \<Rightarrow> Inr (Some pledge, td)
      | Inr None \<Rightarrow> (case td_Retrieve dest td of
            (None, td') \<Rightarrow> Inr (None, td')
          | (Some vTemplateData, td') \<Rightarrow>
              map_sum id (\<lambda>r. (map_option snd r, td')) (create_as blake2b TEMPLATE_MINTPLEDGE as_mintpledge vTemplateData)))"

definition pledge_add :: "CDestination \<Rightarrow> CDestination \<Rightarrow> (i64 \<times> i32 \<Rightarrow> i64 \<times> i32) \<Rightarrow> pledge_map \<Rightarrow> pledge_map" where
  "pledge_add destPowMint dest f m = std_modify destPowMint [] (std_modify dest (0, 0) f) m"

definition pledge_in :: "digest \<Rightarrow> u32 \<Rightarrow> CTransaction \<Rightarrow> CTxContxt \<Rightarrow> pledge_map \<times> CTemplateDataDB \<Rightarrow> stream_error + (bool \<times> pledge_map \<times> CTemplateDataDB)" where
  "pledge_in blake2b nHeight tx txcontxt = (\<lambda>(m, td).
     if is_template_of (tx_sendTo tx) TEMPLATE_MINTPLEDGE then
       (case pledge_template blake2b (tx_sendTo tx) (tx_vchSig tx) td of
          Inl e \<Rightarrow> Inl e
        | Inr (None, td') \<Rightarrow> Inr (False, m, td')
        | Inr (Some pledge, td') \<Rightarrow>
            Inr (True, pledge_add (mp_destPowMint pledge) (tx_sendTo tx)
              (\<lambda>(a, h). (a + tx_nAmount tx, if tx_nType tx \<noteq> TX_STAKE \<and> \<not> dest_IsNull (ctxt_destIn txcontxt) then nHeight else h)) m, td'))
     else Inr (True, m, td))"

text \<open>The signature data of the spending address, behind the data of a recorded template the coins go to.\<close>

definition dest_in_data :: "digest \<Rightarrow> CTransaction \<Rightarrow> stream_error + u8 list option" where
  "dest_in_data blake2b tx =
     (if dest_IsTemplate (tx_sendTo tx) \<and> IsDestInRecorded (tx_sendTo tx) then
        (case CreateTemplatePtr blake2b (templateid_GetType (dest_GetTemplateId (tx_sendTo tx))) (tx_vchSig tx) of
           Inl e \<Rightarrow> Inl e
         | Inr None \<Rightarrow> Inr None
         | Inr (Some ptr) \<Rightarrow> Inr (map_option snd (template_GetSignDestination ptr tx 0 0 (tx_vchSig tx) [])))
      else Inr (Some (tx_vchSig tx)))"

definition pledge_out :: "digest \<Rightarrow> CTransaction \<Rightarrow> CTxContxt \<Rightarrow> pledge_map \<times> CTemplateDataDB \<Rightarrow> stream_error + (bool \<times> pledge_map \<times> CTemplateDataDB)" where
  "pledge_out blake2b tx txcontxt = (\<lambda>(m, td).
     if is_template_of (ctxt_destIn txcontxt) TEMPLATE_MINTPLEDGE then
       (case dest_in_data blake2b tx of
          Inl e \<Rightarrow> Inl e
        | Inr None \<Rightarrow> Inr (False, m, td)
        | Inr (Some vDestInData) \<Rightarrow>
            (case pledge_template blake2b (ctxt_destIn txcontxt) vDestInData td of
               Inl e \<Rightarrow> Inl e
             | Inr (None, td') \<Rightarrow> Inr (False, m, td')
             | Inr (Some pledge, td') \<Rightarrow>
                 Inr (True, pledge_add (mp_destPowMint pledge) (ctxt_destIn txcontxt) (\<lambda>(a, h). (a - (tx_nAmount tx + tx_nTxFee tx), h)) m, td')))
     else Inr (True, m, td))"

fun block_pledge_loop :: "digest \<Rightarrow> u32 \<Rightarrow> CTransaction list \<Rightarrow> CTxContxt list \<Rightarrow> pledge_map \<times> CTemplateDataDB \<Rightarrow> stream_error + (bool \<times> pledge_map \<times> CTemplateDataDB)" where
  "block_pledge_loop blake2b nHeight [] cs s = Inr (True, s)"
| "block_pledge_loop blake2b nHeight (tx # vtx) [] s = Inl OutOfBounds"
| "block_pledge_loop blake2b nHeight (tx # vtx) (c # cs) s = (case pledge_in blake2b nHeight tx c s of
      Inl e \<Rightarrow> Inl e
    | Inr (False, s') \<Rightarrow> Inr (False, s')
    | Inr (True, s') \<Rightarrow> (case pledge_out blake2b tx c s' of
          Inl e \<Rightarrow> Inl e
        | Inr (False, s'') \<Rightarrow> Inr (False, s'')
        | Inr (True, s'') \<Rightarrow> block_pledge_loop blake2b nHeight vtx cs s''))"

definition UpdatePledge :: "digest \<Rightarrow> bool \<Rightarrow> bool \<Rightarrow> uint256 \<Rightarrow> CBlockEx \<Rightarrow> CTemplateDataDB \<times> CPledgeDB \<Rightarrow> stream_error + (bool \<times> CTemplateDataDB \<times> CPledgeDB)" where
  "UpdatePledge blake2b status testnet hashBlock block = (\<lambda>(td, db).
     case block_pledge_loop blake2b (block_GetBlockHeight block) (blk_vtx block) (bex_vTxContxt block) ([], td) of
       Inl e \<Rightarrow> Inl e
     | Inr (False, _, td') \<Rightarrow> Inr (False, td', db)
     | Inr (True, mapBlockPledge, td') \<Rightarrow>
         (case AddBlockPledge status testnet hashBlock (blk_hashPrev block) mapBlockPledge db of (ok, db') \<Rightarrow> Inr (ok, td', db')))"

section \<open>UpdateRedeem\<close>

definition tx_redeems :: "CTransaction \<Rightarrow> CTxContxt \<Rightarrow> redeem_changes" where
  "tx_redeems tx txcontxt =
     (if is_template_of (tx_sendTo tx) TEMPLATE_MINTREDEEM then [(tx_sendTo tx, tx_nAmount tx)] else [])
     @ (if is_template_of (ctxt_destIn txcontxt) TEMPLATE_MINTREDEEM then [(ctxt_destIn txcontxt, 0 - (tx_nAmount tx + tx_nTxFee tx))] else [])"

fun block_redeem_changes :: "CTransaction list \<Rightarrow> CTxContxt list \<Rightarrow> stream_error + redeem_changes" where
  "block_redeem_changes [] cs = Inr []"
| "block_redeem_changes (tx # vtx) [] = Inl OutOfBounds"
| "block_redeem_changes (tx # vtx) (c # cs) = map_sum id (\<lambda>r. tx_redeems tx c @ r) (block_redeem_changes vtx cs)"

definition UpdateRedeem :: "bool \<Rightarrow> bool \<Rightarrow> uint256 \<Rightarrow> CBlockEx \<Rightarrow> CRedeemDB \<Rightarrow> stream_error + (bool \<times> CRedeemDB)" where
  "UpdateRedeem status testnet hashBlock block db = (case block_redeem_changes (blk_vtx block) (bex_vTxContxt block) of
     Inl e \<Rightarrow> Inl e
   | Inr vTxRedeem \<Rightarrow> Inr (AddBlockRedeem status testnet hashBlock (blk_hashPrev block) vTxRedeem db))"

end
