(* ===== verification/Coin_Balance.thy ===== *)
theory Coin_Balance
  imports Chain_View Block_Changes
begin

text \<open>
  The coins of an address.  The databases of pledges and of redeemed amounts keep running sums per
  block; this theory relates those sums to the unspent outputs that the replay of the chain leaves: for
  a pledge address the recorded pledge, and for a redeem address the recorded balance, is the sum of
  its unspent outputs at the same block.
\<close>

section \<open>The balance of an address\<close>

definition coin :: "CDestination \<Rightarrow> CTxOut option \<Rightarrow> i64" where
  "coin d u = (case u of None \<Rightarrow> 0 | Some o1 \<Rightarrow> if out_destTo o1 = d then out_nAmount o1 else 0)"

definition balance :: "utxo \<Rightarrow> CDestination \<Rightarrow> i64" where
  "balance m d = (\<Sum>k\<in>dom m. coin d (m k))"

lemma coin_simps [simp]: "coin d None = 0" "coin d (Some u) = (if out_destTo u = d then out_nAmount u else 0)"
  by (simp_all add: coin_def)

lemma balance_upd:
  assumes "finite (dom m)"
  shows "balance (m(k := x)) d = balance m d - coin d (m k) + coin d x"
proof -
  let ?S = "insert k (dom m)"
  have s: "balance m' d = (\<Sum>j\<in>?S. coin d (m' j))" if "dom m' \<subseteq> ?S" for m'
    unfolding balance_def using assms that by (intro sum.mono_neutral_left) (auto simp: domIff)
  have "balance (m(k := x)) d = (\<Sum>j\<in>?S. coin d ((m(k := x)) j))" by (rule s) auto
  also have "\<dots> = coin d x + (\<Sum>j\<in>?S - {k}. coin d ((m(k := x)) j))" using assms by (subst sum.remove [of _ k]) auto
  also have "(\<Sum>j\<in>?S - {k}. coin d ((m(k := x)) j)) = (\<Sum>j\<in>?S - {k}. coin d (m j))" by (rule sum.cong) auto
  also have "\<dots> = balance m d - coin d (m k)"
  proof -
    have "balance m d = (\<Sum>j\<in>?S. coin d (m j))" by (rule s) auto
    also have "\<dots> = coin d (m k) + (\<Sum>j\<in>?S - {k}. coin d (m j))" using assms by (intro sum.remove) auto
    finally show ?thesis by (simp add: algebra_simps)
  qed
  finally have f: "balance (m(k := x)) d = coin d x + (balance m d - coin d (m k))" .
  show ?thesis unfolding f by simp
qed

definition coins :: "CDestination \<Rightarrow> (CTxOutPoint \<times> CTxOut) list \<Rightarrow> i64" where
  "coins d es = sum_list (map (\<lambda>(k, u). coin d (Some u)) es)"

lemma finite_put_all [simp]: "finite (dom m) \<Longrightarrow> finite (dom (put_all es m))"
  unfolding put_all_def by (induction es arbitrary: m) auto

lemma finite_drop_all [simp]: "finite (dom m) \<Longrightarrow> finite (dom (drop_all es m))"
  unfolding drop_all_def by (induction es arbitrary: m) auto

lemma balance_put_all:
  assumes "finite (dom m)" "distinct (map fst es)" "\<forall>(k, u)\<in>set es. m k = None"
  shows "balance (put_all es m) d = balance m d + coins d es"
  using assms
proof (induction es arbitrary: m)
  case (Cons e es)
  obtain k u where e: "e = (k, u)" by (cases e)
  have "j \<noteq> k" if "(j, w) \<in> set es" for j w using Cons.prems e that by force
  then have n: "\<forall>(j, w)\<in>set es. (m(k \<mapsto> u)) j = None" using Cons.prems e by auto
  have f: "finite (dom (m(k \<mapsto> u)))" "distinct (map fst es)" using Cons.prems(1,2) by (simp_all add: e)
  have a: "balance (put_all es (m(k \<mapsto> u))) d = balance (m(k \<mapsto> u)) d + coins d es" by (rule Cons.IH [OF f n])
  have b: "balance (m(k \<mapsto> u)) d = balance m d - coin d (m k) + coin d (Some u)" by (rule balance_upd [OF Cons.prems(1)])
  have c: "put_all (e # es) m = put_all es (m(k \<mapsto> u))" by (simp add: put_all_def e)
  show ?case unfolding c a b using Cons.prems(3) by (simp add: coins_def e)
qed (simp add: put_all_def coins_def)

lemma balance_drop_all:
  assumes "finite (dom m)" "distinct (map fst es)" "\<forall>(k, u)\<in>set es. m k = Some u"
  shows "balance (drop_all es m) d = balance m d - coins d es"
  using assms
proof (induction es arbitrary: m)
  case (Cons e es)
  obtain k u where e: "e = (k, u)" by (cases e)
  have "j \<noteq> k" if "(j, w) \<in> set es" for j w using Cons.prems e that by force
  then have n: "\<forall>(j, w)\<in>set es. (m(k := None)) j = Some w" using Cons.prems e by auto
  have f: "finite (dom (m(k := None)))" "distinct (map fst es)" using Cons.prems(1,2) by (simp_all add: e)
  have a: "balance (drop_all es (m(k := None))) d = balance (m(k := None)) d - coins d es" by (rule Cons.IH [OF f n])
  have b: "balance (m(k := None)) d = balance m d - coin d (m k) + coin d (None)" by (rule balance_upd [OF Cons.prems(1)])
  have c: "drop_all (e # es) m = drop_all es (m(k := None))" by (simp add: drop_all_def e)
  show ?case unfolding c a b using Cons.prems(3) by (simp add: coins_def e)
qed (simp add: drop_all_def coins_def)

section \<open>What a transaction does to a balance\<close>

text \<open>The amount that arrives, less the amount and the fee that leave.\<close>

definition tx_net :: "CDestination \<Rightarrow> CTransaction \<Rightarrow> CTxContxt \<Rightarrow> i64" where
  "tx_net d tx c = (if tx_sendTo tx = d then tx_nAmount tx else 0) - (if ctxt_destIn c = d then tx_nAmount tx + tx_nTxFee tx else 0)"

text \<open>
  No negative amount is sent or, where somebody spends, kept as change, and there is a context for
  every input. Mint and reward transactions spend nothing.
\<close>

definition tx_balanced :: "CTransaction \<Rightarrow> CTxContxt \<Rightarrow> bool" where
  "tx_balanced tx c \<longleftrightarrow> length (tx_vInput tx) = length (ctxt_vin c) \<and> 0 \<le> sint (tx_nAmount tx)
     \<and> (dest_IsNull (ctxt_destIn c) \<or> 0 \<le> sint (tx_GetChange tx (txcontxt_GetValueIn c)))"

lemma GetValueIn_sum: "txcontxt_GetValueIn c = sum_list (map inc_nAmount (ctxt_vin c))"
proof -
  have "fold (\<lambda>i nValueIn. nValueIn + inc_nAmount i) l a = a + sum_list (map inc_nAmount l)" for a and l :: "CTxInContxt list" by (induction l arbitrary: a) (auto simp: algebra_simps)
  then show ?thesis by (simp add: txcontxt_GetValueIn_def)
qed

lemma coins_spent:
  assumes "length (tx_vInput tx) = length (ctxt_vin c)"
  shows "coins d (tx_spent tx c) = (if ctxt_destIn c = d then txcontxt_GetValueIn c else 0)"
proof -
  have a: "map snd (tx_spent tx c) = map (contxt_output (ctxt_destIn c)) (ctxt_vin c)" using assms by (simp add: tx_spent_def)
  have b: "coins d es = sum_list (map (\<lambda>u. coin d (Some u)) (map snd es))" for es
    by (simp add: coins_def comp_def case_prod_unfold)
  have "coins d (tx_spent tx c) = sum_list (map (\<lambda>i. coin d (Some (contxt_output (ctxt_destIn c) i))) (ctxt_vin c))"
    unfolding b a by (simp add: comp_def)
  also have "\<dots> = (if ctxt_destIn c = d then txcontxt_GetValueIn c else 0)"
    by (simp add: contxt_output_def GetValueIn_sum)
  finally show ?thesis .
qed

lemma sint_nonneg_le0: "0 \<le> sint w \<Longrightarrow> sint w \<le> 0 \<Longrightarrow> w = 0"
  by (rule sint_zeroD) simp

lemma coins_created:
  assumes "tx_balanced tx c" "\<not> dest_IsNull d"
  shows "coins d (tx_created txid tx c) = (if tx_sendTo tx = d then tx_nAmount tx else 0)
    + (if ctxt_destIn c = d then tx_GetChange tx (txcontxt_GetValueIn c) else 0)"
proof -
  have "coins d (tx_created txid tx c) = (if txout_IsNull (txout_of_tx tx) then 0 else coin d (Some (txout_of_tx tx)))
      + (if txout_IsNull (txout_change tx (ctxt_destIn c) (txcontxt_GetValueIn c)) then 0
         else coin d (Some (txout_change tx (ctxt_destIn c) (txcontxt_GetValueIn c))))"
    by (simp add: tx_created_def coins_def)
  moreover have "tx_nAmount tx = 0" if "txout_IsNull (txout_of_tx tx)" "tx_sendTo tx = d"
    using that assms by (auto simp: txout_IsNull_def txout_of_tx_def tx_balanced_def intro: sint_nonneg_le0)
  moreover have "tx_GetChange tx (txcontxt_GetValueIn c) = 0" if "txout_IsNull (txout_change tx (ctxt_destIn c) (txcontxt_GetValueIn c))" "ctxt_destIn c = d"
    using that assms by (auto simp: txout_IsNull_def txout_change_def tx_balanced_def intro: sint_nonneg_le0)
  ultimately show ?thesis by (auto simp: txout_of_tx_def txout_change_def)
qed

lemma balance_tx_apply:
  assumes "finite (dom m)" "tx_fits txid tx c m" "tx_balanced tx c" "\<not> dest_IsNull d"
  shows "balance (tx_apply txid tx c m) d = balance m d + tx_net d tx c"
proof -
  have l: "length (tx_vInput tx) = length (ctxt_vin c)" using assms(3) by (simp add: tx_balanced_def)
  have ds: "distinct (map fst (tx_spent tx c))" "\<forall>(k, u)\<in>set (tx_spent tx c). m k = Some u"
    using assms(2) l by (simp_all add: tx_fits_def tx_spent_keys)
  have "\<forall>(k, u)\<in>set (tx_created txid tx c). drop_all (tx_spent tx c) m k = None"
    using assms(2) by (auto simp: tx_fits_def drop_all_apply)
  then have "balance (tx_apply txid tx c m) d = balance m d - coins d (tx_spent tx c) + coins d (tx_created txid tx c)"
    unfolding tx_apply_def using assms(1) ds by (simp add: balance_put_all tx_created_distinct balance_drop_all)
  then show ?thesis using coins_spent [OF l, of d] coins_created [OF assms(3,4), of txid]
    by (cases "tx_sendTo tx = d"; cases "ctxt_destIn c = d") (simp_all add: tx_net_def tx_GetChange_def)
qed

lemma finite_tx_apply: "finite (dom m) \<Longrightarrow> finite (dom (tx_apply txid tx c m))"
  by (simp add: tx_apply_def)

text \<open>A whole list of transactions.\<close>

definition entries_net :: "CDestination \<Rightarrow> tx_entry list \<Rightarrow> i64" where
  "entries_net d es = sum_list (map (\<lambda>(txid, tx, c). tx_net d tx c) es)"

lemma balance_txs_apply:
  assumes "finite (dom m)" "txs_fit orig es m" "\<forall>(txid, tx, c)\<in>set es. tx_balanced tx c" "\<not> dest_IsNull d"
  shows "balance (txs_apply es m) d = balance m d + entries_net d es \<and> finite (dom (txs_apply es m))"
  using assms(1-3)
proof (induction es arbitrary: m)
  case (Cons e es)
  obtain txid tx c where e: "e = (txid, tx, c)" by (cases e)
  let ?m = "tx_apply txid tx c m"
  have f: "tx_fits txid tx c m" "txs_fit orig es ?m" "tx_balanced tx c" "\<forall>(txid, tx, c)\<in>set es. tx_balanced tx c"
    using Cons.prems(2,3) by (simp_all add: e entry_fits_def entry_apply_def)
  have a: "balance ?m d = balance m d + tx_net d tx c" by (rule balance_tx_apply [OF Cons.prems(1) f(1,3) assms(4)])
  have b: "txs_apply (e # es) m = txs_apply es ?m" by (simp add: txs_apply_def entry_apply_def e)
  from Cons.IH [OF finite_tx_apply [OF Cons.prems(1)] f(2,4)] show ?case
    unfolding b by (simp add: a entries_net_def e)
qed (simp add: txs_apply_def entries_net_def)

section \<open>The templates in a block\<close>

text \<open>
  The miners an address can be pledged to: those that a valid pledge template with the id of the address
  names.  There is one such miner unless two templates have the same hash.
\<close>

definition pledged_to :: "digest \<Rightarrow> CDestination \<Rightarrow> CDestination \<Rightarrow> bool" where
  "pledged_to blake2b d w \<longleftrightarrow> (\<exists>p. obj_ValidateParam (TMintPledge p) \<and> mp_destPowMint p = w
     \<and> tpl_nId (template_build blake2b (TMintPledge p)) = dest_GetTemplateId d)"

text \<open>
  What the update of the template data establishes.  The data stored for an address belongs to a template
  with its id, and so do the template data in the signature of a transaction of the block.
\<close>

definition template_for :: "digest \<Rightarrow> CDestination \<Rightarrow> u8 list \<Rightarrow> bool" where
  "template_for blake2b d vch \<longleftrightarrow> (\<exists>ptr. CreateTemplatePtr blake2b (templateid_GetType (dest_GetTemplateId d)) vch = Inr (Some ptr)
     \<and> tpl_nId ptr = dest_GetTemplateId d)"

definition td_sound :: "digest \<Rightarrow> CTemplateDataDB \<Rightarrow> bool" where
  "td_sound blake2b td \<longleftrightarrow> td_inv td \<and> (\<forall>d v. td_read td d = Some v \<longrightarrow> template_for blake2b d v)"

definition tx_templates :: "digest \<Rightarrow> CTransaction \<Rightarrow> CTxContxt \<Rightarrow> bool" where
  "tx_templates blake2b tx c \<longleftrightarrow> (tx_vchSig tx \<noteq> [] \<longrightarrow>
     (dest_IsTemplate (tx_sendTo tx) \<and> IsDestInRecorded (tx_sendTo tx) \<longrightarrow> template_for blake2b (tx_sendTo tx) (tx_vchSig tx))
   \<and> (dest_IsTemplate (ctxt_destIn c) \<longrightarrow> (\<exists>v. dest_in_data blake2b tx = Inr (Some v) \<and> template_for blake2b (ctxt_destIn c) v)))"

lemma record_template_ok:
  assumes "td_sound blake2b td" "record_template blake2b status dest vch td = Inr (r, td')" "fits vch"
  shows "td_sound blake2b td' \<and> (\<forall>ptr. r = Some ptr \<longrightarrow> template_for blake2b dest vch
    \<and> CreateTemplatePtr blake2b (templateid_GetType (dest_GetTemplateId dest)) vch = Inr (Some ptr))"
proof -
  let ?t = "templateid_GetType (dest_GetTemplateId dest)"
  consider "r = None" "td' = td"
    | ptr ok where "CreateTemplatePtr blake2b ?t vch = Inr (Some ptr)" "tpl_nId ptr = dest_GetTemplateId dest"
      "td_AddNew status dest (tpl_vchData ptr) td = (ok, td')" "r = (if ok then Some ptr else None)"
    using assms(2) by (auto simp: record_template_def split: sum.splits option.splits if_splits prod.splits)
  then show ?thesis
  proof cases
    case 1
    then show ?thesis using assms(1) by simp
  next
    case 2
    note inv = CreateTemplatePtr_inv [OF 2(1)]
    let ?o = "tpl_obj ptr"
    have b: "ptr = template_build blake2b ?o" "obj_ValidateParam ?o" "obj_ok ?o" "obj_nType ?o = ?t" using inv by blast+
    have d: "tpl_vchData ptr = obj_BuildTemplateData ?o" by (subst b(1)) (simp add: template_build_def Let_def)
    have "CreateTemplatePtr blake2b ?t (tpl_vchData ptr) = Inr (Some ptr)"
      using CreateTemplatePtr_round_trip [OF b(3,2), of blake2b "[]"] b(1,4) d by simp
    then have n: "template_for blake2b dest (tpl_vchData ptr)" using 2(2) by (simp add: template_for_def)
    have "fits (tpl_vchData ptr)" using inv assms(3) by (simp add: fits_def)
    then obtain td1 where "td_AddNew status dest (tpl_vchData ptr) td = (status, td1)" "td_inv td1"
        "td_read td1 = (if status then (td_read td)(dest \<mapsto> tpl_vchData ptr) else td_read td)"
      using td_AddNew_ok [of td "tpl_vchData ptr" status dest] assms(1) by (auto simp: td_sound_def)
    then have "td_sound blake2b td'" using 2(3) assms(1) n by (auto simp: td_sound_def split: if_splits)
    then show ?thesis using 2 by (auto simp: template_for_def)
  qed
qed

lemma dest_in_data_length: "dest_in_data blake2b tx = Inr (Some v) \<Longrightarrow> length v \<le> length (tx_vchSig tx)"
  by (auto simp: dest_in_data_def template_GetSignDestination_def template_GetSignRest_def exchange_GetSignDestination_def
      split: sum.splits option.splits if_splits template_obj.splits)

lemma case_result:
  assumes "(case X of Inl e \<Rightarrow> Inl e | Inr (None, s) \<Rightarrow> Inr (False, s) | Inr (Some v, s) \<Rightarrow> F v s) = Inr y"
  shows "\<exists>r s. X = Inr (r, s) \<and> (case r of None \<Rightarrow> Inr (False, s) | Some v \<Rightarrow> F v s) = Inr y"
proof (cases X)
  case (Inr p)
  obtain r s where "p = (r, s)" by (cases p)
  then show ?thesis using assms Inr by (cases r) auto
qed (use assms in simp)

lemma update_tx_template_ok:
  assumes "td_sound blake2b td" "update_tx_template blake2b status tx c td = Inr (ok, td')" "fits (tx_vchSig tx)"
  shows "td_sound blake2b td' \<and> (ok \<longrightarrow> tx_templates blake2b tx c)"
proof (cases "tx_vchSig tx = []")
  case True
  then show ?thesis using assms by (simp add: update_tx_template_def tx_templates_def)
next
  case False
  let ?rec = "dest_IsTemplate (tx_sendTo tx) \<and> IsDestInRecorded (tx_sendTo tx)"
  obtain r td1 where first: "(if ?rec then
        (case record_template blake2b status (tx_sendTo tx) (tx_vchSig tx) td of
           Inl e \<Rightarrow> Inl e
         | Inr (None, td') \<Rightarrow> Inr (None, td')
         | Inr (Some ptr, td') \<Rightarrow> Inr (map_option snd (template_GetSignDestination ptr tx 0 0 (tx_vchSig tx) []), td'))
      else Inr (Some (tx_vchSig tx), td)) = (Inr (r, td1) :: stream_error + _)"
    and rest: "(case r of None \<Rightarrow> Inr (False, td1)
      | Some v \<Rightarrow> if dest_IsTemplate (ctxt_destIn c)
          then map_sum id (map_prod (\<lambda>p. p \<noteq> None) id) (record_template blake2b status (ctxt_destIn c) v td1)
          else Inr (True, td1)) = Inr (ok, td')"
    using case_result [OF assms(2) [unfolded update_tx_template_def if_not_P [OF False]]] by blast
  have one: "td_sound blake2b td1 \<and> (\<forall>v. r = Some v \<longrightarrow> dest_in_data blake2b tx = Inr (Some v)
      \<and> (?rec \<longrightarrow> template_for blake2b (tx_sendTo tx) (tx_vchSig tx)))"
  proof (cases ?rec)
    case True
    obtain q td2 where q: "record_template blake2b status (tx_sendTo tx) (tx_vchSig tx) td = Inr (q, td2)"
      using first True by (auto split: sum.splits)
    show ?thesis using first True q record_template_ok [OF assms(1) q assms(3)]
      by (cases q) (auto simp: dest_in_data_def)
  next
    case False
    then show ?thesis using first assms(1) by (auto simp: dest_in_data_def)
  qed
  show ?thesis
  proof (cases r)
    case None
    then show ?thesis using rest one by simp
  next
    case (Some v)
    show ?thesis
    proof (cases "dest_IsTemplate (ctxt_destIn c)")
      case True
      obtain q where q: "record_template blake2b status (ctxt_destIn c) v td1 = Inr (q, td')" "ok = (q \<noteq> None)"
        using rest Some True by (auto simp: map_sum_Inr)
      have "fits v" using dest_in_data_length [of blake2b tx v] one Some assms(3) by (simp add: fits_def)
      then show ?thesis using record_template_ok [OF _ q(1)] one Some q(2) by (auto simp: tx_templates_def)
    next
      case False
      then show ?thesis using rest one Some by (auto simp: tx_templates_def)
    qed
  qed
qed

lemma update_vtx_template_ok:
  "update_vtx_template blake2b status vtx cs td = Inr (ok, td') \<Longrightarrow> td_sound blake2b td \<Longrightarrow> list_all tx_ok vtx \<Longrightarrow>
   td_sound blake2b td' \<and> (ok \<longrightarrow> (\<forall>(tx, c)\<in>set (zip vtx cs). tx_templates blake2b tx c))"
proof (induction blake2b status vtx cs td rule: update_vtx_template.induct)
  case (3 blake2b status tx vtx c cs td)
  obtain b td1 where u: "update_tx_template blake2b status tx c td = Inr (b, td1)" using 3(2) by (auto split: sum.splits)
  have f: "fits (tx_vchSig tx)" "list_all tx_ok vtx" using 3(4) tx_ok_def [of tx] by simp_all
  note o1 = update_tx_template_ok [OF 3(3) u f(1)]
  show ?case
  proof (cases b)
    case True
    then have "update_vtx_template blake2b status vtx cs td1 = Inr (ok, td')" using 3(2) u by simp
    from 3(1) [OF _ _ _ this] show ?thesis using u True o1 f(2) by auto
  next
    case False
    then show ?thesis using 3(2) u o1 by auto
  qed
qed auto

lemma UpdateTxTemplateData_ok:
  assumes "td_sound blake2b td" "UpdateTxTemplateData blake2b status block td = Inr (ok, td')" "block_ok block"
  shows "td_sound blake2b td' \<and> (ok \<longrightarrow> (\<forall>(tx, c)\<in>set (zip (blk_vtx block) (bex_vTxContxt block)). tx_templates blake2b tx c))"
proof -
  let ?d = "tx_sendTo (blk_txMint block)"
  let ?r = "record_template blake2b status ?d (tx_vchSig (blk_txMint block)) td"
  have f: "fits (tx_vchSig (blk_txMint block))" "list_all tx_ok (blk_vtx block)" using assms(3) by (simp_all add: block_ok_def tx_ok_def)
  have r: "td_sound blake2b td1" if "?r = Inr (q, td1)" for q td1 using record_template_ok [OF assms(1) that f(1)] by blast
  obtain b td1 where "td_sound blake2b td1"
    "(b, td1) = (ok, td') \<and> \<not> ok \<or> update_vtx_template blake2b status (blk_vtx block) (bex_vTxContxt block) td1 = Inr (ok, td')"
  proof (cases "dest_IsTemplate ?d \<and> IsDestInRecorded ?d")
    case True
    obtain q td2 where q: "?r = Inr (q, td2)" using assms(2) True by (cases ?r) (auto simp: UpdateTxTemplateData_def Let_def)
    show ?thesis using that [OF r [OF q]] assms(2) True q
      by (cases "q = None") (auto simp: UpdateTxTemplateData_def Let_def)
  next
    case False
    show ?thesis using that [OF assms(1)] assms(2) False by (simp add: UpdateTxTemplateData_def Let_def)
  qed
  then show ?thesis using update_vtx_template_ok [OF _ _ f(2)] by blast
qed

section \<open>The pledges of a block\<close>

lemma amount_of_pledge_add:
  "amount_of (pledge_add w a f m) d p = (if d = w \<and> p = a then fst (f (data_of m w a)) else amount_of m d p)"
proof -
  have "list_of (pledge_add w a f m) = (list_of m)(w := std_modify a (0, 0) f (list_of m w))"
    unfolding pledge_add_def by (rule list_of_modify)
  then show ?thesis
    by (auto simp: amount_of_def data_of_def std_modify_def split: option.splits)
qed

text \<open>Whatever data the pledge template of an address is read from, it has the id of the address.\<close>

lemma template_for_pledge:
  assumes "template_for blake2b d vch" "is_template_of d TEMPLATE_MINTPLEDGE"
  shows "\<exists>ptr p. create_as blake2b TEMPLATE_MINTPLEDGE as_mintpledge vch = Inr (Some (ptr, p)) \<and> pledged_to blake2b d (mp_destPowMint p)"
proof -
  have t: "templateid_GetType (dest_GetTemplateId d) = TEMPLATE_MINTPLEDGE" using assms(2) by (simp add: is_template_of_def)
  obtain ptr where ptr: "CreateTemplatePtr blake2b TEMPLATE_MINTPLEDGE vch = Inr (Some ptr)" "tpl_nId ptr = dest_GetTemplateId d"
    using assms(1) unfolding template_for_def t by blast
  note inv = CreateTemplatePtr_inv [OF ptr(1)]
  obtain p where p: "tpl_obj ptr = TMintPledge p" using inv by (cases "tpl_obj ptr") (auto simp: template_types)
  then have "pledged_to blake2b d (mp_destPowMint p)" using inv ptr(2) by (metis pledged_to_def)
  then show ?thesis using ptr(1) p by (simp add: create_as_def)
qed

lemma pledge_template_ok:
  assumes "td_sound blake2b td" "is_template_of d TEMPLATE_MINTPLEDGE" "vch \<noteq> [] \<Longrightarrow> template_for blake2b d vch"
    "pledge_template blake2b d vch td = Inr (r, td')"
  shows "td_sound blake2b td' \<and> (\<forall>p. r = Some p \<longrightarrow> pledged_to blake2b d (mp_destPowMint p))"
proof -
  have i: "td_inv td" using assms(1) by (simp add: td_sound_def)
  obtain td1 where t: "td_Retrieve d td = (td_read td d, td1)" "td_inv td1" "td_read td1 = td_read td"
    using td_Retrieve_ok [OF i] by blast
  then have s1: "td_sound blake2b td1" using assms(1) by (simp add: td_sound_def)
  show ?thesis
  proof (cases "vch = []")
    case False
    then show ?thesis using template_for_pledge [OF assms(3) assms(2)] assms(1,4) by (auto simp: pledge_template_def)
  next
    case True
    show ?thesis
    proof (cases "td_read td d")
      case None
      then show ?thesis using True assms(4) t s1 by (simp add: pledge_template_def)
    next
      case (Some v)
      then have "template_for blake2b d v" using assms(1) by (simp add: td_sound_def)
      from template_for_pledge [OF this assms(2)] show ?thesis using True Some assms(4) t s1 by (auto simp: pledge_template_def)
    qed
  qed
qed

text \<open>
  One change of the pledges: the amount \<open>v\<close> is added under one miner, to whom the address is pledged.
\<close>

definition pledge_changed :: "digest \<Rightarrow> CDestination \<Rightarrow> i64 \<Rightarrow> pledge_map \<Rightarrow> pledge_map \<Rightarrow> bool" where
  "pledge_changed blake2b D v m m' \<longleftrightarrow> pledge_sorted m'
     \<and> (\<Sum>w\<in>UNIV. amount_of m' w D) = (\<Sum>w\<in>UNIV. amount_of m w D) + v
     \<and> (\<forall>w. amount_of m' w D \<noteq> amount_of m w D \<longrightarrow> pledged_to blake2b D w)"

lemma finite_dests [simp]: "finite (A :: CDestination set)"
proof -
  have "(UNIV :: CDestination set) \<subseteq> range (\<lambda>(a, b). CDestination a b)"
  proof
    fix d :: CDestination
    show "d \<in> range (\<lambda>(a, b). CDestination a b)" by (cases d) force
  qed
  then show ?thesis by (meson finite_subset finite_imageI finite_UNIV finite_code top_greatest finite)
qed

lemma pledge_changed_refl: "pledge_sorted m \<Longrightarrow> pledge_changed blake2b D 0 m m"
  by (simp add: pledge_changed_def)

lemma pledge_changed_trans:
  "pledge_changed blake2b D v m m1 \<Longrightarrow> pledge_changed blake2b D v' m1 m2 \<Longrightarrow> pledge_changed blake2b D (v + v') m m2"
  unfolding pledge_changed_def by (auto simp: add.assoc) metis

lemma pledge_changed_add:
  assumes "pledge_sorted m" "pledged_to blake2b a w" "\<And>x. fst (f x) = fst x + v"
  shows "pledge_changed blake2b D (if a = D then v else 0) m (pledge_add w a f m)"
proof -
  have s: "pledge_sorted (pledge_add w a f m)" unfolding pledge_add_def by (rule pledge_sorted_modify [OF assms(1)])
  have n: "amount_of (pledge_add w a f m) d D = amount_of m d D + (if d = w \<and> a = D then v else 0)" for d
    by (simp add: amount_of_pledge_add assms(3)) (simp add: amount_of_def)
  have "(\<Sum>d\<in>UNIV. if d = w \<and> a = D then v else 0) = (if a = D then v else 0)" by (simp add: sum.delta)
  then show ?thesis using assms(2) s by (auto simp: pledge_changed_def n sum.distrib)
qed

lemma pledge_in_ok:
  assumes "pledge_in blake2b n tx c (m, td) = Inr (ok, m', td')" "td_sound blake2b td" "tx_templates blake2b tx c" "pledge_sorted m"
    "is_template_of D TEMPLATE_MINTPLEDGE"
  shows "td_sound blake2b td' \<and> (ok \<longrightarrow> pledge_changed blake2b D (if tx_sendTo tx = D then tx_nAmount tx else 0) m m')"
proof (cases "is_template_of (tx_sendTo tx) TEMPLATE_MINTPLEDGE")
  case True
  obtain r where r: "pledge_template blake2b (tx_sendTo tx) (tx_vchSig tx) td = Inr (r, td')"
    using assms(1) True by (auto simp: pledge_in_def split: sum.splits prod.splits option.splits)
  have "IsDestInRecorded (tx_sendTo tx)" "dest_IsTemplate (tx_sendTo tx)" using True
    by (auto simp: IsDestInRecorded_def is_template_of_def GetTypeInfoByType_def setTypeInfo_def template_types)
  then have "tx_vchSig tx \<noteq> [] \<Longrightarrow> template_for blake2b (tx_sendTo tx) (tx_vchSig tx)" using assms(3) by (simp add: tx_templates_def)
  note p = pledge_template_ok [OF assms(2) True this r]
  show ?thesis
  proof (cases r)
    case None
    then show ?thesis using assms(1) True r p by (auto simp: pledge_in_def)
  next
    case (Some q)
    have pq: "pledged_to blake2b (tx_sendTo tx) (mp_destPowMint q)" using p Some by blast
    have m': "m' = pledge_add (mp_destPowMint q) (tx_sendTo tx)
       (\<lambda>(a, h). (a + tx_nAmount tx, if tx_nType tx \<noteq> TX_STAKE \<and> \<not> dest_IsNull (ctxt_destIn c) then n else h)) m"
      using assms(1) True r Some by (simp add: pledge_in_def)
    have "pledge_changed blake2b D (if tx_sendTo tx = D then tx_nAmount tx else 0) m m'"
      unfolding m' by (rule pledge_changed_add [OF assms(4) pq]) (simp add: case_prod_unfold)
    then show ?thesis using p True by auto
  qed
next
  case False
  then show ?thesis using assms pledge_changed_refl [OF assms(4)] by (auto simp: pledge_in_def)
qed

lemma dest_in_data_nil:
  assumes "dest_in_data blake2b tx = Inr (Some v)" "tx_vchSig tx = []"
  shows "v = []"
proof (cases "dest_IsTemplate (tx_sendTo tx) \<and> IsDestInRecorded (tx_sendTo tx)")
  case True
  then obtain ptr where "CreateTemplatePtr blake2b (templateid_GetType (dest_GetTemplateId (tx_sendTo tx))) [] = Inr (Some ptr)"
    using assms by (auto simp: dest_in_data_def split: sum.splits option.splits)
  then show ?thesis using CreateTemplatePtr_inv CreateTemplatePtr_data_pos by fastforce
next
  case False
  then show ?thesis using assms by (auto simp: dest_in_data_def)
qed

lemma pledge_out_ok:
  assumes "pledge_out blake2b tx c (m, td) = Inr (ok, m', td')" "td_sound blake2b td" "tx_templates blake2b tx c" "pledge_sorted m"
    "is_template_of D TEMPLATE_MINTPLEDGE"
  shows "td_sound blake2b td' \<and> (ok \<longrightarrow>
    pledge_changed blake2b D (if ctxt_destIn c = D then - (tx_nAmount tx + tx_nTxFee tx) else 0) m m')"
proof (cases "is_template_of (ctxt_destIn c) TEMPLATE_MINTPLEDGE")
  case True
  show ?thesis
  proof (cases "\<exists>v. dest_in_data blake2b tx = Inr (Some v)")
    case False
    then show ?thesis using assms(1,2) True by (auto simp: pledge_out_def split: sum.splits option.splits)
  next
    case ex: True
    then obtain v where v: "dest_in_data blake2b tx = Inr (Some v)" by blast
    obtain r where r: "pledge_template blake2b (ctxt_destIn c) v td = Inr (r, td')"
      using assms(1) True v by (auto simp: pledge_out_def split: sum.splits prod.splits option.splits)
    have "dest_IsTemplate (ctxt_destIn c)" using True by (simp add: is_template_of_def)
    then have "v \<noteq> [] \<Longrightarrow> template_for blake2b (ctxt_destIn c) v"
      using assms(3) v dest_in_data_nil [OF v] by (auto simp: tx_templates_def)
    note p = pledge_template_ok [OF assms(2) True this r]
    show ?thesis
    proof (cases r)
      case None
      then show ?thesis using assms(1) True v r p by (auto simp: pledge_out_def)
    next
      case (Some q)
      have pq: "pledged_to blake2b (ctxt_destIn c) (mp_destPowMint q)" using p Some by blast
      have m': "m' = pledge_add (mp_destPowMint q) (ctxt_destIn c) (\<lambda>(a, h). (a - (tx_nAmount tx + tx_nTxFee tx), h)) m"
        using assms(1) True v r Some by (simp add: pledge_out_def)
      have "pledge_changed blake2b D (if ctxt_destIn c = D then - (tx_nAmount tx + tx_nTxFee tx) else 0) m m'"
        unfolding m' by (rule pledge_changed_add [OF assms(4) pq]) (simp add: case_prod_unfold)
      then show ?thesis using p True by auto
    qed
  qed
next
  case False
  then show ?thesis using assms pledge_changed_refl [OF assms(4)] by (auto simp: pledge_out_def)
qed

lemma block_pledge_loop_ok:
  "block_pledge_loop blake2b n vtx cs (m, td) = Inr (ok, m', td') \<Longrightarrow> td_sound blake2b td \<Longrightarrow>
   \<forall>(tx, c)\<in>set (zip vtx cs). tx_templates blake2b tx c \<Longrightarrow> pledge_sorted m \<Longrightarrow> is_template_of D TEMPLATE_MINTPLEDGE \<Longrightarrow>
   td_sound blake2b td' \<and> (ok \<longrightarrow> pledge_changed blake2b D (sum_list (map (\<lambda>(tx, c). tx_net D tx c) (zip vtx cs))) m m')"
proof (induction vtx arbitrary: cs m td)
  case Nil
  then show ?case using pledge_changed_refl by simp
next
  case (Cons tx vtx)
  obtain c cs' where cs: "cs = c # cs'" using Cons.prems(1) by (cases cs) auto
  have tt: "tx_templates blake2b tx c" "\<forall>(tx, c)\<in>set (zip vtx cs'). tx_templates blake2b tx c" using Cons.prems(3) cs by auto
  obtain b1 m1 td1 where i: "pledge_in blake2b n tx c (m, td) = Inr (b1, m1, td1)"
    using Cons.prems(1) cs by (cases "pledge_in blake2b n tx c (m, td)") auto
  note pi = pledge_in_ok [OF i Cons.prems(2) tt(1) Cons.prems(4,5)]
  show ?case
  proof (cases b1)
    case False
    then show ?thesis using Cons.prems(1) cs i pi by auto
  next
    case b1: True
    then have c1: "pledge_sorted m1" using pi by (simp add: pledge_changed_def)
    obtain b2 m2 td2 where o2: "pledge_out blake2b tx c (m1, td1) = Inr (b2, m2, td2)"
      using Cons.prems(1) cs i b1 by (cases "pledge_out blake2b tx c (m1, td1)") auto
    have s1: "td_sound blake2b td1" using pi by blast
    note po = pledge_out_ok [OF o2 s1 tt(1) c1 Cons.prems(5)]
    show ?thesis
    proof (cases b2)
      case False
      then show ?thesis using Cons.prems(1) cs i o2 b1 po by auto
    next
      case b2: True
      then have c2: "pledge_sorted m2" using po by (simp add: pledge_changed_def)
      have r: "block_pledge_loop blake2b n vtx cs' (m2, td2) = Inr (ok, m', td')" using Cons.prems(1) cs i o2 b1 b2 by simp
      have s2: "td_sound blake2b td2" using po by blast
      note IH = Cons.IH [OF r s2 tt(2) c2 Cons.prems(5)]
      have "pledge_changed blake2b D (tx_net D tx c) m m2"
        using pledge_changed_trans [OF pi [THEN conjunct2, rule_format, OF b1] po [THEN conjunct2, rule_format, OF b2]]
        by (simp add: tx_net_def split: if_splits)
      then show ?thesis using IH pledge_changed_trans by (auto simp: cs)
    qed
  qed
qed

section \<open>Pledges and coins\<close>

text \<open>
  A block whose mint transaction pays a miner and whose other transactions never send or keep a
  negative amount; the genesis block has no other transactions and pays no template.
\<close>

definition block_balanced :: "CBlockEx \<Rightarrow> bool" where
  "block_balanced block \<longleftrightarrow> is_template_of (tx_sendTo (blk_txMint block)) TEMPLATE_PROOF \<and> tx_balanced (blk_txMint block) txcontxt_null
     \<and> (\<forall>(tx, c)\<in>set (zip (blk_vtx block) (bex_vTxContxt block)). tx_balanced tx c)"

definition genesis_balanced :: "CBlockEx \<Rightarrow> bool" where
  "genesis_balanced block \<longleftrightarrow> \<not> dest_IsTemplate (tx_sendTo (blk_txMint block)) \<and> blk_vtx block = [] \<and> tx_balanced (blk_txMint block) txcontxt_null"

text \<open>
  The pledge history of a chain of blocks: for each block \<^verbatim>\<open>UpdateTxTemplateData\<close> and then
  \<^verbatim>\<open>UpdatePledge\<close> run, as in \<^verbatim>\<open>CBlockBase::AddNew\<close>.  The template data is shared by all blocks, and what a
  block changed there stays when the block is refused afterwards.
\<close>

inductive pledge_chain :: "digest \<Rightarrow> index_store \<Rightarrow> block_files \<Rightarrow> pledge_history \<Rightarrow> CTemplateDataDB \<Rightarrow> bool"
  for blake2b st ts where
  pc_genesis: "st g = Some i \<Longrightarrow> bi_pPrev i = None \<Longrightarrow> ts_Read ts i = Some block \<Longrightarrow> genesis_balanced block
    \<Longrightarrow> td_inv td \<Longrightarrow> td_read td = Map.empty \<Longrightarrow> pledge_chain blake2b st ts [(g, 0, [])] td"
| pc_block: "pledge_chain blake2b st ts hist td \<Longrightarrow> st h = Some i \<Longrightarrow> bi_pPrev i = Some prev \<Longrightarrow> prev \<in> fst ` set hist
    \<Longrightarrow> h \<notin> fst ` set hist \<Longrightarrow> ts_Read ts i = Some block \<Longrightarrow> block_balanced block
    \<Longrightarrow> block_ok block \<Longrightarrow> UpdateTxTemplateData blake2b status block td = Inr (True, td1)
    \<Longrightarrow> block_pledge_loop blake2b (block_GetBlockHeight block) (blk_vtx block) (bex_vTxContxt block) ([], td1) = Inr (True, inc, td2)
    \<Longrightarrow> pledge_chain blake2b st ts ((h, prev, inc) # hist) td2"
| pc_refused: "pledge_chain blake2b st ts hist td \<Longrightarrow> block_ok block \<Longrightarrow> UpdateTxTemplateData blake2b status block td = Inr (ok, td1)
    \<Longrightarrow> pledge_chain blake2b st ts hist td1"
| pc_refused_pledge: "pledge_chain blake2b st ts hist td \<Longrightarrow> block_ok block \<Longrightarrow> UpdateTxTemplateData blake2b status block td = Inr (True, td1)
    \<Longrightarrow> block_pledge_loop blake2b (block_GetBlockHeight block) (blk_vtx block) (bex_vTxContxt block) ([], td1) = Inr (ok, inc, td2)
    \<Longrightarrow> pledge_chain blake2b st ts hist td2"

lemma dest_null_not_template: "\<not> is_template_of dest_null t"
  by (simp add: is_template_of_def dest_IsTemplate_def dest_null_def PREFIX_NULL_def PREFIX_TEMPLATE_def)

lemma template_not_null: "is_template_of d t \<Longrightarrow> \<not> dest_IsNull d"
  by (auto simp: is_template_of_def dest_IsTemplate_def dest_IsNull_def PREFIX_NULL_def PREFIX_TEMPLATE_def)

lemma mint_entries_net:
  assumes "tx_sendTo (blk_txMint block) \<noteq> D" "\<not> dest_IsNull D"
  shows "entries_net D (mint_entries blake2b block) = 0"
proof -
  have "dest_null \<noteq> D" using assms(2) by (auto simp: dest_IsNull_def dest_null_def)
  then show ?thesis using assms(1) by (simp add: mint_entries_def entries_net_def tx_net_def txcontxt_null_def)
qed

lemma vtx_entries_net:
  "length vtx = length cs \<Longrightarrow> entries_net D (vtx_entries blake2b vtx cs) = sum_list (map (\<lambda>(tx, c). tx_net D tx c) (zip vtx cs))"
  by (induction vtx cs rule: list_induct2) (simp_all add: entries_net_def vtx_entries_def)

lemma set_vtx_entries: "(txid, tx, c) \<in> set (vtx_entries blake2b vtx cs) \<Longrightarrow> (tx, c) \<in> set (zip vtx cs)"
  unfolding vtx_entries_def by (auto dest: set_zip_rightD)

text \<open>The coins of an address of some kind that mint transactions do not pay.\<close>

lemma balance_block:
  assumes "block_fits blake2b orig block m" "block_balanced block" "finite (dom m)" "is_template_of D t" "t \<noteq> TEMPLATE_PROOF"
  shows "balance (txs_apply (block_entries blake2b block) m) D
      = balance m D + sum_list (map (\<lambda>(tx, c). tx_net D tx c) (zip (blk_vtx block) (bex_vTxContxt block)))
    \<and> finite (dom (txs_apply (block_entries blake2b block) m))"
proof -
  have n: "\<not> dest_IsNull D" by (rule template_not_null [OF assms(4)])
  have D: "tx_sendTo (blk_txMint block) \<noteq> D" using assms(2,4,5) by (auto simp: block_balanced_def is_template_of_def)
  have l: "length (blk_vtx block) = length (bex_vTxContxt block)" "txs_fit orig (block_entries blake2b block) m"
    using assms(1) by (simp_all add: block_fits_def)
  have "\<forall>(txid, tx, c)\<in>set (block_entries blake2b block). tx_balanced tx c"
    using assms(2) by (auto simp: block_entries_def block_balanced_def mint_entries_def split: if_splits dest!: set_vtx_entries)
  from balance_txs_apply [OF assms(3) l(2) this n] show ?thesis
    using mint_entries_net [OF D n, of blake2b] vtx_entries_net [OF l(1), of D blake2b]
    by (simp add: block_entries_def) (simp add: entries_net_def)
qed

lemma balance_genesis:
  assumes "block_fits blake2b orig block Map.empty" "genesis_balanced block" "is_template_of D t"
  shows "balance (txs_apply (block_entries blake2b block) Map.empty) D = 0 \<and> finite (dom (txs_apply (block_entries blake2b block) Map.empty))"
proof -
  have n: "\<not> dest_IsNull D" by (rule template_not_null [OF assms(3)])
  have D: "tx_sendTo (blk_txMint block) \<noteq> D" using assms(2,3) by (auto simp: genesis_balanced_def is_template_of_def)
  have e: "block_entries blake2b block = mint_entries blake2b block"
    using assms(2) by (simp add: block_entries_def genesis_balanced_def vtx_entries_def)
  have "\<forall>(txid, tx, c)\<in>set (mint_entries blake2b block). tx_balanced tx c"
    using assms(2) by (auto simp: genesis_balanced_def mint_entries_def)
  from balance_txs_apply [OF _ _ this n, of Map.empty orig] assms(1) mint_entries_net [OF D n, of blake2b] show ?thesis
    by (simp add: block_fits_def e balance_def)
qed

lemma chain_utxo_next:
  assumes "chain_utxo blake2b orig st ts h m" "st h = Some i" "ts_Read ts i = Some block"
  shows "bi_pPrev i = None \<Longrightarrow> block_fits blake2b orig block Map.empty \<and> m = txs_apply (block_entries blake2b block) Map.empty"
    and "bi_pPrev i = Some p \<Longrightarrow> \<exists>mp. chain_utxo blake2b orig st ts p mp \<and> block_fits blake2b orig block mp
      \<and> m = txs_apply (block_entries blake2b block) mp"
proof -
  show "block_fits blake2b orig block Map.empty \<and> m = txs_apply (block_entries blake2b block) Map.empty" if "bi_pPrev i = None"
    using assms(1) by (cases rule: chain_utxo.cases) (use that assms(2,3) in auto)
  show "\<exists>mp. chain_utxo blake2b orig st ts p mp \<and> block_fits blake2b orig block mp \<and> m = txs_apply (block_entries blake2b block) mp"
    if "bi_pPrev i = Some p"
    using assms(1) by (cases rule: chain_utxo.cases) (use that assms(2,3) in auto)
qed

lemma pledge_sorted_Nil: "pledge_sorted []"
  by (simp add: pledge_sorted_def)

lemma amount_of_Nil [simp]: "amount_of [] w D = 0"
  by (simp add: amount_of_def data_of_def list_of_def)

lemma pledge_block_ok:
  assumes "td_sound blake2b td" "UpdateTxTemplateData blake2b status block td = Inr (True, td1)" "block_ok block"
    "block_pledge_loop blake2b n (blk_vtx block) (bex_vTxContxt block) ([], td1) = Inr (ok, inc, td2)" "is_template_of D TEMPLATE_MINTPLEDGE"
  shows "td_sound blake2b td2 \<and> (ok \<longrightarrow> pledge_changed blake2b D
    (sum_list (map (\<lambda>(tx, c). tx_net D tx c) (zip (blk_vtx block) (bex_vTxContxt block)))) [] inc)"
  using UpdateTxTemplateData_ok [OF assms(1,2,3)] block_pledge_loop_ok [OF assms(4) _ _ pledge_sorted_Nil assms(5)] by blast

lemma pledge_chain_sound:
  assumes "pledge_chain blake2b st ts hist td" "is_template_of D TEMPLATE_MINTPLEDGE"
  shows "td_sound blake2b td"
  using assms(1)
proof (induction rule: pledge_chain.induct)
  case (pc_genesis g i block td)
  then show ?case by (simp add: td_sound_def)
next
  case (pc_block hist td h i prev block status td1 inc td2)
  show ?case using pledge_block_ok [OF pc_block.IH pc_block.hyps(9,8,10) assms(2)] by blast
next
  case (pc_refused hist td status block ok td1)
  show ?case using UpdateTxTemplateData_ok [OF pc_refused.IH pc_refused.hyps(3,2)] by blast
next
  case (pc_refused_pledge hist td status block td1 ok inc td2)
  show ?case using pledge_block_ok [OF pc_refused_pledge.IH pc_refused_pledge.hyps(3,2,4) assms(2)] by blast
qed

lemma pledge_chain_balance:
  assumes "pledge_chain blake2b st ts hist td" "h \<in> fst ` set hist" "chain_utxo blake2b orig st ts h m"
    "is_template_of D TEMPLATE_MINTPLEDGE"
  shows "(\<Sum>w\<in>UNIV. hist_amount hist h w D) = balance m D \<and> (\<forall>w. hist_amount hist h w D \<noteq> 0 \<longrightarrow> pledged_to blake2b D w) \<and> finite (dom m)"
  using assms(1-3)
proof (induction arbitrary: h m rule: pledge_chain.induct)
  case (pc_genesis g i block)
  then have h: "h = g" by simp
  have "block_fits blake2b orig block Map.empty" "m = txs_apply (block_entries blake2b block) Map.empty"
    using chain_utxo_next(1) [OF pc_genesis.prems(2) [unfolded h] pc_genesis.hyps(1,3) pc_genesis.hyps(2)] by auto
  then show ?case using balance_genesis [OF _ pc_genesis.hyps(4) assms(4)] h by simp
next
  case (pc_block hist td k i prev block status td1 inc td2)
  show ?case
  proof (cases "h = k")
    case False
    then show ?thesis using pc_block.IH [of h m] pc_block.prems by auto
  next
    case True
    obtain mp where mp: "chain_utxo blake2b orig st ts prev mp" "block_fits blake2b orig block mp" "m = txs_apply (block_entries blake2b block) mp"
      using chain_utxo_next(2) [OF pc_block.prems(2) [unfolded True] pc_block.hyps(2,6) pc_block.hyps(3)] by blast
    note IH = pc_block.IH [OF pc_block.hyps(4) mp(1)]
    have ne: "TEMPLATE_MINTPLEDGE \<noteq> TEMPLATE_PROOF" by (simp add: TEMPLATE_MINTPLEDGE_def TEMPLATE_PROOF_def)
    have fin: "finite (dom mp)" using IH by blast
    have ch: "pledge_changed blake2b D (sum_list (map (\<lambda>(tx, c). tx_net D tx c) (zip (blk_vtx block) (bex_vTxContxt block)))) [] inc"
      using pledge_block_ok [OF pledge_chain_sound [OF pc_block.hyps(1) assms(4)] pc_block.hyps(9,8,10) assms(4)] by blast
    have hd: "hist_amount ((k, prev, inc) # hist) h w D = hist_amount hist prev w D + amount_of inc w D" for w by (simp add: True)
    have "pledged_to blake2b D w" if "hist_amount ((k, prev, inc) # hist) h w D \<noteq> 0" for w
      using that IH ch unfolding hd pledge_changed_def by (cases "amount_of inc w D = 0") auto
    moreover have "(\<Sum>w\<in>UNIV. hist_amount ((k, prev, inc) # hist) h w D) = balance m D"
      using IH ch balance_block [OF mp(2) pc_block.hyps(7) fin assms(4) ne] unfolding hd sum.distrib mp(3) pledge_changed_def by simp
    ultimately show ?thesis using balance_block [OF mp(2) pc_block.hyps(7) fin assms(4) ne] mp(3) by blast
  qed
qed auto

text \<open>
  C21: the recorded pledges are the coins of the pledge address.  The pledge database is filled by adding
  blocks in any order after their predecessors, with the changes that \<^verbatim>\<open>UpdatePledge\<close> computes from their
  transactions after \<^verbatim>\<open>UpdateTxTemplateData\<close> has accepted the templates in them.  Then the amounts read for
  a pledge address at a block, added up over all miners, are the sum of the unspent outputs of that
  address in the replay of the chain up to the block, and an amount is recorded under no other miner
  than one that a pledge template with the id of the address names; as long as no two of the templates
  used have the same hash, there is only one such miner, and the whole balance is recorded under it.
\<close>

theorem pledge_is_balance:
  assumes "pledge_reach testnet hist db" "pledge_chain blake2b st ts hist td" "h \<in> fst ` set hist"
    "chain_utxo blake2b orig st ts h m" "is_template_of D TEMPLATE_MINTPLEDGE"
  shows "\<exists>pledged. (\<forall>w. \<exists>n. fst (GetAddressPledgeData testnet h w D db) = Some (pledged w, n))
    \<and> (\<Sum>w\<in>UNIV. pledged w) = balance m D \<and> (\<forall>w. pledged w \<noteq> 0 \<longrightarrow> pledged_to blake2b D w)"
proof -
  have i: "pledge_inv testnet db" "dom (pledge_disk db) = fst ` set hist" "rec_amount (pledge_disk db) = hist_amount hist"
    using pledge_reach_inv [OF assms(1)] by auto
  obtain c where c: "pledge_disk db h = Some c" using assms(3) i(2) by (metis domD)
  have r: "\<exists>n. fst (GetAddressPledgeData testnet h w D db) = Some (hist_amount hist h w D, n)" for w
    using GetAddressPledgeData_ok [OF i(1) c, of w D] i(3) by auto
  show ?thesis using r pledge_chain_balance [OF assms(2-5)] by (intro exI [of _ "\<lambda>w. hist_amount hist h w D"]) simp
qed

section \<open>Redeemed amounts and coins\<close>

lemma redeem_apply_append: "redeem_apply h d (chs @ chs') r = redeem_apply h d chs' (redeem_apply h d chs r)"
  by (induction chs arbitrary: r) auto

lemma redeem_change_balance: "dr_nBalance (redeem_change h v r) = dr_nBalance r + v"
  by (simp add: redeem_change_def)

lemma tx_redeems_balance:
  assumes "is_template_of D TEMPLATE_MINTREDEEM"
  shows "dr_nBalance (redeem_apply h D (tx_redeems tx c) r) = dr_nBalance r + tx_net D tx c"
proof -
  have one: "dr_nBalance (redeem_apply h D [(d, v)] r) = dr_nBalance r + (if d = D then v else 0)" for d v r
    by (simp add: redeem_change_balance)
  then show ?thesis using assms
    by (auto simp: tx_redeems_def tx_net_def redeem_apply_append simp del: redeem_apply.simps(2))
qed

lemma block_redeem_changes_balance:
  assumes "block_redeem_changes vtx cs = Inr chs" "is_template_of D TEMPLATE_MINTREDEEM"
  shows "dr_nBalance (redeem_apply h D chs r) = dr_nBalance r + sum_list (map (\<lambda>(tx, c). tx_net D tx c) (zip vtx cs))"
  using assms(1)
proof (induction vtx cs arbitrary: chs r rule: block_redeem_changes.induct)
  case (3 tx vtx c cs)
  then obtain r' where "block_redeem_changes vtx cs = Inr r'" "chs = tx_redeems tx c @ r'" by (auto simp: map_sum_Inr)
  then show ?case using 3(1) [of r' "redeem_apply h D (tx_redeems tx c) r"] tx_redeems_balance [OF assms(2)]
    by (simp add: redeem_apply_append)
qed auto

inductive redeem_chain :: "index_store \<Rightarrow> block_files \<Rightarrow> redeem_history \<Rightarrow> bool" for st ts where
  rc_genesis: "st g = Some i \<Longrightarrow> bi_pPrev i = None \<Longrightarrow> ts_Read ts i = Some block \<Longrightarrow> genesis_balanced block \<Longrightarrow> redeem_chain st ts [(g, 0, [])]"
| rc_block: "redeem_chain st ts hist \<Longrightarrow> st h = Some i \<Longrightarrow> bi_pPrev i = Some prev \<Longrightarrow> prev \<in> fst ` set hist
    \<Longrightarrow> h \<notin> fst ` set hist \<Longrightarrow> ts_Read ts i = Some block \<Longrightarrow> block_balanced block
    \<Longrightarrow> block_redeem_changes (blk_vtx block) (bex_vTxContxt block) = Inr chs \<Longrightarrow> redeem_chain st ts ((h, prev, chs) # hist)"

lemma redeem_chain_balance:
  assumes "redeem_chain st ts hist" "h \<in> fst ` set hist" "chain_utxo blake2b orig st ts h m" "is_template_of D TEMPLATE_MINTREDEEM"
  shows "dr_nBalance (hist_redeem hist h D) = balance m D \<and> finite (dom m)"
  using assms(1-3)
proof (induction arbitrary: h m rule: redeem_chain.induct)
  case (rc_genesis g i block)
  then have h: "h = g" by simp
  have "block_fits blake2b orig block Map.empty" "m = txs_apply (block_entries blake2b block) Map.empty"
    using chain_utxo_next(1) [OF rc_genesis.prems(2) [unfolded h] rc_genesis.hyps(1,3) rc_genesis.hyps(2)] by auto
  then show ?case using balance_genesis [OF _ rc_genesis.hyps(4) assms(4)] h by (simp add: destredeem_null_def)
next
  case (rc_block hist k i prev block chs)
  show ?case
  proof (cases "h = k")
    case False
    then show ?thesis using rc_block.IH [of h m] rc_block.prems by auto
  next
    case True
    obtain mp where mp: "chain_utxo blake2b orig st ts prev mp" "block_fits blake2b orig block mp" "m = txs_apply (block_entries blake2b block) mp"
      using chain_utxo_next(2) [OF rc_block.prems(2) [unfolded True] rc_block.hyps(2,6) rc_block.hyps(3)] by blast
    note IH = rc_block.IH [OF rc_block.hyps(4) mp(1)]
    have ne: "TEMPLATE_MINTREDEEM \<noteq> TEMPLATE_PROOF" by (simp add: TEMPLATE_MINTREDEEM_def TEMPLATE_PROOF_def)
    have fin: "finite (dom mp)" using IH by blast
    show ?thesis using IH block_redeem_changes_balance [OF rc_block.hyps(8) assms(4)] balance_block [OF mp(2) rc_block.hyps(7) fin assms(4) ne]
      by (simp add: True mp(3))
  qed
qed

text \<open>
  C22: the recorded balance of a redeem address is its coins.  When the redeem database was filled by
  adding blocks with the changes that \<^verbatim>\<open>UpdateRedeem\<close> collects, and no change took a balance below zero,
  the balance read for a redeem address at a block is the sum of its unspent outputs in the replay of
  the chain up to the block.
\<close>

theorem redeem_is_balance:
  assumes "redeem_reach testnet hist db" "redeem_chain st ts hist" "h \<in> fst ` set hist"
    "chain_utxo blake2b orig st ts h m" "is_template_of D TEMPLATE_MINTREDEEM"
  shows "\<exists>r. fst (GetAddressRedeem testnet h D destredeem_null db) = Some r \<and> dr_nBalance r = balance m D \<and> 0 \<le> sint (balance m D)"
proof -
  have i: "redeem_inv testnet db" "dom (redeem_disk db) = fst ` set hist"
    "redeem_sim (rec_redeem (redeem_disk db) h D) (hist_redeem hist h D)"
    using redeem_reach_inv [OF assms(1)] by auto
  obtain c where c: "redeem_disk db h = Some c" using assms(3) i(2) by (metis domD)
  show ?thesis using GetAddressRedeem_ok [OF i(1) c, of D] i(3) redeem_chain_balance [OF assms(2-5)] by (auto simp: redeem_sim_def)
qed

section \<open>An example\<close>

text \<open>
  The genesis block pays a key, and the first block sends a part of that to an address; the example is
  used once with a pledge address and once with a redeem address.
\<close>

definition coin_mint0 :: CTransaction where
  "coin_mint0 = tx_SetNull\<lparr> tx_nType := TX_WORK, tx_nTimeStamp := 5, tx_sendTo := CDestination 1 5, tx_nAmount := 1000 \<rparr>"

definition coin_miner :: CTemplateProof where
  "coin_miner = \<lparr> tp_destSpent = dest_SetPubKey 3, tp_nPledgeFee = 50 \<rparr>"

definition coin_mint1 :: CTransaction where
  "coin_mint1 = tx_SetNull\<lparr> tx_nType := TX_WORK, tx_nTimeStamp := 11, tx_sendTo := CDestination 2 4, tx_nAmount := 10,
     tx_vchSig := proof_BuildTemplateData coin_miner \<rparr>"

definition coin_pay :: "CDestination \<Rightarrow> i64 \<Rightarrow> u8 list \<Rightarrow> CTransaction" where
  "coin_pay d n sig = tx_SetNull\<lparr> tx_nTimeStamp := 10, tx_vInput := [CTxIn (CTxOutPoint (uint256_pair 5 0) 0)], tx_sendTo := d, tx_nAmount := n, tx_vchSig := sig \<rparr>"

definition coin_ctxt :: CTxContxt where
  "coin_ctxt = \<lparr> ctxt_destIn = CDestination 1 5, ctxt_vin = [\<lparr> inc_nAmount = 1000, inc_nTxTime = 5, inc_nLockUntil = 0 \<rparr>] \<rparr>"

definition coin_block0 :: CBlockEx where
  "coin_block0 = \<lparr> blk_nVersion = 1, blk_nType = BLOCK_GENESIS, blk_nTimeStamp = 5, blk_hashPrev = 0, blk_hashMerkle = 0,
     blk_nBits = 0, blk_vchProof = [], blk_txMint = coin_mint0, blk_vtx = [], bex_vTxContxt = [] \<rparr>"

definition coin_block1 :: "CTransaction \<Rightarrow> CBlockEx" where
  "coin_block1 tx = \<lparr> blk_nVersion = 1, blk_nType = BLOCK_PRIMARY, blk_nTimeStamp = 12, blk_hashPrev = example_hash0, blk_hashMerkle = 0,
     blk_nBits = 0, blk_vchProof = [], blk_txMint = coin_mint1, blk_vtx = [tx], bex_vTxContxt = [coin_ctxt] \<rparr>"

definition coin_store :: index_store where
  "coin_store = [example_hash0 \<mapsto> (fork_entry example_hash0 None 5 0)\<lparr> bi_nFile := 0 \<rparr>, example_hash1 \<mapsto> (fork_entry example_hash1 (Some example_hash0) 12 1)\<lparr> bi_nFile := 1 \<rparr>]"

definition coin_files :: "CTransaction \<Rightarrow> block_files" where
  "coin_files tx nFile nOffset = (if nFile = 0 then Some coin_block0 else Some (coin_block1 tx))"

lemma coin_ids:
  "tx_GetHash (\<lambda>_. 0) coin_mint0 = uint256_pair 5 0" "tx_GetHash (\<lambda>_. 0) coin_mint1 = uint256_pair 11 0"
  "tx_GetHash (\<lambda>_. 0) (coin_pay d n sig) = uint256_pair 10 0"
  by (simp_all add: tx_GetHash_def CryptoHash_def coin_mint0_def coin_mint1_def coin_pay_def)

lemma coin_id_neq: "uint256_pair a 0 = uint256_pair b 0 \<longleftrightarrow> a = b"
  by (metis Get32_uint256_pair)

definition coin_created :: "CDestination \<Rightarrow> i64 \<Rightarrow> (CTxOutPoint \<times> CTxOut) list" where
  "coin_created d n = [(CTxOutPoint (uint256_pair 5 0) 0, txout_of_tx coin_mint0), (CTxOutPoint (uint256_pair 11 0) 0, txout_of_tx coin_mint1),
     (CTxOutPoint (uint256_pair 10 0) 0, txout_of_tx (coin_pay d n [])), (CTxOutPoint (uint256_pair 10 0) 1, txout_change (coin_pay d n []) (CDestination 1 5) 1000)]"

definition coin_orig :: "CDestination \<Rightarrow> i64 \<Rightarrow> CTxOutPoint \<Rightarrow> CTxOut" where
  "coin_orig d n k = the (map_of (coin_created d n) k)"

lemma coin_made:
  "tx_created (uint256_pair 5 0) coin_mint0 txcontxt_null = [(CTxOutPoint (uint256_pair 5 0) 0, txout_of_tx coin_mint0)]"
  "tx_created (uint256_pair 11 0) coin_mint1 txcontxt_null = [(CTxOutPoint (uint256_pair 11 0) 0, txout_of_tx coin_mint1)]"
  "n \<in> {100, 500} \<Longrightarrow> dest_prefix d = 2 \<Longrightarrow> tx_created (uint256_pair 10 0) (coin_pay d n sig) coin_ctxt =
     [(CTxOutPoint (uint256_pair 10 0) 0, txout_of_tx (coin_pay d n [])), (CTxOutPoint (uint256_pair 10 0) 1, txout_change (coin_pay d n []) (CDestination 1 5) 1000)]"
  by (auto simp: tx_created_def txout_IsNull_def txout_of_tx_def txout_change_def txcontxt_null_def coin_mint0_def coin_mint1_def coin_pay_def coin_ctxt_def
      tx_SetNull_def dest_IsNull_def dest_null_def PREFIX_NULL_def tx_GetChange_def txcontxt_GetValueIn_def)

lemma coin_spent:
  "tx_spent coin_mint0 c = []" "tx_spent coin_mint1 c = []" "tx_vInput coin_mint0 = []" "tx_vInput coin_mint1 = []"
  "tx_vInput (coin_pay d n sig) = [CTxIn (CTxOutPoint (uint256_pair 5 0) 0)]"
  "tx_spent (coin_pay d n sig) coin_ctxt = [(CTxOutPoint (uint256_pair 5 0) 0, txout_of_tx coin_mint0)]"
  by (simp_all add: tx_spent_def coin_mint0_def coin_mint1_def coin_pay_def coin_ctxt_def tx_SetNull_def contxt_output_def txout_of_tx_def)

lemma coin_entries:
  "block_entries (\<lambda>_. 0) coin_block0 = [(uint256_pair 5 0, coin_mint0, txcontxt_null)]"
  "block_entries (\<lambda>_. 0) (coin_block1 (coin_pay d n sig)) = [(uint256_pair 11 0, coin_mint1, txcontxt_null), (uint256_pair 10 0, coin_pay d n sig, coin_ctxt)]"
  by (simp_all add: block_entries_def mint_entries_def vtx_entries_def coin_block0_def coin_block1_def coin_ids)
    (simp_all add: coin_mint0_def coin_mint1_def dest_IsNull_def PREFIX_NULL_def)

lemma coin_fits:
  assumes "n \<in> {100, 500}" "dest_prefix d = 2"
  shows "block_fits (\<lambda>_. 0) (coin_orig d n) coin_block0 Map.empty"
    "block_fits (\<lambda>_. 0) (coin_orig d n) (coin_block1 (coin_pay d n sig)) (txs_apply (block_entries (\<lambda>_. 0) coin_block0) Map.empty)"
proof -
  show "block_fits (\<lambda>_. 0) (coin_orig d n) coin_block0 Map.empty"
    by (simp add: block_fits_def coin_entries entry_fits_def tx_fits_def entry_conforms_def tx_conforms_def coin_made coin_spent coin_orig_def coin_created_def)
      (simp add: coin_block0_def)
  have l: "length (blk_vtx (coin_block1 t)) = length (bex_vTxContxt (coin_block1 t))" for t by (simp add: coin_block1_def)
  have "length (ctxt_vin coin_ctxt) = 1" by (simp add: coin_ctxt_def)
  then show "block_fits (\<lambda>_. 0) (coin_orig d n) (coin_block1 (coin_pay d n sig)) (txs_apply (block_entries (\<lambda>_. 0) coin_block0) Map.empty)"
    unfolding block_fits_def l using coin_made(3) [OF assms, of sig]
    by (simp add: coin_entries txs_apply_def entry_apply_def tx_apply_def entry_fits_def tx_fits_def entry_conforms_def tx_conforms_def coin_made coin_spent
        coin_orig_def coin_created_def coin_id_neq put_all_def drop_all_def)
qed

lemma coin_index:
  "coin_store example_hash0 = Some ((fork_entry example_hash0 None 5 0)\<lparr> bi_nFile := 0 \<rparr>)"
  "coin_store example_hash1 = Some ((fork_entry example_hash1 (Some example_hash0) 12 1)\<lparr> bi_nFile := 1 \<rparr>)"
  "bi_pPrev ((fork_entry example_hash0 None 5 0)\<lparr> bi_nFile := 0 \<rparr>) = None"
  "bi_pPrev ((fork_entry example_hash1 (Some example_hash0) 12 1)\<lparr> bi_nFile := 1 \<rparr>) = Some example_hash0"
  "ts_Read (coin_files tx) ((fork_entry example_hash0 None 5 0)\<lparr> bi_nFile := 0 \<rparr>) = Some coin_block0"
  "ts_Read (coin_files tx) ((fork_entry example_hash1 (Some example_hash0) 12 1)\<lparr> bi_nFile := 1 \<rparr>) = Some (coin_block1 tx)"
  by (simp_all add: coin_store_def fork_entry_def ts_Read_def coin_files_def example_hash0_def example_hash1_def)

lemma coin_chain:
  assumes "n \<in> {100, 500}" "dest_prefix d = 2"
  shows "\<exists>m. chain_utxo (\<lambda>_. 0) (coin_orig d n) coin_store (coin_files (coin_pay d n sig)) example_hash1 m"
proof -
  have g: "chain_utxo (\<lambda>_. 0) (coin_orig d n) coin_store (coin_files (coin_pay d n sig)) example_hash0 (txs_apply (block_entries (\<lambda>_. 0) coin_block0) Map.empty)"
    by (rule chain_first) (rule coin_index(1) coin_index(3,5) coin_fits(1) [OF assms])+
  have "chain_utxo (\<lambda>_. 0) (coin_orig d n) coin_store (coin_files (coin_pay d n sig)) example_hash1
      (txs_apply (block_entries (\<lambda>_. 0) (coin_block1 (coin_pay d n sig))) (txs_apply (block_entries (\<lambda>_. 0) coin_block0) Map.empty))"
    by (rule chain_next [OF g coin_index(2,4,6) coin_fits(2) [OF assms]])
  then show ?thesis by blast
qed

lemma coin_balanced:
  assumes "n \<in> {100, 500}"
  shows "genesis_balanced coin_block0" "block_balanced (coin_block1 (coin_pay d n sig))"
proof -
  have t: "is_template_of (CDestination 2 4) TEMPLATE_PROOF" by code_simp
  show "genesis_balanced coin_block0"
    by (simp add: genesis_balanced_def coin_block0_def coin_mint0_def tx_balanced_def tx_SetNull_def txcontxt_null_def tx_GetChange_def
        txcontxt_GetValueIn_def dest_IsTemplate_def PREFIX_TEMPLATE_def dest_IsNull_def dest_null_def)
  show "block_balanced (coin_block1 (coin_pay d n sig))"
    using assms t by (auto simp: block_balanced_def coin_block1_def coin_mint1_def coin_pay_def coin_ctxt_def tx_balanced_def tx_SetNull_def txcontxt_null_def
        tx_GetChange_def txcontxt_GetValueIn_def dest_IsNull_def dest_null_def)
qed


definition coin_pledge :: CTemplateMintPledge where
  "coin_pledge = \<lparr> mp_destOwner = dest_SetPubKey 5, mp_destPowMint = pledge_pow, mp_nRewardMode = 2 \<rparr>"

lemma coin_pledge_created:
  "create_as (\<lambda>_. 0) TEMPLATE_MINTPLEDGE as_mintpledge (mintpledge_BuildTemplateData coin_pledge) =
     Inr (Some (template_build (\<lambda>_. 0) (TMintPledge coin_pledge), coin_pledge))"
proof -
  have v: "obj_ok (TMintPledge coin_pledge)" "obj_ValidateParam (TMintPledge coin_pledge)"
    by (simp add: obj_ok_def) code_simp
  show ?thesis using CreateTemplatePtr_round_trip [OF v, of "\<lambda>_. 0" "[]"] by (simp add: create_as_def template_build_def Let_def)
qed

abbreviation "coin_pledging \<equiv> coin_pay pledge_dest 100 (mintpledge_BuildTemplateData coin_pledge)"

lemma coin_pledge_loop:
  "block_pledge_loop (\<lambda>_. 0) (block_GetBlockHeight (coin_block1 coin_pledging)) [coin_pledging] [coin_ctxt] ([], td) =
     Inr (True, example_pledge_inc 100 1, td)"
proof -
  have t: "is_template_of pledge_dest TEMPLATE_MINTPLEDGE" "\<not> is_template_of (CDestination 1 5) TEMPLATE_MINTPLEDGE" by code_simp+
  have h: "block_GetBlockHeight (coin_block1 coin_pledging) = 1"
    by (simp add: block_GetBlockHeight_def coin_block1_def block_IsGenesis_def block_IsExtended_def BLOCK_PRIMARY_def BLOCK_GENESIS_def BLOCK_EXTENDED_def)
      code_simp
  have f: "tx_sendTo coin_pledging = pledge_dest" "tx_vchSig coin_pledging = mintpledge_BuildTemplateData coin_pledge" "tx_nAmount coin_pledging = 100"
    "tx_nType coin_pledging \<noteq> TX_STAKE" "ctxt_destIn coin_ctxt = CDestination 1 5" "\<not> dest_IsNull (CDestination 1 5)"
    by (simp_all add: coin_pay_def coin_ctxt_def tx_SetNull_def TX_STAKE_def dest_IsNull_def PREFIX_NULL_def)
  have n: "mintpledge_BuildTemplateData coin_pledge \<noteq> []" by code_simp
  have i: "pledge_template (\<lambda>_. 0) pledge_dest (mintpledge_BuildTemplateData coin_pledge) td = Inr (Some coin_pledge, td)"
    using n by (simp add: pledge_template_def coin_pledge_created)
  have "pledge_in (\<lambda>_. 0) 1 coin_pledging coin_ctxt ([], td) = Inr (True, example_pledge_inc 100 1, td)"
    by (simp add: pledge_in_def f t i) (simp add: coin_pledge_def pledge_add_def example_pledge_inc_def std_modify_def)
  moreover have "pledge_out (\<lambda>_. 0) coin_pledging coin_ctxt s = Inr (True, s)" for s
    by (cases s) (simp add: pledge_out_def f t)
  ultimately show ?thesis by (simp add: h)
qed

text \<open>The data of a valid template is recorded for its address.\<close>

lemma record_template_valid:
  assumes "td_sound blake2b td" "obj_ok obj" "obj_ValidateParam obj" "fits (obj_BuildTemplateData obj)"
    "template_BuildTemplateId blake2b (obj_nType obj) (obj_BuildTemplateData obj) = dest_GetTemplateId dest"
  shows "\<exists>td'. record_template blake2b True dest (obj_BuildTemplateData obj) td = Inr (Some (template_build blake2b obj), td') \<and> td_sound blake2b td'"
proof -
  have t: "templateid_GetType (dest_GetTemplateId dest) = obj_nType obj"
    unfolding assms(5) [symmetric] by (simp add: template_BuildTemplateId_def)
  have b: "tpl_nId (template_build blake2b obj) = dest_GetTemplateId dest" "tpl_vchData (template_build blake2b obj) = obj_BuildTemplateData obj"
    using assms(5) by (simp_all add: template_build_def Let_def)
  have c: "CreateTemplatePtr blake2b (obj_nType obj) (obj_BuildTemplateData obj) = Inr (Some (template_build blake2b obj))"
    using CreateTemplatePtr_round_trip [OF assms(2,3), of blake2b "[]"] by simp
  have "td_inv td" using assms(1) by (simp add: td_sound_def)
  from td_AddNew_ok [OF this assms(4), of True dest] obtain td' where
    "td_AddNew True dest (obj_BuildTemplateData obj) td = (True, td')" by auto
  then have r: "record_template blake2b True dest (obj_BuildTemplateData obj) td = Inr (Some (template_build blake2b obj), td')"
    by (simp add: record_template_def t c b)
  then show ?thesis using record_template_ok [OF assms(1) r assms(4)] by blast
qed

definition coin_templates :: CTemplateDataDB where
  "coin_templates = \<lparr> td_kv = Some \<lparr> eng_pdb = [], eng_pbatch = None, eng_piter = None \<rparr>, td_fCache = True,
     td_cacheTemplate = \<lparr> cc_cntrCache = [], cc_nMaxCount = 100 \<rparr> \<rparr>"

lemma coin_templates_inv: "td_inv coin_templates" "td_read coin_templates = Map.empty" "td_sound blake2b coin_templates"
  by (simp_all add: td_sound_def td_inv_def coin_templates_def table_wf_def cc_inv_def cc_Retrieve_def td_read_def kv_Read_def eng_Get_def fun_eq_iff)

lemma coin_data_fits: "fits (proof_BuildTemplateData p)" "fits (mintpledge_BuildTemplateData q)"
  by (simp_all add: fits_def proof_BuildTemplateData_def mintpledge_BuildTemplateData_def dest_ToDataStream_def)

lemma coin_UpdateTemplates: "\<exists>td1. UpdateTxTemplateData (\<lambda>_. 0) True (coin_block1 coin_pledging) coin_templates = Inr (True, td1)"
proof -
  have v: "obj_ok (TProof coin_miner)" "obj_ok (TMintPledge coin_pledge)" "obj_ValidateParam (TProof coin_miner)" "obj_ValidateParam (TMintPledge coin_pledge)"
    by (simp_all add: obj_ok_def) code_simp+
  have d: "template_BuildTemplateId (\<lambda>_. 0) TEMPLATE_PROOF vch = dest_GetTemplateId (CDestination 2 4)"
    "template_BuildTemplateId (\<lambda>_. 0) TEMPLATE_MINTPLEDGE vch = dest_GetTemplateId pledge_dest" for vch
    by (simp_all add: template_BuildTemplateId_def CryptoHash_def dest_GetTemplateId_def pledge_dest_def template_types templateid_def PREFIX_TEMPLATE_def)
  have r: "dest_IsTemplate (CDestination 2 4)" "IsDestInRecorded (CDestination 2 4)" "dest_IsTemplate pledge_dest" "IsDestInRecorded pledge_dest"
    "\<not> dest_IsTemplate (CDestination 1 5)" by code_simp+
  have n: "mintpledge_BuildTemplateData coin_pledge \<noteq> []" by code_simp
  obtain td1 where td1: "record_template (\<lambda>_. 0) True (CDestination 2 4) (proof_BuildTemplateData coin_miner) coin_templates
      = Inr (Some (template_build (\<lambda>_. 0) (TProof coin_miner)), td1)" "td_sound (\<lambda>_. 0) td1"
    using record_template_valid [OF coin_templates_inv(3) [of "\<lambda>_. 0"] v(1,3), where dest = "CDestination 2 4"] coin_data_fits d by auto
  obtain td2 where td2: "record_template (\<lambda>_. 0) True pledge_dest (mintpledge_BuildTemplateData coin_pledge) td1
      = Inr (Some (template_build (\<lambda>_. 0) (TMintPledge coin_pledge)), td2)"
    using record_template_valid [OF td1(2) v(2,4), where dest = pledge_dest] coin_data_fits d by auto
  have "update_tx_template (\<lambda>_. 0) True coin_pledging coin_ctxt td1 = Inr (True, td2)"
    using r n td2 by (simp add: update_tx_template_def coin_pay_def coin_ctxt_def template_GetSignDestination_def template_GetSignRest_def template_build_def Let_def)
  then show ?thesis using r td1(1) by (simp add: UpdateTxTemplateData_def Let_def coin_block1_def coin_mint1_def)
qed

lemma coin_pledge_chain: "\<exists>td. pledge_chain (\<lambda>_. 0) coin_store (coin_files coin_pledging)
    [(example_hash1, example_hash0, example_pledge_inc 100 1), (example_hash0, 0, [])] td"
proof -
  have z: "blk_vtx (coin_block1 tx) = [tx]" "bex_vTxContxt (coin_block1 tx) = [coin_ctxt]" for tx by (simp_all add: coin_block1_def)
  have ok: "block_ok (coin_block1 coin_pledging)" using coin_data_fits
    by (simp add: block_ok_def tx_ok_def coin_block1_def coin_mint1_def coin_pay_def tx_SetNull_def) (simp add: fits_def)
  obtain td1 where u: "UpdateTxTemplateData (\<lambda>_. 0) True (coin_block1 coin_pledging) coin_templates = Inr (True, td1)"
    using coin_UpdateTemplates by blast
  note g = pc_genesis [where blake2b = "\<lambda>_. 0" and st = coin_store and g = example_hash0 and ts = "coin_files coin_pledging",
      OF coin_index(1,3,5) coin_balanced(1) [of 100, simplified] coin_templates_inv(1,2)]
  note l = coin_pledge_loop [of td1, folded z [of coin_pledging]]
  have "pledge_chain (\<lambda>_. 0) coin_store (coin_files coin_pledging)
      [(example_hash1, example_hash0, example_pledge_inc 100 1), (example_hash0, 0, [])] td1"
    by (rule pc_block [where h = example_hash1, OF g coin_index(2,4) _ _ coin_index(6) coin_balanced(2) ok u l])
      (simp_all add: z example_hash0_def example_hash1_def)
  then show ?thesis by blast
qed

theorem pledge_is_balance_witness:
  "\<exists>m pledged. chain_utxo (\<lambda>_. 0) (coin_orig pledge_dest 100) coin_store (coin_files coin_pledging) example_hash1 m
    \<and> (\<forall>w. \<exists>n. fst (GetAddressPledgeData False example_hash1 w pledge_dest example_run1) = Some (pledged w, n))
    \<and> (\<Sum>w\<in>UNIV. pledged w) = balance m pledge_dest"
proof -
  have d: "dest_prefix pledge_dest = 2" "is_template_of pledge_dest TEMPLATE_MINTPLEDGE" by code_simp+
  obtain m where m: "chain_utxo (\<lambda>_. 0) (coin_orig pledge_dest 100) coin_store (coin_files coin_pledging) example_hash1 m"
    using coin_chain [OF _ d(1), of 100] by blast
  obtain td where c: "pledge_chain (\<lambda>_. 0) coin_store (coin_files coin_pledging)
      [(example_hash1, example_hash0, example_pledge_inc 100 1), (example_hash0, 0, [])] td"
    using coin_pledge_chain by blast
  from pledge_is_balance [OF example_reach1 c _ m d(2)] m show ?thesis by auto
qed

lemma coin_rhash: "example_rhash0 = example_hash0" "example_rhash1 = example_hash1"
  by (simp_all add: example_rhash0_def example_rhash1_def example_hash0_def example_hash1_def)

lemma coin_redeem_chain: "redeem_chain coin_store (coin_files (coin_pay example_redeemer 500 []))
    [(example_rhash1, example_rhash0, [(example_redeemer, 500)]), (example_rhash0, 0, [])]"
proof -
  have t: "is_template_of example_redeemer TEMPLATE_MINTREDEEM" "\<not> is_template_of (CDestination 1 5) TEMPLATE_MINTREDEEM" by code_simp+
  have "block_redeem_changes (blk_vtx (coin_block1 (coin_pay example_redeemer 500 []))) (bex_vTxContxt (coin_block1 (coin_pay example_redeemer 500 [])))
      = Inr [(example_redeemer, 500)]"
    using t by (simp add: coin_block1_def tx_redeems_def coin_pay_def coin_ctxt_def)
  note b = rc_block [where h = example_hash1, OF rc_genesis [where st = coin_store and g = example_hash0 and ts = "coin_files (coin_pay example_redeemer 500 [])", OF coin_index(1,3,5) coin_balanced(1) [of 500, simplified]]
      coin_index(2,4) _ _ coin_index(6) coin_balanced(2) this]
  show ?thesis unfolding coin_rhash by (rule b) (simp_all add: example_hash0_def example_hash1_def)
qed

theorem redeem_is_balance_witness:
  "\<exists>m r. chain_utxo (\<lambda>_. 0) (coin_orig example_redeemer 500) coin_store (coin_files (coin_pay example_redeemer 500 [])) example_rhash1 m
    \<and> fst (GetAddressRedeem False example_rhash1 example_redeemer destredeem_null example_redeem1) = Some r \<and> dr_nBalance r = balance m example_redeemer"
proof -
  have d: "dest_prefix example_redeemer = 2" "is_template_of example_redeemer TEMPLATE_MINTREDEEM" by code_simp+
  obtain m where m: "chain_utxo (\<lambda>_. 0) (coin_orig example_redeemer 500) coin_store (coin_files (coin_pay example_redeemer 500 [])) example_rhash1 m"
    using coin_chain [OF _ d(1), of 500 "[]"] unfolding coin_rhash by blast
  then show ?thesis using redeem_is_balance [OF example_redeem_reach1 coin_redeem_chain _ m d(2)] by auto
qed

end
