(* ===== verification/Circular_Buf.thy ===== *)
theory Circular_Buf
  imports Stream_Codec
begin

text \<open>
  The circular stream buffer (\<^verbatim>\<open>xengine/stream/circular.h\<close>, \<^verbatim>\<open>circular.cpp\<close>) and the stream over it
  (\<^verbatim>\<open>CCircularStream\<close> in \<^verbatim>\<open>stream.h\<close>).  The buffer derives from \<^verbatim>\<open>std::streambuf\<close>: its get and put areas
  are ranges of the buffer, and \<^verbatim>\<open>underflow\<close> and \<^verbatim>\<open>overflow\<close> move them on when they are used up.  The
  refinement shows that the object is a queue of bytes with a reading position: writing appends,
  reading returns the bytes from the position on, seeking moves the position, and consuming drops the
  oldest bytes.
\<close>

section \<open>circularbuf\<close>

text \<open>Pointers into the buffer are offsets from its first byte; the put-back area is not used.\<close>

record circularbuf =
  cb_buf_size :: nat
  cb_begin :: nat
  cb_buffer :: "u8 list"
  cb_gptr :: nat
  cb_egptr :: nat
  cb_pptr :: nat
  cb_epptr :: nat

definition CB_MIN_SIZE :: nat where "CB_MIN_SIZE = 8"

function cb_grow :: "nat \<Rightarrow> nat \<Rightarrow> nat" where
  "cb_grow maximum_size buf_size = (if 0 < buf_size \<and> buf_size < maximum_size then cb_grow maximum_size (2 * buf_size) else buf_size)"
  by auto
termination by (relation "measure (\<lambda>(m, n). m - n)") auto

declare cb_grow.simps [simp del]

definition cb_new :: "nat \<Rightarrow> circularbuf" where
  "cb_new maximum_size = (let n = cb_grow maximum_size CB_MIN_SIZE in
     \<lparr> cb_buf_size = n, cb_begin = 0, cb_buffer = replicate n 0, cb_gptr = 0, cb_egptr = 0, cb_pptr = 0, cb_epptr = n - 1 \<rparr>)"

text \<open>The expression \<^verbatim>\<open>x & size_mask_\<close>; differences of pointers may be negative.\<close>

definition cb_mask :: "circularbuf \<Rightarrow> int \<Rightarrow> nat" where
  "cb_mask b x = nat (x AND (int (cb_buf_size b) - 1))"

definition cb_setg :: "nat \<Rightarrow> nat \<Rightarrow> circularbuf \<Rightarrow> circularbuf" where
  "cb_setg g e b = b\<lparr> cb_gptr := g, cb_egptr := e \<rparr>"

definition cb_setp :: "nat \<Rightarrow> nat \<Rightarrow> circularbuf \<Rightarrow> circularbuf" where
  "cb_setp p e b = b\<lparr> cb_pptr := p, cb_epptr := e \<rparr>"

definition cb_size :: "circularbuf \<Rightarrow> nat" where
  "cb_size b = cb_mask b (int (cb_pptr b) - int (cb_begin b))"

definition cb_freespace :: "circularbuf \<Rightarrow> nat" where
  "cb_freespace b = cb_buf_size b - cb_size b - 1"

definition cb_putpos :: "circularbuf \<Rightarrow> nat" where
  "cb_putpos b = cb_mask b (int (cb_pptr b))"

definition cb_consume :: "nat \<Rightarrow> circularbuf \<Rightarrow> circularbuf" where
  "cb_consume n b =
     (let ppos = cb_mask b (int (cb_pptr b));
          gpos = cb_mask b (int (cb_gptr b));
          begin' = (if n \<ge> cb_size b then ppos else cb_mask b (int (cb_begin b + n)));
          b' = b\<lparr> cb_begin := begin' \<rparr> in
      if (ppos \<ge> begin' \<and> (gpos < begin' \<or> gpos > ppos)) \<or> (ppos < begin' \<and> (gpos < begin' \<and> gpos > ppos))
      then if begin' \<le> ppos then cb_setg begin' ppos b' else cb_setg begin' (cb_buf_size b) b'
      else b')"

definition cb_underflow :: "circularbuf \<Rightarrow> bool \<times> circularbuf" where
  "cb_underflow b =
     (let ppos = cb_mask b (int (cb_pptr b)); gpos = cb_mask b (int (cb_gptr b)) in
      if gpos < ppos then (True, cb_setg gpos ppos b)
      else if gpos > ppos then (True, cb_setg gpos (cb_buf_size b) b)
      else (False, b))"

definition cb_store :: "u8 \<Rightarrow> circularbuf \<Rightarrow> circularbuf" where
  "cb_store c b = b\<lparr> cb_buffer := (cb_buffer b)[cb_pptr b := c], cb_pptr := cb_pptr b + 1 \<rparr>"

definition cb_overflow :: "u8 \<Rightarrow> circularbuf \<Rightarrow> bool \<times> circularbuf" where
  "cb_overflow c b =
     (let ppos = cb_mask b (int (cb_pptr b)); pend = cb_mask b (int (cb_begin b) - 1) in
      if ppos = pend then (False, b)
      else if ppos > pend then (True, cb_store c (cb_setp ppos (cb_buf_size b) b))
      else (True, cb_store c (cb_setp ppos pend b)))"

definition cb_seekpos :: "int \<Rightarrow> circularbuf \<Rightarrow> nat option \<times> circularbuf" where
  "cb_seekpos pos b =
     (let ppos = cb_mask b (int (cb_pptr b)); gpos = cb_mask b pos in
      if (ppos \<ge> cb_begin b \<and> (gpos \<ge> cb_begin b \<and> gpos \<le> ppos)) \<or> (ppos < cb_begin b \<and> (gpos \<ge> cb_begin b \<or> gpos \<le> ppos))
      then (Some gpos, if gpos \<le> ppos then cb_setg gpos ppos b else cb_setg gpos (cb_buf_size b) b)
      else (None, b))"

datatype seekdir = SeekBeg | SeekCur | SeekEnd

definition cb_seekoff :: "int \<Rightarrow> seekdir \<Rightarrow> circularbuf \<Rightarrow> nat option \<times> circularbuf" where
  "cb_seekoff off way b =
     cb_seekpos (int (cb_mask b ((case way of SeekBeg \<Rightarrow> int (cb_begin b) | SeekCur \<Rightarrow> int (cb_gptr b) | SeekEnd \<Rightarrow> int (cb_pptr b)) + off))) b"

definition cb_showmanyc :: "circularbuf \<Rightarrow> nat" where
  "cb_showmanyc b = cb_mask b (int (cb_pptr b) - int (cb_gptr b))"

text \<open>The inherited \<^verbatim>\<open>sputn\<close> and \<^verbatim>\<open>sgetn\<close> put and get one character after the other.\<close>

definition cb_sputc :: "u8 \<Rightarrow> circularbuf \<Rightarrow> bool \<times> circularbuf" where
  "cb_sputc c b = (if cb_pptr b < cb_epptr b then (True, cb_store c b) else cb_overflow c b)"

fun cb_sputn :: "u8 list \<Rightarrow> circularbuf \<Rightarrow> nat \<times> circularbuf" where
  "cb_sputn [] b = (0, b)"
| "cb_sputn (c # cs) b = (case cb_sputc c b of (False, b') \<Rightarrow> (0, b') | (True, b') \<Rightarrow> map_prod Suc id (cb_sputn cs b'))"

definition cb_get :: "circularbuf \<Rightarrow> u8 \<times> circularbuf" where
  "cb_get b = (cb_buffer b ! cb_gptr b, b\<lparr> cb_gptr := cb_gptr b + 1 \<rparr>)"

definition cb_sbumpc :: "circularbuf \<Rightarrow> u8 option \<times> circularbuf" where
  "cb_sbumpc b = (if cb_gptr b < cb_egptr b then map_prod Some id (cb_get b)
     else (case cb_underflow b of (True, b') \<Rightarrow> map_prod Some id (cb_get b') | (False, b') \<Rightarrow> (None, b')))"

fun cb_sgetn :: "nat \<Rightarrow> circularbuf \<Rightarrow> u8 list \<times> circularbuf" where
  "cb_sgetn 0 b = ([], b)"
| "cb_sgetn (Suc n) b = (case cb_sbumpc b of (None, b') \<Rightarrow> ([], b') | (Some c, b') \<Rightarrow> map_prod ((#) c) id (cb_sgetn n b'))"

section \<open>A queue of bytes\<close>

text \<open>How far behind the oldest byte an offset lies.\<close>

definition cb_off :: "circularbuf \<Rightarrow> nat \<Rightarrow> nat" where
  "cb_off b x = cb_mask b (int x - int (cb_begin b))"

definition cb_content :: "circularbuf \<Rightarrow> u8 list" where
  "cb_content b = map (\<lambda>i. cb_buffer b ! ((cb_begin b + i) mod cb_buf_size b)) [0..<cb_size b]"

definition cb_rpos :: "circularbuf \<Rightarrow> nat" where
  "cb_rpos b = cb_off b (cb_gptr b)"

definition cb_wf :: "circularbuf \<Rightarrow> bool" where
  "cb_wf b \<longleftrightarrow> (\<exists>k\<ge>3. cb_buf_size b = 2 ^ k) \<and> length (cb_buffer b) = cb_buf_size b \<and> cb_begin b < cb_buf_size b"

definition cb_inv :: "circularbuf \<Rightarrow> bool" where
  "cb_inv b \<longleftrightarrow> cb_wf b
     \<and> cb_pptr b \<le> cb_epptr b \<and> cb_epptr b \<le> cb_buf_size b \<and> cb_off b (cb_pptr b) + (cb_epptr b - cb_pptr b) < cb_buf_size b
     \<and> cb_gptr b \<le> cb_egptr b \<and> cb_egptr b \<le> cb_buf_size b \<and> cb_off b (cb_gptr b) + (cb_egptr b - cb_gptr b) \<le> cb_off b (cb_pptr b)"

lemma cb_mask_mod: "cb_wf b \<Longrightarrow> cb_mask b x = nat (x mod int (cb_buf_size b))"
  by (auto simp: cb_wf_def cb_mask_def mask_eq_exp_minus_1 [symmetric] take_bit_eq_mask [symmetric] take_bit_eq_mod)

lemma cb_mask_nat: "cb_wf b \<Longrightarrow> cb_mask b (int x) = x mod cb_buf_size b"
  by (simp add: cb_mask_mod nat_mod_distrib)

lemma mod_wrap: "a < 2 * n \<Longrightarrow> a mod n = (if a < n then a else a - n)" for a n :: nat
  using le_mod_geq [of n a] by (cases "a < n") auto

lemma cb_off_mod:
  assumes "cb_wf b"
  shows "cb_off b x = (x + cb_buf_size b - cb_begin b) mod cb_buf_size b"
proof -
  have "cb_begin b < cb_buf_size b" using assms by (simp add: cb_wf_def)
  then have e: "int (x + cb_buf_size b - cb_begin b) = int x - int (cb_begin b) + int (cb_buf_size b)" by auto
  have "(int x - int (cb_begin b)) mod int (cb_buf_size b) = int (x + cb_buf_size b - cb_begin b) mod int (cb_buf_size b)" by (simp add: e)
  then show ?thesis by (simp only: cb_off_def cb_mask_mod [OF assms] zmod_int [symmetric] nat_int)
qed

lemma cb_off_eq:
  assumes "cb_wf b" "x \<le> cb_buf_size b"
  shows "cb_off b x = (if x = cb_buf_size b then (if cb_begin b = 0 then 0 else cb_buf_size b - cb_begin b)
     else if cb_begin b \<le> x then x - cb_begin b else x + cb_buf_size b - cb_begin b)"
proof -
  let ?N = "cb_buf_size b"
  have N: "cb_begin b < ?N" using assms(1) by (simp add: cb_wf_def)
  show ?thesis
  proof (cases "x = ?N \<and> cb_begin b = 0")
    case False
    then have "x + ?N - cb_begin b < 2 * ?N" using assms(2) N by linarith
    then show ?thesis using assms(2) N unfolding cb_off_mod [OF assms(1)] by (subst mod_wrap) auto
  qed (simp add: cb_off_mod [OF assms(1)])
qed

lemma cb_off_end: "cb_wf b \<Longrightarrow> cb_off b (cb_buf_size b) = cb_off b 0"
  using cb_off_eq [of b 0] cb_off_eq [of b "cb_buf_size b"] by (auto simp: cb_wf_def split: if_splits)

lemma cb_mask_le: "cb_wf b \<Longrightarrow> x \<le> cb_buf_size b \<Longrightarrow> cb_mask b (int x) = (if x = cb_buf_size b then 0 else x)"
  by (simp add: cb_mask_nat)

lemma cb_wf_big: "cb_wf b \<Longrightarrow> 8 \<le> cb_buf_size b"
  using power_increasing [of 3 _ "2::nat"] by (auto simp: cb_wf_def)

lemma cb_size_off: "cb_size b = cb_off b (cb_pptr b)"
  by (simp add: cb_size_def cb_off_def)

lemma cb_wf_simps [simp]:
  "cb_wf (cb_setg g e b) = cb_wf b" "cb_wf (cb_setp p e b) = cb_wf b" "cb_wf (cb_store c b) = cb_wf b" "cb_wf (b\<lparr> cb_gptr := g \<rparr>) = cb_wf b"
  by (simp_all add: cb_wf_def cb_setg_def cb_setp_def cb_store_def)

lemma cb_off_simps [simp]:
  "cb_off (cb_setg g e b) = cb_off b" "cb_off (cb_setp p e b) = cb_off b" "cb_off (cb_store c b) = cb_off b" "cb_off (b\<lparr> cb_gptr := g \<rparr>) = cb_off b"
  by (simp_all add: fun_eq_iff cb_off_def cb_mask_def cb_setg_def cb_setp_def cb_store_def)

lemma cb_pptr_le: "cb_inv b \<Longrightarrow> cb_pptr b \<le> cb_buf_size b" and cb_gptr_le: "cb_inv b \<Longrightarrow> cb_gptr b \<le> cb_buf_size b"
  by (auto simp: cb_inv_def)

lemma length_cb_content [simp]: "length (cb_content b) = cb_size b"
  by (simp add: cb_content_def)

lemma cb_freespace_room: "cb_inv b \<Longrightarrow> cb_size b + cb_freespace b + 1 = cb_buf_size b"
  by (simp add: cb_inv_def cb_size_off cb_freespace_def)

text \<open>Storing a byte where there is room.\<close>

lemma cb_store_ok:
  assumes "cb_inv b" "cb_pptr b < cb_epptr b"
  shows "cb_inv (cb_store c b) \<and> cb_content (cb_store c b) = cb_content b @ [c] \<and> cb_rpos (cb_store c b) = cb_rpos b"
proof -
  let ?N = "cb_buf_size b" and ?b = "cb_store c b"
  have w: "cb_wf b" and o: "cb_off b (cb_pptr b) + (cb_epptr b - cb_pptr b) < ?N" "cb_epptr b \<le> ?N" "cb_begin b < ?N" "length (cb_buffer b) = ?N"
    using assms(1) by (auto simp: cb_inv_def cb_wf_def)
  have p: "cb_pptr b < ?N" using assms(2) o(2) by simp
  have n: "cb_off b (Suc (cb_pptr b)) = Suc (cb_off b (cb_pptr b))"
    using p o(1,3) assms(2) cb_off_eq [OF w, of "cb_pptr b"] cb_off_eq [OF w, of "Suc (cb_pptr b)"] by (auto split: if_splits)
  have at: "(cb_begin b + cb_off b (cb_pptr b)) mod ?N = cb_pptr b"
    using p o(3) cb_off_eq [OF w, of "cb_pptr b"] by (auto split: if_splits)
  have ne: "(cb_begin b + i) mod ?N \<noteq> cb_pptr b" if "i < cb_off b (cb_pptr b)" for i
  proof -
    have "cb_begin b + i < 2 * ?N" using that o(1,3) by linarith
    then show ?thesis using that p o(3) cb_off_eq [OF w, of "cb_pptr b"] by (auto simp: mod_wrap split: if_splits)
  qed
  have "cb_size ?b = Suc (cb_size b)" unfolding cb_size_off by (simp add: n) (simp add: cb_store_def n)
  moreover have "cb_buffer ?b ! ((cb_begin b + i) mod ?N) = cb_buffer b ! ((cb_begin b + i) mod ?N)" if "i < cb_size b" for i
    using ne [of i] that by (simp add: cb_store_def cb_size_off)
  moreover have "cb_buffer ?b ! ((cb_begin b + cb_size b) mod ?N) = c" using p o(4) by (simp add: cb_size_off at cb_store_def)
  moreover have "cb_begin ?b = cb_begin b" "cb_buf_size ?b = ?N" by (simp_all add: cb_store_def)
  ultimately have "cb_content ?b = cb_content b @ [c]" by (simp add: cb_content_def)
  moreover have "cb_rpos ?b = cb_rpos b" by (simp add: cb_rpos_def) (simp add: cb_store_def)
  moreover have "cb_inv ?b" using assms n by (simp add: cb_inv_def) (auto simp: cb_store_def)
  ultimately show ?thesis by simp
qed

lemma cb_overflow_ok:
  assumes "cb_inv b"
  shows "cb_overflow c b = (False, b) \<and> cb_freespace b = 0
    \<or> (\<exists>p e. cb_overflow c b = (True, cb_store c (cb_setp p e b)) \<and> cb_inv (cb_setp p e b) \<and> p < e \<and> cb_off b p = cb_off b (cb_pptr b))"
proof -
  let ?N = "cb_buf_size b"
  have w: "cb_wf b" and N: "cb_begin b < ?N" "8 \<le> ?N" "cb_pptr b \<le> ?N" using assms cb_wf_big [of b] by (auto simp: cb_inv_def cb_wf_def)
  define ppos where "ppos = cb_mask b (int (cb_pptr b))"
  define pend where "pend = cb_mask b (int (cb_begin b) - 1)"
  have pp: "ppos = (if cb_pptr b = ?N then 0 else cb_pptr b)" by (simp add: ppos_def cb_mask_le [OF w N(3)])
  have pe: "pend = (if cb_begin b = 0 then ?N - 1 else cb_begin b - 1)"
  proof (cases "cb_begin b = 0")
    case True
    have "(- 1) mod int ?N = (- 1 + int ?N) mod int ?N" by (simp only: mod_add_self2)
    also have "\<dots> = - 1 + int ?N" using N(2) by (intro mod_pos_pos_trivial) auto
    finally show ?thesis using True N(2) by (simp add: pend_def cb_mask_mod [OF w])
  next
    case False
    then have "int (cb_begin b) - 1 = int (cb_begin b - 1)" by auto
    then show ?thesis using False N cb_mask_le [OF w, of "cb_begin b - 1"] by (simp add: pend_def)
  qed
  have ov: "cb_overflow c b = (if ppos = pend then (False, b) else if ppos > pend then (True, cb_store c (cb_setp ppos ?N b))
      else (True, cb_store c (cb_setp ppos pend b)))"
    by (simp add: cb_overflow_def Let_def ppos_def pend_def)
  have o: "cb_off b ppos = cb_off b (cb_pptr b)"
    using N pp cb_off_eq [OF w, of ppos] cb_off_eq [OF w, of "cb_pptr b"] by (auto split: if_splits)
  have ol: "cb_off b ppos = (if cb_begin b \<le> ppos then ppos - cb_begin b else ppos + ?N - cb_begin b)" "ppos < ?N"
    using N pp cb_off_eq [OF w, of ppos] by (auto split: if_splits)
  have i: "cb_inv (cb_setp ppos e b)" if "ppos \<le> e" "e \<le> ?N" "cb_off b ppos + (e - ppos) < ?N" for e
    using assms that o by (simp add: cb_inv_def) (auto simp: cb_setp_def)
  consider "ppos = pend" | "pend < ppos" | "ppos < pend" by linarith
  then show ?thesis
  proof cases
    case 1
    then show ?thesis using ov ol pe N o by (auto simp: cb_freespace_def cb_size_off split: if_splits)
  next
    case 2
    then have "cb_inv (cb_setp ppos ?N b)" using ol pe N by (intro i) (auto split: if_splits)
    then show ?thesis using 2 ov o ol by auto
  next
    case 3
    then have "cb_inv (cb_setp ppos pend b)" using ol pe N by (intro i) (auto split: if_splits)
    then show ?thesis using 3 ov o by auto
  qed
qed

lemma cb_content_setp: "cb_off b p = cb_off b (cb_pptr b) \<Longrightarrow> cb_content (cb_setp p e b) = cb_content b \<and> cb_rpos (cb_setp p e b) = cb_rpos b"
  by (simp add: cb_content_def cb_size_off cb_rpos_def) (simp add: cb_setp_def)

lemma cb_sputc_ok:
  assumes "cb_inv b"
  shows "cb_sputc c b = (False, b) \<and> cb_freespace b = 0
    \<or> (\<exists>b'. cb_sputc c b = (True, b') \<and> cb_inv b' \<and> cb_content b' = cb_content b @ [c] \<and> cb_rpos b' = cb_rpos b \<and> cb_buf_size b' = cb_buf_size b \<and> cb_begin b' = cb_begin b)"
proof (cases "cb_pptr b < cb_epptr b")
  case True
  then show ?thesis using cb_store_ok [OF assms True] by (auto simp: cb_sputc_def) (simp_all add: cb_store_def)
next
  case False
  then have f: "cb_sputc c b = cb_overflow c b" by (simp add: cb_sputc_def)
  show ?thesis unfolding f using cb_overflow_ok [OF assms, of c]
  proof
    assume "\<exists>p e. cb_overflow c b = (True, cb_store c (cb_setp p e b)) \<and> cb_inv (cb_setp p e b) \<and> p < e \<and> cb_off b p = cb_off b (cb_pptr b)"
    then obtain p e where pe: "cb_overflow c b = (True, cb_store c (cb_setp p e b))" "cb_inv (cb_setp p e b)" "p < e" "cb_off b p = cb_off b (cb_pptr b)" by blast
    have "cb_pptr (cb_setp p e b) < cb_epptr (cb_setp p e b)" using pe(3) by (simp add: cb_setp_def)
    from cb_store_ok [OF pe(2) this, of c] cb_content_setp [OF pe(4), of e] pe(1)
    show "cb_overflow c b = (False, b) \<and> cb_freespace b = 0 \<or> (\<exists>b'. cb_overflow c b = (True, b') \<and> cb_inv b' \<and> cb_content b' = cb_content b @ [c]
        \<and> cb_rpos b' = cb_rpos b \<and> cb_buf_size b' = cb_buf_size b \<and> cb_begin b' = cb_begin b)"
      by auto (simp_all add: cb_store_def cb_setp_def)
  qed blast
qed

lemma cb_sputn_ok:
  assumes "cb_inv b"
  shows "\<exists>b'. cb_sputn s b = (min (length s) (cb_freespace b), b') \<and> cb_inv b' \<and> cb_content b' = cb_content b @ take (cb_freespace b) s
    \<and> cb_rpos b' = cb_rpos b \<and> cb_buf_size b' = cb_buf_size b \<and> cb_begin b' = cb_begin b"
  using assms
proof (induction s arbitrary: b)
  case (Cons c s)
  from cb_sputc_ok [OF Cons.prems, of c] show ?case
  proof
    assume "\<exists>b'. cb_sputc c b = (True, b') \<and> cb_inv b' \<and> cb_content b' = cb_content b @ [c] \<and> cb_rpos b' = cb_rpos b \<and> cb_buf_size b' = cb_buf_size b \<and> cb_begin b' = cb_begin b"
    then obtain b' where b': "cb_sputc c b = (True, b')" "cb_inv b'" "cb_content b' = cb_content b @ [c]" "cb_rpos b' = cb_rpos b"
      "cb_buf_size b' = cb_buf_size b" "cb_begin b' = cb_begin b" by blast
    have "cb_size b' = Suc (cb_size b)" using b'(3) by (metis length_append_singleton length_cb_content)
    then have f: "cb_freespace b = Suc (cb_freespace b')" using cb_freespace_room [OF Cons.prems] cb_freespace_room [OF b'(2)] b'(5) by simp
    show ?thesis using Cons.IH [OF b'(2)] b' f by auto
  qed (use Cons.prems in auto)
qed simp

text \<open>Reading a byte before the end.\<close>

lemma cb_begin_off: "cb_wf b \<Longrightarrow> x < cb_buf_size b \<Longrightarrow> (cb_begin b + cb_off b x) mod cb_buf_size b = x"
  using cb_off_eq [of b x] by (auto simp: cb_wf_def split: if_splits)

lemma cb_get_ok:
  assumes "cb_inv b" "cb_gptr b < cb_egptr b"
  shows "\<exists>b'. cb_get b = (cb_content b ! cb_rpos b, b') \<and> cb_rpos b < cb_size b \<and> cb_inv b' \<and> cb_content b' = cb_content b
    \<and> cb_rpos b' = Suc (cb_rpos b) \<and> cb_buf_size b' = cb_buf_size b \<and> cb_begin b' = cb_begin b"
proof -
  let ?N = "cb_buf_size b"
  have w: "cb_wf b" and o: "cb_off b (cb_gptr b) + (cb_egptr b - cb_gptr b) \<le> cb_off b (cb_pptr b)" "cb_egptr b \<le> ?N" "cb_begin b < ?N"
    "cb_off b (cb_pptr b) < ?N"
    using assms(1) by (auto simp: cb_inv_def cb_wf_def)
  have g: "cb_gptr b < ?N" "cb_rpos b < cb_size b" using assms(2) o by (auto simp: cb_rpos_def cb_size_off)
  have n: "cb_off b (Suc (cb_gptr b)) = Suc (cb_off b (cb_gptr b))"
    using g(1) o assms(2) cb_off_eq [OF w, of "cb_gptr b"] cb_off_eq [OF w, of "Suc (cb_gptr b)"] by (auto split: if_splits)
  have "cb_content b ! cb_rpos b = cb_buffer b ! cb_gptr b"
    using g by (simp add: cb_content_def) (simp add: cb_rpos_def cb_begin_off [OF w])
  moreover have "cb_inv (b\<lparr> cb_gptr := Suc (cb_gptr b) \<rparr>)" using assms n by (simp add: cb_inv_def) auto
  moreover have "cb_content (b\<lparr> cb_gptr := Suc (cb_gptr b) \<rparr>) = cb_content b" by (simp add: cb_content_def cb_size_off)
  ultimately show ?thesis using g n by (simp add: cb_get_def cb_rpos_def)
qed

lemma cb_setg_ok:
  assumes "cb_inv b" "g \<le> e" "e \<le> cb_buf_size b" "cb_off b g + (e - g) \<le> cb_size b"
  shows "cb_inv (cb_setg g e b) \<and> cb_content (cb_setg g e b) = cb_content b \<and> cb_rpos (cb_setg g e b) = cb_off b g
    \<and> cb_buf_size (cb_setg g e b) = cb_buf_size b \<and> cb_begin (cb_setg g e b) = cb_begin b"
proof -
  have "cb_content (cb_setg g e b) = cb_content b" "cb_rpos (cb_setg g e b) = cb_off b g"
    by (simp_all add: cb_content_def cb_size_off cb_rpos_def) (simp_all add: cb_setg_def)
  moreover have "cb_inv (cb_setg g e b)" using assms by (simp add: cb_inv_def cb_size_off) (auto simp: cb_setg_def)
  ultimately show ?thesis by (simp add: cb_setg_def)
qed

lemma cb_underflow_ok:
  assumes "cb_inv b"
  shows "cb_underflow b = (False, b) \<and> cb_rpos b = cb_size b
    \<or> (\<exists>g e. cb_underflow b = (True, cb_setg g e b) \<and> g < e \<and> e \<le> cb_buf_size b \<and> cb_off b g = cb_rpos b \<and> cb_off b g + (e - g) \<le> cb_size b)"
proof -
  let ?N = "cb_buf_size b"
  have w: "cb_wf b" and N: "cb_begin b < ?N" "cb_pptr b \<le> ?N" "cb_gptr b \<le> ?N" "cb_rpos b \<le> cb_size b"
    using assms by (auto simp: cb_inv_def cb_wf_def cb_size_off cb_rpos_def)
  define ppos where "ppos = cb_mask b (int (cb_pptr b))"
  define gpos where "gpos = cb_mask b (int (cb_gptr b))"
  have pp: "ppos = (if cb_pptr b = ?N then 0 else cb_pptr b)" "gpos = (if cb_gptr b = ?N then 0 else cb_gptr b)"
    by (simp_all add: ppos_def gpos_def cb_mask_le [OF w] N)
  have o: "cb_size b = (if cb_begin b \<le> ppos then ppos - cb_begin b else ppos + ?N - cb_begin b)" "ppos < ?N"
    "cb_rpos b = (if cb_begin b \<le> gpos then gpos - cb_begin b else gpos + ?N - cb_begin b)" "gpos < ?N"
    using N pp cb_off_eq [OF w, of "cb_pptr b"] cb_off_eq [OF w, of "cb_gptr b"] by (auto simp: cb_size_off cb_rpos_def split: if_splits)
  have og: "cb_off b gpos = cb_rpos b" using o cb_off_eq [OF w, of gpos] by (auto split: if_splits)
  have uf: "cb_underflow b = (if gpos < ppos then (True, cb_setg gpos ppos b) else if gpos > ppos then (True, cb_setg gpos ?N b) else (False, b))"
    by (simp add: cb_underflow_def Let_def ppos_def gpos_def)
  consider "gpos = ppos" | "gpos < ppos" | "ppos < gpos" by linarith
  then show ?thesis
  proof cases
    case 1
    then show ?thesis using uf o by simp
  next
    case 2
    then have "cb_rpos b + (ppos - gpos) \<le> cb_size b" using o N by (auto split: if_splits)
    then show ?thesis using 2 uf og o(2) by (intro disjI2 exI [of _ gpos] exI [of _ ppos]) auto
  next
    case 3
    then have "cb_rpos b + (?N - gpos) \<le> cb_size b" using o N by (auto split: if_splits)
    then show ?thesis using 3 uf og o(4) by (intro disjI2 exI [of _ gpos] exI [of _ ?N]) auto
  qed
qed

lemma cb_sbumpc_ok:
  assumes "cb_inv b"
  shows "cb_sbumpc b = (None, b) \<and> cb_rpos b = cb_size b
    \<or> (\<exists>b'. cb_sbumpc b = (Some (cb_content b ! cb_rpos b), b') \<and> cb_rpos b < cb_size b \<and> cb_inv b' \<and> cb_content b' = cb_content b
        \<and> cb_rpos b' = Suc (cb_rpos b) \<and> cb_buf_size b' = cb_buf_size b \<and> cb_begin b' = cb_begin b)"
proof (cases "cb_gptr b < cb_egptr b")
  case True
  then show ?thesis using cb_get_ok [OF assms True] by (auto simp: cb_sbumpc_def)
next
  case False
  from cb_underflow_ok [OF assms] show ?thesis
  proof
    assume "\<exists>g e. cb_underflow b = (True, cb_setg g e b) \<and> g < e \<and> e \<le> cb_buf_size b \<and> cb_off b g = cb_rpos b \<and> cb_off b g + (e - g) \<le> cb_size b"
    then obtain g e where u: "cb_underflow b = (True, cb_setg g e b)" "g < e" "e \<le> cb_buf_size b" "cb_off b g = cb_rpos b" "cb_off b g + (e - g) \<le> cb_size b" by blast
    have i: "cb_inv (cb_setg g e b)" "cb_content (cb_setg g e b) = cb_content b" "cb_rpos (cb_setg g e b) = cb_rpos b" "cb_gptr (cb_setg g e b) < cb_egptr (cb_setg g e b)"
      using cb_setg_ok [OF assms less_imp_le [OF u(2)] u(3,5)] u(2,4) by (simp_all add: cb_setg_def)
    have "cb_size (cb_setg g e b) = cb_size b" using i(2) by (metis length_cb_content)
    moreover have "cb_buf_size (cb_setg g e b) = cb_buf_size b" "cb_begin (cb_setg g e b) = cb_begin b" by (simp_all add: cb_setg_def)
    ultimately show ?thesis using cb_get_ok [OF i(1,4)] i False u(1) by (auto simp: cb_sbumpc_def)
  qed (use False in \<open>auto simp: cb_sbumpc_def\<close>)
qed

lemma cb_sgetn_ok:
  assumes "cb_inv b"
  shows "\<exists>b'. cb_sgetn n b = (take n (drop (cb_rpos b) (cb_content b)), b') \<and> cb_inv b' \<and> cb_content b' = cb_content b
    \<and> cb_rpos b' = min (cb_size b) (cb_rpos b + n) \<and> cb_buf_size b' = cb_buf_size b \<and> cb_begin b' = cb_begin b"
  using assms
proof (induction n arbitrary: b)
  case 0
  then show ?case by (auto simp: cb_inv_def cb_rpos_def cb_size_off)
next
  case (Suc n)
  from cb_sbumpc_ok [OF Suc.prems] show ?case
  proof
    assume "\<exists>b'. cb_sbumpc b = (Some (cb_content b ! cb_rpos b), b') \<and> cb_rpos b < cb_size b \<and> cb_inv b' \<and> cb_content b' = cb_content b
        \<and> cb_rpos b' = Suc (cb_rpos b) \<and> cb_buf_size b' = cb_buf_size b \<and> cb_begin b' = cb_begin b"
    then obtain b' where b': "cb_sbumpc b = (Some (cb_content b ! cb_rpos b), b')" "cb_rpos b < cb_size b" "cb_inv b'" "cb_content b' = cb_content b"
      "cb_rpos b' = Suc (cb_rpos b)" "cb_buf_size b' = cb_buf_size b" "cb_begin b' = cb_begin b" by blast
    have "cb_size b' = cb_size b" using b'(4) by (metis length_cb_content)
    moreover have "drop (cb_rpos b) (cb_content b) = cb_content b ! cb_rpos b # drop (Suc (cb_rpos b)) (cb_content b)"
      using b'(2) by (metis Cons_nth_drop_Suc length_cb_content)
    ultimately show ?thesis using Suc.IH [OF b'(3)] b' by auto
  qed (use Suc.prems in auto)
qed

text \<open>Moving the reading position.\<close>

lemma cb_seekpos_ok:
  assumes "cb_inv b"
  shows "if cb_off b (cb_mask b pos) \<le> cb_size b
    then \<exists>b'. cb_seekpos pos b = (Some (cb_mask b pos), b') \<and> cb_inv b' \<and> cb_content b' = cb_content b \<and> cb_rpos b' = cb_off b (cb_mask b pos)
      \<and> cb_buf_size b' = cb_buf_size b \<and> cb_begin b' = cb_begin b
    else cb_seekpos pos b = (None, b)"
proof -
  let ?N = "cb_buf_size b"
  have w: "cb_wf b" and N: "cb_begin b < ?N" "8 \<le> ?N" "cb_pptr b \<le> ?N" using assms cb_wf_big [of b] by (auto simp: cb_inv_def cb_wf_def)
  define ppos where "ppos = cb_mask b (int (cb_pptr b))"
  define gpos where "gpos = cb_mask b pos"
  have pp: "ppos = (if cb_pptr b = ?N then 0 else cb_pptr b)" by (simp add: ppos_def cb_mask_le [OF w] N)
  have "gpos < ?N" using N(2) by (simp add: gpos_def cb_mask_mod [OF w] nat_less_iff)
  then have o: "cb_size b = (if cb_begin b \<le> ppos then ppos - cb_begin b else ppos + ?N - cb_begin b)" "ppos < ?N"
    "cb_off b gpos = (if cb_begin b \<le> gpos then gpos - cb_begin b else gpos + ?N - cb_begin b)" "gpos < ?N"
    using N pp cb_off_eq [OF w, of "cb_pptr b"] cb_off_eq [OF w, of gpos] by (auto simp: cb_size_off split: if_splits)
  have sp: "cb_seekpos pos b = (if (ppos \<ge> cb_begin b \<and> (gpos \<ge> cb_begin b \<and> gpos \<le> ppos)) \<or> (ppos < cb_begin b \<and> (gpos \<ge> cb_begin b \<or> gpos \<le> ppos))
      then (Some gpos, if gpos \<le> ppos then cb_setg gpos ppos b else cb_setg gpos ?N b) else (None, b))"
    by (simp add: cb_seekpos_def Let_def ppos_def gpos_def)
  have v: "((ppos \<ge> cb_begin b \<and> (gpos \<ge> cb_begin b \<and> gpos \<le> ppos)) \<or> (ppos < cb_begin b \<and> (gpos \<ge> cb_begin b \<or> gpos \<le> ppos))) \<longleftrightarrow> cb_off b gpos \<le> cb_size b"
    using o N by (auto split: if_splits)
  show ?thesis
  proof (cases "cb_off b gpos \<le> cb_size b")
    case True
    have "cb_off b gpos + (ppos - gpos) \<le> cb_size b" if "gpos \<le> ppos" using True that o N by (auto split: if_splits)
    moreover have "cb_off b gpos + (?N - gpos) \<le> cb_size b" if "\<not> gpos \<le> ppos" using True that o N by (auto split: if_splits)
    ultimately show ?thesis using True sp v cb_setg_ok [OF assms, of gpos ppos] cb_setg_ok [OF assms, of gpos ?N] o by (auto simp: gpos_def)
  qed (use sp v in \<open>simp add: gpos_def\<close>)
qed

text \<open>Dropping the oldest bytes.\<close>

lemma cb_off_begin:
  assumes "cb_wf b" "x \<le> cb_buf_size b" "n < cb_buf_size b"
  shows "cb_off (b\<lparr> cb_begin := cb_mask b (int (cb_begin b + n)) \<rparr>) x = (if n \<le> cb_off b x then cb_off b x - n else cb_off b x + cb_buf_size b - n)"
proof -
  let ?N = "cb_buf_size b" and ?b = "b\<lparr> cb_begin := cb_mask b (int (cb_begin b + n)) \<rparr>"
  have N: "cb_begin b < ?N" using assms(1) by (simp add: cb_wf_def)
  have m: "cb_mask b (int (cb_begin b + n)) = (if cb_begin b + n < ?N then cb_begin b + n else cb_begin b + n - ?N)"
    using N assms(3) by (subst cb_mask_nat [OF assms(1)], subst mod_wrap) auto
  have w: "cb_wf ?b" using assms(1,3) N by (auto simp: cb_wf_def m [simplified])
  define B where "B = cb_begin ?b"
  have B: "B = (if cb_begin b + n < ?N then cb_begin b + n else cb_begin b + n - ?N)" by (simp add: B_def m [simplified])
  have "cb_off ?b x = (if x = ?N then if B = 0 then 0 else ?N - B else if B \<le> x then x - B else x + ?N - B)"
    using cb_off_eq [OF w, of x] assms(2) unfolding B_def by simp
  moreover note cb_off_eq [OF assms(1,2)]
  ultimately show ?thesis using B assms(2,3) N by (cases "cb_begin b + n < ?N"; cases "x = ?N"; cases "cb_begin b \<le> x"; cases "B \<le> x") auto
qed

lemma cb_begin_ok:
  assumes "cb_inv b" "n \<le> cb_size b"
  defines "b' \<equiv> b\<lparr> cb_begin := cb_mask b (int (cb_begin b + n)) \<rparr>"
  shows "cb_wf b' \<and> cb_size b' = cb_size b - n \<and> cb_content b' = drop n (cb_content b)"
proof -
  let ?N = "cb_buf_size b"
  have w: "cb_wf b" and N: "cb_begin b < ?N" "cb_size b < ?N" "cb_pptr b \<le> ?N" using assms(1) by (auto simp: cb_inv_def cb_wf_def cb_size_off)
  have b: "cb_begin b' = (cb_begin b + n) mod ?N" "cb_buf_size b' = ?N" "cb_buffer b' = cb_buffer b" "cb_pptr b' = cb_pptr b"
    by (simp_all add: b'_def cb_mask_nat [OF w, of "cb_begin b + n", simplified])
  have "cb_wf b'" using w N by (simp add: cb_wf_def b)
  moreover have s: "cb_size b' = cb_size b - n"
    using cb_off_begin [OF w N(3), of n] assms(2) N(2) by (simp add: cb_size_off b(4)) (simp add: b'_def)
  moreover have "cb_content b' = drop n (cb_content b)"
  proof (rule nth_equalityI)
    fix i assume "i < length (cb_content b')"
    then have "n + i < cb_size b" "i < cb_size b'" using s assms(2) by auto
    then show "cb_content b' ! i = drop n (cb_content b) ! i" using assms(2) by (simp add: cb_content_def b mod_add_left_eq add.assoc)
  qed (simp add: s)
  ultimately show ?thesis by simp
qed

text \<open>The new place of the oldest byte, and what \<^verbatim>\<open>consume\<close> makes of the get area.\<close>

definition cb_dropped :: "nat \<Rightarrow> circularbuf \<Rightarrow> circularbuf" where
  "cb_dropped n b = b\<lparr> cb_begin := cb_mask b (int (cb_begin b + min n (cb_size b))) \<rparr>"

lemma cb_dropped_fields [simp]:
  "cb_buf_size (cb_dropped n b) = cb_buf_size b" "cb_pptr (cb_dropped n b) = cb_pptr b" "cb_gptr (cb_dropped n b) = cb_gptr b"
  "cb_epptr (cb_dropped n b) = cb_epptr b" "cb_egptr (cb_dropped n b) = cb_egptr b"
  by (simp_all add: cb_dropped_def)

lemma cb_dropped_ok:
  assumes "cb_inv b"
  shows "cb_wf (cb_dropped n b)" "cb_size (cb_dropped n b) = cb_size b - min n (cb_size b)" "cb_content (cb_dropped n b) = drop n (cb_content b)"
    "cb_off (cb_dropped n b) (cb_gptr b) = (if min n (cb_size b) \<le> cb_rpos b then cb_rpos b - min n (cb_size b) else cb_rpos b + cb_buf_size b - min n (cb_size b))"
    "cb_begin (cb_dropped n b) = (cb_begin b + min n (cb_size b)) mod cb_buf_size b"
proof -
  have w: "cb_wf b" and N: "cb_size b < cb_buf_size b" "cb_gptr b \<le> cb_buf_size b" using assms by (auto simp: cb_inv_def cb_wf_def cb_size_off cb_rpos_def)
  have d: "drop (min n (cb_size b)) (cb_content b) = drop n (cb_content b)" by (simp add: min_def)
  show "cb_wf (cb_dropped n b)" "cb_size (cb_dropped n b) = cb_size b - min n (cb_size b)" "cb_content (cb_dropped n b) = drop n (cb_content b)"
    using cb_begin_ok [OF assms, of "min n (cb_size b)"] d by (simp_all add: cb_dropped_def)
  show "cb_off (cb_dropped n b) (cb_gptr b) = (if min n (cb_size b) \<le> cb_rpos b then cb_rpos b - min n (cb_size b) else cb_rpos b + cb_buf_size b - min n (cb_size b))"
    using cb_off_begin [OF w N(2), of "min n (cb_size b)"] N(1) by (simp add: cb_dropped_def cb_rpos_def)
  show "cb_begin (cb_dropped n b) = (cb_begin b + min n (cb_size b)) mod cb_buf_size b"
    by (simp add: cb_dropped_def cb_mask_nat [OF w, of "cb_begin b + min n (cb_size b)", simplified])
qed

lemma cb_putpos_ok:
  assumes "cb_inv b"
  shows "cb_putpos b = (cb_begin b + cb_size b) mod cb_buf_size b" "cb_putpos b < cb_buf_size b"
    "cb_wf b' \<Longrightarrow> cb_buf_size b' = cb_buf_size b \<Longrightarrow> cb_off b' (cb_putpos b) = cb_off b' (cb_pptr b)"
proof -
  have w: "cb_wf b" and p: "cb_pptr b = cb_buf_size b \<or> cb_pptr b < cb_buf_size b" "0 < cb_buf_size b" using assms cb_wf_big [of b] by (auto simp: cb_inv_def)
  have e: "cb_putpos b = (if cb_pptr b = cb_buf_size b then 0 else cb_pptr b)" unfolding cb_putpos_def by (rule cb_mask_le [OF w]) (use p in auto)
  show "cb_putpos b = (cb_begin b + cb_size b) mod cb_buf_size b" "cb_putpos b < cb_buf_size b"
    using p cb_begin_off [OF w, of "cb_putpos b"] cb_off_end [OF w] by (auto simp: e cb_size_off split: if_splits)
  show "cb_off b' (cb_putpos b) = cb_off b' (cb_pptr b)" if "cb_wf b'" "cb_buf_size b' = cb_buf_size b" using cb_off_end [OF that(1)] that(2) by (simp add: e)
qed

lemma cb_consume_eq:
  fixes n :: nat
  assumes "cb_inv b"
  defines "b' \<equiv> cb_dropped n b"
  shows "cb_consume n b = (if cb_rpos b < min n (cb_size b)
    then cb_setg (cb_begin b') (if cb_begin b' \<le> cb_putpos b then cb_putpos b else cb_buf_size b) b' else b')"
proof -
  let ?N = "cb_buf_size b" and ?n = "min n (cb_size b)" and ?p = "cb_putpos b"
  have w: "cb_wf b" and N: "cb_gptr b \<le> ?N" "cb_size b < ?N" "cb_rpos b \<le> cb_size b" using assms by (auto simp: cb_inv_def cb_size_off cb_rpos_def)
  note d = cb_dropped_ok [OF assms(1), of n, folded b'_def] and p = cb_putpos_ok [OF assms(1)]
  have f: "cb_buf_size b' = ?N" "cb_begin b' < ?N" using d(1) by (simp_all add: b'_def cb_wf_def)
  define gpos where "gpos = cb_mask b (int (cb_gptr b))"
  have g: "gpos = (if cb_gptr b = ?N then 0 else cb_gptr b)" unfolding gpos_def by (rule cb_mask_le [OF w N(1)])
  have gl: "gpos < ?N" using N f(2) by (simp add: g)
  have e: "(if n \<ge> cb_size b then ?p else cb_mask b (int (cb_begin b + n))) = cb_begin b'"
    unfolding d(5) by (cases "n \<ge> cb_size b") (simp_all add: p(1) min_def cb_mask_nat [OF w, of "cb_begin b + n", simplified])
  have o: "cb_off b' ?p = cb_size b - ?n" "cb_off b' gpos = cb_off b' (cb_gptr b)"
    using p(3) [OF d(1) f(1)] d(2) cb_off_end [OF d(1)] f(1) by (auto simp: g cb_size_off b'_def)
  have x: "cb_off b' ?p = (if cb_begin b' \<le> ?p then ?p - cb_begin b' else ?p + ?N - cb_begin b')"
    "cb_off b' gpos = (if cb_begin b' \<le> gpos then gpos - cb_begin b' else gpos + ?N - cb_begin b')"
    using cb_off_eq [OF d(1), of ?p] cb_off_eq [OF d(1), of gpos] p(2) gl f(1) by simp_all
  have "((?p \<ge> cb_begin b' \<and> (gpos < cb_begin b' \<or> gpos > ?p)) \<or> (?p < cb_begin b' \<and> (gpos < cb_begin b' \<and> gpos > ?p))) \<longleftrightarrow> cb_off b' ?p < cb_off b' gpos"
    unfolding x using p(2) gl f(2) by auto
  also have "\<dots> \<longleftrightarrow> cb_rpos b < ?n" unfolding o d(4) using N by auto
  finally have c: "((?p \<ge> cb_begin b' \<and> (gpos < cb_begin b' \<or> gpos > ?p)) \<or> (?p < cb_begin b' \<and> (gpos < cb_begin b' \<and> gpos > ?p))) \<longleftrightarrow> cb_rpos b < ?n" .
  have up: "b\<lparr> cb_begin := cb_begin b' \<rparr> = b'" by (simp add: b'_def cb_dropped_def)
  have "cb_consume n b = (if (?p \<ge> cb_begin b' \<and> (gpos < cb_begin b' \<or> gpos > ?p)) \<or> (?p < cb_begin b' \<and> (gpos < cb_begin b' \<and> gpos > ?p))
      then if cb_begin b' \<le> ?p then cb_setg (cb_begin b') ?p b' else cb_setg (cb_begin b') ?N b' else b')"
    unfolding cb_consume_def Let_def cb_putpos_def [symmetric] gpos_def [symmetric] e up ..
  then show ?thesis unfolding c by simp
qed

lemma cb_consume_ok:
  assumes "cb_inv b"
  shows "cb_inv (cb_consume n b) \<and> cb_content (cb_consume n b) = drop n (cb_content b) \<and> cb_rpos (cb_consume n b) = cb_rpos b - n
    \<and> cb_buf_size (cb_consume n b) = cb_buf_size b \<and> cb_begin (cb_consume n b) = (cb_begin b + min n (cb_size b)) mod cb_buf_size b"
proof -
  let ?N = "cb_buf_size b" and ?n = "min n (cb_size b)"
  define b' where "b' = cb_dropped n b"
  define e where "e = (if cb_begin b' \<le> cb_putpos b then cb_putpos b else ?N)"
  note d = cb_dropped_ok [OF assms, of n, folded b'_def] and con = cb_consume_eq [OF assms, of n, folded b'_def, folded e_def]
  have f: "cb_buf_size b' = ?N" "cb_pptr b' = cb_pptr b" "cb_gptr b' = cb_gptr b" "cb_epptr b' = cb_epptr b" "cb_egptr b' = cb_egptr b" "cb_begin b' < ?N"
    using d(1) by (simp_all add: b'_def cb_wf_def)
  have p: "cb_pptr b \<le> cb_epptr b" "cb_epptr b \<le> ?N" "cb_size b' + (cb_epptr b - cb_pptr b) < ?N"
    "cb_gptr b \<le> cb_egptr b" "cb_egptr b \<le> ?N" "cb_rpos b + (cb_egptr b - cb_gptr b) \<le> cb_size b"
    using assms d(2) by (auto simp: cb_inv_def cb_size_off cb_rpos_def)
  show ?thesis
  proof (cases "cb_rpos b < ?n")
    case True
    have "cb_off b' (cb_begin b') = 0" "cb_size b' = (if cb_begin b' \<le> cb_putpos b then cb_putpos b - cb_begin b' else cb_putpos b + ?N - cb_begin b')"
      using cb_off_eq [OF d(1), of "cb_begin b'"] cb_off_eq [OF d(1), of "cb_putpos b"] cb_putpos_ok(2) [OF assms] cb_putpos_ok(3) [OF assms d(1) f(1)] f by (simp_all add: cb_size_off)
    then have g: "cb_off b' (cb_begin b') = 0" "e - cb_begin b' \<le> cb_size b'" "cb_begin b' \<le> e" "e \<le> ?N"
      using f(6) cb_putpos_ok(2) [OF assms] by (auto simp: e_def)
    have "cb_inv (cb_setg (cb_begin b') e b')"
      using d(1) p(1-3) g f by (simp add: cb_inv_def cb_size_off) (simp add: cb_setg_def f)
    moreover have "cb_content (cb_setg (cb_begin b') e b') = cb_content b'" "cb_rpos (cb_setg (cb_begin b') e b') = 0" "cb_begin (cb_setg (cb_begin b') e b') = cb_begin b'"
      using g(1) by (simp_all add: cb_content_def cb_size_off cb_rpos_def) (simp_all add: cb_setg_def)
    moreover have "cb_consume n b = cb_setg (cb_begin b') e b'" using con True by (simp only: if_True)
    moreover have "cb_buf_size (cb_setg (cb_begin b') e b') = ?N" by (simp add: cb_setg_def f)
    ultimately show ?thesis using True d by simp
  next
    case False
    then have le: "?n \<le> cb_rpos b" by linarith
    then have og: "cb_off b' (cb_gptr b) = cb_rpos b - ?n" using d(4) by (simp only: if_True)
    have "cb_off b' (cb_gptr b) + (cb_egptr b - cb_gptr b) \<le> cb_size b'" unfolding og d(2) using p(6) le by linarith
    then have "cb_inv b'" using d(1) p by (simp add: cb_inv_def f cb_size_off)
    moreover have "cb_rpos b' = cb_rpos b - n" using og p(6) by (simp add: cb_rpos_def f min_def split: if_splits)
    moreover have "cb_consume n b = b'" using con False by (simp only: if_False)
    ultimately show ?thesis using d f by simp
  qed
qed

section \<open>Runs of operations\<close>

text \<open>
  The operations a client of the buffer calls, with their results, on the buffer and on a queue of
  bytes.  The queue keeps the place of its oldest byte in the buffer, the bytes, and the position of
  the reader behind the oldest byte.
\<close>

datatype ring_op = RingPut "u8 list" | RingGet nat | RingSeek nat | RingConsume nat

datatype ring_out = RingCount nat | RingBytes "u8 list" | RingFound bool | RingDone

fun ring_exec :: "ring_op \<Rightarrow> circularbuf \<Rightarrow> ring_out \<times> circularbuf" where
  "ring_exec (RingPut s) b = map_prod RingCount id (cb_sputn s b)"
| "ring_exec (RingGet n) b = map_prod RingBytes id (cb_sgetn n b)"
| "ring_exec (RingSeek p) b = map_prod (\<lambda>r. RingFound (r \<noteq> None)) id (cb_seekpos (int p) b)"
| "ring_exec (RingConsume n) b = (RingDone, cb_consume n b)"

fun queue_exec :: "nat \<Rightarrow> ring_op \<Rightarrow> nat \<times> u8 list \<times> nat \<Rightarrow> ring_out \<times> nat \<times> u8 list \<times> nat" where
  "queue_exec n (RingPut s) (base, q, r) = (let k = n - length q - 1 in (RingCount (min (length s) k), base, q @ take k s, r))"
| "queue_exec n (RingGet k) (base, q, r) = (RingBytes (take k (drop r q)), base, q, min (length q) (r + k))"
| "queue_exec n (RingSeek p) (base, q, r) = (let k = (p mod n + n - base) mod n in if k \<le> length q then (RingFound True, base, q, k) else (RingFound False, base, q, r))"
| "queue_exec n (RingConsume k) (base, q, r) = (RingDone, (base + min k (length q)) mod n, drop k q, r - k)"

fun run_ops :: "('o \<Rightarrow> 's \<Rightarrow> 'r \<times> 's) \<Rightarrow> 'o list \<Rightarrow> 's \<Rightarrow> 'r list" where
  "run_ops ex [] s = []"
| "run_ops ex (x # xs) s = (case ex x s of (r, s') \<Rightarrow> r # run_ops ex xs s')"

definition ring_abs :: "circularbuf \<Rightarrow> nat \<times> u8 list \<times> nat" where
  "ring_abs b = (cb_begin b, cb_content b, cb_rpos b)"

lemma ring_exec_ok:
  assumes "cb_inv b"
  shows "\<exists>b'. ring_exec x b = (fst (queue_exec (cb_buf_size b) x (ring_abs b)), b') \<and> cb_inv b' \<and> cb_buf_size b' = cb_buf_size b
    \<and> ring_abs b' = snd (queue_exec (cb_buf_size b) x (ring_abs b))"
proof (cases x)
  case (RingPut s)
  then show ?thesis using cb_sputn_ok [OF assms, of s] by (auto simp: ring_abs_def cb_freespace_def Let_def)
next
  case (RingGet n)
  then show ?thesis using cb_sgetn_ok [OF assms, of n] by (auto simp: ring_abs_def)
next
  case (RingSeek p)
  have w: "cb_wf b" using assms by (simp add: cb_inv_def)
  have "cb_off b (cb_mask b (int p)) = (p mod cb_buf_size b + cb_buf_size b - cb_begin b) mod cb_buf_size b"
    by (simp add: cb_off_mod [OF w] cb_mask_nat [OF w])
  then show ?thesis using RingSeek cb_seekpos_ok [OF assms, of "int p"] assms by (auto simp: ring_abs_def Let_def split: if_splits)
next
  case (RingConsume n)
  then show ?thesis using cb_consume_ok [OF assms, of n] by (simp add: ring_abs_def)
qed

lemma run_ops_ring: "cb_inv b \<Longrightarrow> run_ops ring_exec xs b = run_ops (queue_exec (cb_buf_size b)) xs (ring_abs b)"
proof (induction xs arbitrary: b)
  case (Cons x xs)
  from ring_exec_ok [OF Cons.prems, of x] Cons.IH show ?case by (auto simp: case_prod_unfold)
qed simp

lemma cb_grow_power: "\<exists>j\<ge>k. cb_grow m (2 ^ k) = 2 ^ j"
proof (induction "m - 2 ^ k" arbitrary: k rule: less_induct)
  case less
  show ?case
  proof (cases "2 ^ k < m")
    case True
    then have "m - 2 ^ Suc k < m - 2 ^ k" using zero_less_power [of "2 :: nat" k] unfolding power_Suc by linarith
    from less [OF this] obtain j where "j \<ge> Suc k" "cb_grow m (2 ^ Suc k) = 2 ^ j" by blast
    then show ?thesis using True by (subst cb_grow.simps) (auto intro: exI [of _ j])
  qed (auto simp: cb_grow.simps)
qed

lemma cb_new_inv: "cb_inv (cb_new m)" "cb_buf_size (cb_new m) = cb_grow m CB_MIN_SIZE" "ring_abs (cb_new m) = (0, [], 0)"
proof -
  obtain j where j: "j \<ge> 3" "cb_grow m CB_MIN_SIZE = 2 ^ j" using cb_grow_power [of 3 m] by (auto simp: CB_MIN_SIZE_def)
  then have w: "cb_wf (cb_new m)" by (auto simp: cb_wf_def cb_new_def Let_def)
  have o: "cb_off (cb_new m) 0 = 0" using cb_off_eq [OF w, of 0] by (simp add: cb_new_def Let_def)
  show "cb_inv (cb_new m)" using w o j by (simp add: cb_inv_def) (simp add: cb_new_def Let_def o)
  show "cb_buf_size (cb_new m) = cb_grow m CB_MIN_SIZE" by (simp add: cb_new_def Let_def)
  have "cb_size (cb_new m) = 0" "cb_rpos (cb_new m) = 0" using o by (simp_all add: cb_size_off cb_rpos_def) (simp_all add: cb_new_def Let_def)
  then show "ring_abs (cb_new m) = (0, [], 0)" by (simp add: ring_abs_def cb_content_def) (simp add: cb_new_def Let_def)
qed

text \<open>
  C13: the circular buffer is a queue.  However writes, reads, seeks and consumption follow one another
  on a new buffer, each returns what it returns on a queue of bytes with a reading position: a write
  appends as many bytes as there is room for, a read returns the bytes behind the position, a seek finds
  exactly the positions that are still held, and consuming drops the oldest bytes.
\<close>

theorem circularbuf_refines_queue:
  "run_ops ring_exec xs (cb_new m) = run_ops (queue_exec (cb_grow m CB_MIN_SIZE)) xs (0, [], 0)"
  using run_ops_ring [OF cb_new_inv(1)] by (simp add: cb_new_inv)

section \<open>CCircularStream\<close>

text \<open>
  The stream over the buffer.  \<^verbatim>\<open>ios.write\<close> and \<^verbatim>\<open>ios.read\<close> do nothing on a stream in an error state and
  enter that state where they cannot transfer every byte; \<^verbatim>\<open>CStream::Read\<close> then throws.  An object is read
  by a sequence of reads; where one of them throws, the bytes up to the end have been taken.
\<close>

record CCircularStream =
  cs_buf :: circularbuf
  cs_good :: bool

definition cs_Write :: "u8 list \<Rightarrow> CCircularStream \<Rightarrow> CCircularStream" where
  "cs_Write bs s = (if cs_good s then (case cb_sputn bs (cs_buf s) of (n, b) \<Rightarrow> \<lparr> cs_buf = b, cs_good = (n = length bs) \<rparr>) else s)"

definition cs_Read :: "nat \<Rightarrow> CCircularStream \<Rightarrow> (stream_error + u8 list) \<times> CCircularStream" where
  "cs_Read n s =
     (if cs_good s then (case cb_sgetn n (cs_buf s) of (bs, b) \<Rightarrow>
        (if length bs = n then Inr bs else Inl StreamReadError, \<lparr> cs_buf = b, cs_good = (length bs = n) \<rparr>))
      else (if n = 0 then Inr [] else Inl StreamReadError, s))"

definition cs_Load :: "'a reader \<Rightarrow> CCircularStream \<Rightarrow> (stream_error + 'a) \<times> CCircularStream" where
  "cs_Load ld s =
     (if cs_good s then
        (let bs = fst (cb_sgetn (cb_showmanyc (cs_buf s)) (cs_buf s)) in
         case ld bs of
           Inl e \<Rightarrow> (Inl e, \<lparr> cs_buf = snd (cb_sgetn (length bs) (cs_buf s)), cs_good = False \<rparr>)
         | Inr (x, rest) \<Rightarrow> (Inr x, snd (cs_Read (length bs - length rest) s)))
      else (Inl StreamReadError, s))"

definition cs_Clear :: "CCircularStream \<Rightarrow> CCircularStream" where
  "cs_Clear s = \<lparr> cs_buf = cb_consume (cb_size (cs_buf s)) (cs_buf s), cs_good = True \<rparr>"

definition cs_Seek :: "nat \<Rightarrow> CCircularStream \<Rightarrow> bool \<times> CCircularStream" where
  "cs_Seek nPos s = (case cb_seekpos (int nPos) (cs_buf s) of (r, b) \<Rightarrow> (r \<noteq> None, \<lparr> cs_buf = b, cs_good = True \<rparr>))"

definition cs_Rewind :: "CCircularStream \<Rightarrow> CCircularStream" where
  "cs_Rewind s = \<lparr> cs_buf = snd (cb_seekoff 0 SeekBeg (cs_buf s)), cs_good = True \<rparr>"

definition cs_Consume :: "nat \<Rightarrow> CCircularStream \<Rightarrow> CCircularStream" where
  "cs_Consume n s = s\<lparr> cs_buf := cb_consume n (cs_buf s) \<rparr>"

abbreviation cs_content :: "CCircularStream \<Rightarrow> u8 list" where "cs_content s \<equiv> cb_content (cs_buf s)"
abbreviation cs_rpos :: "CCircularStream \<Rightarrow> nat" where "cs_rpos s \<equiv> cb_rpos (cs_buf s)"
abbreviation cs_begin :: "CCircularStream \<Rightarrow> nat" where "cs_begin s \<equiv> cb_begin (cs_buf s)"
abbreviation cs_cap :: "CCircularStream \<Rightarrow> nat" where "cs_cap s \<equiv> cb_buf_size (cs_buf s)"

definition cs_inv :: "CCircularStream \<Rightarrow> bool" where
  "cs_inv s \<longleftrightarrow> cb_inv (cs_buf s)"

lemma cb_showmanyc_ok: "cb_inv b \<Longrightarrow> cb_showmanyc b = cb_size b - cb_rpos b"
proof -
  assume i: "cb_inv b"
  then have w: "cb_wf b" and p: "cb_pptr b \<le> cb_buf_size b" "cb_gptr b \<le> cb_buf_size b" "cb_rpos b \<le> cb_size b" "cb_size b < cb_buf_size b" "cb_begin b < cb_buf_size b"
    by (auto simp: cb_inv_def cb_wf_def cb_rpos_def cb_size_off)
  have m: "int (cb_off b x) mod int (cb_buf_size b) = (int x - int (cb_begin b)) mod int (cb_buf_size b)" for x
    using p(5) by (simp add: cb_off_def cb_mask_mod [OF w])
  have "(int (cb_pptr b) - int (cb_gptr b)) mod int (cb_buf_size b)
      = ((int (cb_pptr b) - int (cb_begin b)) mod int (cb_buf_size b) - (int (cb_gptr b) - int (cb_begin b)) mod int (cb_buf_size b)) mod int (cb_buf_size b)"
    by (simp add: mod_diff_eq)
  also have "\<dots> = (int (cb_size b) - int (cb_rpos b)) mod int (cb_buf_size b)"
    unfolding m [symmetric] cb_size_off cb_rpos_def by (simp add: mod_diff_eq)
  also have "\<dots> = int (cb_size b - cb_rpos b)" using p(3,4) by (simp add: of_nat_diff)
  finally show ?thesis by (simp add: cb_showmanyc_def cb_mask_mod [OF w])
qed

lemma cs_Write_ok:
  assumes "cs_inv s" "cs_good s" "length bs \<le> cb_freespace (cs_buf s)"
  shows "cs_inv (cs_Write bs s) \<and> cs_good (cs_Write bs s) \<and> cs_content (cs_Write bs s) = cs_content s @ bs \<and> cs_rpos (cs_Write bs s) = cs_rpos s
    \<and> cs_begin (cs_Write bs s) = cs_begin s \<and> cs_cap (cs_Write bs s) = cs_cap s"
  using cb_sputn_ok [of "cs_buf s" bs] assms by (auto simp: cs_inv_def cs_Write_def)

lemma cs_Load_ok:
  assumes "cs_inv s" "cs_good s" "ld (drop (cs_rpos s) (cs_content s)) = Inr (x, rest)" "length rest \<le> length (cs_content s) - cs_rpos s"
  shows "\<exists>s'. cs_Load ld s = (Inr x, s') \<and> cs_inv s' \<and> cs_good s' \<and> cs_content s' = cs_content s
    \<and> cs_rpos s' = cs_rpos s + (length (cs_content s) - cs_rpos s - length rest) \<and> cs_begin s' = cs_begin s \<and> cs_cap s' = cs_cap s"
proof -
  let ?b = "cs_buf s" and ?n = "cb_size (cs_buf s) - cs_rpos s - length rest"
  have i: "cb_inv ?b" using assms(1) by (simp add: cs_inv_def)
  have r: "cb_rpos ?b \<le> cb_size ?b" using i by (auto simp: cb_inv_def cb_rpos_def cb_size_off)
  have bs: "fst (cb_sgetn (cb_showmanyc ?b) ?b) = drop (cs_rpos s) (cs_content s)"
    using cb_sgetn_ok [OF i, of "cb_showmanyc ?b"] by (auto simp: cb_showmanyc_ok [OF i])
  have "cs_Load ld s = (Inr x, snd (cs_Read ?n s))" using assms(2,3) by (simp add: cs_Load_def bs)
  then show ?thesis using cb_sgetn_ok [OF i, of ?n] assms(2,4) r by (auto simp: cs_Read_def cs_inv_def)
qed

lemma cs_Load_short:
  assumes "cs_inv s" "cs_good s" "ld (drop (cs_rpos s) (cs_content s)) = Inl e"
  shows "\<exists>s'. cs_Load ld s = (Inl e, s') \<and> cs_inv s' \<and> cs_content s' = cs_content s \<and> cs_begin s' = cs_begin s \<and> cs_cap s' = cs_cap s"
proof -
  let ?b = "cs_buf s"
  have i: "cb_inv ?b" using assms(1) by (simp add: cs_inv_def)
  have bs: "fst (cb_sgetn (cb_showmanyc ?b) ?b) = drop (cs_rpos s) (cs_content s)"
    using cb_sgetn_ok [OF i, of "cb_showmanyc ?b"] by (auto simp: cb_showmanyc_ok [OF i])
  then show ?thesis using assms(2,3) cb_sgetn_ok [OF i, of "cb_size ?b - cs_rpos s"] by (auto simp: cs_Load_def cs_inv_def)
qed

lemma cs_Clear_ok: "cs_inv s \<Longrightarrow> cs_inv (cs_Clear s) \<and> cs_good (cs_Clear s) \<and> cs_content (cs_Clear s) = [] \<and> cs_cap (cs_Clear s) = cs_cap s"
  using cb_consume_ok [of "cs_buf s" "cb_size (cs_buf s)"] by (simp add: cs_inv_def cs_Clear_def)

lemma cs_Consume_ok:
  assumes "cs_inv s"
  shows "cs_inv (cs_Consume n s) \<and> cs_good (cs_Consume n s) = cs_good s \<and> cs_content (cs_Consume n s) = drop n (cs_content s)
    \<and> cs_begin (cs_Consume n s) = (cs_begin s + min n (length (cs_content s))) mod cs_cap s \<and> cs_cap (cs_Consume n s) = cs_cap s"
  using cb_consume_ok [of "cs_buf s" n] assms by (simp add: cs_inv_def cs_Consume_def)

lemma cs_Seek_ok:
  assumes "cs_inv s" "k \<le> length (cs_content s)"
  shows "\<exists>s'. cs_Seek ((cs_begin s + k) mod cs_cap s) s = (True, s') \<and> cs_inv s' \<and> cs_good s' \<and> cs_content s' = cs_content s \<and> cs_rpos s' = k
    \<and> cs_begin s' = cs_begin s \<and> cs_cap s' = cs_cap s"
proof -
  let ?b = "cs_buf s" and ?p = "(cs_begin s + k) mod cs_cap s"
  have i: "cb_inv ?b" using assms(1) by (simp add: cs_inv_def)
  then have w: "cb_wf ?b" and N: "cb_begin ?b < cb_buf_size ?b" "cb_size ?b < cb_buf_size ?b" by (auto simp: cb_inv_def cb_wf_def cb_size_off)
  have k: "k < cs_cap s" using assms(2) N by simp
  have p: "?p < cs_cap s" "cb_mask ?b (int ?p) = ?p" using N(1) by (simp_all add: cb_mask_nat [OF w, of ?p, simplified])
  have "cb_off ?b ?p = k"
    using cb_off_eq [OF w, of ?p] p(1) N(1) k mod_wrap [of "cs_begin s + k" "cs_cap s"] by (auto split: if_splits)
  then show ?thesis using cb_seekpos_ok [OF i, of "int ?p"] assms(2) p(2) by (auto simp: cs_Seek_def cs_inv_def)
qed

lemma cs_Rewind_ok:
  assumes "cs_inv s"
  shows "cs_inv (cs_Rewind s) \<and> cs_good (cs_Rewind s) \<and> cs_content (cs_Rewind s) = cs_content s \<and> cs_rpos (cs_Rewind s) = 0
    \<and> cs_begin (cs_Rewind s) = cs_begin s \<and> cs_cap (cs_Rewind s) = cs_cap s"
proof -
  have w: "cb_wf (cs_buf s)" "cs_begin s < cs_cap s" using assms by (auto simp: cs_inv_def cb_inv_def cb_wf_def)
  then have "cs_Rewind s = snd (cs_Seek (cs_begin s) s)"
    by (simp add: cs_Rewind_def cs_Seek_def cb_seekoff_def cb_mask_nat [OF w(1)] case_prod_unfold)
  then show ?thesis using cs_Seek_ok [OF assms, of 0] w(2) by auto
qed

end
