(* ===== verification/Time_Series.thy ===== *)
theory Time_Series
  imports Circular_Buf Ordered_Map Ledger_Block
begin

text \<open>
  The files that hold blocks and transaction indexes (\<^verbatim>\<open>storage/timeseries.h\<close>, \<^verbatim>\<open>timeseries.cpp\<close>).  Objects
  are appended to numbered files, each behind a magic number and its size, and are found again by the
  number of the file and the offset.  A series with a cache keeps the latest objects in a circular
  stream.  The lemmas show that an object is read back wherever it was written, whatever the cache
  holds, and that the walk through the files finds the objects again after the last write was cut off.
\<close>

section \<open>Positions\<close>

datatype CDiskPos = CDiskPos (dp_nFile: u32) (dp_nOffset: u32)

definition diskpos_less :: "CDiskPos \<Rightarrow> CDiskPos \<Rightarrow> bool" where
  "diskpos_less a b \<longleftrightarrow> dp_nFile a < dp_nFile b \<or> dp_nFile a = dp_nFile b \<and> dp_nOffset a < dp_nOffset b"

instantiation CDiskPos :: linorder
begin

definition less_CDiskPos :: "CDiskPos \<Rightarrow> CDiskPos \<Rightarrow> bool" where
  "less_CDiskPos a b = diskpos_less a b"

definition less_eq_CDiskPos :: "CDiskPos \<Rightarrow> CDiskPos \<Rightarrow> bool" where
  "less_eq_CDiskPos a b = (a < b \<or> a = b)"

instance
proof
  fix x y z :: CDiskPos
  note d = diskpos_less_def less_CDiskPos_def less_eq_CDiskPos_def
  show "x < y \<longleftrightarrow> x \<le> y \<and> \<not> y \<le> x" by (auto simp: d)
  show "x \<le> x" by (simp add: less_eq_CDiskPos_def)
  show "x \<le> y \<Longrightarrow> y \<le> z \<Longrightarrow> x \<le> z" by (auto simp: d)
  show "x \<le> y \<Longrightarrow> y \<le> x \<Longrightarrow> x = y" by (auto simp: d)
  show "x \<le> y \<or> y \<le> x" by (cases x; cases y) (auto simp: d)
qed

end

definition diskpos_IsNull :: "CDiskPos \<Rightarrow> bool" where
  "diskpos_IsNull p = (dp_nFile p = 0)"

definition save_CDiskPos :: "CDiskPos \<Rightarrow> u8 list" where
  "save_CDiskPos p = save_basic 4 (dp_nFile p) @ save_basic 4 (dp_nOffset p)"

definition load_CDiskPos :: "CDiskPos reader" where
  "load_CDiskPos = rbind (load_basic 4) (\<lambda>f. rbind (load_basic 4) (\<lambda>n. rret (CDiskPos f n)))"

definition size_CDiskPos_ser :: "CDiskPos \<Rightarrow> nat" where
  "size_CDiskPos_ser p = size_basic 4 (dp_nFile p) + size_basic 4 (dp_nOffset p)"

interpretation cdpos: codec save_CDiskPos load_CDiskPos size_CDiskPos_ser "\<lambda>_. True"
  by unfold_locales (simp_all add: save_CDiskPos_def load_CDiskPos_def size_CDiskPos_ser_def cu32.load_save cu32.ssize_save)

section \<open>CTimeSeriesBase\<close>

text \<open>The regular files of the directory by their number.\<close>

type_synonym ts_files = "u32 \<Rightarrow> u8 list option"

definition MAX_FILE_SIZE :: nat where "MAX_FILE_SIZE = 0x7F000000"

partial_function (option) last_file_loop :: "ts_files \<Rightarrow> u32 \<Rightarrow> u32 option" where
  "last_file_loop files nLastFile = (if files (nLastFile + 1) = None then Some nLastFile else last_file_loop files (nLastFile + 1))"

text \<open>\<open>create\<close> tells whether the file system lets the program create a file.\<close>

partial_function (option) GetLastFilePath :: "bool \<Rightarrow> u32 \<Rightarrow> ts_files \<Rightarrow> u32 \<Rightarrow> (u32 option \<times> ts_files \<times> u32) option" where
  "GetLastFilePath create nWriteDataSize files nLastFile =
     (case files nLastFile of
        None \<Rightarrow>
          if \<not> create then Some (None, files, nLastFile)
          else if unat nWriteDataSize + 8 \<le> MAX_FILE_SIZE then Some (Some nLastFile, files(nLastFile \<mapsto> []), nLastFile)
          else GetLastFilePath create nWriteDataSize (files(nLastFile \<mapsto> [])) (nLastFile + 1)
      | Some data \<Rightarrow>
          if length data + unat nWriteDataSize + 8 \<le> MAX_FILE_SIZE then Some (Some nLastFile, files, nLastFile)
          else GetLastFilePath create nWriteDataSize files (nLastFile + 1))"

text \<open>\<open>remove\<close> is the answer of the file system to the removal of a file.\<close>

partial_function (option) RemoveFollowUpFile :: "(u32 \<Rightarrow> bool) \<Rightarrow> u32 \<Rightarrow> ts_files \<Rightarrow> (bool \<times> ts_files) option" where
  "RemoveFollowUpFile remove nBeginFile files =
     (if files nBeginFile = None then Some (True, files)
      else if \<not> remove nBeginFile then Some (False, files)
      else RemoveFollowUpFile remove (nBeginFile + 1) (files(nBeginFile := None)))"

text \<open>The file is renamed, copied up to the offset and the old file removed.\<close>

definition TruncateFile :: "bool \<Rightarrow> u32 \<Rightarrow> nat \<Rightarrow> ts_files \<Rightarrow> bool \<times> ts_files" where
  "TruncateFile fopen nFile nOffset files =
     (if \<not> fopen then (False, files(nFile := None)) else (True, files(nFile := map_option (take nOffset) (files nFile))))"

definition RepairFile :: "bool \<Rightarrow> (u32 \<Rightarrow> bool) \<Rightarrow> u32 \<Rightarrow> nat \<Rightarrow> ts_files \<Rightarrow> (bool \<times> ts_files) option" where
  "RepairFile fopen remove nFile nOffset files =
     (if nOffset > 0 then
        if files nFile = None then Some (False, files)
        else (case TruncateFile fopen nFile nOffset files of
            (False, files') \<Rightarrow> Some (False, files')
          | (True, files') \<Rightarrow> RemoveFollowUpFile remove (nFile + 1) files')
      else RemoveFollowUpFile remove nFile files)"

section \<open>CTimeSeriesCached\<close>

definition nMagicNum :: u32 where "nMagicNum = 0x8F4EBC9E"

definition FILE_CACHE_SIZE :: nat where "FILE_CACHE_SIZE = 0x2000000"

record CTimeSeriesCached =
  ts_files :: ts_files
  ts_nLastFile :: u32
  ts_cacheStream :: CCircularStream
  ts_mapCachePos :: "(CDiskPos \<times> nat) list"

definition ResetCache :: "CTimeSeriesCached \<Rightarrow> CTimeSeriesCached" where
  "ResetCache s = s\<lparr> ts_cacheStream := cs_Clear (ts_cacheStream s), ts_mapCachePos := [] \<rparr>"

partial_function (option) VacateCache :: "u32 \<Rightarrow> CTimeSeriesCached \<Rightarrow> (bool \<times> CTimeSeriesCached) option" where
  "VacateCache nNeeded s =
     (if cb_freespace (cs_buf (ts_cacheStream s)) < unat nNeeded + 12 then
        (case cs_Load load_CDiskPos (cs_Rewind (ts_cacheStream s)) of
           (Inl e, c) \<Rightarrow> Some (False, s\<lparr> ts_cacheStream := c \<rparr>)
         | (Inr diskpos, c) \<Rightarrow> (case cs_Load (load_basic 4 :: u32 reader) c of
             (Inl e, c') \<Rightarrow> Some (False, s\<lparr> ts_cacheStream := c' \<rparr>)
           | (Inr nSize, c') \<Rightarrow>
               VacateCache nNeeded (s\<lparr> ts_cacheStream := cs_Consume (unat nSize + 12) c', ts_mapCachePos := std_erase diskpos (ts_mapCachePos s) \<rparr>)))
      else Some (True, s))"

definition WriteToCache :: "u8 list \<Rightarrow> CDiskPos \<Rightarrow> CTimeSeriesCached \<Rightarrow> (bool \<times> CTimeSeriesCached) option" where
  "WriteToCache pData diskpos s =
     (if map_of (ts_mapCachePos s) diskpos \<noteq> None then Some (True, s)
      else let nSize = of_nat (length pData) in
        (case VacateCache nSize s of
           None \<Rightarrow> None
         | Some (False, s') \<Rightarrow> Some (False, s')
         | Some (True, s') \<Rightarrow>
             (let c = cs_Write (save_basic 4 nSize) (cs_Write (save_CDiskPos diskpos) (ts_cacheStream s'));
                  nPos = cb_putpos (cs_buf c);
                  c' = cs_Write pData c in
              Some (True, s'\<lparr> ts_cacheStream := c', ts_mapCachePos := std_assign diskpos nPos (ts_mapCachePos s') \<rparr>))))"

text \<open>The calls of \<^verbatim>\<open>WriteToCache\<close> in \<^verbatim>\<open>Read\<close> and \<^verbatim>\<open>Write\<close>, with the reset where it fails.\<close>

definition cache_or_reset :: "bool \<Rightarrow> u8 list \<Rightarrow> CDiskPos \<Rightarrow> CTimeSeriesCached \<Rightarrow> CTimeSeriesCached option" where
  "cache_or_reset fWriteCache pData pos s =
     (if fWriteCache then (case WriteToCache pData pos s of None \<Rightarrow> None | Some (ok, s') \<Rightarrow> Some (if ok then s' else ResetCache s')) else Some s)"

definition ReadFromCache :: "'a reader \<Rightarrow> CDiskPos \<Rightarrow> CTimeSeriesCached \<Rightarrow> 'a option \<times> CTimeSeriesCached" where
  "ReadFromCache ld diskpos s =
     (case map_of (ts_mapCachePos s) diskpos of
        None \<Rightarrow> (None, s)
      | Some nPos \<Rightarrow> (case cs_Seek nPos (ts_cacheStream s) of
            (False, c) \<Rightarrow> (None, ResetCache (s\<lparr> ts_cacheStream := c \<rparr>))
          | (True, c) \<Rightarrow> (case cs_Load ld c of
                (Inl e, c') \<Rightarrow> (None, ResetCache (s\<lparr> ts_cacheStream := c' \<rparr>))
              | (Inr t, c') \<Rightarrow> (Some t, s\<lparr> ts_cacheStream := c' \<rparr>))))"

text \<open>
  \<^verbatim>\<open>Write\<close> appends the record to the last file.  \<open>disk\<close> is the number of bytes of it that reach the disk: the
  streams do not report a write that fails.
\<close>

definition ts_frame :: "u8 list \<Rightarrow> u8 list" where
  "ts_frame data = save_basic 4 nMagicNum @ save_basic 4 (of_nat (length data) :: u32) @ data"

definition ts_Write :: "('a \<Rightarrow> u8 list) \<Rightarrow> bool \<Rightarrow> nat \<Rightarrow> bool \<Rightarrow> 'a \<Rightarrow> CTimeSeriesCached \<Rightarrow> (CDiskPos option \<times> CTimeSeriesCached) option" where
  "ts_Write sv create disk fWriteCache t s =
     (let ss = sv t in
      case GetLastFilePath create (of_nat (length ss)) (ts_files s) (ts_nLastFile s) of
        None \<Rightarrow> None
      | Some (None, files, nLast) \<Rightarrow> Some (None, s\<lparr> ts_files := files, ts_nLastFile := nLast \<rparr>)
      | Some (Some nFile, files, nLast) \<Rightarrow>
          (let data = the (files nFile);
               pos = CDiskPos nFile (of_nat (length data + 8)) in
           map_option (Pair (Some pos)) (cache_or_reset fWriteCache ss pos
             (s\<lparr> ts_files := files(nFile \<mapsto> data @ take disk (ts_frame ss)), ts_nLastFile := nLast \<rparr>))))"

definition ts_ReadFile :: "'a reader \<Rightarrow> ts_files \<Rightarrow> CDiskPos \<Rightarrow> 'a option" where
  "ts_ReadFile ld files pos =
     (case files (dp_nFile pos) of
        None \<Rightarrow> None
      | Some data \<Rightarrow> (case ld (drop (unat (dp_nOffset pos)) data) of Inl e \<Rightarrow> None | Inr (t, rest) \<Rightarrow> Some t))"

definition ts_ReadPos :: "('a \<Rightarrow> u8 list) \<Rightarrow> 'a reader \<Rightarrow> bool \<Rightarrow> CDiskPos \<Rightarrow> CTimeSeriesCached \<Rightarrow> ('a option \<times> CTimeSeriesCached) option" where
  "ts_ReadPos sv ld fWriteCache pos s =
     (case ReadFromCache ld pos s of
        (Some t, s') \<Rightarrow> Some (Some t, s')
      | (None, s') \<Rightarrow> (case ts_ReadFile ld (ts_files s') pos of
            None \<Rightarrow> Some (None, s')
          | Some t \<Rightarrow> map_option (Pair (Some t)) (cache_or_reset fWriteCache (sv t) pos s')))"

text \<open>
  \<^verbatim>\<open>WalkThrough\<close> hands every object of the files to a walker.  The walk of one file ends at its end, at data
  that is no record, or where the walker refuses.  Offsets are below \<^verbatim>\<open>MAX_FILE_SIZE\<close>; the size in a
  record is any 32-bit number, so the sum with it may wrap around.
\<close>

datatype walk_end = WalkDone | WalkBad | WalkStop

type_synonym ('a, 's) ts_walker = "'a \<Rightarrow> u32 \<Rightarrow> u32 \<Rightarrow> 's \<Rightarrow> bool \<times> 's"

function walk_records :: "'a reader \<Rightarrow> ('a, 's) ts_walker \<Rightarrow> u32 \<Rightarrow> u8 list \<Rightarrow> nat \<Rightarrow> 's \<Rightarrow> walk_end \<times> nat \<times> 's" where
  "walk_records ld walk nFile data nOffset s =
     (if \<not> nOffset < length data then (WalkDone, nOffset, s)
      else if nOffset + 8 > length data then (WalkBad, nOffset, s)
      else case (load_basic 4 :: u32 reader) (drop nOffset data) of
          Inl e \<Rightarrow> (WalkBad, nOffset, s)
        | Inr (nMagic, r) \<Rightarrow> (case (load_basic 4 :: u32 reader) r of
            Inl e \<Rightarrow> (WalkBad, nOffset, s)
          | Inr (nSize, r') \<Rightarrow>
              if nMagic \<noteq> nMagicNum then (WalkBad, nOffset, s)
              else if of_nat nOffset + 8 + nSize > (of_nat (length data) :: u32) then (WalkBad, nOffset, s)
              else (case ld r' of
                  Inl e \<Rightarrow> (WalkBad, nOffset, s)
                | Inr (t, rest) \<Rightarrow>
                    (let nCurPos = length data - length rest in
                     if int nCurPos - int nOffset - 8 \<noteq> uint nSize then (WalkBad, nOffset, s)
                     else (case walk t nFile (of_nat (nOffset + 8)) s of
                         (False, s') \<Rightarrow> (WalkStop, nOffset, s')
                       | (True, s') \<Rightarrow> walk_records ld walk nFile data nCurPos s')))))"
  by pat_completeness auto
termination
proof (relation "measure (\<lambda>(ld, walk, nFile, data, nOffset, s). length data - nOffset)", goal_cases)
  case (2 ld walk nFile data nOffset s)
  have "length data - (length data - length r) < length data - nOffset" if "int (length data - length r) - int nOffset - 8 = uint n" for r :: "u8 list" and n :: u32
    using that uint_ge_0 [of n] by linarith
  with 2 show ?case by auto
qed simp

declare walk_records.simps [simp del]

partial_function (option) WalkThrough_loop :: "bool \<Rightarrow> (u32 \<Rightarrow> bool) \<Rightarrow> 'a reader \<Rightarrow> ('a, 's) ts_walker \<Rightarrow> bool \<Rightarrow> u32 \<Rightarrow> u32 \<Rightarrow> nat
    \<Rightarrow> ts_files \<Rightarrow> 's \<Rightarrow> (bool \<times> u32 \<times> nat \<times> ts_files \<times> 's) option" where
  "WalkThrough_loop fopen remove ld walk fRepairFile nFile nLastFileRet nOffset files s =
     (case files nFile of
        None \<Rightarrow> Some (True, nLastFileRet, nOffset, files, s)
      | Some data \<Rightarrow>
          (case (if length data > MAX_FILE_SIZE then (WalkBad, 0, s) else walk_records ld walk nFile data 0 s) of
             (WalkDone, n, s') \<Rightarrow> WalkThrough_loop fopen remove ld walk fRepairFile (nFile + 1) nFile n files s'
           | (WalkStop, n, s') \<Rightarrow> Some (False, nFile, n, files, s')
           | (WalkBad, n, s') \<Rightarrow>
               if fRepairFile then map_option (\<lambda>(fRet, files'). (fRet, nFile, n, files', s')) (RepairFile fopen remove nFile n files)
               else Some (True, nFile, n, files, s')))"

definition ts_WalkThrough :: "bool \<Rightarrow> (u32 \<Rightarrow> bool) \<Rightarrow> 'a reader \<Rightarrow> ('a, 's) ts_walker \<Rightarrow> bool \<Rightarrow> ts_files \<Rightarrow> 's \<Rightarrow> (bool \<times> u32 \<times> nat \<times> ts_files \<times> 's) option" where
  "ts_WalkThrough fopen remove ld walk fRepairFile files s = WalkThrough_loop fopen remove ld walk fRepairFile 1 0 0 files s"

section \<open>The cache\<close>

text \<open>The records the cache holds, the oldest first, and where the data of a record lies in the buffer.\<close>

type_synonym cache_records = "(CDiskPos \<times> u8 list) list"

definition cache_record :: "CDiskPos \<times> u8 list \<Rightarrow> u8 list" where
  "cache_record = (\<lambda>(p, d). save_CDiskPos p @ save_basic 4 (of_nat (length d) :: u32) @ d)"

fun cache_place :: "nat \<Rightarrow> nat \<Rightarrow> cache_records \<Rightarrow> CDiskPos \<Rightarrow> nat option" where
  "cache_place b n [] p = None"
| "cache_place b n ((q, d) # rs) p = (if p = q then Some ((b + 12) mod n) else cache_place (b + (length d + 12)) n rs p)"

definition cache_bytes :: "cache_records \<Rightarrow> u8 list" where
  "cache_bytes rs = concat (map cache_record rs)"

lemma cache_bytes_simps [simp]:
  "cache_bytes [] = []" "cache_bytes (r # rs) = cache_record r @ cache_bytes rs" "cache_bytes (rs @ rs') = cache_bytes rs @ cache_bytes rs'"
  by (simp_all add: cache_bytes_def)

definition cache_ok :: "CTimeSeriesCached \<Rightarrow> cache_records \<Rightarrow> bool" where
  "cache_ok s rs \<longleftrightarrow> cs_inv (ts_cacheStream s) \<and> cs_good (ts_cacheStream s) \<and> cs_content (ts_cacheStream s) = cache_bytes rs
     \<and> distinct (map fst rs) \<and> (\<forall>(p, d)\<in>set rs. length d < 2 ^ 32) \<and> std_sorted (ts_mapCachePos s)
     \<and> map_of (ts_mapCachePos s) = cache_place (cs_begin (ts_cacheStream s)) (cs_cap (ts_cacheStream s)) rs"

lemma length_save_CDiskPos [simp]: "length (save_CDiskPos p) = 8"
  by (simp add: save_CDiskPos_def save_basic_def)

lemma length_cache_record [simp]: "length (cache_record (p, d)) = length d + 12"
  by (simp add: cache_record_def save_basic_def)

lemma load_CDiskPos_empty: "\<exists>e. load_CDiskPos [] = Inl e"
  by (simp add: load_CDiskPos_def rbind_def load_basic_def stream_read_def)

lemma cache_place_mod: "cache_place (b mod n) n rs = cache_place b n rs"
proof -
  have g: "a mod n = c mod n \<Longrightarrow> cache_place a n rs = cache_place c n rs" for a c
  proof (induction rs arbitrary: a c)
    case (Cons r rs)
    obtain q d where r: "r = (q, d)" by (cases r)
    have m: "(a + k) mod n = (c + k) mod n" for k using Cons.prems by (metis mod_add_left_eq)
    have "cache_place (a + (length d + 12)) n rs = cache_place (c + (length d + 12)) n rs" by (rule Cons.IH [OF m])
    then show ?case using m [of 12] by (intro ext) (simp add: r)
  qed (simp add: fun_eq_iff)
  show ?thesis by (rule g) simp
qed

lemma cache_place_None: "cache_place b n rs p = None \<longleftrightarrow> p \<notin> fst ` set rs"
  by (induction b n rs p rule: cache_place.induct) simp_all

lemma cache_place_Some:
  assumes "cache_place b n rs p = Some x"
  obtains rs1 d rs2 where "rs = rs1 @ (p, d) # rs2" "x = (b + length (cache_bytes rs1) + 12) mod n"
proof -
  from assms have "\<exists>rs1 d rs2. rs = rs1 @ (p, d) # rs2 \<and> x = (b + length (cache_bytes rs1) + 12) mod n"
  proof (induction rs arbitrary: b)
    case (Cons r rs)
    obtain q d where r: "r = (q, d)" by (cases r)
    show ?case
    proof (cases "p = q")
      case True
      then show ?thesis using Cons.prems r by (intro exI [of _ "[]"] exI [of _ d] exI [of _ rs]) simp
    next
      case False
      then have "cache_place (b + (length d + 12)) n rs p = Some x" using Cons.prems r by simp
      from Cons.IH [OF this] obtain rs1 d' rs2 where "rs = rs1 @ (p, d') # rs2" "x = (b + (length d + 12) + length (cache_bytes rs1) + 12) mod n" by blast
      then show ?thesis by (intro exI [of _ "r # rs1"] exI [of _ d'] exI [of _ rs2]) (simp add: r add.assoc)
    qed
  qed simp
  then show thesis using that by blast
qed

lemma cache_place_append: "cache_place b n (rs @ rs') p = (case cache_place b n rs p of Some x \<Rightarrow> Some x | None \<Rightarrow> cache_place (b + length (cache_bytes rs)) n rs' p)"
proof (induction rs arbitrary: b)
  case (Cons r rs)
  obtain q d where r: "r = (q, d)" by (cases r)
  show ?case using Cons.IH [of "b + (length d + 12)"] by (cases "cache_place (b + (length d + 12)) n rs p") (simp_all add: r add.assoc)
qed simp

lemma VacateCache_ok:
  assumes "cache_ok s rs"
  shows "\<exists>ok s'. VacateCache nNeeded s = Some (ok, s') \<and> ts_files s' = ts_files s \<and> ts_nLastFile s' = ts_nLastFile s \<and> cs_inv (ts_cacheStream s')
    \<and> (ok \<longrightarrow> (\<exists>k. cache_ok s' (drop k rs)) \<and> unat nNeeded + 12 \<le> cb_freespace (cs_buf (ts_cacheStream s')))"
  using assms
proof (induction rs arbitrary: s)
  case Nil
  let ?c = "cs_Rewind (ts_cacheStream s)"
  have i: "cs_inv (ts_cacheStream s)" using Nil by (simp add: cache_ok_def)
  note r = cs_Rewind_ok [OF i]
  obtain e where e: "load_CDiskPos [] = Inl e" using load_CDiskPos_empty by blast
  obtain c where c: "cs_Load load_CDiskPos ?c = (Inl e, c)" "cs_inv c"
    using cs_Load_short [of ?c load_CDiskPos e] r e Nil by (auto simp: cache_ok_def)
  have "VacateCache nNeeded s = (if cb_freespace (cs_buf (ts_cacheStream s)) < unat nNeeded + 12 then Some (False, s\<lparr> ts_cacheStream := c \<rparr>) else Some (True, s))"
    by (subst VacateCache.simps) (simp add: c)
  then show ?case using Nil i c by auto
next
  case (Cons rec rs)
  obtain q d where q: "rec = (q, d)" by (cases rec)
  let ?old = "ts_cacheStream s" and ?c = "cs_Rewind (ts_cacheStream s)"
  have i: "cs_inv ?old" and ct: "cs_content ?old = cache_record rec @ cache_bytes rs" and l: "length d < 2 ^ 32" using Cons.prems by (auto simp: cache_ok_def q)
  note r = cs_Rewind_ok [OF i]
  show ?case
  proof (cases "cb_freespace (cs_buf ?old) < unat nNeeded + 12")
    case False
    then have v: "VacateCache nNeeded s = Some (True, s)" by (subst VacateCache.simps) simp
    have "cache_ok s (drop 0 (rec # rs))" using Cons.prems by simp
    then have "\<exists>k. cache_ok s (drop k (rec # rs))" by blast
    then show ?thesis unfolding v using i False by auto
  next
    case True
    have "load_CDiskPos (cs_content ?old) = Inr (q, save_basic 4 (of_nat (length d) :: u32) @ d @ cache_bytes rs)"
      using cdpos.load_save [of q] by (simp add: ct q cache_record_def)
    then obtain c1 where c1: "cs_Load load_CDiskPos ?c = (Inr q, c1)" "cs_inv c1" "cs_good c1" "cs_content c1 = cs_content ?old" "cs_rpos c1 = 8" "cs_begin c1 = cs_begin ?old" "cs_cap c1 = cs_cap ?old"
      using cs_Load_ok [of ?c load_CDiskPos q "save_basic 4 (of_nat (length d) :: u32) @ d @ cache_bytes rs"] r by (auto simp: ct q save_basic_def)
    have "(load_basic 4 :: u32 reader) (drop (cs_rpos c1) (cs_content c1)) = Inr (of_nat (length d), d @ cache_bytes rs)"
      using cu32.load_save [of "of_nat (length d)" "d @ cache_bytes rs"] by (simp add: c1 ct q cache_record_def)
    then obtain c2 where c2: "cs_Load (load_basic 4 :: u32 reader) c1 = (Inr (of_nat (length d)), c2)" "cs_inv c2" "cs_good c2" "cs_content c2 = cs_content ?old"
        "cs_begin c2 = cs_begin ?old" "cs_cap c2 = cs_cap ?old"
      using cs_Load_ok [of c1 "load_basic 4 :: u32 reader" "of_nat (length d)" "d @ cache_bytes rs"] c1 by (auto simp: ct q)
    let ?new = "cs_Consume (length d + 12) c2"
    have n: "unat (of_nat (length d) :: u32) = length d" using l by (simp add: unat_of_nat)
    have c3: "cs_inv ?new" "cs_good ?new" "cs_content ?new = cache_bytes rs" "cs_begin ?new = (cs_begin ?old + (length d + 12)) mod cs_cap ?old" "cs_cap ?new = cs_cap ?old"
      using cs_Consume_ok [OF c2(2), of "length d + 12"] c2 by (simp_all add: ct q)
    define s1 where "s1 = s\<lparr> ts_cacheStream := ?new, ts_mapCachePos := std_erase q (ts_mapCachePos s) \<rparr>"
    have "map_of (std_erase q (ts_mapCachePos s)) = cache_place ((cs_begin ?old + (length d + 12)) mod cs_cap ?old) (cs_cap ?old) rs"
    proof (rule ext)
      fix x
      have "cache_place (cs_begin ?old + (length d + 12)) (cs_cap ?old) rs q = None" using Cons.prems by (simp add: cache_place_None cache_ok_def q)
      moreover have "map_of (ts_mapCachePos s) x = cache_place (cs_begin ?old) (cs_cap ?old) ((q, d) # rs) x" using Cons.prems by (simp add: cache_ok_def q)
      ultimately show "map_of (std_erase q (ts_mapCachePos s)) x = cache_place ((cs_begin ?old + (length d + 12)) mod cs_cap ?old) (cs_cap ?old) rs x"
        unfolding cache_place_mod by simp
    qed
    then have ok: "cache_ok s1 rs" using Cons.prems c3 by (simp add: cache_ok_def s1_def q)
    have "VacateCache nNeeded s = VacateCache nNeeded s1"
      using True c1(1) c2(1) n by (subst VacateCache.simps) (simp add: s1_def)
    moreover have "\<exists>k. cache_ok s' (drop k (rec # rs))" if "\<exists>k. cache_ok s' (drop k rs)" for s'
    proof -
      from that obtain k where "cache_ok s' (drop (Suc k) (rec # rs))" by auto
      then show ?thesis by blast
    qed
    moreover have "ts_files s1 = ts_files s" "ts_nLastFile s1 = ts_nLastFile s" by (simp_all add: s1_def)
    ultimately show ?thesis using Cons.IH [OF ok] by metis
  qed
qed

lemma ResetCache_ok: "cs_inv (ts_cacheStream s) \<Longrightarrow> cache_ok (ResetCache s) [] \<and> ts_files (ResetCache s) = ts_files s \<and> ts_nLastFile (ResetCache s) = ts_nLastFile s"
  using cs_Clear_ok [of "ts_cacheStream s"] by (simp add: ResetCache_def cache_ok_def fun_eq_iff)

lemma cache_append:
  assumes "cache_ok s rs" "p \<notin> fst ` set rs" "length d < 2 ^ 32" "length d + 12 \<le> cb_freespace (cs_buf (ts_cacheStream s))"
  defines "c1 \<equiv> cs_Write (save_basic 4 (of_nat (length d) :: u32)) (cs_Write (save_CDiskPos p) (ts_cacheStream s))"
  shows "cache_ok (s\<lparr> ts_cacheStream := cs_Write d c1, ts_mapCachePos := std_assign p (cb_putpos (cs_buf c1)) (ts_mapCachePos s) \<rparr>) (rs @ [(p, d)])"
proof -
  let ?c = "ts_cacheStream s"
  have i: "cs_inv ?c" "cs_good ?c" "cs_content ?c = cache_bytes rs" using assms(1) by (auto simp: cache_ok_def)
  have room: "length (cs_content c) + cb_freespace (cs_buf c) + 1 = cs_cap c" if "cs_inv c" for c
    using that cb_freespace_room [of "cs_buf c"] by (simp add: cs_inv_def)
  have w1: "cs_inv (cs_Write (save_CDiskPos p) ?c)" "cs_good (cs_Write (save_CDiskPos p) ?c)" "cs_content (cs_Write (save_CDiskPos p) ?c) = cache_bytes rs @ save_CDiskPos p"
    "cs_begin (cs_Write (save_CDiskPos p) ?c) = cs_begin ?c" "cs_cap (cs_Write (save_CDiskPos p) ?c) = cs_cap ?c"
    using cs_Write_ok [OF i(1,2), of "save_CDiskPos p"] i(3) assms(4) by simp_all
  have f1: "length d + 4 \<le> cb_freespace (cs_buf (cs_Write (save_CDiskPos p) ?c))" using room [OF w1(1)] room [OF i(1)] w1(3,5) i(3) assms(4) by simp
  have w2: "cs_inv c1" "cs_good c1" "cs_content c1 = cache_bytes rs @ save_CDiskPos p @ save_basic 4 (of_nat (length d) :: u32)" "cs_begin c1 = cs_begin ?c" "cs_cap c1 = cs_cap ?c"
    using cs_Write_ok [OF w1(1,2), of "save_basic 4 (of_nat (length d) :: u32)"] w1(3-5) f1 by (simp_all add: c1_def save_basic_def)
  have f2: "length d \<le> cb_freespace (cs_buf c1)" using room [OF w2(1)] room [OF w1(1)] w1(3,5) w2(3,5) f1 by (simp add: save_basic_def)
  have w3: "cs_inv (cs_Write d c1)" "cs_good (cs_Write d c1)" "cs_content (cs_Write d c1) = cache_bytes (rs @ [(p, d)])" "cs_begin (cs_Write d c1) = cs_begin ?c" "cs_cap (cs_Write d c1) = cs_cap ?c"
    using cs_Write_ok [OF w2(1,2) f2] w2(3-5) by (simp_all add: cache_record_def)
  have "cb_putpos (cs_buf c1) = (cs_begin ?c + (length (cache_bytes rs) + 12)) mod cs_cap ?c"
    using cb_putpos_ok(1) [of "cs_buf c1"] w2 length_cb_content [of "cs_buf c1"] by (simp add: cs_inv_def save_basic_def)
  moreover have "cache_place (cs_begin ?c) (cs_cap ?c) rs p = None" using assms(2) by (simp add: cache_place_None)
  ultimately have "map_of (std_assign p (cb_putpos (cs_buf c1)) (ts_mapCachePos s)) = cache_place (cs_begin ?c) (cs_cap ?c) (rs @ [(p, d)])"
    using assms(1) by (auto simp: cache_ok_def fun_eq_iff cache_place_append add.assoc split: option.splits)
  then show ?thesis using assms(1-3) w3 by (auto simp: cache_ok_def)
qed

lemma cache_or_reset_ok:
  assumes "cache_ok s rs" "length d < 2 ^ 32"
  shows "\<exists>s' rs'. cache_or_reset fw d p s = Some s' \<and> cache_ok s' rs' \<and> set rs' \<subseteq> insert (p, d) (set rs) \<and> ts_files s' = ts_files s \<and> ts_nLastFile s' = ts_nLastFile s"
proof (cases "fw \<and> map_of (ts_mapCachePos s) p = None")
  case False
  then have "cache_or_reset fw d p s = Some s" by (auto simp: cache_or_reset_def WriteToCache_def)
  then show ?thesis using assms(1) by auto
next
  case True
  have n: "unat (of_nat (length d) :: u32) = length d" using assms(2) by (simp add: unat_of_nat)
  obtain ok s1 where v: "VacateCache (of_nat (length d)) s = Some (ok, s1)" "ts_files s1 = ts_files s" "ts_nLastFile s1 = ts_nLastFile s" "cs_inv (ts_cacheStream s1)"
    and o: "ok \<longrightarrow> (\<exists>k. cache_ok s1 (drop k rs)) \<and> unat (of_nat (length d) :: u32) + 12 \<le> cb_freespace (cs_buf (ts_cacheStream s1))"
    using VacateCache_ok [OF assms(1), of "of_nat (length d)"] by blast
  show ?thesis
  proof (cases ok)
    case False
    then have "cache_or_reset fw d p s = Some (ResetCache s1)" using True v by (simp add: cache_or_reset_def WriteToCache_def)
    then show ?thesis using ResetCache_ok [OF v(4)] v by (intro exI [of _ "ResetCache s1"] exI [of _ "[]"]) simp
  next
    case ok: True
    with o obtain k where k: "cache_ok s1 (drop k rs)" "length d + 12 \<le> cb_freespace (cs_buf (ts_cacheStream s1))" using n by auto
    have "p \<notin> fst ` set rs" using True assms(1) by (simp add: cache_ok_def cache_place_None)
    then have p: "p \<notin> fst ` set (drop k rs)" using set_drop_subset [of k rs] by blast
    define c1 where "c1 = cs_Write (save_basic 4 (of_nat (length d) :: u32)) (cs_Write (save_CDiskPos p) (ts_cacheStream s1))"
    define s2 where "s2 = s1\<lparr> ts_cacheStream := cs_Write d c1, ts_mapCachePos := std_assign p (cb_putpos (cs_buf c1)) (ts_mapCachePos s1) \<rparr>"
    have "cache_ok s2 (drop k rs @ [(p, d)])" unfolding s2_def c1_def by (rule cache_append [OF k(1) p assms(2) k(2)])
    moreover have "cache_or_reset fw d p s = Some s2" using True v(1) ok by (simp add: cache_or_reset_def WriteToCache_def Let_def s2_def c1_def)
    moreover have "set (drop k rs @ [(p, d)]) \<subseteq> insert (p, d) (set rs)" using set_drop_subset [of k rs] by auto
    moreover have "ts_files s2 = ts_files s" "ts_nLastFile s2 = ts_nLastFile s" by (simp_all add: s2_def v)
    ultimately show ?thesis by blast
  qed
qed

lemma ReadFromCache_miss: "cache_ok s rs \<Longrightarrow> p \<notin> fst ` set rs \<Longrightarrow> ReadFromCache ld p s = (None, s)"
  using cache_place_None [of "cs_begin (ts_cacheStream s)" "cs_cap (ts_cacheStream s)" rs p] by (auto simp: ReadFromCache_def cache_ok_def)

lemma ReadFromCache_hit:
  assumes "cache_ok s rs" "(p, d) \<in> set rs" "\<And>r. ld (d @ r) = Inr (x, r)"
  shows "\<exists>s'. ReadFromCache ld p s = (Some x, s') \<and> cache_ok s' rs \<and> ts_files s' = ts_files s \<and> ts_nLastFile s' = ts_nLastFile s"
proof -
  let ?c = "ts_cacheStream s"
  have i: "cs_inv ?c" "cs_content ?c = cache_bytes rs" and di: "distinct (map fst rs)" using assms(1) by (auto simp: cache_ok_def)
  have "p \<in> fst ` set rs" using assms(2) by (metis fst_conv imageI)
  then have "cache_place (cs_begin ?c) (cs_cap ?c) rs p \<noteq> None" by (simp add: cache_place_None)
  then obtain y where y: "cache_place (cs_begin ?c) (cs_cap ?c) rs p = Some y" by blast
  then obtain rs1 d' rs2 where r: "rs = rs1 @ (p, d') # rs2" "y = (cs_begin ?c + length (cache_bytes rs1) + 12) mod cs_cap ?c" by (rule cache_place_Some)
  have d: "d' = d" using di assms(2) r(1) by (auto simp: image_iff)
  let ?k = "length (cache_bytes rs1) + 12"
  obtain c1 where c1: "cs_Seek y ?c = (True, c1)" "cs_inv c1" "cs_good c1" "cs_content c1 = cs_content ?c" "cs_rpos c1 = ?k" "cs_begin c1 = cs_begin ?c" "cs_cap c1 = cs_cap ?c"
    using cs_Seek_ok [OF i(1), of ?k] by (auto simp: i(2) r add.assoc)
  have "drop ?k (cs_content ?c) = d @ cache_bytes rs2" by (simp add: i(2) r(1) d cache_record_def save_basic_def)
  then have "ld (drop (cs_rpos c1) (cs_content c1)) = Inr (x, cache_bytes rs2)" using assms(3) by (simp add: c1)
  then obtain c2 where c2: "cs_Load ld c1 = (Inr x, c2)" "cs_inv c2" "cs_good c2" "cs_content c2 = cs_content ?c" "cs_begin c2 = cs_begin ?c" "cs_cap c2 = cs_cap ?c"
    using cs_Load_ok [OF c1(2,3), of ld x "cache_bytes rs2"] c1 by (auto simp: i(2) r(1))
  have "map_of (ts_mapCachePos s) p = Some y" using assms(1) y by (simp add: cache_ok_def)
  then have "ReadFromCache ld p s = (Some x, s\<lparr> ts_cacheStream := c2 \<rparr>)" using c1(1) c2(1) by (simp add: ReadFromCache_def)
  moreover have "cache_ok (s\<lparr> ts_cacheStream := c2 \<rparr>) rs" using assms(1) c2 by (simp add: cache_ok_def)
  ultimately show ?thesis by simp
qed

section \<open>Writing and reading\<close>

text \<open>
  \<open>written\<close> says which value was written at which position: the bytes of the value lie there in the
  file, and the cache holds nothing else for that position.
\<close>

definition series_inv :: "('a \<Rightarrow> u8 list) \<Rightarrow> ('a \<Rightarrow> bool) \<Rightarrow> (CDiskPos \<Rightarrow> 'a option) \<Rightarrow> CTimeSeriesCached \<Rightarrow> bool" where
  "series_inv sv ok written s \<longleftrightarrow>
     (\<exists>rs. cache_ok s rs \<and> (\<forall>(p, d)\<in>set rs. \<exists>x. written p = Some x \<and> d = sv x))
     \<and> (\<forall>p x. written p = Some x \<longrightarrow> ok x \<and> length (sv x) < 2 ^ 32 \<and> (\<exists>data r. ts_files s (dp_nFile p) = Some data
          \<and> unat (dp_nOffset p) \<le> length data \<and> drop (unat (dp_nOffset p)) data = sv x @ r))"

lemma GetLastFilePath_ok:
  "GetLastFilePath create n files nLast = Some y \<Longrightarrow> (\<forall>f data. files f = Some data \<longrightarrow> fst (snd y) f = Some data)
    \<and> (case fst y of None \<Rightarrow> True | Some f \<Rightarrow> (\<exists>data. fst (snd y) f = Some data \<and> length data + unat n + 8 \<le> MAX_FILE_SIZE))"
proof (induction rule: GetLastFilePath.raw_induct [rotated, consumes 1, case_names step])
  case (step G create n files nLast y)
  show ?case
  proof (cases "files nLast")
    case None
    show ?thesis
    proof (cases "create \<and> \<not> unat n + 8 \<le> MAX_FILE_SIZE")
      case True
      then have "G create n (files(nLast \<mapsto> [])) (nLast + 1) = Some y" using step(2) None by simp
      note ih = step(1) [OF this]
      have "fst (snd y) f = Some data" if "files f = Some data" for f data
      proof -
        have "(files(nLast \<mapsto> [])) f = Some data" using that None by auto
        then show ?thesis using ih by blast
      qed
      then show ?thesis using ih by blast
    qed (use step(2) None in \<open>auto split: if_splits\<close>)
  next
    case (Some data)
    show ?thesis
    proof (cases "length data + unat n + 8 \<le> MAX_FILE_SIZE")
      case False
      then have "G create n files (nLast + 1) = Some y" using step(2) Some by simp
      from step(1) [OF this] show ?thesis .
    qed (use step(2) Some in auto)
  qed
qed

text \<open>The search for a file ends where the object fits into an empty file and some later file is missing.\<close>

lemma GetLastFilePath_returns:
  "unat n + 8 \<le> MAX_FILE_SIZE \<Longrightarrow> files (nLast + of_nat k) = None \<Longrightarrow> \<exists>f files' l. GetLastFilePath True n files nLast = Some (Some f, files', l)"
proof (induction k arbitrary: nLast)
  case (Suc k)
  then have "\<exists>f files' l. GetLastFilePath True n files (nLast + 1) = Some (Some f, files', l)" by (simp add: add.assoc)
  then show ?case using Suc.prems(1) by (subst GetLastFilePath.simps) (auto split: option.splits)
qed (subst GetLastFilePath.simps, simp)

text \<open>
  The files that complete writes leave, with some bytes behind the last record, and the objects in them
  with their positions.
\<close>

definition file_bytes :: "('a \<Rightarrow> u8 list) \<Rightarrow> 'a list \<Rightarrow> u8 list" where
  "file_bytes sv xs = concat (map (\<lambda>x. ts_frame (sv x)) xs)"

fun file_items :: "('a \<Rightarrow> u8 list) \<Rightarrow> u32 \<Rightarrow> nat \<Rightarrow> 'a list \<Rightarrow> ('a \<times> u32 \<times> u32) list" where
  "file_items sv f n [] = []"
| "file_items sv f n (x # xs) = (x, f, of_nat (n + 8)) # file_items sv f (n + length (ts_frame (sv x))) xs"

definition series_files :: "('a \<Rightarrow> u8 list) \<Rightarrow> 'a list list \<Rightarrow> u8 list \<Rightarrow> ts_files" where
  "series_files sv xss torn f = (if 1 \<le> unat f \<and> unat f \<le> length xss
     then Some (file_bytes sv (xss ! (unat f - 1)) @ (if unat f = length xss then torn else [])) else None)"

definition series_items :: "('a \<Rightarrow> u8 list) \<Rightarrow> nat \<Rightarrow> 'a list list \<Rightarrow> ('a \<times> u32 \<times> u32) list" where
  "series_items sv i xss = concat (map (\<lambda>i. file_items sv (of_nat (Suc i)) 0 (xss ! i)) [i..<length xss])"

lemma file_bytes_simps [simp]: "file_bytes sv [] = []" "file_bytes sv (x # xs) = ts_frame (sv x) @ file_bytes sv xs"
  by (simp_all add: file_bytes_def)

lemma length_frame: "length (ts_frame d) = length d + 8"
  by (simp add: ts_frame_def save_basic_def)

lemma ts_frame_nonempty [simp]: "ts_frame d \<noteq> []"
  using length_frame [of d] by auto

lemma file_bytes_empty: "file_bytes sv xs = [] \<longleftrightarrow> xs = []"
  by (cases xs) auto

locale time_series = codec save load ssize ok
  for save :: "'a \<Rightarrow> u8 list" and load ssize ok
begin

lemma series_read:
  assumes "series_inv save ok written s" "written p = Some x"
  shows "\<exists>s'. ts_ReadPos save load fw p s = Some (Some x, s') \<and> series_inv save ok written s'"
proof -
  obtain rs where rs: "cache_ok s rs" "\<forall>(p, d)\<in>set rs. \<exists>x. written p = Some x \<and> d = save x" using assms(1) by (auto simp: series_inv_def)
  obtain data r where f: "ok x" "length (save x) < 2 ^ 32" "ts_files s (dp_nFile p) = Some data" "drop (unat (dp_nOffset p)) data = save x @ r"
    using assms unfolding series_inv_def by metis
  show ?thesis
  proof (cases "p \<in> fst ` set rs")
    case True
    then obtain d where d: "(p, d) \<in> set rs" by auto
    then have "d = save x" using rs(2) assms(2) by fastforce
    with d have "(p, save x) \<in> set rs" by simp
    from ReadFromCache_hit [OF rs(1) this load_save [OF f(1)]] obtain s' where
      "ReadFromCache load p s = (Some x, s')" "cache_ok s' rs" "ts_files s' = ts_files s" by blast
    then show ?thesis using assms(1) rs(2) by (auto simp: ts_ReadPos_def series_inv_def)
  next
    case False
    have "ts_ReadFile load (ts_files s) p = Some x" using f load_save [OF f(1)] by (simp add: ts_ReadFile_def)
    moreover obtain s' rs' where "cache_or_reset fw (save x) p s = Some s'" "cache_ok s' rs'" "set rs' \<subseteq> insert (p, save x) (set rs)" "ts_files s' = ts_files s"
      using cache_or_reset_ok [OF rs(1) f(2), of fw p] by blast
    moreover have "\<forall>(q, d)\<in>set rs'. \<exists>x. written q = Some x \<and> d = save x" using rs(2) assms(2) \<open>set rs' \<subseteq> insert (p, save x) (set rs)\<close> by blast
    ultimately show ?thesis using assms(1) ReadFromCache_miss [OF rs(1) False, of load] by (auto simp: ts_ReadPos_def series_inv_def)
  qed
qed

lemma series_write_fail:
  assumes "series_inv save ok written s" "ts_Write save create disk fw x s = Some (None, s')"
  shows "series_inv save ok written s'"
proof -
  obtain files l where g: "GetLastFilePath create (of_nat (length (save x))) (ts_files s) (ts_nLastFile s) = Some (None, files, l)"
    "s' = s\<lparr> ts_files := files, ts_nLastFile := l \<rparr>"
    using assms(2) by (auto simp: ts_Write_def Let_def split: option.splits prod.splits)
  have k: "\<forall>f data. ts_files s f = Some data \<longrightarrow> files f = Some data" using GetLastFilePath_ok [OF g(1)] by simp
  have "cache_ok s' rs = cache_ok s rs" for rs by (simp add: cache_ok_def g(2))
  then show ?thesis using assms(1) k unfolding series_inv_def by (simp add: g(2)) blast
qed

lemma series_write:
  assumes "series_inv save ok written s" "ok x" "length (save x) < 2 ^ 32" "length (ts_frame (save x)) \<le> disk"
    "ts_Write save create disk fw x s = Some (Some p, s')"
  shows "written p = None \<and> series_inv save ok (written(p \<mapsto> x)) s'"
proof -
  let ?f = "ts_frame (save x)"
  obtain nFile files l where g: "GetLastFilePath create (of_nat (length (save x))) (ts_files s) (ts_nLastFile s) = Some (Some nFile, files, l)"
    using assms(5) by (auto simp: ts_Write_def Let_def split: option.splits)
  have n: "unat (of_nat (length (save x)) :: u32) = length (save x)" using assms(3) by (simp add: unat_of_nat)
  have k: "\<forall>f data. ts_files s f = Some data \<longrightarrow> files f = Some data" using GetLastFilePath_ok [OF g] by simp
  obtain data where d: "files nFile = Some data" "length data + length (save x) + 8 \<le> MAX_FILE_SIZE" using GetLastFilePath_ok [OF g] n by auto
  define s1 where "s1 = s\<lparr> ts_files := files(nFile \<mapsto> data @ ?f), ts_nLastFile := l \<rparr>"
  have p: "p = CDiskPos nFile (of_nat (length data + 8))" "cache_or_reset fw (save x) p s1 = Some s'"
    using assms(4,5) g d by (auto simp: ts_Write_def Let_def s1_def)
  have off: "unat (dp_nOffset p) = length data + 8" using d(2) by (simp add: p(1) MAX_FILE_SIZE_def unat_of_nat del: of_nat_add)
  obtain rs where rs: "cache_ok s rs" "\<forall>(p, d)\<in>set rs. \<exists>x. written p = Some x \<and> d = save x" using assms(1) by (auto simp: series_inv_def)
  have w: "ok y \<and> length (save y) < 2 ^ 32 \<and> (\<exists>data r. files (dp_nFile q) = Some data \<and> unat (dp_nOffset q) \<le> length data \<and> drop (unat (dp_nOffset q)) data = save y @ r)"
    if "written q = Some y" for q y using assms(1) that k unfolding series_inv_def by blast
  have new: "written p = None"
  proof (rule ccontr)
    assume "written p \<noteq> None"
    then obtain y where "written p = Some y" by blast
    from w [OF this] d(1) off show False by (auto simp: p(1))
  qed
  have "cache_ok s1 rs" using rs(1) by (simp add: cache_ok_def s1_def)
  from cache_or_reset_ok [OF this assms(3), of fw p] p(2) obtain rs' where rs': "cache_ok s' rs'" "set rs' \<subseteq> insert (p, save x) (set rs)" "ts_files s' = ts_files s1" by auto
  have "\<forall>(q, e)\<in>set rs'. \<exists>y. (written(p \<mapsto> x)) q = Some y \<and> e = save y" using rs(2) rs'(2) new by fastforce
  moreover have "\<exists>da r. ts_files s' (dp_nFile q) = Some da \<and> unat (dp_nOffset q) \<le> length da \<and> drop (unat (dp_nOffset q)) da = save y @ r"
    if q: "(written(p \<mapsto> x)) q = Some y" for q y
  proof (cases "q = p")
    case True
    have "drop (length data + 8) (data @ ?f) = save x @ []" by (simp add: ts_frame_def save_basic_def)
    then show ?thesis using True q rs'(3) off by (auto simp: s1_def p(1) ts_frame_def save_basic_def)
  next
    case False
    then have "written q = Some y" using q by simp
    from w [OF this] obtain da r where "files (dp_nFile q) = Some da" "unat (dp_nOffset q) \<le> length da" "drop (unat (dp_nOffset q)) da = save y @ r" by blast
    then show ?thesis using rs'(3) d(1) by (cases "dp_nFile q = nFile") (auto simp: s1_def)
  qed
  ultimately show ?thesis using new rs'(1) assms(2,3) w unfolding series_inv_def by (auto split: if_splits)
qed

lemma walk_records_frame:
  assumes "ok x" "length data \<le> MAX_FILE_SIZE" "drop n data = ts_frame (save x) @ r" "n < length data"
  shows "walk_records load walk f data n s = (case walk x f (of_nat (n + 8)) s of (False, s') \<Rightarrow> (WalkStop, n, s')
    | (True, s') \<Rightarrow> walk_records load walk f data (n + length (ts_frame (save x))) s')"
proof -
  let ?L = "length (save x)"
  have len: "length data = n + (?L + 8) + length r" using arg_cong [OF assms(3), of length] assms(4) by (simp add: length_frame)
  then have L: "?L < 2 ^ 32" "n + 8 + ?L < 2 ^ 32" using assms(2) by (simp_all add: MAX_FILE_SIZE_def)
  have l1: "(load_basic 4 :: u32 reader) (drop n data) = Inr (nMagicNum, save_basic 4 (of_nat ?L :: u32) @ save x @ r)"
    using cu32.load_save [of nMagicNum] by (simp add: assms(3) ts_frame_def)
  have l2: "(load_basic 4 :: u32 reader) (save_basic 4 (of_nat ?L :: u32) @ save x @ r) = Inr (of_nat ?L, save x @ r)"
    by (rule cu32.load_save) simp
  have "of_nat n + 8 + of_nat ?L = (of_nat (n + 8 + ?L) :: u32)" by simp
  then have w: "\<not> of_nat n + 8 + of_nat ?L > (of_nat (length data) :: u32)"
    using len assms(2) by (simp add: word_less_nat_alt unat_of_nat MAX_FILE_SIZE_def del: of_nat_add)
  have u: "uint (of_nat ?L :: u32) = int ?L" using L(1) by (simp add: uint_nat unat_of_nat)
  have e: "length data - length r = n + length (ts_frame (save x))" using len by (simp add: length_frame)
  have b: "\<not> n + 8 > length data" and i: "int (length data - length r) - int n - 8 = uint (of_nat ?L :: u32)" using len u by auto
  have "walk_records load walk f data n s = (case walk x f (of_nat (n + 8)) s of (False, s') \<Rightarrow> (WalkStop, n, s')
    | (True, s') \<Rightarrow> walk_records load walk f data (length data - length r) s')"
    using assms(4) b i l1 l2 w load_save [OF assms(1), of r] by (subst walk_records.simps) (simp add: Let_def)
  then show ?thesis unfolding e .
qed

lemma walk_records_torn:
  assumes "length data \<le> MAX_FILE_SIZE" "drop n data = take k (ts_frame d)" "k < length (ts_frame d)"
    "k = 0 \<or> n + length (ts_frame d) \<le> MAX_FILE_SIZE" "n \<le> length data"
  shows "walk_records load walk f data n s = (if k = 0 then WalkDone else WalkBad, n, s)"
proof (cases "k = 0 \<or> k < 8")
  case True
  then show ?thesis using arg_cong [OF assms(2), of length] assms(3,5) by (subst walk_records.simps) (auto simp: length_frame)
next
  case False
  let ?L = "length d"
  have len: "length data = n + k" using arg_cong [OF assms(2), of length] assms(3,5) by simp
  have k: "k = 8 + (k - 8)" "k - 8 < ?L" using False assms(3) by (auto simp: length_frame)
  have t: "take k (ts_frame d) = save_basic 4 nMagicNum @ save_basic 4 (of_nat ?L :: u32) @ take (k - 8) d"
    using False by (auto simp: ts_frame_def save_basic_def)
  have l1: "(load_basic 4 :: u32 reader) (drop n data) = Inr (nMagicNum, save_basic 4 (of_nat ?L :: u32) @ take (k - 8) d)"
    using cu32.load_save [of nMagicNum] by (simp add: assms(2) t)
  have l2: "(load_basic 4 :: u32 reader) (save_basic 4 (of_nat ?L :: u32) @ take (k - 8) d) = Inr (of_nat ?L, take (k - 8) d)"
    by (rule cu32.load_save) simp
  have "of_nat n + 8 + of_nat ?L = (of_nat (n + 8 + ?L) :: u32)" by simp
  then have w: "of_nat n + 8 + of_nat ?L > (of_nat (length data) :: u32)"
    using k len assms(1,4) False by (simp add: word_less_nat_alt unat_of_nat MAX_FILE_SIZE_def length_frame del: of_nat_add)
  show ?thesis using False len l1 l2 w by (subst walk_records.simps) simp
qed

lemma walk_records_file:
  assumes "list_all ok xs" "length data \<le> MAX_FILE_SIZE" "drop n data = file_bytes save xs @ take k (ts_frame d)" "k < length (ts_frame d)"
    "k = 0 \<or> n + length (file_bytes save xs) + length (ts_frame d) \<le> MAX_FILE_SIZE" "n \<le> length data"
  shows "walk_records load (\<lambda>t f q s. (True, collect t f q s)) f data n s =
    (if k = 0 then WalkDone else WalkBad, n + length (file_bytes save xs), fold (\<lambda>(t, f, q). collect t f q) (file_items save f n xs) s)"
  using assms(1,3,5,6)
proof (induction xs arbitrary: n s)
  case Nil
  have "walk_records load (\<lambda>t f q s. (True, collect t f q s)) f data n s = (if k = 0 then WalkDone else WalkBad, n, s)"
    using Nil by (intro walk_records_torn [OF assms(2) _ assms(4)]) simp_all
  then show ?case by simp
next
  case (Cons x xs)
  let ?m = "n + length (ts_frame (save x))"
  have d: "drop n data = ts_frame (save x) @ file_bytes save xs @ take k (ts_frame d)" using Cons.prems(2) by simp
  then have "length (drop n data) > 0" by (simp add: length_frame)
  then have n: "n < length data" by simp
  have "drop ?m data = drop (length (ts_frame (save x))) (drop n data)" by (simp add: add.commute)
  then have dm: "drop ?m data = file_bytes save xs @ take k (ts_frame d)" unfolding d by simp
  have m: "?m \<le> length data" using arg_cong [OF d, of length] n by simp
  have "walk_records load (\<lambda>t f q s. (True, collect t f q s)) f data n s = walk_records load (\<lambda>t f q s. (True, collect t f q s)) f data ?m (collect x f (of_nat (n + 8)) s)"
    using walk_records_frame [OF _ assms(2) d n, where walk = "\<lambda>t f q s. (True, collect t f q s)"] Cons.prems(1) by simp
  also have "\<dots> = (if k = 0 then WalkDone else WalkBad, ?m + length (file_bytes save xs), fold (\<lambda>(t, f, q). collect t f q) (file_items save f ?m xs) (collect x f (of_nat (n + 8)) s))"
    using Cons.prems(1,3) dm m by (intro Cons.IH) auto
  finally show ?case by simp
qed

lemma repair_torn:
  assumes "length xss = Suc i" "Suc i < 2 ^ 32 - 1" "torn \<noteq> []"
  shows "RepairFile True (\<lambda>_. True) (of_nat (Suc i)) (length (file_bytes save (xss ! i))) (series_files save xss torn)
    = Some (True, series_files save (if xss ! i = [] then butlast xss else xss) [])"
proof -
  let ?f = "of_nat (Suc i) :: u32" and ?F = "series_files save xss torn"
  have u: "unat ?f = Suc i" "unat (?f + 1) = Suc (Suc i)" using assms by (simp_all add: unat_of_nat unat_word_ariths del: of_nat_Suc)
  have uf: "f = ?f" if "unat f = Suc i" for f :: u32 using that u(1) by (metis word_unat_eq_iff)
  have F: "?F ?f = Some (file_bytes save (xss ! i) @ torn)" "?F (?f + 1) = None" using assms u by (simp_all add: series_files_def)
  show ?thesis
  proof (cases "xss ! i = []")
    case True
    have "?F(?f := None) = series_files save (butlast xss) []"
    proof (rule ext)
      fix f :: u32
      show "(?F(?f := None)) f = series_files save (butlast xss) [] f"
      proof (cases "unat f = Suc i")
        case True
        then show ?thesis using uf [OF True] assms by (simp add: series_files_def)
      next
        case False
        then have "f \<noteq> ?f" using u(1) by auto
        then show ?thesis using False assms by (auto simp: series_files_def nth_butlast)
      qed
    qed
    moreover have "(?F(?f := None)) (?f + 1) = None" using F(2) by simp
    ultimately have "RemoveFollowUpFile (\<lambda>_. True) ?f ?F = Some (True, series_files save (butlast xss) [])"
      using F(1) by (subst RemoveFollowUpFile.simps) (simp, subst RemoveFollowUpFile.simps, simp)
    then show ?thesis using True by (simp add: RepairFile_def)
  next
    case False
    have n: "length (file_bytes save (xss ! i)) > 0" using False by (simp add: file_bytes_empty)
    have t: "?F(?f := map_option (take (length (file_bytes save (xss ! i)))) (?F ?f)) = series_files save xss []"
    proof (rule ext)
      fix f :: u32
      show "(?F(?f := map_option (take (length (file_bytes save (xss ! i)))) (?F ?f))) f = series_files save xss [] f"
      proof (cases "unat f = Suc i")
        case True
        then show ?thesis using uf [OF True] assms F(1) by (simp add: series_files_def)
      next
        case False
        then have "f \<noteq> ?f" using u(1) by auto
        then show ?thesis using False assms by (simp add: series_files_def)
      qed
    qed
    have "series_files save xss [] (?f + 1) = None" using assms u by (simp add: series_files_def)
    then have "RemoveFollowUpFile (\<lambda>_. True) (?f + 1) (series_files save xss []) = Some (True, series_files save xss [])"
      by (subst RemoveFollowUpFile.simps) simp
    then show ?thesis using False n F(1) t by (simp add: RepairFile_def TruncateFile_def)
  qed
qed

lemma walk_series:
  assumes "length xss < 2 ^ 32 - 1" "\<forall>xs\<in>set xss. list_all ok xs \<and> length (file_bytes save xs) \<le> MAX_FILE_SIZE"
    "torn = take k (ts_frame d)" "k < length (ts_frame d)" "xss \<noteq> [] \<Longrightarrow> length (file_bytes save (last xss)) + length (ts_frame d) \<le> MAX_FILE_SIZE" "i \<le> length xss" "i = length xss \<Longrightarrow> k = 0 \<or> xss = []"
  shows "\<exists>nf n. WalkThrough_loop True (\<lambda>_. True) load (\<lambda>t f q s. (True, collect t f q s)) True (of_nat (Suc i)) l m (series_files save xss torn) s
    = Some (True, nf, n, series_files save (if k > 0 \<and> xss \<noteq> [] \<and> last xss = [] then butlast xss else xss) [], fold (\<lambda>(t, f, q). collect t f q) (series_items save i xss) s)"
  using assms(6,7)
proof (induction "length xss - i" arbitrary: i l m s)
  case 0
  then have i: "i = length xss" by simp
  have "series_files save xss torn = series_files save xss []" using 0 i assms(3) by (auto simp: series_files_def fun_eq_iff)
  moreover have "series_files save xss torn (of_nat (Suc i)) = None" using i assms(1) by (simp add: series_files_def unat_of_nat del: of_nat_Suc)
  moreover have "series_items save i xss = []" by (simp add: series_items_def i)
  ultimately show ?case using i 0 by (subst WalkThrough_loop.simps) (auto simp del: of_nat_Suc)
next
  case (Suc c)
  let ?f = "of_nat (Suc i) :: u32" and ?F = "series_files save xss torn" and ?w = "\<lambda>t f q s. (True, collect t f q s)"
  have i: "i < length xss" using Suc by simp
  have u: "unat ?f = Suc i" using i assms(1) by (simp add: unat_of_nat del: of_nat_Suc)
  have x: "list_all ok (xss ! i)" "length (file_bytes save (xss ! i)) \<le> MAX_FILE_SIZE" using assms(2) i by auto
  define data where "data = file_bytes save (xss ! i) @ (if Suc i = length xss then torn else [])"
  have F: "?F ?f = Some data" using i u by (simp add: series_files_def data_def)
  have it: "series_items save i xss = file_items save ?f 0 (xss ! i) @ series_items save (Suc i) xss" using i by (simp add: series_items_def upt_conv_Cons del: of_nat_Suc)
  show ?case
  proof (cases "Suc i = length xss \<and> 0 < k")
    case True
    then have ls: "length xss = Suc i" and k: "0 < k" by simp_all
    have ne: "xss \<noteq> []" using i by auto
    have la: "last xss = xss ! i" using ne by (simp add: last_conv_nth ls)
    have fit: "length (file_bytes save (xss ! i)) + length (ts_frame d) \<le> MAX_FILE_SIZE" using assms(5) [OF ne] by (simp add: la)
    have dd: "data = file_bytes save (xss ! i) @ take k (ts_frame d)" using ls assms(3) by (simp add: data_def)
    have dl: "length data \<le> MAX_FILE_SIZE" using fit assms(4) by (simp add: dd)
    have "walk_records load ?w ?f data 0 s = (if k = 0 then WalkDone else WalkBad, 0 + length (file_bytes save (xss ! i)), fold (\<lambda>(t, f, q). collect t f q) (file_items save ?f 0 (xss ! i)) s)"
      by (rule walk_records_file [OF x(1) dl _ assms(4)]) (use fit dd in simp_all)
    then have wr: "walk_records load ?w ?f data 0 s = (WalkBad, length (file_bytes save (xss ! i)), fold (\<lambda>(t, f, q). collect t f q) (file_items save ?f 0 (xss ! i)) s)"
      using k by simp
    have tn: "torn \<noteq> []" using k assms(3,4) by auto
    have si: "series_items save (Suc i) xss = []" by (simp add: series_items_def ls)
    have rep: "RepairFile True (\<lambda>_. True) ?f (length (file_bytes save (xss ! i))) ?F = Some (True, series_files save (if xss ! i = [] then butlast xss else xss) [])"
      by (rule repair_torn [OF ls _ tn]) (use assms(1) ls in simp)
    have "WalkThrough_loop True (\<lambda>_. True) load ?w True ?f l m ?F s = Some (True, ?f, length (file_bytes save (xss ! i)),
        series_files save (if xss ! i = [] then butlast xss else xss) [], fold (\<lambda>(t, f, q). collect t f q) (file_items save ?f 0 (xss ! i)) s)"
      by (subst WalkThrough_loop.simps) (use F dl wr rep in \<open>simp del: of_nat_Suc\<close>)
    then show ?thesis unfolding it si using k ne la by simp
  next
    case False
    then have dd: "data = file_bytes save (xss ! i) @ take 0 (ts_frame [])" using assms(3) by (auto simp: data_def)
    have dl: "length data \<le> MAX_FILE_SIZE" using x(2) by (simp add: dd)
    have "walk_records load ?w ?f data 0 s = (if (0::nat) = 0 then WalkDone else WalkBad, 0 + length (file_bytes save (xss ! i)), fold (\<lambda>(t, f, q). collect t f q) (file_items save ?f 0 (xss ! i)) s)"
      using x dl by (intro walk_records_file [where d = "[]"]) (auto simp: dd)
    then have "WalkThrough_loop True (\<lambda>_. True) load ?w True ?f l m ?F s = WalkThrough_loop True (\<lambda>_. True) load ?w True (of_nat (Suc (Suc i))) ?f
        (length (file_bytes save (xss ! i))) ?F (fold (\<lambda>(t, f, q). collect t f q) (file_items save ?f 0 (xss ! i)) s)"
      using F dl by (subst WalkThrough_loop.simps) (simp add: add.commute)
    moreover have "c = length xss - Suc i" "Suc i \<le> length xss" "Suc i = length xss \<Longrightarrow> k = 0 \<or> xss = []" using Suc.hyps(2) i False by auto
    note Suc.hyps(1) [OF this, of ?f "length (file_bytes save (xss ! i))" "fold (\<lambda>(t, f, q). collect t f q) (file_items save ?f 0 (xss ! i)) s"]
    ultimately show ?thesis unfolding it by (simp only: fold_append comp_apply)
  qed
qed

end

interpretation block_series: time_series save_CBlockEx load_CBlockEx size_CBlockEx_ser
  "\<lambda>b. block_ok b \<and> fits (bex_vTxContxt b) \<and> list_all (\<lambda>c. fits (ctxt_vin c)) (bex_vTxContxt b)" ..

definition blockex_ok :: "CBlockEx \<Rightarrow> bool" where
  "blockex_ok b \<longleftrightarrow> block_ok b \<and> fits (bex_vTxContxt b) \<and> list_all (\<lambda>c. fits (ctxt_vin c)) (bex_vTxContxt b)"

text \<open>
  The runs of a series of blocks: it starts over any files with an empty cache of any size; blocks are
  written completely or not at all, and read where they were written.
\<close>

inductive block_series_reach :: "(CDiskPos \<Rightarrow> CBlockEx option) \<Rightarrow> CTimeSeriesCached \<Rightarrow> bool" where
  bs_init: "ts_cacheStream s = \<lparr> cs_buf = cb_new n, cs_good = True \<rparr> \<Longrightarrow> ts_mapCachePos s = [] \<Longrightarrow> block_series_reach Map.empty s"
| bs_write: "block_series_reach written s \<Longrightarrow> blockex_ok b \<Longrightarrow> size_CBlockEx_ser b < 2 ^ 32 \<Longrightarrow> length (ts_frame (save_CBlockEx b)) \<le> disk
    \<Longrightarrow> ts_Write save_CBlockEx create disk fw b s = Some (Some p, s') \<Longrightarrow> block_series_reach (written(p \<mapsto> b)) s'"
| bs_fail: "block_series_reach written s \<Longrightarrow> ts_Write save_CBlockEx create disk fw b s = Some (None, s') \<Longrightarrow> block_series_reach written s'"
| bs_read: "block_series_reach written s \<Longrightarrow> p \<in> dom written \<Longrightarrow> ts_ReadPos save_CBlockEx load_CBlockEx fw p s = Some (r, s') \<Longrightarrow> block_series_reach written s'"

lemma block_series_inv: "block_series_reach written s \<Longrightarrow> series_inv save_CBlockEx blockex_ok written s"
proof (induction rule: block_series_reach.induct)
  case (bs_init s n)
  have "cache_ok s []" using bs_init cb_new_inv(1) [of n] cb_new_inv(3) [of n] by (simp add: cache_ok_def cs_inv_def ring_abs_def fun_eq_iff)
  then show ?case by (auto simp: series_inv_def intro: exI [of _ "[]"])
next
  case (bs_write written s b disk create fw p s')
  have l: "length (save_CBlockEx b) < 2 ^ 32" using bs_write.hyps(3) by (simp only: cblkex.ssize_save)
  show ?case using block_series.series_write [folded blockex_ok_def, OF bs_write.IH bs_write.hyps(2) l bs_write.hyps(4,5)] by blast
next
  case (bs_fail written s create disk fw b s')
  then show ?case using block_series.series_write_fail [folded blockex_ok_def] by blast
next
  case (bs_read written s p fw r s')
  then obtain b where "written p = Some b" by blast
  from block_series.series_read [folded blockex_ok_def, OF bs_read.IH this, of fw] bs_read.hyps(3) show ?case by auto
qed

text \<open>A write of a block that fits into a file returns where a later file number is free and files can be created.\<close>

lemma block_series_write_returns:
  assumes "block_series_reach written s" "size_CBlockEx_ser b + 8 \<le> MAX_FILE_SIZE" "ts_files s (ts_nLastFile s + of_nat k) = None"
  shows "\<exists>p s'. ts_Write save_CBlockEx True disk fw b s = Some (Some p, s')"
proof -
  let ?n = "length (save_CBlockEx b)"
  have n: "?n < 2 ^ 32" "?n + 8 \<le> MAX_FILE_SIZE" using assms(2) by (simp_all add: cblkex.ssize_save MAX_FILE_SIZE_def)
  have "unat (of_nat ?n :: u32) + 8 \<le> MAX_FILE_SIZE" using n by (simp add: unat_of_nat)
  from GetLastFilePath_returns [where files = "ts_files s", OF this assms(3)] obtain f files' l where g: "GetLastFilePath True (of_nat ?n) (ts_files s) (ts_nLastFile s) = Some (Some f, files', l)" by blast
  define s1 where "s1 = s\<lparr> ts_files := files'(f \<mapsto> the (files' f) @ take disk (ts_frame (save_CBlockEx b))), ts_nLastFile := l \<rparr>"
  obtain rs where "cache_ok s rs" using block_series_inv [OF assms(1)] by (auto simp: series_inv_def)
  then have "cache_ok s1 rs" by (simp add: cache_ok_def s1_def)
  then obtain s' where "cache_or_reset fw (save_CBlockEx b) (CDiskPos f (of_nat (length (the (files' f)) + 8))) s1 = Some s'"
    using cache_or_reset_ok [OF _ n(1)] by blast
  then show ?thesis using g by (simp add: ts_Write_def Let_def s1_def)
qed

text \<open>
  C11: a block is read back from where it was written.  After any run of writes and reads on the files of
  blocks, whatever the circular cache has kept or dropped in between and whichever file a block went
  to, reading a position that was returned for a block returns that block.
\<close>

theorem block_series_reads_back:
  assumes "block_series_reach written s" "written p = Some b"
  shows "\<exists>s'. ts_ReadPos save_CBlockEx load_CBlockEx fw p s = Some (Some b, s') \<and> block_series_reach written s'"
proof -
  obtain s' where "ts_ReadPos save_CBlockEx load_CBlockEx fw p s = Some (Some b, s')"
    using block_series.series_read [folded blockex_ok_def, OF block_series_inv [OF assms(1)] assms(2)] by blast
  moreover from this have "block_series_reach written s'" using assms bs_read by blast
  ultimately show ?thesis by blast
qed

text \<open>
  C12: blocks survive a crash.  Where complete writes have left files of blocks and a last write was cut
  off somewhere, the walk that repairs the files at the next start hands over exactly the complete
  blocks, in the order they were written and with their positions, and it removes the incomplete record
  and nothing else (and a last file that held nothing else).
\<close>

theorem block_walk_after_crash:
  assumes "length bss < 2 ^ 32 - 1" "\<forall>bs\<in>set bss. list_all blockex_ok bs \<and> length (file_bytes save_CBlockEx bs) \<le> MAX_FILE_SIZE"
    "bss \<noteq> []" "k < length (ts_frame (save_CBlockEx b))" "length (file_bytes save_CBlockEx (last bss)) + length (ts_frame (save_CBlockEx b)) \<le> MAX_FILE_SIZE"
  shows "\<exists>nf n. ts_WalkThrough True (\<lambda>_. True) load_CBlockEx (\<lambda>t f q s. (True, s @ [(t, f, q)])) True
      (series_files save_CBlockEx bss (take k (ts_frame (save_CBlockEx b)))) []
    = Some (True, nf, n, series_files save_CBlockEx (if k > 0 \<and> last bss = [] then butlast bss else bss) [], series_items save_CBlockEx 0 bss)"
proof -
  have c: "fold (\<lambda>(t, f, q) s. s @ [(t, f, q)]) xs s = s @ xs" for xs :: "(CBlockEx \<times> u32 \<times> u32) list" and s
    by (induction xs arbitrary: s) auto
  show ?thesis
    using block_series.walk_series [folded blockex_ok_def, OF assms(1,2) refl assms(4), of 0 "\<lambda>t f q s. s @ [(t, f, q)]" 0 0 "[]"] assms(3,5)
    by (simp add: ts_WalkThrough_def c)
qed

section \<open>An example\<close>

definition series_block :: CBlockEx where
  "series_block = \<lparr> blk_nVersion = 1, blk_nType = BLOCK_GENESIS, blk_nTimeStamp = 5, blk_hashPrev = 0, blk_hashMerkle = 0,
     blk_nBits = 0, blk_vchProof = [7], blk_txMint = tx_SetNull, blk_vtx = [], bex_vTxContxt = [] \<rparr>"

lemma series_block_ok: "blockex_ok series_block" "length (save_CBlockEx series_block) < 1000" "10 < length (save_CBlockEx series_block)"
proof -
  show "blockex_ok series_block" by (simp add: blockex_ok_def block_ok_def series_block_def tx_SetNull_def tx_ok_def fits_def)
  have "size_CBlockEx_ser series_block < 1000 \<and> 10 < size_CBlockEx_ser series_block" by code_simp
  then show "length (save_CBlockEx series_block) < 1000" "10 < length (save_CBlockEx series_block)" by (simp_all add: cblkex.ssize_save)
qed

theorem block_walk_after_crash_witness:
  "\<exists>nf n. ts_WalkThrough True (\<lambda>_. True) load_CBlockEx (\<lambda>t f q s. (True, s @ [(t, f, q)])) True
      (series_files save_CBlockEx [[series_block], []] (take 12 (ts_frame (save_CBlockEx series_block)))) []
    = Some (True, nf, n, series_files save_CBlockEx [[series_block]] [], [(series_block, 1, 8)])"
proof -
  have "list_all blockex_ok bs \<and> length (file_bytes save_CBlockEx bs) \<le> MAX_FILE_SIZE" if "bs \<in> set [[series_block], []]" for bs
    using that series_block_ok by (auto simp: length_frame MAX_FILE_SIZE_def)
  then show ?thesis using block_walk_after_crash [of "[[series_block], []]" 12 series_block] series_block_ok
    by (simp add: length_frame MAX_FILE_SIZE_def series_items_def upt_rec)
qed

theorem block_series_reads_back_witness:
  "\<exists>p s s'. block_series_reach [p \<mapsto> series_block] s \<and> ts_ReadPos save_CBlockEx load_CBlockEx True p s = Some (Some series_block, s')"
proof -
  define s where "s = \<lparr> ts_files = Map.empty, ts_nLastFile = 1, ts_cacheStream = \<lparr> cs_buf = cb_new 64, cs_good = True \<rparr>, ts_mapCachePos = [] \<rparr>"
  have r: "block_series_reach Map.empty s" by (rule bs_init [of _ 64]) (simp_all add: s_def)
  have l: "size_CBlockEx_ser series_block + 8 \<le> MAX_FILE_SIZE" "size_CBlockEx_ser series_block < 2 ^ 32"
    using series_block_ok(2) by (simp_all add: cblkex.ssize_save MAX_FILE_SIZE_def)
  obtain p s1 where w: "ts_Write save_CBlockEx True (length (ts_frame (save_CBlockEx series_block))) True series_block s = Some (Some p, s1)"
  proof -
    have "ts_files s (ts_nLastFile s + of_nat 0) = None" by (simp add: s_def)
    from block_series_write_returns [OF r l(1) this] that show thesis by blast
  qed
  have "block_series_reach [p \<mapsto> series_block] s1" by (rule bs_write [OF r series_block_ok(1) l(2) order_refl w])
  then show ?thesis using block_series_reads_back [of "[p \<mapsto> series_block]" s1 p series_block True] by auto
qed

end
