(* ===== verification/CTS_DB.thy ===== *)
theory CTS_DB
  imports Time_Series KV_Store
begin

text \<open>
  The time-series database of the transaction index (\<^verbatim>\<open>storage/ctsdb.h\<close>, \<^verbatim>\<open>ctsdb.cpp\<close> and
  \<^verbatim>\<open>txindexdb.cpp\<close>).  Entries are grouped by their time: changes are collected in memory, a flush writes
  the group of each time as one sorted chunk into files and its position into a key-value store, and a
  lookup takes the group from memory or searches the chunk by bisection.  The lemmas show that the
  database is one map, whatever is updated, erased, looked up and flushed in between.  The compression of the
  chunks (Snappy) is a parameter.
\<close>

section \<open>CTimeSeriesChunk\<close>

record CTimeSeriesChunk =
  tch_files :: ts_files
  tch_nLastFile :: u32

text \<open>
  What happens to a record that is written through \<^verbatim>\<open>CFileStream\<close>.  \<^verbatim>\<open>CStream::Write\<close> ignores the state of
  the stream, so that only an exception of another kind (\<open>IoThrow\<close>, after some bytes) is noticed.  Where the file
  cannot be opened or takes only some of the bytes (\<open>IoCut\<close>), the stream goes bad, later writes to it do
  nothing, and the two calls of \<^verbatim>\<open>GetCurPos\<close> around the object return what the file buffer answers,
  usually \<open>- 1\<close>.
\<close>

datatype file_io = IoDone | IoCut nat u64 u64 | IoThrow nat

text \<open>The file system as a batch meets it: whether a new file can be created, and what happens to each record.\<close>

record file_sys =
  fs_create :: bool
  fs_io :: "nat \<Rightarrow> file_io"

text \<open>The bytes of the file after a record and, unless an exception was thrown, the two positions and whether the stream is bad.\<close>

fun stream_record :: "file_io \<Rightarrow> bool \<Rightarrow> u8 list \<Rightarrow> u8 list \<Rightarrow> u8 list \<times> (u64 \<times> u64 \<times> bool) option" where
  "stream_record IoDone bad data bs =
     (if bad then (data, Some (- 1, - 1, True)) else (data @ bs, Some (of_nat (length data + 8), of_nat (length data + length bs), False)))"
| "stream_record (IoCut k nPos nNext) bad data bs = (if bad then data else data @ take k bs, Some (nPos, nNext, True))"
| "stream_record (IoThrow k) bad data bs = (if bad then data else data @ take k bs, None)"

text \<open>
  The inner loop of \<^verbatim>\<open>WriteBatch\<close> appends to one file as long as the next object fits.  The result tells
  whether no exception was thrown, and holds the bytes of the file, the number of records written, the rest of the
  batch and the positions.
\<close>

fun batch_inner :: "('a \<Rightarrow> u8 list) \<Rightarrow> (nat \<Rightarrow> file_io) \<Rightarrow> u32 \<Rightarrow> nat \<Rightarrow> bool \<Rightarrow> u8 list \<Rightarrow> 'a list \<Rightarrow> CDiskPos list
    \<Rightarrow> bool \<times> u8 list \<times> nat \<times> 'a list \<times> CDiskPos list" where
  "batch_inner sv io nFile n bad data [] vPos = (True, data, n, [], vPos)"
| "batch_inner sv io nFile n bad data (x # xs) vPos =
     (case stream_record (io n) bad data (ts_frame (sv x)) of
        (data', None) \<Rightarrow> (False, data', n, x # xs, vPos)
      | (data', Some (nOffset, nNext, bad')) \<Rightarrow>
          let vPos' = vPos @ [CDiskPos nFile (ucast nOffset)] in
          (case xs of
             [] \<Rightarrow> (True, data', n + 1, [], vPos')
           | y # ys \<Rightarrow> if nNext + of_nat (length (sv y)) + 8 \<le> of_nat MAX_FILE_SIZE then batch_inner sv io nFile (n + 1) bad' data' xs vPos'
               else (True, data', n + 1, xs, vPos')))"

partial_function (option) write_batch_loop :: "('a \<Rightarrow> u8 list) \<Rightarrow> file_sys \<Rightarrow> nat \<Rightarrow> 'a list \<Rightarrow> CDiskPos list \<Rightarrow> CTimeSeriesChunk
    \<Rightarrow> (bool \<times> CDiskPos list \<times> CTimeSeriesChunk) option" where
  "write_batch_loop sv fsys n vBatch vPos c =
     (case vBatch of
        [] \<Rightarrow> Some (True, vPos, c)
      | x # xs \<Rightarrow> (case GetLastFilePath (fs_create fsys) (of_nat (length (sv x))) (tch_files c) (tch_nLastFile c) of
            None \<Rightarrow> None
          | Some (None, files, nLast) \<Rightarrow> Some (False, vPos, \<lparr> tch_files = files, tch_nLastFile = nLast \<rparr>)
          | Some (Some nFile, files, nLast) \<Rightarrow>
              (case batch_inner sv (fs_io fsys) nFile n False (the (files nFile)) vBatch vPos of
                 (ok, data, n', rest, vPos') \<Rightarrow>
                   let c' = \<lparr> tch_files = files(nFile \<mapsto> data), tch_nLastFile = nLast \<rparr> in
                   if ok then write_batch_loop sv fsys n' rest vPos' c' else Some (False, vPos', c'))))"

definition tch_WriteBatch :: "('a \<Rightarrow> u8 list) \<Rightarrow> file_sys \<Rightarrow> 'a list \<Rightarrow> CTimeSeriesChunk \<Rightarrow> (bool \<times> CDiskPos list \<times> CTimeSeriesChunk) option" where
  "tch_WriteBatch sv fsys vBatch c = write_batch_loop sv fsys 0 vBatch [] c"

text \<open>
  A file system that notices its failures: whatever the streams are given reaches the file, unless an
  exception is thrown.  One that works completes everything.
\<close>

definition fs_noticed :: "file_sys \<Rightarrow> bool" where
  "fs_noticed fsys \<longleftrightarrow> (\<forall>n. case fs_io fsys n of IoCut _ _ _ \<Rightarrow> False | _ \<Rightarrow> True)"

definition fs_working :: file_sys where
  "fs_working = \<lparr> fs_create = True, fs_io = \<lambda>_. IoDone \<rparr>"

definition tch_Read :: "'a reader \<Rightarrow> CDiskPos \<Rightarrow> CTimeSeriesChunk \<Rightarrow> 'a option" where
  "tch_Read ld pos c = ts_ReadFile ld (tch_files c) pos"

section \<open>CCTSChunk\<close>

text \<open>Bisection; \<^verbatim>\<open>s\<close>, \<^verbatim>\<open>m\<close> and \<^verbatim>\<open>e\<close> are of type \<^verbatim>\<open>int\<close>.\<close>

function find_loop :: "('k::linorder \<times> 'v) list \<Rightarrow> 'k \<Rightarrow> int \<Rightarrow> int \<Rightarrow> 'v option" where
  "find_loop chunk k s e =
     (if s \<le> e then
        (let m = (s + e) div 2 in
         if fst (chunk ! nat m) < k then find_loop chunk k (m + 1) e
         else if fst (chunk ! nat m) > k then find_loop chunk k s (m - 1)
         else Some (snd (chunk ! nat m)))
      else None)"
  by auto
termination by (relation "measure (\<lambda>(chunk, k, s, e). nat (e - s + 1))") auto

declare find_loop.simps [simp del]

definition chunk_Find :: "('k::linorder \<times> 'v) list \<Rightarrow> 'k \<Rightarrow> 'v option" where
  "chunk_Find chunk k = find_loop chunk k 0 (int (length chunk) - 1)"

text \<open>The elements are written as they lie in memory; \<open>psave\<close> is that image of an element.\<close>

definition save_CCTSChunk :: "('a \<Rightarrow> u8 list) \<Rightarrow> 'a list \<Rightarrow> u8 list" where
  "save_CCTSChunk psave chunk = save_varint (of_nat (length chunk)) @ concat (map psave chunk)"

definition load_CCTSChunk :: "'a reader \<Rightarrow> 'a list reader" where
  "load_CCTSChunk pload = rbind load_varint (\<lambda>n. load_n pload (unat n))"

definition size_CCTSChunk_ser :: "('a \<Rightarrow> nat) \<Rightarrow> 'a list \<Rightarrow> nat" where
  "size_CCTSChunk_ser psize chunk = size_varint (of_nat (length chunk)) + (\<Sum>x\<leftarrow>chunk. psize x)"

text \<open>
  The compressed form.  Where the length after decompression is no multiple of the size \<open>n\<close> of an
  element, the decompression writes behind the vector.
\<close>

definition save_CCTSChunkSnappy :: "(u8 list \<Rightarrow> u8 list) \<Rightarrow> ('a \<Rightarrow> u8 list) \<Rightarrow> 'a list \<Rightarrow> u8 list" where
  "save_CCTSChunkSnappy snap psave chunk = save_string (snap (concat (map psave chunk)))"

definition load_CCTSChunkSnappy :: "(u8 list \<Rightarrow> u8 list) \<Rightarrow> nat \<Rightarrow> 'a reader \<Rightarrow> 'a list reader" where
  "load_CCTSChunkSnappy unsnap n pload = rbind load_string (\<lambda>strSnappy.
     let raw = unsnap strSnappy in
     if length raw mod n \<noteq> 0 then (\<lambda>_. Inl OutOfBounds)
     else (\<lambda>rest. map_sum id (\<lambda>(xs, _). (xs, rest)) (load_n pload (length raw div n) raw)))"

definition size_CCTSChunkSnappy_ser :: "(u8 list \<Rightarrow> u8 list) \<Rightarrow> ('a \<Rightarrow> u8 list) \<Rightarrow> 'a list \<Rightarrow> nat" where
  "size_CCTSChunkSnappy_ser snap psave chunk = size_string (snap (concat (map psave chunk)))"

section \<open>CCTSIndex\<close>

definition save_time :: "int \<Rightarrow> u8 list" where
  "save_time t = save_basic 8 (word_of_int t :: i64)"

definition load_time :: "int reader" where
  "load_time = rbind (load_basic 8 :: i64 reader) (\<lambda>w. rret (sint w))"

definition time_ok :: "int \<Rightarrow> bool" where
  "time_ok t \<longleftrightarrow> - (2 ^ 63) \<le> t \<and> t < 2 ^ 63"

definition ctsindex_Update :: "bool \<Rightarrow> int list \<Rightarrow> CDiskPos list \<Rightarrow> int list \<Rightarrow> CKVDB \<Rightarrow> bool \<times> CKVDB" where
  "ctsindex_Update status vTime vPos vDel d =
     (if length vTime \<noteq> length vPos then (False, d) else kv_txn save_time save_CDiskPos status (zip vTime vPos) vDel d)"

definition ctsindex_Retrieve :: "CKVDB \<Rightarrow> int \<Rightarrow> CDiskPos option" where
  "ctsindex_Retrieve d nTime = kv_Read save_time load_CDiskPos d nTime"

section \<open>CCTSDB\<close>

text \<open>
  Of the two maps of \<^verbatim>\<open>CDblMap\<close> only the upper one is used, since \<^verbatim>\<open>Flip\<close> is never called.  \<open>csave\<close> and
  \<open>cload\<close> are the serialisation of the chunks.
\<close>

type_synonym ('k, 'v) cts_map = "(int \<times> ('k \<times> 'v) list) list"

record ('k, 'v) CCTSDB =
  cts_dbIndex :: CKVDB
  cts_tsChunk :: CTimeSeriesChunk
  cts_upper :: "('k, 'v) cts_map"

definition FLUSH_THRESH :: nat where "FLUSH_THRESH = 1000"

definition CACHE_UPPER_DURATION :: int where "CACHE_UPPER_DURATION = 600"

definition cts_LoadFromFile :: "('k \<times> 'v) list reader \<Rightarrow> int \<Rightarrow> ('k, 'v) CCTSDB \<Rightarrow> ('k \<times> 'v) list option" where
  "cts_LoadFromFile cload nTime db = (case ctsindex_Retrieve (cts_dbIndex db) nTime of None \<Rightarrow> None | Some pos \<Rightarrow> tch_Read cload pos (cts_tsChunk db))"

text \<open>\<^verbatim>\<open>insert(chunk.begin(), chunk.end())\<close> into a map.\<close>

definition map_insert_all :: "('k::linorder \<times> 'v) list \<Rightarrow> ('k \<times> 'v) list \<Rightarrow> ('k \<times> 'v) list" where
  "map_insert_all chunk m = fold (\<lambda>(k, v). std_insert k v) chunk m"

definition cts_GetUpdateMap :: "('k::linorder \<times> 'v) list reader \<Rightarrow> int \<Rightarrow> ('k, 'v) CCTSDB \<Rightarrow> ('k \<times> 'v) list" where
  "cts_GetUpdateMap cload nTime db = (case map_of (cts_upper db) nTime of
     Some m \<Rightarrow> m
   | None \<Rightarrow> (case cts_LoadFromFile cload nTime db of Some chunk \<Rightarrow> map_insert_all chunk [] | None \<Rightarrow> []))"

definition cts_Update :: "('k::linorder \<times> 'v) list reader \<Rightarrow> int \<Rightarrow> 'k \<Rightarrow> 'v \<Rightarrow> ('k, 'v) CCTSDB \<Rightarrow> ('k, 'v) CCTSDB" where
  "cts_Update cload nTime key v db = db\<lparr> cts_upper := std_assign nTime (std_assign key v (cts_GetUpdateMap cload nTime db)) (cts_upper db) \<rparr>"

definition cts_Erase :: "('k::linorder \<times> 'v) list reader \<Rightarrow> int \<Rightarrow> 'k \<Rightarrow> ('k, 'v) CCTSDB \<Rightarrow> ('k, 'v) CCTSDB" where
  "cts_Erase cload nTime key db = db\<lparr> cts_upper := std_assign nTime (std_erase key (cts_GetUpdateMap cload nTime db)) (cts_upper db) \<rparr>"

definition cts_Retrieve :: "('k::linorder \<times> 'v) list reader \<Rightarrow> bool \<Rightarrow> int \<Rightarrow> 'k \<Rightarrow> ('k, 'v) CCTSDB \<Rightarrow> 'v option \<times> ('k, 'v) CCTSDB" where
  "cts_Retrieve cload fSaveLoad nTime key db = (case map_of (cts_upper db) nTime of
     Some m \<Rightarrow> (map_of m key, db)
   | None \<Rightarrow> (case cts_LoadFromFile cload nTime db of
         None \<Rightarrow> (None, db)
       | Some chunk \<Rightarrow> (chunk_Find chunk key,
           if fSaveLoad then db\<lparr> cts_upper := dropWhile (\<lambda>(t, _). \<not> t > nTime - CACHE_UPPER_DURATION)
               (std_assign nTime (map_insert_all chunk []) (cts_upper db)) \<rparr>
           else db)))"

definition cts_Flush :: "(('k \<times> 'v) list \<Rightarrow> u8 list) \<Rightarrow> file_sys \<Rightarrow> bool \<Rightarrow> bool \<Rightarrow> ('k, 'v) CCTSDB \<Rightarrow> (bool \<times> ('k, 'v) CCTSDB) option" where
  "cts_Flush csave fsys status fAll db =
     (let flushMap = cts_upper db;
          vDel = map fst (filter (\<lambda>(t, m). m = []) flushMap);
          vTime = map fst (filter (\<lambda>(t, m). m \<noteq> []) flushMap);
          vChunk = map snd (filter (\<lambda>(t, m). m \<noteq> []) flushMap) in
      if \<not> fAll \<and> length flushMap < FLUSH_THRESH then Some (False, db)
      else case (if vChunk \<noteq> [] then tch_WriteBatch csave fsys vChunk (cts_tsChunk db) else Some (True, [], cts_tsChunk db)) of
          None \<Rightarrow> None
        | Some (False, vPos, c) \<Rightarrow> Some (False, db\<lparr> cts_tsChunk := c \<rparr>)
        | Some (True, vPos, c) \<Rightarrow>
            if vPos \<noteq> [] \<or> vDel \<noteq> [] then
              (case ctsindex_Update status vTime vPos vDel (cts_dbIndex db) of
                 (False, d) \<Rightarrow> Some (False, db\<lparr> cts_tsChunk := c, cts_dbIndex := d \<rparr>)
               | (True, d) \<Rightarrow> Some (True, db\<lparr> cts_tsChunk := c, cts_dbIndex := d, cts_upper := [] \<rparr>))
            else Some (True, db\<lparr> cts_tsChunk := c, cts_upper := [] \<rparr>))"

definition cts_RemoveAll :: "bool \<Rightarrow> ('k, 'v) CCTSDB \<Rightarrow> ('k, 'v) CCTSDB" where
  "cts_RemoveAll status db = db\<lparr> cts_dbIndex := snd (kv_RemoveAll status (cts_dbIndex db)), cts_upper := [] \<rparr>"

section \<open>Bisection\<close>

lemma std_sorted_nth: "std_sorted m \<Longrightarrow> i < j \<Longrightarrow> j < length m \<Longrightarrow> fst (m ! i) < fst (m ! j)"
  by (auto simp: sorted_wrt_iff_nth_less)

lemma find_loop_ok:
  assumes "std_sorted chunk" "0 \<le> s" "e < int (length chunk)" "\<And>i. i < length chunk \<Longrightarrow> fst (chunk ! i) = k \<Longrightarrow> s \<le> int i \<and> int i \<le> e"
  shows "find_loop chunk k s e = map_of chunk k"
  using assms
proof (induction chunk k s e rule: find_loop.induct)
  case (1 chunk k s e)
  define m where "m = (s + e) div 2"
  show ?case
  proof (cases "s \<le> e")
    case False
    then have "k \<notin> fst ` set chunk" using 1(6) by (fastforce simp: in_set_conv_nth)
    then show ?thesis using False by (subst find_loop.simps) (simp add: eq_commute [of None] map_of_eq_None_iff)
  next
    case True
    then have m: "s \<le> m" "m \<le> e" "0 \<le> m" "nat m < length chunk" using 1(4,5) by (auto simp: m_def)
    have lt: "find_loop chunk k (m + 1) e = map_of chunk k" if l: "fst (chunk ! nat m) < k"
    proof (rule 1(1) [OF True m_def l 1(3)])
      show "m + 1 \<le> int i \<and> int i \<le> e" if i: "i < length chunk" "fst (chunk ! i) = k" for i
      proof -
        have "\<not> i \<le> nat m" using std_sorted_nth [OF 1(3), of i "nat m"] m(4) l i by (cases "i = nat m") auto
        then show ?thesis using 1(6) [OF i] m by auto
      qed
    qed (use m 1(5) in auto)
    have gt: "find_loop chunk k s (m - 1) = map_of chunk k" if l: "\<not> fst (chunk ! nat m) < k" "fst (chunk ! nat m) > k"
    proof (rule 1(2) [OF True m_def l 1(3,4)])
      show "s \<le> int i \<and> int i \<le> m - 1" if i: "i < length chunk" "fst (chunk ! i) = k" for i
      proof -
        have "\<not> nat m \<le> i" using std_sorted_nth [OF 1(3), of "nat m" i] l i by (cases "i = nat m") auto
        then show ?thesis using 1(6) [OF i] m by auto
      qed
    qed (use m 1(5) in auto)
    have eq: "map_of chunk k = Some (snd (chunk ! nat m))" if "fst (chunk ! nat m) = k"
      using that m(4) by (intro map_of_is_SomeI std_sorted_distinct [OF 1(3)]) (metis nth_mem prod.collapse)
    show ?thesis using True lt gt eq by (subst find_loop.simps) (auto simp: Let_def m_def)
  qed
qed

lemma chunk_Find_ok: "std_sorted chunk \<Longrightarrow> chunk_Find chunk k = map_of chunk k"
  unfolding chunk_Find_def by (rule find_loop_ok) auto

section \<open>What the files hold\<close>

definition held :: "u8 list \<Rightarrow> CDiskPos \<Rightarrow> u8 list \<Rightarrow> bool" where
  "held data p bs \<longleftrightarrow> unat (dp_nOffset p) \<le> length data \<and> (\<exists>r. drop (unat (dp_nOffset p)) data = bs @ r)"

definition holds :: "ts_files \<Rightarrow> CDiskPos \<Rightarrow> u8 list \<Rightarrow> bool" where
  "holds files p bs \<longleftrightarrow> (case files (dp_nFile p) of None \<Rightarrow> False | Some data \<Rightarrow> held data p bs)"

lemma held_append: "held data p bs \<Longrightarrow> held (data @ r) p bs"
  by (auto simp: held_def)

definition extends :: "ts_files \<Rightarrow> ts_files \<Rightarrow> bool" where
  "extends files files' \<longleftrightarrow> (\<forall>f data. files f = Some data \<longrightarrow> (\<exists>r. files' f = Some (data @ r)))"

lemma holds_extends:
  assumes "holds files p bs" "extends files files'"
  shows "holds files' p bs"
proof -
  obtain data where d: "files (dp_nFile p) = Some data" "held data p bs" using assms(1) by (auto simp: holds_def split: option.splits)
  then obtain r where "files' (dp_nFile p) = Some (data @ r)" using assms(2) by (auto simp: extends_def)
  then show ?thesis using held_append [OF d(2)] by (simp add: holds_def)
qed

lemma extends_trans: "extends a b \<Longrightarrow> extends b c \<Longrightarrow> extends a c"
  unfolding extends_def by (metis append.assoc)

lemma extends_refl [simp]: "extends a a"
  by (auto simp: extends_def)

lemma GetLastFilePath_extends: "GetLastFilePath create n files nLast = Some (r, files', l) \<Longrightarrow> extends files files'"
  using GetLastFilePath_ok [of create n files nLast "(r, files', l)"] by (auto simp: extends_def)

lemma stream_record_extends: "stream_record e bad data bs = (data', r) \<Longrightarrow> \<exists>r. data' = data @ r"
  by (cases e) (auto split: if_splits)

text \<open>Whatever happens, the file keeps its bytes, and a batch that goes on has written a record.\<close>

lemma batch_inner_extends:
  "batch_inner sv io f n bad data xs vPos = (ok, data', n', rest, vPos') \<Longrightarrow>
   (\<exists>r. data' = data @ r) \<and> (\<exists>xs1. xs = xs1 @ rest \<and> (ok \<longrightarrow> xs \<noteq> [] \<longrightarrow> xs1 \<noteq> [])) \<and> length vPos' + length rest = length vPos + length xs"
proof (induction sv io f n bad data xs vPos arbitrary: ok data' n' rest vPos' rule: batch_inner.induct)
  case (2 sv io f n bad data x xs vPos)
  obtain d1 r where s: "stream_record (io n) bad data (ts_frame (sv x)) = (d1, r)" by fastforce
  obtain e where e: "d1 = data @ e" using stream_record_extends [OF s] by blast
  show ?case
  proof (cases r)
    case None
    then show ?thesis using 2(2) s e by auto
  next
    case (Some t)
    obtain p q b where t: "r = Some (p, q, b)" using Some by (cases t) auto
    show ?thesis
    proof (cases "\<exists>y ys. xs = y # ys \<and> q + of_nat (length (sv y)) + 8 \<le> of_nat MAX_FILE_SIZE")
      case True
      then obtain y ys where xs: "xs = y # ys" "q + of_nat (length (sv y)) + 8 \<le> of_nat MAX_FILE_SIZE" by blast
      have i: "batch_inner sv io f (n + 1) b d1 xs (vPos @ [CDiskPos f (ucast p)]) = (ok, data', n', rest, vPos')"
        using 2(2) s t xs by (simp add: Let_def)
      from 2(1) [OF s [symmetric] t refl refl refl xs i] obtain xs1 where "xs = xs1 @ rest" "\<exists>r. data' = d1 @ r" "length vPos' + length rest = length vPos + 1 + length xs" by auto
      then show ?thesis using e by (intro conjI exI [of _ "x # xs1"]) auto
    next
      case False
      then show ?thesis using 2(2) s t e by (intro conjI exI [of _ "[x]"]) (auto simp: Let_def split: list.splits)
    qed
  qed
qed auto

lemma unat_offset: "n < 2 ^ 32 \<Longrightarrow> unat (ucast (of_nat n :: u64) :: u32) = n"
proof -
  assume n: "n < 2 ^ 32"
  have "unat (ucast (of_nat n :: u64) :: u32) = take_bit 32 (unat (of_nat n :: u64))" by (simp add: unsigned_ucast_eq)
  also have "unat (of_nat n :: u64) = n" using n by (simp add: unat_of_nat)
  finally show ?thesis using n by (simp add: take_bit_nat_eq_self)
qed

text \<open>Where failures are noticed, the positions of the written records hold their objects.\<close>

lemma batch_inner_ok:
  assumes "batch_inner sv io f n False data xs vPos = (ok, data', n', rest, vPos')" "\<forall>n. case io n of IoCut _ _ _ \<Rightarrow> False | _ \<Rightarrow> True"
    "xs \<noteq> [] \<Longrightarrow> length data + length (sv (hd xs)) + 8 \<le> MAX_FILE_SIZE" "\<forall>x\<in>set xs. length (sv x) < 2 ^ 32"
  shows "\<exists>xs1 ps. xs = xs1 @ rest \<and> vPos' = vPos @ ps \<and> list_all2 (\<lambda>p x. dp_nFile p = f \<and> held data' p (sv x)) ps xs1"
  using assms(1,3,4)
proof (induction xs arbitrary: n data vPos)
  case (Cons x xs)
  let ?d = "data @ ts_frame (sv x)" and ?p = "CDiskPos f (ucast (of_nat (length data + 8) :: u64))"
  have fit: "length data + length (sv x) + 8 \<le> MAX_FILE_SIZE" using Cons.prems(2) by simp
  have off: "unat (ucast (of_nat (length data + 8) :: u64) :: u32) = length data + 8"
    by (rule unat_offset) (use fit in \<open>simp add: MAX_FILE_SIZE_def\<close>)
  have h: "held ?d ?p (sv x)" unfolding held_def using off by (auto simp: ts_frame_def save_basic_def)
  have len: "length (ts_frame (sv x)) = length (sv x) + 8" by (simp add: ts_frame_def save_basic_def)
  show ?case
  proof (cases "io n")
    case IoDone
    let ?q = "of_nat (length data + length (ts_frame (sv x))) :: u64"
    show ?thesis
    proof (cases "\<exists>y ys. xs = y # ys \<and> ?q + of_nat (length (sv y)) + 8 \<le> of_nat MAX_FILE_SIZE")
      case True
      then obtain y ys where xs: "xs = y # ys" "?q + of_nat (length (sv y)) + 8 \<le> of_nat MAX_FILE_SIZE" by blast
      have y: "length (sv y) < 2 ^ 32" using Cons.prems(3) xs(1) by simp
      have "unat (?q + of_nat (length (sv y)) + 8) = length ?d + length (sv y) + 8"
      proof -
        have "?q + of_nat (length (sv y)) + 8 = of_nat (length ?d + length (sv y) + 8)" by simp
        then show ?thesis using y fit len by (simp only: unat_of_nat) (simp add: MAX_FILE_SIZE_def)
      qed
      then have c: "length ?d + length (sv y) + 8 \<le> MAX_FILE_SIZE" using xs(2) by (simp add: word_le_nat_alt unat_of_nat MAX_FILE_SIZE_def)
      have b: "batch_inner sv io f (n + 1) False ?d xs (vPos @ [?p]) = (ok, data', n', rest, vPos')"
        using Cons.prems(1) xs IoDone by (simp add: Let_def del: of_nat_add)
      obtain xs1 ps where r: "xs = xs1 @ rest" "vPos' = (vPos @ [?p]) @ ps" "list_all2 (\<lambda>p x. dp_nFile p = f \<and> held data' p (sv x)) ps xs1"
        using Cons.IH [OF b] c xs(1) Cons.prems(3) by auto
      obtain e where "data' = ?d @ e" using batch_inner_extends [OF b] by blast
      then have "held data' ?p (sv x)" using held_append [OF h, of e] by simp
      then show ?thesis using r by (intro exI [of _ "x # xs1"] exI [of _ "?p # ps"]) auto
    next
      case False
      then have "data' = ?d" "rest = xs" "vPos' = vPos @ [?p]" using Cons.prems(1) IoDone by (auto simp: Let_def split: list.splits simp del: of_nat_add)
      then show ?thesis using h by (intro exI [of _ "[x]"] exI [of _ "[?p]"]) auto
    qed
  next
    case (IoThrow k)
    then show ?thesis using Cons.prems(1) by auto
  next
    case (IoCut k p q)
    moreover have "case io n of IoCut _ _ _ \<Rightarrow> False | _ \<Rightarrow> True" using assms(2) by (rule spec)
    ultimately show ?thesis by simp
  qed
qed auto

lemma holds_read: "holds files p bs \<Longrightarrow> (\<And>r. ld (bs @ r) = Inr (x, r)) \<Longrightarrow> ts_ReadFile ld files p = Some x"
  by (auto simp: holds_def held_def ts_ReadFile_def split: option.splits)

text \<open>The positions that a batch returns hold its objects, and what the files held before stays.\<close>

lemma write_batch_extends:
  assumes "write_batch_loop sv fsys n vBatch vPos c = Some (ok, vPos', c')"
  shows "extends (tch_files c) (tch_files c') \<and> (ok \<longrightarrow> length vPos' = length vPos + length vBatch)"
  using assms
proof (induction "length vBatch" arbitrary: n vBatch vPos c rule: less_induct)
  case less
  show ?case
  proof (cases vBatch)
    case Nil
    then show ?thesis using less.prems by (subst (asm) write_batch_loop.simps) auto
  next
    case (Cons x xs)
    obtain r files l where g: "GetLastFilePath (fs_create fsys) (of_nat (length (sv x))) (tch_files c) (tch_nLastFile c) = Some (r, files, l)"
      using less.prems Cons by (subst (asm) write_batch_loop.simps) (auto split: option.splits)
    note e = GetLastFilePath_extends [OF g]
    show ?thesis
    proof (cases r)
      case None
      then have "tch_files c' = files" "\<not> ok" using less.prems Cons g by (subst (asm) write_batch_loop.simps, auto)+
      then show ?thesis using e by simp
    next
      case (Some f)
      obtain data where d: "files f = Some data" using GetLastFilePath_ok [OF g] Some by auto
      obtain w data' n' rest vPos1 where b: "batch_inner sv (fs_io fsys) f n False data vBatch vPos = (w, data', n', rest, vPos1)" by (metis prod_cases5)
      note i = batch_inner_extends [OF b]
      let ?c = "\<lparr> tch_files = files(f \<mapsto> data'), tch_nLastFile = l \<rparr>"
      have e1: "extends (tch_files c) (files(f \<mapsto> data'))" using e d i unfolding extends_def by (metis append.assoc fun_upd_apply option.inject)
      show ?thesis
      proof (cases w)
        case True
        have w: "write_batch_loop sv fsys n' rest vPos1 ?c = Some (ok, vPos', c')"
          using less.prems Cons g Some d b True by (subst (asm) write_batch_loop.simps) (simp add: Let_def)
        have "length rest < length vBatch" using i True Cons by (metis length_append list.distinct(1) length_greater_0_conv less_add_same_cancel2)
        from less.hyps [OF this w] show ?thesis using extends_trans [OF e1] i by simp
      next
        case False
        then have "c' = ?c" "\<not> ok" using less.prems Cons g Some d b by (subst (asm) write_batch_loop.simps, simp add: Let_def)+
        then show ?thesis using e1 by simp
      qed
    qed
  qed
qed

lemma write_batch_ok:
  assumes "write_batch_loop sv fsys n vBatch vPos c = Some (True, vPos', c')" "fs_noticed fsys" "\<forall>x\<in>set vBatch. length (sv x) < 2 ^ 32"
  shows "\<exists>ps. vPos' = vPos @ ps \<and> list_all2 (\<lambda>p x. holds (tch_files c') p (sv x)) ps vBatch"
  using assms(1,3)
proof (induction "length vBatch" arbitrary: n vBatch vPos c rule: less_induct)
  case less
  show ?case
  proof (cases vBatch)
    case Nil
    then show ?thesis using less.prems(1) by (subst (asm) write_batch_loop.simps) auto
  next
    case (Cons x xs)
    obtain r files l where g: "GetLastFilePath (fs_create fsys) (of_nat (length (sv x))) (tch_files c) (tch_nLastFile c) = Some (r, files, l)"
      using less.prems(1) Cons by (subst (asm) write_batch_loop.simps) (auto split: option.splits)
    obtain f where f: "r = Some f" using less.prems(1) Cons g by (subst (asm) write_batch_loop.simps) (auto split: option.splits)
    have u: "unat (of_nat (length (sv x)) :: u32) = length (sv x)" using less.prems(2) Cons by (simp add: unat_of_nat)
    obtain data where d: "files f = Some data" "length data + length (sv x) + 8 \<le> MAX_FILE_SIZE" using GetLastFilePath_ok [OF g] f u by auto
    obtain w data' n' rest vPos1 where b: "batch_inner sv (fs_io fsys) f n False data vBatch vPos = (w, data', n', rest, vPos1)" by (metis prod_cases5)
    let ?c = "\<lparr> tch_files = files(f \<mapsto> data'), tch_nLastFile = l \<rparr>"
    have w: "w" "write_batch_loop sv fsys n' rest vPos1 ?c = Some (True, vPos', c')"
      using less.prems(1) Cons g f d b by (subst (asm) write_batch_loop.simps, simp add: Let_def split: if_splits)+
    obtain xs1 ps where i: "vBatch = xs1 @ rest" "vPos1 = vPos @ ps" "list_all2 (\<lambda>p x. dp_nFile p = f \<and> held data' p (sv x)) ps xs1"
      using batch_inner_ok [OF b] assms(2) d(2) less.prems(2) Cons by (auto simp: fs_noticed_def)
    have lt: "length rest < length vBatch" using batch_inner_extends [OF b] w(1) Cons by (metis length_append list.distinct(1) length_greater_0_conv less_add_same_cancel2)
    have "\<forall>x\<in>set rest. length (sv x) < 2 ^ 32" using less.prems(2) i(1) by simp
    from less.hyps [OF lt w(2) this] obtain ps' where ih: "vPos' = vPos1 @ ps'" "list_all2 (\<lambda>p x. holds (tch_files c') p (sv x)) ps' rest" by blast
    note ext = write_batch_extends [OF w(2), THEN conjunct1]
    have "holds (tch_files c') p (sv y)" if "dp_nFile p = f \<and> held data' p (sv y)" for p y
      using that by (intro holds_extends [OF _ ext]) (simp add: holds_def)
    then have "list_all2 (\<lambda>p x. holds (tch_files c') p (sv x)) ps xs1" using i(3) by (simp add: list_all2_conv_all_nth)
    then have "list_all2 (\<lambda>p x. holds (tch_files c') p (sv x)) (ps @ ps') vBatch" using ih(2) i(1) by (simp add: list_all2_appendI)
    then show ?thesis using ih(1) i(2) by simp
  qed
qed

text \<open>The files are numbered from one without a gap, and the last file is the last of them or the next one.\<close>

definition tch_contig :: "CTimeSeriesChunk \<Rightarrow> bool" where
  "tch_contig c \<longleftrightarrow> (\<exists>n. (\<forall>f. tch_files c f \<noteq> None \<longleftrightarrow> 1 \<le> unat f \<and> unat f \<le> n) \<and> 1 \<le> unat (tch_nLastFile c)
     \<and> (unat (tch_nLastFile c) = n \<or> unat (tch_nLastFile c) = n + 1))"

text \<open>As long as file numbers are left, a file for a small object is found, unless the file system refuses to create it.\<close>

lemma GetLastFilePath_contig:
  assumes "tch_contig \<lparr> tch_files = files, tch_nLastFile = nLast \<rparr>" "unat n + 8 \<le> MAX_FILE_SIZE" "unat nLast + 1 < 2 ^ 32"
  shows "\<exists>r files' l. GetLastFilePath create n files nLast = Some (r, files', l) \<and> tch_contig \<lparr> tch_files = files', tch_nLastFile = l \<rparr>
    \<and> unat l \<le> unat nLast + 1 \<and> (create \<longrightarrow> r \<noteq> None) \<and> (\<forall>f. r = Some f \<longrightarrow> files' f \<noteq> None)"
proof -
  have u: "unat (nLast + 1) = unat nLast + 1" using assms(3) by (simp add: unat_word_ariths)
  obtain k where k: "\<forall>f. files f \<noteq> None \<longleftrightarrow> 1 \<le> unat f \<and> unat f \<le> k" "1 \<le> unat nLast" "unat nLast = k \<or> unat nLast = k + 1"
    using assms(1) by (auto simp: tch_contig_def)
  have next_None: "files (nLast + 1) = None" using k u by (metis le_add1 not_less_eq_eq Suc_eq_plus1 le_SucI)
  have contig: "tch_contig \<lparr> tch_files = files(l \<mapsto> []), tch_nLastFile = l \<rparr>" if e: "unat l = k + 1" for l
  proof -
    have "(files(l \<mapsto> [])) f \<noteq> None \<longleftrightarrow> 1 \<le> unat f \<and> unat f \<le> k + 1" for f
      using k(1) e by (auto simp: le_Suc_eq word_unat_eq_iff [of _ l])
    then show ?thesis unfolding tch_contig_def using e by (intro exI [of _ "k + 1"]) simp
  qed
  consider (new) "files nLast = None" | (fit) data where "files nLast = Some data" "length data + unat n + 8 \<le> MAX_FILE_SIZE"
    | (full) data where "files nLast = Some data" "\<not> length data + unat n + 8 \<le> MAX_FILE_SIZE" by (cases "files nLast") auto
  then show ?thesis
  proof cases
    case new
    then have "unat nLast = k + 1" using k by (metis order_refl)
    then show ?thesis using assms(1,2) new contig by (subst GetLastFilePath.simps) auto
  next
    case fit
    then show ?thesis using assms(1) by (subst GetLastFilePath.simps) auto
  next
    case full
    have e: "unat nLast = k" using k full(1) by (metis option.distinct(1) Suc_n_not_le_n Suc_eq_plus1)
    have "GetLastFilePath create n files nLast = GetLastFilePath create n files (nLast + 1)" using full by (subst GetLastFilePath.simps) auto
    also have "\<dots> = Some (if create then (Some (nLast + 1), files(nLast + 1 \<mapsto> []), nLast + 1) else (None, files, nLast + 1))"
      using assms(2) next_None by (subst GetLastFilePath.simps) auto
    finally have g: "GetLastFilePath create n files nLast = \<dots>" .
    have "tch_contig \<lparr> tch_files = files, tch_nLastFile = nLast + 1 \<rparr>" unfolding tch_contig_def using k(1) e u by (intro exI [of _ k]) simp
    then show ?thesis unfolding g using contig [of "nLast + 1"] e u by (cases create) auto
  qed
qed

lemma tch_contig_upd: "tch_contig \<lparr> tch_files = files, tch_nLastFile = l \<rparr> \<Longrightarrow> files f \<noteq> None \<Longrightarrow> tch_contig \<lparr> tch_files = files(f \<mapsto> data), tch_nLastFile = l \<rparr>"
proof -
  assume c: "tch_contig \<lparr> tch_files = files, tch_nLastFile = l \<rparr>" and "files f \<noteq> None"
  then have "(files(f \<mapsto> data)) g \<noteq> None \<longleftrightarrow> files g \<noteq> None" for g by auto
  then show ?thesis using c unfolding tch_contig_def CTimeSeriesChunk.select_convs by (simp only:)
qed

definition fs_accepts :: "file_sys \<Rightarrow> bool" where
  "fs_accepts fsys \<longleftrightarrow> fs_create fsys \<and> (\<forall>n. case fs_io fsys n of IoThrow _ \<Rightarrow> False | _ \<Rightarrow> True)"

lemma fs_working_simps [simp]: "fs_noticed fs_working" "fs_accepts fs_working"
  by (simp_all add: fs_noticed_def fs_accepts_def fs_working_def)

lemma batch_inner_accepted:
  assumes "batch_inner sv io f n bad data xs vPos = (ok, data', n', rest, vPos')" "\<forall>n. case io n of IoThrow _ \<Rightarrow> False | _ \<Rightarrow> True"
  shows "ok"
  using assms
proof (induction sv io f n bad data xs vPos arbitrary: ok data' n' rest vPos' rule: batch_inner.induct)
  case (2 sv io f n bad data x xs vPos)
  obtain d1 r where s: "stream_record (io n) bad data (ts_frame (sv x)) = (d1, r)" by fastforce
  have "case io n of IoThrow _ \<Rightarrow> False | _ \<Rightarrow> True" using 2(3) by blast
  then obtain p q b where t: "r = Some (p, q, b)" using s by (cases "io n") (auto split: if_splits)
  show ?case
  proof (cases "\<exists>y ys. xs = y # ys \<and> q + of_nat (length (sv y)) + 8 \<le> of_nat MAX_FILE_SIZE")
    case True
    then obtain y ys where xs: "xs = y # ys" "q + of_nat (length (sv y)) + 8 \<le> of_nat MAX_FILE_SIZE" by blast
    have "batch_inner sv io f (n + 1) b d1 xs (vPos @ [CDiskPos f (ucast p)]) = (ok, data', n', rest, vPos')"
      using 2(2) s t xs by (simp add: Let_def)
    from 2(1) [OF s [symmetric] t refl refl refl xs this 2(3)] show ?thesis .
  next
    case False
    then show ?thesis using 2(2) s t by (auto simp: Let_def split: list.splits)
  qed
qed auto

text \<open>A batch of small objects returns, whatever the file system does.\<close>

lemma write_batch_returns:
  assumes "\<forall>x\<in>set vBatch. length (sv x) + 8 \<le> MAX_FILE_SIZE" "tch_contig c" "unat (tch_nLastFile c) + length vBatch < 2 ^ 32"
  shows "\<exists>ok vPos' c'. write_batch_loop sv fsys n vBatch vPos c = Some (ok, vPos', c') \<and> tch_contig c' \<and> (fs_accepts fsys \<longrightarrow> ok)"
  using assms
proof (induction "length vBatch" arbitrary: n vBatch vPos c rule: less_induct)
  case less
  show ?case
  proof (cases vBatch)
    case Nil
    then show ?thesis using less.prems(2) by (subst write_batch_loop.simps) auto
  next
    case (Cons x xs)
    have "length (sv x) < 2 ^ 32" using less.prems(1) Cons by (simp add: MAX_FILE_SIZE_def)
    then have u: "unat (of_nat (length (sv x)) :: u32) + 8 \<le> MAX_FILE_SIZE" using less.prems(1) Cons by (simp add: unat_of_nat)
    have c: "tch_contig \<lparr> tch_files = tch_files c, tch_nLastFile = tch_nLastFile c \<rparr>" "unat (tch_nLastFile c) + 1 < 2 ^ 32"
      using less.prems(2,3) Cons by (simp_all add: tch_contig_def)
    obtain r files l where g: "GetLastFilePath (fs_create fsys) (of_nat (length (sv x))) (tch_files c) (tch_nLastFile c) = Some (r, files, l)"
      "tch_contig \<lparr> tch_files = files, tch_nLastFile = l \<rparr>" "unat l \<le> unat (tch_nLastFile c) + 1" "fs_create fsys \<longrightarrow> r \<noteq> None" "\<forall>f. r = Some f \<longrightarrow> files f \<noteq> None"
      using GetLastFilePath_contig [OF c(1) u c(2), of "fs_create fsys"] by blast
    show ?thesis
    proof (cases r)
      case None
      then show ?thesis using g by (subst write_batch_loop.simps) (auto simp: Cons fs_accepts_def)
    next
      case (Some f)
      obtain w data' n' rest vPos1 where b: "batch_inner sv (fs_io fsys) f n False (the (files f)) (x # xs) vPos = (w, data', n', rest, vPos1)" by (metis prod_cases5)
      let ?c = "\<lparr> tch_files = files(f \<mapsto> data'), tch_nLastFile = l \<rparr>"
      have contig: "tch_contig ?c" using tch_contig_upd [OF g(2)] g(5) Some by blast
      have eq: "write_batch_loop sv fsys n vBatch vPos c = (if w then write_batch_loop sv fsys n' rest vPos1 ?c else Some (False, vPos1, ?c))"
        by (subst write_batch_loop.simps) (simp add: Cons g(1) Some b Let_def del: batch_inner.simps)
      show ?thesis
      proof (cases w)
        case True
        obtain xs1 where i: "x # xs = xs1 @ rest" "xs1 \<noteq> []" using batch_inner_extends [OF b] True by blast
        have len: "length rest + 1 \<le> length vBatch" using arg_cong [OF i(1), of length] i(2) Cons by (cases xs1) auto
        have small: "\<forall>x\<in>set rest. length (sv x) + 8 \<le> MAX_FILE_SIZE" using less.prems(1) Cons i(1) by simp
        have "\<exists>ok vPos' c'. write_batch_loop sv fsys n' rest vPos1 ?c = Some (ok, vPos', c') \<and> tch_contig c' \<and> (fs_accepts fsys \<longrightarrow> ok)"
          using less.hyps [of rest ?c n' vPos1] len small contig g(3) less.prems(3) by simp
        then show ?thesis unfolding eq using True by simp
      next
        case False
        then show ?thesis unfolding eq using contig batch_inner_accepted [OF b] by (auto simp: fs_accepts_def)
      qed
    qed
  qed
qed

section \<open>The database as a map\<close>

interpretation ctime: codec save_time load_time "\<lambda>_. 8" time_ok
proof unfold_locales
  fix t rest assume "time_ok t"
  then have "sint (word_of_int t :: i64) = t" by (simp add: time_ok_def signed_of_int signed_take_bit_int_eq_self)
  then show "load_time (save_time t @ rest) = Inr (t, rest)" using cu64.load_save [of "word_of_int t" rest] by (simp add: load_time_def save_time_def)
qed (simp add: save_time_def save_basic_def)

interpretation cts_index: kv_table save_time load_time "\<lambda>_. 8" time_ok save_CDiskPos load_CDiskPos size_CDiskPos_ser "\<lambda>_. True" ..

definition cts_inv :: "(('k::linorder \<times> 'v) list \<Rightarrow> u8 list) \<Rightarrow> (('k \<times> 'v) list \<Rightarrow> bool) \<Rightarrow> ('k, 'v) CCTSDB \<Rightarrow> bool" where
  "cts_inv csave cok db \<longleftrightarrow>
     (case cts_dbIndex db of None \<Rightarrow> False | Some e \<Rightarrow> table_wf save_time save_CDiskPos time_ok (\<lambda>_. True) e)
     \<and> std_sorted (cts_upper db) \<and> (\<forall>(t, m)\<in>set (cts_upper db). time_ok t \<and> std_sorted m)
     \<and> (\<forall>t pos. time_ok t \<longrightarrow> ctsindex_Retrieve (cts_dbIndex db) t = Some pos \<longrightarrow>
          (\<exists>chunk. cok chunk \<and> std_sorted chunk \<and> holds (tch_files (cts_tsChunk db)) pos (csave chunk)))"

definition cts_abs :: "('k::linorder \<times> 'v) list reader \<Rightarrow> ('k, 'v) CCTSDB \<Rightarrow> int \<Rightarrow> 'k \<Rightarrow> 'v option" where
  "cts_abs cload db t k = map_of (cts_GetUpdateMap cload t db) k"

text \<open>The groups in memory can be written as chunks.\<close>

definition cts_small :: "(('k \<times> 'v) list \<Rightarrow> u8 list) \<Rightarrow> (('k \<times> 'v) list \<Rightarrow> bool) \<Rightarrow> ('k, 'v) CCTSDB \<Rightarrow> bool" where
  "cts_small csave cok db \<longleftrightarrow> (\<forall>(t, m)\<in>set (cts_upper db). m \<noteq> [] \<longrightarrow> cok m \<and> length (csave m) + 8 \<le> MAX_FILE_SIZE)"

lemma map_insert_all_sorted: "std_sorted chunk \<Longrightarrow> map_insert_all chunk [] = chunk"
  using fold_std_insert [of "[]" chunk] by (simp add: map_insert_all_def)

lemma fold_update_apply: "distinct (map fst l) \<Longrightarrow> fold (\<lambda>(k, v) m. m(k \<mapsto> v)) l f x = (case map_of l x of Some v \<Rightarrow> Some v | None \<Rightarrow> f x)"
proof (induction l arbitrary: f)
  case (Cons a l)
  obtain k v where a: "a = (k, v)" by (cases a)
  have "map_of l k = None" using Cons.prems by (simp add: a map_of_eq_None_iff)
  then show ?case using Cons.IH [of "f(k \<mapsto> v)"] Cons.prems by (auto simp: a split: option.splits)
qed simp

locale cts_chunks = codec csave cload csize cok
  for csave :: "('k::linorder \<times> 'v) list \<Rightarrow> u8 list" and cload csize cok
begin

lemma LoadFromFile_ok:
  assumes "cts_inv csave cok db" "time_ok t"
  shows "case ctsindex_Retrieve (cts_dbIndex db) t of None \<Rightarrow> cts_LoadFromFile cload t db = None
    | Some pos \<Rightarrow> \<exists>chunk. cts_LoadFromFile cload t db = Some chunk \<and> cok chunk \<and> std_sorted chunk \<and> holds (tch_files (cts_tsChunk db)) pos (csave chunk)"
proof (cases "ctsindex_Retrieve (cts_dbIndex db) t")
  case (Some pos)
  then obtain chunk where c: "cok chunk" "std_sorted chunk" "holds (tch_files (cts_tsChunk db)) pos (csave chunk)"
    using assms unfolding cts_inv_def by blast
  have "ts_ReadFile cload (tch_files (cts_tsChunk db)) pos = Some chunk" by (rule holds_read [OF c(3) load_save [OF c(1)]])
  then show ?thesis using Some c by (simp add: cts_LoadFromFile_def tch_Read_def)
qed (simp add: cts_LoadFromFile_def)

lemma LoadFromFile_sorted: "cts_inv csave cok db \<Longrightarrow> time_ok t \<Longrightarrow> cts_LoadFromFile cload t db = Some chunk \<Longrightarrow> std_sorted chunk"
  using LoadFromFile_ok [of db t] by (auto split: option.splits)

lemma GetUpdateMap_sorted:
  assumes "cts_inv csave cok db" "time_ok t"
  shows "std_sorted (cts_GetUpdateMap cload t db)"
proof (cases "map_of (cts_upper db) t")
  case None
  then show ?thesis using LoadFromFile_sorted [OF assms]
    by (cases "cts_LoadFromFile cload t db") (simp_all add: cts_GetUpdateMap_def map_insert_all_sorted)
next
  case (Some m)
  then show ?thesis using assms(1) map_of_SomeD [OF Some] by (auto simp: cts_GetUpdateMap_def cts_inv_def)
qed

lemma cts_Retrieve_ok:
  assumes "cts_inv csave cok db" "time_ok t"
  shows "cts_Retrieve cload False t k db = (cts_abs cload db t k, db)"
proof (cases "map_of (cts_upper db) t")
  case None
  then show ?thesis
  proof (cases "cts_LoadFromFile cload t db")
    case (Some chunk)
    then show ?thesis using None LoadFromFile_sorted [OF assms Some]
      by (simp add: cts_Retrieve_def cts_abs_def cts_GetUpdateMap_def map_insert_all_sorted chunk_Find_ok)
  qed (simp add: cts_Retrieve_def cts_abs_def cts_GetUpdateMap_def)
qed (simp add: cts_Retrieve_def cts_abs_def cts_GetUpdateMap_def)

lemma upper_inv:
  assumes "cts_inv csave cok db" "time_ok t" "std_sorted m"
  shows "cts_inv csave cok (db\<lparr> cts_upper := std_assign t m (cts_upper db) \<rparr>)"
proof -
  have "\<forall>(t', m')\<in>set (std_assign t m (cts_upper db)). time_ok t' \<and> std_sorted m'"
  proof safe
    fix t' m' assume "(t', m') \<in> set (std_assign t m (cts_upper db))"
    then have "(t', m') = (t, m) \<or> (t', m') \<in> set (cts_upper db)" using std_assign_subset [of t m "cts_upper db"] by blast
    then show "time_ok t'" "std_sorted m'" using assms by (auto simp: cts_inv_def)
  qed
  then show ?thesis using assms(1) by (simp add: cts_inv_def)
qed

lemma upper_abs: "cts_abs cload (db\<lparr> cts_upper := std_assign t m (cts_upper db) \<rparr>) t' = (if t' = t then map_of m else cts_abs cload db t')"
  by (auto simp: fun_eq_iff cts_abs_def cts_GetUpdateMap_def cts_LoadFromFile_def split: option.splits)

lemma cts_Update_ok:
  assumes "cts_inv csave cok db" "time_ok t"
  shows "cts_inv csave cok (cts_Update cload t k v db)"
    "cts_abs cload (cts_Update cload t k v db) t' k' = (if t' = t \<and> k' = k then Some v else cts_abs cload db t' k')"
proof -
  show "cts_inv csave cok (cts_Update cload t k v db)" unfolding cts_Update_def
    by (intro upper_inv assms std_assign_sorted std_erase_sorted GetUpdateMap_sorted)
qed (simp add: cts_Update_def upper_abs, simp add: cts_abs_def)

lemma cts_Erase_ok:
  assumes "cts_inv csave cok db" "time_ok t"
  shows "cts_inv csave cok (cts_Erase cload t k db)"
    "cts_abs cload (cts_Erase cload t k db) t' k' = (if t' = t \<and> k' = k then None else cts_abs cload db t' k')"
proof -
  show "cts_inv csave cok (cts_Erase cload t k db)" unfolding cts_Erase_def
    by (intro upper_inv assms std_assign_sorted std_erase_sorted GetUpdateMap_sorted)
qed (simp add: cts_Erase_def upper_abs, simp add: cts_abs_def)

text \<open>A flush that fails half way leaves new bytes in the files and the database as it was.\<close>

lemma files_extended:
  assumes "cts_inv csave cok db" "extends (tch_files (cts_tsChunk db)) (tch_files c)"
    and "case d of None \<Rightarrow> False | Some e \<Rightarrow> table_wf save_time save_CDiskPos time_ok (\<lambda>_. True) e"
    and "\<forall>t. time_ok t \<longrightarrow> ctsindex_Retrieve d t = ctsindex_Retrieve (cts_dbIndex db) t"
  shows "cts_inv csave cok (db\<lparr> cts_tsChunk := c, cts_dbIndex := d \<rparr>)
    \<and> (\<forall>t. time_ok t \<longrightarrow> cts_abs cload (db\<lparr> cts_tsChunk := c, cts_dbIndex := d \<rparr>) t = cts_abs cload db t)"
proof -
  let ?db = "db\<lparr> cts_tsChunk := c, cts_dbIndex := d \<rparr>"
  have inv: "cts_inv csave cok ?db" using assms holds_extends [OF _ assms(2)] unfolding cts_inv_def by simp blast
  have "cts_LoadFromFile cload t ?db = cts_LoadFromFile cload t db" if t: "time_ok t" for t
  proof (cases "ctsindex_Retrieve d t")
    case (Some pos)
    then obtain chunk where h: "cok chunk" "holds (tch_files (cts_tsChunk db)) pos (csave chunk)" "cts_LoadFromFile cload t db = Some chunk"
      using LoadFromFile_ok [OF assms(1) t] assms(4) t by auto
    have "ts_ReadFile cload (tch_files c) pos = Some chunk" by (rule holds_read [OF holds_extends [OF h(2) assms(2)] load_save [OF h(1)]])
    then show ?thesis using Some h(3) by (simp add: cts_LoadFromFile_def tch_Read_def)
  qed (use assms(4) t in \<open>simp add: cts_LoadFromFile_def\<close>)
  then have "cts_abs cload ?db t = cts_abs cload db t" if "time_ok t" for t 
    using that by (cases "map_of (cts_upper db) t") (simp_all add: cts_abs_def cts_GetUpdateMap_def fun_eq_iff)
  then show ?thesis using inv by blast
qed

lemma flush_lookup:
  assumes "std_sorted upper" "list_all2 P ps (map snd (filter (\<lambda>(t, m). m \<noteq> []) upper))"
  shows "case map_of upper t of
      None \<Rightarrow> map_of (zip (map fst (filter (\<lambda>(t, m). m \<noteq> []) upper)) ps) t = None \<and> t \<notin> set (map fst (filter (\<lambda>(t, m). m = []) upper))
    | Some m \<Rightarrow> if m = [] then t \<in> set (map fst (filter (\<lambda>(t, m). m = []) upper))
        else t \<notin> set (map fst (filter (\<lambda>(t, m). m = []) upper)) \<and> (\<exists>p. map_of (zip (map fst (filter (\<lambda>(t, m). m \<noteq> []) upper)) ps) t = Some p \<and> P p m)"
  using assms
proof (induction upper arbitrary: ps)
  case (Cons a upper)
  obtain u m where a: "a = (u, m)" by (cases a)
  have new: "u \<notin> fst ` set upper" "map_of upper u = None" using Cons.prems(1) by (auto simp: a map_of_eq_None_iff)
  show ?case
  proof (cases "m = []")
    case True
    then show ?thesis using Cons.IH [of ps] Cons.prems new by (auto simp: a split: option.splits if_splits)
  next
    case False
    then obtain p qs where p: "ps = p # qs" "P p m" "list_all2 P qs (map snd (filter (\<lambda>(t, m). m \<noteq> []) upper))"
      using Cons.prems(2) by (auto simp: a list_all2_Cons2)
    then show ?thesis using Cons.IH [of qs] Cons.prems(1) new False by (force simp: a split: option.splits if_splits)
  qed
qed simp

lemma flush_done:
  assumes inv: "cts_inv csave cok db" and small: "cts_small csave cok db"
    and ext: "extends (tch_files (cts_tsChunk db)) (tch_files c)"
    and ps: "list_all2 (\<lambda>p x. holds (tch_files c) p (csave x)) ps (map snd (filter (\<lambda>(t, m). m \<noteq> []) (cts_upper db)))"
    and wf: "case d of None \<Rightarrow> False | Some e \<Rightarrow> table_wf save_time save_CDiskPos time_ok (\<lambda>_. True) e"
    and d: "\<forall>t. time_ok t \<longrightarrow> ctsindex_Retrieve d t = fold (\<lambda>k m. m(k := None)) (map fst (filter (\<lambda>(t, m). m = []) (cts_upper db)))
      (fold (\<lambda>(k, v) m. m(k \<mapsto> v)) (zip (map fst (filter (\<lambda>(t, m). m \<noteq> []) (cts_upper db))) ps) (ctsindex_Retrieve (cts_dbIndex db))) t"
  shows "cts_inv csave cok (db\<lparr> cts_tsChunk := c, cts_dbIndex := d, cts_upper := [] \<rparr>)
    \<and> (\<forall>t. time_ok t \<longrightarrow> cts_abs cload (db\<lparr> cts_tsChunk := c, cts_dbIndex := d, cts_upper := [] \<rparr>) t = cts_abs cload db t)"
proof -
  let ?db = "db\<lparr> cts_tsChunk := c, cts_dbIndex := d, cts_upper := [] \<rparr>"
  let ?T = "map fst (filter (\<lambda>(t, m). m \<noteq> []) (cts_upper db))" and ?D = "map fst (filter (\<lambda>(t, m). m = []) (cts_upper db))"
  have sorted: "std_sorted (cts_upper db)" using inv by (simp add: cts_inv_def)
  have dist: "distinct (map fst (zip ?T ps))"
    using distinct_map_filter [OF std_sorted_distinct [OF sorted]] list_all2_lengthD [OF ps] by simp
  have idx: "ctsindex_Retrieve d t = (if t \<in> set ?D then None else case map_of (zip ?T ps) t of Some p \<Rightarrow> Some p | None \<Rightarrow> ctsindex_Retrieve (cts_dbIndex db) t)"
    if "time_ok t" for t using d that by (simp add: fold_erase_apply fold_update_apply [OF dist])
  have new: "if m = [] then ctsindex_Retrieve d t = None else \<exists>p. ctsindex_Retrieve d t = Some p \<and> cok m \<and> std_sorted m \<and> holds (tch_files c) p (csave m)"
    if t: "time_ok t" "map_of (cts_upper db) t = Some m" for t m
  proof -
    have m: "(t, m) \<in> set (cts_upper db)" using map_of_SomeD [OF t(2)] .
    have "m \<noteq> [] \<longrightarrow> cok m" "std_sorted m" using m small inv by (auto simp: cts_small_def cts_inv_def)
    then show ?thesis using flush_lookup [OF sorted ps, of t] idx [OF t(1)] t(2) by (auto split: if_splits)
  qed
  have old: "ctsindex_Retrieve d t = ctsindex_Retrieve (cts_dbIndex db) t" if "time_ok t" "map_of (cts_upper db) t = None" for t
    using flush_lookup [OF sorted ps, of t] idx [OF that(1)] that(2) by simp
  have hold: "\<exists>chunk. cok chunk \<and> std_sorted chunk \<and> holds (tch_files c) p (csave chunk)" if t: "time_ok t" "ctsindex_Retrieve d t = Some p" for t p
  proof (cases "map_of (cts_upper db) t")
    case None
    then have "ctsindex_Retrieve (cts_dbIndex db) t = Some p" using old [OF t(1)] t(2) by simp
    then show ?thesis using inv t(1) holds_extends [OF _ ext] unfolding cts_inv_def by blast
  next
    case (Some m)
    then show ?thesis using new [OF t(1) Some] t(2) by (auto split: if_splits)
  qed
  have inv': "cts_inv csave cok ?db" using hold wf by (simp add: cts_inv_def)
  have "cts_abs cload ?db t = cts_abs cload db t" if t: "time_ok t" for t
  proof (cases "map_of (cts_upper db) t")
    case None
    have "cts_abs cload (db\<lparr> cts_tsChunk := c \<rparr>) t = cts_abs cload db t"
      using files_extended [OF inv ext, of "cts_dbIndex db"] inv t by (simp add: cts_inv_def)
    then show ?thesis using None old [OF t None]
      by (cases "ctsindex_Retrieve (cts_dbIndex db) t") (simp_all add: cts_abs_def cts_GetUpdateMap_def cts_LoadFromFile_def fun_eq_iff)
  next
    case (Some m)
    show ?thesis
    proof (cases "m = []")
      case False
      then obtain p where p: "ctsindex_Retrieve d t = Some p" "cok m" "std_sorted m" "holds (tch_files c) p (csave m)" using new [OF t Some] by auto
      have "ts_ReadFile cload (tch_files c) p = Some m" by (rule holds_read [OF p(4) load_save [OF p(2)]])
      then show ?thesis using p Some by (simp add: cts_abs_def cts_GetUpdateMap_def cts_LoadFromFile_def tch_Read_def fun_eq_iff map_insert_all_sorted)
    qed (use new [OF t Some] Some in \<open>simp add: cts_abs_def cts_GetUpdateMap_def cts_LoadFromFile_def fun_eq_iff\<close>)
  qed
  then show ?thesis using inv' by blast
qed

lemma index_update:
  assumes "cts_inv csave cok db" "\<forall>t\<in>set vTime \<union> set vDel. time_ok t" "length vTime = length vPos"
  shows "\<exists>e. ctsindex_Update status vTime vPos vDel (cts_dbIndex db) = (status, Some e) \<and> table_wf save_time save_CDiskPos time_ok (\<lambda>_. True) e
    \<and> (\<forall>t. time_ok t \<longrightarrow> ctsindex_Retrieve (Some e) t = (if status
        then fold (\<lambda>k m. m(k := None)) vDel (fold (\<lambda>(k, v) m. m(k \<mapsto> v)) (zip vTime vPos) (ctsindex_Retrieve (cts_dbIndex db))) t
        else ctsindex_Retrieve (cts_dbIndex db) t))"
proof -
  obtain e where e: "cts_dbIndex db = Some e" "table_wf save_time save_CDiskPos time_ok (\<lambda>_. True) e"
    using assms(1) by (auto simp: cts_inv_def split: option.splits)
  have "\<forall>(k, v)\<in>set (zip vTime vPos). time_ok k \<and> True" using assms(2) by (auto dest: set_zip_leftD)
  from cts_index.txn_read [OF e(2) this, of vDel status] assms(2,3) show ?thesis
    unfolding ctsindex_Update_def ctsindex_Retrieve_def e(1) by auto
qed

lemma cts_Flush_ok:
  assumes inv: "cts_inv csave cok db" and small: "cts_small csave cok db"
    and fl: "cts_Flush csave fsys status fAll db = Some (ok, db')" and nt: "fs_noticed fsys"
  shows "cts_inv csave cok db' \<and> (\<forall>t. time_ok t \<longrightarrow> cts_abs cload db' t = cts_abs cload db t) \<and> (ok \<longrightarrow> cts_upper db' = [])"
proof -
  let ?D = "map fst (filter (\<lambda>(t, m). m = []) (cts_upper db))" and ?T = "map fst (filter (\<lambda>(t, m). m \<noteq> []) (cts_upper db))"
    and ?C = "map snd (filter (\<lambda>(t, m). m \<noteq> []) (cts_upper db))"
  have wf: "case cts_dbIndex db of None \<Rightarrow> False | Some e \<Rightarrow> table_wf save_time save_CDiskPos time_ok (\<lambda>_. True) e" using inv by (simp add: cts_inv_def)
  consider (few) "\<not> fAll \<and> length (cts_upper db) < FLUSH_THRESH" | (enough) "fAll \<or> \<not> length (cts_upper db) < FLUSH_THRESH" by blast
  then show ?thesis
  proof cases
    case few
    then show ?thesis using fl inv by (auto simp: cts_Flush_def Let_def)
  next
    case enough
    obtain w ps c where w: "(if ?C \<noteq> [] then tch_WriteBatch csave fsys ?C (cts_tsChunk db) else Some (True, [], cts_tsChunk db)) = Some (w, ps, c)"
      using fl enough unfolding cts_Flush_def Let_def by (auto split: option.splits)
    have small': "\<forall>x\<in>set ?C. length (csave x) < 2 ^ 32" using small by (fastforce simp: cts_small_def MAX_FILE_SIZE_def)
    have ext: "extends (tch_files (cts_tsChunk db)) (tch_files c)" and held: "w \<longrightarrow> list_all2 (\<lambda>p x. holds (tch_files c) p (csave x)) ps ?C"
      using w write_batch_extends [of csave fsys 0 ?C "[]" "cts_tsChunk db" w ps c] write_batch_ok [OF _ nt small', of 0 "[]" "cts_tsChunk db" ps c]
      by (auto simp: tch_WriteBatch_def split: if_splits)
    show ?thesis
    proof (cases w)
      case False
      then have "ok = False" "db' = db\<lparr> cts_tsChunk := c \<rparr>" using fl enough w unfolding cts_Flush_def Let_def by auto
      then show ?thesis using files_extended [OF inv ext wf] by simp
    next
      case True
      then have len: "length ?T = length ps" using held list_all2_lengthD by fastforce
      have ok: "\<forall>t\<in>set ?T \<union> set ?D. time_ok t" using inv by (auto simp: cts_inv_def)
      obtain e where e: "ctsindex_Update status ?T ps ?D (cts_dbIndex db) = (status, Some e)" "table_wf save_time save_CDiskPos time_ok (\<lambda>_. True) e"
        "\<forall>t. time_ok t \<longrightarrow> ctsindex_Retrieve (Some e) t = (if status
          then fold (\<lambda>k m. m(k := None)) ?D (fold (\<lambda>(k, v) m. m(k \<mapsto> v)) (zip ?T ps) (ctsindex_Retrieve (cts_dbIndex db))) t
          else ctsindex_Retrieve (cts_dbIndex db) t)" using index_update [OF inv ok len, of status] by blast
      show ?thesis
      proof (cases "ps \<noteq> [] \<or> ?D \<noteq> []")
        case True
        note p = this
        show ?thesis
        proof (cases status)
          case True
          then have "ok" "db' = db\<lparr> cts_tsChunk := c, cts_dbIndex := Some e, cts_upper := [] \<rparr>"
            using fl enough w \<open>w\<close> p e(1) unfolding cts_Flush_def Let_def by auto
          then show ?thesis using flush_done [OF inv small ext held [rule_format, OF \<open>w\<close>], of "Some e"] e(2,3) True by simp
        next
          case False
          then have "\<not> ok" "db' = db\<lparr> cts_tsChunk := c, cts_dbIndex := Some e \<rparr>"
            using fl enough w \<open>w\<close> p e(1) unfolding cts_Flush_def Let_def by auto
          then show ?thesis using files_extended [OF inv ext, of "Some e"] e(2,3) False by simp
        qed
      next
        case False
        then have "db' = db\<lparr> cts_tsChunk := c, cts_upper := [] \<rparr>" using fl enough w \<open>w\<close> unfolding cts_Flush_def Let_def by auto
        then show ?thesis using flush_done [OF inv small ext held [rule_format, OF \<open>w\<close>] wf] False len by simp
      qed
    qed
  qed
qed

text \<open>
  A flush of small groups returns, whatever the file system and the key-value store answer, and succeeds
  when both of them agree; it also succeeds where the bytes do not reach the file.
\<close>

lemma cts_Flush_returns:
  assumes inv: "cts_inv csave cok db" and small: "cts_small csave cok db" and contig: "tch_contig (cts_tsChunk db)"
    and room: "unat (tch_nLastFile (cts_tsChunk db)) + length (cts_upper db) < 2 ^ 32"
  shows "\<exists>ok db'. cts_Flush csave fsys status fAll db = Some (ok, db') \<and> tch_contig (cts_tsChunk db') \<and> (fs_accepts fsys \<and> status \<and> fAll \<longrightarrow> ok)"
proof -
  let ?D = "map fst (filter (\<lambda>(t, m). m = []) (cts_upper db))" and ?T = "map fst (filter (\<lambda>(t, m). m \<noteq> []) (cts_upper db))"
    and ?C = "map snd (filter (\<lambda>(t, m). m \<noteq> []) (cts_upper db))"
  have le: "length ?C \<le> length (cts_upper db)" by simp
  have s: "\<forall>x\<in>set ?C. length (csave x) + 8 \<le> MAX_FILE_SIZE" using small by (fastforce simp: cts_small_def)
  obtain w ps c where w: "write_batch_loop csave fsys 0 ?C [] (cts_tsChunk db) = Some (w, ps, c)" "tch_contig c" "fs_accepts fsys \<longrightarrow> w"
    using write_batch_returns [OF s contig le_less_trans [OF add_left_mono [OF le] room], of fsys 0 "[]"] by blast
  have len: "w \<Longrightarrow> length ?T = length ps" using write_batch_extends [OF w(1)] by simp
  have ok: "\<forall>t\<in>set ?T \<union> set ?D. time_ok t" using inv by (auto simp: cts_inv_def)
  have upd: "\<exists>e. ctsindex_Update status ?T ps ?D (cts_dbIndex db) = (status, Some e)" if w using index_update [OF inv ok len [OF that], of status] by auto
  have W: "(if ?C \<noteq> [] then tch_WriteBatch csave fsys ?C (cts_tsChunk db) else Some (True, [], cts_tsChunk db)) = Some (w, ps, c)"
    using w(1) by (auto simp: tch_WriteBatch_def write_batch_loop.simps)
  show ?thesis
  proof (cases w)
    case True
    obtain e where "ctsindex_Update status ?T ps ?D (cts_dbIndex db) = (status, Some e)" using upd [OF True] by blast
    then show ?thesis using True w(2) contig unfolding cts_Flush_def Let_def W by (cases status) auto
  next
    case False
    then show ?thesis using w(2,3) contig unfolding cts_Flush_def Let_def W by auto
  qed
qed

end

text \<open>
  With \<open>fSaveLoad\<close> a lookup that reads a chunk drops the older groups from memory, also those that
  have not been flushed.  No caller asks for it.
\<close>

lemma map_of_dropWhile_le: "std_sorted m \<Longrightarrow> map_of (dropWhile (\<lambda>(t, _). \<not> b < t) m) (k :: int) = (if b < k then map_of m k else None)"
proof (induction m)
  case (Cons a m)
  obtain t v where a: "a = (t, v)" by (cases a)
  have gt: "\<forall>x\<in>fst ` set m. t < x" using Cons.prems by (simp add: a)
  then have "b < t \<Longrightarrow> \<not> b < k \<Longrightarrow> map_of m k = None" by (auto simp: map_of_eq_None_iff)
  then show ?case using Cons by (auto simp: a)
qed simp

lemma save_load_drops_groups:
  assumes "std_sorted (cts_upper db)" "map_of (cts_upper db) t = None" "cts_LoadFromFile cload t db = Some chunk" "t' \<le> t - CACHE_UPPER_DURATION"
  shows "map_of (cts_upper (snd (cts_Retrieve cload True t k db))) t' = None"
  using assms map_of_dropWhile_le [of "std_assign t (map_insert_all chunk []) (cts_upper db)" "t - CACHE_UPPER_DURATION" t']
  by (simp add: cts_Retrieve_def)

section \<open>The formats of the chunks\<close>

context codec
begin

lemma chunk_codec: "codec (save_CCTSChunk save) (load_CCTSChunk load) (size_CCTSChunk_ser ssize) (\<lambda>xs. fits xs \<and> list_all ok xs)"
  by unfold_locales (simp_all add: save_CCTSChunk_def load_CCTSChunk_def size_CCTSChunk_ser_def load_varint_save load_n_save size_varint_save length_concat_save
      del: length_concat)

lemma length_concat_const: "\<forall>x. ssize x = n \<Longrightarrow> length (concat (map save xs)) = length xs * n"
  by (simp add: length_concat_save sum_list_triv del: length_concat)

text \<open>The compressed form is a format for chunks as soon as decompression undoes compression.\<close>

lemma snappy_codec:
  assumes "\<forall>bs. unsnap (snap bs) = bs" "\<forall>x. ssize x = n" "0 < n"
  shows "codec (save_CCTSChunkSnappy snap save) (load_CCTSChunkSnappy unsnap n load) (size_CCTSChunkSnappy_ser snap save)
    (\<lambda>xs. fits (snap (concat (map save xs))) \<and> list_all ok xs)"
proof
  fix xs rest assume ok: "fits (snap (concat (map save xs))) \<and> list_all ok xs"
  have "load_n load (length xs) (concat (map save xs)) = Inr (xs, [])" using load_n_save [of xs "[]"] ok by simp
  then show "load_CCTSChunkSnappy unsnap n load (save_CCTSChunkSnappy snap save xs @ rest) = Inr (xs, rest)"
    using assms ok length_concat_const [OF assms(2), of xs]
    by (simp add: load_CCTSChunkSnappy_def save_CCTSChunkSnappy_def str.load_save del: length_concat)
qed (simp add: size_CCTSChunkSnappy_ser_def save_CCTSChunkSnappy_def str.ssize_save)

end

end
