(* ===== verification/TxIndex_DB.thy ===== *)
theory TxIndex_DB
  imports CTS_DB
begin

text \<open>
  The transaction index of the node (\<^verbatim>\<open>storage/txindexdb.cpp\<close>): one time-series database per fork, in
  which the entry of a transaction is found under the time and the hash that its id is made of.  The
  lemmas show that the index is a map from forks and transaction ids to positions, also across
  flushes, failed flushes and restarts.
\<close>

section \<open>Entries\<close>

type_synonym uint224 = "224 word"

definition txid_GetTxHash :: "uint256 \<Rightarrow> uint224" where
  "txid_GetTxHash txid = ucast txid"

text \<open>\<^verbatim>\<open>std::pair<uint224, CTxIndex>\<close> as it lies in memory: 40 bytes without padding.\<close>

definition save_TxEntry :: "uint224 \<times> CTxIndex \<Rightarrow> u8 list" where
  "save_TxEntry x = save_basic 28 (fst x) @ save_basic 4 (ti_nBlockHeight (snd x)) @ save_basic 4 (ti_nFile (snd x)) @ save_basic 4 (ti_nOffset (snd x))"

definition load_TxEntry :: "(uint224 \<times> CTxIndex) reader" where
  "load_TxEntry = rbind (load_basic 28 :: uint224 reader) (\<lambda>k. rbind (load_basic 4 :: i32 reader) (\<lambda>h. rbind (load_basic 4 :: u32 reader) (\<lambda>f.
     rbind (load_basic 4 :: u32 reader) (\<lambda>off. rret (k, \<lparr> ti_nBlockHeight = h, ti_nFile = f, ti_nOffset = off \<rparr>)))))"

type_synonym CForkTxDB = "(uint224, CTxIndex) CCTSDB"
type_synonym fork_chunk = "(uint224 \<times> CTxIndex) list"

definition fork_save :: "(u8 list \<Rightarrow> u8 list) \<Rightarrow> fork_chunk \<Rightarrow> u8 list" where
  "fork_save snap = save_CCTSChunkSnappy snap save_TxEntry"

definition fork_load :: "(u8 list \<Rightarrow> u8 list) \<Rightarrow> fork_chunk reader" where
  "fork_load unsnap = load_CCTSChunkSnappy unsnap 40 load_TxEntry"

section \<open>CTxIndexDB\<close>

text \<open>
  \<open>txd_dirs\<close> holds the directories of the forks that are not loaded: the content of the key-value store
  and the files.  The directory of a loaded fork is the index and the files of its database.
\<close>

record CTxIndexDB =
  txd_mapTxDB :: "(uint256 \<times> CForkTxDB) list"
  txd_dirs :: "uint256 \<Rightarrow> ((bytes \<times> bytes) list \<times> ts_files) option"

text \<open>\<^verbatim>\<open>CCTSDB::Initialize\<close>; \<open>open\<close> tells whether directory, store and disk space are available.\<close>

definition cts_Initialize :: "bool \<Rightarrow> (bytes \<times> bytes) list \<times> ts_files \<Rightarrow> ('k, 'v) CCTSDB option option" where
  "cts_Initialize open dir = (case dir of (store, files) \<Rightarrow>
     if \<not> open then Some None
     else map_option (\<lambda>nLast. Some \<lparr> cts_dbIndex = Some (eng_Open store), cts_tsChunk = \<lparr> tch_files = files, tch_nLastFile = nLast \<rparr>, cts_upper = [] \<rparr>)
       (last_file_loop files 1))"

definition txdb_ExistFork :: "uint256 \<Rightarrow> CTxIndexDB \<Rightarrow> bool" where
  "txdb_ExistFork hashFork db = (map_of (txd_mapTxDB db) hashFork \<noteq> None)"

definition txdb_LoadFork :: "bool \<Rightarrow> uint256 \<Rightarrow> CTxIndexDB \<Rightarrow> (bool \<times> CTxIndexDB) option" where
  "txdb_LoadFork open hashFork db =
     (if txdb_ExistFork hashFork db then Some (True, db)
      else case cts_Initialize open (case txd_dirs db hashFork of Some dir \<Rightarrow> dir | None \<Rightarrow> ([], \<lambda>_. None)) of
          None \<Rightarrow> None
        | Some None \<Rightarrow> Some (False, db)
        | Some (Some spTxDB) \<Rightarrow> Some (True, db\<lparr> txd_mapTxDB := std_insert hashFork spTxDB (txd_mapTxDB db), txd_dirs := (txd_dirs db)(hashFork := None) \<rparr>))"

definition txdb_RemoveFork :: "uint256 \<Rightarrow> CTxIndexDB \<Rightarrow> CTxIndexDB" where
  "txdb_RemoveFork hashFork db = db\<lparr> txd_mapTxDB := std_erase hashFork (txd_mapTxDB db), txd_dirs := (txd_dirs db)(hashFork := None) \<rparr>"

definition txdb_AddNewFork :: "bool \<Rightarrow> uint256 \<Rightarrow> CTxIndexDB \<Rightarrow> (bool \<times> CTxIndexDB) option" where
  "txdb_AddNewFork open hashFork db = txdb_LoadFork open hashFork (txdb_RemoveFork hashFork db)"

definition fork_Update :: "fork_chunk reader \<Rightarrow> (uint256 \<times> CTxIndex) list \<Rightarrow> uint256 list \<Rightarrow> CForkTxDB \<Rightarrow> CForkTxDB" where
  "fork_Update cload vTxNew vTxDel f =
     fold (\<lambda>txid. cts_Erase cload (txid_GetTxTime txid) (txid_GetTxHash txid)) vTxDel
       (fold (\<lambda>(txid, i). cts_Update cload (txid_GetTxTime txid) (txid_GetTxHash txid) i) vTxNew f)"

definition txdb_Update :: "fork_chunk reader \<Rightarrow> uint256 \<Rightarrow> (uint256 \<times> CTxIndex) list \<Rightarrow> uint256 list \<Rightarrow> CTxIndexDB \<Rightarrow> bool \<times> CTxIndexDB" where
  "txdb_Update cload hashFork vTxNew vTxDel db = (case map_of (txd_mapTxDB db) hashFork of
     None \<Rightarrow> (False, db)
   | Some spTxDB \<Rightarrow> (True, db\<lparr> txd_mapTxDB := std_assign hashFork (fork_Update cload vTxNew vTxDel spTxDB) (txd_mapTxDB db) \<rparr>))"

definition txdb_Retrieve :: "fork_chunk reader \<Rightarrow> uint256 \<Rightarrow> uint256 \<Rightarrow> bool \<Rightarrow> CTxIndexDB \<Rightarrow> CTxIndex option \<times> CTxIndexDB" where
  "txdb_Retrieve cload hashFork txid fSaveLoad db = (case map_of (txd_mapTxDB db) hashFork of
     None \<Rightarrow> (None, db)
   | Some spTxDB \<Rightarrow> (case cts_Retrieve cload fSaveLoad (txid_GetTxTime txid) (txid_GetTxHash txid) spTxDB of
       (r, f) \<Rightarrow> (r, db\<lparr> txd_mapTxDB := std_assign hashFork f (txd_mapTxDB db) \<rparr>)))"

text \<open>The search in all forks, in the order of their hashes.\<close>

fun retrieve_any :: "fork_chunk reader \<Rightarrow> uint256 \<Rightarrow> (uint256 \<times> CForkTxDB) list \<Rightarrow> (CTxIndex \<times> uint256) option" where
  "retrieve_any cload txid [] = None"
| "retrieve_any cload txid ((hashFork, spTxDB) # forks) = (case fst (cts_Retrieve cload False (txid_GetTxTime txid) (txid_GetTxHash txid) spTxDB) of
     Some txIndex \<Rightarrow> Some (txIndex, hashFork)
   | None \<Rightarrow> retrieve_any cload txid forks)"

definition txdb_RetrieveAny :: "fork_chunk reader \<Rightarrow> uint256 \<Rightarrow> CTxIndexDB \<Rightarrow> (CTxIndex \<times> uint256) option" where
  "txdb_RetrieveAny cload txid db = retrieve_any cload txid (txd_mapTxDB db)"

text \<open>The state of the disk after the databases of the forks have been closed.\<close>

definition fork_dirs :: "(uint256 \<times> CForkTxDB) list \<Rightarrow> (uint256 \<Rightarrow> ((bytes \<times> bytes) list \<times> ts_files) option) \<Rightarrow> uint256 \<Rightarrow> ((bytes \<times> bytes) list \<times> ts_files) option" where
  "fork_dirs m dirs h = (case map_of m h of
     None \<Rightarrow> dirs h
   | Some f \<Rightarrow> Some (case cts_dbIndex f of None \<Rightarrow> [] | Some e \<Rightarrow> eng_pdb e, tch_files (cts_tsChunk f)))"

text \<open>The stores are removed with all their entries; the files stay.\<close>

definition txdb_Clear :: "CTxIndexDB \<Rightarrow> CTxIndexDB" where
  "txdb_Clear db = db\<lparr> txd_mapTxDB := [], txd_dirs := fork_dirs (map (\<lambda>(h, f). (h, cts_RemoveAll True f)) (txd_mapTxDB db)) (txd_dirs db) \<rparr>"

text \<open>\<open>fsys\<close> and \<open>status\<close> are what the file system and the key-value store do, for each fork.\<close>

fun flush_forks :: "(fork_chunk \<Rightarrow> u8 list) \<Rightarrow> (uint256 \<Rightarrow> file_sys) \<Rightarrow> (uint256 \<Rightarrow> bool) \<Rightarrow> bool \<Rightarrow> (uint256 \<times> CForkTxDB) list \<Rightarrow> (uint256 \<times> CForkTxDB) list option" where
  "flush_forks csave fsys status fAll [] = Some []"
| "flush_forks csave fsys status fAll ((h, f) # forks) = (case cts_Flush csave (fsys h) (status h) fAll f of
     None \<Rightarrow> None
   | Some (_, f') \<Rightarrow> map_option (Cons (h, f')) (flush_forks csave fsys status fAll forks))"

definition txdb_Flush :: "(fork_chunk \<Rightarrow> u8 list) \<Rightarrow> file_sys \<Rightarrow> bool \<Rightarrow> uint256 \<Rightarrow> CTxIndexDB \<Rightarrow> CTxIndexDB option" where
  "txdb_Flush csave fsys status hashFork db = (case map_of (txd_mapTxDB db) hashFork of
     None \<Rightarrow> Some db
   | Some spTxDB \<Rightarrow> map_option (\<lambda>(_, f). db\<lparr> txd_mapTxDB := std_assign hashFork f (txd_mapTxDB db) \<rparr>) (cts_Flush csave fsys status True spTxDB))"

text \<open>One round of \<^verbatim>\<open>FlushProc\<close>.\<close>

definition txdb_FlushRound :: "(fork_chunk \<Rightarrow> u8 list) \<Rightarrow> (uint256 \<Rightarrow> file_sys) \<Rightarrow> (uint256 \<Rightarrow> bool) \<Rightarrow> CTxIndexDB \<Rightarrow> CTxIndexDB option" where
  "txdb_FlushRound csave fsys status db = map_option (\<lambda>m. db\<lparr> txd_mapTxDB := m \<rparr>) (flush_forks csave fsys status False (txd_mapTxDB db))"

text \<open>Only where the flush thread runs (\<open>fThread\<close>), the forks are flushed before they are closed.\<close>

definition txdb_Deinitialize :: "(fork_chunk \<Rightarrow> u8 list) \<Rightarrow> bool \<Rightarrow> (uint256 \<Rightarrow> file_sys) \<Rightarrow> (uint256 \<Rightarrow> bool) \<Rightarrow> CTxIndexDB \<Rightarrow> CTxIndexDB option" where
  "txdb_Deinitialize csave fThread fsys status db =
     map_option (\<lambda>m. db\<lparr> txd_mapTxDB := [], txd_dirs := fork_dirs m (txd_dirs db) \<rparr>)
       (if fThread then flush_forks csave fsys status True (txd_mapTxDB db) else Some (txd_mapTxDB db))"

section \<open>The database of a fork\<close>

interpretation centry: codec save_TxEntry load_TxEntry "\<lambda>_. 40" "\<lambda>_. True"
proof unfold_locales
  fix x :: "uint224 \<times> CTxIndex" and rest
  have "load_basic 28 (save_basic 28 (fst x) @ r) = Inr (fst x, r)" for r by (rule load_basic_save) simp
  then show "load_TxEntry (save_TxEntry x @ rest) = Inr (x, rest)" by (cases x) (simp add: load_TxEntry_def save_TxEntry_def cu32.load_save)
qed (simp add: save_TxEntry_def save_basic_def)

interpretation plain_chunks: cts_chunks "save_CCTSChunk save_TxEntry" "load_CCTSChunk load_TxEntry" "size_CCTSChunk_ser (\<lambda>_. 40)" "\<lambda>xs. fits xs \<and> list_all (\<lambda>_. True) xs"
  by (rule cts_chunks.intro, rule centry.chunk_codec)

definition fork_ok :: "(u8 list \<Rightarrow> u8 list) \<Rightarrow> fork_chunk \<Rightarrow> bool" where
  "fork_ok snap xs \<longleftrightarrow> fits (snap (concat (map save_TxEntry xs)))"

text \<open>What the compression library promises.\<close>

definition lossless :: "(u8 list \<Rightarrow> u8 list) \<Rightarrow> (u8 list \<Rightarrow> u8 list) \<Rightarrow> bool" where
  "lossless snap unsnap \<longleftrightarrow> (\<forall>bs. unsnap (snap bs) = bs)"

lemma fork_chunks:
  assumes "lossless snap unsnap"
  shows "cts_chunks (fork_save snap) (fork_load unsnap) (size_CCTSChunkSnappy_ser snap save_TxEntry) (fork_ok snap)"
proof -
  have "(\<lambda>xs. fits (snap (concat (map save_TxEntry xs))) \<and> list_all (\<lambda>_. True) xs) = fork_ok snap" by (simp add: fun_eq_iff fork_ok_def list.pred_True)
  then show ?thesis using cts_chunks.intro [OF centry.snappy_codec [of unsnap snap 40]] assms by (simp add: fork_save_def fork_load_def lossless_def)
qed

lemma txid_time_ok [simp]: "time_ok (txid_GetTxTime txid)"
  using uint_lt2p [of "Get32 txid 7"] by (simp add: time_ok_def txid_GetTxTime_def order.trans [OF _ uint_ge_0])

lemma txid_eq_iff: "txid_GetTxTime a = txid_GetTxTime b \<and> txid_GetTxHash a = txid_GetTxHash b \<longleftrightarrow> a = b"
proof
  assume e: "txid_GetTxTime a = txid_GetTxTime b \<and> txid_GetTxHash a = txid_GetTxHash b"
  show "a = b"
  proof (rule bit_word_eqI)
    fix n assume n: "n < LENGTH(256)"
    have low: "bit (ucast a :: uint224) n = bit (ucast b :: uint224) n" using e by (simp add: txid_GetTxHash_def)
    have "Get32 a 7 = Get32 b 7" using e unfolding txid_GetTxTime_def by (metis word_uint_eq_iff)
    then have high: "bit (Get32 a 7) (n - 224) = bit (Get32 b 7) (n - 224)" by simp
    show "bit a n = bit b n"
    proof (cases "n < 224")
      case True
      then show ?thesis using low by (simp add: bit_simps)
    next
      case False
      then have "n - 224 < 32" "224 + (n - 224) = n" using n by simp_all
      then show ?thesis using high by (simp add: Get32_def bit_simps)
    qed
  qed
qed simp

definition fork_holds :: "(u8 list \<Rightarrow> u8 list) \<Rightarrow> (u8 list \<Rightarrow> u8 list) \<Rightarrow> CForkTxDB \<Rightarrow> (uint256 \<Rightarrow> CTxIndex option) \<Rightarrow> bool" where
  "fork_holds snap unsnap f c \<longleftrightarrow> cts_inv (fork_save snap) (fork_ok snap) f \<and> tch_contig (cts_tsChunk f)
     \<and> (\<forall>txid. cts_abs (fork_load unsnap) f (txid_GetTxTime txid) (txid_GetTxHash txid) = c txid)"

definition fork_small :: "(u8 list \<Rightarrow> u8 list) \<Rightarrow> CForkTxDB \<Rightarrow> bool" where
  "fork_small snap f \<longleftrightarrow> cts_small (fork_save snap) (fork_ok snap) f \<and> unat (tch_nLastFile (cts_tsChunk f)) + length (cts_upper f) < 2 ^ 32"

lemma fork_Update_ok:
  assumes snap: "lossless snap unsnap" and "fork_holds snap unsnap f c"
  shows "fork_holds snap unsnap (fork_Update (fork_load unsnap) new del f) (fold (\<lambda>txid m. m(txid := None)) del (fold (\<lambda>(txid, i) m. m(txid \<mapsto> i)) new c))"
proof -
  note U = cts_chunks.cts_Update_ok [OF fork_chunks [OF snap]] and E = cts_chunks.cts_Erase_ok [OF fork_chunks [OF snap]]
  have upd: "fork_holds snap unsnap (fold (\<lambda>(txid, i). cts_Update (fork_load unsnap) (txid_GetTxTime txid) (txid_GetTxHash txid) i) new f)
      (fold (\<lambda>(txid, i) m. m(txid \<mapsto> i)) new c)"
    using assms(2)
  proof (induction new arbitrary: f c)
    case (Cons a new)
    obtain txid i where a: "a = (txid, i)" by (cases a)
    have "cts_inv (fork_save snap) (fork_ok snap) f" using Cons.prems by (simp add: fork_holds_def)
    note u = U [OF this txid_time_ok, of txid "txid_GetTxHash txid" i]
    have "fork_holds snap unsnap (cts_Update (fork_load unsnap) (txid_GetTxTime txid) (txid_GetTxHash txid) i f) (c(txid \<mapsto> i))"
      using Cons.prems u by (simp add: fork_holds_def txid_eq_iff) (simp add: cts_Update_def)
    from Cons.IH [OF this] show ?case by (simp only: a fold_simps prod.case)
  qed simp
  have del: "fork_holds snap unsnap (fold (\<lambda>txid. cts_Erase (fork_load unsnap) (txid_GetTxTime txid) (txid_GetTxHash txid)) del f) (fold (\<lambda>txid m. m(txid := None)) del c)"
    if "fork_holds snap unsnap f c" for f c
    using that
  proof (induction del arbitrary: f c)
    case (Cons txid del)
    have "cts_inv (fork_save snap) (fork_ok snap) f" using Cons.prems by (simp add: fork_holds_def)
    note u = E [OF this txid_time_ok, of txid "txid_GetTxHash txid"]
    have "fork_holds snap unsnap (cts_Erase (fork_load unsnap) (txid_GetTxTime txid) (txid_GetTxHash txid) f) (c(txid := None))"
      using Cons.prems u by (simp add: fork_holds_def txid_eq_iff) (simp add: cts_Erase_def)
    from Cons.IH [OF this] show ?case by (simp only: fold_simps)
  qed simp
  show ?thesis unfolding fork_Update_def by (rule del [OF upd])
qed

lemma fork_Retrieve_ok:
  assumes "lossless snap unsnap" "fork_holds snap unsnap f c"
  shows "cts_Retrieve (fork_load unsnap) False (txid_GetTxTime txid) (txid_GetTxHash txid) f = (c txid, f)"
  using cts_chunks.cts_Retrieve_ok [OF fork_chunks [OF assms(1)]] assms(2) by (simp add: fork_holds_def)

lemma fork_Flush_ok:
  assumes "lossless snap unsnap" "fork_holds snap unsnap f c" "fork_small snap f" "fs_noticed fsys"
  shows "\<exists>ok f'. cts_Flush (fork_save snap) fsys status fAll f = Some (ok, f') \<and> fork_holds snap unsnap f' c \<and> (fs_accepts fsys \<and> status \<and> fAll \<longrightarrow> cts_upper f' = [])"
proof -
  note C = fork_chunks [OF assms(1)]
  have f: "cts_inv (fork_save snap) (fork_ok snap) f" "tch_contig (cts_tsChunk f)" "cts_small (fork_save snap) (fork_ok snap) f"
    "unat (tch_nLastFile (cts_tsChunk f)) + length (cts_upper f) < 2 ^ 32" using assms(2,3) by (simp_all add: fork_holds_def fork_small_def)
  obtain ok f' where r: "cts_Flush (fork_save snap) fsys status fAll f = Some (ok, f')" "tch_contig (cts_tsChunk f')" "fs_accepts fsys \<and> status \<and> fAll \<longrightarrow> ok"
    using cts_chunks.cts_Flush_returns [OF C f(1,3,2,4), of fsys status fAll] by blast
  have i: "cts_inv (fork_save snap) (fork_ok snap) f'" "\<forall>t. time_ok t \<longrightarrow> cts_abs (fork_load unsnap) f' t = cts_abs (fork_load unsnap) f t" "ok \<longrightarrow> cts_upper f' = []"
    using cts_chunks.cts_Flush_ok [OF C f(1,3) r(1) assms(4)] by blast+
  have "fork_holds snap unsnap f' c" using assms(2) i r(2) by (simp add: fork_holds_def)
  then show ?thesis using r i(3) by blast
qed

section \<open>Directories\<close>

lemma last_file_loop_contig:
  assumes "\<forall>f. files f \<noteq> None \<longleftrightarrow> 1 \<le> unat f \<and> unat f \<le> n" "n < 2 ^ 32" "1 \<le> unat l" "unat l \<le> n \<or> unat l = n + 1"
  shows "\<exists>l'. last_file_loop files l = Some l' \<and> 1 \<le> unat l' \<and> (unat l' = n \<or> unat l' = n + 1)"
  using assms(3,4)
proof (induction "n + 1 - unat l" arbitrary: l rule: less_induct)
  case less
  show ?case
  proof (cases "unat l < n")
    case True
    then have u: "unat (l + 1) = unat l + 1" using assms(2) by (simp add: unat_word_ariths)
    then have "files (l + 1) \<noteq> None" using assms(1) True by simp
    moreover have "\<exists>l'. last_file_loop files (l + 1) = Some l' \<and> 1 \<le> unat l' \<and> (unat l' = n \<or> unat l' = n + 1)"
      using u True by (intro less.hyps) auto
    ultimately show ?thesis by (subst last_file_loop.simps) auto
  next
    case False
    have "files (l + 1) = None"
    proof (cases "unat l + 1 < 2 ^ 32")
      case True
      then have "unat (l + 1) = unat l + 1" by (simp add: unat_word_ariths)
      then show ?thesis using False assms(1) less.prems by (metis add_le_cancel_right linorder_not_le not_less_eq_eq Suc_eq_plus1 less_Suc_eq_le order.refl)
    next
      case False
      then have "unat l + 1 = 2 ^ 32" using unat_u32_less [of l] by simp
      then have "unat (l + 1) = 0" by (simp add: unat_word_ariths)
      then show ?thesis using assms(1) by (metis not_one_le_zero)
    qed
    then show ?thesis using False less.prems by (subst last_file_loop.simps) auto
  qed
qed

definition dir_holds :: "(u8 list \<Rightarrow> u8 list) \<Rightarrow> (u8 list \<Rightarrow> u8 list) \<Rightarrow> (bytes \<times> bytes) list \<times> ts_files \<Rightarrow> (uint256 \<Rightarrow> CTxIndex option) \<Rightarrow> bool" where
  "dir_holds snap unsnap dir c \<longleftrightarrow> (\<exists>f. cts_Initialize True dir = Some (Some f) \<and> fork_holds snap unsnap f c)"

lemma reopen:
  assumes "tch_contig ch"
  shows "\<exists>l. cts_Initialize True (store, tch_files ch) =
      Some (Some \<lparr> cts_dbIndex = Some (eng_Open store), cts_tsChunk = \<lparr> tch_files = tch_files ch, tch_nLastFile = l \<rparr>, cts_upper = [] \<rparr>)
    \<and> tch_contig \<lparr> tch_files = tch_files ch, tch_nLastFile = l \<rparr>"
proof -
  obtain n where n: "\<forall>f. tch_files ch f \<noteq> None \<longleftrightarrow> 1 \<le> unat f \<and> unat f \<le> n" "unat (tch_nLastFile ch) = n \<or> unat (tch_nLastFile ch) = n + 1"
    using assms by (auto simp: tch_contig_def)
  have "n < 2 ^ 32" using n(2) unat_u32_less [of "tch_nLastFile ch"] by auto
  from last_file_loop_contig [OF n(1) this, of 1] obtain l where l: "last_file_loop (tch_files ch) 1 = Some l" "1 \<le> unat l" "unat l = n \<or> unat l = n + 1"
    by (auto simp: le_Suc_eq Suc_le_eq)
  then show ?thesis using n(1) by (auto simp: cts_Initialize_def tch_contig_def)
qed

lemma closed_fork:
  assumes "fork_holds snap unsnap f c" "cts_upper f = []"
  shows "dir_holds snap unsnap (case cts_dbIndex f of None \<Rightarrow> [] | Some e \<Rightarrow> eng_pdb e, tch_files (cts_tsChunk f)) c"
proof -
  obtain e where e: "cts_dbIndex f = Some e" "table_wf save_time save_CDiskPos time_ok (\<lambda>_. True) e"
    using assms(1) by (auto simp: fork_holds_def cts_inv_def split: option.splits)
  obtain l where l: "cts_Initialize True (eng_pdb e, tch_files (cts_tsChunk f)) =
      Some (Some \<lparr> cts_dbIndex = Some (eng_Open (eng_pdb e)), cts_tsChunk = \<lparr> tch_files = tch_files (cts_tsChunk f), tch_nLastFile = l \<rparr>, cts_upper = [] \<rparr> :: CForkTxDB option)"
    "tch_contig \<lparr> tch_files = tch_files (cts_tsChunk f), tch_nLastFile = l \<rparr>"
    using reopen [of "cts_tsChunk f" "eng_pdb e"] assms(1) by (auto simp: fork_holds_def)
  let ?f = "\<lparr> cts_dbIndex = Some (eng_Open (eng_pdb e)), cts_tsChunk = \<lparr> tch_files = tch_files (cts_tsChunk f), tch_nLastFile = l \<rparr>, cts_upper = [] \<rparr> :: CForkTxDB"
  have r: "ctsindex_Retrieve (Some (eng_Open (eng_pdb e))) t = ctsindex_Retrieve (Some e) t" for t
    by (simp add: ctsindex_Retrieve_def kv_Read_def eng_Get_def eng_Open_def)
  have w: "table_wf save_time save_CDiskPos time_ok (\<lambda>_. True) (eng_Open (eng_pdb e))" using e(2) by (simp add: table_wf_def eng_Open_def)
  have inv: "cts_inv (fork_save snap) (fork_ok snap) ?f" using assms(1) w r e(1) by (simp add: fork_holds_def cts_inv_def)
  have "cts_LoadFromFile (fork_load unsnap) t ?f = cts_LoadFromFile (fork_load unsnap) t f" for t
    by (cases "ctsindex_Retrieve (Some e) t") (simp_all add: cts_LoadFromFile_def tch_Read_def e(1) r)
  then have "cts_abs (fork_load unsnap) ?f = cts_abs (fork_load unsnap) f"
    by (simp add: fun_eq_iff cts_abs_def cts_GetUpdateMap_def assms(2))
  then have "fork_holds snap unsnap ?f c" using assms(1) inv l(2) by (simp add: fork_holds_def)
  then show ?thesis using l(1) e(1) by (auto simp: dir_holds_def)
qed

lemma empty_store:
  assumes "tch_contig ch"
  shows "dir_holds snap unsnap ([], tch_files ch) (\<lambda>_. None)"
proof -
  obtain l where l: "cts_Initialize True ([], tch_files ch) =
      Some (Some \<lparr> cts_dbIndex = Some (eng_Open []), cts_tsChunk = \<lparr> tch_files = tch_files ch, tch_nLastFile = l \<rparr>, cts_upper = [] \<rparr> :: CForkTxDB option)"
    "tch_contig \<lparr> tch_files = tch_files ch, tch_nLastFile = l \<rparr>" using reopen [OF assms] by blast
  have r: "ctsindex_Retrieve (Some (eng_Open [])) t = None" for t
    by (simp add: ctsindex_Retrieve_def kv_Read_def eng_Get_def eng_Open_def)
  have "fork_holds snap unsnap \<lparr> cts_dbIndex = Some (eng_Open []), cts_tsChunk = \<lparr> tch_files = tch_files ch, tch_nLastFile = l \<rparr>, cts_upper = [] \<rparr> (\<lambda>_. None)"
    using l(2) by (simp add: fork_holds_def cts_inv_def r cts_abs_def cts_GetUpdateMap_def cts_LoadFromFile_def) (simp add: table_wf_def eng_Open_def)
  then show ?thesis using l(1) by (auto simp: dir_holds_def)
qed

lemma new_dir: "dir_holds snap unsnap ([], \<lambda>_. None) (\<lambda>_. None)"
proof -
  have "tch_contig \<lparr> tch_files = \<lambda>_. None, tch_nLastFile = 1 \<rparr>" unfolding tch_contig_def by (intro exI [of _ 0]) auto
  from empty_store [OF this] show ?thesis by simp
qed

section \<open>The index as a map\<close>

definition fork_state :: "(u8 list \<Rightarrow> u8 list) \<Rightarrow> (u8 list \<Rightarrow> u8 list) \<Rightarrow> CForkTxDB option \<Rightarrow> ((bytes \<times> bytes) list \<times> ts_files) option
    \<Rightarrow> (uint256 \<Rightarrow> CTxIndex option) \<Rightarrow> bool" where
  "fork_state snap unsnap loaded dir c = (case loaded of
     Some f \<Rightarrow> fork_holds snap unsnap f c
   | None \<Rightarrow> dir_holds snap unsnap (case dir of Some d \<Rightarrow> d | None \<Rightarrow> ([], \<lambda>_. None)) c)"

definition txindex_inv :: "(u8 list \<Rightarrow> u8 list) \<Rightarrow> (u8 list \<Rightarrow> u8 list) \<Rightarrow> CTxIndexDB \<Rightarrow> (uint256 \<Rightarrow> uint256 \<Rightarrow> CTxIndex option) \<Rightarrow> bool" where
  "txindex_inv snap unsnap db C \<longleftrightarrow> std_sorted (txd_mapTxDB db) \<and> (\<forall>h. fork_state snap unsnap (map_of (txd_mapTxDB db) h) (txd_dirs db h) (C h))"

lemma fork_state_simps [simp]:
  "fork_state snap unsnap (Some f) dir c = fork_holds snap unsnap f c"
  "fork_state snap unsnap None (Some d) c = dir_holds snap unsnap d c"
  "fork_state snap unsnap None None (\<lambda>_. None)"
  by (simp_all add: fork_state_def new_dir)

definition txindex_small :: "(u8 list \<Rightarrow> u8 list) \<Rightarrow> CTxIndexDB \<Rightarrow> bool" where
  "txindex_small snap db \<longleftrightarrow> (\<forall>(h, f)\<in>set (txd_mapTxDB db). fork_small snap f)"

text \<open>What the operations do to the map; a step relation on the database together with the map it stands for.\<close>

definition map_update :: "(uint256 \<times> CTxIndex) list \<Rightarrow> uint256 list \<Rightarrow> (uint256 \<Rightarrow> CTxIndex option) \<Rightarrow> uint256 \<Rightarrow> CTxIndex option" where
  "map_update new del c = fold (\<lambda>txid m. m(txid := None)) del (fold (\<lambda>(txid, i) m. m(txid \<mapsto> i)) new c)"

inductive txindex_run :: "(u8 list \<Rightarrow> u8 list) \<Rightarrow> (u8 list \<Rightarrow> u8 list) \<Rightarrow> CTxIndexDB \<Rightarrow> (uint256 \<Rightarrow> uint256 \<Rightarrow> CTxIndex option) \<Rightarrow> bool"
  for snap unsnap where
  start: "txindex_run snap unsnap \<lparr> txd_mapTxDB = [], txd_dirs = \<lambda>_. None \<rparr> (\<lambda>_ _. None)"
| load: "txindex_run snap unsnap db C \<Longrightarrow> txdb_LoadFork open h db = Some (ok, db') \<Longrightarrow> txindex_run snap unsnap db' C"
| add: "txindex_run snap unsnap db C \<Longrightarrow> txdb_AddNewFork open h db = Some (ok, db') \<Longrightarrow> txindex_run snap unsnap db' (C(h := \<lambda>_. None))"
| remove: "txindex_run snap unsnap db C \<Longrightarrow> txindex_run snap unsnap (txdb_RemoveFork h db) (C(h := \<lambda>_. None))"
| update: "txindex_run snap unsnap db C \<Longrightarrow> txdb_Update (fork_load unsnap) h new del db = (ok, db')
    \<Longrightarrow> txindex_run snap unsnap db' (if ok then C(h := map_update new del (C h)) else C)"
| flush: "txindex_run snap unsnap db C \<Longrightarrow> txindex_small snap db \<Longrightarrow> fs_noticed fsys \<Longrightarrow> txdb_Flush (fork_save snap) fsys status h db = Some db' \<Longrightarrow> txindex_run snap unsnap db' C"
| flush_round: "txindex_run snap unsnap db C \<Longrightarrow> txindex_small snap db \<Longrightarrow> \<forall>h. fs_noticed (fsyss h) \<Longrightarrow> txdb_FlushRound (fork_save snap) fsyss statuses db = Some db'
    \<Longrightarrow> txindex_run snap unsnap db' C"
| restart: "txindex_run snap unsnap db C \<Longrightarrow> txindex_small snap db \<Longrightarrow> txdb_Deinitialize (fork_save snap) True (\<lambda>_. fs_working) (\<lambda>_. True) db = Some db'
    \<Longrightarrow> txindex_run snap unsnap db' C"
| clear: "txindex_run snap unsnap db C \<Longrightarrow> txindex_run snap unsnap (txdb_Clear db) (\<lambda>h. if txdb_ExistFork h db then \<lambda>_. None else C h)"

lemma inv_assign:
  assumes "txindex_inv snap unsnap db C" "fork_holds snap unsnap f c"
  shows "txindex_inv snap unsnap (db\<lparr> txd_mapTxDB := std_assign h f (txd_mapTxDB db) \<rparr>) (C(h := c))"
  using assms by (simp add: txindex_inv_def)

lemma inv_remove: "txindex_inv snap unsnap db C \<Longrightarrow> txindex_inv snap unsnap (txdb_RemoveFork h db) (C(h := \<lambda>_. None))"
  by (simp add: txindex_inv_def txdb_RemoveFork_def)

lemma inv_load:
  assumes "txindex_inv snap unsnap db C"
  shows "\<exists>db'. txdb_LoadFork open h db = Some (open \<or> txdb_ExistFork h db, db') \<and> txindex_inv snap unsnap db' C
    \<and> (open \<longrightarrow> txdb_ExistFork h db')"
proof (cases "map_of (txd_mapTxDB db) h")
  case None
  let ?dir = "case txd_dirs db h of Some dir \<Rightarrow> dir | None \<Rightarrow> ([], \<lambda>_. None)"
  have "fork_state snap unsnap None (txd_dirs db h) (C h)" using assms None unfolding txindex_inv_def by metis
  then obtain f where f: "cts_Initialize True ?dir = Some (Some f)" "fork_holds snap unsnap f (C h)" by (auto simp: fork_state_def dir_holds_def)
  let ?db = "db\<lparr> txd_mapTxDB := std_insert h f (txd_mapTxDB db), txd_dirs := (txd_dirs db)(h := None) \<rparr>"
  have "txindex_inv snap unsnap ?db C" using assms f(2) None by (simp add: txindex_inv_def std_insert_new)
  moreover have "cts_Initialize False ?dir = (Some None :: CForkTxDB option option)" by (simp add: cts_Initialize_def split: prod.splits)
  ultimately show ?thesis using f(1) None assms
    by (cases "open") (simp_all add: txdb_LoadFork_def txdb_ExistFork_def std_insert_new)
next
  case (Some f)
  then show ?thesis using assms by (simp add: txdb_LoadFork_def txdb_ExistFork_def)
qed

lemma flush_forks_ok:
  assumes "lossless snap unsnap" "\<forall>(h, f)\<in>set m. fork_holds snap unsnap f (C h) \<and> fork_small snap f" "\<forall>h. fs_noticed (fsys h)"
  shows "\<exists>m'. flush_forks (fork_save snap) fsys status fAll m = Some m' \<and> map fst m' = map fst m
    \<and> (\<forall>(h, f)\<in>set m'. fork_holds snap unsnap f (C h) \<and> (fs_accepts (fsys h) \<and> status h \<and> fAll \<longrightarrow> cts_upper f = []))"
  using assms(2)
proof (induction m)
  case (Cons a m)
  obtain h f where a: "a = (h, f)" by (cases a)
  obtain ok f' where f: "cts_Flush (fork_save snap) (fsys h) (status h) fAll f = Some (ok, f')" "fork_holds snap unsnap f' (C h)"
    "fs_accepts (fsys h) \<and> status h \<and> fAll \<longrightarrow> cts_upper f' = []"
    using fork_Flush_ok [OF assms(1), of f "C h" "fsys h" "status h" fAll] assms(3) Cons.prems by (auto simp: a)
  obtain m' where "flush_forks (fork_save snap) fsys status fAll m = Some m'" "map fst m' = map fst m"
    "\<forall>(h, f)\<in>set m'. fork_holds snap unsnap f (C h) \<and> (fs_accepts (fsys h) \<and> status h \<and> fAll \<longrightarrow> cts_upper f = [])"
    using Cons.IH Cons.prems by auto
  then show ?case using f by (intro exI [of _ "(h, f') # m'"]) (simp add: a)
qed simp

lemma inv_forks:
  assumes "txindex_inv snap unsnap db C" "txindex_small snap db"
  shows "\<forall>(h, f)\<in>set (txd_mapTxDB db). fork_holds snap unsnap f (C h) \<and> fork_small snap f"
proof safe
  fix h f assume m: "(h, f) \<in> set (txd_mapTxDB db)"
  have "map_of (txd_mapTxDB db) h = Some f" using m assms(1) by (intro map_of_is_SomeI std_sorted_distinct) (auto simp: txindex_inv_def)
  then show "fork_holds snap unsnap f (C h)" using assms(1) unfolding txindex_inv_def by (metis fork_state_simps(1))
  show "fork_small snap f" using m assms(2) by (auto simp: txindex_small_def)
qed

lemma inv_flush_forks:
  assumes "lossless snap unsnap" "txindex_inv snap unsnap db C" "txindex_small snap db" "\<forall>h. fs_noticed (fsys h)"
  shows "\<exists>m'. flush_forks (fork_save snap) fsys status fAll (txd_mapTxDB db) = Some m' \<and> txindex_inv snap unsnap (db\<lparr> txd_mapTxDB := m' \<rparr>) C
    \<and> (\<forall>(h, f)\<in>set m'. fs_accepts (fsys h) \<and> status h \<and> fAll \<longrightarrow> cts_upper f = [])"
proof -
  obtain m' where m: "flush_forks (fork_save snap) fsys status fAll (txd_mapTxDB db) = Some m'" "map fst m' = map fst (txd_mapTxDB db)"
    "\<forall>(h, f)\<in>set m'. fork_holds snap unsnap f (C h) \<and> (fs_accepts (fsys h) \<and> status h \<and> fAll \<longrightarrow> cts_upper f = [])"
    using flush_forks_ok [OF assms(1) inv_forks [OF assms(2,3)] assms(4), of status fAll] by blast
  have "fork_state snap unsnap (map_of m' h) (txd_dirs db h) (C h)" for h
  proof (cases "map_of m' h")
    case None
    then have "map_of (txd_mapTxDB db) h = None" using m(2) by (metis map_of_eq_None_iff list.set_map)
    then show ?thesis using assms(2) None unfolding txindex_inv_def by metis
  next
    case (Some f)
    then show ?thesis using m(3) map_of_SomeD [OF Some] by auto
  qed
  then have "txindex_inv snap unsnap (db\<lparr> txd_mapTxDB := m' \<rparr>) C" using assms(2) m(2) by (simp add: txindex_inv_def)
  then show ?thesis using m(1,3) by fast
qed

lemma inv_close:
  assumes "txindex_inv snap unsnap db C" "\<forall>(h, f)\<in>set (txd_mapTxDB db). cts_upper f = []"
  shows "txindex_inv snap unsnap (db\<lparr> txd_mapTxDB := [], txd_dirs := fork_dirs (txd_mapTxDB db) (txd_dirs db) \<rparr>) C"
proof -
  have "fork_state snap unsnap None (fork_dirs (txd_mapTxDB db) (txd_dirs db) h) (C h)" for h
  proof (cases "map_of (txd_mapTxDB db) h")
    case None
    then show ?thesis using assms(1) unfolding txindex_inv_def by (simp add: fork_dirs_def) metis
  next
    case (Some f)
    then have "fork_holds snap unsnap f (C h)" using assms(1) unfolding txindex_inv_def by (metis fork_state_simps(1))
    then show ?thesis using closed_fork assms(2) map_of_SomeD [OF Some] Some by (auto simp: fork_dirs_def)
  qed
  then show ?thesis by (simp add: txindex_inv_def)
qed

lemma inv_clear:
  assumes "txindex_inv snap unsnap db C"
  shows "txindex_inv snap unsnap (txdb_Clear db) (\<lambda>h. if txdb_ExistFork h db then \<lambda>_. None else C h)"
proof -
  have "fork_state snap unsnap None (txd_dirs (txdb_Clear db) h) (if txdb_ExistFork h db then \<lambda>_. None else C h)" for h
  proof (cases "map_of (txd_mapTxDB db) h")
    case None
    then show ?thesis using assms unfolding txindex_inv_def by (simp add: txdb_Clear_def fork_dirs_def txdb_ExistFork_def map_of_map_snd) metis
  next
    case (Some f)
    then have f: "fork_holds snap unsnap f (C h)" using assms unfolding txindex_inv_def by (metis fork_state_simps(1))
    then obtain e where "cts_dbIndex f = Some e" by (auto simp: fork_holds_def cts_inv_def split: option.splits)
    then have "txd_dirs (txdb_Clear db) h = Some ([], tch_files (cts_tsChunk f))"
      using Some by (simp add: txdb_Clear_def fork_dirs_def map_of_map_snd cts_RemoveAll_def kv_RemoveAll_def eng_RemoveAll_def eng_Open_def)
    then show ?thesis using Some empty_store f by (simp add: txdb_ExistFork_def fork_holds_def)
  qed
  then show ?thesis by (simp add: txindex_inv_def txdb_Clear_def)
qed

lemma inv_update:
  assumes "lossless snap unsnap" "txindex_inv snap unsnap db C"
  shows "case txdb_Update (fork_load unsnap) h new del db of (ok, db') \<Rightarrow> ok = txdb_ExistFork h db \<and> txdb_ExistFork g db' = txdb_ExistFork g db
    \<and> txindex_inv snap unsnap db' (if ok then C(h := map_update new del (C h)) else C)"
proof (cases "map_of (txd_mapTxDB db) h")
  case (Some f)
  then have "fork_holds snap unsnap f (C h)" using assms(2) unfolding txindex_inv_def by (metis fork_state_simps(1))
  from fork_Update_ok [OF assms(1) this, of new del]
  have "fork_holds snap unsnap (fork_Update (fork_load unsnap) new del f) (map_update new del (C h))" unfolding map_update_def .
  from inv_assign [OF assms(2) this, of h] show ?thesis using Some by (simp only: txdb_Update_def option.case prod.case if_True) (simp add: txdb_ExistFork_def)
qed (use assms in \<open>simp add: txdb_Update_def txdb_ExistFork_def\<close>)

lemma txindex_run_inv:
  assumes "lossless snap unsnap" "txindex_run snap unsnap db C"
  shows "txindex_inv snap unsnap db C"
  using assms(2)
proof (induction rule: txindex_run.induct)
  case start
  then show ?case by (simp add: txindex_inv_def)
next
  case (load db C op h ok db')
  then show ?case using inv_load [of snap unsnap db C op h] by auto
next
  case (add db C op h ok db')
  from inv_load [OF inv_remove [OF add.IH, of h], of op h] add.hyps(2) show ?case by (metis txdb_AddNewFork_def option.inject prod.inject)
next
  case (remove db C h)
  show ?case by (rule inv_remove [OF remove.IH])
next
  case (update db C h new del ok db')
  from inv_update [OF assms(1) update.IH, where h = h and g = h and new = new and del = del] show ?case
    unfolding update.hyps(2) prod.case by blast
next
  case (flush db C fsys status h db')
  show ?case
  proof (cases "map_of (txd_mapTxDB db) h")
    case (Some f)
    then have f: "fork_holds snap unsnap f (C h)" "fork_small snap f" using inv_forks [OF flush.IH flush.hyps(2)] map_of_SomeD [OF Some] by auto
    obtain ok f' where "cts_Flush (fork_save snap) fsys status True f = Some (ok, f')" "fork_holds snap unsnap f' (C h)"
      using fork_Flush_ok [OF assms(1) f flush.hyps(3)] by blast
    then show ?thesis using inv_assign [OF flush.IH, of f' "C h" h] flush.hyps(4) Some by (auto simp: txdb_Flush_def fun_upd_triv)
  qed (use flush in \<open>auto simp: txdb_Flush_def\<close>)
next
  case (flush_round db C fsyss statuses db')
  then show ?case using inv_flush_forks [OF assms(1) flush_round.IH flush_round.hyps(2,3), of statuses False] by (auto simp: txdb_FlushRound_def)
next
  case (restart db C db')
  obtain m where m: "flush_forks (fork_save snap) (\<lambda>_. fs_working) (\<lambda>_. True) True (txd_mapTxDB db) = Some m" "txindex_inv snap unsnap (db\<lparr> txd_mapTxDB := m \<rparr>) C"
    "\<forall>(h, f)\<in>set m. cts_upper f = []"
    using inv_flush_forks [OF assms(1) restart.IH restart.hyps(2), of "\<lambda>_. fs_working" "\<lambda>_. True" True] by auto
  then show ?case using inv_close [OF m(2)] restart.hyps(3) by (auto simp: txdb_Deinitialize_def)
next
  case (clear db C)
  show ?case by (rule inv_clear [OF clear.IH])
qed

section \<open>The properties\<close>

lemma inv_Retrieve:
  assumes "lossless snap unsnap" "txindex_inv snap unsnap db C"
  shows "txdb_Retrieve (fork_load unsnap) h txid False db = (if txdb_ExistFork h db then C h txid else None, db)"
proof (cases "map_of (txd_mapTxDB db) h")
  case (Some f)
  then have "fork_holds snap unsnap f (C h)" using assms(2) unfolding txindex_inv_def by (metis fork_state_simps(1))
  moreover have "std_sorted (txd_mapTxDB db)" using assms(2) by (simp add: txindex_inv_def)
  ultimately show ?thesis using Some fork_Retrieve_ok [OF assms(1)] by (simp add: txdb_Retrieve_def txdb_ExistFork_def std_assign_same)
qed (simp add: txdb_Retrieve_def txdb_ExistFork_def)

lemma retrieve_any_ok:
  assumes "lossless snap unsnap" "\<forall>(h, f)\<in>set m. fork_holds snap unsnap f (C h)"
  shows "case retrieve_any (fork_load unsnap) txid m of
      Some (i, h) \<Rightarrow> h \<in> fst ` set m \<and> C h txid = Some i
    | None \<Rightarrow> \<forall>h\<in>fst ` set m. C h txid = None"
  using assms(2)
proof (induction m)
  case (Cons a m)
  obtain h f where a: "a = (h, f)" by (cases a)
  have "fst (cts_Retrieve (fork_load unsnap) False (txid_GetTxTime txid) (txid_GetTxHash txid) f) = C h txid"
    using fork_Retrieve_ok [OF assms(1), of f "C h" txid] Cons.prems by (auto simp: a)
  then show ?case using Cons.IH Cons.prems by (cases "C h txid") (auto simp: a split: option.splits)
qed simp

definition example_txindex :: CTxIndex where
  "example_txindex = \<lparr> ti_nBlockHeight = 3, ti_nFile = 1, ti_nOffset = 80 \<rparr>"

definition example_txdb :: CTxIndexDB where
  "example_txdb = \<lparr> txd_mapTxDB = [(1, \<lparr> cts_dbIndex = Some (eng_Open []), cts_tsChunk = \<lparr> tch_files = \<lambda>_. None, tch_nLastFile = 1 \<rparr>,
     cts_upper = [(0, [(5, example_txindex)])] \<rparr>)], txd_dirs = \<lambda>_. None \<rparr>"

abbreviation example_map :: "uint256 \<Rightarrow> uint256 \<Rightarrow> CTxIndex option" where
  "example_map \<equiv> (\<lambda>_ _. None)(1 := [5 \<mapsto> example_txindex])"

lemma example_lossless: "lossless (\<lambda>bs. bs) (\<lambda>bs. bs)"
  by (simp add: lossless_def)

lemma example_run: "txindex_run (\<lambda>bs. bs) (\<lambda>bs. bs) example_txdb example_map"
proof -
  let ?db = "\<lparr> txd_mapTxDB = [(1, \<lparr> cts_dbIndex = Some (eng_Open []), cts_tsChunk = \<lparr> tch_files = \<lambda>_. None, tch_nLastFile = 1 \<rparr>, cts_upper = [] \<rparr>)], txd_dirs = \<lambda>_. None \<rparr> :: CTxIndexDB"
  have l: "last_file_loop (\<lambda>_. None) 1 = Some 1" by (subst last_file_loop.simps) simp
  have "txdb_AddNewFork True 1 \<lparr> txd_mapTxDB = [], txd_dirs = \<lambda>_. None \<rparr> = Some (True, ?db)"
    by (simp add: txdb_AddNewFork_def txdb_LoadFork_def txdb_RemoveFork_def txdb_ExistFork_def cts_Initialize_def l fun_upd_idem std_erase_def)
  from txindex_run.add [OF txindex_run.start this] have r: "txindex_run (\<lambda>bs. bs) (\<lambda>bs. bs) ?db (\<lambda>_ _. None)" by (simp add: fun_upd_idem)
  have "txdb_Update (fork_load (\<lambda>bs. bs)) 1 [(5, example_txindex)] [] ?db = (True, example_txdb)"
    by (simp add: txdb_Update_def fork_Update_def cts_Update_def cts_GetUpdateMap_def cts_LoadFromFile_def ctsindex_Retrieve_def kv_Read_def eng_Get_def eng_Open_def
        txid_GetTxTime_def txid_GetTxHash_def Get32_def example_txdb_def)
  from txindex_run.update [OF r this] show ?thesis by (simp add: map_update_def)
qed

lemma example_small: "txindex_small (\<lambda>bs. bs) example_txdb"
proof -
  have l: "length (save_TxEntry x) = 40" for x using centry.ssize_save [of x] by simp
  have "length (save_string (save_TxEntry x)) = 41" for x
    using str.ssize_save [of "save_TxEntry x"] l [of x] by (simp add: size_string_def size_varint_def)
  then show ?thesis by (simp add: txindex_small_def example_txdb_def fork_small_def cts_small_def fork_ok_def fits_def l fork_save_def save_CCTSChunkSnappy_def MAX_FILE_SIZE_def)
qed

text \<open>
  C9: the transaction index is a map, as long as no write is cut off silently.  After any run of the
  operations on the index - forks loaded, added and removed, entries updated and deleted, flushes of one fork or of
  all that succeed or fail, clearing, and shutting down with the start that follows - looking a transaction up in a
  loaded fork returns the entry written last for it and not deleted since, and leaves the index as it is; the search
  in all forks returns an entry of a loaded fork, and finds none only if no loaded fork has one.

  The flushes of the run may fail in any way that the code notices: a file cannot be created, an
  exception is thrown in the middle of a record, the key-value store refuses the positions.  What the code does
  not notice is excluded: a file that cannot be opened or takes only a part of the bytes, which
  \<^verbatim>\<open>CStream::Write\<close> does not report (lemma \<open>cut_flush_loses_entry\<close> shows that the entries are lost then).  The
  shutdown is one with the flush thread and a working file system, reads from the stores do not fail, and the
  compression of the chunks is lossless.
\<close>

theorem txindex_db_is_map:
  assumes "lossless snap unsnap" "txindex_run snap unsnap db C"
  shows "txdb_Retrieve (fork_load unsnap) h txid False db = (if txdb_ExistFork h db then C h txid else None, db)
    \<and> (case txdb_RetrieveAny (fork_load unsnap) txid db of
        Some (i, h') \<Rightarrow> txdb_ExistFork h' db \<and> C h' txid = Some i
      | None \<Rightarrow> \<forall>h'. txdb_ExistFork h' db \<longrightarrow> C h' txid = None)"
proof -
  note inv = txindex_run_inv [OF assms]
  have "fork_holds snap unsnap f (C h)" if "(h, f) \<in> set (txd_mapTxDB db)" for h f
    using that inv map_of_is_SomeI [OF std_sorted_distinct that] unfolding txindex_inv_def by (metis fork_state_simps(1))
  then have "case txdb_RetrieveAny (fork_load unsnap) txid db of
      Some (i, h) \<Rightarrow> h \<in> fst ` set (txd_mapTxDB db) \<and> C h txid = Some i
    | None \<Rightarrow> \<forall>h\<in>fst ` set (txd_mapTxDB db). C h txid = None"
    unfolding txdb_RetrieveAny_def by (intro retrieve_any_ok [OF assms(1)]) auto
  then show ?thesis using inv_Retrieve [OF assms(1) inv] by (auto simp: txdb_ExistFork_def map_of_eq_None_iff split: option.splits)
qed

theorem txindex_db_is_map_witness:
  "\<exists>db. txdb_Flush (fork_save (\<lambda>bs. bs)) fs_working True 1 example_txdb = Some db \<and> txdb_Retrieve (fork_load (\<lambda>bs. bs)) 1 5 False db = (Some example_txindex, db)"
proof -
  have h: "fork_holds (\<lambda>bs. bs) (\<lambda>bs. bs) f (example_map h) \<and> fork_small (\<lambda>bs. bs) f" if "(h, f) \<in> set (txd_mapTxDB example_txdb)" for h f
    using inv_forks [OF txindex_run_inv [OF example_lossless example_run] example_small] that by auto
  obtain f where f: "txd_mapTxDB example_txdb = [(1, f)]" by (simp add: example_txdb_def)
  have hf: "fork_holds (\<lambda>bs. bs) (\<lambda>bs. bs) f (example_map 1) \<and> fork_small (\<lambda>bs. bs) f" by (rule h) (simp add: f)
  obtain ok f' where "cts_Flush (fork_save (\<lambda>bs. bs)) fs_working True True f = Some (ok, f')"
    using fork_Flush_ok [OF example_lossless conjunct1 [OF hf] conjunct2 [OF hf], of fs_working True True] by auto
  then obtain db where d: "txdb_Flush (fork_save (\<lambda>bs. bs)) fs_working True 1 example_txdb = Some db" "txdb_ExistFork 1 db"
    by (simp add: txdb_Flush_def f txdb_ExistFork_def)
  have "txindex_run (\<lambda>bs. bs) (\<lambda>bs. bs) db example_map" by (rule txindex_run.flush [OF example_run example_small _ d(1)]) simp
  from txindex_db_is_map [OF example_lossless this, of 1 5] show ?thesis using d by simp
qed

text \<open>
  A disk that is full: the file takes none of the bytes and the stream does not tell.  The flush
  stores a position all the same and empties the memory, and the entry cannot be found any more.
\<close>

definition full_disk :: file_sys where
  "full_disk = \<lparr> fs_create = True, fs_io = \<lambda>_. IoCut 0 (- 1) (- 1) \<rparr>"

lemma cut_flush_loses_entry:
  "\<exists>db. txdb_Flush (fork_save (\<lambda>bs. bs)) full_disk True 1 example_txdb = Some db
    \<and> txdb_Retrieve (fork_load (\<lambda>bs. bs)) 1 5 False example_txdb = (Some example_txindex, example_txdb)
    \<and> fst (txdb_Retrieve (fork_load (\<lambda>bs. bs)) 1 5 False db) = None"
proof -
  obtain f where f: "txd_mapTxDB example_txdb = [(1, f)]" "f = \<lparr> cts_dbIndex = Some (eng_Open []), cts_tsChunk = \<lparr> tch_files = \<lambda>_. None, tch_nLastFile = 1 \<rparr>,
     cts_upper = [(0, [(5, example_txindex)])] \<rparr>" by (simp add: example_txdb_def)
  let ?x = "[(5, example_txindex)] :: fork_chunk" and ?p = "CDiskPos 1 (ucast (- 1 :: u64))"
  let ?c = "\<lparr> tch_files = [1 \<mapsto> []], tch_nLastFile = 1 \<rparr>"
  let ?f = "\<lparr> cts_dbIndex = Some (eng_Open [(save_time 0, save_CDiskPos ?p)]), cts_tsChunk = ?c, cts_upper = [] \<rparr> :: CForkTxDB"
  have l: "length (fork_save (\<lambda>bs. bs) ?x) = 41"
    using str.ssize_save [of "save_TxEntry (5, example_txindex)"] centry.ssize_save [of "(5, example_txindex)"]
    by (simp add: fork_save_def save_CCTSChunkSnappy_def size_string_def size_varint_def)
  have g: "GetLastFilePath True 41 (\<lambda>_. None) 1 = Some (Some 1, [1 \<mapsto> []], 1)" by (subst GetLastFilePath.simps) (simp add: MAX_FILE_SIZE_def)
  have "write_batch_loop (fork_save (\<lambda>bs. bs)) full_disk 0 [?x] [] (cts_tsChunk f) = Some (True, [?p], ?c)"
    by (subst write_batch_loop.simps) (simp add: full_disk_def f l g, subst write_batch_loop.simps, simp)
  moreover have "ctsindex_Update True [0] [?p] [] (cts_dbIndex f) = (True, cts_dbIndex ?f)"
    by (simp add: ctsindex_Update_def kv_txn_def kv_TxnBegin_def kv_TxnCommit_def kv_lift_def eng_TxnBegin_def eng_TxnCommit_def kv_Write_def eng_Put_def f eng_Open_def)
  ultimately have "cts_Flush (fork_save (\<lambda>bs. bs)) full_disk True True f = Some (True, ?f)"
    by (simp add: cts_Flush_def tch_WriteBatch_def f)
  then have fl: "txdb_Flush (fork_save (\<lambda>bs. bs)) full_disk True 1 example_txdb = Some (example_txdb\<lparr> txd_mapTxDB := [(1, ?f)] \<rparr>)"
    by (simp add: txdb_Flush_def f(1))
  have pos: "ctsindex_Retrieve (cts_dbIndex ?f) 0 = Some ?p"
    using cdpos.load_save [of ?p "[]"] by (simp add: ctsindex_Retrieve_def kv_Read_def eng_Get_def eng_Open_def)
  have t: "txid_GetTxTime 5 = 0" "txid_GetTxHash 5 = 5" by (simp_all add: txid_GetTxTime_def txid_GetTxHash_def Get32_def)
  have "cts_LoadFromFile (fork_load (\<lambda>bs. bs)) 0 ?f = None"
    using pos by (simp add: cts_LoadFromFile_def tch_Read_def ts_ReadFile_def fork_load_def load_CCTSChunkSnappy_def rbind_def load_string_def load_varint_def stream_read_def)
  then have "fst (txdb_Retrieve (fork_load (\<lambda>bs. bs)) 1 5 False (example_txdb\<lparr> txd_mapTxDB := [(1, ?f)] \<rparr>)) = None"
    by (simp add: txdb_Retrieve_def cts_Retrieve_def t)
  moreover have "txdb_Retrieve (fork_load (\<lambda>bs. bs)) 1 5 False example_txdb = (Some example_txindex, example_txdb)"
    by (simp add: txdb_Retrieve_def cts_Retrieve_def t f)
  ultimately show ?thesis using fl by blast
qed

text \<open>
  C10: shutting down keeps the index.  When the flush thread runs, the file system and the key-value
  store work, and the groups in memory fit into files, shutting down returns; any fork can then be loaded again, and
  every transaction is found there as before.
\<close>

theorem txindex_survives_restart:
  assumes "lossless snap unsnap" "txindex_run snap unsnap db C" "txindex_small snap db"
  shows "\<exists>db' db''. txdb_Deinitialize (fork_save snap) True (\<lambda>_. fs_working) (\<lambda>_. True) db = Some db'
    \<and> txdb_LoadFork True h db' = Some (True, db'') \<and> (\<forall>txid. txdb_Retrieve (fork_load unsnap) h txid False db'' = (C h txid, db''))"
proof -
  note inv = txindex_run_inv [OF assms(1,2)]
  obtain m where m: "flush_forks (fork_save snap) (\<lambda>_. fs_working) (\<lambda>_. True) True (txd_mapTxDB db) = Some m" "txindex_inv snap unsnap (db\<lparr> txd_mapTxDB := m \<rparr>) C"
    "\<forall>(h, f)\<in>set m. cts_upper f = []"
    using inv_flush_forks [OF assms(1) inv assms(3), of "\<lambda>_. fs_working" "\<lambda>_. True" True] by auto
  have inv': "txindex_inv snap unsnap (db\<lparr> txd_mapTxDB := [], txd_dirs := fork_dirs m (txd_dirs db) \<rparr>) C" using inv_close [OF m(2)] m(3) by simp
  from inv_load [OF inv', of True h] obtain db'' where "txdb_LoadFork True h (db\<lparr> txd_mapTxDB := [], txd_dirs := fork_dirs m (txd_dirs db) \<rparr>) = Some (True, db'')"
    "txindex_inv snap unsnap db'' C" "txdb_ExistFork h db''" by auto
  then show ?thesis using m(1) inv_Retrieve [OF assms(1)] by (simp add: txdb_Deinitialize_def)
qed

theorem txindex_survives_restart_witness:
  "\<exists>db' db''. txdb_Deinitialize (fork_save (\<lambda>bs. bs)) True (\<lambda>_. fs_working) (\<lambda>_. True) example_txdb = Some db'
    \<and> txdb_LoadFork True 1 db' = Some (True, db'') \<and> txdb_Retrieve (fork_load (\<lambda>bs. bs)) 1 5 False db'' = (Some example_txindex, db'')"
  using txindex_survives_restart [OF example_lossless example_run example_small, of 1] by (metis fun_upd_same)

end
