(* ===== verification/Spec2Isabelle.thy ===== *)
theory Spec2Isabelle
  imports Chain_Redeem Reward_Payout Coin_Balance TxIndex_DB
begin

text \<open>
  A verification library for the Minemon node (C++ sources under \<^verbatim>\<open>src/src\<close>).  The node keeps a chain of
  blocks with proof of work.  A block carries a mint transaction and other transactions, each of which
  spends unspent outputs of one address.  Addresses are public keys or templates: small programs in a
  fixed set of classes, among them pledges to a miner and redeemed pledges, for which the chain pays
  rewards.  The parts and the theories that model them, from the bottom up:

  \<^bold>\<open>Numbers and bytes.\<close>  \<open>Prelude\<close> has the machine integers and the little-endian memory image.
  \<open>UInt_Limbs\<close>, \<open>UInt_Division\<close> and \<open>UInt256\<close> model \<^verbatim>\<open>crypto/uint256.h\<close>: every operator of \<^verbatim>\<open>base_uint\<close>
  on the array of 32-bit limbs, refined to natural numbers and to 256-bit words (locale \<open>wide_uint\<close>), and the
  compact form of targets.  The content of the accumulator that the product of two numbers leaves uninitialised is an
  argument of the model.  \<open>Stream_Codec\<close> models \<^verbatim>\<open>xengine/stream\<close>; a serialisable class is a triple of
  its save, load and size passes and an interpretation of the locale \<open>codec\<close>.

  \<^bold>\<open>Ledger data.\<close>  \<open>Ledger_Tx\<close> models \<^verbatim>\<open>common/transaction.h\<close> and \<^verbatim>\<open>common/destination.h\<close>,
  \<open>Ledger_Block\<close> \<^verbatim>\<open>common/block.h\<close> and \<^verbatim>\<open>common/proof.h\<close> with the Merkle tree, \<open>Fork_Profile\<close>
  \<^verbatim>\<open>common/profile.cpp\<close>, \<^verbatim>\<open>common/forkcontext.h\<close> and \<^verbatim>\<open>xengine/compacttv.h\<close>, \<open>Address_Text\<close> the text
  forms (\<^verbatim>\<open>minemon/address.cpp\<close>, \<^verbatim>\<open>crypto/base32.cpp\<close>, \<^verbatim>\<open>crypto/crc24q.cpp\<close>).  Hash functions and
  ed25519 are parameters; theorems about hashes end in an explicit collision.

  \<^bold>\<open>Authorisation.\<close>  \<open>Multi_Sign\<close> models the multiple signature of \<^verbatim>\<open>crypto/crypto.cpp\<close>,
  \<open>Tx_Template\<close> the classes under \<^verbatim>\<open>common/template\<close> and the signature checks of
  \<^verbatim>\<open>common/destination.cpp\<close>; \<open>Template_Auth\<close> shows what an accepted signature authorises and that built
  signatures are accepted.

  \<^bold>\<open>Consensus rules.\<close>  \<open>Core_Difficulty\<close>, \<open>Core_Validate\<close> and \<open>Core_Verify\<close> model
  \<^verbatim>\<open>minemon/core.cpp\<close>: targets, proof of work, rewards, the context-free checks and the checks of a
  transaction against the outputs it spends.  \<open>Chain_Redeem\<close>, \<open>Chain_Reward\<close> and \<open>Reward_Payout\<close> model the
  rules of \<^verbatim>\<open>minemon/blockchain.cpp\<close> for redeemed pledges, for the pledge reward of a block and for the
  reward transactions of a period.  The lemmas show what an accepted transaction or block
  guarantees, that rewards are distributed without loss and each paid once to the right address, and which rule
  answers each violation.

  \<^bold>\<open>Storage.\<close>  \<open>Ordered_Map\<close> models \<^verbatim>\<open>std::map\<close>, \<open>KV_Store\<close> the engine over LevelDB
  (\<^verbatim>\<open>storage/leveldbeng.cpp\<close>, \<^verbatim>\<open>xengine/db/kvdb.h\<close>, locale \<open>kv_table\<close>).  \<open>Unspent_DB\<close> models
  \<^verbatim>\<open>storage/unspentdb.cpp\<close> with its two caches and the flush thread (locale \<open>unspent_store\<close>),
  \<open>Block_View\<close> and \<open>Chain_View\<close> the view of a block of \<^verbatim>\<open>storage/blockbase.cpp\<close> and the reorganisation,
  \<open>Block_Cache\<close>, \<open>Pledge_DB\<close> and \<open>Redeem_DB\<close> the databases of pledges and redeemed amounts with complete
  and incremental records (locales \<open>cached_table\<close> and \<open>layered_table\<close>), \<open>Template_DB\<close> the database of
  template data and the bounded cache of \<^verbatim>\<open>xengine/cache.h\<close>, and \<open>Block_Changes\<close> the records a block
  adds to them.  The lemmas show that the databases refine plain maps under every order of updates,
  reads and flushes, that committing a view moves the unspent outputs to the new chain, and
  (\<open>Coin_Balance\<close>) that recorded pledges and redeemed amounts are sums of unspent outputs, where the
  check of the templates in a block confines the pledges of an address to the miners its templates name.

  \<^bold>\<open>Files.\<close>  \<open>Circular_Buf\<close> models the circular buffer of \<^verbatim>\<open>xengine/stream/circular.cpp\<close> and refines it
  to a queue of bytes.  \<open>Time_Series\<close> models \<^verbatim>\<open>storage/timeseries.h\<close>: the numbered files of blocks with a cache in such
  a buffer and the walk that repairs them after a crash (locale \<open>time_series\<close>).  \<open>CTS_DB\<close> models \<^verbatim>\<open>storage/ctsdb.h\<close>,
  groups of entries in memory above sorted chunks in files (locale \<open>cts_chunks\<close>), and \<open>TxIndex_DB\<close> the
  transaction index of \<^verbatim>\<open>storage/txindexdb.cpp\<close> over it.  The lemmas show that blocks are read back, that a
  cut-off write loses nothing else, and that the index is one map across flushes, failures that are noticed, and
  restarts.  What the file system does with each record of a batch is an argument (\<open>file_sys\<close>): it may complete it, throw,
  or take only a part of the bytes, which the code does not notice.

  \<^bold>\<open>State and errors.\<close>  A class is a \<open>record\<close> and a method a function from the object to the result
  and the new object.  Exceptions and undefined behaviour are values of \<open>stream_error\<close> in a sum type
  (\<open>OutOfBounds\<close> stands for undefined behaviour), error codes the values of \<open>Errno\<close>.  A write to a
  database takes the answer of LevelDB as a parameter, so that a refused write is a branch; reads are assumed to find
  a key or not, and not to fail.  Pointers into the
  block index are block hashes.  Threads appear where the code is meant to run concurrently, as the
  interleavings of a step relation.

  \<^bold>\<open>Loops.\<close>  Loops over data are total functions.  \<open>GetBranch_loop\<close>, \<open>rollback\<close>,
  \<open>index_IsEquivalent_from\<close> and \<open>period_end\<close> follow pointers and are partial functions whose value \<open>None\<close>
  means that the loop does not end; their theorems state that they return on well-formed block
  indexes.  The loops over numbered files (\<open>last_file_loop\<close>, \<open>GetLastFilePath\<close>, \<open>RemoveFollowUpFile\<close>,
  \<open>WalkThrough_loop\<close>, \<open>write_batch_loop\<close>) and \<open>VacateCache\<close> are partial functions as well, and return for objects
  that fit into a file.  No definition uses fuel.

  \<^bold>\<open>Not modelled.\<close>  The transaction pool and the inventory scheduler, the network, the wallet, the
  remote procedure calls and the thread framework: socket, thread and JSON plumbing around the
  modules above.  The locks of the databases are not modelled apart from the unspent database.
  LevelDB and Snappy are third-party code; a lossless compression is a parameter.
\<close>

end
